(* ===== verification/Fabric.thy ===== *)
theory Fabric
  imports Prelude
begin

text \<open>
  The vocabulary of the dataflow fabric: the 32-bit wavelet (\<open>Wavelet.h\<close>), the five router
  ports, direction sets and the 5-bit colors (\<open>Color.h\<close>, \<open>Color.cpp\<close>).
\<close>

unbundle bit_operations_syntax

section \<open>Wavelets\<close>

record wavelet =
  w_data :: u16
  w_control :: u16

definition kDataBits :: nat where
  "kDataBits = 16"

definition Pack :: "wavelet \<Rightarrow> u32" where
  "Pack w = push_bit kDataBits (ucast (w_control w)) OR ucast (w_data w)"

definition Unpack :: "u32 \<Rightarrow> wavelet" where
  "Unpack word = \<lparr>w_data = ucast (word AND 0xFFFF), w_control = ucast (drop_bit kDataBits word)\<rparr>"

definition MakeWavelet :: "u16 \<Rightarrow> u16 \<Rightarrow> wavelet" where
  "MakeWavelet data control = \<lparr>w_data = data, w_control = control\<rparr>"

section \<open>Directions and direction sets\<close>

text \<open>\<open>DirCount\<close> is the enumerator \<open>Dir::Count\<close> that closes the C++ enumeration.\<close>

datatype dir = Ramp | East | West | North | South | DirCount

fun dir_code :: "dir \<Rightarrow> nat" where
  "dir_code Ramp = 0"
| "dir_code East = 1"
| "dir_code West = 2"
| "dir_code North = 3"
| "dir_code South = 4"
| "dir_code DirCount = 5"

definition kNumDirs :: nat where
  "kNumDirs = dir_code DirCount"

record dir_mask =
  mask_bits :: u8

definition dir_mask_of :: "dir \<Rightarrow> dir_mask" where
  "dir_mask_of d = \<lparr>mask_bits = push_bit (dir_code d) 1\<rparr>"

definition mask_from_bits :: "u8 \<Rightarrow> dir_mask" where
  "mask_from_bits b = \<lparr>mask_bits = b\<rparr>"

definition mask_or :: "dir_mask \<Rightarrow> dir_mask \<Rightarrow> dir_mask" where
  "mask_or a b = mask_from_bits (mask_bits a OR mask_bits b)"

definition HasDir :: "dir_mask \<Rightarrow> dir \<Rightarrow> bool" where
  "HasDir m d \<longleftrightarrow> mask_bits m AND mask_bits (dir_mask_of d) \<noteq> 0"

text \<open>
  \<open>ForEachDir\<close> calls its function for the ports \<open>0..4\<close> whose bit is set, in that order: the
  model is the list of those ports, over which the callers iterate.
\<close>

definition all_dirs :: "dir list" where
  "all_dirs = [Ramp, East, West, North, South]"

definition ForEachDir :: "dir_mask \<Rightarrow> dir list" where
  "ForEachDir m = filter (\<lambda>d. mask_bits m AND push_bit (dir_code d) 1 \<noteq> 0) all_dirs"

definition PopCount :: "dir_mask \<Rightarrow> nat" where
  "PopCount m = foldl (\<lambda>n d. Suc n) 0 (ForEachDir m)"

fun DirName :: "dir \<Rightarrow> string" where
  "DirName Ramp = ''ramp''"
| "DirName East = ''east''"
| "DirName West = ''west''"
| "DirName North = ''north''"
| "DirName South = ''south''"
| "DirName DirCount = ''unknown''"

section \<open>Colors\<close>

record color =
  color_id :: u8

definition kNumRoutable :: nat where
  "kNumRoutable = 24"

definition kMaxRoutable :: u8 where
  "kMaxRoutable = 23"

definition kMaxEncodable :: u8 where
  "kMaxEncodable = 31"

definition color_from_bits :: "u32 \<Rightarrow> color option" where
  "color_from_bits i =
     (if ucast kMaxEncodable < i then None else Some \<lparr>color_id = ucast i\<rparr>)"

definition Routable :: "u32 \<Rightarrow> color option" where
  "Routable i = (if of_nat kNumRoutable \<le> i then None else Some \<lparr>color_id = ucast i\<rparr>)"

definition IsRoutable :: "color \<Rightarrow> bool" where
  "IsRoutable c \<longleftrightarrow> color_id c \<le> kMaxRoutable"

abbreviation cid :: "color \<Rightarrow> nat" where
  "cid c \<equiv> unat (color_id c)"

record color_config =
  cfg_color :: color
  cfg_rx :: dir
  cfg_tx :: dir_mask

section \<open>Lemmas\<close>

lemma word_FFFF_eq_mask: "(0xFFFF :: u32) = mask 16"
  by (simp add: mask_eq_exp_minus_1)

lemma Unpack_Pack [simp]: "Unpack (Pack w) = w"
proof -
  have "(ucast (Pack w AND 0xFFFF) :: u16) = w_data w"
    unfolding word_FFFF_eq_mask
    by (rule bit_word_eqI) (auto simp: Pack_def kDataBits_def bit_simps)
  moreover have "(ucast (drop_bit 16 (Pack w)) :: u16) = w_control w"
    by (rule bit_word_eqI) (auto simp: Pack_def kDataBits_def bit_simps dest: bit_imp_le_length)
  ultimately show ?thesis by (simp add: Unpack_def kDataBits_def)
qed

lemma Pack_Unpack [simp]: "Pack (Unpack v) = v"
  unfolding Pack_def Unpack_def word_FFFF_eq_mask
  by (rule bit_word_eqI) (auto simp: kDataBits_def bit_simps)

lemma length_ForEachDir: "PopCount m = length (ForEachDir m)"
proof -
  have "foldl (\<lambda>n d. Suc n) k xs = k + length xs" for k and xs :: "dir list"
    by (induction xs arbitrary: k) simp_all
  then show ?thesis by (simp add: PopCount_def)
qed

lemma distinct_all_dirs [simp]: "distinct all_dirs"
  by (simp add: all_dirs_def)

lemma distinct_ForEachDir [simp]: "distinct (ForEachDir m)"
  by (simp add: ForEachDir_def)

lemma set_ForEachDir: "set (ForEachDir m) \<subseteq> {Ramp, East, West, North, South}"
  by (auto simp: ForEachDir_def all_dirs_def)

lemma dir_code_lt: "d \<noteq> DirCount \<Longrightarrow> dir_code d < 5"
  by (cases d) simp_all

lemma and_push_bit_one: "(w :: u8) AND push_bit n 1 \<noteq> 0 \<longleftrightarrow> n < 8 \<and> bit w n"
proof
  assume "w AND push_bit n 1 \<noteq> 0"
  then obtain k where "bit (w AND push_bit n 1) k"
    by (metis bit_eq_iff bit_0_eq bot_apply bot_bool_def)
  then show "n < 8 \<and> bit w n"
    by (auto simp: bit_simps)
next
  assume n: "n < 8 \<and> bit w n"
  then have "bit (w AND push_bit n 1) n" by (simp add: bit_simps)
  then show "w AND push_bit n 1 \<noteq> 0" by auto
qed

lemma dir_code_lt_8: "dir_code d < 8"
  by (cases d) simp_all

lemma and_dir_bit: "(w :: u8) AND push_bit (dir_code d) 1 \<noteq> 0 \<longleftrightarrow> bit w (dir_code d)"
  using and_push_bit_one [of w "dir_code d"] dir_code_lt_8 by simp

lemma in_all_dirs: "d \<in> set all_dirs \<longleftrightarrow> d \<noteq> DirCount"
  by (cases d) (simp_all add: all_dirs_def)

lemma in_ForEachDir:
  "d \<in> set (ForEachDir m) \<longleftrightarrow> d \<noteq> DirCount \<and> bit (mask_bits m) (dir_code d)"
  unfolding ForEachDir_def set_filter mem_Collect_eq and_dir_bit in_all_dirs ..

lemma HasDir_iff: "HasDir m d \<longleftrightarrow> bit (mask_bits m) (dir_code d)"
  unfolding HasDir_def dir_mask_of_def color.simps dir_mask.simps and_dir_bit ..

lemma dir_code_inject: "dir_code d = dir_code d' \<longleftrightarrow> d = d'"
  by (cases d; cases d') simp_all

lemma ForEachDir_single [simp]: "d \<noteq> DirCount \<Longrightarrow> ForEachDir (dir_mask_of d) = [d]"
proof -
  assume d: "d \<noteq> DirCount"
  have "bit (mask_bits (dir_mask_of d)) (dir_code d') \<longleftrightarrow> d' = d" for d'
    using dir_code_lt_8 [of d'] by (auto simp: dir_mask_of_def bit_simps dir_code_inject)
  then have "ForEachDir (dir_mask_of d) = filter (\<lambda>d'. d' = d) all_dirs"
    unfolding ForEachDir_def and_dir_bit by simp
  also have "\<dots> = [d]" using d by (cases d) (simp_all add: all_dirs_def)
  finally show ?thesis .
qed

lemma IsRoutable_cid: "IsRoutable c \<longleftrightarrow> cid c < kNumRoutable"
  by (auto simp: IsRoutable_def kMaxRoutable_def kNumRoutable_def word_le_nat_alt)

lemma Routable_Some: "Routable i = Some c \<Longrightarrow> IsRoutable c \<and> cid c = unat i"
proof -
  assume "Routable i = Some c"
  then have i: "i < 24" and c: "c = \<lparr>color_id = ucast i\<rparr>"
    by (auto simp: Routable_def kNumRoutable_def split: if_splits)
  have "unat i < 24" using i by (simp add: word_less_nat_alt)
  then have "unat (ucast i :: u8) = unat i" by (simp add: unsigned_ucast_eq take_bit_nat_eq_self)
  with \<open>unat i < 24\<close> c show ?thesis by (simp add: IsRoutable_cid kNumRoutable_def)
qed

end
