(* ===== verification/Channels.thy ===== *)
theory Channels
  imports Prelude
begin

text \<open>
  The contract of a bank of virtual channels: bounded FIFOs selected by a key, each with its own
  backpressure. A push on a full channel is refused and changes nothing, an accepted push
  appends, a pop takes the oldest element, and no operation touches another channel. The router
  theory interprets it twice, for its input and for its output channels.
\<close>

datatype ('k, 'w) chan_op = Push 'k 'w | Pop 'k

text \<open>
  A run of operations on channels chosen by a client in any interleaving. Besides the final
  state it returns, in order, the accepted pushes and the popped elements with their keys.
\<close>

fun chan_run ::
  "('k \<Rightarrow> 'w \<Rightarrow> 's \<Rightarrow> bool \<times> 's) \<Rightarrow> ('k \<Rightarrow> 's \<Rightarrow> 'w option \<times> 's) \<Rightarrow>
     ('k, 'w) chan_op list \<Rightarrow> 's \<Rightarrow> ('k \<times> 'w) list \<times> ('k \<times> 'w) list \<times> 's" where
  "chan_run push pop [] s = ([], [], s)"
| "chan_run push pop (Push k w # ops) s =
     (let (ok, s') = push k w s; (acc, out, s'') = chan_run push pop ops s'
      in (if ok then (k, w) # acc else acc, out, s''))"
| "chan_run push pop (Pop k # ops) s =
     (let (r, s') = pop k s; (acc, out, s'') = chan_run push pop ops s'
      in (acc, case r of None \<Rightarrow> out | Some w \<Rightarrow> (k, w) # out, s''))"

definition on_key :: "'k \<Rightarrow> ('k \<times> 'w) list \<Rightarrow> 'w list" where
  "on_key k xs = map snd (filter (\<lambda>x. fst x = k) xs)"

lemma on_key_Nil [simp]: "on_key k [] = []"
  by (simp add: on_key_def)

lemma on_key_Cons [simp]:
  "on_key k ((k', w) # xs) = (if k' = k then w # on_key k xs else on_key k xs)"
  by (simp add: on_key_def)

fun op_key :: "('k, 'w) chan_op \<Rightarrow> 'k" where
  "op_key (Push k w) = k"
| "op_key (Pop k) = k"

locale virtual_channels =
  fixes push :: "'k \<Rightarrow> 'w \<Rightarrow> 's \<Rightarrow> bool \<times> 's"
    and pop :: "'k \<Rightarrow> 's \<Rightarrow> 'w option \<times> 's"
    and contents :: "'k \<Rightarrow> 's \<Rightarrow> 'w list"
    and valid :: "'k \<Rightarrow> bool"
    and depth :: nat
  assumes push_full: "valid k \<Longrightarrow> depth \<le> length (contents k s) \<Longrightarrow> push k w s = (False, s)"
    and push_ok: "valid k \<Longrightarrow> length (contents k s) < depth \<Longrightarrow> fst (push k w s)"
    and push_contents: "valid k \<Longrightarrow> length (contents k s) < depth \<Longrightarrow>
      contents k (snd (push k w s)) = contents k s @ [w]"
    and push_other: "valid k \<Longrightarrow> valid k' \<Longrightarrow> k' \<noteq> k \<Longrightarrow>
      contents k' (snd (push k w s)) = contents k' s"
    and pop_empty: "valid k \<Longrightarrow> contents k s = [] \<Longrightarrow> pop k s = (None, s)"
    and pop_value: "valid k \<Longrightarrow> contents k s = w # ws \<Longrightarrow> fst (pop k s) = Some w"
    and pop_contents: "valid k \<Longrightarrow> contents k s = w # ws \<Longrightarrow> contents k (snd (pop k s)) = ws"
    and pop_other: "valid k \<Longrightarrow> valid k' \<Longrightarrow> k' \<noteq> k \<Longrightarrow>
      contents k' (snd (pop k s)) = contents k' s"
begin

lemma push_length:
  "valid k \<Longrightarrow> valid k' \<Longrightarrow> length (contents k' s) \<le> depth \<Longrightarrow>
     length (contents k' (snd (push k w s))) \<le> depth"
  by (cases "k' = k"; cases "length (contents k s) < depth")
    (auto simp: push_contents push_full push_other not_less)

lemma pop_length:
  "valid k \<Longrightarrow> valid k' \<Longrightarrow> length (contents k' s) \<le> depth \<Longrightarrow>
     length (contents k' (snd (pop k s))) \<le> depth"
  by (cases "k' = k"; cases "contents k s") (auto simp: pop_contents pop_empty pop_other)

lemma run_bounded:
  "\<forall>x \<in> set ops. valid (op_key x) \<Longrightarrow> valid k \<Longrightarrow> length (contents k s) \<le> depth \<Longrightarrow>
     chan_run push pop ops s = (acc, out, s') \<Longrightarrow> length (contents k s') \<le> depth"
proof (induction ops arbitrary: s acc out s')
  case (Cons x ops)
  show ?case
  proof (cases x)
    case (Push k' w)
    with Cons.prems push_length [of k' k s w] show ?thesis
      by (auto split: prod.splits if_splits intro: Cons.IH)
  next
    case (Pop k')
    with Cons.prems pop_length [of k' k s] show ?thesis
      by (auto split: prod.splits intro: Cons.IH)
  qed
qed simp

lemma push_trace:
  "valid k \<Longrightarrow> valid k' \<Longrightarrow> contents k (snd (push k' w s)) =
     contents k s @ (if k' = k \<and> fst (push k' w s) then [w] else [])"
  by (cases "k' = k"; cases "length (contents k' s) < depth")
    (auto simp: push_contents push_ok push_full push_other not_less)

lemma pop_trace:
  "valid k \<Longrightarrow> valid k' \<Longrightarrow> contents k s =
     (if k' = k then (case fst (pop k' s) of None \<Rightarrow> [] | Some w \<Rightarrow> [w]) else []) @
     contents k (snd (pop k' s))"
  by (cases "k' = k"; cases "contents k' s")
    (auto simp: pop_empty pop_value pop_contents pop_other)

lemma run_fifo:
  "\<forall>x \<in> set ops. valid (op_key x) \<Longrightarrow> valid k \<Longrightarrow> chan_run push pop ops s = (acc, out, s') \<Longrightarrow>
     on_key k out @ contents k s' = contents k s @ on_key k acc"
proof (induction ops arbitrary: s acc out s')
  case (Cons x ops)
  show ?case
  proof (cases x)
    case (Push k' w)
    obtain ok s1 where p: "push k' w s = (ok, s1)" by (cases "push k' w s")
    obtain acc1 out1 s2 where r: "chan_run push pop ops s1 = (acc1, out1, s2)"
      by (cases "chan_run push pop ops s1")
    from Cons.IH [OF _ _ r] Cons.prems
    have "on_key k out1 @ contents k s2 = contents k s1 @ on_key k acc1" by simp
    with Cons.prems Push p r push_trace [of k k' w s] show ?thesis
      by (auto split: if_splits)
  next
    case (Pop k')
    obtain y s1 where p: "pop k' s = (y, s1)" by (cases "pop k' s")
    obtain acc1 out1 s2 where r: "chan_run push pop ops s1 = (acc1, out1, s2)"
      by (cases "chan_run push pop ops s1")
    from Cons.IH [OF _ _ r] Cons.prems
    have "on_key k out1 @ contents k s2 = contents k s1 @ on_key k acc1" by simp
    with Cons.prems Pop p r pop_trace [of k k' s] show ?thesis
      by (auto split: if_splits option.splits)
  qed
qed simp

end

end
