(* ===== verification/Router.thy ===== *)
theory Router
  imports Fabric Channels
begin

text \<open>
  The 5-port router (\<open>Router.h\<close>, \<open>Router.cpp\<close>): per-(direction, color) output virtual channels,
  per-color input virtual channels, the color configurations, and the operations that move
  wavelets between them. The C++ arrays are functions of their index; every access the code makes
  is at a routable color, and at one of the five ports. Each operation returns its C++ result and
  the new router.
\<close>

record fabin_dsd =
  fin_color :: color
  fin_dirs :: dir_mask

record fabout_dsd =
  fout_color :: color

record router =
  out_vc :: "dir \<Rightarrow> nat \<Rightarrow> wavelet list"
  in_vc :: "nat \<Rightarrow> wavelet list"
  config :: "nat \<Rightarrow> color_config"
  has_config :: "nat \<Rightarrow> bool"

definition kVcDepth :: nat where
  "kVcDepth = 4"

definition default_config :: color_config where
  "default_config = \<lparr>cfg_color = \<lparr>color_id = 0\<rparr>, cfg_rx = Ramp, cfg_tx = mask_from_bits 0\<rparr>"

definition new_router :: router where
  "new_router = \<lparr>out_vc = (\<lambda>d i. []), in_vc = (\<lambda>i. []), config = (\<lambda>i. default_config),
     has_config = (\<lambda>i. False)\<rparr>"

definition SetColorConfig :: "color_config \<Rightarrow> router \<Rightarrow> bool \<times> router" where
  "SetColorConfig cfg r =
     (if \<not> IsRoutable (cfg_color cfg) then (False, r)
      else (True, r\<lparr>config := (config r)(cid (cfg_color cfg) := cfg),
                    has_config := (has_config r)(cid (cfg_color cfg) := True)\<rparr>))"

definition GetColorConfig :: "color \<Rightarrow> router \<Rightarrow> color_config option" where
  "GetColorConfig c r =
     (if \<not> IsRoutable c \<or> \<not> has_config r (cid c) then None else Some (config r (cid c)))"

definition vc_room :: "router \<Rightarrow> dir_mask \<Rightarrow> nat \<Rightarrow> bool" where
  "vc_room r dirs i = list_all (\<lambda>d. \<not> kVcDepth \<le> length (out_vc r d i)) (ForEachDir dirs)"

definition push_out :: "dir \<Rightarrow> nat \<Rightarrow> wavelet \<Rightarrow> router \<Rightarrow> router" where
  "push_out d i w r =
     r\<lparr>out_vc := (out_vc r)(d := (out_vc r d)(i := out_vc r d i @ [w]))\<rparr>"

definition push_dirs :: "dir_mask \<Rightarrow> nat \<Rightarrow> wavelet \<Rightarrow> router \<Rightarrow> router" where
  "push_dirs dirs i w r = foldl (\<lambda>r d. push_out d i w r) r (ForEachDir dirs)"

definition Tx :: "color \<Rightarrow> dir_mask \<Rightarrow> wavelet \<Rightarrow> router \<Rightarrow> bool \<times> router" where
  "Tx c dirs w r =
     (if \<not> IsRoutable c \<or> mask_bits dirs = 0 then (False, r)
      else if \<not> vc_room r dirs (cid c) then (False, r)
      else (True, push_dirs dirs (cid c) w r))"

definition Rx :: "dir \<Rightarrow> color \<Rightarrow> wavelet \<Rightarrow> router \<Rightarrow> bool \<times> router" where
  "Rx src c w r =
     (if \<not> IsRoutable c then (False, r)
      else if kVcDepth \<le> length (in_vc r (cid c)) then (False, r)
      else (True, r\<lparr>in_vc := (in_vc r)(cid c := in_vc r (cid c) @ [w])\<rparr>))"

lemma in_vc_push_dirs [simp]: "in_vc (push_dirs dirs i w r) = in_vc r"
proof -
  have "in_vc (foldl (\<lambda>r d. push_out d i w r) r ds) = in_vc r" for ds
    by (induction ds arbitrary: r) (simp_all add: push_out_def)
  then show ?thesis by (simp add: push_dirs_def)
qed

text \<open>The \<open>while\<close> loop of \<open>ApplyForwarding\<close> for one color; it ends because every round consumes
  one input wavelet.\<close>

function forward_loop :: "dir_mask \<Rightarrow> nat \<Rightarrow> router \<Rightarrow> nat \<Rightarrow> router \<times> nat" where
  "forward_loop tx i r n =
     (case in_vc r i of
        [] \<Rightarrow> (r, n)
      | w # rest \<Rightarrow>
          if \<not> vc_room r tx i then (r, n)
          else forward_loop tx i (push_dirs tx i w (r\<lparr>in_vc := (in_vc r)(i := rest)\<rparr>)) (Suc n))"
  by pat_completeness auto

termination
  by (relation "measure (\<lambda>(tx, i, r, n). length (in_vc r i))") auto

declare forward_loop.simps [simp del]

definition forward_color :: "router \<times> nat \<Rightarrow> nat \<Rightarrow> router \<times> nat" where
  "forward_color rn i =
     (case rn of (r, n) \<Rightarrow>
        if \<not> has_config r i then (r, n)
        else if mask_bits (cfg_tx (config r i)) = 0 then (r, n)
        else forward_loop (cfg_tx (config r i)) i r n)"

definition ApplyForwarding :: "router \<Rightarrow> nat \<times> router" where
  "ApplyForwarding r = (case foldl forward_color (r, 0) [0..<kNumRoutable] of (r', n) \<Rightarrow> (n, r'))"

definition OutputSize :: "dir \<Rightarrow> color \<Rightarrow> router \<Rightarrow> nat" where
  "OutputSize d c r = (if \<not> IsRoutable c then 0 else length (out_vc r d (cid c)))"

definition OutputFull :: "dir \<Rightarrow> color \<Rightarrow> router \<Rightarrow> bool" where
  "OutputFull d c r = (if \<not> IsRoutable c then True else kVcDepth \<le> length (out_vc r d (cid c)))"

definition PeekOutput :: "dir \<Rightarrow> color \<Rightarrow> router \<Rightarrow> wavelet option" where
  "PeekOutput d c r =
     (if \<not> IsRoutable c then None
      else case out_vc r d (cid c) of [] \<Rightarrow> None | w # rest \<Rightarrow> Some w)"

definition PopOutput :: "dir \<Rightarrow> color \<Rightarrow> router \<Rightarrow> wavelet option \<times> router" where
  "PopOutput d c r =
     (if \<not> IsRoutable c then (None, r)
      else case out_vc r d (cid c) of
             [] \<Rightarrow> (None, r)
           | w # rest \<Rightarrow>
               (Some w, r\<lparr>out_vc := (out_vc r)(d := (out_vc r d)(cid c := rest))\<rparr>))"

definition InputSize :: "color \<Rightarrow> router \<Rightarrow> nat" where
  "InputSize c r = (if \<not> IsRoutable c then 0 else length (in_vc r (cid c)))"

definition PopInput :: "color \<Rightarrow> router \<Rightarrow> wavelet option \<times> router" where
  "PopInput c r =
     (if \<not> IsRoutable c then (None, r)
      else case in_vc r (cid c) of
             [] \<Rightarrow> (None, r)
           | w # rest \<Rightarrow> (Some w, r\<lparr>in_vc := (in_vc r)(cid c := rest)\<rparr>))"

definition Buffered :: "router \<Rightarrow> nat" where
  "Buffered r =
     (\<Sum>d\<leftarrow>all_dirs. \<Sum>i\<leftarrow>[0..<kNumRoutable]. length (out_vc r d i)) +
     (\<Sum>i\<leftarrow>[0..<kNumRoutable]. length (in_vc r i))"

definition Fabin :: "fabin_dsd \<Rightarrow> wavelet \<Rightarrow> router \<Rightarrow> bool \<times> router" where
  "Fabin dsd w r = Tx (fin_color dsd) (fin_dirs dsd) w r"

definition Fabout :: "fabout_dsd \<Rightarrow> router \<Rightarrow> wavelet option \<times> router" where
  "Fabout dsd r = PopInput (fout_color dsd) r"

section \<open>Pushing on a set of directions\<close>

lemma push_out_simps [simp]:
  "in_vc (push_out d i w r) = in_vc r" "config (push_out d i w r) = config r"
  "has_config (push_out d i w r) = has_config r"
  "out_vc (push_out d i w r) d' j = out_vc r d' j @ (if d' = d \<and> j = i then [w] else [])"
  by (simp_all add: push_out_def)

lemma foldl_push_out:
  "config (foldl (\<lambda>r d. push_out d i w r) r ds) = config r \<and>
   has_config (foldl (\<lambda>r d. push_out d i w r) r ds) = has_config r \<and>
   (distinct ds \<longrightarrow> out_vc (foldl (\<lambda>r d. push_out d i w r) r ds) d j =
      out_vc r d j @ (if d \<in> set ds \<and> j = i then [w] else []))"
  by (induction ds arbitrary: r) auto

lemma push_dirs_simps [simp]:
  "config (push_dirs dirs i w r) = config r" "has_config (push_dirs dirs i w r) = has_config r"
  "out_vc (push_dirs dirs i w r) d j =
     out_vc r d j @ (if d \<in> set (ForEachDir dirs) \<and> j = i then [w] else [])"
  unfolding push_dirs_def by (simp_all add: foldl_push_out)

lemma vc_room_iff:
  "vc_room r dirs i \<longleftrightarrow> (\<forall>d \<in> set (ForEachDir dirs). length (out_vc r d i) < kVcDepth)"
  by (auto simp: vc_room_def list_all_iff not_le)

section \<open>The channels of the router implement the virtual-channel contract\<close>

definition out_key_valid :: "dir \<times> color \<Rightarrow> bool" where
  "out_key_valid k \<longleftrightarrow> fst k \<noteq> DirCount \<and> IsRoutable (snd k)"

definition out_contents :: "dir \<times> color \<Rightarrow> router \<Rightarrow> wavelet list" where
  "out_contents k r = out_vc r (fst k) (cid (snd k))"

definition in_contents :: "color \<Rightarrow> router \<Rightarrow> wavelet list" where
  "in_contents c r = in_vc r (cid c)"

definition tx_one :: "dir \<times> color \<Rightarrow> wavelet \<Rightarrow> router \<Rightarrow> bool \<times> router" where
  "tx_one k w r = Tx (snd k) (dir_mask_of (fst k)) w r"

definition pop_one :: "dir \<times> color \<Rightarrow> router \<Rightarrow> wavelet option \<times> router" where
  "pop_one k r = PopOutput (fst k) (snd k) r"

lemma cid_inject: "cid c = cid c' \<longleftrightarrow> c = c'"
  by (metis color.equality old.unit.exhaust unsigned_word_eqI)

lemma mask_bits_dir_mask_of [simp]: "mask_bits (dir_mask_of d) \<noteq> 0"
  by (cases d) (simp_all add: dir_mask_of_def)

interpretation inq: virtual_channels "Rx src" PopInput in_contents IsRoutable kVcDepth
  for src
  by unfold_locales
    (auto simp: Rx_def PopInput_def in_contents_def cid_inject split: list.splits)

interpretation outq: virtual_channels tx_one pop_one out_contents out_key_valid kVcDepth
  by unfold_locales
    (auto simp: tx_one_def pop_one_def Tx_def PopOutput_def out_contents_def out_key_valid_def
      vc_room_iff cid_inject prod_eq_iff split: list.splits)

section \<open>Forwarding, one color at a time\<close>

text \<open>
  The channels of one color, and the forwarding loop on them alone. \<open>forwards\<close> says that the
  color is configured with a non-empty transmit set, the guards of \<open>ApplyForwarding\<close>.
\<close>

definition chan_view :: "router \<Rightarrow> nat \<Rightarrow> wavelet list \<times> (dir \<Rightarrow> wavelet list)" where
  "chan_view r i = (in_vc r i, \<lambda>d. out_vc r d i)"

definition add_to :: "dir list \<Rightarrow> wavelet \<Rightarrow> (dir \<Rightarrow> wavelet list) \<Rightarrow> dir \<Rightarrow> wavelet list" where
  "add_to ds w outs = (\<lambda>d. if d \<in> set ds then outs d @ [w] else outs d)"

fun fwd_chan :: "dir list \<Rightarrow> wavelet list \<times> (dir \<Rightarrow> wavelet list) \<Rightarrow>
    wavelet list \<times> (dir \<Rightarrow> wavelet list)" where
  "fwd_chan ds ([], outs) = ([], outs)"
| "fwd_chan ds (w # ws, outs) =
     (if \<forall>d \<in> set ds. length (outs d) < kVcDepth then fwd_chan ds (ws, add_to ds w outs)
      else (w # ws, outs))"

definition forwards :: "router \<Rightarrow> nat \<Rightarrow> bool" where
  "forwards r i \<longleftrightarrow> has_config r i \<and> mask_bits (cfg_tx (config r i)) \<noteq> 0"

definition tx_dirs :: "router \<Rightarrow> nat \<Rightarrow> dir list" where
  "tx_dirs r i = ForEachDir (cfg_tx (config r i))"

lemma forward_loop_view:
  "forward_loop tx i r n = (r', n') \<Longrightarrow>
     chan_view r' i = fwd_chan (ForEachDir tx) (chan_view r i) \<and>
     (\<forall>j. j \<noteq> i \<longrightarrow> chan_view r' j = chan_view r j) \<and>
     config r' = config r \<and> has_config r' = has_config r \<and>
     n' + length (in_vc r' i) = n + length (in_vc r i)"
proof (induction tx i r n arbitrary: r' n' rule: forward_loop.induct)
  case (1 tx i r n)
  show ?case
  proof (cases "in_vc r i")
    case Nil
    with "1.prems" show ?thesis
      by (simp add: forward_loop.simps [of tx i r] chan_view_def)
  next
    case (Cons w ws)
    show ?thesis
    proof (cases "vc_room r tx i")
      case False
      with Cons "1.prems" show ?thesis
        by (auto simp: forward_loop.simps [of tx i r] chan_view_def vc_room_iff)
    next
      case True
      let ?r1 = "push_dirs tx i w (r\<lparr>in_vc := (in_vc r)(i := ws)\<rparr>)"
      have "forward_loop tx i ?r1 (Suc n) = (r', n')"
        using "1.prems" Cons True by (simp add: forward_loop.simps [of tx i r])
      from "1.IH" [OF Cons _ this] True
      have IH: "chan_view r' i = fwd_chan (ForEachDir tx) (chan_view ?r1 i)"
        "\<forall>j. j \<noteq> i \<longrightarrow> chan_view r' j = chan_view ?r1 j"
        "config r' = config r" "has_config r' = has_config r"
        "n' + length (in_vc r' i) = Suc n + length ws"
        by simp_all
      have "chan_view ?r1 i = (ws, add_to (ForEachDir tx) w (\<lambda>d. out_vc r d i))"
        by (auto simp: chan_view_def add_to_def)
      moreover have "j \<noteq> i \<Longrightarrow> chan_view ?r1 j = chan_view r j" for j
        by (auto simp: chan_view_def)
      ultimately show ?thesis
        using IH Cons True by (auto simp: chan_view_def vc_room_iff)
    qed
  qed
qed

lemma forward_color_view:
  "forward_color (r, n) i = (r', n') \<Longrightarrow>
     chan_view r' i = (if forwards r i then fwd_chan (tx_dirs r i) (chan_view r i) else chan_view r i) \<and>
     (\<forall>j. j \<noteq> i \<longrightarrow> chan_view r' j = chan_view r j) \<and>
     config r' = config r \<and> has_config r' = has_config r \<and>
     n' + length (in_vc r' i) = n + length (in_vc r i)"
  using forward_loop_view
  by (fastforce simp: forward_color_def forwards_def tx_dirs_def split: if_splits)

lemma forward_colors_view:
  "distinct is \<Longrightarrow> foldl forward_color (r, n) is = (r', n') \<Longrightarrow>
     (\<forall>i. chan_view r' i =
       (if i \<in> set is \<and> forwards r i then fwd_chan (tx_dirs r i) (chan_view r i) else chan_view r i)) \<and>
     config r' = config r \<and> has_config r' = has_config r \<and>
     n' + (\<Sum>i\<leftarrow>is. length (in_vc r' i)) = n + (\<Sum>i\<leftarrow>is. length (in_vc r i))"
proof (induction "is" arbitrary: r n)
  case (Cons i "is")
  obtain r1 n1 where s: "forward_color (r, n) i = (r1, n1)" by (cases "forward_color (r, n) i")
  note f = forward_color_view [OF s]
  have d: "i \<notin> set is" "distinct is" using Cons.prems by simp_all
  from Cons.IH [OF d(2)] Cons.prems s
  have IH: "\<forall>j. chan_view r' j =
       (if j \<in> set is \<and> forwards r1 j then fwd_chan (tx_dirs r1 j) (chan_view r1 j) else chan_view r1 j)"
    "config r' = config r1" "has_config r' = has_config r1"
    "n' + (\<Sum>i\<leftarrow>is. length (in_vc r' i)) = n1 + (\<Sum>i\<leftarrow>is. length (in_vc r1 i))"
    by simp_all
  have fw: "forwards r1 = forwards r" "tx_dirs r1 = tx_dirs r"
    using f by (auto simp: forwards_def tx_dirs_def fun_eq_iff)
  have "chan_view r' i = chan_view r1 i" using IH(1) d(1) by simp
  then have eq: "in_vc r' i = in_vc r1 i" by (simp add: chan_view_def)
  have "\<forall>j \<in> set is. in_vc r1 j = in_vc r j" using f d(1) by (metis chan_view_def prod.inject)
  then have sum: "(\<Sum>j\<leftarrow>is. length (in_vc r1 j)) = (\<Sum>j\<leftarrow>is. length (in_vc r j))"
    by (metis (mono_tags, lifting) map_eq_conv)
  show ?case
    using IH f d fw eq sum by auto
qed simp

lemma ApplyForwarding_view:
  "ApplyForwarding r = (n, r') \<Longrightarrow>
     (\<forall>i. chan_view r' i = (if i < kNumRoutable \<and> forwards r i
        then fwd_chan (tx_dirs r i) (chan_view r i) else chan_view r i)) \<and>
     config r' = config r \<and> has_config r' = has_config r \<and>
     n + (\<Sum>i\<leftarrow>[0..<kNumRoutable]. length (in_vc r' i)) =
       (\<Sum>i\<leftarrow>[0..<kNumRoutable]. length (in_vc r i))"
  using forward_colors_view [of "[0..<kNumRoutable]" r 0]
  by (auto simp: ApplyForwarding_def split: prod.splits)

text \<open>What one color's forwarding does: a prefix of the input moves, and it is maximal.\<close>

lemma fwd_chan_moves:
  "fwd_chan ds (ins, outs) = (ins', outs') \<Longrightarrow> \<exists>moved. ins = moved @ ins' \<and>
     (\<forall>d. outs' d = outs d @ (if d \<in> set ds then moved else []))"
proof (induction ds "(ins, outs)" arbitrary: ins outs rule: fwd_chan.induct)
  case (2 ds w ws outs)
  show ?case
  proof (cases "\<forall>d \<in> set ds. length (outs d) < kVcDepth")
    case True
    with 2 obtain moved where "ws = moved @ ins'"
      "\<forall>d. outs' d = add_to ds w outs d @ (if d \<in> set ds then moved else [])"
      by fastforce
    then show ?thesis by (intro exI [of _ "w # moved"]) (auto simp: add_to_def)
  next
    case False
    with "2.prems" show ?thesis by (intro exI [of _ "[]"]) simp
  qed
qed simp

lemma fwd_chan_maximal:
  "fwd_chan ds (ins, outs) = (ins', outs') \<Longrightarrow>
     ins' = [] \<or> (\<exists>d \<in> set ds. kVcDepth \<le> length (outs' d))"
  by (induction ds "(ins, outs)" arbitrary: ins outs rule: fwd_chan.induct)
    (auto simp: not_less split: if_splits)

lemma fwd_chan_bounded:
  "fwd_chan ds (ins, outs) = (ins', outs') \<Longrightarrow> length (outs d) \<le> kVcDepth \<Longrightarrow>
     length (outs' d) \<le> kVcDepth"
proof (induction ds "(ins, outs)" arbitrary: ins outs rule: fwd_chan.induct)
  case (2 ds w ws outs)
  then show ?case
    by (cases "d \<in> set ds") (auto simp: add_to_def Suc_le_eq split: if_splits)
qed simp

section \<open>Invariant\<close>

definition chan_ok :: "wavelet list \<times> (dir \<Rightarrow> wavelet list) \<Rightarrow> bool" where
  "chan_ok v \<longleftrightarrow> length (fst v) \<le> kVcDepth \<and> (\<forall>d. d \<noteq> DirCount \<longrightarrow> length (snd v d) \<le> kVcDepth)"

definition router_ok :: "router \<Rightarrow> bool" where
  "router_ok r \<longleftrightarrow> (\<forall>i < kNumRoutable. chan_ok (chan_view r i))"

lemma router_ok_new [inv_intros]: "router_ok new_router"
  by (simp add: router_ok_def chan_ok_def chan_view_def new_router_def)

lemma router_ok_SetColorConfig [inv_intros]: "router_ok r \<Longrightarrow> router_ok (snd (SetColorConfig cfg r))"
  by (simp add: router_ok_def chan_ok_def chan_view_def SetColorConfig_def)

lemma router_ok_Tx [inv_intros]: "router_ok r \<Longrightarrow> router_ok (snd (Tx c dirs w r))"
  by (auto simp: router_ok_def chan_ok_def chan_view_def Tx_def vc_room_iff)

lemma router_ok_Rx [inv_intros]: "router_ok r \<Longrightarrow> router_ok (snd (Rx d c w r))"
  by (auto simp: router_ok_def chan_ok_def chan_view_def Rx_def)

lemma router_ok_PopOutput [inv_intros]: "router_ok r \<Longrightarrow> router_ok (snd (PopOutput d c r))"
  by (fastforce simp: router_ok_def chan_ok_def chan_view_def PopOutput_def split: list.splits)

lemma router_ok_PopInput [inv_intros]: "router_ok r \<Longrightarrow> router_ok (snd (PopInput c r))"
  by (fastforce simp: router_ok_def chan_ok_def chan_view_def PopInput_def split: list.splits)

lemma chan_ok_fwd: "chan_ok v \<Longrightarrow> chan_ok (fwd_chan ds v)"
proof -
  assume ok: "chan_ok v"
  obtain ins outs where v: "v = (ins, outs)" by (cases v)
  obtain ins' outs' where f: "fwd_chan ds (ins, outs) = (ins', outs')"
    by (cases "fwd_chan ds (ins, outs)")
  show ?thesis
    using ok fwd_chan_moves [OF f] fwd_chan_bounded [OF f] by (auto simp: v f chan_ok_def)
qed

lemma router_ok_ApplyForwarding [inv_intros]: "router_ok r \<Longrightarrow> router_ok (snd (ApplyForwarding r))"
  using ApplyForwarding_view [of r "fst (ApplyForwarding r)" "snd (ApplyForwarding r)"]
  by (simp add: router_ok_def chan_ok_fwd)

section \<open>Properties\<close>

text \<open>The depth bound of the virtual channels is an invariant of the router: no operation,
  accepted or refused, ever leaves more than \<open>kVcDepth\<close> wavelets in an input or output channel.\<close>

theorem router_depth_invariant:
  assumes "router_ok r"
  shows "router_ok (snd (SetColorConfig cfg r)) \<and> router_ok (snd (Tx c dirs w r)) \<and>
    router_ok (snd (Rx d c w r)) \<and> router_ok (snd (ApplyForwarding r)) \<and>
    router_ok (snd (PopOutput d c r)) \<and> router_ok (snd (PopInput c r)) \<and>
    router_ok (snd (Fabin fd w r)) \<and> router_ok (snd (Fabout fo r))"
  using assms by (simp add: inv_intros Fabin_def Fabout_def)

theorem router_depth_invariant_witness:
  "router_ok (snd (Tx \<lparr>color_id = 3\<rparr> (dir_mask_of East) (MakeWavelet 1 2) new_router))"
  using router_depth_invariant [OF router_ok_new] by simp

text \<open>\<open>Tx\<close> is all-or-nothing: it succeeds exactly when the color is routable, the direction
  set is not empty and no named output channel is full; then the wavelet is appended to every named
  channel and nothing else changes; otherwise the router is unchanged.\<close>

theorem Tx_all_or_nothing:
  "fst (Tx c dirs w r) = (IsRoutable c \<and> mask_bits dirs \<noteq> 0 \<and>
      list_all (\<lambda>d. \<not> OutputFull d c r) (ForEachDir dirs)) \<and>
   snd (Tx c dirs w r) = (if fst (Tx c dirs w r)
      then r\<lparr>out_vc := (\<lambda>d i. out_vc r d i @
             (if d \<in> set (ForEachDir dirs) \<and> i = cid c then [w] else []))\<rparr>
      else r)"
proof -
  have push: "push_dirs dirs i w r = r\<lparr>out_vc := (\<lambda>d j. out_vc r d j @
      (if d \<in> set (ForEachDir dirs) \<and> j = i then [w] else []))\<rparr>" for i
    by (rule router.equality) (simp_all add: fun_eq_iff)
  have room: "IsRoutable c \<Longrightarrow>
      vc_room r dirs (cid c) = list_all (\<lambda>d. \<not> OutputFull d c r) (ForEachDir dirs)"
    by (simp add: vc_room_def OutputFull_def)
  show ?thesis
    by (auto simp: Tx_def push room)
qed

text \<open>On single ports the channels are the contract's queues: what was popped from a channel followed by
  what it still holds is what it held followed by the wavelets it accepted.\<close>

lemma unicast_channels_fifo:
  assumes "list_all (\<lambda>x. out_key_valid (op_key x)) ops" and "out_key_valid k"
    and "chan_run tx_one pop_one ops r = (acc, out, r')"
  shows "on_key k out @ out_contents k r' = out_contents k r @ on_key k acc"
  using assms by (intro outq.run_fifo) (auto simp: list_all_iff)

text \<open>Forwarding moves, color by color, a prefix of the input channel to every port of the
  color's transmit set, in order; it stops only when the input is empty or a transmit channel is
  full; colors without a configuration and ports outside the set do not change.\<close>

theorem ApplyForwarding_moves:
  assumes "ApplyForwarding r = (n, r')" and "i < kNumRoutable"
  shows "\<exists>moved. in_vc r i = moved @ in_vc r' i \<and>
    (\<forall>d. out_vc r' d i = out_vc r d i @ (if d \<in> set (tx_dirs r i) then moved else [])) \<and>
    (if forwards r i then in_vc r' i = [] \<or> (\<exists>d. d \<in> set (tx_dirs r i) \<and> kVcDepth \<le> length (out_vc r' d i))
     else moved = [])"
proof (cases "forwards r i")
  case True
  with ApplyForwarding_view [OF assms(1)] assms(2)
  have f: "fwd_chan (tx_dirs r i) (in_vc r i, \<lambda>d. out_vc r d i) = (in_vc r' i, \<lambda>d. out_vc r' d i)"
    by (simp add: chan_view_def)
  from fwd_chan_moves [OF f] fwd_chan_maximal [OF f] True show ?thesis by auto
next
  case False
  with ApplyForwarding_view [OF assms(1)]
  have "chan_view r' i = chan_view r i" by simp
  with False show ?thesis by (auto simp: chan_view_def fun_eq_iff intro: exI [of _ "[]"])
qed

theorem ApplyForwarding_moves_witness:
  "let r = snd (Rx West \<lparr>color_id = 2\<rparr> (MakeWavelet 5 6)
             (snd (SetColorConfig \<lparr>cfg_color = \<lparr>color_id = 2\<rparr>, cfg_rx = West, cfg_tx = dir_mask_of East\<rparr>
                new_router)));
       r' = snd (ApplyForwarding r)
   in \<exists>moved. in_vc r 2 = moved @ in_vc r' 2 \<and>
    (\<forall>d. out_vc r' d 2 = out_vc r d 2 @ (if d \<in> set (tx_dirs r 2) then moved else [])) \<and>
    (if forwards r 2 then in_vc r' 2 = [] \<or> (\<exists>d. d \<in> set (tx_dirs r 2) \<and> kVcDepth \<le> length (out_vc r' d 2))
     else moved = [])"
  unfolding Let_def
  by (rule ApplyForwarding_moves [OF prod.collapse [symmetric]]) (simp add: kNumRoutable_def)

section \<open>Runs of router operations\<close>

text \<open>
  A client of the router, as a list of calls, and what it observes: \<open>Queued i ds w\<close> for a wavelet that
  \<open>Tx\<close> reported as transmitted on color \<open>i\<close> to the ports \<open>ds\<close> its direction set names,
  \<open>Accepted i w\<close> for one that \<open>Rx\<close> reported as received, \<open>FromOutput d i w\<close> and \<open>FromInput i w\<close> for the
  wavelets the pops returned, and \<open>Forwarded i ds w\<close> for each wavelet by which \<open>ApplyForwarding\<close>
  shortened the input channel of \<open>i\<close>, \<open>ds\<close> being the ports of the color's route.
\<close>

datatype router_op =
    TxOp color dir_mask wavelet
  | RxOp dir color wavelet
  | PopOutputOp dir color
  | PopInputOp color
  | SetColorConfigOp color_config
  | ApplyForwardingOp

datatype router_event =
    Queued nat "dir list" wavelet
  | Accepted nat wavelet
  | FromOutput dir nat wavelet
  | FromInput nat wavelet
  | Forwarded nat "dir list" wavelet

definition shortened_by :: "router \<Rightarrow> router \<Rightarrow> nat \<Rightarrow> wavelet list" where
  "shortened_by r r' i = take (length (in_vc r i) - length (in_vc r' i)) (in_vc r i)"

fun router_step :: "router_op \<Rightarrow> router \<Rightarrow> router_event list \<times> router" where
  "router_step (TxOp c dirs w) r =
     (case Tx c dirs w r of (ok, r') \<Rightarrow> (if ok then [Queued (cid c) (ForEachDir dirs) w] else [], r'))"
| "router_step (RxOp src c w) r =
     (case Rx src c w r of (ok, r') \<Rightarrow> (if ok then [Accepted (cid c) w] else [], r'))"
| "router_step (PopOutputOp d c) r =
     (case PopOutput d c r of (x, r') \<Rightarrow> (case x of None \<Rightarrow> [] | Some w \<Rightarrow> [FromOutput d (cid c) w], r'))"
| "router_step (PopInputOp c) r =
     (case PopInput c r of (x, r') \<Rightarrow> (case x of None \<Rightarrow> [] | Some w \<Rightarrow> [FromInput (cid c) w], r'))"
| "router_step (SetColorConfigOp cfg) r = ([], snd (SetColorConfig cfg r))"
| "router_step ApplyForwardingOp r =
     (let r' = snd (ApplyForwarding r)
      in (concat (map (\<lambda>i. map (Forwarded i (tx_dirs r i)) (shortened_by r r' i)) [0..<kNumRoutable]), r'))"

fun router_run :: "router_op list \<Rightarrow> router \<Rightarrow> router_event list \<times> router" where
  "router_run [] r = ([], r)"
| "router_run (x # xs) r =
     (case router_step x r of (ev, r1) \<Rightarrow> case router_run xs r1 of (evs, r') \<Rightarrow> (ev @ evs, r'))"

text \<open>The events that put a wavelet into a channel and those that take one out of it.\<close>

fun to_output :: "dir \<Rightarrow> nat \<Rightarrow> router_event \<Rightarrow> wavelet list" where
  "to_output d i (Queued j ds w) = (if j = i \<and> d \<in> set ds then [w] else [])"
| "to_output d i (Forwarded j ds w) = (if j = i \<and> d \<in> set ds then [w] else [])"
| "to_output d i _ = []"

fun from_output :: "dir \<Rightarrow> nat \<Rightarrow> router_event \<Rightarrow> wavelet list" where
  "from_output d i (FromOutput e j w) = (if j = i \<and> e = d then [w] else [])"
| "from_output d i _ = []"

fun to_input :: "nat \<Rightarrow> router_event \<Rightarrow> wavelet list" where
  "to_input i (Accepted j w) = (if j = i then [w] else [])"
| "to_input i _ = []"

fun from_input :: "nat \<Rightarrow> router_event \<Rightarrow> wavelet list" where
  "from_input i (FromInput j w) = (if j = i then [w] else [])"
| "from_input i (Forwarded j ds w) = (if j = i then [w] else [])"
| "from_input i _ = []"

text \<open>The pops of a client name one of the five ports, as the array access of \<open>PopOutput\<close> requires.\<close>

fun names_port :: "router_op \<Rightarrow> bool" where
  "names_port (PopOutputOp d c) = (d \<noteq> DirCount)"
| "names_port _ = True"

lemma concat_only:
  "distinct xs \<Longrightarrow> i \<in> set xs \<Longrightarrow> concat (map (\<lambda>j. if j = i then f j else []) xs) = f i"
proof (induction xs)
  case (Cons x xs)
  have "concat (map (\<lambda>j. if j = i then f j else []) xs) = []" if "i \<notin> set xs"
    using that by (auto simp: concat_eq_Nil_conv)
  with Cons show ?case by auto
qed simp

lemma event_lists:
  "concat (map (to_output d i) (map (Forwarded j ds) ws)) = (if j = i then if d \<in> set ds then ws else [] else [])"
  "concat (map (from_input i) (map (Forwarded j ds) ws)) = (if j = i then ws else [])"
  "concat (map (from_output d i) (map (Forwarded j ds) ws)) = []"
  "concat (map (to_input i) (map (Forwarded j ds) ws)) = []"
  by (induction ws) auto

lemma concat_map_concat: "concat (map f (concat (map g xs))) = concat (map (\<lambda>x. concat (map f (g x))) xs)"
  by (induction xs) simp_all

definition balanced :: "dir \<Rightarrow> nat \<Rightarrow> router_event list \<Rightarrow> router \<Rightarrow> router \<Rightarrow> bool" where
  "balanced d i evs r r' \<longleftrightarrow>
     concat (map (from_output d i) evs) @ out_vc r' d i = out_vc r d i @ concat (map (to_output d i) evs) \<and>
     concat (map (from_input i) evs) @ in_vc r' i = in_vc r i @ concat (map (to_input i) evs)"

lemma balanced_step:
  assumes "router_step x r = (evs, r')" and "i < kNumRoutable"
  shows "balanced d i evs r r'"
proof (cases x)
  case (TxOp c dirs w)
  with assms show ?thesis by (auto simp: balanced_def Tx_def split: if_splits)
next
  case (RxOp src c w)
  with assms show ?thesis by (auto simp: balanced_def Rx_def split: if_splits)
next
  case (PopOutputOp e c)
  with assms show ?thesis by (auto simp: balanced_def PopOutput_def split: if_splits list.splits)
next
  case (PopInputOp c)
  with assms show ?thesis by (auto simp: balanced_def PopInput_def split: if_splits list.splits)
next
  case (SetColorConfigOp cfg)
  with assms show ?thesis by (auto simp: balanced_def SetColorConfig_def)
next
  case ApplyForwardingOp
  with assms(1) have r': "r' = snd (ApplyForwarding r)"
    and evs: "evs = concat (map (\<lambda>i. map (Forwarded i (tx_dirs r i)) (shortened_by r r' i)) [0..<kNumRoutable])"
    using ApplyForwardingOp by (auto simp: Let_def)
  have "ApplyForwarding r = (fst (ApplyForwarding r), r')" by (simp add: r')
  from ApplyForwarding_moves [OF this assms(2)] obtain moved where
    moved: "in_vc r i = moved @ in_vc r' i" "out_vc r' d i = out_vc r d i @ (if d \<in> set (tx_dirs r i) then moved else [])"
    by blast
  have s: "shortened_by r r' i = moved" by (simp add: shortened_by_def moved(1))
  have i: "distinct [0..<kNumRoutable]" "i \<in> set [0..<kNumRoutable]" using assms(2) by simp_all
  have "concat (map (to_output d i) evs) = (if d \<in> set (tx_dirs r i) then moved else [])"
    using concat_only [OF i, of "\<lambda>j. if d \<in> set (tx_dirs r j) then shortened_by r r' j else []"]
    by (simp add: evs concat_map_concat event_lists s del: map_map)
  moreover have "concat (map (from_input i) evs) = moved"
    using concat_only [OF i, of "shortened_by r r'"] by (simp add: evs concat_map_concat event_lists s del: map_map)
  moreover have "concat (map (from_output d i) evs) = []" "concat (map (to_input i) evs) = []"
    by (simp_all add: evs concat_map_concat event_lists del: map_map)
  ultimately show ?thesis by (simp add: balanced_def moved)
qed

lemma balanced_run:
  "router_run ops r = (evs, r') \<Longrightarrow> i < kNumRoutable \<Longrightarrow> balanced d i evs r r'"
proof (induction ops arbitrary: r evs)
  case (Cons x xs)
  obtain ev r1 where s: "router_step x r = (ev, r1)" by (cases "router_step x r")
  obtain evs1 where e: "router_run xs r1 = (evs1, r')" "evs = ev @ evs1"
    using Cons.prems(1) s by (auto split: prod.splits)
  from balanced_step [OF s Cons.prems(2), of d] Cons.IH [OF e(1) Cons.prems(2)] show ?case
    by (simp add: balanced_def e(2))
qed (simp add: balanced_def)

lemma router_ok_step: "router_ok r \<Longrightarrow> router_ok (snd (router_step x r))"
  by (cases x) (simp_all add: inv_intros Let_def split_beta)

lemma router_ok_run: "router_run ops r = (evs, r') \<Longrightarrow> router_ok r \<Longrightarrow> router_ok r'"
proof (induction ops arbitrary: r evs)
  case (Cons x xs)
  obtain ev r1 where s: "router_step x r = (ev, r1)" by (cases "router_step x r")
  have "router_ok r1"
    using router_ok_step [OF Cons.prems(2), of x] s by simp
  with Cons s show ?case by (auto split: prod.splits)
qed simp

text \<open>C1. The router's channels are lossless, isolated and bounded FIFOs, for any interleaving of its
  operations: transmits with any direction set, receives, pops, configurations and forwarding. What left an
  output channel followed by what it still holds is what it held followed by the wavelets put into it, in
  order: those of the accepted transmits whose direction set names its port, and those forwarded on a route
  that names it. (A set that names none of the five ports is accepted and puts the wavelet nowhere.)
  Likewise for an input channel, from which pops and forwarding take and to which accepted receives
  append. A full channel is never written, and a transmit or a receive is refused only on a color that is not
  routable, with an empty direction set, or because a channel it names is full.\<close>

theorem output_channels_fifo:
  assumes "router_run ops r = (evs, r')" and "list_all names_port ops" and "router_ok r"
    and "i < kNumRoutable" and "d \<noteq> DirCount"
  shows "concat (map (from_output d i) evs) @ out_vc r' d i = out_vc r d i @ concat (map (to_output d i) evs) \<and>
    concat (map (from_input i) evs) @ in_vc r' i = in_vc r i @ concat (map (to_input i) evs) \<and>
    length (out_vc r' d i) \<le> kVcDepth \<and> length (in_vc r' i) \<le> kVcDepth \<and>
    fst (Tx c dirs w r') = (IsRoutable c \<and> mask_bits dirs \<noteq> 0 \<and>
      list_all (\<lambda>e. length (out_vc r' e (cid c)) < kVcDepth) (ForEachDir dirs)) \<and>
    fst (Rx src c w r') = (IsRoutable c \<and> length (in_vc r' (cid c)) < kVcDepth)"
proof -
  have "router_ok r'" using router_ok_run [OF assms(1,3)] .
  then have "length (out_vc r' d i) \<le> kVcDepth" "length (in_vc r' i) \<le> kVcDepth"
    using assms(4,5) by (simp_all add: router_ok_def chan_ok_def chan_view_def)
  moreover have "fst (Tx c dirs w r') = (IsRoutable c \<and> mask_bits dirs \<noteq> 0 \<and>
      list_all (\<lambda>e. length (out_vc r' e (cid c)) < kVcDepth) (ForEachDir dirs))"
    by (auto simp: Tx_def vc_room_def not_le)
  moreover have "fst (Rx src c w r') = (IsRoutable c \<and> length (in_vc r' (cid c)) < kVcDepth)"
    by (simp add: Rx_def not_le)
  ultimately show ?thesis using balanced_run [OF assms(1,4), of d] by (simp add: balanced_def)
qed

text \<open>A multicast transmit to the ramp and the east, a receive that forwarding moves to the east, and a pop.\<close>

definition multicast_client :: "router_op list" where
  "multicast_client =
     [SetColorConfigOp \<lparr>cfg_color = \<lparr>color_id = 2\<rparr>, cfg_rx = West, cfg_tx = dir_mask_of East\<rparr>,
      TxOp \<lparr>color_id = 2\<rparr> (mask_from_bits 0x03) (MakeWavelet 7 8), RxOp West \<lparr>color_id = 2\<rparr> (MakeWavelet 5 6),
      ApplyForwardingOp, PopOutputOp East \<lparr>color_id = 2\<rparr>]"

lemma multicast_events:
  "fst (router_run multicast_client new_router) =
     [Queued 2 [Ramp, East] (MakeWavelet 7 8), Accepted 2 (MakeWavelet 5 6), Forwarded 2 [East] (MakeWavelet 5 6),
      FromOutput East 2 (MakeWavelet 7 8)]"
  by code_simp

theorem output_channels_fifo_witness:
  "out_vc (snd (router_run multicast_client new_router)) East 2 = [MakeWavelet 5 6] \<and>
   in_vc (snd (router_run multicast_client new_router)) 2 = []"
proof -
  let ?r' = "snd (router_run multicast_client new_router)"
  have "router_run multicast_client new_router = (fst (router_run multicast_client new_router), ?r')"
    "list_all names_port multicast_client"
    by (simp_all add: multicast_client_def)
  note run = output_channels_fifo [OF this router_ok_new, of 2 East]
  have "out_vc new_router East 2 = []" "in_vc new_router 2 = []" by (simp_all add: new_router_def)
  with run show ?thesis by (simp add: multicast_events kNumRoutable_def)
qed

text \<open>
  A direction set whose only bits lie above the five ports (the set built from \<open>Dir::Count\<close>, or
  \<open>FromBits(0x20)\<close>) is not empty for \<open>Tx\<close>, yet names no port: the transmit reports success and
  the wavelet is in no channel.
\<close>

lemma Tx_phantom_port_loses:
  "Tx \<lparr>color_id = 0\<rparr> (mask_from_bits 0x20) w new_router = (True, new_router)"
proof -
  have "ForEachDir (mask_from_bits 0x20) = []"
    by (simp add: ForEachDir_def all_dirs_def mask_from_bits_def)
  then show ?thesis
    by (simp add: Tx_def push_dirs_def vc_room_def IsRoutable_def kMaxRoutable_def mask_from_bits_def)
qed

end
