(* ===== verification/Ieee.thy ===== *)
theory Ieee
  imports Complex_Main Prelude
begin

text \<open>
  Binary floating point, as the C++ \<open>float\<close> and \<open>double\<close> of the target compute it: values are
  carried as bit patterns, the arithmetic rounds the exact result to nearest, ties to even
  (IEEE 754). A format is given by its exponent and mantissa widths. Everything that computes is
  written over \<open>nat\<close> and \<open>int\<close>; \<open>fp_val\<close>, into the reals, is the specification. The sign and
  payload of a NaN that an operation produces are not fixed by the language: the model returns one
  quiet NaN.
\<close>

record fmt =
  f_exp :: nat
  f_man :: nat

definition binary16 :: fmt where "binary16 = \<lparr>f_exp = 5, f_man = 10\<rparr>"

definition bfloat16 :: fmt where "bfloat16 = \<lparr>f_exp = 8, f_man = 7\<rparr>"

definition binary32 :: fmt where "binary32 = \<lparr>f_exp = 8, f_man = 23\<rparr>"

definition binary64 :: fmt where "binary64 = \<lparr>f_exp = 11, f_man = 52\<rparr>"

definition f_bias :: "fmt \<Rightarrow> nat" where
  "f_bias F = 2 ^ (f_exp F - 1) - 1"

text \<open>The exponent of the last place of the subnormal numbers.\<close>

definition f_emin :: "fmt \<Rightarrow> int" where
  "f_emin F = 1 - int (f_bias F) - int (f_man F)"

text \<open>\<open>FFin s m e\<close> is \<open>(-1)^s * m * 2^e\<close>.\<close>

datatype fpnum = FNan | FInf bool | FFin bool nat int

definition fp_decode :: "fmt \<Rightarrow> nat \<Rightarrow> fpnum" where
  "fp_decode F b =
     (let m = b mod 2 ^ f_man F; x = (b div 2 ^ f_man F) mod 2 ^ f_exp F;
          s = odd (b div 2 ^ (f_man F + f_exp F))
      in if x = 2 ^ f_exp F - 1 then (if m = 0 then FInf s else FNan)
         else if x = 0 then FFin s m (f_emin F)
         else FFin s (m + 2 ^ f_man F) (f_emin F + int x - 1))"

definition fp_inf_mag :: "fmt \<Rightarrow> nat" where
  "fp_inf_mag F = (2 ^ f_exp F - 1) * 2 ^ f_man F"

definition fp_signed :: "fmt \<Rightarrow> bool \<Rightarrow> nat \<Rightarrow> nat" where
  "fp_signed F s mag = (if s then 2 ^ (f_man F + f_exp F) else 0) + mag"

definition fp_nan :: "fmt \<Rightarrow> nat" where
  "fp_nan F = fp_inf_mag F + 2 ^ (f_man F - 1)"

fun ilog2 :: "nat \<Rightarrow> nat" where
  "ilog2 n = (if n < 2 then 0 else Suc (ilog2 (n div 2)))"

declare ilog2.simps [simp del]

definition div_rne :: "nat \<Rightarrow> nat \<Rightarrow> nat" where
  "div_rne a b =
     (let q = a div b; r = a mod b
      in if 2 * r < b then q else if b < 2 * r then Suc q else if even q then q else Suc q)"

text \<open>\<open>a / b\<close> scaled by \<open>2 ^ (- u)\<close>, as a fraction.\<close>

definition scale_frac :: "int \<Rightarrow> nat \<times> nat \<Rightarrow> nat \<times> nat" where
  "scale_frac u f = (if 0 \<le> u then (fst f, snd f * 2 ^ nat u) else (fst f * 2 ^ nat (- u), snd f))"

definition frac_exponent :: "nat \<Rightarrow> nat \<Rightarrow> int" where
  "frac_exponent a b =
     (let e = int (ilog2 a) - int (ilog2 b); (a', b') = scale_frac e (a, b)
      in if b' \<le> a' then e else e - 1)"

definition fp_round_mag :: "fmt \<Rightarrow> nat \<Rightarrow> nat \<Rightarrow> nat" where
  "fp_round_mag F a b =
     (if a = 0 then 0
      else let u = max (frac_exponent a b - int (f_man F)) (f_emin F);
               (a', b') = scale_frac u (a, b)
           in min (nat (u - f_emin F) * 2 ^ f_man F + div_rne a' b') (fp_inf_mag F))"

definition fp_round :: "fmt \<Rightarrow> bool \<Rightarrow> nat \<Rightarrow> nat \<Rightarrow> nat" where
  "fp_round F s a b = fp_signed F s (fp_round_mag F a b)"

section \<open>Arithmetic\<close>

text \<open>The dyadic \<open>m * 2 ^ e\<close> as a fraction.\<close>

definition dyadic :: "nat \<Rightarrow> int \<Rightarrow> nat \<times> nat" where
  "dyadic m e = (if 0 \<le> e then (m * 2 ^ nat e, 1) else (m, 2 ^ nat (- e)))"

definition round_dyadic :: "fmt \<Rightarrow> bool \<Rightarrow> nat \<Rightarrow> int \<Rightarrow> nat" where
  "round_dyadic F s m e = (case dyadic m e of (a, b) \<Rightarrow> fp_round F s a b)"

definition fp_of_int :: "fmt \<Rightarrow> int \<Rightarrow> nat" where
  "fp_of_int F i = fp_round F (i < 0) (nat \<bar>i\<bar>) 1"

definition fp_mul :: "fmt \<Rightarrow> nat \<Rightarrow> nat \<Rightarrow> nat" where
  "fp_mul F x y =
     (case (fp_decode F x, fp_decode F y) of
        (FFin s m e, FFin s' m' e') \<Rightarrow> round_dyadic F (s \<noteq> s') (m * m') (e + e')
      | (FInf s, FInf s') \<Rightarrow> fp_signed F (s \<noteq> s') (fp_inf_mag F)
      | (FInf s, FFin s' m' e') \<Rightarrow>
          if m' = 0 then fp_nan F else fp_signed F (s \<noteq> s') (fp_inf_mag F)
      | (FFin s m e, FInf s') \<Rightarrow>
          if m = 0 then fp_nan F else fp_signed F (s \<noteq> s') (fp_inf_mag F)
      | _ \<Rightarrow> fp_nan F)"

definition signed_shift :: "bool \<Rightarrow> nat \<Rightarrow> nat \<Rightarrow> int" where
  "signed_shift s m k = (if s then - 1 else 1) * int (m * 2 ^ k)"

definition fp_add :: "fmt \<Rightarrow> nat \<Rightarrow> nat \<Rightarrow> nat" where
  "fp_add F x y =
     (case (fp_decode F x, fp_decode F y) of
        (FFin s m e, FFin s' m' e') \<Rightarrow>
          let e0 = min e e';
              t = signed_shift s m (nat (e - e0)) + signed_shift s' m' (nat (e' - e0))
          in if t = 0 then fp_signed F (s \<and> s') 0 else round_dyadic F (t < 0) (nat \<bar>t\<bar>) e0
      | (FInf s, FInf s') \<Rightarrow> if s = s' then fp_signed F s (fp_inf_mag F) else fp_nan F
      | (FInf s, FFin s' m' e') \<Rightarrow> fp_signed F s (fp_inf_mag F)
      | (FFin s m e, FInf s') \<Rightarrow> fp_signed F s' (fp_inf_mag F)
      | _ \<Rightarrow> fp_nan F)"

definition fp_div :: "fmt \<Rightarrow> nat \<Rightarrow> nat \<Rightarrow> nat" where
  "fp_div F x y =
     (case (fp_decode F x, fp_decode F y) of
        (FFin s m e, FFin s' m' e') \<Rightarrow>
          if m' = 0 then (if m = 0 then fp_nan F else fp_signed F (s \<noteq> s') (fp_inf_mag F))
          else (case (dyadic m e, dyadic m' e') of ((a, b), (a', b')) \<Rightarrow>
                  fp_round F (s \<noteq> s') (a * b') (b * a'))
      | (FInf s, FFin s' m' e') \<Rightarrow> fp_signed F (s \<noteq> s') (fp_inf_mag F)
      | (FFin s m e, FInf s') \<Rightarrow> fp_signed F (s \<noteq> s') 0
      | _ \<Rightarrow> fp_nan F)"

definition fin_le :: "bool \<Rightarrow> nat \<Rightarrow> int \<Rightarrow> bool \<Rightarrow> nat \<Rightarrow> int \<Rightarrow> bool" where
  "fin_le s m e s' m' e' =
     (let e0 = min e e'
      in signed_shift s m (nat (e - e0)) \<le> signed_shift s' m' (nat (e' - e0)))"

definition fp_le :: "fmt \<Rightarrow> nat \<Rightarrow> nat \<Rightarrow> bool" where
  "fp_le F x y =
     (case (fp_decode F x, fp_decode F y) of
        (FFin s m e, FFin s' m' e') \<Rightarrow> fin_le s m e s' m' e'
      | (FInf s, FInf s') \<Rightarrow> s \<or> \<not> s'
      | (FInf s, FFin s' m' e') \<Rightarrow> s
      | (FFin s m e, FInf s') \<Rightarrow> \<not> s'
      | _ \<Rightarrow> False)"

definition fp_lt :: "fmt \<Rightarrow> nat \<Rightarrow> nat \<Rightarrow> bool" where
  "fp_lt F x y =
     (case (fp_decode F x, fp_decode F y) of
        (FNan, _) \<Rightarrow> False
      | (_, FNan) \<Rightarrow> False
      | _ \<Rightarrow> \<not> fp_le F y x)"

definition fp_is_nan :: "fmt \<Rightarrow> nat \<Rightarrow> bool" where
  "fp_is_nan F x \<longleftrightarrow> fp_decode F x = FNan"

section \<open>The real value\<close>

definition fin_val :: "bool \<Rightarrow> nat \<Rightarrow> int \<Rightarrow> real" where
  "fin_val s m e = (if s then - 1 else 1) * real m * 2 powi e"

definition fp_val :: "fmt \<Rightarrow> nat \<Rightarrow> real" where
  "fp_val F x = (case fp_decode F x of FFin s m e \<Rightarrow> fin_val s m e | _ \<Rightarrow> 0)"

definition fp_finite :: "fmt \<Rightarrow> nat \<Rightarrow> bool" where
  "fp_finite F x \<longleftrightarrow> (\<exists>s m e. fp_decode F x = FFin s m e)"

section \<open>Lemmas\<close>

lemma ilog2_bounds: "0 < n \<Longrightarrow> 2 ^ ilog2 n \<le> n \<and> n < 2 ^ Suc (ilog2 n)"
proof (induction n rule: ilog2.induct)
  case (1 n)
  show ?case
  proof (cases "n < 2")
    case True
    with "1.prems" show ?thesis by (simp add: ilog2.simps [of n])
  next
    case False
    with "1.IH" have IH: "2 ^ ilog2 (n div 2) \<le> n div 2" "n div 2 < 2 ^ Suc (ilog2 (n div 2))"
      by simp_all
    from False have l: "ilog2 n = Suc (ilog2 (n div 2))" by (simp add: ilog2.simps [of n])
    show ?thesis unfolding l using IH by (simp add: less_mult_imp_div_less) linarith
  qed
qed

lemma ilog2_eqI: "2 ^ k \<le> n \<Longrightarrow> n < 2 ^ Suc k \<Longrightarrow> ilog2 n = k"
proof -
  assume n: "2 ^ k \<le> n" "n < 2 ^ Suc k"
  then have "0 < n" by (metis gr_zeroI not_less zero_less_numeral zero_less_power)
  from ilog2_bounds [OF this] n have "(2::nat) ^ k < 2 ^ Suc (ilog2 n)" "(2::nat) ^ ilog2 n < 2 ^ Suc k"
    by linarith+
  then show ?thesis by (metis le_antisym less_Suc_eq_le one_less_numeral_iff power_less_imp_less_exp semiring_norm(76))
qed

lemma scale_frac_val:
  "0 < b \<Longrightarrow> real (fst (scale_frac u (a, b))) / real (snd (scale_frac u (a, b))) =
     real a / real b * 2 powi (- u)"
  by (auto simp: scale_frac_def power_int_def field_simps)

lemma scale_frac_pos: "0 < b \<Longrightarrow> 0 < snd (scale_frac u (a, b))"
  by (simp add: scale_frac_def)

lemma scaled_ge_one: "1 \<le> x * 2 powi (- e) \<longleftrightarrow> 2 powi e \<le> (x :: real)"
  by (simp add: power_int_minus divide_inverse [symmetric] le_divide_eq)

lemma frac_exponent_bounds:
  assumes "0 < a" and "0 < b"
  shows "2 powi (frac_exponent a b) \<le> real a / real b \<and>
    real a / real b < 2 powi (frac_exponent a b + 1)"
proof -
  let ?e = "int (ilog2 a) - int (ilog2 b)"
  obtain a' b' where s: "scale_frac ?e (a, b) = (a', b')" by (cases "scale_frac ?e (a, b)")
  have b': "0 < b'" using scale_frac_pos [OF assms(2), of ?e a] by (simp add: s)
  have v: "real a' / real b' = real a / real b * 2 powi (- ?e)"
    using scale_frac_val [OF assms(2), of ?e a] by (simp add: s)
  have "real (2 ^ ilog2 a) \<le> real a" "real a < real (2 ^ Suc (ilog2 a))"
    "real (2 ^ ilog2 b) \<le> real b" "real b < real (2 ^ Suc (ilog2 b))"
    using ilog2_bounds [OF assms(1)] ilog2_bounds [OF assms(2)]
    by (simp_all only: of_nat_le_iff of_nat_less_iff)
  then have la: "2 ^ ilog2 a \<le> real a" "real a < 2 * 2 ^ ilog2 a"
    and lb: "2 ^ ilog2 b \<le> real b" "real b < 2 * 2 ^ ilog2 b"
    by simp_all
  have pe: "2 powi ?e = (2 ^ ilog2 a / 2 ^ ilog2 b :: real)"
    by (simp add: power_int_diff)
  have up: "real a / real b < 2 powi (?e + 1)"
  proof -
    have "real a / real b < 2 * 2 ^ ilog2 a / 2 ^ ilog2 b"
      using la lb assms by (intro frac_less) auto
    then show ?thesis by (simp add: power_int_add pe mult.commute)
  qed
  have lo: "2 powi (?e - 1) \<le> real a / real b"
  proof -
    have "2 ^ ilog2 a / (2 * 2 ^ ilog2 b) \<le> real a / real b"
      using la lb assms by (intro frac_le) auto
    then show ?thesis by (simp add: power_int_diff)
  qed
  have "b' \<le> a' \<longleftrightarrow> 1 \<le> real a' / real b'" using b' by simp
  also have "\<dots> \<longleftrightarrow> 2 powi ?e \<le> real a / real b"
    unfolding v by (rule scaled_ge_one)
  finally have c: "b' \<le> a' \<longleftrightarrow> 2 powi ?e \<le> real a / real b" .
  show ?thesis
    using up lo c by (auto simp: frac_exponent_def s)
qed

lemma div_rne_exact: "0 < b \<Longrightarrow> div_rne (m * b) b = m"
  by (simp add: div_rne_def)

text \<open>Reading back an encoded magnitude \<open>x * 2 ^ man + m\<close>.\<close>

lemma fp_decode_signed:
  assumes "m < 2 ^ f_man F" and "x < 2 ^ f_exp F"
  shows "fp_decode F (fp_signed F s (x * 2 ^ f_man F + m)) =
    (if x = 2 ^ f_exp F - 1 then (if m = 0 then FInf s else FNan)
     else if x = 0 then FFin s m (f_emin F)
     else FFin s (m + 2 ^ f_man F) (f_emin F + int x - 1))"
proof -
  let ?p = "2 ^ f_man F :: nat" and ?q = "2 ^ f_exp F :: nat"
  define t :: nat where "t = (if s then 1 else 0)"
  have b: "fp_signed F s (x * ?p + m) = (t * ?q + x) * ?p + m"
    by (simp add: fp_signed_def t_def power_add algebra_simps)
  define B where "B = (t * ?q + x) * ?p + m"
  have "B mod ?p = m" "B div ?p = t * ?q + x" unfolding B_def using assms(1) by simp_all
  moreover from this have "B div 2 ^ (f_man F + f_exp F) = t"
    using assms(2) by (simp add: power_add div_mult2_eq)
  moreover have "(t * ?q + x) mod ?q = x" using assms(2) by simp
  moreover have "odd t = s" by (simp add: t_def)
  ultimately show ?thesis
    unfolding fp_decode_def b B_def [symmetric] Let_def by simp
qed

lemma fp_decode_normal:
  assumes "2 ^ f_man F \<le> m" and "m < 2 ^ Suc (f_man F)" and "n + 2 < 2 ^ f_exp F"
  shows "fp_decode F (fp_signed F s (n * 2 ^ f_man F + m)) = FFin s m (f_emin F + int n)"
proof -
  have "n * 2 ^ f_man F + m = Suc n * 2 ^ f_man F + (m - 2 ^ f_man F)"
    using assms(1) by simp
  then show ?thesis
    using assms fp_decode_signed [of "m - 2 ^ f_man F" F "Suc n" s] by simp
qed

lemma fp_decode_subnormal:
  assumes "m < 2 ^ f_man F" and "2 \<le> f_exp F"
  shows "fp_decode F (fp_signed F s m) = FFin s m (f_emin F)"
proof -
  have "(2::nat) ^ 2 \<le> 2 ^ f_exp F" using assms(2) by (intro power_increasing) simp_all
  then show ?thesis using fp_decode_signed [of m F 0 s] assms by simp
qed

text \<open>Rounding is exact on representable numbers.\<close>

lemma fp_round_exact_decode:
  assumes M: "0 < M" "M < 2 ^ Suc (f_man F)" and k: "f_emin F \<le> k" and b: "0 < b"
    and val: "real a / real b = real M * 2 powi k"
    and big: "real M * 2 powi k < 2 powi (int (f_bias F) + 1)" and ex: "2 \<le> f_exp F"
  shows "\<exists>m u. fp_decode F (fp_round F s a b) = FFin s m u \<and> real m * 2 powi u = real M * 2 powi k"
proof -
  let ?v = "real M * 2 powi k" and ?mb = "f_man F"
  have vpos: "0 < ?v" using M(1) by simp
  then have a: "0 < a" using val by (cases "a = 0") simp_all
  define E where "E = frac_exponent a b"
  define u where "u = max (E - int ?mb) (f_emin F)"
  obtain a' b' where s: "scale_frac u (a, b) = (a', b')" by (cases "scale_frac u (a, b)")
  have b': "0 < b'" using scale_frac_pos [OF b, of u a] by (simp add: s)
  have Eb: "2 powi E \<le> ?v" "?v < 2 powi (E + 1)"
    using frac_exponent_bounds [OF a b] by (simp_all add: E_def val)
  have uk: "u \<le> k"
  proof (rule ccontr)
    assume "\<not> u \<le> k"
    with k have u: "u = E - int ?mb" "k + 1 \<le> u" by (auto simp: u_def)
    have "2 powi (k + int (Suc ?mb)) \<le> (2::real) powi E" using u by (intro power_int_increasing) simp_all
    also have "\<dots> \<le> ?v" by (rule Eb)
    also have "\<dots> < 2 powi (k + int (Suc ?mb))"
    proof -
      have "real M < 2 ^ Suc ?mb" using M(2) by (metis of_nat_less_iff of_nat_numeral of_nat_power)
      then show ?thesis by (simp add: power_int_add mult.commute)
    qed
    finally show False by simp
  qed
  define m where "m = M * 2 ^ nat (k - u)"
  have mv: "real m = ?v * 2 powi (- u)"
  proof -
    have "real m = real M * 2 powi (k - u)" using uk by (simp add: m_def power_int_def)
    then show ?thesis by (simp add: power_int_diff power_int_minus field_simps)
  qed
  have "real a' / real b' = real m"
    using scale_frac_val [OF b, of u a] by (simp add: s val mv)
  then have "a' = m * b'" using b' by (simp add: field_simps flip: of_nat_mult)
  then have rne: "div_rne a' b' = m" using div_rne_exact [OF b'] by simp
  have m_lt: "m < 2 ^ Suc ?mb"
  proof -
    have "real m < 2 powi (E + 1) * 2 powi (- u)" unfolding mv using Eb(2) by simp
    also have "\<dots> = 2 powi (E + 1 - u)" by (simp add: power_int_minus power_int_diff field_simps)
    also have "\<dots> \<le> 2 powi int (Suc ?mb)" by (intro power_int_increasing) (simp_all add: u_def)
    finally show ?thesis by (metis of_nat_less_iff of_nat_numeral of_nat_power power_int_of_nat)
  qed
  have m_ge: "2 ^ ?mb \<le> m" if "f_emin F < u"
  proof -
    from that have u: "u = E - int ?mb" by (auto simp: u_def)
    have "2 powi int ?mb = (2::real) powi (E - u)" by (simp add: u)
    also have "\<dots> \<le> real m"
      unfolding mv using Eb(1) by (simp add: power_int_minus power_int_diff field_simps)
    finally show ?thesis by (metis of_nat_le_iff of_nat_numeral of_nat_power power_int_of_nat)
  qed
  have bias: "2 * f_bias F + 2 = 2 ^ f_exp F"
  proof -
    obtain k where k: "f_exp F = Suc k" using ex by (cases "f_exp F") simp_all
    have "(1::nat) \<le> 2 ^ k" by simp
    then show ?thesis unfolding f_bias_def k by (simp del: One_nat_def one_le_numeral one_le_power)
  qed
  have E: "E \<le> int (f_bias F)"
  proof (rule ccontr)
    assume "\<not> E \<le> int (f_bias F)"
    then have "2 powi (int (f_bias F) + 1) \<le> (2::real) powi E" by (intro power_int_increasing) simp_all
    with Eb(1) big show False by simp
  qed
  define n where "n = nat (u - f_emin F)"
  have u_n: "u = f_emin F + int n" by (simp add: n_def u_def)
  have bpos: "1 \<le> f_bias F"
  proof -
    have "(2::nat) ^ 2 \<le> 2 ^ f_exp F" using ex by (intro power_increasing) simp_all
    then show ?thesis using bias by simp
  qed
  have n_lt: "n + 2 < 2 ^ f_exp F"
  proof -
    have "int n \<le> 2 * int (f_bias F) - 1"
      using E bpos by (auto simp: n_def u_def f_emin_def)
    then show ?thesis using bias by linarith
  qed
  have fit: "n * 2 ^ ?mb + m < fp_inf_mag F"
  proof -
    have "n * 2 ^ ?mb + m < (n + 2) * 2 ^ ?mb" using m_lt by simp
    also have "\<dots> \<le> (2 ^ f_exp F - 1) * 2 ^ ?mb" using n_lt by (intro mult_le_mono1) simp
    finally show ?thesis by (simp add: fp_inf_mag_def)
  qed
  have mag: "fp_round_mag F a b = n * 2 ^ ?mb + m"
    using a fit by (simp add: fp_round_mag_def s rne flip: E_def u_def n_def)
  have "fp_decode F (fp_round F s a b) = FFin s m u"
  proof (cases "2 ^ ?mb \<le> m")
    case True
    then show ?thesis
      using fp_decode_normal [OF True m_lt n_lt, of s] by (simp add: fp_round_def mag u_n)
  next
    case False
    with m_ge have "\<not> f_emin F < u" by auto
    then have "n = 0" "u = f_emin F" using u_n by simp_all
    then show ?thesis
      using fp_decode_subnormal [of m F s] False ex by (simp add: fp_round_def mag)
  qed
  moreover have "real m * 2 powi u = ?v"
    unfolding mv by (simp add: power_int_minus)
  ultimately show ?thesis by blast
qed

section \<open>Exact products and sums\<close>

lemma fp_decode_zero: "2 \<le> f_exp F \<Longrightarrow> fp_decode F (fp_signed F s 0) = FFin s 0 (f_emin F)"
  using fp_decode_subnormal [of 0 F s] by simp

text \<open>\<open>fp_fits F v\<close>: the real magnitude \<open>v\<close> is representable.\<close>

definition fp_fits :: "fmt \<Rightarrow> real \<Rightarrow> bool" where
  "fp_fits F v \<longleftrightarrow> (\<exists>M k. M < 2 ^ Suc (f_man F) \<and> f_emin F \<le> k \<and> v = real M * 2 powi k \<and>
     v < 2 powi (int (f_bias F) + 1))"

lemma fp_round_exact:
  assumes fits: "fp_fits F (real a / real b)" and b: "0 < b" and ex: "2 \<le> f_exp F"
  shows "fp_finite F (fp_round F s a b) \<and> fp_val F (fp_round F s a b) = (if s then - 1 else 1) * (real a / real b)"
proof (cases "a = 0")
  case True
  then show ?thesis
    using fp_decode_zero [OF ex, of s]
    by (simp add: fp_round_def fp_round_mag_def fp_finite_def fp_val_def fin_val_def)
next
  case False
  from fits obtain M k where M: "M < 2 ^ Suc (f_man F)" "f_emin F \<le> k" "real a / real b = real M * 2 powi k"
    "real a / real b < 2 powi (int (f_bias F) + 1)" by (auto simp: fp_fits_def)
  have "0 < M" using False b M(3) by (cases "M = 0") auto
  from fp_round_exact_decode [OF this M(1,2) b M(3) _ ex, of s] M(3,4)
  obtain m u where d: "fp_decode F (fp_round F s a b) = FFin s m u" "real m * 2 powi u = real a / real b"
    by auto
  then show ?thesis by (auto simp: fp_finite_def fp_val_def fin_val_def)
qed

lemma dyadic_val:
  "dyadic m e = (a, b) \<Longrightarrow> 0 < b \<and> real a / real b = real m * 2 powi e"
  by (auto simp: dyadic_def power_int_def field_simps split: if_splits)

lemma round_dyadic_exact:
  assumes "fp_fits F (real m * 2 powi e)" and "2 \<le> f_exp F"
  shows "fp_finite F (round_dyadic F s m e) \<and> fp_val F (round_dyadic F s m e) = fin_val s m e"
proof -
  obtain a b where d: "dyadic m e = (a, b)" by (cases "dyadic m e")
  from dyadic_val [OF this] assms fp_round_exact [of F a b s] show ?thesis
    by (simp add: round_dyadic_def d fin_val_def)
qed

lemma fp_finite_val: "fp_decode F x = FFin s m e \<Longrightarrow> fp_finite F x \<and> fp_val F x = fin_val s m e"
  by (simp add: fp_finite_def fp_val_def)

lemma abs_fin_val: "\<bar>fin_val s m e\<bar> = real m * 2 powi e"
  by (simp add: fin_val_def abs_mult)

lemma fp_mul_exact:
  assumes "fp_finite F x" and "fp_finite F y" and "fp_fits F \<bar>fp_val F x * fp_val F y\<bar>" and "2 \<le> f_exp F"
  shows "fp_finite F (fp_mul F x y) \<and> fp_val F (fp_mul F x y) = fp_val F x * fp_val F y"
proof -
  from assms(1,2) obtain s m e s' m' e' where d: "fp_decode F x = FFin s m e" "fp_decode F y = FFin s' m' e'"
    by (auto simp: fp_finite_def)
  have p: "fin_val s m e * fin_val s' m' e' = fin_val (s \<noteq> s') (m * m') (e + e')"
    by (simp add: fin_val_def power_int_add)
  then have "fp_fits F \<bar>fin_val (s \<noteq> s') (m * m') (e + e')\<bar>"
    using assms(3) by (simp add: fp_val_def d)
  then have "fp_fits F (real (m * m') * 2 powi (e + e'))" by (simp only: abs_fin_val)
  from round_dyadic_exact [OF this assms(4)] show ?thesis
    by (simp add: fp_mul_def d fp_val_def [of F x] fp_val_def [of F y] p)
qed

lemma signed_shift_val:
  "e0 \<le> e \<Longrightarrow> real_of_int (signed_shift s m (nat (e - e0))) * 2 powi e0 = fin_val s m e"
proof -
  assume "e0 \<le> e"
  then obtain n where e: "e = e0 + int n" by (metis zle_iff_zadd)
  have "(2::real) ^ nat (e - e0) * 2 powi e0 = 2 powi e"
    unfolding e by (simp add: power_int_add)
  then show ?thesis by (simp add: signed_shift_def fin_val_def mult.assoc)
qed

lemma fp_add_exact:
  assumes "fp_finite F x" and "fp_finite F y" and "fp_fits F \<bar>fp_val F x + fp_val F y\<bar>" and "2 \<le> f_exp F"
  shows "fp_finite F (fp_add F x y) \<and> fp_val F (fp_add F x y) = fp_val F x + fp_val F y"
proof -
  from assms(1,2) obtain s m e s' m' e' where d: "fp_decode F x = FFin s m e" "fp_decode F y = FFin s' m' e'"
    by (auto simp: fp_finite_def)
  define e0 where "e0 = min e e'"
  define t where "t = signed_shift s m (nat (e - e0)) + signed_shift s' m' (nat (e' - e0))"
  have "real_of_int t * 2 powi e0 = fin_val s m e + fin_val s' m' e'"
    using signed_shift_val [of e0 e s m] signed_shift_val [of e0 e' s' m']
    by (simp add: t_def e0_def distrib_right)
  then have v: "fp_val F x + fp_val F y = real_of_int t * 2 powi e0" by (simp add: fp_val_def d)
  have a: "fp_add F x y = (if t = 0 then fp_signed F (s \<and> s') 0 else round_dyadic F (t < 0) (nat \<bar>t\<bar>) e0)"
    unfolding fp_add_def d by (simp add: Let_def e0_def [symmetric] t_def [symmetric])
  show ?thesis
  proof (cases "t = 0")
    case True
    then show ?thesis
      using fp_decode_zero [OF assms(4), of "s \<and> s'"] v by (simp add: a fp_finite_def fp_val_def fin_val_def)
  next
    case False
    have "real (nat \<bar>t\<bar>) = \<bar>real_of_int t\<bar>" by simp
    then have "fp_fits F (real (nat \<bar>t\<bar>) * 2 powi e0)"
      using assms(3) by (simp add: v abs_mult)
    from round_dyadic_exact [OF this assms(4), of "t < 0"] False show ?thesis
      by (auto simp: a v fin_val_def)
  qed
qed

section \<open>Results fit their format\<close>

lemma fp_signed_less: "mag < 2 ^ (f_man F + f_exp F) \<Longrightarrow> fp_signed F s mag < 2 ^ Suc (f_man F + f_exp F)"
  by (simp add: fp_signed_def)

lemma fp_inf_mag_less: "fp_inf_mag F < 2 ^ (f_man F + f_exp F)"
  by (simp add: fp_inf_mag_def power_add mult.commute)

lemma fp_round_less: "fp_round F s a b < 2 ^ Suc (f_man F + f_exp F)"
proof -
  have "fp_round_mag F a b \<le> fp_inf_mag F"
    by (simp add: fp_round_mag_def Let_def split: prod.splits)
  then show ?thesis
    unfolding fp_round_def by (intro fp_signed_less) (rule le_less_trans [OF _ fp_inf_mag_less])
qed

lemma fp_nan_less: "0 < f_man F \<Longrightarrow> fp_nan F < 2 ^ Suc (f_man F + f_exp F)"
proof -
  assume "0 < f_man F"
  then have "(2::nat) ^ (f_man F - 1) < 2 ^ f_man F" by simp
  also have "(2::nat) ^ f_man F \<le> 2 ^ (f_man F + f_exp F)" by (intro power_increasing) simp_all
  finally show ?thesis using fp_inf_mag_less [of F] unfolding fp_nan_def power_Suc by linarith
qed

lemma round_dyadic_less: "round_dyadic F s m e < 2 ^ Suc (f_man F + f_exp F)"
  unfolding round_dyadic_def by (cases "dyadic m e") (simp only: prod.case fp_round_less)

lemma fp_arith_less:
  assumes "0 < f_man F"
  shows "fp_mul F x y < 2 ^ Suc (f_man F + f_exp F)" and "fp_add F x y < 2 ^ Suc (f_man F + f_exp F)"
    and "fp_div F x y < 2 ^ Suc (f_man F + f_exp F)"
  unfolding fp_mul_def fp_add_def fp_div_def Let_def
  using fp_nan_less [OF assms] fp_signed_less [OF fp_inf_mag_less, of F] fp_signed_less [of 0 F]
  by (auto simp del: power_Suc intro!: round_dyadic_less fp_round_less split: fpnum.split prod.split)

section \<open>Rounding is monotone\<close>

lemma div_rne_bounds: "a div b \<le> div_rne a b \<and> div_rne a b \<le> Suc (a div b)"
  by (simp add: div_rne_def Let_def)

lemma cross_cancel: "(q * b + r) * d \<le> (q * d + s) * b \<Longrightarrow> r * d \<le> s * (b :: nat)"
  by (simp add: algebra_simps)

lemma div_rne_mono:
  assumes b: "0 < b" and d: "0 < d" and le: "a * d \<le> c * b"
  shows "div_rne a b \<le> div_rne c d"
proof -
  have q: "a div b \<le> c div d"
  proof -
    have "a div b * b * d \<le> c * b" using le by (metis div_times_less_eq_dividend le_trans mult_le_mono1)
    then have "a div b * d \<le> c" using b by (simp add: mult.assoc mult.commute [of b])
    then show ?thesis using d by (simp add: less_eq_div_iff_mult_less_eq)
  qed
  show ?thesis
  proof (cases "a div b = c div d")
    case False
    then have "Suc (a div b) \<le> c div d" using q by simp
    then show ?thesis using div_rne_bounds [of a b] div_rne_bounds [of c d] by linarith
  next
    case True
    let ?q = "c div d"
    have "a = ?q * b + a mod b" using True by (metis div_mult_mod_eq)
    moreover have "c = ?q * d + c mod d" by simp
    ultimately have "(?q * b + a mod b) * d \<le> (?q * d + c mod d) * b" using le by metis
    then have m: "a mod b * d \<le> c mod d * b" by (rule cross_cancel)
    have lt: "d < 2 * (c mod d)" if "b < 2 * (a mod b)"
    proof -
      have "d * b < 2 * (a mod b) * d" using that d by (simp add: mult.commute)
      also have "\<dots> \<le> 2 * (c mod d) * b" using m by simp
      finally show ?thesis using b by simp
    qed
    have ge: "d \<le> 2 * (c mod d)" if "b \<le> 2 * (a mod b)"
    proof -
      have "d * b \<le> 2 * (a mod b) * d" using that by (simp add: mult.commute)
      also have "\<dots> \<le> 2 * (c mod d) * b" using m by simp
      finally show ?thesis using b by simp
    qed
    show ?thesis
      unfolding div_rne_def Let_def True using lt ge by auto
  qed
qed

text \<open>The scaled fraction of the rounding, and the exponent it is rounded at.\<close>

definition round_ulp :: "fmt \<Rightarrow> nat \<Rightarrow> nat \<Rightarrow> int" where
  "round_ulp F a b = max (frac_exponent a b - int (f_man F)) (f_emin F)"

lemma fp_round_mag_eq:
  "a \<noteq> 0 \<Longrightarrow> fp_round_mag F a b = min (nat (round_ulp F a b - f_emin F) * 2 ^ f_man F +
     div_rne (fst (scale_frac (round_ulp F a b) (a, b))) (snd (scale_frac (round_ulp F a b) (a, b))))
     (fp_inf_mag F)"
  by (simp add: fp_round_mag_def round_ulp_def Let_def split: prod.split)

lemma frac_exponent_mono:
  assumes "0 < a" "0 < b" "0 < c" "0 < d" and "real a / real b \<le> real c / real d"
  shows "frac_exponent a b \<le> frac_exponent c d"
proof (rule ccontr)
  assume "\<not> frac_exponent a b \<le> frac_exponent c d"
  then have "(2::real) powi (frac_exponent c d + 1) \<le> 2 powi frac_exponent a b"
    by (intro power_int_increasing) simp_all
  also have "\<dots> \<le> real a / real b" using frac_exponent_bounds [OF assms(1,2)] by simp
  also have "\<dots> \<le> real c / real d" by (rule assms(5))
  also have "\<dots> < 2 powi (frac_exponent c d + 1)" using frac_exponent_bounds [OF assms(3,4)] by simp
  finally show False by simp
qed

lemma scale_frac_bounds:
  assumes "0 < a" "0 < b" and u: "u = round_ulp F a b" and s: "scale_frac u (a, b) = (a', b')"
  shows "0 < b'" and "a' < 2 ^ Suc (f_man F) * b'" and "f_emin F < u \<Longrightarrow> 2 ^ f_man F * b' \<le> a'"
proof -
  let ?e = "frac_exponent a b"
  show b': "0 < b'" using scale_frac_pos [OF assms(2), of u a] by (simp add: s)
  have v: "real a' / real b' = real a / real b * 2 powi (- u)"
    using scale_frac_val [OF assms(2), of u a] by (simp add: s)
  note fb = frac_exponent_bounds [OF assms(1,2)]
  have "real a' / real b' < 2 powi (?e + 1) * 2 powi (- u)"
    unfolding v by (rule mult_strict_right_mono) (use fb in simp_all)
  also have "\<dots> = 2 powi (?e + 1 - u)" by (simp add: power_int_minus power_int_diff field_simps)
  also have "\<dots> \<le> 2 powi int (Suc (f_man F))" by (intro power_int_increasing) (simp_all add: u round_ulp_def)
  finally have "real a' / real b' < 2 ^ Suc (f_man F)" unfolding power_int_of_nat .
  then have "real a' < real (2 ^ Suc (f_man F) * b')" using b' by (simp add: divide_less_eq)
  then show "a' < 2 ^ Suc (f_man F) * b'" by (simp only: of_nat_less_iff)
  assume "f_emin F < u"
  then have ue: "u = ?e - int (f_man F)" by (auto simp: u round_ulp_def)
  have "(2::real) ^ f_man F = 2 powi (?e - u)" by (simp add: ue)
  also have "\<dots> = 2 powi ?e * 2 powi (- u)" by (simp add: power_int_minus power_int_diff field_simps)
  also have "\<dots> \<le> real a' / real b'"
    unfolding v by (rule mult_right_mono) (use fb in simp_all)
  finally have "real (2 ^ f_man F * b') \<le> real a'" using b' by (simp add: le_divide_eq)
  then show "2 ^ f_man F * b' \<le> a'" by (simp only: of_nat_le_iff)
qed

lemma fp_round_mag_mono:
  assumes b: "0 < b" and d: "0 < d" and le: "a * d \<le> c * b"
  shows "fp_round_mag F a b \<le> fp_round_mag F c d"
proof (cases "a = 0")
  case True
  then show ?thesis by (simp add: fp_round_mag_def)
next
  case False
  then have a: "0 < a" by simp
  have c: "0 < c" using le a d by (cases "c = 0") simp_all
  have "real (a * d) \<le> real (c * b)" using le by (simp only: of_nat_le_iff)
  then have rle: "real a / real b \<le> real c / real d" using b d by (simp add: field_simps)
  let ?u = "round_ulp F a b" and ?w = "round_ulp F c d"
  have uw: "?u \<le> ?w" using frac_exponent_mono [OF a b c d rle] by (auto simp: round_ulp_def)
  obtain a' b' where s: "scale_frac ?u (a, b) = (a', b')" by (cases "scale_frac ?u (a, b)")
  obtain c' d' where t: "scale_frac ?w (c, d) = (c', d')" by (cases "scale_frac ?w (c, d)")
  note S = scale_frac_bounds [OF a b refl s] and T = scale_frac_bounds [OF c d refl t]
  have "nat (?u - f_emin F) * 2 ^ f_man F + div_rne a' b' \<le> nat (?w - f_emin F) * 2 ^ f_man F + div_rne c' d'"
  proof (cases "?u = ?w")
    case True
    have va: "real a' / real b' = real a / real b * 2 powi (- ?u)"
      using scale_frac_val [OF b, of ?u a] unfolding s fst_conv snd_conv .
    have vc: "real c' / real d' = real c / real d * 2 powi (- ?w)"
      using scale_frac_val [OF d, of ?w c] unfolding t fst_conv snd_conv .
    have "real a' / real b' \<le> real c' / real d'"
      unfolding va vc True by (rule mult_right_mono [OF rle]) simp
    then have "real (a' * d') \<le> real (c' * b')" using S(1) T(1) by (simp add: field_simps)
    then have "a' * d' \<le> c' * b'" by (simp only: of_nat_le_iff)
    then show ?thesis using div_rne_mono [OF S(1) T(1)] True by simp
  next
    case False
    with uw have lt: "?u < ?w" by simp
    have emin: "f_emin F \<le> ?u" by (simp add: round_ulp_def)
    have "a' div b' < 2 ^ Suc (f_man F)" using S(1,2) by (simp add: div_less_iff_less_mult)
    then have A: "div_rne a' b' \<le> 2 * 2 ^ f_man F" using div_rne_bounds [of a' b'] by simp
    have "2 ^ f_man F \<le> c' div d'" using T(1) T(3) emin lt by (simp add: less_eq_div_iff_mult_less_eq)
    then have C: "2 ^ f_man F \<le> div_rne c' d'" using div_rne_bounds [of c' d'] by linarith
    have "Suc (nat (?u - f_emin F)) \<le> nat (?w - f_emin F)" using lt emin by simp
    then have "Suc (nat (?u - f_emin F)) * 2 ^ f_man F \<le> nat (?w - f_emin F) * 2 ^ f_man F"
      by (rule mult_le_mono1)
    with A C show ?thesis by simp
  qed
  then show ?thesis
    using a c by (simp add: fp_round_mag_eq s t min_le_iff_disj)
qed

section \<open>Order\<close>

lemma fp_le_finite:
  "fp_finite F x \<Longrightarrow> fp_finite F y \<Longrightarrow> fp_le F x y \<longleftrightarrow> fp_val F x \<le> fp_val F y"
proof -
  assume "fp_finite F x" "fp_finite F y"
  then obtain s m e s' m' e' where d: "fp_decode F x = FFin s m e" "fp_decode F y = FFin s' m' e'"
    by (auto simp: fp_finite_def)
  define e0 where "e0 = min e e'"
  let ?i = "signed_shift s m (nat (e - e0))" and ?j = "signed_shift s' m' (nat (e' - e0))"
  have "fin_val s m e = real_of_int ?i * 2 powi e0" "fin_val s' m' e' = real_of_int ?j * 2 powi e0"
    using signed_shift_val [of e0 e s m] signed_shift_val [of e0 e' s' m'] by (simp_all add: e0_def)
  then have "fp_val F x \<le> fp_val F y \<longleftrightarrow> ?i \<le> ?j" by (simp add: fp_val_def d)
  then show ?thesis by (simp add: fp_le_def d fin_le_def Let_def e0_def)
qed

lemma fp_lt_finite:
  "fp_finite F x \<Longrightarrow> fp_finite F y \<Longrightarrow> fp_lt F x y \<longleftrightarrow> fp_val F x < fp_val F y"
  using fp_le_finite [of F y x] by (auto simp: fp_lt_def fp_finite_def)

text \<open>The magnitudes of a format are ordered as their values.\<close>

definition mag_val :: "fmt \<Rightarrow> nat \<Rightarrow> real" where
  "mag_val F g = (if g div 2 ^ f_man F = 0 then real (g mod 2 ^ f_man F) * 2 powi f_emin F
     else real (g mod 2 ^ f_man F + 2 ^ f_man F) * 2 powi (f_emin F + int (g div 2 ^ f_man F) - 1))"

lemma mag_decode:
  assumes "g < fp_inf_mag F" and "0 < f_exp F"
  shows "fp_finite F (fp_signed F s g) \<and> fp_val F (fp_signed F s g) = (if s then - 1 else 1) * mag_val F g"
proof -
  let ?m = "g mod 2 ^ f_man F" and ?x = "g div 2 ^ f_man F"
  have x: "?x < 2 ^ f_exp F - 1"
    using assms(1) by (simp add: fp_inf_mag_def div_less_iff_less_mult)
  then have "?x < 2 ^ f_exp F" by simp
  have d: "fp_decode F (fp_signed F s g) =
      (if ?x = 0 then FFin s ?m (f_emin F) else FFin s (?m + 2 ^ f_man F) (f_emin F + int ?x - 1))"
    using fp_decode_signed [OF _ \<open>?x < 2 ^ f_exp F\<close>, of ?m s] less_imp_neq [OF x]
    by (simp only: div_mult_mod_eq if_False) simp
  show ?thesis using d
    by (cases "?x = 0") (auto simp: mag_val_def fin_val_def fp_finite_def fp_val_def)
qed

lemma mag_val_Suc: "mag_val F g < mag_val F (Suc g)"
proof -
  let ?p = "2 ^ f_man F :: nat" and ?m = "g mod 2 ^ f_man F" and ?x = "g div 2 ^ f_man F"
  show ?thesis
  proof (cases "Suc ?m = ?p")
    case True
    then have s: "Suc g mod ?p = 0" "Suc g div ?p = Suc ?x" by (simp_all add: mod_Suc div_Suc)
    have "real ?m < real ?p" by simp
    show ?thesis
    proof (cases "?x = 0")
      case x: True
      have "real ?m * 2 powi f_emin F < real ?p * 2 powi f_emin F" using \<open>real ?m < real ?p\<close> by simp
      then show ?thesis by (simp add: mag_val_def s x)
    next
      case x: False
      have "real (?m + ?p) * 2 powi (f_emin F + int ?x - 1) < real (2 * ?p) * 2 powi (f_emin F + int ?x - 1)"
        using \<open>real ?m < real ?p\<close> by (intro mult_strict_right_mono) simp_all
      also have "\<dots> = real ?p * 2 powi (f_emin F + int (Suc ?x) - 1)"
        by (simp add: power_int_add power_int_diff)
      finally show ?thesis using x by (simp add: mag_val_def s)
    qed
  next
    case False
    then have s: "Suc g mod ?p = Suc ?m" "Suc g div ?p = ?x" by (simp_all add: mod_Suc div_Suc)
    show ?thesis by (auto simp: mag_val_def s)
  qed
qed

lemma mag_val_mono: "g \<le> g' \<Longrightarrow> mag_val F g \<le> mag_val F g'"
  by (rule lift_Suc_mono_le [of "mag_val F"]) (simp_all add: mag_val_Suc less_imp_le)

lemma mag_val_strict: "g < g' \<Longrightarrow> mag_val F g < mag_val F g'"
  by (rule lift_Suc_mono_less [of "mag_val F"]) (simp_all add: mag_val_Suc)

lemma mag_val_less_iff: "mag_val F g < mag_val F g' \<longleftrightarrow> g < g'"
  by (metis mag_val_strict mag_val_mono linorder_not_less)

text \<open>Comparing two rounded non-negative ratios, neither of which overflows.\<close>

lemma fp_lt_round:
  assumes "fp_round_mag F a b < fp_inf_mag F" and "fp_round_mag F c d < fp_inf_mag F" and "0 < f_exp F"
  shows "fp_lt F (fp_round F False a b) (fp_round F False c d) \<longleftrightarrow> fp_round_mag F a b < fp_round_mag F c d"
  using mag_decode [OF assms(1,3), of False] mag_decode [OF assms(2,3), of False]
  by (simp add: fp_round_def fp_lt_finite mag_val_less_iff)

end
