(* ===== verification/Half.thy ===== *)
theory Half
  imports Ieee "HOL-Library.While_Combinator"
begin

text \<open>
  The compute element of a PE (\<open>Pe.h\<close>, \<open>Pe.cpp\<close>): the bit-level conversions between half and
  single precision and the four-lane fused multiply-add. A \<open>float\<close> is its 32-bit pattern; the
  multiplication and the addition of \<open>Ce::Fma\<close> are the binary32 operations of \<open>Ieee\<close>.
\<close>

unbundle bit_operations_syntax

section \<open>The conversions and the multiply-add\<close>

text \<open>The loop that normalises a subnormal significand.\<close>

definition half_norm :: "u32 \<Rightarrow> u32 \<Rightarrow> u32 \<times> u32" where
  "half_norm mant expn =
     while (\<lambda>(mant, expn). mant AND 0x400 = 0) (\<lambda>(mant, expn). (push_bit 1 mant, expn - 1)) (mant, expn)"

definition HalfToFloat :: "u16 \<Rightarrow> u32" where
  "HalfToFloat h =
     (let sign = push_bit 16 (ucast h AND 0x8000);
          expn = drop_bit 10 (ucast h) AND 0x1F;
          mant = ucast h AND 0x3FF
      in if expn = 0 then
           if mant = 0 then sign
           else (case half_norm mant 1 of (mant, expn) \<Rightarrow>
                   let mant = mant AND 0x3FF
                   in sign OR push_bit 23 (expn + (127 - 15)) OR push_bit 13 mant)
         else if expn = 0x1F then sign OR 0x7F800000 OR push_bit 13 mant
         else sign OR push_bit 23 (expn + (127 - 15)) OR push_bit 13 mant)"

definition FloatToHalf :: "u32 \<Rightarrow> u16" where
  "FloatToHalf f =
     (let sign = drop_bit 16 f AND 0x8000;
          fexp = drop_bit 23 f AND 0xFF;
          mant = f AND 0x7FFFFF
      in if fexp = 0xFF then ucast (sign OR 0x7C00 OR (if mant \<noteq> 0 then 0x200 else 0))
         else let expn = int (unat fexp) - 127 + 15
              in if expn \<ge> 0x1F then ucast (sign OR 0x7C00)
                 else if expn \<le> 0 then
                   if expn < - 10 then ucast sign
                   else let mant = mant OR 0x800000; shift = nat (14 - expn)
                        in ucast (sign OR drop_bit shift mant)
                 else ucast (sign OR push_bit 10 (of_int expn) OR drop_bit 13 mant))"

definition kFmacCount :: nat where "kFmacCount = 4"

definition kDatapathBits :: nat where "kDatapathBits = 64"

definition kLanes :: nat where "kLanes = kDatapathBits div 16"

text \<open>The single-precision operations, on bit patterns.\<close>

definition f32_mul :: "u32 \<Rightarrow> u32 \<Rightarrow> u32" where
  "f32_mul a b = of_nat (fp_mul binary32 (unat a) (unat b))"

definition f32_add :: "u32 \<Rightarrow> u32 \<Rightarrow> u32" where
  "f32_add a b = of_nat (fp_add binary32 (unat a) (unat b))"

definition fma_lane :: "u16 \<Rightarrow> u16 \<Rightarrow> u16 \<Rightarrow> u16" where
  "fma_lane a b c =
     (let r = f32_add (f32_mul (HalfToFloat a) (HalfToFloat b)) (HalfToFloat c) in FloatToHalf r)"

definition Fma :: "u16 list \<Rightarrow> u16 list \<Rightarrow> u16 list \<Rightarrow> u16 list" where
  "Fma a b c = map (\<lambda>i. fma_lane (a ! i) (b ! i) (c ! i)) [0..<kLanes]"

section \<open>The fields of a half and of a float\<close>

definition h_sign :: "u16 \<Rightarrow> bool" where "h_sign h = bit h 15"
definition h_exp :: "u16 \<Rightarrow> nat" where "h_exp h = (unat h div 2 ^ 10) mod 2 ^ 5"
definition h_man :: "u16 \<Rightarrow> nat" where "h_man h = unat h mod 2 ^ 10"

definition f_sign :: "u32 \<Rightarrow> bool" where "f_sign f = bit f 31"
definition f_exp_field :: "u32 \<Rightarrow> nat" where "f_exp_field f = (unat f div 2 ^ 23) mod 2 ^ 8"
definition f_man_field :: "u32 \<Rightarrow> nat" where "f_man_field f = unat f mod 2 ^ 23"

lemma h_bounds [simp]: "h_exp h < 32" "h_man h < 1024"
  by (simp_all add: h_exp_def h_man_def)

lemma f_bounds [simp]: "f_exp_field f < 256" "f_man_field f < 8388608"
  by (simp_all add: f_exp_field_def f_man_field_def)

lemma div_mod_split: "(n :: nat) = n div p div q * (p * q) + n div p mod q * p + n mod p"
  by (metis add.commute add_mult_distrib mod_mult2_eq div_mult2_eq mult.assoc mult.commute mult_div_mod_eq)

lemma bit_odd_unat: "bit (w :: 'a :: len word) n = odd (unat w div 2 ^ n)"
  unfolding bit_iff_odd [symmetric] by (auto simp: bit_unsigned_iff dest: bit_imp_le_length)

lemma bit_0x8000: "bit (0x8000 :: u32) n \<longleftrightarrow> n = 15"
proof -
  have "(0x8000 :: u32) = push_bit 15 1" by simp
  then show ?thesis by (auto simp only: bit_push_bit_iff bit_1_iff possible_bit_word) simp_all
qed

lemma and_0x8000: "(w :: u32) AND 0x8000 = (if bit w 15 then 0x8000 else 0)"
proof (cases "bit w 15")
  case True
  have "w AND 0x8000 = 0x8000"
    by (rule bit_word_eqI) (use True in \<open>auto simp only: bit_and_iff bit_0x8000\<close>)
  with True show ?thesis by simp
next
  case False
  have "w AND 0x8000 = 0"
    by (rule bit_word_eqI)
      (use False in \<open>auto simp only: bit_and_iff bit_0x8000 bit_0_eq bot_apply bot_bool_def\<close>)
  with False show ?thesis by simp
qed

lemma unat_lt: "unat (w :: 'a :: len word) < 2 ^ LENGTH('a)"
  by (rule unsigned_less)

lemma unat_half: "unat h = fp_signed binary16 (h_sign h) (h_exp h * 2 ^ 10 + h_man h)"
proof -
  have "unat h < 2 ^ 16" using unsigned_less [of h] by simp
  then have "unat h div 2 ^ 15 < 2" by simp
  then have "unat h div 2 ^ 15 = of_bool (odd (unat h div 2 ^ 15))"
    by (cases "unat h div 2 ^ 15 = 0") auto
  moreover have "h_sign h = odd (unat h div 2 ^ 15)"
    unfolding h_sign_def by (rule bit_odd_unat)
  ultimately have "unat h div 2 ^ 10 div 2 ^ 5 = of_bool (h_sign h)"
    by (simp add: div_mult2_eq [symmetric])
  with div_mod_split [of "unat h" "2 ^ 10" "2 ^ 5"] show ?thesis
    by (cases "h_sign h") (simp_all add: fp_signed_def binary16_def h_exp_def h_man_def)
qed

lemma unat_float: "unat f = fp_signed binary32 (f_sign f) (f_exp_field f * 2 ^ 23 + f_man_field f)"
proof -
  have "unat f < 2 ^ 32" using unsigned_less [of f] by simp
  then have "unat f div 2 ^ 31 < 2" by simp
  then have "unat f div 2 ^ 31 = of_bool (odd (unat f div 2 ^ 31))"
    by (cases "unat f div 2 ^ 31 = 0") auto
  moreover have "f_sign f = odd (unat f div 2 ^ 31)"
    unfolding f_sign_def by (rule bit_odd_unat)
  ultimately have "unat f div 2 ^ 23 div 2 ^ 8 = of_bool (f_sign f)"
    by (simp add: div_mult2_eq [symmetric])
  with div_mod_split [of "unat f" "2 ^ 23" "2 ^ 8"] show ?thesis
    by (cases "f_sign f") (simp_all add: fp_signed_def binary32_def f_exp_field_def f_man_field_def)
qed

lemma half_mask:
  "(ucast h :: u32) AND 0x8000 = (if h_sign h then 0x8000 else 0)"
  "unat (drop_bit 10 (ucast h :: u32) AND 0x1F) = h_exp h"
  "unat ((ucast h :: u32) AND 0x3FF) = h_man h"
proof -
  have m: "(0x1F :: u32) = mask 5" "(0x3FF :: u32) = mask 10"
    by (simp_all add: mask_eq_exp_minus_1)
  show "(ucast h :: u32) AND 0x8000 = (if h_sign h then 0x8000 else 0)"
    by (simp add: and_0x8000 h_sign_def bit_simps)
  have u: "unat (ucast h :: u32) = unat h"
    using unat_lt [of h] by (simp add: unsigned_ucast_eq take_bit_nat_eq_self)
  show "unat (drop_bit 10 (ucast h :: u32) AND 0x1F) = h_exp h"
    unfolding m take_bit_eq_mask [symmetric] h_exp_def unsigned_take_bit_eq unat_drop_bit_eq u
    by (simp add: take_bit_eq_mod drop_bit_eq_div)
  show "unat ((ucast h :: u32) AND 0x3FF) = h_man h"
    unfolding m take_bit_eq_mask [symmetric] h_man_def unsigned_take_bit_eq u
    by (simp add: take_bit_eq_mod)
qed

lemma float_mask:
  "drop_bit 16 f AND 0x8000 = (if f_sign f then 0x8000 else 0)"
  "unat (drop_bit 23 f AND 0xFF) = f_exp_field f"
  "unat (f AND 0x7FFFFF) = f_man_field f"
proof -
  have m: "(0xFF :: u32) = mask 8" "(0x7FFFFF :: u32) = mask 23"
    by (simp_all add: mask_eq_exp_minus_1)
  show "drop_bit 16 f AND 0x8000 = (if f_sign f then 0x8000 else 0)"
    by (simp add: and_0x8000 f_sign_def bit_simps)
  show "unat (drop_bit 23 f AND 0xFF) = f_exp_field f"
    unfolding m take_bit_eq_mask [symmetric] f_exp_field_def unsigned_take_bit_eq unat_drop_bit_eq
    by (simp add: take_bit_eq_mod drop_bit_eq_div)
  show "unat (f AND 0x7FFFFF) = f_man_field f"
    unfolding m take_bit_eq_mask [symmetric] f_man_field_def unsigned_take_bit_eq
    by (simp add: take_bit_eq_mod)
qed

lemma disjoint_low: "unat (y :: 'a :: len word) < 2 ^ n \<Longrightarrow> push_bit n x AND y = 0"
proof (rule bit_word_eqI)
  fix k
  assume y: "unat y < 2 ^ n"
  have "unat (take_bit n y) = unat y" using y by (simp add: unsigned_take_bit_eq take_bit_nat_eq_self)
  then have "take_bit n y = y" by (rule unsigned_word_eqI)
  then show "bit (push_bit n x AND y) k = bit (0 :: 'a word) k"
    by (metis (no_types, lifting) bit_0_eq bit_and_iff bit_push_bit_iff bit_take_bit_iff bot_apply bot_bool_def linorder_not_le)
qed

lemma unat_or_low:
  fixes x y :: "'a :: len word"
  assumes "unat y < 2 ^ n" and "unat x * 2 ^ n + unat y < 2 ^ LENGTH('a)"
  shows "unat (push_bit n x OR y) = unat x * 2 ^ n + unat y"
proof -
  have "push_bit n x OR y = push_bit n x + y"
    using disjunctive_add_eq_or [OF disjoint_low [OF assms(1)]] by simp
  also have "unat \<dots> = unat x * 2 ^ n + unat y"
  proof -
    have "unat (push_bit n x) = unat x * 2 ^ n"
      unfolding unsigned_push_bit_eq using assms(2) by (simp add: push_bit_eq_mult take_bit_nat_eq_self)
    then show ?thesis using assms(2) by (simp add: unat_word_ariths take_bit_nat_eq_self)
  qed
  finally show ?thesis .
qed

section \<open>What the conversions compute, field by field\<close>

lemma and_0x400: "unat (m :: u32) < 2 ^ 11 \<Longrightarrow> m AND 0x400 = 0 \<longleftrightarrow> unat m < 2 ^ 10"
proof -
  assume m: "unat m < 2 ^ 11"
  have "m AND 0x400 = 0 \<longleftrightarrow> \<not> bit m 10"
    using and_exp_eq_0_iff_not_bit [of m 10] by simp
  also have "\<dots> \<longleftrightarrow> even (unat m div 2 ^ 10)" by (simp add: bit_odd_unat)
  also have "\<dots> \<longleftrightarrow> unat m < 2 ^ 10"
  proof -
    have "unat m div 2 ^ 10 < 2" using m by simp
    then have "even (unat m div 2 ^ 10) \<longleftrightarrow> unat m div 2 ^ 10 = 0"
      by (cases "unat m div 2 ^ 10 = 0") auto
    then show ?thesis by (simp add: div_eq_0_iff)
  qed
  finally show ?thesis .
qed

lemma half_norm_eq:
  "0 < unat m \<Longrightarrow> unat m < 2 ^ 11 \<Longrightarrow> half_norm m e =
     (of_nat (unat m * 2 ^ (10 - ilog2 (unat m))), e - of_nat (10 - ilog2 (unat m)))"
proof (induction "10 - ilog2 (unat m)" arbitrary: m e)
  case 0
  from ilog2_bounds [OF "0.prems"(1)] "0.prems"(2) have "(2::nat) ^ ilog2 (unat m) < 2 ^ 11" by linarith
  then have "ilog2 (unat m) < 11" by (rule power_less_imp_less_exp [rotated]) simp
  with "0.hyps" have k: "ilog2 (unat m) = 10" by simp
  with ilog2_bounds [OF "0.prems"(1)] have "2 ^ 10 \<le> unat m" by simp
  then show ?case
    unfolding half_norm_def while_unfold [of _ _ "(m, e)"] using k and_0x400 [OF "0.prems"(2)]
    by simp
next
  case (Suc j)
  let ?k = "ilog2 (unat m)"
  have k: "?k < 10" using Suc.hyps(2) by simp
  note b = ilog2_bounds [OF Suc.prems(1)]
  have "(2::nat) ^ Suc ?k \<le> 2 ^ 10" using k by (intro power_increasing) simp_all
  with b have m: "unat m < 2 ^ 10" by linarith
  define p where "p = push_bit 1 m"
  have u: "unat p = 2 * unat m"
    unfolding p_def unsigned_push_bit_eq using m by (simp add: push_bit_eq_mult take_bit_nat_eq_self)
  have k': "ilog2 (unat p) = Suc ?k"
    unfolding u using b by (intro ilog2_eqI) simp_all
  have d: "10 - ?k = Suc (10 - Suc ?k)" using k by simp
  have IH: "half_norm p (e - 1) =
      (of_nat (unat p * 2 ^ (10 - ilog2 (unat p))), e - 1 - of_nat (10 - ilog2 (unat p)))"
    by (rule Suc.hyps(1)) (use Suc.hyps(2) Suc.prems m in \<open>simp_all add: k' [unfolded u] u\<close>)
  have c: "m AND 0x400 = 0" using and_0x400 [OF Suc.prems(2)] m by simp
  have "half_norm m e = half_norm p (e - 1)"
    unfolding half_norm_def by (subst while_unfold) (simp add: c p_def)
  also have "\<dots> = (of_nat (unat m * 2 ^ (10 - ?k)), e - of_nat (10 - ?k))"
    unfolding IH k' unfolding u d by (simp add: algebra_simps del: of_nat_diff)
  finally show ?case .
qed

definition h2f_mag :: "nat \<Rightarrow> nat \<Rightarrow> nat" where
  "h2f_mag x m =
     (if x = 0 then
        if m = 0 then 0
        else (ilog2 m + 103) * 2 ^ 23 + (m * 2 ^ (10 - ilog2 m) - 2 ^ 10) * 2 ^ 13
      else if x = 31 then 255 * 2 ^ 23 + m * 2 ^ 13
      else (x + 112) * 2 ^ 23 + m * 2 ^ 13)"

lemma unat_float_parts:
  fixes X Y :: u32
  assumes "unat X < 2 ^ 8" and "unat Y < 2 ^ 23"
  shows "unat (push_bit 16 (if s then 0x8000 else 0) OR push_bit 23 X OR Y) =
    fp_signed binary32 s (unat X * 2 ^ 23 + unat Y)"
proof -
  have lo: "unat (push_bit 23 X OR Y) = unat X * 2 ^ 23 + unat Y"
    using assms by (intro unat_or_low) simp_all
  have "push_bit 16 (if s then 0x8000 else 0) = push_bit 31 (of_bool s :: u32)" by simp
  then have "push_bit 16 (if s then 0x8000 else 0) OR push_bit 23 X OR Y =
      push_bit 31 (of_bool s) OR (push_bit 23 X OR Y)" by (simp add: or.assoc)
  also have "unat \<dots> = unat (of_bool s :: u32) * 2 ^ 31 + unat (push_bit 23 X OR Y)"
    using assms lo by (intro unat_or_low) (simp_all add: lo)
  finally show ?thesis by (simp add: lo fp_signed_def binary32_def)
qed

lemma unat_push_bit13: "unat (m :: u32) < 2 ^ 10 \<Longrightarrow> unat (push_bit 13 m) = unat m * 2 ^ 13"
  unfolding unsigned_push_bit_eq by (simp add: push_bit_eq_mult take_bit_nat_eq_self)

lemma unat_exp_bias: "unat (x :: u32) < 2 ^ 5 \<Longrightarrow> unat (x + (127 - 15)) = unat x + 112"
  by (simp add: unat_word_ariths)

lemma mask10: "(w :: u32) AND 0x3FF = take_bit 10 w"
  by (simp add: take_bit_eq_mask mask_eq_exp_minus_1)

lemma unat_HalfToFloat: "unat (HalfToFloat h) = fp_signed binary32 (h_sign h) (h2f_mag (h_exp h) (h_man h))"
proof -
  define S :: u32 where "S = push_bit 16 (ucast h AND 0x8000)"
  define X :: u32 where "X = drop_bit 10 (ucast h) AND 0x1F"
  define M :: u32 where "M = ucast h AND 0x3FF"
  have S: "S = push_bit 16 (if h_sign h then 0x8000 else 0)" by (simp only: S_def half_mask)
  have X: "unat X = h_exp h" and M: "unat M = h_man h" by (simp_all only: X_def M_def half_mask)
  have X0: "X = 0 \<longleftrightarrow> h_exp h = 0" and M0: "M = 0 \<longleftrightarrow> h_man h = 0"
    using X M by (metis unat_eq_0)+
  have X31: "X = 0x1F \<longleftrightarrow> h_exp h = 31"
    unfolding X [symmetric] word_unat_eq_iff by simp
  have h: "HalfToFloat h =
      (if X = 0 then
         if M = 0 then S
         else (case half_norm M 1 of (m, e) \<Rightarrow> S OR push_bit 23 (e + (127 - 15)) OR push_bit 13 (m AND 0x3FF))
       else if X = 0x1F then S OR 0x7F800000 OR push_bit 13 M
       else S OR push_bit 23 (X + (127 - 15)) OR push_bit 13 M)"
    unfolding HalfToFloat_def Let_def S_def X_def M_def ..
  consider "h_exp h = 0" "h_man h = 0" | "h_exp h = 0" "h_man h \<noteq> 0" | "h_exp h = 31"
    | "h_exp h \<noteq> 0" "h_exp h \<noteq> 31" by blast
  then show ?thesis
  proof cases
    case 1
    then show ?thesis using unat_float_parts [of 0 0 "h_sign h"] by (simp add: h X0 M0 S h2f_mag_def)
  next
    case 2
    let ?k = "ilog2 (h_man h)"
    have b: "2 ^ ?k \<le> h_man h \<and> h_man h < 2 ^ Suc ?k" using 2 by (intro ilog2_bounds) simp
    have "(2::nat) ^ ?k < 2 ^ 10" using b le_less_trans [OF _ h_bounds(2) [of h]] by simp
    then have k: "?k < 10" by (rule power_less_imp_less_exp [rotated]) simp
    have M11: "0 < unat M" "unat M < 2 ^ 11" using 2 M less_trans [OF h_bounds(2) [of h]] by simp_all
    define p where "p = h_man h * 2 ^ (10 - ?k)"
    have p2: "(2::nat) ^ (?k + (10 - ?k)) \<le> p \<and> p < 2 ^ (Suc ?k + (10 - ?k))"
      using b 2 unfolding p_def power_add by (simp add: mult_less_mono1)
    then have p: "1024 \<le> p" "p < 2048" using k by simp_all
    have m: "unat (of_nat p AND 0x3FF :: u32) = p - 1024"
    proof -
      have "unat (of_nat p :: u32) = p" using p by (simp add: unsigned_of_nat take_bit_nat_eq_self)
      moreover have "p mod 2 ^ 10 = p - 1024" using p by (intro mod_nat_eqI) simp_all
      ultimately show ?thesis unfolding mask10 unsigned_take_bit_eq by (simp only: take_bit_eq_mod)
    qed
    have e: "(1 - of_nat (10 - ?k) + (127 - 15) :: u32) = of_nat (?k + 103)"
      using k by (simp add: of_nat_diff)
    have e': "unat (of_nat (?k + 103) :: u32) = ?k + 103"
      using k by (simp add: unsigned_of_nat take_bit_nat_eq_self del: of_nat_add)
    have pm: "unat (push_bit 13 (of_nat p AND 0x3FF :: u32)) = (p - 1024) * 2 ^ 13"
      using p by (subst unat_push_bit13) (simp_all add: m)
    have "HalfToFloat h = S OR push_bit 23 (of_nat (?k + 103)) OR push_bit 13 (of_nat p AND 0x3FF)"
      using 2 by (simp only: h X0 M0 half_norm_eq [OF M11] M prod.case e p_def if_True if_False simp_thms)
    then show ?thesis
      using unat_float_parts [of "of_nat (?k + 103)" "push_bit 13 (of_nat p AND 0x3FF)" "h_sign h"] p k 2
      unfolding pm e' S by (simp add: h2f_mag_def p_def)
  next
    case 3
    have "(0x7F800000 :: u32) = push_bit 23 255" by simp
    with 3 show ?thesis
      using unat_float_parts [of 255 "push_bit 13 M" "h_sign h"]
      by (simp only: h X0 X31 S h2f_mag_def unat_push_bit13 M) (simp add: M unat_push_bit13)
  next
    case 4
    have X112: "unat (X + (127 - 15)) = h_exp h + 112" using unat_exp_bias [of X] by (simp add: X)
    have lt: "h_exp h + 112 < 2 ^ 8" using less_trans [OF h_bounds(1) [of h], of 144] by simp
    have "HalfToFloat h = S OR push_bit 23 (X + (127 - 15)) OR push_bit 13 M"
      using 4 by (simp only: h X0 X31 if_False)
    moreover have "unat (S OR push_bit 23 (X + (127 - 15)) OR push_bit 13 M) =
        fp_signed binary32 (h_sign h) (unat (X + (127 - 15)) * 2 ^ 23 + unat (push_bit 13 M))"
      unfolding S by (rule unat_float_parts) (use lt in \<open>simp_all only: X112, simp add: unat_push_bit13 M\<close>)
    ultimately show ?thesis
      using 4 unfolding X112 by (simp add: h2f_mag_def unat_push_bit13 M)
  qed
qed

lemma float_fields:
  assumes "unat f = fp_signed binary32 s (x * 2 ^ 23 + m)" and "x < 2 ^ 8" and "m < 2 ^ 23"
  shows "f_sign f = s" and "f_exp_field f = x" and "f_man_field f = m"
proof -
  define t :: nat where "t = (if s then 1 else 0)"
  have u: "unat f = (t * 2 ^ 8 + x) * 2 ^ 23 + m"
    unfolding assms(1) by (simp add: fp_signed_def binary32_def t_def)
  have d: "unat f div 2 ^ 23 = t * 2 ^ 8 + x" and m: "unat f mod 2 ^ 23 = m"
    unfolding u using assms(3) by (simp_all only: div_mult_self3 mod_mult_self3) simp_all
  show "f_man_field f = m" by (simp add: f_man_field_def m [simplified])
  show "f_exp_field f = x" using assms(2) by (simp add: f_exp_field_def d [simplified])
  have "unat f div 2 ^ 31 = t" using d assms(2) by (simp add: div_mult2_eq [of _ "2 ^ 23" "2 ^ 8", simplified])
  then show "f_sign f = s" unfolding f_sign_def bit_odd_unat by (simp add: t_def)
qed

definition f2h_mag :: "nat \<Rightarrow> nat \<Rightarrow> nat" where
  "f2h_mag x m =
     (if x = 255 then 31 * 2 ^ 10 + (if m = 0 then 0 else 2 ^ 9)
      else if 143 \<le> x then 31 * 2 ^ 10
      else if x \<le> 112 then (if x < 102 then 0 else (m + 2 ^ 23) div 2 ^ (126 - x))
      else (x - 112) * 2 ^ 10 + m div 2 ^ 13)"

lemma f2h_mag_less: "m < 2 ^ 23 \<Longrightarrow> f2h_mag x m < 2 ^ 15"
proof -
  assume m: "m < 2 ^ 23"
  have "(m + 2 ^ 23) div 2 ^ (126 - x) < 2 ^ 15" if x: "x \<le> 112"
  proof -
    have "(2::nat) ^ 14 \<le> 2 ^ (126 - x)" using x by (intro power_increasing) simp_all
    then have "(m + 2 ^ 23) div 2 ^ (126 - x) \<le> (m + 2 ^ 23) div 2 ^ 14"
      by (intro div_le_mono2) simp_all
    also have "\<dots> < 2 ^ 15" using m by simp
    finally show ?thesis .
  qed
  moreover have "m div 2 ^ 13 < 2 ^ 10" using m by simp
  ultimately show ?thesis
    using m by (auto simp: f2h_mag_def)
qed

lemma unat_sign_or:
  assumes "unat (w :: u32) < 2 ^ 15"
  shows "unat (ucast ((if s then 0x8000 else 0) OR w) :: u16) = fp_signed binary16 s (unat w)"
proof -
  have "(if s then 0x8000 else 0) OR w = push_bit 15 (of_bool s) OR w" by simp
  also have "unat \<dots> = unat (of_bool s :: u32) * 2 ^ 15 + unat w"
    using assms by (intro unat_or_low) simp_all
  finally have "unat ((if s then 0x8000 else 0) OR w) = fp_signed binary16 s (unat w)"
    by (simp add: fp_signed_def binary16_def)
  moreover have "fp_signed binary16 s (unat w) < 2 ^ 16"
    using assms by (simp add: fp_signed_def binary16_def)
  ultimately show ?thesis by (simp add: unsigned_ucast_eq take_bit_nat_eq_self)
qed

lemma unat_FloatToHalf:
  "unat (FloatToHalf f) = fp_signed binary16 (f_sign f) (f2h_mag (f_exp_field f) (f_man_field f))"
proof -
  define M where "M = f AND 0x7FFFFF"
  have M: "unat M = f_man_field f" and X: "unat (drop_bit 23 f AND 0xFF) = f_exp_field f"
    by (simp_all only: M_def float_mask)
  have X255: "drop_bit 23 f AND 0xFF = 0xFF \<longleftrightarrow> f_exp_field f = 255"
    unfolding X [symmetric] word_unat_eq_iff by simp
  have M0: "M = 0 \<longleftrightarrow> f_man_field f = 0" using M by (metis unat_eq_0)
  let ?x = "f_exp_field f" and ?s = "if f_sign f then 0x8000 else (0 :: u32)"
  have h: "FloatToHalf f =
      (if ?x = 255 then ucast (?s OR 0x7C00 OR (if f_man_field f \<noteq> 0 then 0x200 else 0))
       else if int ?x - 127 + 15 \<ge> 0x1F then ucast (?s OR 0x7C00)
       else if int ?x - 127 + 15 \<le> 0 then
         if int ?x - 127 + 15 < - 10 then ucast ?s
         else ucast (?s OR drop_bit (nat (14 - (int ?x - 127 + 15))) (M OR 0x800000))
       else ucast (?s OR push_bit 10 (of_int (int ?x - 127 + 15)) OR drop_bit 13 M))"
    unfolding FloatToHalf_def Let_def M_def [symmetric] X255 X float_mask(1) M0 ..
  have Mor: "unat (M OR 0x800000) = f_man_field f + 2 ^ 23"
  proof -
    have "M OR 0x800000 = push_bit 23 1 OR M" by (simp add: or.commute)
    also have "unat \<dots> = unat (1 :: u32) * 2 ^ 23 + unat M"
      using f_bounds(2) [of f] by (intro unat_or_low) (use less_trans [OF f_bounds(2) [of f]] in \<open>simp_all add: M\<close>)
    finally show ?thesis by (simp add: M)
  qed
  have "\<exists>w. FloatToHalf f = ucast (?s OR w) \<and> unat w = f2h_mag ?x (f_man_field f)"
  proof -
    consider "?x = 255" | "?x \<noteq> 255" "143 \<le> ?x" | "?x < 102" | "102 \<le> ?x" "?x \<le> 112"
      | "112 < ?x" "?x < 143" by linarith
    then show ?thesis
    proof cases
      case 1
      have "FloatToHalf f = ucast (?s OR (0x7C00 OR (if f_man_field f \<noteq> 0 then 0x200 else 0)))"
        using 1 by (simp only: h if_True or.assoc simp_thms)
      with 1 show ?thesis by (intro exI conjI) (assumption, simp add: f2h_mag_def)
    next
      case 2
      then have "0x1F \<le> int ?x - 127 + 15" by simp
      with 2 have "FloatToHalf f = ucast (?s OR 0x7C00)" by (simp only: h if_False if_True)
      with 2 show ?thesis by (intro exI conjI) (assumption, simp add: f2h_mag_def)
    next
      case 3
      then have "FloatToHalf f = ucast (?s OR 0)" by (simp add: h)
      with 3 show ?thesis by (intro exI conjI) (assumption, simp add: f2h_mag_def)
    next
      case 4
      have e: "nat (14 - (int ?x - 127 + 15)) = 126 - ?x" using 4 by simp
      have "FloatToHalf f = ucast (?s OR drop_bit (126 - ?x) (M OR 0x800000))"
        unfolding e [symmetric] using 4 by (simp only: h) simp
      moreover have "unat (drop_bit (126 - ?x) (M OR 0x800000)) = f2h_mag ?x (f_man_field f)"
        unfolding unat_drop_bit_eq Mor using 4 by (simp add: f2h_mag_def drop_bit_eq_div)
      ultimately show ?thesis by blast
    next
      case 5
      define e where "e = ?x - 112"
      have e: "int ?x - 127 + 15 = int e" "e < 31" using 5 by (simp_all add: e_def)
      have "FloatToHalf f = ucast (?s OR (push_bit 10 (of_nat e) OR drop_bit 13 M))"
        unfolding h e(1) using 5 e(2) e_def by (simp add: or.assoc)
      moreover have "unat (push_bit 10 (of_nat e) OR drop_bit 13 M) = f2h_mag ?x (f_man_field f)"
      proof -
        have d: "unat (drop_bit 13 M) = f_man_field f div 2 ^ 13"
          unfolding unat_drop_bit_eq M by (simp add: drop_bit_eq_div)
        have "f_man_field f div 2 ^ 13 < 2 ^ 10" using f_bounds(2) [of f] by (simp add: less_mult_imp_div_less)
        moreover have "unat (of_nat e :: u32) = e" using e(2) by (simp add: unsigned_of_nat take_bit_nat_eq_self)
        ultimately show ?thesis
          using 5 e(2) by (subst unat_or_low) (simp_all add: d f2h_mag_def e_def)
      qed
      ultimately show ?thesis by blast
    qed
  qed
  then obtain w where w: "FloatToHalf f = ucast (?s OR w)" "unat w = f2h_mag ?x (f_man_field f)" by blast
  have "unat w < 2 ^ 15" using f2h_mag_less [of "f_man_field f" ?x] by (simp add: w(2))
  from unat_sign_or [OF this, of "f_sign f"] show ?thesis unfolding w .
qed

lemma fp_decode_half: "fp_decode binary16 (unat h) =
    (if h_exp h = 31 then (if h_man h = 0 then FInf (h_sign h) else FNan)
     else if h_exp h = 0 then FFin (h_sign h) (h_man h) (- 24)
     else FFin (h_sign h) (h_man h + 2 ^ 10) (int (h_exp h) - 25))"
  using fp_decode_signed [of "h_man h" binary16 "h_exp h" "h_sign h"]
  by (simp add: binary16_def f_emin_def f_bias_def unat_half [of h, unfolded binary16_def])

lemma fp_decode_float: "fp_decode binary32 (unat f) =
    (if f_exp_field f = 255 then (if f_man_field f = 0 then FInf (f_sign f) else FNan)
     else if f_exp_field f = 0 then FFin (f_sign f) (f_man_field f) (- 149)
     else FFin (f_sign f) (f_man_field f + 2 ^ 23) (int (f_exp_field f) - 150))"
  using fp_decode_signed [of "f_man_field f" binary32 "f_exp_field f" "f_sign f"]
  by (simp add: binary32_def f_emin_def f_bias_def unat_float [of f, unfolded binary32_def])

definition h2f_x :: "nat \<Rightarrow> nat \<Rightarrow> nat" where
  "h2f_x x m = (if x = 0 then (if m = 0 then 0 else ilog2 m + 103) else if x = 31 then 255 else x + 112)"

definition h2f_m :: "nat \<Rightarrow> nat \<Rightarrow> nat" where
  "h2f_m x m = (if x = 0 \<and> m \<noteq> 0 then (m * 2 ^ (10 - ilog2 m) - 2 ^ 10) * 2 ^ 13 else m * 2 ^ 13)"

lemma subnormal_scale:
  assumes "0 < m" and "m < 1024"
  shows "ilog2 m < 10" and "1024 \<le> m * 2 ^ (10 - ilog2 m)" and "m * 2 ^ (10 - ilog2 m) < 2048"
proof -
  let ?k = "ilog2 m"
  note b = ilog2_bounds [OF assms(1)]
  have "(2::nat) ^ ?k < 2 ^ 10" using b assms(2) by simp
  then show k: "?k < 10" by (rule power_less_imp_less_exp [rotated]) simp
  have "(2::nat) ^ (?k + (10 - ?k)) \<le> m * 2 ^ (10 - ?k)"
    and "m * 2 ^ (10 - ?k) < (2::nat) ^ (Suc ?k + (10 - ?k))"
    using b unfolding power_add by simp_all
  then show "1024 \<le> m * 2 ^ (10 - ?k)" "m * 2 ^ (10 - ?k) < 2048" using k by simp_all
qed

lemma HalfToFloat_fields [simp]:
  "f_sign (HalfToFloat h) = h_sign h"
  "f_exp_field (HalfToFloat h) = h2f_x (h_exp h) (h_man h)"
  "f_man_field (HalfToFloat h) = h2f_m (h_exp h) (h_man h)"
proof -
  let ?x = "h_exp h" and ?m = "h_man h"
  have u: "unat (HalfToFloat h) = fp_signed binary32 (h_sign h) (h2f_x ?x ?m * 2 ^ 23 + h2f_m ?x ?m)"
    unfolding unat_HalfToFloat by (simp add: h2f_mag_def h2f_x_def h2f_m_def)
  have x: "h2f_x ?x ?m < 2 ^ 8"
    using subnormal_scale(1) [of ?m] less_trans [OF h_bounds(1) [of h], of 144]
    by (auto simp: h2f_x_def)
  have m: "h2f_m ?x ?m < 2 ^ 23"
  proof (cases "?x = 0 \<and> ?m \<noteq> 0")
    case True
    then have "?m * 2 ^ (10 - ilog2 ?m) < 2048" by (intro subnormal_scale(3)) simp_all
    with True show ?thesis by (simp add: h2f_m_def)
  next
    case False
    then have "h2f_m ?x ?m = ?m * 2 ^ 13" by (simp only: h2f_m_def if_False)
    then show ?thesis using h_bounds(2) [of h] by (simp only:) simp
  qed
  note float_fields [OF u x m]
  then show "f_sign (HalfToFloat h) = h_sign h"
    "f_exp_field (HalfToFloat h) = h2f_x ?x ?m" "f_man_field (HalfToFloat h) = h2f_m ?x ?m"
    by simp_all
qed

lemma f2h_mag_h2f:
  assumes "x < 32" and "m < 1024"
  shows "f2h_mag (h2f_x x m) (h2f_m x m) = (if x = 31 \<and> m \<noteq> 0 then 0x7E00 else x * 2 ^ 10 + m)"
proof (cases "x = 0 \<and> m \<noteq> 0")
  case True
  let ?k = "ilog2 m"
  have b: "?k < 10" "1024 \<le> m * 2 ^ (10 - ?k)" using subnormal_scale [of m] True assms(2) by simp_all
  have "h2f_m x m + 2 ^ 23 = m * 2 ^ (10 - ?k) * 2 ^ 13"
    using True b(2) by (simp add: h2f_m_def diff_mult_distrib)
  also have "\<dots> = m * 2 ^ ((10 - ?k) + 13)" by (simp only: power_add mult.assoc)
  also have "(10 - ?k) + 13 = 126 - (?k + 103)" using b(1) by simp
  finally have "(h2f_m x m + 2 ^ 23) div 2 ^ (126 - (?k + 103)) = m" by simp
  with True b(1) show ?thesis by (simp add: f2h_mag_def h2f_x_def)
next
  case False
  with assms show ?thesis by (auto simp: f2h_mag_def h2f_x_def h2f_m_def)
qed

lemma powi2_power: "2 powi a * 2 ^ n = (2::real) powi (a + int n)"
  by (simp add: power_int_add)

lemma HalfToFloat_exact_aux:
  "case fp_decode binary16 (unat h) of
     FFin s m e \<Rightarrow> (\<exists>m' e'. fp_decode binary32 (unat (HalfToFloat h)) = FFin s m' e' \<and>
        fin_val s m' e' = fin_val s m e)
   | v \<Rightarrow> fp_decode binary32 (unat (HalfToFloat h)) = v"
proof -
  let ?x = "h_exp h" and ?m = "h_man h"
  consider "?x = 31" | "?x = 0" "?m = 0" | "?x = 0" "?m \<noteq> 0" | "?x \<noteq> 0" "?x \<noteq> 31" by blast
  then show ?thesis
  proof cases
    case 3
    then have b: "ilog2 ?m < 10" "1024 \<le> ?m * 2 ^ (10 - ilog2 ?m)"
      using subnormal_scale [of ?m] by simp_all
    have "2 powi (int (ilog2 ?m) - 47) * 2 ^ 13 * 2 ^ (10 - ilog2 ?m) = (2::real) powi (- 24)"
      using b(1) unfolding powi2_power by simp
    then have "real (?m * 2 ^ (10 - ilog2 ?m)) * 2 ^ 13 * 2 powi (int (ilog2 ?m) - 47) = real ?m * 2 powi (- 24)"
      by (simp add: ac_simps)
    then show ?thesis
      using 3 b by (simp add: fp_decode_half fp_decode_float h2f_x_def h2f_m_def fin_val_def)
  next
    case 4
    have "2 powi (int ?x - 25) = (2::real) powi (int ?x - 38) * 2 ^ 13"
      unfolding powi2_power by simp
    then have v: "fin_val s (?m * 2 ^ 13 + 2 ^ 23) (int ?x - 38) = fin_val s (?m + 2 ^ 10) (int ?x - 25)" for s
      by (simp add: fin_val_def algebra_simps)
    have "?x + 112 \<noteq> 255" using h_bounds(1) [of h] by linarith
    with 4 have "fp_decode binary32 (unat (HalfToFloat h)) = FFin (h_sign h) (?m * 2 ^ 13 + 2 ^ 23) (int ?x - 38)"
      by (simp add: fp_decode_float h2f_x_def h2f_m_def)
    with 4 v show ?thesis by (auto simp: fp_decode_half)
  qed (auto simp: fp_decode_half fp_decode_float h2f_x_def h2f_m_def fin_val_def)
qed

lemma trunc_div:
  "real (M div 2 ^ j) * 2 powi (e + int j) \<le> real M * 2 powi e \<and>
   real M * 2 powi e < (real (M div 2 ^ j) + 1) * 2 powi (e + int j)"
proof -
  have "M div 2 ^ j * 2 ^ j \<le> M" "M < (M div 2 ^ j + 1) * 2 ^ j"
    using dividend_less_times_div [of "2 ^ j" M] by (simp_all add: algebra_simps)
  then have "real (M div 2 ^ j * 2 ^ j) \<le> real M" "real M < real ((M div 2 ^ j + 1) * 2 ^ j)"
    by (simp_all only: of_nat_le_iff of_nat_less_iff)
  then have "real (M div 2 ^ j) * 2 ^ j \<le> real M" "real M < (real (M div 2 ^ j) + 1) * 2 ^ j"
    by (simp_all add: distrib_right add.commute)
  then have "real (M div 2 ^ j) * 2 ^ j * 2 powi e \<le> real M * 2 powi e"
    "real M * 2 powi e < (real (M div 2 ^ j) + 1) * 2 ^ j * 2 powi e"
    by (intro mult_right_mono mult_strict_right_mono; simp)+
  then show ?thesis by (simp add: power_int_add ac_simps)
qed

lemma fp_decode_FloatToHalf:
  assumes "f_exp_field f < 143"
  shows "fp_decode binary16 (unat (FloatToHalf f)) =
    (if f_exp_field f < 102 then FFin (f_sign f) 0 (- 24)
     else if f_exp_field f \<le> 112 then
       FFin (f_sign f) ((f_man_field f + 2 ^ 23) div 2 ^ (126 - f_exp_field f)) (- 24)
     else FFin (f_sign f) ((f_man_field f + 2 ^ 23) div 2 ^ 13) (int (f_exp_field f) - 137))"
proof -
  let ?x = "f_exp_field f" and ?m = "f_man_field f"
  have m: "?m < 2 ^ 23" by simp
  have D: "fp_decode binary16 (fp_signed binary16 s (X * 2 ^ 10 + Y)) =
      (if X = 0 then FFin s Y (- 24) else FFin s (Y + 2 ^ 10) (int X - 25))"
    if "X < 31" "Y < 2 ^ 10" for s X Y
    using fp_decode_signed [of Y binary16 X s] that by (simp add: binary16_def f_emin_def f_bias_def)
  consider "?x < 102" | "102 \<le> ?x" "?x \<le> 112" | "112 < ?x" by linarith
  then show ?thesis
  proof cases
    case 1
    then show ?thesis using D [of 0 0] by (simp add: unat_FloatToHalf f2h_mag_def)
  next
    case 2
    have "(2::nat) ^ 14 \<le> 2 ^ (126 - ?x)" using 2 by (intro power_increasing) simp_all
    then have "(?m + 2 ^ 23) div 2 ^ (126 - ?x) \<le> (?m + 2 ^ 23) div 2 ^ 14" by (intro div_le_mono2) simp_all
    also have "\<dots> < 2 ^ 10" using m by (simp add: less_mult_imp_div_less)
    finally show ?thesis using D [of 0] 2 by (simp add: unat_FloatToHalf f2h_mag_def)
  next
    case 3
    have "?m div 2 ^ 13 < 2 ^ 10" using m by (simp add: less_mult_imp_div_less)
    moreover have "(?m + 2 ^ 23) div 2 ^ 13 = ?m div 2 ^ 13 + 2 ^ 10" by simp
    ultimately show ?thesis
      using D [of "?x - 112" "?m div 2 ^ 13"] 3 assms by (simp add: unat_FloatToHalf f2h_mag_def)
  qed
qed

lemma float_small_exp:
  assumes "fp_finite binary32 (unat f)" and "\<bar>fp_val binary32 (unat f)\<bar> < 65536"
  shows "f_exp_field f < 143"
proof (rule ccontr)
  assume x: "\<not> f_exp_field f < 143"
  then have "f_exp_field f \<noteq> 255"
    using assms(1) by (auto simp: fp_finite_def fp_decode_float split: if_splits)
  with x have v: "\<bar>fp_val binary32 (unat f)\<bar> = real (f_man_field f + 2 ^ 23) * 2 powi (int (f_exp_field f) - 150)"
    by (simp add: fp_val_def fp_decode_float abs_fin_val)
  have "2 powi (- 7) \<le> (2::real) powi (int (f_exp_field f) - 150)"
    using x by (intro power_int_increasing) simp_all
  then have "2 ^ 23 * 2 powi (- 7) \<le> real (f_man_field f + 2 ^ 23) * (2::real) powi (int (f_exp_field f) - 150)"
    by (intro mult_mono) simp_all
  then show False using assms(2) unfolding v by (simp add: power_int_minus)
qed

lemma narrow_floor:
  assumes "fp_finite binary32 (unat f)" and "\<bar>fp_val binary32 (unat f)\<bar> < 65536"
  shows "\<exists>m e. fp_decode binary16 (unat (FloatToHalf f)) = FFin (f_sign f) m e \<and>
    real m * 2 powi e \<le> \<bar>fp_val binary32 (unat f)\<bar> \<and> \<bar>fp_val binary32 (unat f)\<bar> < (real m + 1) * 2 powi e"
proof -
  let ?x = "f_exp_field f" and ?m = "f_man_field f"
  have x: "?x < 143" by (rule float_small_exp [OF assms])
  note d = fp_decode_FloatToHalf [OF x]
  have v: "\<bar>fp_val binary32 (unat f)\<bar> =
      (if ?x = 0 then real ?m * 2 powi (- 149) else real (?m + 2 ^ 23) * 2 powi (int ?x - 150))"
    using x by (simp add: fp_val_def fp_decode_float abs_fin_val)
  consider "?x < 102" | "102 \<le> ?x" "?x \<le> 112" | "112 < ?x" by linarith
  then show ?thesis
  proof cases
    case 1
    have "\<bar>fp_val binary32 (unat f)\<bar> \<le> 2 ^ 24 * 2 powi (- 49)"
    proof (cases "?x = 0")
      case True
      have "real ?m * 2 powi (- 149) \<le> 2 ^ 24 * (2::real) powi (- 49)"
        using less_imp_le [OF f_bounds(2) [of f]] by (intro mult_mono power_int_increasing) simp_all
      with True show ?thesis by (simp add: v)
    next
      case False
      have "real (?m + 2 ^ 23) * 2 powi (int ?x - 150) \<le> 2 ^ 24 * (2::real) powi (- 49)"
        using less_imp_le [OF f_bounds(2) [of f]] 1 by (intro mult_mono power_int_increasing) simp_all
      with False show ?thesis by (simp add: v)
    qed
    also have "\<dots> < 2 powi (- 24)" by (simp add: power_int_minus)
    finally show ?thesis using 1 by (simp add: d)
  next
    case 2
    then have "int ?x - 150 + int (126 - ?x) = - 24" by simp
    with 2 show ?thesis using trunc_div [of "?m + 2 ^ 23" "126 - ?x" "int ?x - 150"] by (simp add: d v)
  next
    case 3
    then show ?thesis using trunc_div [of "?m + 2 ^ 23" 13 "int ?x - 150"] by (simp add: d v)
  qed
qed

text \<open>The product of two halves needs at most 22 significant bits.\<close>

lemma HalfToFloat_val:
  assumes "fp_finite binary16 (unat h)"
  shows "fp_finite binary32 (unat (HalfToFloat h))"
    and "fp_val binary32 (unat (HalfToFloat h)) = fp_val binary16 (unat h)"
proof -
  from assms obtain s m e where d: "fp_decode binary16 (unat h) = FFin s m e" by (auto simp: fp_finite_def)
  have "\<exists>m' e'. fp_decode binary32 (unat (HalfToFloat h)) = FFin s m' e' \<and> fin_val s m' e' = fin_val s m e"
    using HalfToFloat_exact_aux [of h] by (simp add: d)
  then show "fp_finite binary32 (unat (HalfToFloat h))"
    "fp_val binary32 (unat (HalfToFloat h)) = fp_val binary16 (unat h)"
    by (auto simp: fp_finite_def fp_val_def d)
qed

lemma half_decode_bounds:
  fixes h :: u16
  assumes "fp_decode binary16 (unat h) = FFin s m e"
  shows "m < 2 ^ 11" and "- 24 \<le> e" and "e \<le> 5"
proof -
  have "h_man h < 2048" "h_exp h \<le> 31"
    using less_trans [OF h_bounds(2) [of h]] h_bounds(1) [of h] by (simp, linarith)
  then show "m < 2 ^ 11" "- 24 \<le> e" "e \<le> 5"
    using assms unfolding fp_decode_half by (auto split: if_splits)
qed

lemma unat_f32_mul: "unat (f32_mul a b) = fp_mul binary32 (unat a) (unat b)"
  using fp_arith_less(1) [of binary32 "unat a" "unat b"]
  by (simp add: f32_mul_def binary32_def unsigned_of_nat take_bit_nat_eq_self)

lemma unat_f32_add: "unat (f32_add a b) = fp_add binary32 (unat a) (unat b)"
  using fp_arith_less(2) [of binary32 "unat a" "unat b"]
  by (simp add: f32_add_def binary32_def unsigned_of_nat take_bit_nat_eq_self)

lemma half_product_fits:
  fixes a b :: u16
  assumes "fp_finite binary16 (unat a)" and "fp_finite binary16 (unat b)"
  shows "fp_fits binary32 \<bar>fp_val binary16 (unat a) * fp_val binary16 (unat b)\<bar>"
proof -
  from assms obtain s m e s' m' e' where
    d: "fp_decode binary16 (unat a) = FFin s m e" "fp_decode binary16 (unat b) = FFin s' m' e'"
    by (auto simp: fp_finite_def)
  note A = half_decode_bounds [OF d(1)] and B = half_decode_bounds [OF d(2)]
  have "m * m' < 2 ^ 11 * 2 ^ 11" using A(1) B(1) by (intro mult_strict_mono) simp_all
  then have M: "m * m' < 2 ^ 22" by simp
  have v: "\<bar>fp_val binary16 (unat a) * fp_val binary16 (unat b)\<bar> = real (m * m') * 2 powi (e + e')"
    by (simp add: fp_val_def d abs_mult abs_fin_val power_int_add)
  have "real (m * m') \<le> 2 ^ 22" using M by (metis less_imp_le of_nat_le_iff of_nat_numeral of_nat_power)
  moreover have "2 powi (e + e') \<le> (2::real) powi 10" using A B by (intro power_int_increasing) simp_all
  ultimately have "real (m * m') * 2 powi (e + e') \<le> 2 ^ 22 * 2 powi 10" by (intro mult_mono) simp_all
  also have "\<dots> < (2::real) powi 128" by simp
  finally have "real (m * m') * 2 powi (e + e') < 2 powi 128" .
  then show ?thesis
    unfolding fp_fits_def v using M A(2) B(2)
    by (intro exI [of _ "m * m'"] exI [of _ "e + e'"])
      (simp add: binary32_def f_emin_def f_bias_def)
qed

lemma half_product:
  assumes "fp_finite binary16 (unat a)" and "fp_finite binary16 (unat b)"
  shows "fp_finite binary32 (unat (f32_mul (HalfToFloat a) (HalfToFloat b))) \<and>
    fp_val binary32 (unat (f32_mul (HalfToFloat a) (HalfToFloat b))) =
      fp_val binary16 (unat a) * fp_val binary16 (unat b)"
proof -
  have "2 \<le> f_exp binary32" by (simp add: binary32_def)
  then show ?thesis
    using fp_mul_exact [of binary32 "unat (HalfToFloat a)" "unat (HalfToFloat b)"]
      HalfToFloat_val [OF assms(1)] HalfToFloat_val [OF assms(2)] half_product_fits [OF assms]
    by (simp add: unat_f32_mul)
qed

lemma int_fits32: "\<bar>z\<bar> < 2 ^ 24 \<Longrightarrow> fp_fits binary32 \<bar>real_of_int z\<bar>"
proof -
  assume z: "\<bar>z\<bar> < 2 ^ 24"
  have "\<bar>real_of_int z\<bar> < 2 ^ 24" using z by (metis of_int_abs of_int_less_iff of_int_numeral of_int_power)
  also have "\<dots> < (2::real) powi 128" by simp
  finally have "\<bar>real_of_int z\<bar> < 2 powi 128" .
  then show ?thesis
    unfolding fp_fits_def using z
    by (intro exI [of _ "nat \<bar>z\<bar>"] exI [of _ 0]) (simp add: binary32_def f_emin_def f_bias_def nat_less_iff)
qed

text \<open>The float of a small integer narrows exactly.\<close>

lemma floor_exact:
  assumes "e \<le> 0" and "real m * 2 powi e \<le> real z" and "real z < (real m + 1) * 2 powi e"
  shows "real m * 2 powi e = real z"
proof -
  define n where "n = nat (- e)"
  have e: "e = - int n" using assms(1) by (simp add: n_def)
  have "real m \<le> real (z * 2 ^ n)" "real (z * 2 ^ n) < real m + 1"
    using assms(2,3) by (simp_all add: e power_int_minus field_simps)
  then have "m \<le> z * 2 ^ n" "z * 2 ^ n < m + 1" by linarith+
  then have "m = z * 2 ^ n" by simp
  then show ?thesis by (simp add: e power_int_minus field_simps)
qed

lemma FloatToHalf_int:
  assumes "fp_finite binary32 (unat f)" and "fp_val binary32 (unat f) = real_of_int z" and z: "\<bar>z\<bar> < 2048"
  shows "fp_finite binary16 (unat (FloatToHalf f)) \<and> fp_val binary16 (unat (FloatToHalf f)) = real_of_int z"
proof -
  define k where "k = nat \<bar>z\<bar>"
  have k: "\<bar>fp_val binary32 (unat f)\<bar> = real k" "real k < 2048" using z by (simp_all add: assms(2) k_def)
  then have "\<bar>fp_val binary32 (unat f)\<bar> < 65536" by simp
  from narrow_floor [OF assms(1) this] k obtain m e where
    d: "fp_decode binary16 (unat (FloatToHalf f)) = FFin (f_sign f) m e"
    and b: "real m * 2 powi e \<le> real k" "real k < (real m + 1) * 2 powi e" by auto
  have "e \<le> 0"
  proof (rule ccontr)
    assume e: "\<not> e \<le> 0"
    with d have "1024 \<le> m" by (auto simp: fp_decode_half split: if_splits)
    then have "1024 * 2 powi 1 \<le> real m * (2::real) powi e"
      using e by (intro mult_mono power_int_increasing) simp_all
    with b k(2) show False by simp
  qed
  from floor_exact [OF this b] have v: "real m * 2 powi e = real k" .
  have h: "fp_val binary16 (unat (FloatToHalf f)) = (if f_sign f then - 1 else 1) * real k"
    by (simp add: fp_val_def d fin_val_def v [symmetric])
  have "fp_val binary32 (unat f) = (if f_sign f then - 1 else 1) * \<bar>fp_val binary32 (unat f)\<bar>"
  proof -
    from assms(1) obtain m e where "fp_decode binary32 (unat f) = FFin (f_sign f) m e"
      by (auto simp: fp_finite_def fp_decode_float split: if_splits)
    then show ?thesis by (simp add: fp_val_def abs_fin_val) (simp add: fin_val_def)
  qed
  then have "fp_val binary16 (unat (FloatToHalf f)) = fp_val binary32 (unat f)"
    unfolding h k(1) by simp
  then show ?thesis using d assms(2) by (auto simp: fp_finite_def)
qed

lemma fma_lane_int:
  assumes "fp_finite binary16 (unat a)" and "fp_val binary16 (unat a) = real_of_int x"
    and "fp_finite binary16 (unat b)" and "fp_val binary16 (unat b) = real_of_int y"
    and "fp_finite binary16 (unat c)" and "fp_val binary16 (unat c) = real_of_int z"
    and "\<bar>x * y + z\<bar> < 2048"
  shows "fp_finite binary16 (unat (fma_lane a b c)) \<and>
    fp_val binary16 (unat (fma_lane a b c)) = real_of_int (x * y + z)"
proof -
  let ?p = "f32_mul (HalfToFloat a) (HalfToFloat b)"
  have p: "fp_finite binary32 (unat ?p)" "fp_val binary32 (unat ?p) = real_of_int (x * y)"
    using half_product [OF assms(1,3)] by (simp_all add: assms(2,4))
  have s: "fp_val binary32 (unat ?p) + fp_val binary32 (unat (HalfToFloat c)) = real_of_int (x * y + z)"
    by (simp add: p HalfToFloat_val [OF assms(5)] assms(6))
  have "2 \<le> f_exp binary32" by (simp add: binary32_def)
  moreover have "fp_fits binary32 \<bar>real_of_int (x * y + z)\<bar>" using assms(7) by (intro int_fits32) simp
  ultimately have "fp_finite binary32 (unat (f32_add ?p (HalfToFloat c))) \<and>
      fp_val binary32 (unat (f32_add ?p (HalfToFloat c))) = real_of_int (x * y + z)"
    using fp_add_exact [OF p(1) HalfToFloat_val(1) [OF assms(5)]] unfolding s unat_f32_add by blast
  with FloatToHalf_int [OF _ _ assms(7), of "f32_add ?p (HalfToFloat c)"] show ?thesis
    by (simp add: fma_lane_def Let_def)
qed

section \<open>Properties\<close>

text \<open>Widening is exact: a half that is NaN or infinite widens to a NaN or to the infinity of
  the same sign, and a finite half, zero and subnormals included, widens to a finite float of the
  same sign and the same real value.\<close>

theorem HalfToFloat_exact:
  "case fp_decode binary16 (unat h) of
     FFin s m e \<Rightarrow> (\<exists>m' e'. fp_decode binary32 (unat (HalfToFloat h)) = FFin s m' e' \<and>
        fin_val s m' e' = fin_val s m e)
   | v \<Rightarrow> fp_decode binary32 (unat (HalfToFloat h)) = v"
  by (rule HalfToFloat_exact_aux)

text \<open>Narrowing undoes widening: every half that is not a NaN comes back bit for bit, and a NaN
  comes back as the quiet NaN of its sign.\<close>

theorem FloatToHalf_HalfToFloat:
  "FloatToHalf (HalfToFloat h) =
     (if fp_is_nan binary16 (unat h) then of_nat (fp_signed binary16 (h_sign h) 0x7E00) else h)"
proof -
  let ?x = "h_exp h" and ?m = "h_man h"
  have "f2h_mag (h2f_x ?x ?m) (h2f_m ?x ?m) = (if ?x = 31 \<and> ?m \<noteq> 0 then 0x7E00 else ?x * 2 ^ 10 + ?m)"
    by (rule f2h_mag_h2f) simp_all
  then have u: "unat (FloatToHalf (HalfToFloat h)) =
      fp_signed binary16 (h_sign h) (if ?x = 31 \<and> ?m \<noteq> 0 then 0x7E00 else ?x * 2 ^ 10 + ?m)"
    by (simp add: unat_FloatToHalf)
  have nan: "fp_is_nan binary16 (unat h) \<longleftrightarrow> ?x = 31 \<and> ?m \<noteq> 0"
    by (simp add: fp_is_nan_def fp_decode_half)
  show ?thesis
  proof (cases "?x = 31 \<and> ?m \<noteq> 0")
    case True
    then have "unat (FloatToHalf (HalfToFloat h)) = fp_signed binary16 (h_sign h) 0x7E00" by (simp add: u)
    from arg_cong [OF this, of "of_nat :: nat \<Rightarrow> u16"] True nan show ?thesis by simp
  next
    case False
    then have "unat (FloatToHalf (HalfToFloat h)) = unat h"
      unfolding u unat_half [of h] by (simp only: if_False)
    then show ?thesis using False nan by (metis unsigned_word_eqI)
  qed
qed

text \<open>Narrowing rounds toward zero: a finite float below \<open>2^16\<close> in magnitude becomes a finite
  half of the same sign, whose magnitude is the largest multiple of its last place that does not
  exceed the float's; values too small for a subnormal become zero.\<close>

theorem FloatToHalf_truncates:
  assumes "fp_finite binary32 (unat f)" and "\<bar>fp_val binary32 (unat f)\<bar> < 65536"
  shows "\<exists>m e. fp_decode binary16 (unat (FloatToHalf f)) = FFin (f_sign f) m e \<and>
    real m * 2 powi e \<le> \<bar>fp_val binary32 (unat f)\<bar> \<and> \<bar>fp_val binary32 (unat f)\<bar> < (real m + 1) * 2 powi e"
  using assms by (rule narrow_floor)

theorem FloatToHalf_truncates_witness:
  "\<exists>m e. fp_decode binary16 (unat (FloatToHalf 0x3FC00001)) = FFin (f_sign 0x3FC00001) m e \<and>
    real m * 2 powi e \<le> \<bar>fp_val binary32 (unat (0x3FC00001 :: u32))\<bar> \<and>
    \<bar>fp_val binary32 (unat (0x3FC00001 :: u32))\<bar> < (real m + 1) * 2 powi e"
proof -
  have d: "fp_decode binary32 (unat (0x3FC00001 :: u32)) = FFin False 12582913 (- 23)"
    unfolding fp_decode_float by (simp add: f_exp_field_def f_man_field_def f_sign_def)
  show ?thesis
    by (rule FloatToHalf_truncates) (simp_all add: d [simplified, THEN fp_finite_val] fin_val_def power_int_minus)
qed

text \<open>A lane of the compute element is exact on integers: when its operands hold integers \<open>x\<close>,
  \<open>y\<close>, \<open>z\<close> and \<open>x * y + z\<close> is below \<open>2048\<close> in magnitude, the result holds that integer; the
  intermediate product never rounds, however large it is.\<close>

theorem fma_lane_exact:
  assumes "fp_finite binary16 (unat a)" and "fp_val binary16 (unat a) = real_of_int x"
    and "fp_finite binary16 (unat b)" and "fp_val binary16 (unat b) = real_of_int y"
    and "fp_finite binary16 (unat c)" and "fp_val binary16 (unat c) = real_of_int z"
    and "\<bar>x * y + z\<bar> < 2048"
  shows "fp_finite binary16 (unat (fma_lane a b c)) \<and>
    fp_val binary16 (unat (fma_lane a b c)) = real_of_int (x * y + z)"
  using assms by (rule fma_lane_int)

theorem fma_lane_exact_witness:
  "fp_finite binary16 (unat (fma_lane 0x4200 0xC000 0x3C00)) \<and>
   fp_val binary16 (unat (fma_lane 0x4200 0xC000 0x3C00)) = real_of_int (3 * (- 2) + 1)"
proof -
  have d: "fp_decode binary16 (unat (0x4200 :: u16)) = FFin False 1536 (- 9)"
    "fp_decode binary16 (unat (0xC000 :: u16)) = FFin True 1024 (- 9)"
    "fp_decode binary16 (unat (0x3C00 :: u16)) = FFin False 1024 (- 10)"
    unfolding fp_decode_half by (simp_all add: h_exp_def h_man_def h_sign_def)
  show ?thesis
    by (rule fma_lane_exact) (simp_all add: d(1,2,3) [simplified, THEN fp_finite_val] fin_val_def power_int_minus)
qed

text \<open>
  The comment above \<open>FloatToHalf\<close> promises rounding toward zero; a float from \<open>2^16\<close> on becomes an
  infinity, where rounding toward zero gives the largest finite half.
\<close>

lemma FloatToHalf_overflows: "FloatToHalf 0x47800000 = 0x7C00"
  by (simp add: FloatToHalf_def)

end
