(* ===== verification/Pe.thy ===== *)
theory Pe
  imports Router Half
begin

text \<open>
  The processing element (\<open>Pe.h\<close>, \<open>Pe.cpp\<close>): the 48 KB SRAM of eight word-interleaved banks with
  its per-cycle ports, and the bundle of the SRAM and the router (the compute element, in \<open>Half\<close>,
  has no state). An access outside a bank is undefined behaviour: the operations return \<open>None\<close>
  there.
\<close>

unbundle bit_operations_syntax

section \<open>A word memory\<close>

text \<open>What a client of a word memory relies on: a store is seen by the loads of its own address
  and by no other.\<close>

locale word_memory =
  fixes load :: "'a \<Rightarrow> 's \<Rightarrow> 'v"
    and store :: "'a \<Rightarrow> 'v \<Rightarrow> 's \<Rightarrow> 's"
    and valid :: "'a \<Rightarrow> bool"
    and ok :: "'s \<Rightarrow> bool"
  assumes store_ok: "ok s \<Longrightarrow> valid a \<Longrightarrow> ok (store a v s)"
    and load_same: "ok s \<Longrightarrow> valid a \<Longrightarrow> load a (store a v s) = v"
    and load_other: "ok s \<Longrightarrow> valid a \<Longrightarrow> valid b \<Longrightarrow> b \<noteq> a \<Longrightarrow> load b (store a v s) = load b s"
begin

lemma last_store_wins:
  "ok s \<Longrightarrow> \<forall>(a, v) \<in> set ws. valid a \<Longrightarrow> valid b \<Longrightarrow>
     ok (foldl (\<lambda>s (a, v). store a v s) s ws) \<and>
     load b (foldl (\<lambda>s (a, v). store a v s) s ws) =
       (case map_of (rev ws) b of Some v \<Rightarrow> v | None \<Rightarrow> load b s)"
proof (induction ws rule: rev_induct)
  case (snoc w ws)
  obtain a v where w: "w = (a, v)" by (cases w)
  with snoc show ?case
    by (cases "b = a") (simp_all add: store_ok load_same load_other)
qed simp

end

section \<open>SRAM\<close>

record sram =
  bank :: "u8 list list"
  reads :: nat
  writes :: nat

definition kBanks :: nat where "kBanks = 8"
definition kBankBytes :: nat where "kBankBytes = 6 * 1024"
definition kTotalBytes :: nat where "kTotalBytes = kBanks * kBankBytes"
definition kReadPorts :: nat where "kReadPorts = 2"
definition kWritePorts :: nat where "kWritePorts = 1"
definition kWordBytes :: nat where "kWordBytes = 4"

definition new_sram :: sram where
  "new_sram = \<lparr>bank = replicate kBanks (replicate kBankBytes 0), reads = 0, writes = 0\<rparr>"

definition BeginCycle :: "sram \<Rightarrow> sram" where
  "BeginCycle s = s\<lparr>reads := 0, writes := 0\<rparr>"

text \<open>The sum of \<open>InRange\<close> is a \<open>uint32_t\<close>, and wraps.\<close>

definition InRange :: "u32 \<Rightarrow> bool" where
  "InRange addr \<longleftrightarrow> addr + of_nat kWordBytes \<le> of_nat kTotalBytes \<and> addr mod of_nat kWordBytes = 0"

definition BankOf :: "u32 \<Rightarrow> nat" where
  "BankOf addr = unat ((addr div of_nat kWordBytes) mod of_nat kBanks)"

definition BankOffset :: "u32 \<Rightarrow> u32" where
  "BankOffset addr = (let word = addr div of_nat kWordBytes in (word div of_nat kBanks) * of_nat kWordBytes)"

text \<open>The two byte loops, on one bank.\<close>

definition read_bytes :: "u8 list \<Rightarrow> u32 \<Rightarrow> u32" where
  "read_bytes b off =
     foldl (\<lambda>v i. v OR push_bit (8 * i) (ucast (b ! unat (off + of_nat i)))) 0 [0..<kWordBytes]"

definition write_bytes :: "u8 list \<Rightarrow> u32 \<Rightarrow> u32 \<Rightarrow> u8 list" where
  "write_bytes b off val =
     foldl (\<lambda>b i. b[unat (off + of_nat i) := ucast (drop_bit (8 * i) val AND 0xFF)]) b [0..<kWordBytes]"

definition in_bank :: "u8 list \<Rightarrow> u32 \<Rightarrow> bool" where
  "in_bank b off \<longleftrightarrow> list_all (\<lambda>i. unat (off + of_nat i) < length b) [0..<kWordBytes]"

text \<open>\<open>Some (None, s)\<close> is the result \<open>false\<close>, with the output parameter untouched.\<close>

definition Read :: "u32 \<Rightarrow> sram \<Rightarrow> (u32 option \<times> sram) option" where
  "Read addr s =
     (if \<not> InRange addr \<or> kReadPorts \<le> reads s then Some (None, s)
      else let b = bank s ! BankOf addr; off = BankOffset addr
           in if \<not> in_bank b off then None
              else Some (Some (read_bytes b off), s\<lparr>reads := reads s + 1\<rparr>))"

definition Write :: "u32 \<Rightarrow> u32 \<Rightarrow> sram \<Rightarrow> (bool \<times> sram) option" where
  "Write addr val s =
     (if \<not> InRange addr \<or> kWritePorts \<le> writes s then Some (False, s)
      else let k = BankOf addr; off = BankOffset addr
           in if \<not> in_bank (bank s ! k) off then None
              else Some (True, s\<lparr>bank := (bank s)[k := write_bytes (bank s ! k) off val],
                                 writes := writes s + 1\<rparr>))"

section \<open>The processing element\<close>

record pe =
  sram_of :: sram
  router_of :: router

definition new_pe :: pe where
  "new_pe = \<lparr>sram_of = new_sram, router_of = new_router\<rparr>"

section \<open>The SRAM is a word memory\<close>

definition sram_ok :: "sram \<Rightarrow> bool" where
  "sram_ok s \<longleftrightarrow> length (bank s) = kBanks \<and> list_all (\<lambda>b. length b = kBankBytes) (bank s)"

text \<open>Word \<open>w\<close> of the memory lives in bank \<open>w mod 8\<close>, at offset \<open>4 * (w div 8)\<close>.\<close>

definition sram_words :: nat where
  "sram_words = kTotalBytes div kWordBytes"

definition word_off :: "nat \<Rightarrow> u32" where
  "word_off k = of_nat (k * kWordBytes)"

definition sram_load :: "nat \<Rightarrow> sram \<Rightarrow> u32" where
  "sram_load w s = read_bytes (bank s ! (w mod kBanks)) (word_off (w div kBanks))"

definition sram_store :: "nat \<Rightarrow> u32 \<Rightarrow> sram \<Rightarrow> sram" where
  "sram_store w v s = s\<lparr>bank := (bank s)[w mod kBanks :=
     write_bytes (bank s ! (w mod kBanks)) (word_off (w div kBanks)) v]\<rparr>"

lemmas sram_consts = kBanks_def kBankBytes_def kTotalBytes_def kReadPorts_def kWritePorts_def
  kWordBytes_def sram_words_def

lemma upt4: "[0..<4] = [0, 1, 2, 3 :: nat]"
  by (simp add: upt_rec)

lemma unat_off:
  assumes "k < 1536" and "i < 4"
  shows "unat (word_off k + of_nat i) = k * 4 + i"
proof -
  have "word_off k + of_nat i = (of_nat (k * 4 + i) :: u32)" by (simp add: word_off_def kWordBytes_def)
  moreover have "k * 4 + i < 2 ^ 32" using assms by simp
  ultimately show ?thesis by (simp only: unsigned_of_nat) (simp add: take_bit_nat_eq_self)
qed

lemma read_bytes_eq:
  "k < 1536 \<Longrightarrow> read_bytes b (word_off k) =
     ucast (b ! (k * 4)) OR push_bit 8 (ucast (b ! (k * 4 + 1))) OR
     push_bit 16 (ucast (b ! (k * 4 + 2))) OR push_bit 24 (ucast (b ! (k * 4 + 3)))"
  using unat_off [of k 0] unat_off [of k 1] unat_off [of k 2] unat_off [of k 3]
  by (simp add: read_bytes_def kWordBytes_def upt4 or.assoc)

lemma write_bytes_eq:
  "k < 1536 \<Longrightarrow> write_bytes b (word_off k) v =
     b[k * 4 := ucast v, k * 4 + 1 := ucast (drop_bit 8 v), k * 4 + 2 := ucast (drop_bit 16 v),
       k * 4 + 3 := ucast (drop_bit 24 v)]"
proof -
  assume k: "k < 1536"
  have m: "ucast (w AND 0xFF) = (ucast w :: u8)" for w :: u32
  proof -
    have eq: "(0xFF :: u32) = mask 8" by (simp add: mask_eq_exp_minus_1)
    show ?thesis unfolding eq by (rule bit_word_eqI) (auto simp: bit_simps)
  qed
  show ?thesis
    using unat_off [OF k, of 0] unat_off [OF k, of 1] unat_off [OF k, of 2] unat_off [OF k, of 3]
    unfolding write_bytes_def kWordBytes_def upt4 m by simp
qed

lemma bytes_of_word:
  "ucast (ucast v :: u8) OR push_bit 8 (ucast (ucast (drop_bit 8 v) :: u8)) OR
   push_bit 16 (ucast (ucast (drop_bit 16 v) :: u8)) OR push_bit 24 (ucast (ucast (drop_bit 24 v) :: u8)) =
   (v :: u32)" (is "?l = v")
proof (rule bit_word_eqI)
  fix n
  assume "n < LENGTH(32)"
  then show "bit ?l n = bit v n"
    by (cases "8 \<le> n"; cases "16 \<le> n"; cases "24 \<le> n") (auto simp: bit_simps)
qed

lemma read_write_bytes:
  assumes "k < 1536" and "k' < 1536" and "length b = kBankBytes"
  shows "read_bytes (write_bytes b (word_off k) v) (word_off k') =
    (if k' = k then v else read_bytes b (word_off k'))"
proof (cases "k' = k")
  case True
  then show ?thesis
    using assms bytes_of_word [of v] by (simp add: read_bytes_eq write_bytes_eq sram_consts)
next
  case False
  then have "k' * 4 + i \<noteq> k * 4 + j" if "i < 4" "j < 4" for i j using that by presburger
  note this [of 0 0] this [of 0 1] this [of 0 2] this [of 0 3] this [of 1 0] this [of 1 1] this [of 1 2]
    this [of 1 3] this [of 2 0] this [of 2 1] this [of 2 2] this [of 2 3] this [of 3 0] this [of 3 1]
    this [of 3 2] this [of 3 3]
  with False assms show ?thesis
    by (simp add: read_bytes_eq write_bytes_eq sram_consts nth_list_update)
qed

lemma length_write_bytes [simp]: "length (write_bytes b off v) = length b"
  by (simp add: write_bytes_def kWordBytes_def upt4)

lemma sram_ok_new: "sram_ok new_sram"
  by (simp add: sram_ok_def new_sram_def list_all_iff)

lemma sram_bank_length: "sram_ok s \<Longrightarrow> k < kBanks \<Longrightarrow> length (bank s ! k) = kBankBytes"
  by (simp add: sram_ok_def list_all_length)

lemma word_slot: "w < sram_words \<Longrightarrow> w mod kBanks < kBanks \<and> w div kBanks < 1536"
  by (simp add: sram_consts less_mult_imp_div_less)

interpretation mem: word_memory sram_load sram_store "\<lambda>w. w < sram_words" sram_ok
proof
  fix s a and v :: u32
  assume s: "sram_ok s" and a: "a < sram_words"
  show "sram_ok (sram_store a v s)"
    using s sram_bank_length [OF s] word_slot [OF a]
    by (simp add: sram_ok_def sram_store_def list_all_update)
  show "sram_load a (sram_store a v s) = v"
    using s sram_bank_length [OF s] word_slot [OF a]
    by (simp add: sram_load_def sram_store_def sram_ok_def read_write_bytes kWordBytes_def)
  fix b
  assume b: "b < sram_words" "b \<noteq> a"
  show "sram_load b (sram_store a v s) = sram_load b s"
  proof (cases "b mod kBanks = a mod kBanks")
    case True
    with b(2) have "b div kBanks \<noteq> a div kBanks" by (metis div_mult_mod_eq)
    with True s sram_bank_length [OF s] word_slot [OF a] word_slot [OF b(1)] show ?thesis
      by (simp add: sram_load_def sram_store_def sram_ok_def read_write_bytes kWordBytes_def)
  next
    case False
    then show ?thesis by (simp add: sram_load_def sram_store_def)
  qed
qed

text \<open>The addresses \<open>Read\<close> and \<open>Write\<close> accept, up to the last word of the address space.\<close>

lemma InRange_iff:
  assumes "addr < 0xFFFFFFFC"
  shows "InRange addr \<longleftrightarrow> unat addr + 4 \<le> kTotalBytes \<and> unat addr mod 4 = 0"
proof -
  have lt: "unat addr < 0xFFFFFFFC" using assms by (simp add: word_less_nat_alt)
  have m: "addr mod 4 = 0 \<longleftrightarrow> unat addr mod 4 = 0" by (simp add: word_unat_eq_iff unat_mod)
  have "unat (addr + 4) = unat addr + 4" using lt by (simp add: unat_word_ariths)
  then show ?thesis unfolding InRange_def by (simp add: word_le_nat_alt sram_consts m)
qed

lemma slot_of_addr:
  assumes "addr < 0xFFFFFFFC" and "InRange addr"
  shows "BankOf addr = unat addr div 4 mod kBanks"
    and "BankOffset addr = word_off (unat addr div 4 div kBanks)"
    and "unat addr div 4 < sram_words"
proof -
  show "BankOf addr = unat addr div 4 mod kBanks"
    by (simp add: BankOf_def sram_consts unat_mod unat_div)
  have "addr div 4 div 8 = of_nat (unat (addr div 4 div 8))" by simp
  also have "unat (addr div 4 div 8) = unat addr div 4 div 8" by (simp add: unat_div)
  finally show "BankOffset addr = word_off (unat addr div 4 div kBanks)"
    by (simp add: BankOffset_def sram_consts word_off_def)
  show "unat addr div 4 < sram_words"
    using assms InRange_iff [OF assms(1)] by (simp add: sram_consts less_mult_imp_div_less)
qed

lemma in_bank_slot: "length b = kBankBytes \<Longrightarrow> k < 1536 \<Longrightarrow> in_bank b (word_off k)"
  using unat_off [of k 0] unat_off [of k 1] unat_off [of k 2] unat_off [of k 3]
  by (simp add: in_bank_def kWordBytes_def kBankBytes_def upt4)

lemma Read_eq:
  assumes "sram_ok s" and "addr < 0xFFFFFFFC"
  shows "Read addr s = Some (if InRange addr \<and> reads s < kReadPorts
    then (Some (sram_load (unat addr div 4) s), s\<lparr>reads := reads s + 1\<rparr>) else (None, s))"
proof (cases "InRange addr")
  case True
  note slot = slot_of_addr [OF assms(2) True]
  note in_bank_slot [OF sram_bank_length [OF assms(1)], of "unat addr div 4 mod kBanks" "unat addr div 4 div kBanks"]
  with word_slot [OF slot(3)] True show ?thesis
    by (simp add: Read_def Let_def slot sram_load_def)
qed (simp add: Read_def)

lemma Write_eq:
  assumes "sram_ok s" and "addr < 0xFFFFFFFC"
  shows "Write addr v s = Some (if InRange addr \<and> writes s < kWritePorts
    then (True, (sram_store (unat addr div 4) v s)\<lparr>writes := writes s + 1\<rparr>) else (False, s))"
proof (cases "InRange addr")
  case True
  note slot = slot_of_addr [OF assms(2) True]
  note in_bank_slot [OF sram_bank_length [OF assms(1)], of "unat addr div 4 mod kBanks" "unat addr div 4 div kBanks"]
  with word_slot [OF slot(3)] True show ?thesis
    by (simp add: Write_def Let_def slot sram_store_def)
qed (simp add: Write_def)

text \<open>A sequence of writes, one per cycle.\<close>

fun write_all :: "(u32 \<times> u32) list \<Rightarrow> sram \<Rightarrow> sram option" where
  "write_all [] s = Some s"
| "write_all ((a, v) # ws) s =
     (case Write a v (BeginCycle s) of None \<Rightarrow> None | Some (_, s') \<Rightarrow> write_all ws s')"

lemma sram_counters [simp]:
  "sram_ok (s\<lparr>reads := r\<rparr>) = sram_ok s" "sram_ok (s\<lparr>writes := r\<rparr>) = sram_ok s"
  "sram_load w (s\<lparr>reads := r\<rparr>) = sram_load w s" "sram_load w (s\<lparr>writes := r\<rparr>) = sram_load w s"
  "sram_ok (BeginCycle s) = sram_ok s" "sram_load w (BeginCycle s) = sram_load w s"
  "reads (BeginCycle s) = 0" "writes (BeginCycle s) = 0"
  by (simp_all add: sram_ok_def sram_load_def BeginCycle_def)

lemma sram_load_store_counters:
  "sram_load w (sram_store a v (s\<lparr>writes := r\<rparr>)) = sram_load w (sram_store a v s)"
  "sram_load w (sram_store a v (BeginCycle s)) = sram_load w (sram_store a v s)"
  by (simp_all add: sram_load_def sram_store_def BeginCycle_def)

definition word_addr :: "u32 \<Rightarrow> bool" where
  "word_addr a \<longleftrightarrow> a < 0xFFFFFFFC \<and> InRange a"

lemma word_addr_inject: "word_addr a \<Longrightarrow> word_addr b \<Longrightarrow> unat a div 4 = unat b div 4 \<longleftrightarrow> a = b"
proof
  assume a: "word_addr a" "word_addr b" "unat a div 4 = unat b div 4"
  then have "unat a mod 4 = 0" "unat b mod 4 = 0"
    using InRange_iff [of a] InRange_iff [of b] by (auto simp: word_addr_def)
  then have "unat a mod 4 = unat b mod 4" by simp
  with a(3) have "unat a = unat b" by (metis div_mult_mod_eq)
  then show "a = b" by (rule unsigned_word_eqI)
qed simp

lemma write_all_loads:
  "sram_ok s \<Longrightarrow> list_all (\<lambda>(a, v). word_addr a) ws \<Longrightarrow> word_addr b \<Longrightarrow>
     \<exists>s'. write_all ws s = Some s' \<and> sram_ok s' \<and>
       sram_load (unat b div 4) s' =
         (case map_of (rev ws) b of Some v \<Rightarrow> v | None \<Rightarrow> sram_load (unat b div 4) s)"
proof (induction ws arbitrary: s)
  case (Cons w ws)
  obtain a v where w: "w = (a, v)" by (cases w)
  have a: "a < 0xFFFFFFFC" "InRange a" "word_addr a" "unat a div 4 < sram_words" "unat b div 4 < sram_words"
    using Cons.prems w slot_of_addr(3) by (auto simp: word_addr_def)
  let ?s = "(sram_store (unat a div 4) v (BeginCycle s))\<lparr>writes := 1\<rparr>"
  have W: "Write a v (BeginCycle s) = Some (True, ?s)"
    using Cons.prems(1) a by (simp add: Write_eq kWritePorts_def)
  have ok: "sram_ok ?s" using Cons.prems(1) a mem.store_ok [of "BeginCycle s"] by simp
  have ld: "sram_load (unat b div 4) ?s = (if b = a then v else sram_load (unat b div 4) s)"
    using Cons.prems a mem.load_same [of "BeginCycle s"] mem.load_other [of "BeginCycle s"]
    by (simp add: word_addr_inject)
  from Cons.IH [OF ok] Cons.prems obtain s' where "write_all ws ?s = Some s'" "sram_ok s'"
    "sram_load (unat b div 4) s' =
      (case map_of (rev ws) b of Some v \<Rightarrow> v | None \<Rightarrow> sram_load (unat b div 4) ?s)"
    by (auto simp: w)
  then show ?case unfolding ld by (auto simp: w W split: option.splits)
qed simp

section \<open>Properties\<close>

text \<open>C2. The SRAM implements a memory of 12288 words: after any writes to words of the memory, one
  per cycle, a read of any word is accepted and returns the value written to it last, or its initial
  value; the interleaving over the banks never mixes two words.\<close>

theorem Sram_last_write:
  assumes "sram_ok s" and "list_all (\<lambda>(a, v). word_addr a) ws" and "word_addr b"
  shows "\<exists>s' s''. write_all ws s = Some s' \<and> Read b (BeginCycle s') =
    Some (Some (case map_of (rev ws) b of Some v \<Rightarrow> v | None \<Rightarrow> sram_load (unat b div 4) s), s'')"
proof -
  from write_all_loads [OF assms] obtain s' where s': "write_all ws s = Some s'" "sram_ok s'"
    "sram_load (unat b div 4) s' =
      (case map_of (rev ws) b of Some v \<Rightarrow> v | None \<Rightarrow> sram_load (unat b div 4) s)" by blast
  have "b < 0xFFFFFFFC" "InRange b" using assms(3) by (simp_all add: word_addr_def)
  then have "\<exists>s''. Read b (BeginCycle s') = Some (Some (sram_load (unat b div 4) s'), s'')"
    using s'(2) by (simp add: Read_eq kReadPorts_def)
  with s' show ?thesis by auto
qed

theorem Sram_last_write_witness:
  "\<exists>s' s''. write_all [(0, 5), (4, 6), (0, 7)] new_sram = Some s' \<and> Read 0 (BeginCycle s') =
    Some (Some (case map_of (rev [(0, 5), (4, 6), (0, 7)]) (0 :: u32) of Some v \<Rightarrow> v
                | None \<Rightarrow> sram_load (unat (0 :: u32) div 4) new_sram), s'')"
  by (rule Sram_last_write [OF sram_ok_new]) (simp_all add: word_addr_def InRange_def sram_consts)

text \<open>
  The range test of the last word of the address space wraps to \<open>0 <= 49152\<close>: the access passes it
  and leaves the bank.
\<close>

lemma Read_wraps_out_of_bank: "Read 0xFFFFFFFC new_sram = None"
  by (simp add: Read_def InRange_def BankOf_def BankOffset_def in_bank_def new_sram_def sram_consts upt4)

lemma Write_wraps_out_of_bank: "Write 0xFFFFFFFC v new_sram = None"
  by (simp add: Write_def InRange_def BankOf_def BankOffset_def in_bank_def new_sram_def sram_consts upt4)

end
