(* ===== verification/Grid.thy ===== *)
theory Grid
  imports Pe
begin

text \<open>
  The mesh of processing elements and the fabric cycle (\<open>Grid.h\<close>, \<open>Grid.cpp\<close>). Coordinates are
  \<open>int\<close>; the elements are the vector of the C++ class, row by row. A cycle is the routing phase
  followed by the hop phase, which walks a snapshot of the output channels.
\<close>

section \<open>State and operations\<close>

record grid =
  width :: int
  height :: int
  pes :: "pe list"
  dropped :: nat
  cycle :: nat

definition kDefaultWidth :: int where "kDefaultWidth = 64"
definition kDefaultHeight :: int where "kDefaultHeight = 64"

text \<open>The constructor asserts positive dimensions.\<close>

definition new_grid :: "int \<Rightarrow> int \<Rightarrow> grid option" where
  "new_grid w h =
     (if \<not> (0 < w \<and> 0 < h) then None
      else Some \<lparr>width = w, height = h, pes = replicate (nat w * nat h) new_pe, dropped = 0, cycle = 0\<rparr>)"

definition InBounds :: "grid \<Rightarrow> int \<Rightarrow> int \<Rightarrow> bool" where
  "InBounds g x y \<longleftrightarrow> 0 \<le> x \<and> x < width g \<and> 0 \<le> y \<and> y < height g"

definition Index :: "grid \<Rightarrow> int \<Rightarrow> int \<Rightarrow> nat" where
  "Index g x y = nat y * nat (width g) + nat x"

text \<open>\<open>At(x, y).GetRouter()\<close>, read and written back.\<close>

definition router_at :: "grid \<Rightarrow> int \<Rightarrow> int \<Rightarrow> router" where
  "router_at g x y = router_of (pes g ! Index g x y)"

definition set_router :: "int \<Rightarrow> int \<Rightarrow> router \<Rightarrow> grid \<Rightarrow> grid" where
  "set_router x y r g =
     g\<lparr>pes := (pes g)[Index g x y := (pes g ! Index g x y)\<lparr>router_of := r\<rparr>]\<rparr>"

definition Neighbor :: "grid \<Rightarrow> int \<Rightarrow> int \<Rightarrow> dir \<Rightarrow> (int \<times> int) option" where
  "Neighbor g x y d =
     (let move = (\<lambda>cx cy. if \<not> InBounds g cx cy then None else Some (cx, cy))
      in case d of
           Ramp \<Rightarrow> None
         | East \<Rightarrow> move (x + 1) y
         | West \<Rightarrow> move (x - 1) y
         | North \<Rightarrow> move x (y + 1)
         | South \<Rightarrow> move x (y - 1)
         | DirCount \<Rightarrow> None)"

definition Inject :: "int \<Rightarrow> int \<Rightarrow> color \<Rightarrow> dir_mask \<Rightarrow> wavelet \<Rightarrow> grid \<Rightarrow> bool \<times> grid" where
  "Inject x y c dirs w g =
     (if \<not> InBounds g x y then (False, g)
      else case Tx c dirs w (router_at g x y) of (ok, r) \<Rightarrow> (ok, set_router x y r g))"

definition SetRoute :: "int \<Rightarrow> int \<Rightarrow> color \<Rightarrow> dir \<Rightarrow> dir_mask \<Rightarrow> grid \<Rightarrow> bool \<times> grid" where
  "SetRoute x y c rx tx g =
     (if \<not> InBounds g x y then (False, g)
      else case SetColorConfig \<lparr>cfg_color = c, cfg_rx = rx, cfg_tx = tx\<rparr> (router_at g x y) of
             (ok, r) \<Rightarrow> (ok, set_router x y r g))"

record move =
  m_x :: int
  m_y :: int
  m_d :: dir
  m_color :: u8
  m_count :: nat

definition route_phase :: "grid \<Rightarrow> grid" where
  "route_phase g = g\<lparr>pes := map (\<lambda>p. p\<lparr>router_of := snd (ApplyForwarding (router_of p))\<rparr>) (pes g)\<rparr>"

definition moves :: "grid \<Rightarrow> move list" where
  "moves g =
     concat (map (\<lambda>y. concat (map (\<lambda>x. concat (map (\<lambda>d. concat (map (\<lambda>i.
       let c = the (Routable (of_nat i)); n = OutputSize d c (router_at g x y)
       in if n > 0 then [\<lparr>m_x = x, m_y = y, m_d = d, m_color = color_id c, m_count = n\<rparr>] else [])
       [0..<kNumRoutable])) all_dirs)) [0..width g - 1])) [0..height g - 1])"

text \<open>The inner loop of the hop phase: at most \<open>n\<close> wavelets of one snapshot entry cross.\<close>

fun hop :: "nat \<Rightarrow> move \<Rightarrow> grid \<Rightarrow> grid" where
  "hop 0 m g = g"
| "hop (Suc n) m g =
     (let src = router_at g (m_x m) (m_y m); c = the (Routable (ucast (m_color m)))
      in case PeekOutput (m_d m) c src of
           None \<Rightarrow> g
         | Some w \<Rightarrow>
             if m_d m = Ramp then
               (case Rx Ramp c w src of (ok, src') \<Rightarrow>
                  if \<not> ok then g
                  else hop n m (set_router (m_x m) (m_y m) (snd (PopOutput (m_d m) c src')) g))
             else
               (case Neighbor g (m_x m) (m_y m) (m_d m) of
                  None \<Rightarrow>
                    hop n m ((set_router (m_x m) (m_y m) (snd (PopOutput (m_d m) c src)) g)
                      \<lparr>dropped := dropped g + 1\<rparr>)
                | Some (nx, ny) \<Rightarrow>
                    (case Rx (m_d m) c w (router_at g nx ny) of (ok, dst) \<Rightarrow>
                       if \<not> ok then g
                       else let g' = set_router nx ny dst g
                            in hop n m (set_router (m_x m) (m_y m)
                                 (snd (PopOutput (m_d m) c (router_at g' (m_x m) (m_y m)))) g'))))"

definition hop_phase :: "grid \<Rightarrow> grid" where
  "hop_phase g = foldl (\<lambda>g m. hop (m_count m) m g) g (moves g)"

definition Step :: "grid \<Rightarrow> grid" where
  "Step g = (let g' = hop_phase (route_phase g) in g'\<lparr>cycle := cycle g' + 1\<rparr>)"

section \<open>Well-formed grids and their channels\<close>

definition dims_ok :: "grid \<Rightarrow> bool" where
  "dims_ok g \<longleftrightarrow> 0 < width g \<and> 0 < height g \<and> length (pes g) = nat (width g) * nat (height g)"

definition grid_ok :: "grid \<Rightarrow> bool" where
  "grid_ok g \<longleftrightarrow> dims_ok g \<and> list_all (\<lambda>p. router_ok (router_of p)) (pes g)"

definition vc_out :: "grid \<Rightarrow> nat \<Rightarrow> dir \<Rightarrow> nat \<Rightarrow> wavelet list" where
  "vc_out g p d i = out_vc (router_of (pes g ! p)) d i"

definition vc_in :: "grid \<Rightarrow> nat \<Rightarrow> nat \<Rightarrow> wavelet list" where
  "vc_in g p i = in_vc (router_of (pes g ! p)) i"

text \<open>The element a wavelet leaving \<open>(x, y)\<close> on port \<open>d\<close> arrives at.\<close>

definition hop_target :: "grid \<Rightarrow> int \<Rightarrow> int \<Rightarrow> dir \<Rightarrow> nat option" where
  "hop_target g x y d =
     (if d = Ramp then Some (Index g x y)
      else case Neighbor g x y d of None \<Rightarrow> None | Some (nx, ny) \<Rightarrow> Some (Index g nx ny))"

lemma Index_lt: "dims_ok g \<Longrightarrow> InBounds g x y \<Longrightarrow> Index g x y < length (pes g)"
  using index_lt [of "nat x" "nat (width g)" "nat y" "nat (height g)"]
  by (simp add: dims_ok_def InBounds_def Index_def)

lemma Index_inject:
  "InBounds g x y \<Longrightarrow> InBounds g x' y' \<Longrightarrow> Index g x y = Index g x' y' \<longleftrightarrow> x = x' \<and> y = y'"
  using index_inject [of "nat x" "nat (width g)" "nat x'" "nat y" "nat y'"]
  by (auto simp: InBounds_def Index_def)

lemma Neighbor_InBounds: "Neighbor g x y d = Some (nx, ny) \<Longrightarrow> InBounds g nx ny \<and> (nx, ny) \<noteq> (x, y)"
  by (cases d) (auto simp: Neighbor_def Let_def split: if_splits)

lemma set_router_simps [simp]:
  "width (set_router x y r g) = width g" "height (set_router x y r g) = height g"
  "dropped (set_router x y r g) = dropped g" "cycle (set_router x y r g) = cycle g"
  "length (pes (set_router x y r g)) = length (pes g)"
  "Index (set_router x y r g) = Index g" "InBounds (set_router x y r g) = InBounds g"
  "Neighbor (set_router x y r g) = Neighbor g" "dims_ok (set_router x y r g) = dims_ok g"
  by (simp_all add: set_router_def Index_def InBounds_def Neighbor_def dims_ok_def fun_eq_iff)

lemma pes_set_router:
  "dims_ok g \<Longrightarrow> InBounds g x y \<Longrightarrow> pes (set_router x y r g) ! p =
     (if p = Index g x y then (pes g ! p)\<lparr>router_of := r\<rparr> else pes g ! p)"
  by (simp add: set_router_def Index_lt nth_list_update)

lemma dropped_update_simps [simp]:
  "Index (g\<lparr>dropped := n\<rparr>) = Index g" "InBounds (g\<lparr>dropped := n\<rparr>) = InBounds g"
  "Neighbor (g\<lparr>dropped := n\<rparr>) = Neighbor g" "dims_ok (g\<lparr>dropped := n\<rparr>) = dims_ok g"
  "vc_out (g\<lparr>dropped := n\<rparr>) = vc_out g" "vc_in (g\<lparr>dropped := n\<rparr>) = vc_in g"
  by (simp_all add: Index_def InBounds_def Neighbor_def dims_ok_def vc_out_def vc_in_def fun_eq_iff)

lemma Routable_u8: "cid_u < of_nat kNumRoutable \<Longrightarrow> the (Routable (ucast (cid_u :: u8))) = \<lparr>color_id = cid_u\<rparr>"
proof -
  assume "cid_u < of_nat kNumRoutable"
  then have "(ucast cid_u :: u32) < 24"
    by (simp add: word_less_nat_alt kNumRoutable_def unsigned_ucast_eq)
      (metis order_le_less_trans take_bit_nat_less_eq_self)
  moreover have "(ucast (ucast cid_u :: u32) :: u8) = cid_u"
    by (rule bit_word_eqI) (auto simp: bit_simps)
  ultimately show ?thesis by (simp add: Routable_def kNumRoutable_def not_le)
qed

section \<open>What one snapshot entry moves\<close>

text \<open>\<open>moved k m g g'\<close>: the first \<open>k\<close> wavelets of the entry's output channel have crossed, and
  nothing else has changed.\<close>

definition frame_eq :: "grid \<Rightarrow> grid \<Rightarrow> bool" where
  "frame_eq g g' \<longleftrightarrow> width g' = width g \<and> height g' = height g \<and> cycle g' = cycle g \<and>
     length (pes g') = length (pes g) \<and>
     (\<forall>p. sram_of (pes g' ! p) = sram_of (pes g ! p) \<and>
       config (router_of (pes g' ! p)) = config (router_of (pes g ! p)) \<and>
       has_config (router_of (pes g' ! p)) = has_config (router_of (pes g ! p)))"

definition moved :: "nat \<Rightarrow> move \<Rightarrow> grid \<Rightarrow> grid \<Rightarrow> bool" where
  "moved k m g g' \<longleftrightarrow>
     (let s = Index g (m_x m) (m_y m); t = hop_target g (m_x m) (m_y m) (m_d m); j = unat (m_color m);
          ws = vc_out g s (m_d m) j
      in k \<le> length ws \<and> frame_eq g g' \<and>
         (\<forall>p d i. vc_out g' p d i =
            (if p = s \<and> d = m_d m \<and> i = j then drop k ws else vc_out g p d i)) \<and>
         (\<forall>p i. vc_in g' p i = vc_in g p i @ (if t = Some p \<and> i = j then take k ws else [])) \<and>
         dropped g' = dropped g + (if t = None then k else 0))"

lemma frame_eq_views: "frame_eq g g' \<Longrightarrow> Index g' = Index g \<and> InBounds g' = InBounds g \<and>
    Neighbor g' = Neighbor g \<and> hop_target g' = hop_target g \<and> dims_ok g' = dims_ok g"
proof -
  assume f: "frame_eq g g'"
  then have i: "Index g' = Index g" and b: "InBounds g' = InBounds g"
    by (simp_all add: frame_eq_def Index_def InBounds_def fun_eq_iff)
  from b have n: "Neighbor g' = Neighbor g" by (simp add: Neighbor_def fun_eq_iff)
  with i have "hop_target g' x y d = hop_target g x y d" for x y d
    by (simp add: hop_target_def split: option.split)
  then have "hop_target g' = hop_target g" by (simp add: fun_eq_iff)
  with i b n f show ?thesis by (simp add: frame_eq_def dims_ok_def)
qed

lemma frame_eq_trans: "frame_eq g g1 \<Longrightarrow> frame_eq g1 g2 \<Longrightarrow> frame_eq g g2"
  by (simp add: frame_eq_def)

lemma moved_0: "moved 0 m g g"
  by (simp add: moved_def frame_eq_def Let_def)

lemma moved_add:
  assumes "moved k m g g1" and "moved k' m g1 g2"
  shows "moved (k + k') m g g2"
proof -
  have "frame_eq g g1" using assms(1) by (simp add: moved_def Let_def)
  note v = frame_eq_views [OF this]
  define ws where "ws = vc_out g (Index g (m_x m) (m_y m)) (m_d m) (unat (m_color m))"
  have tk: "take (k + k') ws = take k ws @ take k' (drop k ws)"
    by (simp add: take_add)
  show ?thesis
    using assms v frame_eq_trans [of g g1 g2]
    unfolding moved_def Let_def ws_def [symmetric]
    by (auto simp: ws_def [symmetric] tk add.commute)
qed

lemma Rx_simps [simp]:
  "out_vc (snd (Rx d c w r)) = out_vc r" "config (snd (Rx d c w r)) = config r"
  "has_config (snd (Rx d c w r)) = has_config r"
  by (simp_all add: Rx_def)

lemma PopOutput_simps [simp]:
  "in_vc (snd (PopOutput d c r)) = in_vc r" "config (snd (PopOutput d c r)) = config r"
  "has_config (snd (PopOutput d c r)) = has_config r"
  by (simp_all add: PopOutput_def split: list.splits)

lemma Rx_True: "IsRoutable c \<Longrightarrow> Rx d c w r = (True, r') \<Longrightarrow>
    (\<forall>i. in_vc r' i = in_vc r i @ (if i = cid c then [w] else [])) \<and> out_vc r' = out_vc r \<and>
    config r' = config r \<and> has_config r' = has_config r"
  by (auto simp: Rx_def split: if_splits)

lemma PopOutput_out: "IsRoutable c \<Longrightarrow> out_vc (snd (PopOutput d c r)) d' i =
    (if d' = d \<and> i = cid c then drop 1 (out_vc r d i) else out_vc r d' i)"
  by (auto simp: PopOutput_def split: list.splits)

lemma PeekOutput_iff: "IsRoutable c \<Longrightarrow> PeekOutput d c r = Some w \<longleftrightarrow>
    (\<exists>rest. out_vc r d (cid c) = w # rest)"
  by (auto simp: PeekOutput_def split: list.splits)

definition entry_ok :: "grid \<Rightarrow> move \<Rightarrow> bool" where
  "entry_ok g m \<longleftrightarrow> InBounds g (m_x m) (m_y m) \<and> m_d m \<noteq> DirCount \<and> m_color m < of_nat kNumRoutable"

lemma entry_color:
  "entry_ok g m \<Longrightarrow> the (Routable (ucast (m_color m))) = \<lparr>color_id = m_color m\<rparr> \<and>
     IsRoutable \<lparr>color_id = m_color m\<rparr>"
  by (auto simp: entry_ok_def Routable_u8 IsRoutable_cid word_less_nat_alt kNumRoutable_def)

lemma moved_ramp:
  assumes g: "dims_ok g" "entry_ok g m" "m_d m = Ramp"
    and w: "PeekOutput Ramp c (router_at g (m_x m) (m_y m)) = Some w" "c = \<lparr>color_id = m_color m\<rparr>"
    and r: "Rx Ramp c w (router_at g (m_x m) (m_y m)) = (True, src')"
  shows "moved 1 m g (set_router (m_x m) (m_y m) (snd (PopOutput Ramp c src')) g)"
proof -
  have c: "IsRoutable c" using entry_color [OF g(2)] w(2) by simp
  have b: "InBounds g (m_x m) (m_y m)" using g(2) by (simp add: entry_ok_def)
  from w(1) c obtain rest where out: "out_vc (router_at g (m_x m) (m_y m)) Ramp (cid c) = w # rest"
    by (auto simp: PeekOutput_iff)
  note rx = Rx_True [OF c r]
  show ?thesis
    using out rx unfolding w(2)
    by (auto simp: moved_def Let_def frame_eq_def hop_target_def g(3) vc_out_def vc_in_def router_at_def
        pes_set_router [OF g(1) b] PopOutput_out [OF c, unfolded w(2)])
qed

lemma moved_drop:
  assumes g: "dims_ok g" "entry_ok g m" "m_d m \<noteq> Ramp" "Neighbor g (m_x m) (m_y m) (m_d m) = None"
    and w: "PeekOutput (m_d m) c (router_at g (m_x m) (m_y m)) = Some w" "c = \<lparr>color_id = m_color m\<rparr>"
  shows "moved 1 m g ((set_router (m_x m) (m_y m)
    (snd (PopOutput (m_d m) c (router_at g (m_x m) (m_y m)))) g)\<lparr>dropped := dropped g + 1\<rparr>)"
proof -
  have c: "IsRoutable c" using entry_color [OF g(2)] w(2) by simp
  have b: "InBounds g (m_x m) (m_y m)" using g(2) by (simp add: entry_ok_def)
  from w(1) c obtain rest where out: "out_vc (router_at g (m_x m) (m_y m)) (m_d m) (cid c) = w # rest"
    by (auto simp: PeekOutput_iff)
  show ?thesis
    using out unfolding w(2)
    by (auto simp: moved_def Let_def frame_eq_def hop_target_def g(3,4) vc_out_def vc_in_def router_at_def
        pes_set_router [OF g(1) b] PopOutput_out [OF c, unfolded w(2)])
qed

lemma moved_link:
  assumes g: "dims_ok g" "entry_ok g m" "m_d m \<noteq> Ramp" "Neighbor g (m_x m) (m_y m) (m_d m) = Some (nx, ny)"
    and w: "PeekOutput (m_d m) c (router_at g (m_x m) (m_y m)) = Some w" "c = \<lparr>color_id = m_color m\<rparr>"
    and r: "Rx (m_d m) c w (router_at g nx ny) = (True, dst)"
    and g1: "g1 = set_router nx ny dst g"
  shows "moved 1 m g (set_router (m_x m) (m_y m)
    (snd (PopOutput (m_d m) c (router_at g1 (m_x m) (m_y m)))) g1)"
proof -
  have c: "IsRoutable c" using entry_color [OF g(2)] w(2) by simp
  have b: "InBounds g (m_x m) (m_y m)" using g(2) by (simp add: entry_ok_def)
  from Neighbor_InBounds [OF g(4)] have n: "InBounds g nx ny" "(nx, ny) \<noteq> (m_x m, m_y m)" by simp_all
  then have ne: "Index g nx ny \<noteq> Index g (m_x m) (m_y m)" using Index_inject [OF n(1) b] by simp
  from w(1) c obtain rest where out: "out_vc (router_at g (m_x m) (m_y m)) (m_d m) (cid c) = w # rest"
    by (auto simp: PeekOutput_iff)
  have p1: "pes g1 ! p = (if p = Index g nx ny then (pes g ! p)\<lparr>router_of := dst\<rparr> else pes g ! p)" for p
    unfolding g1 by (rule pes_set_router [OF g(1) n(1)])
  have g1v: "dims_ok g1" "InBounds g1 = InBounds g" "Index g1 = Index g" "dropped g1 = dropped g"
    "width g1 = width g" "height g1 = height g" "cycle g1 = cycle g" "length (pes g1) = length (pes g)"
    using g(1) by (simp_all add: g1)
  have p2: "pes (set_router (m_x m) (m_y m) r' g1) ! p =
      (if p = Index g (m_x m) (m_y m) then (pes g1 ! p)\<lparr>router_of := r'\<rparr> else pes g1 ! p)" for p r'
    using pes_set_router [of g1 "m_x m" "m_y m" r' p] b by (simp add: g1v)
  note rx = Rx_True [OF c r]
  show ?thesis
    using out rx ne unfolding w(2)
    by (auto simp: moved_def Let_def frame_eq_def hop_target_def g(3,4) vc_out_def vc_in_def router_at_def
        p1 p2 PopOutput_out [OF c, unfolded w(2)] g1v)
qed

text \<open>Entries stop early only at a full input channel.\<close>

definition blocked :: "grid \<Rightarrow> move \<Rightarrow> bool" where
  "blocked g m \<longleftrightarrow> (\<exists>p. hop_target g (m_x m) (m_y m) (m_d m) = Some p \<and>
     kVcDepth \<le> length (vc_in g p (unat (m_color m))))"

abbreviation entry_out :: "grid \<Rightarrow> move \<Rightarrow> wavelet list" where
  "entry_out g m \<equiv> vc_out g (Index g (m_x m) (m_y m)) (m_d m) (unat (m_color m))"

lemma hop_moved:
  "dims_ok g \<Longrightarrow> entry_ok g m \<Longrightarrow>
     \<exists>k \<le> n. moved k m g (hop n m g) \<and> (k < min n (length (entry_out g m)) \<longrightarrow> blocked (hop n m g) m)"
proof (induction n arbitrary: g)
  case (Suc n)
  note ok = Suc.prems
  let ?x = "m_x m" and ?y = "m_y m" and ?d = "m_d m"
  define c where "c = \<lparr>color_id = m_color m\<rparr>"
  have c: "the (Routable (ucast (m_color m))) = c" "IsRoutable c"
    using entry_color [OF ok(2)] by (simp_all add: c_def)
  have continue: "\<exists>k \<le> Suc n. moved k m g (hop (Suc n) m g) \<and>
      (k < min (Suc n) (length (entry_out g m)) \<longrightarrow> blocked (hop (Suc n) m g) m)"
    if one: "moved 1 m g g1" and eq: "hop (Suc n) m g = hop n m g1" for g1
  proof -
    have fr: "frame_eq g g1" using one by (simp add: moved_def Let_def)
    note v = frame_eq_views [OF fr]
    have "dims_ok g1" "entry_ok g1 m" using ok v by (simp_all add: entry_ok_def)
    from Suc.IH [OF this] obtain k where k: "k \<le> n" "moved k m g1 (hop n m g1)"
      "k < min n (length (entry_out g1 m)) \<longrightarrow> blocked (hop n m g1) m" by blast
    have "Suc (length (entry_out g1 m)) = length (entry_out g m)"
      using one v by (simp add: moved_def Let_def Suc_le_eq)
    with k moved_add [OF one k(2)] eq show ?thesis by (intro exI [of _ "Suc k"]) auto
  qed
  have stop: "\<exists>k \<le> Suc n. moved k m g (hop (Suc n) m g) \<and>
      (k < min (Suc n) (length (entry_out g m)) \<longrightarrow> blocked (hop (Suc n) m g) m)"
    if "hop (Suc n) m g = g" and "entry_out g m = [] \<or> blocked g m"
    using that moved_0 [of m g] by (intro exI [of _ 0]) auto
  show ?case
  proof (cases "PeekOutput ?d c (router_at g ?x ?y)")
    case None
    then have "entry_out g m = []"
      using c(2) by (auto simp: PeekOutput_def vc_out_def router_at_def c_def split: list.splits)
    then show ?thesis using None by (intro stop) (simp_all add: Let_def c(1))
  next
    case (Some w)
    show ?thesis
    proof (cases "?d = Ramp")
      case True
      obtain acc src' where r: "Rx Ramp c w (router_at g ?x ?y) = (acc, src')"
        by (cases "Rx Ramp c w (router_at g ?x ?y)")
      show ?thesis
      proof (cases acc)
        case True': True
        show ?thesis
          using Some r True True'
          by (intro continue [OF moved_ramp [OF ok True _ c_def]]) (simp_all add: Let_def c(1))
      next
        case False
        then have "blocked g m"
          using r c(2) True by (auto simp: Rx_def blocked_def hop_target_def vc_in_def router_at_def c_def split: if_splits)
        then show ?thesis using Some r True False by (intro stop) (simp_all add: Let_def c(1))
      qed
    next
      case ramp: False
      show ?thesis
      proof (cases "Neighbor g ?x ?y ?d")
        case None
        show ?thesis
          using Some ramp None
          by (intro continue [OF moved_drop [OF ok ramp None Some c_def]]) (simp add: Let_def c(1))
      next
        case (Some nb)
        then obtain nx ny where nb: "Neighbor g ?x ?y ?d = Some (nx, ny)" by (cases nb) auto
        obtain acc dst where r: "Rx ?d c w (router_at g nx ny) = (acc, dst)"
          by (cases "Rx ?d c w (router_at g nx ny)")
        note peek = \<open>PeekOutput ?d c (router_at g ?x ?y) = Some w\<close>
        show ?thesis
        proof (cases acc)
          case True
          with r have r': "Rx ?d c w (router_at g nx ny) = (True, dst)" by simp
          show ?thesis
            using peek ramp nb r'
            by (intro continue [OF moved_link [OF ok ramp nb peek c_def r' refl]]) (simp add: Let_def c(1))
        next
          case False
          then have "blocked g m"
            using r c(2) ramp nb
            by (auto simp: Rx_def blocked_def hop_target_def vc_in_def router_at_def c_def split: if_splits)
          then show ?thesis using peek ramp nb r False by (intro stop) (simp_all add: Let_def c(1))
        qed
      qed
    qed
  qed
qed (auto intro: exI [of _ 0] moved_0)

section \<open>The hop phase\<close>

definition mkey :: "grid \<Rightarrow> move \<Rightarrow> nat \<times> dir \<times> nat" where
  "mkey g m = (Index g (m_x m) (m_y m), m_d m, unat (m_color m))"

definition into :: "grid \<Rightarrow> nat \<Rightarrow> nat \<Rightarrow> move \<Rightarrow> bool" where
  "into g p i m \<longleftrightarrow> hop_target g (m_x m) (m_y m) (m_d m) = Some p \<and> unat (m_color m) = i"

definition arrivals :: "(nat \<times> dir \<times> nat \<Rightarrow> nat) \<Rightarrow> grid \<Rightarrow> move list \<Rightarrow> nat \<Rightarrow> nat \<Rightarrow> wavelet list" where
  "arrivals k g ms p i = concat (map (\<lambda>m. take (k (mkey g m)) (entry_out g m)) (filter (into g p i) ms))"

definition losses :: "(nat \<times> dir \<times> nat \<Rightarrow> nat) \<Rightarrow> grid \<Rightarrow> move list \<Rightarrow> nat" where
  "losses k g ms =
     sum_list (map (\<lambda>m. if hop_target g (m_x m) (m_y m) (m_d m) = None then k (mkey g m) else 0) ms)"

text \<open>\<open>crossed k g ms g'\<close>: of every entry of \<open>ms\<close> the first \<open>k\<close> wavelets have crossed.\<close>

definition crossed :: "(nat \<times> dir \<times> nat \<Rightarrow> nat) \<Rightarrow> grid \<Rightarrow> move list \<Rightarrow> grid \<Rightarrow> bool" where
  "crossed k g ms g' \<longleftrightarrow> frame_eq g g' \<and>
     (\<forall>p d i. vc_out g' p d i = drop (k (p, d, i)) (vc_out g p d i)) \<and>
     (\<forall>p i. vc_in g' p i = vc_in g p i @ arrivals k g ms p i) \<and>
     dropped g' = dropped g + losses k g ms \<and>
     (\<forall>q. q \<notin> mkey g ` set ms \<longrightarrow> k q = 0) \<and>
     (\<forall>m \<in> set ms. k (mkey g m) \<le> min (m_count m) (length (entry_out g m)) \<and>
        (k (mkey g m) < min (m_count m) (length (entry_out g m)) \<longrightarrow> blocked g' m))"

lemma blocked_mono:
  assumes "blocked g m" and "frame_eq g g'" and "\<And>p i. \<exists>xs. vc_in g' p i = vc_in g p i @ xs"
  shows "blocked g' m"
proof -
  from assms(1) obtain p where p: "hop_target g (m_x m) (m_y m) (m_d m) = Some p"
    "kVcDepth \<le> length (vc_in g p (unat (m_color m)))" by (auto simp: blocked_def)
  from assms(3) [of p "unat (m_color m)"] obtain xs where
    "vc_in g' p (unat (m_color m)) = vc_in g p (unat (m_color m)) @ xs" by blast
  with p frame_eq_views [OF assms(2)] show ?thesis by (auto simp: blocked_def)
qed

lemma hops_crossed:
  "dims_ok g \<Longrightarrow> \<forall>m \<in> set ms. entry_ok g m \<Longrightarrow> distinct (map (mkey g) ms) \<Longrightarrow>
     \<exists>k. crossed k g ms (foldl (\<lambda>g m. hop (m_count m) m g) g ms)"
proof (induction ms rule: rev_induct)
  case Nil
  show ?case
    by (intro exI [of _ "\<lambda>_. 0"]) (simp add: crossed_def frame_eq_def arrivals_def losses_def)
next
  case (snoc m ms)
  let ?g1 = "foldl (\<lambda>g m. hop (m_count m) m g) g ms"
  from snoc obtain k where k: "crossed k g ms ?g1" by auto
  then have fr: "frame_eq g ?g1" by (simp add: crossed_def)
  note v = frame_eq_views [OF fr]
  have ok: "dims_ok ?g1" "entry_ok ?g1 m" using snoc.prems v by (simp_all add: entry_ok_def)
  have new: "mkey g m \<notin> mkey g ` set ms" using snoc.prems(3) by simp
  then have k0: "k (mkey g m) = 0" using k unfolding crossed_def by blast
  then have out1: "entry_out ?g1 m = entry_out g m" using k v by (simp add: crossed_def mkey_def)
  let ?g2 = "hop (m_count m) m ?g1"
  from hop_moved [OF ok, of "m_count m"] obtain n where n: "n \<le> m_count m" "moved n m ?g1 ?g2"
    "n < min (m_count m) (length (entry_out g m)) \<longrightarrow> blocked ?g2 m" by (auto simp: out1)
  have fr2: "frame_eq ?g1 ?g2" and len: "n \<le> length (entry_out g m)"
    using n(2) out1 by (simp_all add: moved_def Let_def)
  define k' where "k' = k(mkey g m := n)"
  have same: "m' \<in> set ms \<Longrightarrow> k' (mkey g m') = k (mkey g m')" for m'
    unfolding k'_def using new by (metis fun_upd_other imageI)
  have arr: "arrivals k' g ms p i = arrivals k g ms p i" for p i
    unfolding arrivals_def by (intro arg_cong [where f = concat] map_cong) (auto simp: same)
  have los: "losses k' g ms = losses k g ms"
    unfolding losses_def by (intro arg_cong [where f = sum_list] map_cong) (auto simp: same)
  have "crossed k' g (ms @ [m]) ?g2"
    unfolding crossed_def
  proof (intro conjI allI ballI impI)
    show "frame_eq g ?g2" by (rule frame_eq_trans [OF fr fr2])
    fix p d i
    show "vc_out ?g2 p d i = drop (k' (p, d, i)) (vc_out g p d i)"
      using n(2) k v k0 out1
      by (auto simp: moved_def Let_def crossed_def k'_def mkey_def)
  next
    fix p i
    show "vc_in ?g2 p i = vc_in g p i @ arrivals k' g (ms @ [m]) p i"
      using n(2) k v out1 arr [of p i]
      by (auto simp: moved_def Let_def crossed_def arrivals_def into_def k'_def)
  next
    show "dropped ?g2 = dropped g + losses k' g (ms @ [m])"
      using n(2) k v los by (auto simp: moved_def Let_def crossed_def losses_def k'_def)
  next
    fix q assume "q \<notin> mkey g ` set (ms @ [m])"
    then have "q \<noteq> mkey g m" "q \<notin> mkey g ` set ms" by auto
    moreover from this(2) have "k q = 0" using k unfolding crossed_def by blast
    ultimately show "k' q = 0" by (simp add: k'_def)
  next
    fix m' assume m': "m' \<in> set (ms @ [m])"
    show "k' (mkey g m') \<le> min (m_count m') (length (entry_out g m'))"
    proof (cases "m' = m")
      case True
      then show ?thesis using n(1) len by (simp add: k'_def)
    next
      case False
      then have "m' \<in> set ms" using m' by simp
      then show ?thesis using k same by (simp add: crossed_def)
    qed
    assume lt: "k' (mkey g m') < min (m_count m') (length (entry_out g m'))"
    show "blocked ?g2 m'"
    proof (cases "m' = m")
      case True
      then show ?thesis using n(3) lt by (simp add: k'_def)
    next
      case False
      then have "m' \<in> set ms" using m' by simp
      then have "blocked ?g1 m'" using k same lt by (simp add: crossed_def)
      then show ?thesis
        by (rule blocked_mono [OF _ fr2]) (use n(2) in \<open>auto simp: moved_def Let_def\<close>)
    qed
  qed
  then show ?case by auto
qed

text \<open>The snapshot, as the non-empty channels among all channels in the order of the four loops.\<close>

definition chan_keys :: "grid \<Rightarrow> (int \<times> int \<times> dir \<times> nat) list" where
  "chan_keys g = List.product [0..height g - 1] (List.product [0..width g - 1]
     (List.product all_dirs [0..<kNumRoutable]))"

definition entry_at :: "grid \<Rightarrow> int \<times> int \<times> dir \<times> nat \<Rightarrow> move" where
  "entry_at g q = (case q of (y, x, d, i) \<Rightarrow>
     \<lparr>m_x = x, m_y = y, m_d = d, m_color = of_nat i, m_count = length (out_vc (router_at g x y) d i)\<rparr>)"

definition entry_live :: "grid \<Rightarrow> int \<times> int \<times> dir \<times> nat \<Rightarrow> bool" where
  "entry_live g q = (case q of (y, x, d, i) \<Rightarrow> out_vc (router_at g x y) d i \<noteq> [])"

lemma concat_map_product:
  "concat (map (\<lambda>a. concat (map (\<lambda>b. f a b) ys)) xs) = concat (map (\<lambda>(a, b). f a b) (List.product xs ys))"
  by (induction xs) (simp_all add: comp_def)

lemma concat_map_filter: "concat (map (\<lambda>x. if P x then [f x] else []) xs) = map f (filter P xs)"
  by (induction xs) simp_all

lemma Routable_of_nat:
  "i < kNumRoutable \<Longrightarrow> the (Routable (of_nat i)) = \<lparr>color_id = of_nat i\<rparr> \<and>
     IsRoutable \<lparr>color_id = of_nat i\<rparr> \<and> unat (of_nat i :: u8) = i"
proof -
  assume i: "i < kNumRoutable"
  then have u: "unat (of_nat i :: u8) = i" "unat (of_nat i :: u32) = i"
    by (simp_all add: kNumRoutable_def unsigned_of_nat take_bit_nat_eq_self)
  have "(of_nat i :: u32) < 24" using i u by (simp add: word_less_nat_alt kNumRoutable_def)
  moreover have "(ucast (of_nat i :: u32) :: u8) = of_nat i"
  proof -
    have "unat (ucast (of_nat i :: u32) :: u8) = unat (of_nat i :: u8)"
      using i by (simp only: unsigned_ucast_eq u) (simp add: kNumRoutable_def take_bit_nat_eq_self)
    then show ?thesis by (rule unsigned_word_eqI)
  qed
  ultimately show ?thesis
    using i u by (simp add: Routable_def IsRoutable_cid kNumRoutable_def not_le)
qed

lemma moves_eq: "moves g = map (entry_at g) (filter (entry_live g) (chan_keys g))"
proof -
  have "moves g = concat (map (\<lambda>y. concat (map (\<lambda>x. concat (map (\<lambda>d. concat (map (\<lambda>i.
      if entry_live g (y, x, d, i) then [entry_at g (y, x, d, i)] else [])
      [0..<kNumRoutable])) all_dirs)) [0..width g - 1])) [0..height g - 1])"
    unfolding moves_def Let_def
    by (intro arg_cong [where f = concat] map_cong refl)
      (auto simp: OutputSize_def Routable_of_nat entry_live_def entry_at_def)
  also have "\<dots> = concat (map (\<lambda>q. if entry_live g q then [entry_at g q] else []) (chan_keys g))"
    unfolding concat_map_product chan_keys_def
    by (intro arg_cong [where f = concat] map_cong refl) auto
  finally show ?thesis by (simp add: concat_map_filter)
qed

lemma in_chan_keys: "(y, x, d, i) \<in> set (chan_keys g) \<longleftrightarrow>
    InBounds g x y \<and> d \<noteq> DirCount \<and> i < kNumRoutable"
  by (auto simp: chan_keys_def InBounds_def in_all_dirs)

lemma moves_entry_ok: "m \<in> set (moves g) \<Longrightarrow> entry_ok g m \<and> m_count m = length (entry_out g m)"
proof -
  assume "m \<in> set (moves g)"
  then obtain y x d i where q: "(y, x, d, i) \<in> set (chan_keys g)" "m = entry_at g (y, x, d, i)"
    by (auto simp: moves_eq)
  from q(1) have b: "InBounds g x y" "d \<noteq> DirCount" "i < kNumRoutable" by (simp_all add: in_chan_keys)
  then have "(of_nat i :: u8) < of_nat kNumRoutable"
    using Routable_of_nat [of i] by (simp add: word_less_nat_alt kNumRoutable_def)
  with b Routable_of_nat [of i] show ?thesis
    by (simp add: q(2) entry_at_def entry_ok_def vc_out_def router_at_def)
qed

lemma moves_distinct: "distinct (map (mkey g) (moves g))"
proof -
  have "distinct (chan_keys g)"
    by (simp add: chan_keys_def distinct_product)
  moreover have "inj_on (mkey g \<circ> entry_at g) (set (chan_keys g))"
  proof (rule inj_onI)
    fix q q' assume q: "q \<in> set (chan_keys g)" "q' \<in> set (chan_keys g)"
      "(mkey g \<circ> entry_at g) q = (mkey g \<circ> entry_at g) q'"
    obtain y x d i y' x' d' i' where e: "q = (y, x, d, i)" "q' = (y', x', d', i')"
      by (cases q; cases q') auto
    from q show "q = q'"
      using Index_inject [of g x y x' y'] Routable_of_nat [of i] Routable_of_nat [of i']
      by (auto simp: e in_chan_keys mkey_def entry_at_def)
  qed
  ultimately show ?thesis
    unfolding moves_eq map_map by (simp add: distinct_map inj_on_subset)
qed

lemma moves_complete:
  "InBounds g x y \<Longrightarrow> d \<noteq> DirCount \<Longrightarrow> i < kNumRoutable \<Longrightarrow> vc_out g (Index g x y) d i \<noteq> [] \<Longrightarrow>
     \<exists>m \<in> set (moves g). m_x m = x \<and> m_y m = y \<and> m_d m = d \<and> unat (m_color m) = i"
proof -
  assume a: "InBounds g x y" "d \<noteq> DirCount" "i < kNumRoutable" "vc_out g (Index g x y) d i \<noteq> []"
  then have "(y, x, d, i) \<in> set (filter (entry_live g) (chan_keys g))"
    by (simp add: in_chan_keys entry_live_def vc_out_def router_at_def)
  then have "entry_at g (y, x, d, i) \<in> set (moves g)" unfolding moves_eq by (simp only: set_map image_eqI)
  then show ?thesis
    using a(3) by (intro bexI [of _ "entry_at g (y, x, d, i)"]) (simp_all add: entry_at_def Routable_of_nat)
qed

lemma hop_phase_crossed: "dims_ok g \<Longrightarrow> \<exists>k. crossed k g (moves g) (hop_phase g)"
  unfolding hop_phase_def
  by (intro hops_crossed) (use moves_entry_ok moves_distinct in auto)

section \<open>Conservation\<close>

text \<open>The wavelets of one color that are somewhere in the fabric.\<close>

definition color_wavelets :: "grid \<Rightarrow> nat \<Rightarrow> wavelet multiset" where
  "color_wavelets g i =
     (\<Sum>p<length (pes g). mset (vc_in g p i) + (\<Sum>d\<in>set all_dirs. mset (vc_out g p d i)))"

lemma hop_target_lt:
  "dims_ok g \<Longrightarrow> InBounds g x y \<Longrightarrow> hop_target g x y d = Some t \<Longrightarrow> t < length (pes g)"
  by (auto simp: hop_target_def Index_lt dest: Neighbor_InBounds split: if_splits option.splits)

lemma moved_conserves:
  assumes m: "moved k m g g'" and g: "dims_ok g" "entry_ok g m"
  shows "color_wavelets g i = color_wavelets g' i +
    (if hop_target g (m_x m) (m_y m) (m_d m) = None \<and> i = unat (m_color m)
     then mset (take k (entry_out g m)) else {#})"
proof -
  let ?s = "Index g (m_x m) (m_y m)" and ?t = "hop_target g (m_x m) (m_y m) (m_d m)"
    and ?j = "unat (m_color m)"
  define T where "T = (if i = ?j then mset (take k (entry_out g m)) else {#})"
  have len: "length (pes g') = length (pes g)" using m by (simp add: moved_def Let_def frame_eq_def)
  have s: "?s < length (pes g)" using g by (simp add: Index_lt entry_ok_def)
  have d: "m_d m \<in> set all_dirs" using g(2) by (simp add: entry_ok_def in_all_dirs)
  have "mset (entry_out g m) = mset (take k (entry_out g m)) + mset (drop k (entry_out g m))"
    by (simp flip: mset_append)
  then have out: "mset (vc_out g p d i) = mset (vc_out g' p d i) +
      (if d = m_d m then (if p = ?s then T else {#}) else {#})" for p d
    using m by (auto simp: moved_def Let_def T_def add.commute)
  have inp: "mset (vc_in g' p i) = mset (vc_in g p i) + (if ?t = Some p then T else {#})" for p
    using m by (auto simp: moved_def Let_def T_def)
  have "color_wavelets g i =
      (\<Sum>p<length (pes g). mset (vc_in g p i) + ((\<Sum>d\<in>set all_dirs. mset (vc_out g' p d i)) +
        (if p = ?s then T else {#})))"
    unfolding color_wavelets_def out by (simp add: sum.distrib d)
  also have "\<dots> = (\<Sum>p<length (pes g). mset (vc_in g p i) + (\<Sum>d\<in>set all_dirs. mset (vc_out g' p d i))) + T"
    using s by (simp add: sum.distrib)
  finally have src: "color_wavelets g i =
      (\<Sum>p<length (pes g). mset (vc_in g p i) + (\<Sum>d\<in>set all_dirs. mset (vc_out g' p d i))) + T" .
  have dst: "color_wavelets g' i =
      (\<Sum>p<length (pes g). mset (vc_in g p i) + (\<Sum>d\<in>set all_dirs. mset (vc_out g' p d i))) +
      (if ?t = None then {#} else T)"
  proof (cases ?t)
    case None
    then show ?thesis unfolding color_wavelets_def inp len by simp
  next
    case (Some t)
    then have "t < length (pes g)" using hop_target_lt [OF g(1) _ Some] g(2) by (simp add: entry_ok_def)
    with Some show ?thesis
      unfolding color_wavelets_def inp len by (simp add: sum.distrib ac_simps eq_commute [of t])
  qed
  show ?thesis
    by (cases ?t) (simp_all add: src dst T_def)
qed

lemma hops_conserve:
  "dims_ok g \<Longrightarrow> \<forall>m \<in> set ms. entry_ok g m \<Longrightarrow>
     \<exists>D. (\<forall>i. color_wavelets g i = color_wavelets (foldl (\<lambda>g m. hop (m_count m) m g) g ms) i + D i) \<and>
       dropped (foldl (\<lambda>g m. hop (m_count m) m g) g ms) = dropped g + (\<Sum>i<kNumRoutable. size (D i))"
proof (induction ms arbitrary: g)
  case Nil
  show ?case by (intro exI [of _ "\<lambda>_. {#}"]) simp
next
  case (Cons m ms)
  let ?g1 = "hop (m_count m) m g"
  from Cons.prems have ok: "dims_ok g" "entry_ok g m" by simp_all
  from hop_moved [OF this, of "m_count m"] obtain k where k: "moved k m g ?g1" by blast
  have fr: "frame_eq g ?g1" using k by (simp add: moved_def Let_def)
  note v = frame_eq_views [OF fr]
  have "dims_ok ?g1" "\<forall>m \<in> set ms. entry_ok ?g1 m" using Cons.prems v by (simp_all add: entry_ok_def)
  from Cons.IH [OF this] obtain D where D:
    "\<forall>i. color_wavelets ?g1 i = color_wavelets (foldl (\<lambda>g m. hop (m_count m) m g) ?g1 ms) i + D i"
    "dropped (foldl (\<lambda>g m. hop (m_count m) m g) ?g1 ms) = dropped ?g1 + (\<Sum>i<kNumRoutable. size (D i))"
    by blast
  define E where "E i = (if hop_target g (m_x m) (m_y m) (m_d m) = None \<and> i = unat (m_color m)
     then mset (take k (entry_out g m)) else {#})" for i
  have E: "color_wavelets g i = color_wavelets ?g1 i + E i" for i
    unfolding E_def by (rule moved_conserves [OF k ok])
  have j: "unat (m_color m) < kNumRoutable"
    using ok(2) by (simp add: entry_ok_def word_less_nat_alt kNumRoutable_def)
  have "(\<Sum>i<kNumRoutable. size (E i)) = (if hop_target g (m_x m) (m_y m) (m_d m) = None then k else 0)"
  proof -
    have "size (E i) = (if i = unat (m_color m)
        then (if hop_target g (m_x m) (m_y m) (m_d m) = None then k else 0) else 0)" for i
      using k by (auto simp: E_def moved_def Let_def)
    then show ?thesis using j by simp
  qed
  then have "dropped ?g1 = dropped g + (\<Sum>i<kNumRoutable. size (E i))"
    using k by (simp add: moved_def Let_def)
  with D E show ?case
    by (intro exI [of _ "\<lambda>i. D i + E i"]) (simp add: sum.distrib add.assoc)
qed

lemma hop_phase_conserves:
  "dims_ok g \<Longrightarrow> \<exists>D. (\<forall>i. color_wavelets g i = color_wavelets (hop_phase g) i + D i) \<and>
     dropped (hop_phase g) = dropped g + (\<Sum>i<kNumRoutable. size (D i))"
  unfolding hop_phase_def by (rule hops_conserve) (use moves_entry_ok in auto)

section \<open>The routing phase\<close>

lemma route_phase_simps [simp]:
  "width (route_phase g) = width g" "height (route_phase g) = height g" "dropped (route_phase g) = dropped g"
  "cycle (route_phase g) = cycle g" "length (pes (route_phase g)) = length (pes g)"
  "dims_ok (route_phase g) = dims_ok g"
  by (simp_all add: route_phase_def dims_ok_def)

lemma route_phase_view:
  assumes "p < length (pes g)"
  shows "chan_view (router_of (pes (route_phase g) ! p)) i =
      (if i < kNumRoutable \<and> forwards (router_of (pes g ! p)) i
       then fwd_chan (tx_dirs (router_of (pes g ! p)) i) (chan_view (router_of (pes g ! p)) i)
       else chan_view (router_of (pes g ! p)) i)"
    and "config (router_of (pes (route_phase g) ! p)) = config (router_of (pes g ! p))"
    and "has_config (router_of (pes (route_phase g) ! p)) = has_config (router_of (pes g ! p))"
  using assms ApplyForwarding_view [OF prod.collapse [symmetric], of "router_of (pes g ! p)"]
  by (simp_all add: route_phase_def)

text \<open>Forwarding leaves one copy of a wavelet at every port of its color's route.\<close>

lemma sum_copies: "finite S \<Longrightarrow> (\<Sum>x\<in>S. M) = repeat_mset (card S) (M :: 'a multiset)"
  by (induction rule: finite_induct) simp_all

lemma fwd_chan_copies:
  assumes "fwd_chan ds (ins, outs) = (ins', outs')" and "set ds \<subseteq> set all_dirs" "distinct ds"
  shows "\<exists>w. ins = w @ ins' \<and> mset ins' + (\<Sum>e\<in>set all_dirs. mset (outs' e)) + mset w =
    mset ins + (\<Sum>e\<in>set all_dirs. mset (outs e)) + repeat_mset (length ds) (mset w)"
proof -
  from fwd_chan_moves [OF assms(1)] obtain w where
    w: "ins = w @ ins'" "\<forall>e. outs' e = outs e @ (if e \<in> set ds then w else [])" by blast
  have "(\<Sum>e\<in>set all_dirs. mset (outs' e)) =
      (\<Sum>e\<in>set all_dirs. mset (outs e)) + (\<Sum>e\<in>set all_dirs. if e \<in> set ds then mset w else {#})"
    using w(2) by (simp add: sum.distrib [symmetric]) (intro sum.cong, auto)
  also have "(\<Sum>e\<in>set all_dirs. if e \<in> set ds then mset w else {#}) = (\<Sum>e\<in>set ds. mset w)"
    using assms(2) by (intro sum.mono_neutral_cong_right) auto
  also have "\<dots> = repeat_mset (length ds) (mset w)"
    using assms(3) by (simp add: sum_copies distinct_card)
  finally show ?thesis using w(1) by (intro exI [of _ w]) (simp add: ac_simps)
qed

text \<open>The wavelets of a color that the routing phase takes from an element's input channel, and the number of
  ports it copies each of them to.\<close>

definition forwarded :: "grid \<Rightarrow> nat \<Rightarrow> nat \<Rightarrow> wavelet list" where
  "forwarded g p i = take (length (vc_in g p i) - length (vc_in (route_phase g) p i)) (vc_in g p i)"

definition fanout :: "grid \<Rightarrow> nat \<Rightarrow> nat \<Rightarrow> nat" where
  "fanout g p i = length (tx_dirs (router_of (pes g ! p)) i)"

lemma route_phase_element:
  assumes p: "p < length (pes g)" and i: "i < kNumRoutable"
  shows "vc_in g p i = forwarded g p i @ vc_in (route_phase g) p i"
    and "forwarded g p i \<noteq> [] \<Longrightarrow> forwards (router_of (pes g ! p)) i"
    and "mset (vc_in (route_phase g) p i) + (\<Sum>d\<in>set all_dirs. mset (vc_out (route_phase g) p d i)) + mset (forwarded g p i) =
      mset (vc_in g p i) + (\<Sum>d\<in>set all_dirs. mset (vc_out g p d i)) + repeat_mset (fanout g p i) (mset (forwarded g p i))"
proof -
  have "\<exists>w. vc_in g p i = w @ vc_in (route_phase g) p i \<and> (w \<noteq> [] \<longrightarrow> forwards (router_of (pes g ! p)) i) \<and>
    mset (vc_in (route_phase g) p i) + (\<Sum>d\<in>set all_dirs. mset (vc_out (route_phase g) p d i)) + mset w =
      mset (vc_in g p i) + (\<Sum>d\<in>set all_dirs. mset (vc_out g p d i)) + repeat_mset (fanout g p i) (mset w)"
  proof (cases "forwards (router_of (pes g ! p)) i")
    case True
    let ?ds = "tx_dirs (router_of (pes g ! p)) i"
    have "fwd_chan ?ds (vc_in g p i, \<lambda>d. vc_out g p d i) = (vc_in (route_phase g) p i, \<lambda>d. vc_out (route_phase g) p d i)"
      using route_phase_view(1) [OF p, of i] True i by (simp add: chan_view_def vc_in_def vc_out_def)
    moreover have "set ?ds \<subseteq> set all_dirs" "distinct ?ds" by (auto simp: tx_dirs_def ForEachDir_def all_dirs_def)
    ultimately show ?thesis using fwd_chan_copies True unfolding fanout_def by blast
  next
    case False
    then have "chan_view (router_of (pes (route_phase g) ! p)) i = chan_view (router_of (pes g ! p)) i"
      using route_phase_view(1) [OF p, of i] by simp
    then show ?thesis by (intro exI [of _ "[]"]) (simp add: chan_view_def vc_in_def vc_out_def fun_eq_iff)
  qed
  then obtain w where w: "vc_in g p i = w @ vc_in (route_phase g) p i" "w \<noteq> [] \<longrightarrow> forwards (router_of (pes g ! p)) i"
    "mset (vc_in (route_phase g) p i) + (\<Sum>d\<in>set all_dirs. mset (vc_out (route_phase g) p d i)) + mset w =
      mset (vc_in g p i) + (\<Sum>d\<in>set all_dirs. mset (vc_out g p d i)) + repeat_mset (fanout g p i) (mset w)" by blast
  have f: "forwarded g p i = w" unfolding forwarded_def by (subst (2) w(1)) (simp add: w(1))
  show "vc_in g p i = forwarded g p i @ vc_in (route_phase g) p i" unfolding f by (rule w(1))
  show "forwarded g p i \<noteq> [] \<Longrightarrow> forwards (router_of (pes g ! p)) i" unfolding f using w(2) by blast
  show "mset (vc_in (route_phase g) p i) + (\<Sum>d\<in>set all_dirs. mset (vc_out (route_phase g) p d i)) + mset (forwarded g p i) =
      mset (vc_in g p i) + (\<Sum>d\<in>set all_dirs. mset (vc_out g p d i)) + repeat_mset (fanout g p i) (mset (forwarded g p i))"
    unfolding f by (rule w(3))
qed

lemma route_phase_copies:
  assumes "i < kNumRoutable"
  shows "color_wavelets (route_phase g) i + (\<Sum>p<length (pes g). mset (forwarded g p i)) =
    color_wavelets g i + (\<Sum>p<length (pes g). repeat_mset (fanout g p i) (mset (forwarded g p i)))"
  unfolding color_wavelets_def route_phase_simps sum.distrib [symmetric]
  using route_phase_element(3) [OF _ assms] by (intro sum.cong) simp_all

lemma Step_views [simp]:
  "color_wavelets (Step g) i = color_wavelets (hop_phase (route_phase g)) i"
  "dropped (Step g) = dropped (hop_phase (route_phase g))"
  "pes (Step g) = pes (hop_phase (route_phase g))"
  "width (Step g) = width (hop_phase (route_phase g))" "height (Step g) = height (hop_phase (route_phase g))"
  by (simp_all add: Step_def Let_def color_wavelets_def vc_in_def vc_out_def)

section \<open>The grid invariant\<close>

lemma grid_ok_set_router [inv_intros]: "grid_ok g \<Longrightarrow> router_ok r \<Longrightarrow> grid_ok (set_router x y r g)"
  by (simp add: grid_ok_def set_router_def dims_ok_def list_all_update)

lemma grid_ok_router_at [inv_intros]: "grid_ok g \<Longrightarrow> InBounds g x y \<Longrightarrow> router_ok (router_at g x y)"
  using Index_lt [of g x y] by (simp add: grid_ok_def router_at_def list_all_length)

lemma grid_ok_dropped [simp]: "grid_ok (g\<lparr>dropped := n\<rparr>) = grid_ok g" "grid_ok (g\<lparr>cycle := n\<rparr>) = grid_ok g"
  by (simp_all add: grid_ok_def dims_ok_def)

lemma grid_ok_Inject [inv_intros]: "grid_ok g \<Longrightarrow> grid_ok (snd (Inject x y c dirs w g))"
  using router_ok_Tx [of "router_at g x y" c dirs w] grid_ok_router_at [of g x y]
  by (auto simp: Inject_def split: prod.split intro!: grid_ok_set_router)

lemma grid_ok_SetRoute [inv_intros]: "grid_ok g \<Longrightarrow> grid_ok (snd (SetRoute x y c rx tx g))"
  using router_ok_SetColorConfig [of "router_at g x y" "\<lparr>cfg_color = c, cfg_rx = rx, cfg_tx = tx\<rparr>"]
    grid_ok_router_at [of g x y]
  by (auto simp: SetRoute_def split: prod.split intro!: grid_ok_set_router)

lemma grid_ok_route_phase [inv_intros]: "grid_ok g \<Longrightarrow> grid_ok (route_phase g)"
  by (auto simp: grid_ok_def route_phase_def dims_ok_def list_all_iff intro!: inv_intros)

lemma router_at_set_router:
  "grid_ok g \<Longrightarrow> router_ok r \<Longrightarrow> InBounds g x' y' \<Longrightarrow> router_ok (router_at (set_router x y r g) x' y')"
  by (intro inv_intros) simp_all

lemma grid_ok_hop: "grid_ok g \<Longrightarrow> InBounds g (m_x m) (m_y m) \<Longrightarrow>
    grid_ok (hop n m g) \<and> width (hop n m g) = width g \<and> height (hop n m g) = height g"
proof (induction n m g rule: hop.induct)
  case (2 n m g)
  let ?c = "the (Routable (ucast (m_color m)))"
  let ?src = "router_at g (m_x m) (m_y m)"
  have src: "router_ok ?src" using 2(4,5) by (intro inv_intros)
  have ramp: "grid_ok (set_router (m_x m) (m_y m) (snd (PopOutput (m_d m) ?c src')) g)"
    if "Rx Ramp ?c w ?src = (acc, src')" for w acc src'
    using router_ok_Rx [OF src, of Ramp ?c w] 2(4,5) that by (intro inv_intros) simp_all
  have drop: "grid_ok (set_router (m_x m) (m_y m) (snd (PopOutput (m_d m) ?c ?src)) g)"
    using 2(4,5) by (intro inv_intros)
  have link: "grid_ok (set_router (m_x m) (m_y m) (snd (PopOutput (m_d m) ?c
      (router_at (set_router nx ny dst g) (m_x m) (m_y m)))) (set_router nx ny dst g))"
    if "Neighbor g (m_x m) (m_y m) (m_d m) = Some (nx, ny)" "Rx (m_d m) ?c w (router_at g nx ny) = (acc, dst)"
    for nx ny w acc dst
  proof -
    have "router_ok (router_at g nx ny)" using 2(4) Neighbor_InBounds [OF that(1)] by (intro inv_intros) simp_all
    then have "router_ok dst" using router_ok_Rx [of "router_at g nx ny" "m_d m" ?c w] that(2) by simp
    with 2(4,5) show ?thesis by (intro inv_intros router_at_set_router) simp_all
  qed
  show ?case
    using 2 ramp drop link
    by (auto simp: Let_def split: option.splits prod.splits)
qed simp

lemma grid_ok_hop_phase [inv_intros]: "grid_ok g \<Longrightarrow> grid_ok (hop_phase g)"
proof -
  assume g: "grid_ok g"
  let ?P = "\<lambda>h. grid_ok h \<and> width h = width g \<and> height h = height g"
  have "?P (foldl (\<lambda>g m. hop (m_count m) m g) g (moves g))"
  proof (rule foldl_invariant [where P = ?P])
    fix h m assume m: "m \<in> set (moves g)" and h: "?P h"
    have "InBounds h (m_x m) (m_y m)"
      using moves_entry_ok [OF m] h by (simp add: entry_ok_def InBounds_def)
    with h grid_ok_hop [of h m "m_count m"] show "?P (hop (m_count m) m h)" by simp
  qed (simp add: g)
  then show ?thesis by (simp add: hop_phase_def)
qed

lemma grid_ok_Step [inv_intros]: "grid_ok g \<Longrightarrow> grid_ok (Step g)"
  unfolding Step_def Let_def by (simp add: inv_intros)

section \<open>A lone wavelet\<close>

text \<open>\<open>only_in g p i w\<close>: the one wavelet of the fabric is in the input channel \<open>i\<close> of element \<open>p\<close>.\<close>

definition only_in :: "grid \<Rightarrow> nat \<Rightarrow> nat \<Rightarrow> wavelet \<Rightarrow> bool" where
  "only_in g p i w \<longleftrightarrow> (\<forall>q < length (pes g). \<forall>j < kNumRoutable.
     (\<forall>d. d \<noteq> DirCount \<longrightarrow> vc_out g q d j = []) \<and> vc_in g q j = (if q = p \<and> j = i then [w] else []))"

text \<open>The configured path: at each element the color is forwarded to exactly the next direction.\<close>

fun routed :: "grid \<Rightarrow> nat \<Rightarrow> int \<Rightarrow> int \<Rightarrow> dir list \<Rightarrow> bool" where
  "routed g i x y [] \<longleftrightarrow> InBounds g x y"
| "routed g i x y (d # ds) \<longleftrightarrow> InBounds g x y \<and> forwards (router_at g x y) i \<and>
     tx_dirs (router_at g x y) i = [d] \<and> d \<noteq> Ramp \<and>
     (case Neighbor g x y d of None \<Rightarrow> False | Some (nx, ny) \<Rightarrow> routed g i nx ny ds)"

fun path_end :: "grid \<Rightarrow> int \<Rightarrow> int \<Rightarrow> dir list \<Rightarrow> int \<times> int" where
  "path_end g x y [] = (x, y)"
| "path_end g x y (d # ds) =
     (case Neighbor g x y d of None \<Rightarrow> (x, y) | Some (nx, ny) \<Rightarrow> path_end g nx ny ds)"

definition same_conf :: "grid \<Rightarrow> grid \<Rightarrow> bool" where
  "same_conf g g' \<longleftrightarrow> width g' = width g \<and> height g' = height g \<and> length (pes g') = length (pes g) \<and>
     (\<forall>p < length (pes g). config (router_of (pes g' ! p)) = config (router_of (pes g ! p)) \<and>
       has_config (router_of (pes g' ! p)) = has_config (router_of (pes g ! p)))"

lemma same_conf_views: "same_conf g g' \<Longrightarrow> Index g' = Index g \<and> InBounds g' = InBounds g \<and>
    Neighbor g' = Neighbor g \<and> dims_ok g' = dims_ok g"
proof -
  assume f: "same_conf g g'"
  then have "Index g' = Index g" and b: "InBounds g' = InBounds g"
    by (simp_all add: same_conf_def Index_def InBounds_def fun_eq_iff)
  moreover from b have "Neighbor g' = Neighbor g" by (simp add: Neighbor_def fun_eq_iff)
  ultimately show ?thesis using f by (simp add: same_conf_def dims_ok_def)
qed

lemma same_conf_Step: "dims_ok g \<Longrightarrow> same_conf g (Step g)"
proof -
  assume "dims_ok g"
  then have "dims_ok (route_phase g)" by simp
  from hop_phase_crossed [OF this] have "frame_eq (route_phase g) (hop_phase (route_phase g))"
    by (auto simp: crossed_def)
  then show ?thesis
    using route_phase_view(2,3) [of _ g] by (simp add: same_conf_def frame_eq_def)
qed

lemma routed_same_conf:
  "same_conf g g' \<Longrightarrow> dims_ok g \<Longrightarrow>
     routed g' i x y ds = routed g i x y ds \<and> path_end g' x y ds = path_end g x y ds"
proof (induction ds arbitrary: x y)
  case Nil
  then show ?case using same_conf_views by simp
next
  case (Cons d ds)
  note v = same_conf_views [OF Cons.prems(1)]
  have "forwards (router_at g' x y) i = forwards (router_at g x y) i \<and>
      tx_dirs (router_at g' x y) i = tx_dirs (router_at g x y) i" if "InBounds g x y"
    using Cons.prems v Index_lt [OF Cons.prems(2) that]
    by (simp add: same_conf_def forwards_def tx_dirs_def router_at_def)
  with v Cons.IH [OF Cons.prems] show ?case by (auto split: option.splits)
qed

text \<open>The state between the phases: the one wavelet sits in an output channel.\<close>

lemma route_phase_lone:
  assumes g: "only_in g p i w" "p < length (pes g)" "i < kNumRoutable"
    and f: "forwards (router_of (pes g ! p)) i" "tx_dirs (router_of (pes g ! p)) i = [d]"
    and q: "q < length (pes g)" "j < kNumRoutable" "e \<noteq> DirCount"
  shows "vc_in (route_phase g) q j = []"
    and "vc_out (route_phase g) q e j = (if q = p \<and> j = i \<and> e = d then [w] else [])"
proof -
  have out: "vc_out g q e j = []" and inp: "vc_in g q j = (if q = p \<and> j = i then [w] else [])"
    using g(1) q by (auto simp: only_in_def)
  have v: "(vc_in (route_phase g) q j, \<lambda>e. vc_out (route_phase g) q e j) =
      (if forwards (router_of (pes g ! q)) j
       then fwd_chan (tx_dirs (router_of (pes g ! q)) j) (vc_in g q j, \<lambda>e. vc_out g q e j)
       else (vc_in g q j, \<lambda>e. vc_out g q e j))"
    using route_phase_view(1) [OF q(1), of j] q(2) by (simp add: chan_view_def vc_in_def vc_out_def)
  have d: "d \<noteq> DirCount"
  proof -
    have "d \<in> set (ForEachDir (cfg_tx (config (router_of (pes g ! p)) i)))"
      using f(2) by (simp add: tx_dirs_def)
    then show ?thesis by (simp add: in_ForEachDir)
  qed
  have "vc_in (route_phase g) q j = [] \<and>
    vc_out (route_phase g) q e j = (if q = p \<and> j = i \<and> e = d then [w] else [])"
  proof (cases "q = p \<and> j = i")
    case True
    have "vc_out g q d j = []" using g(1) q d by (simp add: only_in_def)
    with True v f inp have "(vc_in (route_phase g) q j, \<lambda>e. vc_out (route_phase g) q e j) =
        ([], add_to [d] w (\<lambda>e. vc_out g q e j))" by (simp add: kVcDepth_def)
    then have "vc_in (route_phase g) q j = []"
      "(\<lambda>e. vc_out (route_phase g) q e j) = add_to [d] w (\<lambda>e. vc_out g q e j)" by simp_all
    from this(1) fun_cong [OF this(2), of e] show ?thesis using True out by (cases "e = d") (simp_all add: add_to_def)
  next
    case False
    then have "vc_in g q j = []" using inp by simp
    with v have "(vc_in (route_phase g) q j, \<lambda>e. vc_out (route_phase g) q e j) = ([], \<lambda>e. vc_out g q e j)"
      by simp
    then have "vc_in (route_phase g) q j = []" "(\<lambda>e. vc_out (route_phase g) q e j) = (\<lambda>e. vc_out g q e j)"
      by simp_all
    from this(1) fun_cong [OF this(2), of e] out False show ?thesis by auto
  qed
  then show "vc_in (route_phase g) q j = []"
    and "vc_out (route_phase g) q e j = (if q = p \<and> j = i \<and> e = d then [w] else [])" by simp_all
qed

lemma moves_lone:
  assumes b: "InBounds h x y" "d \<noteq> DirCount" "i < kNumRoutable" and h: "dims_ok h"
    and out: "\<And>q e j. q < length (pes h) \<Longrightarrow> j < kNumRoutable \<Longrightarrow> e \<noteq> DirCount \<Longrightarrow>
      vc_out h q e j = (if q = Index h x y \<and> j = i \<and> e = d then [w] else [])"
  shows "\<exists>m. moves h = [m] \<and> m_x m = x \<and> m_y m = y \<and> m_d m = d \<and> unat (m_color m) = i \<and> m_count m = 1 \<and>
    entry_ok h m"
proof -
  have "vc_out h (Index h x y) d i \<noteq> []" using out [of "Index h x y" i d] b Index_lt [OF h b(1)] by simp
  from moves_complete [OF b this] obtain m where m: "m \<in> set (moves h)" "m_x m = x" "m_y m = y" "m_d m = d"
    "unat (m_color m) = i" by blast
  have only: "mkey h m' = mkey h m" if m': "m' \<in> set (moves h)" for m'
  proof -
    from m' obtain z u e j where k: "(z, u, e, j) \<in> set (chan_keys h)" "entry_live h (z, u, e, j)"
      "m' = entry_at h (z, u, e, j)" by (auto simp: moves_eq)
    then have c: "InBounds h u z" "e \<noteq> DirCount" "j < kNumRoutable" by (simp_all add: in_chan_keys)
    have "vc_out h (Index h u z) e j \<noteq> []" using k(2) by (simp add: entry_live_def vc_out_def router_at_def)
    then have "Index h u z = Index h x y \<and> j = i \<and> e = d"
      using out [of "Index h u z" j e] c Index_lt [OF h c(1)] by (auto split: if_splits)
    then show ?thesis using m k(3) c Routable_of_nat [of j] by (simp add: mkey_def entry_at_def)
  qed
  have "moves h = [m]"
  proof -
    have "set (map (mkey h) (moves h)) = {mkey h m}" unfolding set_map using m(1) only by blast
    then have "length (moves h) = 1"
      using moves_distinct [of h] distinct_card [of "map (mkey h) (moves h)"] by simp
    with m(1) show ?thesis by (cases "moves h") auto
  qed
  moreover have "m_count m = 1 \<and> entry_ok h m"
    using moves_entry_ok [OF m(1)] out [of "Index h x y" i d] m b Index_lt [OF h b(1)] by simp
  ultimately show ?thesis using m by blast
qed

lemma Step_lone:
  assumes ok: "dims_ok g" and g: "only_in g (Index g x y) i w" and i: "i < kNumRoutable" and b: "InBounds g x y"
    and f: "forwards (router_at g x y) i" "tx_dirs (router_at g x y) i = [d]" "d \<noteq> Ramp"
    and n: "Neighbor g x y d = Some (nx, ny)"
  shows "only_in (Step g) (Index g nx ny) i w \<and> dropped (Step g) = dropped g"
proof -
  let ?h = "route_phase g" and ?p = "Index g x y" and ?t = "Index g nx ny"
  have p: "?p < length (pes g)" by (rule Index_lt [OF ok b])
  have nb: "InBounds g nx ny" and t: "?t < length (pes g)"
    using Neighbor_InBounds [OF n] Index_lt [OF ok] by simp_all
  have views: "Index ?h = Index g" "InBounds ?h = InBounds g" "Neighbor ?h = Neighbor g"
    by (simp_all add: Index_def InBounds_def Neighbor_def fun_eq_iff)
  have d: "d \<noteq> DirCount" using n by (auto simp: Neighbor_def Let_def)
  note lone = route_phase_lone [OF g p i f(1,2) [unfolded router_at_def]]
  have "\<exists>m. moves ?h = [m] \<and> m_x m = x \<and> m_y m = y \<and> m_d m = d \<and> unat (m_color m) = i \<and> m_count m = 1 \<and>
      entry_ok ?h m"
    by (rule moves_lone) (use b d i ok lone(2) in \<open>simp_all add: views\<close>)
  then obtain m where m: "moves ?h = [m]" "m_x m = x" "m_y m = y" "m_d m = d" "unat (m_color m) = i"
    "m_count m = 1" "entry_ok ?h m" by blast
  have hp: "hop_phase ?h = hop 1 m ?h" by (simp add: hop_phase_def m)
  have tgt: "hop_target ?h x y d = Some ?t" using n f(3) by (simp add: hop_target_def views)
  have out': "vc_out ?h ?p d i = [w]" using lone(2) [of ?p i d] p i d by simp
  then have out: "entry_out ?h m = [w]" by (simp add: m views)
  have "dims_ok ?h" using ok by simp
  from hop_moved [OF this m(7), of 1] obtain k where k: "k \<le> 1" "moved k m ?h (hop_phase ?h)"
    "k < 1 \<longrightarrow> blocked (hop_phase ?h) m" by (auto simp: hp out)
  have len: "length (pes (hop_phase ?h)) = length (pes g)" using k(2) by (simp add: moved_def Let_def frame_eq_def)
  have inp: "vc_in (hop_phase ?h) q j = (if q = ?t \<and> j = i then take k [w] else [])"
    if "q < length (pes g)" "j < kNumRoutable" for q j
    using k(2) lone(1) [OF that, of Ramp] by (simp add: moved_def Let_def m tgt views out')
  have "k = 1"
  proof (rule ccontr)
    assume "k \<noteq> 1"
    with k(1,3) have "blocked (hop_phase ?h) m" "k = 0" by simp_all
    moreover have "hop_target (hop_phase ?h) x y d = Some ?t"
      using k(2) tgt frame_eq_views [of ?h "hop_phase ?h"] by (simp add: moved_def Let_def)
    ultimately show False using inp [OF t i] by (auto simp: blocked_def m kVcDepth_def)
  qed
  have "vc_out (hop_phase ?h) q e j = []" if "q < length (pes g)" "j < kNumRoutable" "e \<noteq> DirCount" for q e j
    using k(2) lone(2) [OF that] \<open>k = 1\<close> by (simp add: moved_def Let_def m tgt views out')
  moreover have "dropped (hop_phase ?h) = dropped g"
    using k(2) by (simp add: moved_def Let_def m tgt)
  ultimately show ?thesis
    using inp \<open>k = 1\<close> by (simp add: only_in_def len vc_in_def vc_out_def)
qed

lemma has_config_Tx: "has_config (snd (Tx c dirs w r)) = has_config r"
  by (simp add: Tx_def)

lemma has_config_new: "has_config new_router = (\<lambda>i. False)"
  by (simp add: new_router_def)

section \<open>Properties\<close>

text \<open>Everything a client can do to a grid.\<close>

inductive fabric_run :: "grid \<Rightarrow> grid \<Rightarrow> bool" where
  run_refl: "fabric_run g g"
| run_inject: "fabric_run g h \<Longrightarrow> fabric_run g (snd (Inject x y c dirs w h))"
| run_route: "fabric_run g h \<Longrightarrow> fabric_run g (snd (SetRoute x y c rx tx h))"
| run_take: "fabric_run g h \<Longrightarrow> InBounds h x y \<Longrightarrow>
    fabric_run g (set_router x y (snd (PopInput c (router_at h x y))) h)"
| run_step: "fabric_run g h \<Longrightarrow> fabric_run g (Step h)"

text \<open>C3. In every grid that injections, route configurations, deliveries and cycles can produce
  from a new grid, every channel of every element holds at most \<open>kVcDepth\<close> wavelets, and the grid
  keeps its elements.\<close>

theorem reachable_grids_bounded:
  assumes "new_grid w h = Some g" and "fabric_run g g'"
  shows "grid_ok g'"
  using assms(2,1)
proof induction
  case (run_refl g)
  then show ?case
    by (auto simp: new_grid_def grid_ok_def dims_ok_def list_all_iff new_pe_def router_ok_new split: if_splits)
qed (auto intro!: inv_intros)

theorem reachable_grids_bounded_witness:
  "grid_ok (Step (snd (Inject 0 0 \<lparr>color_id = 1\<rparr> (dir_mask_of East) (MakeWavelet 1 2) (the (new_grid 2 2)))))"
proof -
  have "new_grid 2 2 = Some (the (new_grid 2 2))" by (simp add: new_grid_def)
  then show ?thesis
    by (rule reachable_grids_bounded) (intro fabric_run.intros)
qed




text \<open>On a unicast grid nothing is copied.\<close>

definition unicast :: "grid \<Rightarrow> bool" where
  "unicast g \<longleftrightarrow> (\<forall>p < length (pes g). \<forall>i < kNumRoutable.
     forwards (router_of (pes g ! p)) i \<longrightarrow> fanout g p i = 1)"

lemma unicast_copies:
  assumes "unicast g" "i < kNumRoutable"
  shows "color_wavelets (route_phase g) i = color_wavelets g i"
proof -
  have "repeat_mset (fanout g p i) (mset (forwarded g p i)) = mset (forwarded g p i)" if "p < length (pes g)" for p
    using assms that route_phase_element(2) [OF that assms(2)] by (cases "forwarded g p i = []") (auto simp: unicast_def)
  then have "(\<Sum>p<length (pes g). repeat_mset (fanout g p i) (mset (forwarded g p i))) = (\<Sum>p<length (pes g). mset (forwarded g p i))"
    by (intro sum.cong) simp_all
  with route_phase_copies [OF assms(2), of g] show ?thesis by simp
qed

text \<open>A multicast route: the color 1 of the first element forwards to the ramp and to the east.\<close>

definition multicast_router :: router where
  "multicast_router = snd (Rx West \<lparr>color_id = 1\<rparr> (MakeWavelet 1 2)
     (snd (SetColorConfig \<lparr>cfg_color = \<lparr>color_id = 1\<rparr>, cfg_rx = West, cfg_tx = mask_from_bits 0x03\<rparr> new_router)))"

definition multicast_grid :: grid where
  "multicast_grid = \<lparr>width = 2, height = 1, pes = [new_pe\<lparr>router_of := multicast_router\<rparr>, new_pe], dropped = 0, cycle = 0\<rparr>"

lemma multicast_element:
  "forwarded multicast_grid 0 1 = [MakeWavelet 1 2]" "fanout multicast_grid 0 1 = 2" "forwarded multicast_grid 1 1 = []"
proof -
  have r: "forwards multicast_router 1" "tx_dirs multicast_router 1 = [Ramp, East]" "chan_view multicast_router 1 = ([MakeWavelet 1 2], \<lambda>d. [])"
    by (simp_all add: multicast_router_def forwards_def tx_dirs_def chan_view_def Rx_def SetColorConfig_def new_router_def
        IsRoutable_def kMaxRoutable_def kVcDepth_def mask_from_bits_def ForEachDir_def all_dirs_def)
  show "fanout multicast_grid 0 1 = 2" using r(2) by (simp add: fanout_def multicast_grid_def)
  have "chan_view (router_of (pes (route_phase multicast_grid) ! 0)) 1 = fwd_chan [Ramp, East] ([MakeWavelet 1 2], \<lambda>d. [])"
    using route_phase_view(1) [of 0 multicast_grid 1] r by (simp add: multicast_grid_def kNumRoutable_def)
  then have "vc_in (route_phase multicast_grid) 0 1 = []" by (simp add: chan_view_def vc_in_def kVcDepth_def)
  moreover have "vc_in multicast_grid 0 1 = [MakeWavelet 1 2]" using r(3) by (simp add: vc_in_def multicast_grid_def chan_view_def)
  ultimately show "forwarded multicast_grid 0 1 = [MakeWavelet 1 2]" by (simp add: forwarded_def)
  show "forwarded multicast_grid 1 1 = []" by (simp add: forwarded_def vc_in_def multicast_grid_def new_pe_def new_router_def)
qed


text \<open>C6. Delivery takes exactly one cycle per link: a lone wavelet whose color is routed along a
  path inside the mesh is, after as many cycles as the path has links, in the input channel at the
  path's end, alone, and nothing was dropped.\<close>

theorem lone_wavelet_delivered:
  assumes "dims_ok g" and "i < kNumRoutable" and "only_in g (Index g x y) i w" and "routed g i x y ds"
    and "path_end g x y ds = (x', y')"
  shows "only_in ((Step ^^ length ds) g) (Index g x' y') i w \<and> dropped ((Step ^^ length ds) g) = dropped g"
  using assms
proof (induction ds arbitrary: g x y)
  case (Cons d ds)
  then obtain nx ny where n: "Neighbor g x y d = Some (nx, ny)" "routed g i nx ny ds"
    by (auto split: option.splits)
  have one: "only_in (Step g) (Index g nx ny) i w" "dropped (Step g) = dropped g"
    using Step_lone [OF Cons.prems(1,3,2) _ _ _ _ n(1)] Cons.prems(4) by simp_all
  note sc = same_conf_Step [OF Cons.prems(1)]
  note v = same_conf_views [OF sc]
  have "only_in ((Step ^^ length ds) (Step g)) (Index (Step g) x' y') i w \<and>
      dropped ((Step ^^ length ds) (Step g)) = dropped (Step g)"
    by (rule Cons.IH [of _ nx ny])
      (use Cons.prems n one v routed_same_conf [OF sc Cons.prems(1)] in simp_all)
  then show ?case using one(2) v by (simp add: funpow_swap1)
qed simp

theorem lone_wavelet_delivered_witness:
  "let c = \<lparr>color_id = 2\<rparr>; w = MakeWavelet 3 4;
       g0 = snd (SetRoute 1 0 c West (dir_mask_of East) (snd (SetRoute 0 0 c Ramp (dir_mask_of East) (the (new_grid 3 1)))));
       g = set_router 0 0 (snd (Rx Ramp c w (router_at g0 0 0))) g0
   in only_in ((Step ^^ 2) g) (Index g 2 0) 2 w \<and> dropped ((Step ^^ 2) g) = dropped g"
proof -
  let ?c = "\<lparr>color_id = 2 :: u8\<rparr>" and ?w = "MakeWavelet 3 4"
  let ?g0 = "snd (SetRoute 1 0 ?c West (dir_mask_of East)
      (snd (SetRoute 0 0 ?c Ramp (dir_mask_of East) (the (new_grid 3 1)))))"
  let ?g = "set_router 0 0 (snd (Rx Ramp ?c ?w (router_at ?g0 0 0))) ?g0"
  have "only_in ((Step ^^ length [East, East]) ?g) (Index ?g 2 0) 2 ?w \<and>
      dropped ((Step ^^ length [East, East]) ?g) = dropped ?g"
  proof (rule lone_wavelet_delivered [where x = 0 and y = 0])
    show "dims_ok ?g" by (simp add: SetRoute_def new_grid_def dims_ok_def split: prod.split)
    have r: "IsRoutable ?c" "kVcDepth = 4" by (simp_all add: IsRoutable_def kMaxRoutable_def kVcDepth_def)
    show "routed ?g 2 0 0 [East, East]"
      by (simp add: r forwards_def tx_dirs_def Neighbor_def InBounds_def SetRoute_def SetColorConfig_def
          new_grid_def set_router_def router_at_def Index_def new_pe_def new_router_def Rx_def nth_list_update)
    show "only_in ?g (Index ?g 0 0) 2 ?w"
      by (simp add: r only_in_def vc_in_def vc_out_def InBounds_def SetRoute_def SetColorConfig_def
          new_grid_def set_router_def router_at_def Index_def new_pe_def new_router_def Rx_def nth_list_update)
  qed (simp_all add: kNumRoutable_def SetRoute_def new_grid_def Neighbor_def InBounds_def split: prod.split)
  then show ?thesis by (simp add: Let_def numeral_2_eq_2)
qed

end
