(* ===== verification/Tasks.thy ===== *)
theory Tasks
  imports Router
begin

text \<open>
  The dataflow tasks of one PE and their scheduler (\<open>Task.h\<close>, \<open>Task.cpp\<close>, \<open>TaskPicker.h\<close>,
  \<open>Scheduler.h\<close>, \<open>Scheduler.cpp\<close>). A handler is an arbitrary C++ function that receives its task;
  the model gives it the task's own fields, the router the scheduler is bound to and a state \<open>'e\<close>
  for whatever else it captures. Handlers that reach other tasks or replace a handler are not
  modelled.
\<close>

section \<open>Tasks\<close>

datatype task_kind = Data | Local | Control

fun TaskKindName :: "task_kind \<Rightarrow> string" where
  "TaskKindName Data = ''data''"
| "TaskKindName Local = ''local''"
| "TaskKindName Control = ''control''"

record task_core =
  t_id :: int
  t_kind :: task_kind
  t_inputs :: "color list"
  t_activated :: bool
  t_blocked :: bool
  t_fires :: nat
  t_last :: "wavelet list"

type_synonym 'e handler = "task_core \<Rightarrow> router \<Rightarrow> 'e \<Rightarrow> task_core \<times> router \<times> 'e"

record 'e task =
  core :: task_core
  handler :: "'e handler option"

definition new_task :: "int \<Rightarrow> task_kind \<Rightarrow> 'e task" where
  "new_task i k = \<lparr>core = \<lparr>t_id = i, t_kind = k, t_inputs = [], t_activated = False,
     t_blocked = False, t_fires = 0, t_last = []\<rparr>, handler = None\<rparr>"

definition AddInput :: "color \<Rightarrow> task_core \<Rightarrow> task_core" where
  "AddInput c t = t\<lparr>t_inputs := t_inputs t @ [c]\<rparr>"

definition ActivateTask :: "task_core \<Rightarrow> task_core" where
  "ActivateTask t = t\<lparr>t_activated := True\<rparr>"

definition BlockTask :: "task_core \<Rightarrow> task_core" where
  "BlockTask t = t\<lparr>t_blocked := True\<rparr>"

definition UnblockTask :: "task_core \<Rightarrow> task_core" where
  "UnblockTask t = t\<lparr>t_blocked := False\<rparr>"

definition IsEligible :: "task_core \<Rightarrow> bool" where
  "IsEligible t \<longleftrightarrow> t_activated t \<and> \<not> t_blocked t"

definition SetLastInputs :: "wavelet list \<Rightarrow> task_core \<Rightarrow> task_core" where
  "SetLastInputs ws t = t\<lparr>t_last := ws\<rparr>"

definition Fire :: "'e handler option \<Rightarrow> task_core \<Rightarrow> router \<Rightarrow> 'e \<Rightarrow> task_core \<times> router \<times> 'e" where
  "Fire h t r e =
     (let t' = t\<lparr>t_fires := t_fires t + 1\<rparr>
      in case h of None \<Rightarrow> (t', r, e) | Some f \<Rightarrow> f t' r e)"

section \<open>The task picker\<close>

definition IsRunnable :: "task_core \<Rightarrow> router \<Rightarrow> bool" where
  "IsRunnable t r =
     (if t_blocked t then False
      else if \<not> t_activated t then False
      else if t_kind t = Data then list_all (\<lambda>c. InputSize c r \<noteq> 0) (t_inputs t)
      else True)"

text \<open>The pointer \<open>Pick\<close> returns is the position of the task in the deque.\<close>

fun Pick :: "'e task list \<Rightarrow> router \<Rightarrow> nat option" where
  "Pick [] r = None"
| "Pick (t # ts) r = (if IsRunnable (core t) r then Some 0 else map_option Suc (Pick ts r))"

section \<open>The scheduler\<close>

record 'e sched =
  s_router :: router
  s_tasks :: "'e task list"
  s_env :: 'e

definition AddTask :: "'e task \<Rightarrow> 'e sched \<Rightarrow> int \<times> 'e sched" where
  "AddTask t s = (t_id (core t), s\<lparr>s_tasks := s_tasks s @ [t]\<rparr>)"

text \<open>\<open>GetTask\<close>: the first task with the identifier; its absence fails an assertion.\<close>

fun GetTask :: "int \<Rightarrow> 'e task list \<Rightarrow> nat option" where
  "GetTask i [] = None"
| "GetTask i (t # ts) = (if t_id (core t) = i then Some 0 else map_option Suc (GetTask i ts))"

definition on_task :: "(task_core \<Rightarrow> task_core) \<Rightarrow> int \<Rightarrow> 'e sched \<Rightarrow> 'e sched option" where
  "on_task f i s =
     (case GetTask i (s_tasks s) of
        None \<Rightarrow> None
      | Some n \<Rightarrow> let t = s_tasks s ! n
                  in Some (s\<lparr>s_tasks := (s_tasks s)[n := t\<lparr>core := f (core t)\<rparr>]\<rparr>))"

definition Activate :: "int \<Rightarrow> 'e sched \<Rightarrow> 'e sched option" where
  "Activate i s = on_task ActivateTask i s"

definition Block :: "int \<Rightarrow> 'e sched \<Rightarrow> 'e sched option" where
  "Block i s = on_task BlockTask i s"

definition Unblock :: "int \<Rightarrow> 'e sched \<Rightarrow> 'e sched option" where
  "Unblock i s = on_task UnblockTask i s"

text \<open>The operands of a data task: one wavelet popped from each bound color, in order.\<close>

fun pop_inputs :: "color list \<Rightarrow> router \<Rightarrow> wavelet list \<times> router" where
  "pop_inputs [] r = ([], r)"
| "pop_inputs (c # cs) r =
     (let (w, r1) = PopInput c r; (ws, r2) = pop_inputs cs r1
      in (case w of None \<Rightarrow> ws | Some v \<Rightarrow> v # ws, r2))"

definition sched_step :: "'e sched \<Rightarrow> int \<times> 'e sched" where
  "sched_step s =
     (case Pick (s_tasks s) (s_router s) of
        None \<Rightarrow> (- 1, s)
      | Some n \<Rightarrow>
          let t = s_tasks s ! n;
              (t', r) = (if t_kind (core t) = Data
                then (let (ws, r) = pop_inputs (t_inputs (core t)) (s_router s)
                      in (SetLastInputs ws (core t), r))
                else (core t, s_router s));
              (t'', r', e) = Fire (handler t) t' r (s_env s)
          in (t_id t'', \<lparr>s_router = r', s_tasks = (s_tasks s)[n := t\<lparr>core := t''\<rparr>], s_env = e\<rparr>))"

text \<open>The draining loop may not end: \<open>None\<close> is a call that never returns.\<close>

partial_function (option) RunToQuiescence :: "nat \<Rightarrow> 'e sched \<Rightarrow> (nat \<times> 'e sched) option" where
  "RunToQuiescence fired s =
     (case sched_step s of (r, s') \<Rightarrow>
        if r = - 1 then Some (fired, s') else RunToQuiescence (Suc fired) s')"

section \<open>Picking\<close>

lemma Pick_None: "Pick ts r = None \<longleftrightarrow> (\<forall>t \<in> set ts. \<not> IsRunnable (core t) r)"
  by (induction ts) auto

lemma Pick_Some: "Pick ts r = Some n \<longleftrightarrow>
    n < length ts \<and> IsRunnable (core (ts ! n)) r \<and> (\<forall>k < n. \<not> IsRunnable (core (ts ! k)) r)"
proof (induction ts arbitrary: n)
  case (Cons t ts)
  show ?case
  proof (cases n)
    case 0
    then show ?thesis by auto
  next
    case (Suc k)
    with Cons.IH [of k] show ?thesis by (auto simp: All_less_Suc2)
  qed
qed simp

lemma GetTask_Some: "GetTask i ts = Some n \<Longrightarrow> n < length ts \<and> t_id (core (ts ! n)) = i"
  by (induction ts arbitrary: n) (auto split: if_splits)

section \<open>Consuming operands\<close>

lemma PopInput_simps [simp]:
  "out_vc (snd (PopInput c r)) = out_vc r" "config (snd (PopInput c r)) = config r"
  "has_config (snd (PopInput c r)) = has_config r"
  by (simp_all add: PopInput_def split: list.splits)

lemma PopInput_nonempty:
  "IsRoutable c \<Longrightarrow> in_vc r (cid c) = w # ws \<Longrightarrow>
     PopInput c r = (Some w, r\<lparr>in_vc := (in_vc r)(cid c := ws)\<rparr>)"
  by (simp add: PopInput_def)

lemma runnable_inputs:
  "IsRunnable t r \<Longrightarrow> t_kind t = Data \<Longrightarrow> c \<in> set (t_inputs t) \<Longrightarrow>
     IsRoutable c \<and> in_vc r (cid c) \<noteq> []"
  by (auto simp: IsRunnable_def list_all_iff InputSize_def split: if_splits)

lemma pop_inputs_distinct:
  "distinct cs \<Longrightarrow> \<forall>c \<in> set cs. IsRoutable c \<and> in_vc r (cid c) \<noteq> [] \<Longrightarrow>
     pop_inputs cs r = (map (\<lambda>c. hd (in_vc r (cid c))) cs,
       r\<lparr>in_vc := \<lambda>i. if \<exists>c \<in> set cs. cid c = i then tl (in_vc r i) else in_vc r i\<rparr>)"
proof (induction cs arbitrary: r)
  case (Cons c cs)
  then obtain w ws where c: "IsRoutable c" "in_vc r (cid c) = w # ws"
    by (cases "in_vc r (cid c)") auto
  let ?r = "r\<lparr>in_vc := (in_vc r)(cid c := ws)\<rparr>"
  have p: "PopInput c r = (Some w, ?r)" by (rule PopInput_nonempty [OF c])
  have ne: "cid c' \<noteq> cid c" if "c' \<in> set cs" for c'
    using that Cons.prems(1) cid_inject [of c' c] by auto
  then have "\<forall>c' \<in> set cs. IsRoutable c' \<and> in_vc ?r (cid c') \<noteq> []" using Cons.prems(2) by auto
  from Cons.IH [OF _ this] Cons.prems(1) have IH: "pop_inputs cs ?r =
      (map (\<lambda>c. hd (in_vc ?r (cid c))) cs,
       ?r\<lparr>in_vc := \<lambda>i. if \<exists>c \<in> set cs. cid c = i then tl (in_vc ?r i) else in_vc ?r i\<rparr>)" by simp
  have "map (\<lambda>c. hd (in_vc ?r (cid c))) cs = map (\<lambda>c. hd (in_vc r (cid c))) cs"
    using ne by (intro map_cong) auto
  moreover have "(\<lambda>i. if \<exists>c \<in> set cs. cid c = i then tl (in_vc ?r i) else in_vc ?r i) =
      (\<lambda>i. if \<exists>c \<in> set (c # cs). cid c = i then tl (in_vc r i) else in_vc r i)"
    using ne c(2) by (auto simp: fun_eq_iff)
  ultimately show ?case using IH c(2) by (simp add: p)
qed simp

definition InputTotal :: "router \<Rightarrow> nat" where
  "InputTotal r = (\<Sum>i<kNumRoutable. length (in_vc r i))"

lemma PopInput_total:
  "InputTotal (snd (PopInput c r)) + (case fst (PopInput c r) of None \<Rightarrow> 0 | Some w \<Rightarrow> 1) = InputTotal r"
proof (cases "IsRoutable c \<and> in_vc r (cid c) \<noteq> []")
  case True
  then obtain w ws where c: "IsRoutable c" "in_vc r (cid c) = w # ws"
    by (cases "in_vc r (cid c)") auto
  have "InputTotal r = (\<Sum>i<kNumRoutable. length (((in_vc r)(cid c := ws)) i) + (if i = cid c then 1 else 0))"
    unfolding InputTotal_def by (rule sum.cong) (simp_all add: c)
  also have "\<dots> = InputTotal (r\<lparr>in_vc := (in_vc r)(cid c := ws)\<rparr>) + 1"
    using c(1) by (simp add: sum.distrib InputTotal_def IsRoutable_cid)
  finally show ?thesis by (simp add: PopInput_nonempty [OF c])
next
  case False
  then show ?thesis by (auto simp: PopInput_def split: list.splits)
qed

lemma pop_inputs_total:
  "pop_inputs cs r = (ws, r') \<Longrightarrow> InputTotal r' + length ws = InputTotal r"
proof (induction cs arbitrary: r ws r')
  case (Cons c cs)
  obtain w r1 where p: "PopInput c r = (w, r1)" by (cases "PopInput c r")
  obtain vs r2 where q: "pop_inputs cs r1 = (vs, r2)" by (cases "pop_inputs cs r1")
  from Cons.IH [OF q] PopInput_total [of c r] Cons.prems show ?case
    by (auto simp: p q split: option.splits)
qed simp

lemma pop_inputs_some:
  "cs \<noteq> [] \<Longrightarrow> \<forall>c \<in> set cs. IsRoutable c \<and> in_vc r (cid c) \<noteq> [] \<Longrightarrow>
     fst (pop_inputs cs r) \<noteq> []"
  by (cases cs) (auto simp: PopInput_def split: prod.splits list.splits)

section \<open>Steps\<close>

text \<open>Handlers that neither receive nor consume: the input channels of the router do not change, and
  the task keeps its identity, kind, inputs and gates.\<close>

definition tame :: "'e handler option \<Rightarrow> bool" where
  "tame h \<longleftrightarrow> (case h of None \<Rightarrow> True | Some f \<Rightarrow> \<forall>t r e. case f t r e of (t', r', e') \<Rightarrow>
     in_vc r' = in_vc r \<and> t_id t' = t_id t \<and> t_kind t' = t_kind t \<and> t_inputs t' = t_inputs t)"

lemma Fire_tame:
  "tame h \<Longrightarrow> Fire h t r e = (t', r', e') \<Longrightarrow>
     in_vc r' = in_vc r \<and> t_id t' = t_id t \<and> t_kind t' = t_kind t \<and> t_inputs t' = t_inputs t"
  by (cases h) (auto simp: tame_def Fire_def Let_def split: prod.splits dest!: spec)

definition data_task :: "'e task \<Rightarrow> bool" where
  "data_task t \<longleftrightarrow> t_kind (core t) = Data \<and> t_inputs (core t) \<noteq> [] \<and> t_id (core t) \<noteq> - 1 \<and> tame (handler t)"

lemma sched_step_data:
  assumes "list_all data_task (s_tasks s)" and "sched_step s = (i, s')"
  shows "list_all data_task (s_tasks s') \<and>
    (if i = - 1 then s' = s \<and> Pick (s_tasks s) (s_router s) = None
     else InputTotal (s_router s') < InputTotal (s_router s))"
proof (cases "Pick (s_tasks s) (s_router s)")
  case None
  then show ?thesis using assms by (simp add: sched_step_def)
next
  case (Some n)
  let ?t = "s_tasks s ! n"
  from Some have n: "n < length (s_tasks s)" "IsRunnable (core ?t) (s_router s)" by (simp_all add: Pick_Some)
  then have d: "data_task ?t" using assms(1) by (simp add: list_all_length)
  obtain ws r where p: "pop_inputs (t_inputs (core ?t)) (s_router s) = (ws, r)"
    by (cases "pop_inputs (t_inputs (core ?t)) (s_router s)")
  obtain t' r' e' where f: "Fire (handler ?t) (SetLastInputs ws (core ?t)) r (s_env s) = (t', r', e')"
    by (cases "Fire (handler ?t) (SetLastInputs ws (core ?t)) r (s_env s)")
  have s': "i = t_id t'" "s' = \<lparr>s_router = r', s_tasks = (s_tasks s)[n := ?t\<lparr>core := t'\<rparr>], s_env = e'\<rparr>"
    using assms(2) d by (simp_all add: sched_step_def Some p f data_task_def Let_def)
  from Fire_tame [OF _ f] d have t': "in_vc r' = in_vc r" "t_id t' = t_id (core ?t)"
    "t_kind t' = Data" "t_inputs t' = t_inputs (core ?t)"
    by (simp_all add: data_task_def SetLastInputs_def)
  have "ws \<noteq> []"
    using pop_inputs_some [of "t_inputs (core ?t)" "s_router s"] runnable_inputs [OF n(2)] d
    by (simp add: p data_task_def)
  then have "InputTotal r < InputTotal (s_router s)" using pop_inputs_total [OF p] by (cases ws) auto
  then have "InputTotal r' < InputTotal (s_router s)" by (simp add: InputTotal_def t'(1))
  moreover have "data_task (?t\<lparr>core := t'\<rparr>)" using d t' by (simp add: data_task_def)
  ultimately show ?thesis using assms(1) d t'(2) by (simp add: s' list_all_update data_task_def)
qed

section \<open>Properties\<close>

text \<open>C7. A task fires only through the rendezvous: a step that fires picks the first registered task
  that is activated, not blocked and, for a data task, has a wavelet on every bound color; every
  other task, in particular every blocked one, is left exactly as it was; a step that fires nothing
  changes nothing.\<close>

theorem sched_step_fires_runnable:
  assumes "sched_step s = (i, s')"
  shows "(\<exists>n t'. n < length (s_tasks s) \<and> IsEligible (core (s_tasks s ! n)) \<and>
      (t_kind (core (s_tasks s ! n)) = Data \<longrightarrow>
        list_all (\<lambda>c. InputSize c (s_router s) \<noteq> 0) (t_inputs (core (s_tasks s ! n)))) \<and>
      (\<forall>k < n. \<not> IsRunnable (core (s_tasks s ! k)) (s_router s)) \<and>
      s_tasks s' = (s_tasks s)[n := (s_tasks s ! n)\<lparr>core := t'\<rparr>] \<and> i = t_id t') \<or>
    (list_all (\<lambda>t. \<not> IsRunnable (core t) (s_router s)) (s_tasks s) \<and> i = - 1 \<and> s' = s)"
proof (cases "Pick (s_tasks s) (s_router s)")
  case None
  then have "i = - 1 \<and> s' = s" using assms by (simp add: sched_step_def)
  moreover have "list_all (\<lambda>t. \<not> IsRunnable (core t) (s_router s)) (s_tasks s)"
    using None by (simp add: Pick_None list_all_iff)
  ultimately show ?thesis by blast
next
  case (Some n)
  then have n: "n < length (s_tasks s)" "IsRunnable (core (s_tasks s ! n)) (s_router s)"
    "\<forall>k < n. \<not> IsRunnable (core (s_tasks s ! k)) (s_router s)" by (simp_all add: Pick_Some)
  have "\<exists>t'. s_tasks s' = (s_tasks s)[n := (s_tasks s ! n)\<lparr>core := t'\<rparr>] \<and> i = t_id t'"
    using assms Some by (auto simp: sched_step_def Let_def split: prod.splits if_splits)
  with n show ?thesis by (auto simp: IsRunnable_def IsEligible_def split: if_splits)
qed

theorem sched_step_fires_runnable_witness:
  "let s = \<lparr>s_router = new_router, s_tasks = [new_task 0 Local\<lparr>core := ActivateTask (core (new_task 0 Local))\<rparr>], s_env = ()\<rparr>;
       s' = snd (sched_step s)
   in (\<exists>n t'. n < length (s_tasks s) \<and> IsEligible (core (s_tasks s ! n)) \<and>
      (t_kind (core (s_tasks s ! n)) = Data \<longrightarrow>
        list_all (\<lambda>c. InputSize c (s_router s) \<noteq> 0) (t_inputs (core (s_tasks s ! n)))) \<and>
      (\<forall>k < n. \<not> IsRunnable (core (s_tasks s ! k)) (s_router s)) \<and>
      s_tasks s' = (s_tasks s)[n := (s_tasks s ! n)\<lparr>core := t'\<rparr>] \<and> fst (sched_step s) = t_id t') \<or>
    (list_all (\<lambda>t. \<not> IsRunnable (core t) (s_router s)) (s_tasks s) \<and> fst (sched_step s) = - 1 \<and> s' = s)"
  unfolding Let_def by (rule sched_step_fires_runnable) simp

text \<open>A data task that fires consumes exactly the oldest wavelet of each of its bound colors,
  as its operands in the order the colors were bound, and touches no other channel.\<close>

theorem data_task_consumes_operands:
  assumes "IsRunnable t r" and "t_kind t = Data" and "distinct (t_inputs t)"
  shows "pop_inputs (t_inputs t) r = (map (\<lambda>c. hd (in_vc r (cid c))) (t_inputs t),
    r\<lparr>in_vc := \<lambda>i. if i \<in> cid ` set (t_inputs t) then tl (in_vc r i) else in_vc r i\<rparr>)"
proof -
  have "(\<exists>c \<in> set (t_inputs t). cid c = i) \<longleftrightarrow> i \<in> cid ` set (t_inputs t)" for i by auto
  then show ?thesis
    using pop_inputs_distinct [OF assms(3), of r] runnable_inputs [OF assms(1,2)] by simp
qed

theorem data_task_consumes_operands_witness:
  "let a = \<lparr>color_id = 0\<rparr>; b = \<lparr>color_id = 1\<rparr>;
       r = snd (Rx West b (MakeWavelet 20 0) (snd (Rx West a (MakeWavelet 10 0) new_router)));
       t = ActivateTask (AddInput b (AddInput a (core (new_task 0 Data))))
   in pop_inputs (t_inputs t) r = (map (\<lambda>c. hd (in_vc r (cid c))) (t_inputs t),
    r\<lparr>in_vc := \<lambda>i. if i \<in> cid ` set (t_inputs t) then tl (in_vc r i) else in_vc r i\<rparr>)"
  unfolding Let_def
  by (rule data_task_consumes_operands)
    (simp_all add: IsRunnable_def ActivateTask_def AddInput_def new_task_def InputSize_def Rx_def
      IsRoutable_def kMaxRoutable_def new_router_def kVcDepth_def)

text \<open>C8. Draining data tasks terminates: when every task is a data task with at least one bound
  color, and no handler receives or consumes wavelets, \<open>RunToQuiescence\<close> returns, after at most
  as many firings as wavelets were buffered, and then no task is runnable.\<close>

theorem RunToQuiescence_terminates:
  assumes "list_all data_task (s_tasks s)"
  shows "\<exists>n s'. RunToQuiescence k s = Some (k + n, s') \<and> n \<le> InputTotal (s_router s) \<and>
    list_all (\<lambda>t. \<not> IsRunnable (core t) (s_router s')) (s_tasks s')"
  using assms
proof (induction "InputTotal (s_router s)" arbitrary: s k rule: less_induct)
  case less
  obtain i s1 where st: "sched_step s = (i, s1)" by (cases "sched_step s")
  note d = sched_step_data [OF less.prems st]
  show ?case
  proof (cases "i = - 1")
    case True
    with d have "s1 = s" "Pick (s_tasks s) (s_router s) = None" by simp_all
    then show ?thesis
      using True by (simp add: RunToQuiescence.simps [of k s] st Pick_None list_all_iff)
  next
    case False
    with d have lt: "InputTotal (s_router s1) < InputTotal (s_router s)" by simp
    from less.hyps [OF lt] d obtain n s' where
      "RunToQuiescence (Suc k) s1 = Some (Suc k + n, s')" "n \<le> InputTotal (s_router s1)"
      "list_all (\<lambda>t. \<not> IsRunnable (core t) (s_router s')) (s_tasks s')" by blast
    then show ?thesis
      using False lt by (intro exI [of _ "Suc n"] exI [of _ s']) (simp add: RunToQuiescence.simps [of k s] st)
  qed
qed

theorem RunToQuiescence_terminates_witness:
  "let t = new_task 3 Data\<lparr>core := ActivateTask (AddInput \<lparr>color_id = 0\<rparr> (core (new_task 3 Data)))\<rparr>;
       s = \<lparr>s_router = snd (Rx West \<lparr>color_id = 0\<rparr> (MakeWavelet 1 1) new_router), s_tasks = [t], s_env = ()\<rparr>
   in \<exists>n s'. RunToQuiescence 0 s = Some (0 + n, s') \<and> n \<le> InputTotal (s_router s) \<and>
    list_all (\<lambda>t. \<not> IsRunnable (core t) (s_router s')) (s_tasks s')"
  unfolding Let_def
  by (rule RunToQuiescence_terminates)
    (simp add: data_task_def new_task_def ActivateTask_def AddInput_def tame_def)

text \<open>A task that runs whenever it is asked: activated, not blocked, and with nothing to wait for.\<close>

definition always_runnable :: "'e task \<Rightarrow> bool" where
  "always_runnable t \<longleftrightarrow> IsEligible (core t) \<and> (t_kind (core t) = Data \<longrightarrow> t_inputs (core t) = []) \<and>
     handler t = None"

definition ids_valid :: "'e sched \<Rightarrow> bool" where
  "ids_valid s \<longleftrightarrow> list_all (\<lambda>t. t_id (core t) \<noteq> - 1 \<and> handler t = None) (s_tasks s)"

lemma sched_step_always:
  assumes "sched_step s = (i, s')" and "list_ex always_runnable (s_tasks s)" and "ids_valid s"
  shows "i \<noteq> - 1 \<and> list_ex always_runnable (s_tasks s') \<and> ids_valid s'"
proof (cases "Pick (s_tasks s) (s_router s)")
  case None
  with assms(2) show ?thesis
    by (auto simp: Pick_None list_ex_iff always_runnable_def IsRunnable_def IsEligible_def split: if_splits)
next
  case (Some n)
  let ?t = "s_tasks s ! n"
  from Some have n: "n < length (s_tasks s)" by (simp add: Pick_Some)
  then have t: "t_id (core ?t) \<noteq> - 1" "handler ?t = None"
    using assms(3) by (simp_all add: ids_valid_def list_all_length)
  obtain t' where t': "i = t_id t'" "s_tasks s' = (s_tasks s)[n := ?t\<lparr>core := t'\<rparr>]"
    "t_id t' = t_id (core ?t)" "t_kind t' = t_kind (core ?t)" "t_inputs t' = t_inputs (core ?t)"
    "t_activated t' = t_activated (core ?t)" "t_blocked t' = t_blocked (core ?t)"
    using assms(1) Some t(2)
    by (auto simp: sched_step_def Let_def Fire_def SetLastInputs_def split: prod.splits if_splits)
  have ar: "always_runnable (?t\<lparr>core := t'\<rparr>) = always_runnable ?t"
    using t' by (simp add: always_runnable_def IsEligible_def)
  obtain k where k: "k < length (s_tasks s)" "always_runnable (s_tasks s ! k)"
    using assms(2) by (auto simp: list_ex_length)
  then have "always_runnable (s_tasks s' ! k)"
    using ar n by (cases "k = n") (simp_all add: t'(2))
  then have "list_ex always_runnable (s_tasks s')" using k(1) by (auto simp: list_ex_length t'(2))
  then show ?thesis
    using t t' assms(3) by (simp add: ids_valid_def list_all_update)
qed

text \<open>Draining does not terminate while a task needs no wavelets: with an activated, unblocked
  local or control task (or a data task without bound colors) and no handlers,
  \<open>RunToQuiescence\<close> never returns.\<close>

theorem RunToQuiescence_diverges:
  assumes "list_ex always_runnable (s_tasks s)" and "ids_valid s"
  shows "RunToQuiescence k s = None"
proof (cases "RunToQuiescence k s")
  case (Some y)
  have "\<not> (list_ex always_runnable (s_tasks s) \<and> ids_valid s)"
  proof (rule RunToQuiescence.raw_induct [OF _ Some])
    fix f :: "nat \<Rightarrow> 'a sched \<Rightarrow> (nat \<times> 'a sched) option" and k s y
    assume IH: "\<And>k s y. f k s = Some y \<Longrightarrow> \<not> (list_ex always_runnable (s_tasks s) \<and> ids_valid s)"
      and y: "(case sched_step s of (r, s') \<Rightarrow> if r = - 1 then Some (k, s') else f (Suc k) s') = Some y"
    obtain r s' where st: "sched_step s = (r, s')" by (cases "sched_step s")
    show "\<not> (list_ex always_runnable (s_tasks s) \<and> ids_valid s)"
      using sched_step_always [OF st] IH [of "Suc k" s' y] y by (auto simp: st)
  qed
  with assms show ?thesis by simp
qed

theorem RunToQuiescence_diverges_witness:
  "RunToQuiescence 0 \<lparr>s_router = new_router,
     s_tasks = [new_task 0 Local\<lparr>core := ActivateTask (core (new_task 0 Local))\<rparr>], s_env = ()\<rparr> = None"
  by (rule RunToQuiescence_diverges)
    (simp_all add: always_runnable_def ids_valid_def new_task_def ActivateTask_def IsEligible_def)

text \<open>
  Two divergences from the header comments. The picker is documented to take the lowest identifier;
  it takes the first registered task. And a color bound twice is a rendezvous that one wavelet
  completes: the task fires with one operand for its two inputs.
\<close>

lemma Pick_registration_order:
  "let act = (\<lambda>i. new_task i Local\<lparr>core := ActivateTask (core (new_task i Local))\<rparr>)
   in Pick [act 5, act 2] new_router = Some 0"
  by (simp add: new_task_def ActivateTask_def IsRunnable_def)

lemma duplicate_input_one_operand:
  "let a = \<lparr>color_id = 0\<rparr>; r = snd (Rx West a (MakeWavelet 10 0) new_router);
       t = ActivateTask (AddInput a (AddInput a (core (new_task 0 Data))))
   in IsRunnable t r \<and> fst (pop_inputs (t_inputs t) r) = [MakeWavelet 10 0]"
  by (simp add: IsRunnable_def ActivateTask_def AddInput_def new_task_def InputSize_def Rx_def
      PopInput_def IsRoutable_def kMaxRoutable_def new_router_def kVcDepth_def)

end
