(* ===== verification/Summa.thy ===== *)
theory Summa
  imports Grid Tasks
begin

text \<open>
  The SUMMA matrix product on the fabric (\<open>Summa.h\<close>, \<open>Summa.cpp\<close>, \<open>LowerToDataflow.cpp\<close>): the
  plan and its lowering, the panel accumulate on the compute element, the broadcast routes, and the
  tile program that seeds, broadcasts, drains and accumulates. A \<open>float\<close> is its bit pattern; a
  failed assertion and a loop that does not end are \<open>None\<close>. The copies of the half conversions in
  \<open>Summa.cpp\<close> are those of \<open>Pe.cpp\<close>, modelled in \<open>Half\<close>.
\<close>

section \<open>The plan and its lowering\<close>

record summa_plan =
  sp_m :: int
  sp_n :: int
  sp_k :: int
  gridP :: int
  tileM :: int
  tileN :: int
  tileK :: int
  steps :: int
  aColor :: "color list"
  bColor :: "color list"
  xDone :: color
  yDone :: color
  fused :: bool
  opName :: string

text \<open>The search for a divisor, downwards from \<open>t\<close>.\<close>

function tile_down :: "int \<Rightarrow> int \<Rightarrow> int" where
  "tile_down k t = (if t > 1 \<and> crem k t \<noteq> 0 then tile_down k (t - 1) else t)"
  by pat_completeness auto

termination by (relation "measure (\<lambda>(k, t). nat t)") auto

declare tile_down.simps [simp del]

definition ChooseTileK :: "int \<Rightarrow> int \<Rightarrow> int" where
  "ChooseTileK k pref =
     (let pref = (if pref \<le> 0 then 8 else pref); t = (if pref < k then pref else k)
      in tile_down k t)"

definition BuildPlan :: "int \<Rightarrow> int \<Rightarrow> int \<Rightarrow> int \<Rightarrow> int \<Rightarrow> bool \<Rightarrow> string \<Rightarrow> summa_plan option" where
  "BuildPlan m n k P tk fu op =
     (if \<not> (m > 0 \<and> n > 0 \<and> k > 0) then None
      else if \<not> P > 0 then None
      else if \<not> (crem m P = 0 \<and> crem n P = 0) then None
      else if cquot m P \<noteq> cquot n P then None
      else let tk' = ChooseTileK k tk
           in Some \<lparr>sp_m = m, sp_n = n, sp_k = k, gridP = P, tileM = cquot m P, tileN = cquot n P,
                    tileK = tk', steps = cquot k tk',
                    aColor = [the (Routable 0), the (Routable 1)],
                    bColor = [the (Routable 2), the (Routable 3)],
                    xDone = the (Routable 4), yDone = the (Routable 5),
                    fused = fu, opName = op\<rparr>)"

definition LowerMatmulToSumma :: "int \<Rightarrow> int \<Rightarrow> int \<Rightarrow> int \<Rightarrow> int \<Rightarrow> summa_plan option" where
  "LowerMatmulToSumma m n k P tk = BuildPlan m n k P tk False ''polykernel.matmul''"

definition LowerFusedMatmulToSumma ::
    "int \<Rightarrow> int \<Rightarrow> int \<Rightarrow> string \<Rightarrow> int \<Rightarrow> int \<Rightarrow> summa_plan option" where
  "LowerFusedMatmulToSumma m n k op P tk = BuildPlan m n k P tk True op"

section \<open>The panel accumulate\<close>

record retx =
  re_color :: color
  re_dir :: dir
  re_w :: wavelet

record pe_state =
  aBuf :: "u32 list"
  bBuf :: "u32 list"
  cTile :: "u32 list"
  outbox :: "retx list"
  aCount :: nat
  bCount :: nat
  stepsDone :: nat
  aToken :: bool
  bToken :: bool

definition load_lanes :: "u32 list \<Rightarrow> nat \<Rightarrow> nat \<Rightarrow> nat \<Rightarrow> u16 list" where
  "load_lanes xs T row jb =
     map (\<lambda>l. let j = jb + l in if j < T then FloatToHalf (xs ! (row * T + j)) else 0) [0..<kLanes]"

definition store_lanes :: "u16 list \<Rightarrow> nat \<Rightarrow> nat \<Rightarrow> nat \<Rightarrow> u32 list \<Rightarrow> u32 list" where
  "store_lanes acc T row jb xs =
     foldl (\<lambda>xs l. let j = jb + l in if j < T then xs[row * T + j := HalfToFloat (acc ! l)] else xs)
       xs [0..<kLanes]"

definition panel_block :: "nat \<Rightarrow> nat \<Rightarrow> u32 list \<Rightarrow> u32 list \<Rightarrow> u32 list \<Rightarrow> nat \<Rightarrow> nat \<Rightarrow> u32 list" where
  "panel_block T TK as bs cs i jb =
     (let acc = foldl (\<lambda>acc kk. Fma (replicate kLanes (FloatToHalf (as ! (i * TK + kk))))
                                    (load_lanes bs T kk jb) acc)
                  (load_lanes cs T i jb) [0..<TK]
      in store_lanes acc T i jb cs)"

text \<open>The column blocks \<open>0, 4, 8, ...\<close> below \<open>T\<close>.\<close>

definition column_blocks :: "nat \<Rightarrow> nat list" where
  "column_blocks T = map (\<lambda>q. kLanes * q) [0..<(T + kLanes - 1) div kLanes]"

definition PanelAccumulate :: "nat \<Rightarrow> nat \<Rightarrow> pe_state \<Rightarrow> pe_state" where
  "PanelAccumulate T TK s =
     s\<lparr>cTile := foldl (\<lambda>cs i. foldl (\<lambda>cs jb. panel_block T TK (aBuf s) (bBuf s) cs i jb)
                                    cs (column_blocks T)) (cTile s) [0..<T]\<rparr>"

section \<open>The broadcast routes\<close>

definition summa_routes_at :: "summa_plan \<Rightarrow> int \<Rightarrow> int \<Rightarrow> grid \<Rightarrow> grid" where
  "summa_routes_at plan x y g =
     (let P = gridP plan;
          aTx = (if x < P - 1 then mask_or (dir_mask_of East) (dir_mask_of Ramp) else dir_mask_of Ramp);
          g = foldl (\<lambda>g c. snd (SetRoute x y c West aTx g)) g [aColor plan ! 0, aColor plan ! 1];
          bTx = (if y > 0 then mask_or (dir_mask_of South) (dir_mask_of Ramp) else dir_mask_of Ramp)
      in foldl (\<lambda>g c. snd (SetRoute x y c North bTx g)) g [bColor plan ! 0, bColor plan ! 1])"

definition ConfigureSummaRoutes :: "summa_plan \<Rightarrow> grid \<Rightarrow> grid option" where
  "ConfigureSummaRoutes plan g =
     (let P = gridP plan
      in if \<not> (width g = P \<and> height g = P) then None
         else Some (foldl (\<lambda>g y. foldl (\<lambda>g x. summa_routes_at plan x y g) g [0..P - 1]) g [0..P - 1]))"

section \<open>The tasks of an element\<close>

text \<open>What the handlers capture: the element's state and the counter of panel accumulates.
  \<open>e_ub\<close> records an access outside a buffer.\<close>

record summa_env =
  e_st :: pe_state
  e_computes :: nat
  e_ub :: bool

definition drain_a :: "int \<Rightarrow> int \<Rightarrow> color \<Rightarrow> summa_env handler" where
  "drain_a P x c = (\<lambda>t r e.
     case t_last t of
       [] \<Rightarrow> (t, r, e\<lparr>e_ub := True\<rparr>)
     | w # _ \<Rightarrow>
         let k = unat (w_control w); s = e_st e
         in if length (aBuf s) \<le> k then (t, r, e\<lparr>e_ub := True\<rparr>)
            else let s = s\<lparr>aBuf := (aBuf s)[k := HalfToFloat (w_data w)], aCount := aCount s + 1\<rparr>;
                     s = (if x < P - 1
                          then s\<lparr>outbox := outbox s @ [\<lparr>re_color = c, re_dir = East, re_w = w\<rparr>]\<rparr> else s)
                 in (t, r, e\<lparr>e_st := s\<rparr>))"

definition drain_b :: "int \<Rightarrow> color \<Rightarrow> summa_env handler" where
  "drain_b y c = (\<lambda>t r e.
     case t_last t of
       [] \<Rightarrow> (t, r, e\<lparr>e_ub := True\<rparr>)
     | w # _ \<Rightarrow>
         let k = unat (w_control w); s = e_st e
         in if length (bBuf s) \<le> k then (t, r, e\<lparr>e_ub := True\<rparr>)
            else let s = s\<lparr>bBuf := (bBuf s)[k := HalfToFloat (w_data w)], bCount := bCount s + 1\<rparr>;
                     s = (if y > 0
                          then s\<lparr>outbox := outbox s @ [\<lparr>re_color = c, re_dir = South, re_w = w\<rparr>]\<rparr> else s)
                 in (t, r, e\<lparr>e_st := s\<rparr>))"

definition compute_panel :: "nat \<Rightarrow> nat \<Rightarrow> summa_env handler" where
  "compute_panel T TK = (\<lambda>t r e.
     let s = PanelAccumulate T TK (e_st e);
         s = s\<lparr>aBuf := map (\<lambda>_. 0) (aBuf s), bBuf := map (\<lambda>_. 0) (bBuf s), aCount := 0, bCount := 0,
               aToken := False, bToken := False, stepsDone := stepsDone s + 1\<rparr>
     in (t, r, e\<lparr>e_st := s, e_computes := e_computes e + 1\<rparr>))"

text \<open>Registering a task: its identifier is the number of tasks before it.\<close>

definition register :: "color list \<Rightarrow> summa_env handler \<Rightarrow> bool \<Rightarrow> summa_env sched \<Rightarrow> int \<times> summa_env sched" where
  "register cs h live s =
     (let t = (new_task (int (length (s_tasks s))) Data)\<lparr>handler := Some h\<rparr>;
          t = t\<lparr>core := foldl (\<lambda>c i. AddInput i c) (core t) cs\<rparr>;
          (i, s) = AddTask t s
      in (i, if live then the (Activate i s) else s))"

definition summa_sched :: "summa_plan \<Rightarrow> bool \<Rightarrow> int \<Rightarrow> int \<Rightarrow> router \<Rightarrow> summa_env \<Rightarrow> int \<times> summa_env sched" where
  "summa_sched plan broken x y r e =
     (let P = gridP plan; T = nat (tileM plan); TK = nat (tileK plan);
          s = \<lparr>s_router = r, s_tasks = [], s_env = e\<rparr>;
          s = foldl (\<lambda>s c. snd (register [c] (drain_a P x c) True s)) s [aColor plan ! 0, aColor plan ! 1];
          s = foldl (\<lambda>s c. snd (register [c] (drain_b y c) True s)) s [bColor plan ! 0, bColor plan ! 1]
      in register (if broken then [xDone plan] else [xDone plan, yDone plan]) (compute_panel T TK) broken s)"

section \<open>The tile program\<close>

record inj =
  ij_x :: int
  ij_y :: int
  ij_c :: color
  ij_w :: wavelet
  ij_a :: bool

text \<open>The state of a run. The task lists of the per-element schedulers are kept apart from the routers
  they are bound to, which live in the grid.\<close>

record summa_run =
  r_grid :: grid
  r_st :: "pe_state list"
  r_tasks :: "summa_env task list list"
  r_computes :: nat
  r_ub :: bool
  r_a :: nat
  r_b :: nat

record summa_result =
  res_c :: "u32 list"
  res_cycles :: nat
  res_computes :: nat
  res_a :: nat
  res_b :: nat
  res_dropped :: nat

definition kCycleCap :: nat where
  "kCycleCap = 20000000"

definition pe_x :: "int \<Rightarrow> nat \<Rightarrow> int" where "pe_x P idx = crem (int idx) P"
definition pe_y :: "int \<Rightarrow> nat \<Rightarrow> int" where "pe_y P idx = cquot (int idx) P"

definition new_pe_state :: "nat \<Rightarrow> nat \<Rightarrow> pe_state" where
  "new_pe_state T TK = \<lparr>aBuf = replicate (T * TK) 0, bBuf = replicate (T * TK) 0, cTile = replicate (T * T) 0,
     outbox = [], aCount = 0, bCount = 0, stepsDone = 0, aToken = False, bToken = False\<rparr>"

text \<open>The sources of one step: the A panel at the west edge, the B panel at the north edge,
  interleaved by panel index; the index travels in the 16-bit control field.\<close>

definition step_seeds :: "summa_plan \<Rightarrow> u32 list \<Rightarrow> u32 list \<Rightarrow> bool \<Rightarrow> nat \<Rightarrow> inj list" where
  "step_seeds plan a b broken step =
     (let P = nat (gridP plan); T = nat (tileM plan); TK = nat (tileK plan); K = nat (sp_k plan);
          N = nat (sp_n plan); aCol = aColor plan ! (step mod 2); bCol = bColor plan ! (step mod 2)
      in concat (map (\<lambda>t.
           map (\<lambda>y. let v = a ! ((y * T + t div TK) * K + (step * TK + t mod TK))
                     in \<lparr>ij_x = 0, ij_y = int y, ij_c = aCol,
                         ij_w = MakeWavelet (FloatToHalf v) (of_nat t), ij_a = True\<rparr>) [0..<P] @
           (if broken then []
            else map (\<lambda>x. let v = b ! ((step * TK + t div T) * N + (x * T + t mod T))
                           in \<lparr>ij_x = int x, ij_y = int P - 1, ij_c = bCol,
                               ij_w = MakeWavelet (FloatToHalf v) (of_nat t), ij_a = False\<rparr>) [0..<P]))
           [0..<T * TK]))"

text \<open>Retransmits leave an outbox in order, until a channel is full.\<close>

fun flush_outbox :: "int \<Rightarrow> int \<Rightarrow> retx list \<Rightarrow> grid \<Rightarrow> retx list \<times> grid" where
  "flush_outbox x y [] g = ([], g)"
| "flush_outbox x y (r # rs) g =
     (case Inject x y (re_color r) (dir_mask_of (re_dir r)) (re_w r) g of (ok, g') \<Rightarrow>
        if ok then flush_outbox x y rs g' else (r # rs, g'))"

definition flush_pe :: "int \<Rightarrow> summa_run \<Rightarrow> nat \<Rightarrow> summa_run" where
  "flush_pe P rs idx =
     (let s = r_st rs ! idx
      in case flush_outbox (pe_x P idx) (pe_y P idx) (outbox s) (r_grid rs) of (rest, g) \<Rightarrow>
           rs\<lparr>r_grid := g, r_st := (r_st rs)[idx := s\<lparr>outbox := rest\<rparr>]\<rparr>)"

text \<open>Seeds enter in order; the part of the list still pending is the C++ cursor.\<close>

fun inject_seeds :: "inj list \<Rightarrow> summa_run \<Rightarrow> inj list \<times> summa_run" where
  "inject_seeds [] rs = ([], rs)"
| "inject_seeds (j # js) rs =
     (case Inject (ij_x j) (ij_y j) (ij_c j) (dir_mask_of Ramp) (ij_w j) (r_grid rs) of (ok, g) \<Rightarrow>
        if ok then
          inject_seeds js (if ij_a j then rs\<lparr>r_grid := g, r_a := r_a rs + 1\<rparr>
                           else rs\<lparr>r_grid := g, r_b := r_b rs + 1\<rparr>)
        else (j # js, rs\<lparr>r_grid := g\<rparr>))"

definition run_sched :: "int \<Rightarrow> summa_run \<Rightarrow> nat \<Rightarrow> summa_run option" where
  "run_sched P rs idx =
     (let x = pe_x P idx; y = pe_y P idx
      in case RunToQuiescence 0
           \<lparr>s_router = router_at (r_grid rs) x y, s_tasks = r_tasks rs ! idx,
            s_env = \<lparr>e_st = r_st rs ! idx, e_computes = r_computes rs, e_ub = r_ub rs\<rparr>\<rparr> of
           None \<Rightarrow> None
         | Some (_, s) \<Rightarrow>
             Some (rs\<lparr>r_grid := set_router x y (s_router s) (r_grid rs),
                      r_tasks := (r_tasks rs)[idx := s_tasks s],
                      r_st := (r_st rs)[idx := e_st (s_env s)],
                      r_computes := e_computes (s_env s), r_ub := e_ub (s_env s)\<rparr>))"

fun run_scheds :: "int \<Rightarrow> nat list \<Rightarrow> summa_run \<Rightarrow> summa_run option" where
  "run_scheds P [] rs = Some rs"
| "run_scheds P (i # is) rs =
     (case run_sched P rs i of None \<Rightarrow> None | Some rs' \<Rightarrow> run_scheds P is rs')"

text \<open>A rendezvous token: the compute task (identifier 4) is activated or unblocked and the token is
  received on its color.\<close>

definition give_token :: "(int \<Rightarrow> summa_env sched \<Rightarrow> summa_env sched option) \<Rightarrow> color \<Rightarrow> int \<Rightarrow> nat \<Rightarrow>
    summa_run \<Rightarrow> summa_run" where
  "give_token gate c P idx rs =
     (let x = pe_x P idx; y = pe_y P idx;
          s = the (gate 4 \<lparr>s_router = router_at (r_grid rs) x y, s_tasks = r_tasks rs ! idx,
                          s_env = \<lparr>e_st = r_st rs ! idx, e_computes = r_computes rs, e_ub = r_ub rs\<rparr>\<rparr>)
      in rs\<lparr>r_tasks := (r_tasks rs)[idx := s_tasks s],
            r_grid := set_router x y (snd (Rx Ramp c (MakeWavelet 1 0) (router_at (r_grid rs) x y))) (r_grid rs)\<rparr>)"

definition tokens_pe :: "summa_plan \<Rightarrow> bool \<Rightarrow> summa_run \<Rightarrow> nat \<Rightarrow> summa_run" where
  "tokens_pe plan broken rs idx =
     (let P = gridP plan; panel = nat (tileM plan) * nat (tileK plan);
          s = r_st rs ! idx;
          rs = (if \<not> aToken s \<and> panel \<le> aCount s
                then let rs = give_token Activate (xDone plan) P idx rs
                     in rs\<lparr>r_st := (r_st rs)[idx := (r_st rs ! idx)\<lparr>aToken := True\<rparr>]\<rparr>
                else rs);
          s = r_st rs ! idx
      in if \<not> broken \<and> \<not> bToken s \<and> panel \<le> bCount s
         then let rs = give_token Unblock (yDone plan) P idx rs
              in rs\<lparr>r_st := (r_st rs)[idx := (r_st rs ! idx)\<lparr>bToken := True\<rparr>]\<rparr>
         else rs)"

text \<open>One round of the \<open>while (true)\<close> loop; the result says whether the loop is left.\<close>

definition summa_cycle :: "summa_plan \<Rightarrow> bool \<Rightarrow> nat \<Rightarrow> inj list \<Rightarrow> summa_run \<Rightarrow>
    (bool \<times> inj list \<times> summa_run) option" where
  "summa_cycle plan broken step pending rs =
     (let P = gridP plan; all = [0..<length (r_st rs)];
          rs = foldl (flush_pe P) rs all;
          outboxPending = list_ex (\<lambda>s. outbox s \<noteq> []) (r_st rs);
          (pending, rs) = inject_seeds pending rs;
          rs = rs\<lparr>r_grid := Grid.Step (r_grid rs)\<rparr>
      in case run_scheds P all rs of
           None \<Rightarrow> None
         | Some rs \<Rightarrow>
             (case run_scheds P all (foldl (tokens_pe plan broken) rs all) of
                None \<Rightarrow> None
              | Some rs \<Rightarrow>
                  let allDone = list_all (\<lambda>s. \<not> stepsDone s < step + 1) (r_st rs);
                      fabricEmpty = list_all (\<lambda>p. \<not> Buffered (router_of p) > 0) (pes (r_grid rs))
                  in Some (pending = [] \<and> \<not> outboxPending \<and> allDone \<and> fabricEmpty, pending, rs)))"

partial_function (option) summa_loop :: "summa_plan \<Rightarrow> bool \<Rightarrow> nat \<Rightarrow> inj list \<Rightarrow> summa_run \<Rightarrow> summa_run option" where
  "summa_loop plan broken step pending rs =
     (case summa_cycle plan broken step pending rs of
        None \<Rightarrow> None
      | Some (fin, pending', rs') \<Rightarrow>
          if fin then Some rs'
          else if \<not> cycle (r_grid rs') < kCycleCap then None
          else summa_loop plan broken step pending' rs')"

fun summa_steps :: "summa_plan \<Rightarrow> bool \<Rightarrow> u32 list \<Rightarrow> u32 list \<Rightarrow> nat list \<Rightarrow> summa_run \<Rightarrow> summa_run option" where
  "summa_steps plan broken a b [] rs = Some rs"
| "summa_steps plan broken a b (step # rest) rs =
     (case summa_loop plan broken step (step_seeds plan a b broken step) rs of
        None \<Rightarrow> None
      | Some rs' \<Rightarrow> summa_steps plan broken a b rest rs')"

definition gather :: "summa_plan \<Rightarrow> pe_state list \<Rightarrow> u32 list" where
  "gather plan st =
     (let P = nat (gridP plan); T = nat (tileM plan); N = nat (sp_n plan)
      in foldl (\<lambda>c (y, x, i, j). c[(y * T + i) * N + (x * T + j) := cTile (st ! (y * P + x)) ! (i * T + j)])
           (replicate (nat (sp_m plan) * N) 0)
           (List.product [0..<P] (List.product [0..<P] (List.product [0..<T] [0..<T]))))"

definition summa_start :: "summa_plan \<Rightarrow> bool \<Rightarrow> summa_run option" where
  "summa_start plan broken =
     (let P = gridP plan; T = nat (tileM plan); TK = nat (tileK plan)
      in case new_grid P P of
           None \<Rightarrow> None
         | Some g \<Rightarrow>
             let st = replicate (nat P * nat P) (new_pe_state T TK);
                 env = \<lparr>e_st = new_pe_state T TK, e_computes = 0, e_ub = False\<rparr>
             in Some \<lparr>r_grid = g, r_st = st,
                      r_tasks = map (\<lambda>idx. s_tasks (snd (summa_sched plan broken (pe_x P idx) (pe_y P idx)
                                  (router_at g (pe_x P idx) (pe_y P idx)) env))) [0..<length st],
                      r_computes = 0, r_ub = False, r_a = 0, r_b = 0\<rparr>)"

definition RunSumma :: "summa_plan \<Rightarrow> u32 list \<Rightarrow> u32 list \<Rightarrow> bool \<Rightarrow> summa_result option" where
  "RunSumma plan a b broken =
     (let P = gridP plan; T = tileM plan; TK = tileK plan
      in if tileN plan \<noteq> T then None
         else if \<not> (sp_m plan = P * T \<and> sp_n plan = P * T \<and> sp_k plan = steps plan * TK) then None
         else if int (length a) \<noteq> sp_m plan * sp_k plan then None
         else if int (length b) \<noteq> sp_k plan * sp_n plan then None
         else case summa_start plan broken of
                None \<Rightarrow> None
              | Some rs0 \<Rightarrow>
                  (case summa_steps plan broken a b [0..<nat (steps plan)] rs0 of
                     None \<Rightarrow> None
                   | Some rs \<Rightarrow>
                       if r_ub rs then None
                       else Some \<lparr>res_c = gather plan (r_st rs), res_cycles = cycle (r_grid rs),
                                  res_computes = r_computes rs, res_a = r_a rs, res_b = r_b rs,
                                  res_dropped = dropped (r_grid rs)\<rparr>))"

section \<open>The panel accumulate is exact on integers\<close>

definition f_holds :: "u32 \<Rightarrow> int \<Rightarrow> bool" where
  "f_holds f z \<longleftrightarrow> fp_finite binary32 (unat f) \<and> fp_val binary32 (unat f) = real_of_int z"

definition h_holds :: "u16 \<Rightarrow> int \<Rightarrow> bool" where
  "h_holds h z \<longleftrightarrow> fp_finite binary16 (unat h) \<and> fp_val binary16 (unat h) = real_of_int z"

lemma FloatToHalf_holds: "f_holds f z \<Longrightarrow> \<bar>z\<bar> < 2048 \<Longrightarrow> h_holds (FloatToHalf f) z"
  using FloatToHalf_int [of f z] by (simp add: f_holds_def h_holds_def)

lemma HalfToFloat_holds: "h_holds h z \<Longrightarrow> f_holds (HalfToFloat h) z"
  using HalfToFloat_val [of h] by (simp add: f_holds_def h_holds_def)

lemma fma_holds:
  "h_holds a x \<Longrightarrow> h_holds b y \<Longrightarrow> h_holds c z \<Longrightarrow> \<bar>z + x * y\<bar> < 2048 \<Longrightarrow> h_holds (fma_lane a b c) (z + x * y)"
  using fma_lane_int [of a x b y c z] by (simp add: h_holds_def add.commute)

lemma length_Fma [simp]: "length (Fma a b c) = kLanes"
  by (simp add: Fma_def)

lemma kLanes_4: "kLanes = 4"
  by (simp add: kLanes_def kDatapathBits_def)

lemma length_load_lanes [simp]: "length (load_lanes xs T i jb) = kLanes"
  by (simp add: load_lanes_def)

lemma length_store_lanes [simp]: "length (store_lanes acc T i jb xs) = length xs"
  unfolding store_lanes_def Let_def by (induction rule: foldl_invariant) simp_all

lemma nth_Fma: "l < kLanes \<Longrightarrow> Fma a b c ! l = fma_lane (a ! l) (b ! l) (c ! l)"
  by (simp add: Fma_def)

lemma nth_load_lanes:
  "l < kLanes \<Longrightarrow> jb + l < T \<Longrightarrow> load_lanes xs T i jb ! l = FloatToHalf (xs ! (i * T + (jb + l)))"
  by (simp add: load_lanes_def Let_def)

text \<open>Storing the lanes of block \<open>jb\<close> of row \<open>i\<close> sets exactly the elements of that block.\<close>

lemma nth_store_lanes:
  assumes "length xs = T * T" and "i < T" and "i' < T" and "j' < T"
  shows "store_lanes acc T i jb xs ! (i' * T + j') =
    (if i' = i \<and> jb \<le> j' \<and> j' < jb + kLanes then HalfToFloat (acc ! (j' - jb)) else xs ! (i' * T + j'))"
proof -
  have "length ls \<le> kLanes \<Longrightarrow> ls = [0..<length ls] \<Longrightarrow>
      foldl (\<lambda>xs l. let j = jb + l in if j < T then xs[i * T + j := HalfToFloat (acc ! l)] else xs) xs ls !
        (i' * T + j') =
      (if i' = i \<and> jb \<le> j' \<and> j' < jb + length ls then HalfToFloat (acc ! (j' - jb)) else xs ! (i' * T + j'))"
    for ls
  proof (induction ls rule: rev_induct)
    case (snoc l ls)
    from snoc.prems(2) have l: "l = length ls" "ls = [0..<length ls]"
      by (simp_all add: append_eq_append_conv)
    let ?ys = "foldl (\<lambda>xs l. let j = jb + l in if j < T then xs[i * T + j := HalfToFloat (acc ! l)] else xs) xs ls"
    have len: "length ?ys = T * T"
      unfolding Let_def assms(1) [symmetric] by (induction rule: foldl_invariant) simp_all
    have pos: "i' * T + j' = i * T + (jb + l) \<longleftrightarrow> i' = i \<and> j' = jb + l" if "jb + l < T"
      using index_inject [OF assms(4) that, of i' i] by auto
    have "i * T + (jb + l) < T * T" if "jb + l < T" using index_lt [OF that assms(2)] .
    with len pos snoc.IH [OF _ l(2)] snoc.prems(1) l(1) assms(4) show ?case
      by (auto simp: Let_def nth_list_update)
  qed auto
  from this [of "[0..<kLanes]"] show ?thesis by (simp add: store_lanes_def)
qed

text \<open>One block: the lanes run the inner products.\<close>

lemma panel_lanes:
  assumes "l < kLanes" and "jb + l < T" and "i < T"
    and c: "f_holds (cs ! (i * T + (jb + l))) c" "\<bar>c\<bar> < 2048"
    and as: "\<And>k. k < TK \<Longrightarrow> f_holds (as ! (i * TK + k)) (a k) \<and> \<bar>a k\<bar> < 2048"
    and bs: "\<And>k. k < TK \<Longrightarrow> f_holds (bs ! (k * T + (jb + l))) (b k) \<and> \<bar>b k\<bar> < 2048"
    and bd: "\<And>n. n \<le> TK \<Longrightarrow> \<bar>c + (\<Sum>k<n. a k * b k)\<bar> < 2048"
    and n: "n \<le> TK"
  shows "h_holds (foldl (\<lambda>acc kk. Fma (replicate kLanes (FloatToHalf (as ! (i * TK + kk))))
      (load_lanes bs T kk jb) acc) (load_lanes cs T i jb) [0..<n] ! l) (c + (\<Sum>k<n. a k * b k))"
  using n
proof (induction n)
  case 0
  then show ?case using assms(1,2) c by (simp add: nth_load_lanes FloatToHalf_holds)
next
  case (Suc n)
  then have n: "n < TK" by simp
  have "h_holds (FloatToHalf (as ! (i * TK + n))) (a n)" "h_holds (FloatToHalf (bs ! (n * T + (jb + l)))) (b n)"
    using as [OF n] bs [OF n] by (simp_all add: FloatToHalf_holds)
  moreover have "\<bar>c + (\<Sum>k<n. a k * b k) + a n * b n\<bar> < 2048"
    using bd [of "Suc n"] n by (simp add: add.assoc)
  ultimately show ?case
    using Suc assms(1,2) by (simp add: nth_Fma nth_load_lanes fma_holds add.assoc [symmetric])
qed

definition block_of :: "nat \<Rightarrow> nat" where
  "block_of j = kLanes * (j div kLanes)"

lemma block_of_iff: "jb = kLanes * q \<Longrightarrow> jb \<le> j \<and> j < jb + kLanes \<longleftrightarrow> block_of j = jb"
  unfolding block_of_def kLanes_4 by presburger

lemma panel_block_nth:
  assumes "length cs = T * T" and "i < T" and "i' < T" and "j' < T" and "jb = kLanes * q"
  shows "panel_block T TK as bs cs i jb ! (i' * T + j') =
    (if i' = i \<and> block_of j' = jb
     then HalfToFloat (foldl (\<lambda>acc kk. Fma (replicate kLanes (FloatToHalf (as ! (i * TK + kk))))
            (load_lanes bs T kk jb) acc) (load_lanes cs T i jb) [0..<TK] ! (j' - jb))
     else cs ! (i' * T + j'))"
  unfolding panel_block_def Let_def nth_store_lanes [OF assms(1-4)]
  using block_of_iff [OF assms(5), of j'] by simp

lemma length_panel_block [simp]: "length (panel_block T TK as bs cs i jb) = length cs"
  by (simp add: panel_block_def)

text \<open>The buffers hold the integer panels \<open>a\<close>, \<open>b\<close>, and no partial sum over the slab leaves the range
  in which a half is exact.\<close>

definition panel_ok :: "nat \<Rightarrow> nat \<Rightarrow> u32 list \<Rightarrow> u32 list \<Rightarrow> (nat \<Rightarrow> nat \<Rightarrow> int) \<Rightarrow> (nat \<Rightarrow> nat \<Rightarrow> int) \<Rightarrow>
    (nat \<Rightarrow> nat \<Rightarrow> int) \<Rightarrow> bool" where
  "panel_ok T TK as bs a b c \<longleftrightarrow>
     (\<forall>i < T. \<forall>k < TK. f_holds (as ! (i * TK + k)) (a i k) \<and> \<bar>a i k\<bar> < 2048) \<and>
     (\<forall>k < TK. \<forall>j < T. f_holds (bs ! (k * T + j)) (b k j) \<and> \<bar>b k j\<bar> < 2048) \<and>
     (\<forall>i < T. \<forall>j < T. \<forall>n \<le> TK. \<bar>c i j + (\<Sum>k<n. a i k * b k j)\<bar> < 2048)"

definition tile_holds :: "nat \<Rightarrow> u32 list \<Rightarrow> (nat \<Rightarrow> nat \<Rightarrow> int) \<Rightarrow> bool" where
  "tile_holds T cs c \<longleftrightarrow> length cs = T * T \<and> (\<forall>i < T. \<forall>j < T. f_holds (cs ! (i * T + j)) (c i j))"

lemma panel_block_holds:
  assumes ok: "panel_ok T TK as bs a b c" and i: "i < T" and q: "jb = kLanes * q"
    and t: "tile_holds T cs (\<lambda>i' j. if P i' j then c i' j + (\<Sum>k<TK. a i' k * b k j) else c i' j)"
    and P: "\<And>j. block_of j = jb \<Longrightarrow> \<not> P i j"
  shows "tile_holds T (panel_block T TK as bs cs i jb)
    (\<lambda>i' j. if P i' j \<or> (i' = i \<and> block_of j = jb) then c i' j + (\<Sum>k<TK. a i' k * b k j) else c i' j)"
proof -
  have len: "length cs = T * T" using t by (simp add: tile_holds_def)
  have new: "f_holds (panel_block T TK as bs cs i jb ! (i * T + j)) (c i j + (\<Sum>k<TK. a i k * b k j))"
    if j: "j < T" "block_of j = jb" for j
  proof -
    from block_of_iff [OF q, of j] j have l: "jb \<le> j" "j - jb < kLanes" "jb + (j - jb) = j" by auto
    have old: "f_holds (cs ! (i * T + j)) (c i j)"
    proof -
      have "f_holds (cs ! (i * T + j)) (if P i j then c i j + (\<Sum>k<TK. a i k * b k j) else c i j)"
        using t i j(1) unfolding tile_holds_def by blast
      with P [OF j(2)] show ?thesis by (simp only: if_False)
    qed
    have "\<bar>c i j + (\<Sum>k<0. a i k * b k j)\<bar> < 2048" using ok i j unfolding panel_ok_def by blast
    then have "h_holds (foldl (\<lambda>acc kk. Fma (replicate kLanes (FloatToHalf (as ! (i * TK + kk))))
      (load_lanes bs T kk jb) acc) (load_lanes cs T i jb) [0..<TK] ! (j - jb)) (c i j + (\<Sum>k<TK. a i k * b k j))"
      using ok i j l old by (intro panel_lanes) (simp_all add: panel_ok_def)
    then show ?thesis
      using j by (simp add: panel_block_nth [OF len i i j(1) q] HalfToFloat_holds)
  qed
  have "f_holds (panel_block T TK as bs cs i jb ! (i' * T + j))
      (if P i' j \<or> (i' = i \<and> block_of j = jb) then c i' j + (\<Sum>k<TK. a i' k * b k j) else c i' j)"
    if ij: "i' < T" "j < T" for i' j
  proof (cases "i' = i \<and> block_of j = jb")
    case True
    then show ?thesis using new ij by simp
  next
    case False
    then have "panel_block T TK as bs cs i jb ! (i' * T + j) = cs ! (i' * T + j)"
      by (simp add: panel_block_nth [OF len i ij q] del: de_Morgan_conj)
    moreover have "f_holds (cs ! (i' * T + j))
        (if P i' j then c i' j + (\<Sum>k<TK. a i' k * b k j) else c i' j)"
      using t ij unfolding tile_holds_def by blast
    ultimately show ?thesis using False by (simp only: if_False simp_thms)
  qed
  then show ?thesis unfolding tile_holds_def by (simp add: len)
qed

lemma panel_row_holds:
  assumes ok: "panel_ok T TK as bs a b c" and i: "i < T"
    and t: "tile_holds T cs (\<lambda>i' j. if i' < i then c i' j + (\<Sum>k<TK. a i' k * b k j) else c i' j)"
  shows "distinct qs \<Longrightarrow> tile_holds T (foldl (\<lambda>cs jb. panel_block T TK as bs cs i jb) cs (map (\<lambda>q. kLanes * q) qs))
    (\<lambda>i' j. if i' < i \<or> (i' = i \<and> j div kLanes \<in> set qs) then c i' j + (\<Sum>k<TK. a i' k * b k j) else c i' j)"
proof (induction qs rule: rev_induct)
  case Nil
  then show ?case using t by simp
next
  case (snoc q qs)
  let ?P = "\<lambda>i' j. i' < i \<or> (i' = i \<and> j div kLanes \<in> set qs)"
  have b: "block_of j = kLanes * q \<longleftrightarrow> j div kLanes = q" for j
    by (simp add: block_of_def kLanes_4)
  have "tile_holds T (panel_block T TK as bs
      (foldl (\<lambda>cs jb. panel_block T TK as bs cs i jb) cs (map (\<lambda>q. kLanes * q) qs)) i (kLanes * q))
      (\<lambda>i' j. if ?P i' j \<or> (i' = i \<and> block_of j = kLanes * q)
         then c i' j + (\<Sum>k<TK. a i' k * b k j) else c i' j)"
    by (rule panel_block_holds [OF ok i refl]) (use snoc b in auto)
  moreover have "(\<lambda>i' j. if ?P i' j \<or> (i' = i \<and> block_of j = kLanes * q)
         then c i' j + (\<Sum>k<TK. a i' k * b k j) else c i' j) =
      (\<lambda>i' j. if i' < i \<or> (i' = i \<and> j div kLanes \<in> set (qs @ [q]))
         then c i' j + (\<Sum>k<TK. a i' k * b k j) else c i' j)"
    by (intro ext) (auto simp: b)
  ultimately show ?case by simp
qed

lemma panel_rows_hold:
  assumes ok: "panel_ok T TK as bs a b c" and t: "tile_holds T cs c" and n: "n \<le> T"
  shows "tile_holds T (foldl (\<lambda>cs i. foldl (\<lambda>cs jb. panel_block T TK as bs cs i jb) cs (column_blocks T)) cs [0..<n])
    (\<lambda>i' j. if i' < n then c i' j + (\<Sum>k<TK. a i' k * b k j) else c i' j)"
  using n
proof (induction n)
  case 0
  then show ?case using t by simp
next
  case (Suc n)
  then have n: "n < T" and IH: "tile_holds T (foldl (\<lambda>cs i. foldl (\<lambda>cs jb. panel_block T TK as bs cs i jb) cs
      (column_blocks T)) cs [0..<n]) (\<lambda>i' j. if i' < n then c i' j + (\<Sum>k<TK. a i' k * b k j) else c i' j)"
    by simp_all
  have "j div kLanes \<in> set [0..<(T + kLanes - 1) div kLanes]" if "j < T" for j
    using that unfolding kLanes_4 by simp
  then have "j < T \<Longrightarrow> (i' < n \<or> (i' = n \<and> j div kLanes \<in> set [0..<(T + kLanes - 1) div kLanes])) \<longleftrightarrow> i' < Suc n"
    for i' j by auto
  with panel_row_holds [OF ok n IH, of "[0..<(T + kLanes - 1) div kLanes]"] show ?case
    by (simp add: column_blocks_def tile_holds_def)
qed

section \<open>The plan\<close>

lemma tile_down_spec:
  "0 < k \<Longrightarrow> 0 < t \<Longrightarrow> 1 \<le> tile_down k t \<and> tile_down k t \<le> t \<and> k mod tile_down k t = 0 \<and>
     (\<forall>d. tile_down k t < d \<and> d \<le> t \<longrightarrow> k mod d \<noteq> 0)"
proof (induction k t rule: tile_down.induct)
  case (1 k t)
  show ?case
  proof (cases "t > 1 \<and> crem k t \<noteq> 0")
    case True
    then have c: "crem k t = k mod t" using "1.prems" by (simp add: crem_nonneg)
    have eq: "tile_down k t = tile_down k (t - 1)" using True by (simp add: tile_down.simps [of k t])
    from "1.IH" [OF True] "1.prems" True
    have IH: "1 \<le> tile_down k (t - 1)" "tile_down k (t - 1) \<le> t - 1" "k mod tile_down k (t - 1) = 0"
      "\<And>d. tile_down k (t - 1) < d \<Longrightarrow> d \<le> t - 1 \<Longrightarrow> k mod d \<noteq> 0" by auto
    have "k mod d \<noteq> 0" if "tile_down k (t - 1) < d" "d \<le> t" for d
      using IH(4) [OF that(1)] that(2) True c by (cases "d = t") simp_all
    then show ?thesis using IH unfolding eq by auto
  next
    case False
    have eq: "tile_down k t = t" by (subst tile_down.simps) (simp only: False if_False)
    have "k mod t = 0"
    proof (cases "t > 1")
      case True
      with False "1.prems" show ?thesis by (simp add: crem_nonneg)
    next
      case False
      with "1.prems" have "t = 1" by simp
      then show ?thesis by simp
    qed
    then show ?thesis using "1.prems" unfolding eq by auto
  qed
qed

section \<open>The routes\<close>

lemma router_at_set_router_eq:
  "dims_ok g \<Longrightarrow> InBounds g x y \<Longrightarrow> InBounds g x' y' \<Longrightarrow>
     router_at (set_router x' y' r g) x y = (if x = x' \<and> y = y' then r else router_at g x y)"
  using Index_inject [of g x y x' y'] by (simp add: router_at_def pes_set_router)

text \<open>What a grid's configuration says about color \<open>i\<close> at an element.\<close>

definition route_at :: "grid \<Rightarrow> int \<Rightarrow> int \<Rightarrow> nat \<Rightarrow> color_config option" where
  "route_at g x y i =
     (if has_config (router_at g x y) i then Some (config (router_at g x y) i) else None)"

lemma route_at_SetRoute:
  assumes "dims_ok g" and "InBounds g x y" and "InBounds g x' y'" and "IsRoutable c"
  shows "route_at (snd (SetRoute x' y' c rx tx g)) x y i =
      (if x = x' \<and> y = y' \<and> i = cid c then Some \<lparr>cfg_color = c, cfg_rx = rx, cfg_tx = tx\<rparr> else route_at g x y i)"
  using assms by (simp add: SetRoute_def SetColorConfig_def route_at_def router_at_set_router_eq)

lemma SetRoute_dims [simp]:
  "dims_ok (snd (SetRoute x y c rx tx g)) = dims_ok g" "InBounds (snd (SetRoute x y c rx tx g)) = InBounds g"
  "Neighbor (snd (SetRoute x y c rx tx g)) = Neighbor g" "width (snd (SetRoute x y c rx tx g)) = width g"
  "height (snd (SetRoute x y c rx tx g)) = height g"
  by (auto simp: SetRoute_def split: prod.splits)

definition plan_colors :: "summa_plan \<Rightarrow> bool" where
  "plan_colors plan \<longleftrightarrow> length (aColor plan) = 2 \<and> length (bColor plan) = 2 \<and>
     list_all IsRoutable (aColor plan @ bColor plan @ [xDone plan, yDone plan]) \<and>
     distinct (aColor plan @ bColor plan @ [xDone plan, yDone plan])"

text \<open>The broadcast pattern: A east, B south, both tapped locally; the far edges tap only.\<close>

definition a_mask :: "int \<Rightarrow> int \<Rightarrow> dir_mask" where
  "a_mask P x = (if x < P - 1 then mask_or (dir_mask_of East) (dir_mask_of Ramp) else dir_mask_of Ramp)"

definition b_mask :: "int \<Rightarrow> dir_mask" where
  "b_mask y = (if y > 0 then mask_or (dir_mask_of South) (dir_mask_of Ramp) else dir_mask_of Ramp)"

definition summa_routed :: "summa_plan \<Rightarrow> grid \<Rightarrow> int \<Rightarrow> int \<Rightarrow> bool" where
  "summa_routed plan g x y \<longleftrightarrow>
     list_all (\<lambda>c. route_at g x y (cid c) = Some \<lparr>cfg_color = c, cfg_rx = West, cfg_tx = a_mask (gridP plan) x\<rparr>)
       (aColor plan) \<and>
     list_all (\<lambda>c. route_at g x y (cid c) = Some \<lparr>cfg_color = c, cfg_rx = North, cfg_tx = b_mask y\<rparr>)
       (bColor plan)"

lemma length2: "length xs = 2 \<Longrightarrow> xs = [xs ! 0, xs ! 1]"
  by (cases xs; cases "tl xs") auto

lemma summa_routes_at_route:
  assumes c: "plan_colors plan" and g: "dims_ok g" "InBounds g x' y'"
  shows "dims_ok (summa_routes_at plan x' y' g) \<and> InBounds (summa_routes_at plan x' y' g) = InBounds g \<and>
    width (summa_routes_at plan x' y' g) = width g \<and> height (summa_routes_at plan x' y' g) = height g \<and>
    summa_routed plan (summa_routes_at plan x' y' g) x' y' \<and>
    (\<forall>x y. InBounds g x y \<longrightarrow> summa_routed plan g x y \<longrightarrow> summa_routed plan (summa_routes_at plan x' y' g) x y)"
proof -
  obtain a0 a1 b0 b1 where ab: "aColor plan = [a0, a1]" "bColor plan = [b0, b1]"
    using c length2 by (metis plan_colors_def)
  have r: "IsRoutable a0" "IsRoutable a1" "IsRoutable b0" "IsRoutable b1"
    and d: "cid a0 \<noteq> cid a1" "cid a0 \<noteq> cid b0" "cid a0 \<noteq> cid b1" "cid a1 \<noteq> cid b0" "cid a1 \<noteq> cid b1"
      "cid b0 \<noteq> cid b1"
    using c by (auto simp: plan_colors_def ab cid_inject)
  define h where "h = summa_routes_at plan x' y' g"
  have h: "h = snd (SetRoute x' y' b1 North (b_mask y') (snd (SetRoute x' y' b0 North (b_mask y')
      (snd (SetRoute x' y' a1 West (a_mask (gridP plan) x') (snd (SetRoute x' y' a0 West (a_mask (gridP plan) x') g)))))))"
    by (simp add: h_def summa_routes_at_def Let_def ab a_mask_def b_mask_def)
  have rt: "route_at h x y i =
     (if x = x' \<and> y = y' \<and> i = cid b1 then Some \<lparr>cfg_color = b1, cfg_rx = North, cfg_tx = b_mask y'\<rparr>
      else if x = x' \<and> y = y' \<and> i = cid b0 then Some \<lparr>cfg_color = b0, cfg_rx = North, cfg_tx = b_mask y'\<rparr>
      else if x = x' \<and> y = y' \<and> i = cid a1 then Some \<lparr>cfg_color = a1, cfg_rx = West, cfg_tx = a_mask (gridP plan) x'\<rparr>
      else if x = x' \<and> y = y' \<and> i = cid a0 then Some \<lparr>cfg_color = a0, cfg_rx = West, cfg_tx = a_mask (gridP plan) x'\<rparr>
      else route_at g x y i)" if "InBounds g x y" for x y i
    unfolding h using that g r by (simp add: route_at_SetRoute)
  have "summa_routed plan h x' y'"
    using rt [OF g(2)] d by (simp add: summa_routed_def ab)
  moreover have "summa_routed plan h x y" if "InBounds g x y" "summa_routed plan g x y" for x y
    using rt [OF that(1)] that(2) d by (auto simp: summa_routed_def ab)
  moreover have "dims_ok h" "InBounds h = InBounds g" "width h = width g" "height h = height g"
    using g by (simp_all add: h)
  ultimately show ?thesis by (simp add: h_def)
qed

lemma summa_rows_routed:
  assumes "plan_colors plan"
  shows "dims_ok g \<Longrightarrow> \<forall>(x, y) \<in> set ps. InBounds g x y \<Longrightarrow> h = foldl (\<lambda>g (x, y). summa_routes_at plan x y g) g ps \<Longrightarrow>
    dims_ok h \<and> InBounds h = InBounds g \<and> width h = width g \<and> height h = height g \<and>
    (\<forall>(x, y) \<in> set ps. summa_routed plan h x y)"
proof (induction ps arbitrary: h rule: rev_induct)
  case (snoc p ps)
  obtain x' y' where p: "p = (x', y')" by (cases p)
  let ?g1 = "foldl (\<lambda>g (x, y). summa_routes_at plan x y g) g ps"
  from snoc have IH: "dims_ok ?g1" "InBounds ?g1 = InBounds g" "width ?g1 = width g" "height ?g1 = height g"
    "\<forall>(x, y) \<in> set ps. summa_routed plan ?g1 x y" by auto
  have b: "InBounds ?g1 x' y'" using snoc.prems(2) IH(2) by (simp add: p)
  have h: "h = summa_routes_at plan x' y' ?g1" using snoc.prems(3) by (simp add: p)
  note one = summa_routes_at_route [OF assms IH(1) b, folded h]
  have "summa_routed plan h x y" if xy: "(x, y) \<in> set (ps @ [p])" for x y
  proof (cases "(x, y) = (x', y')")
    case True
    with one show ?thesis by simp
  next
    case False
    with xy have "(x, y) \<in> set ps" by (auto simp: p)
    with IH(5) have "summa_routed plan ?g1 x y" by blast
    moreover have "InBounds ?g1 x y" using snoc.prems(2) xy IH(2) by auto
    ultimately show ?thesis using one by blast
  qed
  with one IH show ?case by auto
qed simp

lemma foldl_nested: "foldl (\<lambda>s y. foldl (\<lambda>s x. f s x y) s xs) s ys =
    foldl (\<lambda>s (x, y). f s x y) s (concat (map (\<lambda>y. map (\<lambda>x. (x, y)) xs) ys))"
proof -
  have "foldl (\<lambda>s x. f s x y) s xs = foldl (\<lambda>s (x, y). f s x y) s (map (\<lambda>x. (x, y)) xs)" for s y
    by (induction xs arbitrary: s) simp_all
  then show ?thesis by (induction ys arbitrary: s) simp_all
qed

lemma summa_masks:
  "ForEachDir (mask_or (dir_mask_of East) (dir_mask_of Ramp)) = [Ramp, East]"
  "ForEachDir (mask_or (dir_mask_of South) (dir_mask_of Ramp)) = [Ramp, South]"
  by (simp_all add: ForEachDir_def all_dirs_def mask_or_def mask_from_bits_def dir_mask_of_def)

lemma routable_consts:
  "the (Routable 0) = \<lparr>color_id = 0\<rparr>" "the (Routable 1) = \<lparr>color_id = 1\<rparr>"
  "the (Routable 2) = \<lparr>color_id = 2\<rparr>" "the (Routable 3) = \<lparr>color_id = 3\<rparr>"
  "the (Routable 4) = \<lparr>color_id = 4\<rparr>" "the (Routable 5) = \<lparr>color_id = 5\<rparr>"
  by (simp_all add: Routable_def kNumRoutable_def word_le_nat_alt)

section \<open>Properties\<close>



text \<open>C10. The route setup gives every element the broadcast pattern, A from the west to the east and
  B from the north to the south with a local tap, and no route points outside the mesh, so the
  broadcast drops nothing.\<close>

theorem ConfigureSummaRoutes_pattern:
  assumes "plan_colors plan" and "dims_ok g" and "width g = gridP plan" and "height g = gridP plan"
  shows "\<exists>h. ConfigureSummaRoutes plan g = Some h \<and> (\<forall>x y. InBounds g x y \<longrightarrow>
    summa_routed plan h x y \<and>
    list_all (\<lambda>d. d = Ramp \<or> Neighbor h x y d \<noteq> None) (ForEachDir (a_mask (gridP plan) x) @ ForEachDir (b_mask y)))"
proof -
  let ?P = "gridP plan"
  define ps where "ps = concat (map (\<lambda>y. map (\<lambda>x. (x, y)) [0..?P - 1]) [0..?P - 1])"
  define h where "h = foldl (\<lambda>g (x, y). summa_routes_at plan x y g) g ps"
  have c: "ConfigureSummaRoutes plan g = Some h"
    by (simp add: ConfigureSummaRoutes_def assms Let_def h_def ps_def foldl_nested)
  have ps: "(x, y) \<in> set ps \<longleftrightarrow> InBounds g x y" for x y
    by (auto simp: ps_def InBounds_def assms image_iff)
  then have "\<forall>(x, y) \<in> set ps. InBounds g x y" by auto
  note r = summa_rows_routed [OF assms(1,2) this h_def]
  have n: "Neighbor h = Neighbor g" using r by (simp add: Neighbor_def fun_eq_iff)
  have "list_all (\<lambda>d. d = Ramp \<or> Neighbor h x y d \<noteq> None) (ForEachDir (a_mask ?P x) @ ForEachDir (b_mask y))"
    if "InBounds g x y" for x y
    using that by (auto simp: a_mask_def b_mask_def summa_masks n Neighbor_def InBounds_def assms)
  moreover have "summa_routed plan h x y" if "InBounds g x y" for x y
    using r that ps [of x y] by blast
  ultimately show ?thesis using c by blast
qed

theorem ConfigureSummaRoutes_pattern_witness:
  "let plan = the (LowerMatmulToSumma 4 4 4 2 0); g = the (new_grid 2 2)
   in \<exists>h. ConfigureSummaRoutes plan g = Some h \<and> (\<forall>x y. InBounds g x y \<longrightarrow>
    summa_routed plan h x y \<and>
    list_all (\<lambda>d. d = Ramp \<or> Neighbor h x y d \<noteq> None) (ForEachDir (a_mask (gridP plan) x) @ ForEachDir (b_mask y)))"
  unfolding Let_def
  by (rule ConfigureSummaRoutes_pattern)
    (simp_all add: LowerMatmulToSumma_def BuildPlan_def Let_def crem_nonneg cquot_nonneg plan_colors_def
      routable_consts IsRoutable_def kMaxRoutable_def new_grid_def dims_ok_def)

text \<open>The panel accumulate computes the integer product exactly: when the buffers and the tile
  hold integers and no partial sum reaches \<open>2048\<close> in magnitude, every element of the tile ends as
  \<open>c + sum a * b\<close>, without rounding, although the sums run through half precision four lanes at a
  time.\<close>

theorem PanelAccumulate_exact:
  assumes "tile_holds T (cTile s) c" and "panel_ok T TK (aBuf s) (bBuf s) a b c"
  shows "tile_holds T (cTile (PanelAccumulate T TK s)) (\<lambda>i j. c i j + (\<Sum>k<TK. a i k * b k j))"
  using panel_rows_hold [OF assms(2,1) order_refl] by (simp add: PanelAccumulate_def tile_holds_def)

lemma f_holds_0: "f_holds 0 0" and f_holds_1: "f_holds 0x3F800000 1" and f_holds_2: "f_holds 0x40000000 2"
  and f_holds_3: "f_holds 0x40400000 3"
proof -
  have d: "fp_decode binary32 (unat (0 :: u32)) = FFin False 0 (- 149)"
    "fp_decode binary32 (unat (0x3F800000 :: u32)) = FFin False 8388608 (- 23)"
    "fp_decode binary32 (unat (0x40000000 :: u32)) = FFin False 8388608 (- 22)"
    "fp_decode binary32 (unat (0x40400000 :: u32)) = FFin False 12582912 (- 22)"
    unfolding fp_decode_float by (simp_all add: f_exp_field_def f_man_field_def f_sign_def)
  show "f_holds 0 0" "f_holds 0x3F800000 1" "f_holds 0x40000000 2" "f_holds 0x40400000 3"
    using d [THEN fp_finite_val] by (simp_all add: f_holds_def fin_val_def power_int_minus)
qed

theorem PanelAccumulate_exact_witness:
  "let s = (new_pe_state 1 2)\<lparr>aBuf := [0x3F800000, 0x40000000], bBuf := [0x40400000, 0x3F800000]\<rparr>;
       a = (\<lambda>i k :: nat. if k = 0 then 1 else 2); b = (\<lambda>(k :: nat) j. if k = 0 then 3 else 1)
   in tile_holds 1 (cTile (PanelAccumulate 1 2 s)) (\<lambda>i j. 0 + (\<Sum>k<2. a i k * b k j))"
  unfolding Let_def
proof (rule PanelAccumulate_exact)
  let ?s = "(new_pe_state 1 2)\<lparr>aBuf := [0x3F800000, 0x40000000], bBuf := [0x40400000, 0x3F800000]\<rparr>"
  show "tile_holds 1 (cTile ?s) (\<lambda>i j. 0)" by (simp add: tile_holds_def new_pe_state_def f_holds_0)
  have "\<bar>0 + (\<Sum>k<n. (if k = 0 then 1 else 2) * (if k = 0 then 3 else 1))\<bar> < (2048 :: int)" if "n \<le> 2"
    for n :: nat
  proof -
    from that consider "n = 0" | "n = 1" | "n = 2" by linarith
    then show ?thesis by cases (simp_all add: numeral_2_eq_2)
  qed
  then show "panel_ok 1 2 (aBuf ?s) (bBuf ?s) (\<lambda>i k. if k = 0 then 1 else 2) (\<lambda>k j. if k = 0 then 3 else 1) (\<lambda>i j. 0)"
    by (simp add: panel_ok_def less_2_cases_iff f_holds_1 f_holds_2 f_holds_3)
qed

end
