(* ===== verification/Doubles.thy ===== *)
theory Doubles
  imports Ieee
begin

text \<open>
  The C++ type \<open>double\<close>: a binary64 bit pattern with the operations the sources use.
\<close>

type_synonym double = nat

definition d_of_int :: "int \<Rightarrow> double" where "d_of_int i = fp_of_int binary64 i"
definition d_of_u64 :: "u64 \<Rightarrow> double" where "d_of_u64 w = fp_of_int binary64 (uint w)"
definition d_div :: "double \<Rightarrow> double \<Rightarrow> double" where "d_div x y = fp_div binary64 x y"
definition d_mul :: "double \<Rightarrow> double \<Rightarrow> double" where "d_mul x y = fp_mul binary64 x y"
definition d_gt :: "double \<Rightarrow> double \<Rightarrow> bool" where "d_gt x y = fp_lt binary64 y x"
definition d_lt :: "double \<Rightarrow> double \<Rightarrow> bool" where "d_lt x y = fp_lt binary64 x y"
definition d_le :: "double \<Rightarrow> double \<Rightarrow> bool" where "d_le x y = fp_le binary64 x y"
definition d_ge :: "double \<Rightarrow> double \<Rightarrow> bool" where "d_ge x y = fp_le binary64 y x"

text \<open>A decimal literal \<open>a / b\<close> of the sources is the nearest double.\<close>

definition d_lit :: "nat \<Rightarrow> nat \<Rightarrow> double" where "d_lit a b = fp_round binary64 False a b"

section \<open>Ratios of integers\<close>

lemma d_of_int_decode:
  assumes "0 \<le> i" and "i < 2 ^ 53"
  shows "\<exists>m u. fp_decode binary64 (d_of_int i) = FFin False m u \<and> real m * 2 powi u = real_of_int i"
proof (cases "i = 0")
  case True
  then show ?thesis
    using fp_decode_zero [of binary64 False]
    by (simp add: d_of_int_def fp_of_int_def fp_round_def fp_round_mag_def binary64_def)
next
  case False
  have "real_of_int i < 2 ^ 53" using assms(2) by (metis of_int_less_iff of_int_numeral of_int_power)
  also have "\<dots> < (2::real) powi 1024" by simp
  finally have big: "real_of_int i < 2 powi 1024" .
  have "\<exists>m u. fp_decode binary64 (fp_round binary64 False (nat i) 1) = FFin False m u \<and>
      real m * 2 powi u = real (nat i) * 2 powi 0"
    by (rule fp_round_exact_decode)
      (use False assms big in \<open>simp_all add: binary64_def f_emin_def f_bias_def nat_less_iff\<close>)
  then show ?thesis using assms(1) by (simp add: d_of_int_def fp_of_int_def)
qed

lemma fp_div_ratio:
  assumes "fp_decode F x = FFin False m e" and "fp_decode F y = FFin False m' e'" and "m' \<noteq> 0"
  shows "\<exists>a b. 0 < b \<and> fp_div F x y = fp_round F False a b \<and>
    real a / real b = (real m * 2 powi e) / (real m' * 2 powi e')"
proof -
  obtain a b where ab: "dyadic m e = (a, b)" by (cases "dyadic m e")
  obtain c d where cd: "dyadic m' e' = (c, d)" by (cases "dyadic m' e'")
  note A = dyadic_val [OF ab] and C = dyadic_val [OF cd]
  have "0 < c" using C assms(3) by (cases "c = 0") auto
  then have "0 < b * c" using A by simp
  moreover have "fp_div F x y = fp_round F False (a * d) (b * c)"
    by (simp add: fp_div_def assms ab cd)
  moreover have "real (a * d) / real (b * c) = (real a / real b) / (real c / real d)" by simp
  then have "real (a * d) / real (b * c) = (real m * 2 powi e) / (real m' * 2 powi e')"
    unfolding A [THEN conjunct2] C [THEN conjunct2] .
  ultimately show ?thesis by blast
qed

text \<open>The quotient of two integers below \<open>2 ^ 53\<close> is the rounded ratio, and finite.\<close>

lemma d_div_round_of:
  assumes x: "fp_decode binary64 x = FFin False m u" "real m * 2 powi u = real R" "R < 2 ^ 53"
    and y: "fp_decode binary64 y = FFin False m' u'" "real m' * 2 powi u' = real T" "0 < T"
  shows "\<exists>a b. 0 < b \<and> d_div x y = fp_round binary64 False a b \<and> a * T = R * b \<and>
    fp_round_mag binary64 a b < fp_inf_mag binary64"
proof -
  have "m' \<noteq> 0" using y(2,3) by (cases "m' = 0") simp_all
  from fp_div_ratio [OF x(1) y(1) this] obtain a b where
    ab: "0 < b" "d_div x y = fp_round binary64 False a b"
    "real a / real b = real R / real T" by (auto simp: x(2) y(2) d_div_def)
  have "real (a * T) = real (R * b)" using ab(1,3) y(3) by (simp add: field_simps)
  then have cross: "a * T = R * b" by (simp only: of_nat_eq_iff)
  let ?g = "fp_round_mag binary64 a b"
  have "a * 1 \<le> 2 ^ 53 * b"
  proof -
    have "a * 1 \<le> a * T" by (rule mult_le_mono2) (use y(3) in linarith)
    also have "\<dots> \<le> 2 ^ 53 * b" unfolding cross using x(3) by (intro mult_le_mono1) simp
    finally show ?thesis .
  qed
  then have "?g \<le> fp_round_mag binary64 (2 ^ 53) 1"
    by (intro fp_round_mag_mono ab(1)) simp_all
  also have "\<dots> < fp_inf_mag binary64"
  proof -
    have l: "ilog2 9007199254740992 = 53" "ilog2 (Suc 0) = 0" by (rule ilog2_eqI; simp)+
    show ?thesis
      by (simp add: fp_round_mag_def frac_exponent_def l scale_frac_def binary64_def f_emin_def f_bias_def
          fp_inf_mag_def div_rne_def Let_def)
  qed
  finally show ?thesis using ab(1,2) cross by blast
qed

lemma d_div_round:
  assumes "fp_decode binary64 x = FFin False m u" "real m * 2 powi u = real R" "R < 2 ^ 53"
    and s: "0 \<le> s" "s < 2 ^ 53" "0 < s"
  shows "\<exists>a b. 0 < b \<and> d_div x (d_of_int s) = fp_round binary64 False a b \<and> a * nat s = R * b \<and>
    fp_round_mag binary64 a b < fp_inf_mag binary64"
proof -
  from d_of_int_decode [OF s(1,2)] obtain m' u' where
    y: "fp_decode binary64 (d_of_int s) = FFin False m' u'" "real m' * 2 powi u' = real_of_int s" by blast
  have T: "real_of_int s = real (nat s)" "0 < nat s" using s by simp_all
  show ?thesis by (rule d_div_round_of [OF assms(1-3) y(1) y(2) [unfolded T(1)] T(2)])
qed

text \<open>A product of integers below \<open>2 ^ 53\<close> is exact.\<close>

lemma d_mul_decode:
  assumes "0 \<le> i" "0 \<le> j" "i < 2 ^ 53" "j < 2 ^ 53" "i * j < 2 ^ 53"
  shows "\<exists>m u. fp_decode binary64 (d_mul (d_of_int i) (d_of_int j)) = FFin False m u \<and> real m * 2 powi u = real (nat (i * j))"
proof -
  obtain m u m' u' where d: "fp_decode binary64 (d_of_int i) = FFin False m u" "real m * 2 powi u = real_of_int i"
    "fp_decode binary64 (d_of_int j) = FFin False m' u'" "real m' * 2 powi u' = real_of_int j"
    using d_of_int_decode [OF assms(1,3)] d_of_int_decode [OF assms(2,4)] by blast
  obtain a b where ab: "dyadic (m * m') (u + u') = (a, b)" by (cases "dyadic (m * m') (u + u')")
  have prod: "d_mul (d_of_int i) (d_of_int j) = fp_round binary64 False a b"
    by (simp add: d_mul_def fp_mul_def d round_dyadic_def ab)
  have pos: "0 \<le> i * j" using assms(1,2) by simp
  have "real m * 2 powi u * (real m' * 2 powi u') = real_of_int (i * j)" by (simp only: d(2,4) of_int_mult)
  then have val: "0 < b" "real a / real b = real (nat (i * j))"
    using dyadic_val [OF ab] pos by (simp_all add: power_int_add mult_ac)
  show ?thesis
  proof (cases "i * j = 0")
    case True
    have "real a / real b = 0" unfolding val(2) True by simp
    then have "a = 0" using val(1) by simp
    then show ?thesis unfolding prod True
      using fp_decode_zero [of binary64 False] by (simp add: fp_round_def fp_round_mag_def binary64_def)
  next
    case False
    then have "0 < i * j" using pos by linarith
    then have gr: "0 < nat (i * j)" by (simp only: zero_less_nat_eq)
    have small: "nat (i * j) < 2 ^ 53" using assms(5) pos by (simp add: nat_less_iff)
    then have "real (nat (i * j)) < real (2 ^ 53)" by (simp only: of_nat_less_iff)
    also have "\<dots> < (2::real) powi 1024" by simp
    finally have big: "real (nat (i * j)) < 2 powi 1024" .
    have "\<exists>m u. fp_decode binary64 (fp_round binary64 False a b) = FFin False m u \<and> real m * 2 powi u = real (nat (i * j)) * 2 powi 0"
    proof (rule fp_round_exact_decode [OF gr])
      show "real (nat (i * j)) * 2 powi 0 < 2 powi (int (f_bias binary64) + 1)" using big by (simp add: binary64_def f_bias_def)
    qed (use small val in \<open>simp_all add: binary64_def f_emin_def f_bias_def\<close>)
    then show ?thesis unfolding prod by simp
  qed
qed

text \<open>Comparing such a quotient with a fixed ratio is exact, as long as the rounding keeps the ratio apart
  from the next smaller one the divisor allows.\<close>

lemma d_quotient_less:
  assumes q: "0 < b" "a * T = R * b" "fp_round_mag binary64 a b < fp_inf_mag binary64" "0 < T" "T \<le> B"
    and t: "0 < d" "fp_round_mag binary64 c d < fp_inf_mag binary64"
    and below: "fp_round_mag binary64 (c * B - 1) (d * B) < fp_round_mag binary64 c d"
  shows "d_lt (fp_round binary64 False a b) (fp_round binary64 False c d) \<longleftrightarrow> R * d < c * T"
proof -
  have "d_lt (fp_round binary64 False a b) (fp_round binary64 False c d) \<longleftrightarrow> fp_round_mag binary64 a b < fp_round_mag binary64 c d"
    using fp_lt_round [OF q(3) t(2)] by (simp add: d_lt_def binary64_def)
  also have "\<dots> \<longleftrightarrow> R * d < c * T"
  proof (cases "R * d < c * T")
    case True
    have "a * (d * B) * T = (a * T) * (d * B)" by simp
    also have "\<dots> = (R * d) * (b * B)" unfolding q(2) by simp
    also have "\<dots> \<le> (c * T - 1) * (b * B)" using True by (intro mult_le_mono1) linarith
    also have "\<dots> = c * B * b * T - b * B" by (simp add: diff_mult_distrib algebra_simps)
    also have "\<dots> \<le> c * B * b * T - b * T" using q(5) by (intro diff_le_mono2 mult_le_mono2)
    also have "\<dots> = (c * B - 1) * b * T" by (simp add: diff_mult_distrib)
    finally have "a * (d * B) \<le> (c * B - 1) * b" using q(4) by (simp only: mult_le_cancel2)
    moreover have "0 < d * B" using t(1) q(4,5) by simp
    ultimately have "fp_round_mag binary64 a b \<le> fp_round_mag binary64 (c * B - 1) (d * B)"
      by (intro fp_round_mag_mono q(1))
    with below True show ?thesis by simp
  next
    case False
    then have "c * T * b \<le> R * d * b" by (intro mult_le_mono1) simp
    also have "\<dots> = a * d * T" using q(2) by (simp add: ac_simps)
    finally have "c * b * T \<le> a * d * T" by (simp add: ac_simps)
    then have "c * b \<le> a * d" using q(4) by (simp only: mult_le_cancel2)
    from fp_round_mag_mono [OF t(1) q(1) this, of binary64] False show ?thesis by simp
  qed
  finally show ?thesis .
qed

lemma d_ratio_less:
  assumes x: "fp_decode binary64 x = FFin False m u" "real m * 2 powi u = real R" "R < 2 ^ 53"
    and s: "0 < s" "s < 2 ^ 20"
    and below: "fp_round_mag binary64 (c * 2 ^ 20 - 1) (2 ^ 20) < fp_round_mag binary64 c 1"
    and top: "fp_round_mag binary64 c 1 < fp_inf_mag binary64"
  shows "d_lt (d_div x (d_of_int s)) (d_of_int (int c)) \<longleftrightarrow> R < c * nat s"
proof -
  have "0 \<le> s" "s < 2 ^ 53" using s by simp_all
  from d_div_round [OF x this s(1)] obtain a b where ab: "0 < b" "d_div x (d_of_int s) = fp_round binary64 False a b"
    "a * nat s = R * b" "fp_round_mag binary64 a b < fp_inf_mag binary64" by blast
  have T: "0 < nat s" "nat s \<le> 2 ^ 20" using s by simp_all
  have "d_of_int (int c) = fp_round binary64 False c 1" by (simp add: d_of_int_def fp_of_int_def)
  then show ?thesis using d_quotient_less [OF ab(1,3,4) T, of 1 c] below top by (simp add: ab(2))
qed

text \<open>The percentages the reports compare with.\<close>

lemma mag_percent:
  "fp_round_mag binary64 (50 * 2 ^ 20 - 1) (2 ^ 20) < fp_round_mag binary64 50 1" "fp_round_mag binary64 50 1 < fp_inf_mag binary64"
  "fp_round_mag binary64 (100 * 2 ^ 20 - 1) (2 ^ 20) < fp_round_mag binary64 100 1" "fp_round_mag binary64 100 1 < fp_inf_mag binary64"
proof -
  have l: "ilog2 (Suc 0) = 0" "ilog2 50 = 5" "ilog2 100 = 6" "ilog2 52428799 = 25" "ilog2 104857599 = 26" "ilog2 1048576 = 20"
    by (rule ilog2_eqI; simp)+
  show "fp_round_mag binary64 (50 * 2 ^ 20 - 1) (2 ^ 20) < fp_round_mag binary64 50 1" "fp_round_mag binary64 50 1 < fp_inf_mag binary64"
    "fp_round_mag binary64 (100 * 2 ^ 20 - 1) (2 ^ 20) < fp_round_mag binary64 100 1" "fp_round_mag binary64 100 1 < fp_inf_mag binary64"
    by (simp_all add: fp_round_mag_def frac_exponent_def l scale_frac_def binary64_def f_emin_def f_bias_def
        fp_inf_mag_def div_rne_def Let_def)
qed

end
