(* ===== verification/Metrics.thy ===== *)
theory Metrics
  imports Summa Doubles
begin

text \<open>
  The simulator metrics (\<open>Metrics.h\<close>, \<open>Metrics.cpp\<close>): the analytic model of utilisation, SRAM
  pressure, traffic and critical path over a plan and the result of its run. The \<open>uint64_t\<close> counters are
  64-bit words.
\<close>

section \<open>The model\<close>

datatype comm_state = Active | Delayed | Backpressure | Idle

fun CommStateName :: "comm_state \<Rightarrow> string" where
  "CommStateName Active = ''active''"
| "CommStateName Delayed = ''delayed''"
| "CommStateName Backpressure = ''backpressure''"
| "CommStateName Idle = ''idle''"

record metrics =
  activePes :: int
  totalPes :: int
  utilization :: double
  residentBytes :: int
  sramBytes :: int
  sramPressure :: double
  aWavelets :: u64
  bWavelets :: u64
  messagesSent :: u64
  avgHopDistance :: double
  commState :: comm_state
  bottleneck :: string
  bottleneckCause :: string
  cycles :: u64
  criticalPathCycles :: u64
  intermediateElements :: int
  eliminatedWavelets :: u64
  fusedWavelets :: u64
  unfusedWavelets :: u64
  trafficReductionPct :: double
  panelComputes :: u64
  droppedOffGrid :: u64

definition kElemBytes :: int where "kElemBytes = 4"

definition ResidentBytes :: "summa_plan \<Rightarrow> int" where
  "ResidentBytes plan =
     (let e = kElemBytes;
          cT = tileM plan * tileN plan * e;
          aD = 2 * tileM plan * tileK plan * e;
          bD = 2 * tileK plan * tileN plan * e
      in cT + aD + bD)"

definition ClassifyBottleneck :: "metrics \<Rightarrow> comm_state" where
  "ClassifyBottleneck m =
     (if d_gt (sramPressure m) (d_of_int 1) then Backpressure
      else if droppedOffGrid m > 0 then Backpressure
      else if messagesSent m = 0 \<and> panelComputes m = 0 then Idle
      else if criticalPathCycles m > 0 \<and> cycles m > 4 * criticalPathCycles m then Delayed
      else Active)"

text \<open>The signals gathered before the verdict.\<close>

definition metric_signals :: "summa_plan \<Rightarrow> summa_result \<Rightarrow> int \<Rightarrow> metrics" where
  "metric_signals plan result interm =
     (let total = gridP plan * gridP plan;
          active = (if res_computes result > 0 then total else 0);
          rb = ResidentBytes plan; sb = int kTotalBytes;
          aw = of_nat (res_a result); bw = of_nat (res_b result); sent = aw + bw;
          elim = (if interm > 0 then 2 * of_int interm else 0);
          unf = sent + elim
      in \<lparr>activePes = active, totalPes = total,
          utilization = (if total > 0 then d_div (d_of_int active) (d_of_int total) else d_of_int 0),
          residentBytes = rb, sramBytes = sb,
          sramPressure = d_div (d_of_int rb) (d_of_int sb),
          aWavelets = aw, bWavelets = bw, messagesSent = sent,
          avgHopDistance = (if gridP plan > 0 then d_of_int (gridP plan - 1) else d_of_int 0),
          commState = Idle, bottleneck = ''idle'', bottleneckCause = ''none'',
          cycles = of_nat (res_cycles result),
          criticalPathCycles = of_int ((gridP plan - 1) + steps plan),
          intermediateElements = interm, eliminatedWavelets = elim,
          fusedWavelets = sent, unfusedWavelets = unf,
          trafficReductionPct = (if unf > 0
            then d_div (d_mul (d_of_int 100) (d_of_u64 elim)) (d_of_u64 unf) else d_of_int 0),
          panelComputes = of_nat (res_computes result),
          droppedOffGrid = of_nat (res_dropped result)\<rparr>)"

definition ComputeMetrics :: "summa_plan \<Rightarrow> summa_result \<Rightarrow> int \<Rightarrow> metrics option" where
  "ComputeMetrics plan result interm =
     (if \<not> gridP plan > 0 then None
      else let m = metric_signals plan result interm;
               cs = ClassifyBottleneck m
           in Some (m\<lparr>commState := cs, bottleneck := CommStateName cs,
                      bottleneckCause :=
                        (if cs = Backpressure
                         then (if d_gt (sramPressure m) (d_of_int 1) then ''sram_over_subscription'' else ''fabric_drop'')
                         else if cs = Delayed then ''fabric_latency'' else ''none'')\<rparr>))"

section \<open>The pressure test does not suffer from rounding\<close>

lemma mag_consts:
  "fp_round_mag binary64 1 1 = 1023 * 2 ^ 52"
  "fp_round_mag binary64 (2 ^ 20 + 1) (2 ^ 20) = 1023 * 2 ^ 52 + 2 ^ 32"
  "fp_round_mag binary64 (2 ^ 53) 1 = 1076 * 2 ^ 52"
proof -
  have l: "ilog2 1 = 0" "ilog2 1048577 = 20" "ilog2 1048576 = 20" "ilog2 9007199254740992 = 53"
    by (rule ilog2_eqI, simp, simp)+
  have l1: "ilog2 (Suc 0) = 0" using l(1) by simp
  show "fp_round_mag binary64 1 1 = 1023 * 2 ^ 52"
    by (simp add: fp_round_mag_def frac_exponent_def l1 scale_frac_def binary64_def f_emin_def f_bias_def
        fp_inf_mag_def div_rne_def Let_def)
  show "fp_round_mag binary64 (2 ^ 20 + 1) (2 ^ 20) = 1023 * 2 ^ 52 + 2 ^ 32"
    by (simp add: fp_round_mag_def frac_exponent_def l scale_frac_def binary64_def f_emin_def f_bias_def
        fp_inf_mag_def div_rne_def Let_def)
  show "fp_round_mag binary64 (2 ^ 53) 1 = 1076 * 2 ^ 52"
    by (simp add: fp_round_mag_def frac_exponent_def l l1 scale_frac_def binary64_def f_emin_def f_bias_def
        fp_inf_mag_def div_rne_def Let_def)
qed

lemma over_one:
  assumes r: "0 \<le> r" "r < 2 ^ 53" and s: "0 < s" "s < 2 ^ 20"
  shows "d_gt (d_div (d_of_int r) (d_of_int s)) (d_of_int 1) \<longleftrightarrow> s < r"
proof -
  define R S where "R = nat r" and "S = nat s"
  have RS: "real_of_int r = real R" "S = nat s" "0 < S" "R < 2 ^ 53" "S < 2 ^ 20"
    using r s by (simp_all add: R_def S_def nat_less_iff)
  have "0 \<le> s" "s < 2 ^ 53" using s by simp_all
  from d_of_int_decode [OF r] d_div_round [OF _ _ RS(4) this s(1), of "d_of_int r"] obtain a b where
    ab: "0 < b" "d_div (d_of_int r) (d_of_int s) = fp_round binary64 False a b" "a * S = R * b"
    "fp_round_mag binary64 a b < fp_inf_mag binary64" unfolding RS(1,2) by blast
  note cross = ab(3) and fin = ab(4)
  let ?g = "fp_round_mag binary64 a b"
  have "fp_round_mag binary64 1 1 < fp_inf_mag binary64"
    by (simp only: mag_consts) (simp add: fp_inf_mag_def binary64_def)
  moreover have "d_of_int 1 = fp_round binary64 False 1 1" by (simp add: d_of_int_def fp_of_int_def)
  moreover have "0 < f_exp binary64" by (simp add: binary64_def)
  ultimately have "d_gt (d_div (d_of_int r) (d_of_int s)) (d_of_int 1) \<longleftrightarrow> 1023 * 2 ^ 52 < ?g"
    using fp_lt_round [OF _ fin, of 1 1] unfolding d_gt_def ab(2) mag_consts(1) by (simp only:)
  also have "\<dots> \<longleftrightarrow> s < r"
  proof (cases "s < r")
    case True
    then have "Suc S \<le> R" using s(1) by (simp add: R_def S_def)
    have "(2 ^ 20 + 1) * b * S \<le> a * 2 ^ 20 * S"
    proof -
      have "(2 ^ 20 + 1) * S \<le> 2 ^ 20 * Suc S" using RS(5) by simp
      also have "\<dots> \<le> 2 ^ 20 * R" using \<open>Suc S \<le> R\<close> by (rule mult_le_mono2)
      finally have "(2 ^ 20 + 1) * S * b \<le> 2 ^ 20 * R * b" by (rule mult_le_mono1)
      moreover have "(2 ^ 20 + 1) * b * S = (2 ^ 20 + 1) * S * b" by (simp only: mult.assoc mult.commute [of b S])
      moreover have "a * 2 ^ 20 * S = 2 ^ 20 * (a * S)" by (simp only: ac_simps)
      ultimately show ?thesis unfolding cross by (simp only: mult.assoc)
    qed
    then have "(2 ^ 20 + 1) * b \<le> a * 2 ^ 20" using RS(3) by (simp only: mult_le_cancel2)
    from fp_round_mag_mono [OF _ ab(1) this, of binary64] have "1023 * 2 ^ 52 + 2 ^ 32 \<le> ?g"
      by (simp only: mag_consts) simp
    with True show ?thesis by simp
  next
    case False
    then have "R \<le> S" by (simp add: R_def S_def)
    then have "a * S \<le> b * S" unfolding cross by (simp add: mult.commute)
    then have "a * 1 \<le> 1 * b" using RS(3) by simp
    from fp_round_mag_mono [OF ab(1) _ this, of binary64] have "?g \<le> 1023 * 2 ^ 52"
      by (simp only: mag_consts)
    with False show ?thesis by simp
  qed
  finally show ?thesis .
qed

section \<open>Properties\<close>

lemma of_nat_u64_gt:
  assumes "n < 2 ^ 64"
  shows "(0 < (of_nat n :: u64)) = (0 < n)" "((of_nat n :: u64) = 0) = (n = 0)"
proof -
  have "unat (of_nat n :: u64) = n" using assms by (simp add: unsigned_of_nat take_bit_nat_eq_self)
  then show "(0 < (of_nat n :: u64)) = (0 < n)" "((of_nat n :: u64) = 0) = (n = 0)"
    by (metis unat_gt_0 word_neq_0_conv, metis unat_0 unat_eq_zero)
qed

text \<open>The counters the latency test compares do not wrap below \<open>2 ^ 62\<close>.\<close>

lemma latency_test:
  assumes "0 \<le> c" "c < 2 ^ 62" "n < 2 ^ 64"
  shows "((of_int c :: u64) > 0 \<and> (of_nat n :: u64) > 4 * of_int c) = (0 < c \<and> 4 * c < int n)"
proof -
  have c: "uint (of_int c :: u64) = c" using assms(1,2) by (simp add: unsigned_of_int take_bit_int_eq_self)
  have "uint (4 * of_int c :: u64) = 4 * c"
    using assms(1,2) by (simp add: uint_word_arith_bintrs c take_bit_int_eq_self)
  moreover have "uint (of_nat n :: u64) = int n"
    using assms(3) by (simp add: unsigned_of_nat take_bit_nat_eq_self)
  ultimately show ?thesis by (simp add: word_less_def c)
qed

text \<open>C11. The bottleneck verdict is decided by exact integers, although the pressure is a rounded quotient and the
  counters are 64-bit. It is backpressure exactly when the resident bytes of the plan exceed the 48 KB or a
  wavelet was dropped; otherwise idle exactly when nothing was sent and nothing computed; otherwise
  delayed exactly when the run took more than four times a critical path that is not empty; and active
  in every other case. Its cause is over-subscription, whenever there is any, then loss, then latency, and none
  for the idle and the active state.\<close>

theorem ComputeMetrics_verdict:
  assumes "ComputeMetrics plan result interm = Some mt"
    and "0 \<le> ResidentBytes plan" and "ResidentBytes plan < 2 ^ 53"
    and "0 \<le> steps plan" and "gridP plan - 1 + steps plan < 2 ^ 62"
    and "res_a result + res_b result < 2 ^ 64" and "res_computes result < 2 ^ 64"
    and "res_dropped result < 2 ^ 64" and "res_cycles result < 2 ^ 64"
  shows "let over = 49152 < ResidentBytes plan; lost = 0 < res_dropped result;
       quiet = (res_a result = 0 \<and> res_b result = 0 \<and> res_computes result = 0);
       crit = gridP plan - 1 + steps plan; late = (0 < crit \<and> 4 * crit < int (res_cycles result))
   in (commState mt = Backpressure) = (over \<or> lost) \<and>
      (commState mt = Idle) = (\<not> over \<and> \<not> lost \<and> quiet) \<and>
      (commState mt = Delayed) = (\<not> over \<and> \<not> lost \<and> \<not> quiet \<and> late) \<and>
      (commState mt = Active) = (\<not> over \<and> \<not> lost \<and> \<not> quiet \<and> \<not> late) \<and>
      bottleneck mt = CommStateName (commState mt) \<and>
      (bottleneckCause mt = ''sram_over_subscription'') = over \<and>
      (bottleneckCause mt = ''fabric_drop'') = (\<not> over \<and> lost) \<and>
      (bottleneckCause mt = ''fabric_latency'') = (commState mt = Delayed) \<and>
      (bottleneckCause mt = ''none'') = (commState mt = Idle \<or> commState mt = Active)"
proof -
  have "d_gt (d_div (d_of_int (ResidentBytes plan)) (d_of_int 49152)) (d_of_int 1) \<longleftrightarrow> 49152 < ResidentBytes plan"
    by (rule over_one) (use assms(2,3) in simp_all)
  then have p: "d_gt (sramPressure (metric_signals plan result interm)) (d_of_int 1) \<longleftrightarrow>
      49152 < ResidentBytes plan"
    by (simp add: metric_signals_def Let_def sram_consts)
  have g: "gridP plan > 0" using assms(1) by (simp add: ComputeMetrics_def split: if_splits)
  let ?m = "metric_signals plan result interm" and ?cs = "ClassifyBottleneck (metric_signals plan result interm)"
  let ?over = "49152 < ResidentBytes plan" and ?lost = "0 < res_dropped result"
  let ?quiet = "res_a result = 0 \<and> res_b result = 0 \<and> res_computes result = 0"
  let ?crit = "gridP plan - 1 + steps plan"
  let ?late = "0 < ?crit \<and> 4 * ?crit < int (res_cycles result)"
  let ?mt = "?m\<lparr>commState := ?cs, bottleneck := CommStateName ?cs, bottleneckCause :=
      (if ?cs = Backpressure then (if ?over then ''sram_over_subscription'' else ''fabric_drop'')
       else if ?cs = Delayed then ''fabric_latency'' else ''none'')\<rparr>"
  have "Some ?mt = Some mt"
    using assms(1) g unfolding ComputeMetrics_def Let_def p by (simp only: simp_thms if_False)
  then have mt: "mt = ?mt" by (simp only: option.inject)
  have lost: "(droppedOffGrid ?m > 0) = ?lost"
    using of_nat_u64_gt(1) [OF assms(8)] by (simp add: metric_signals_def Let_def)
  have sent: "messagesSent ?m = of_nat (res_a result + res_b result)" "panelComputes ?m = of_nat (res_computes result)"
    by (simp_all add: metric_signals_def Let_def)
  have quiet: "(messagesSent ?m = 0 \<and> panelComputes ?m = 0) = ?quiet"
    unfolding sent of_nat_u64_gt [OF assms(6)] of_nat_u64_gt [OF assms(7)] by auto
  have "criticalPathCycles ?m = of_int ?crit" "cycles ?m = of_nat (res_cycles result)"
    by (simp_all add: metric_signals_def Let_def)
  then have late: "(criticalPathCycles ?m > 0 \<and> cycles ?m > 4 * criticalPathCycles ?m) = ?late"
    using latency_test [of ?crit "res_cycles result"] g assms(4,5,9) by simp
  have "?cs = (if ?over then Backpressure else if ?lost then Backpressure else if ?quiet then Idle
      else if ?late then Delayed else Active)"
    unfolding ClassifyBottleneck_def p lost quiet late ..
  then show ?thesis unfolding mt Let_def by simp
qed

text \<open>A run of 100 cycles on a grid of 4 x 4 elements, whose critical path is 3 + 4 cycles, is delayed.\<close>

theorem ComputeMetrics_verdict_witness:
  "let plan = the (LowerMatmulToSumma 128 128 128 4 32);
       res = \<lparr>res_c = [], res_cycles = 100, res_computes = 64, res_a = 10, res_b = 10, res_dropped = 0\<rparr>;
       mt = the (ComputeMetrics plan res 0)
   in commState mt = Delayed \<and> bottleneckCause mt = ''fabric_latency''"
proof -
  let ?plan = "the (LowerMatmulToSumma 128 128 128 4 32)"
  let ?res = "\<lparr>res_c = [], res_cycles = 100, res_computes = 64, res_a = 10, res_b = 10, res_dropped = 0\<rparr>"
  have t: "tile_down 128 32 = 32" by (subst tile_down.simps) (simp add: crem_nonneg)
  have p: "tileM ?plan = 32" "tileN ?plan = 32" "tileK ?plan = 32" "gridP ?plan = 4" "steps ?plan = 4"
    by (simp_all add: LowerMatmulToSumma_def BuildPlan_def Let_def crem_nonneg cquot_nonneg ChooseTileK_def t)
  have "ComputeMetrics ?plan ?res 0 = Some (the (ComputeMetrics ?plan ?res 0))"
    by (simp add: ComputeMetrics_def p Let_def)
  from ComputeMetrics_verdict [OF this] show ?thesis
    by (simp add: p ResidentBytes_def kElemBytes_def Let_def)
qed

end
