(* ===== verification/ConfigSpace.thy ===== *)
theory ConfigSpace
  imports Prelude "HOL-Library.List_Lexorder" "HOL-Library.Char_ord"
begin

text \<open>
  The autotuner's search space (\<open>ConfigSpace.h\<close>, \<open>ConfigSpace.cpp\<close>): the seven-axis grid of matmul
  schedules, the pruning rules in their order, and the enumeration of the survivors. The
  \<open>long long\<close> products are modelled by \<open>int\<close>; on the grid none comes near \<open>2 ^ 63\<close>.
\<close>

section \<open>Configurations and their order\<close>

datatype config = Config (block_m: int) (block_n: int) (block_k: int) (num_warps: int)
  (vector_width: int) (unroll: int) (shared_memory_stages: int)

text \<open>The defaulted \<open>operator<=>\<close> compares the members in declaration order.\<close>

definition config_key :: "config \<Rightarrow> int list" where
  "config_key c = [block_m c, block_n c, block_k c, num_warps c, vector_width c, unroll c,
     shared_memory_stages c]"

lemma config_key_inject [simp]: "config_key c = config_key d \<longleftrightarrow> c = d"
  by (cases c; cases d) (simp add: config_key_def)

instantiation config :: linorder
begin

definition less_eq_config :: "config \<Rightarrow> config \<Rightarrow> bool" where
  "less_eq_config c d \<longleftrightarrow> config_key c \<le> config_key d"

definition less_config :: "config \<Rightarrow> config \<Rightarrow> bool" where
  "less_config c d \<longleftrightarrow> config_key c < config_key d"

instance
  by standard (auto simp: less_eq_config_def less_config_def order.strict_iff_order)

end

record arch_limits =
  smem_per_sm_bytes :: int
  regs_per_sm :: int
  min_blocks_per_sm :: int
  max_regs_per_thread :: int
  elem_bytes :: int

definition default_limits :: arch_limits where
  "default_limits = \<lparr>smem_per_sm_bytes = 233472, regs_per_sm = 65536, min_blocks_per_sm = 2,
     max_regs_per_thread = 128, elem_bytes = 2\<rparr>"

section \<open>The grid and the pruner\<close>

definition kBlockM :: "int list" where "kBlockM = [16, 32, 64, 128]"
definition kBlockN :: "int list" where "kBlockN = [16, 32, 64, 128]"
definition kBlockK :: "int list" where "kBlockK = [32, 64, 128]"
definition kNumWarps :: "int list" where "kNumWarps = [4, 8]"
definition kVectorWidth :: "int list" where "kVectorWidth = [1, 2, 4, 8]"
definition kUnroll :: "int list" where "kUnroll = [1, 2, 4, 8]"
definition kStages :: "int list" where "kStages = [2, 3, 4]"

definition kMinTileFor8Warps :: int where "kMinTileFor8Warps = 4096"
definition kMinElemsPerThread :: int where "kMinElemsPerThread = 4"

definition tile_operands :: "config \<Rightarrow> int" where
  "tile_operands c = block_m c * block_k c + block_k c * block_n c"

definition RegisterEstimate :: "config \<Rightarrow> int \<Rightarrow> int" where
  "RegisterEstimate c threads =
     (let tile = block_m c * block_n c;
          acc = cquot (tile * unroll c) threads;
          staging = cquot (tile_operands c * unroll c) threads
      in acc + staging)"

definition FullGrid :: "config list" where
  "FullGrid = concat (map (\<lambda>bm. concat (map (\<lambda>bn. concat (map (\<lambda>bk. concat (map (\<lambda>nw.
     concat (map (\<lambda>vw. concat (map (\<lambda>un. map (\<lambda>st. Config bm bn bk nw vw un st)
       kStages) kUnroll)) kVectorWidth)) kNumWarps)) kBlockK)) kBlockN)) kBlockM)"

definition RejectionReason :: "config \<Rightarrow> arch_limits \<Rightarrow> string" where
  "RejectionReason c limits =
     (let threads = num_warps c * 32;
          tile = block_m c * block_n c
      in if threads \<le> 0 \<or> crem tile threads \<noteq> 0
         then ''BLOCK_M*BLOCK_N must be divisible by num_warps*32''
      else let elems_per_thread = cquot tile threads
      in if tile < kMinTileFor8Warps \<and> num_warps c = 8
         then ''BLOCK_M*BLOCK_N < 4096 cannot feed num_warps=8''
      else let smem = shared_memory_stages c * tile_operands c * elem_bytes limits
      in if smem * min_blocks_per_sm limits > smem_per_sm_bytes limits
         then ''shared_memory_stages exceed the per-SM smem budget''
      else let regs = RegisterEstimate c threads
      in if regs > max_regs_per_thread limits
         then ''per-thread register pressure exceeds max_regs_per_thread''
      else if regs * threads * min_blocks_per_sm limits > regs_per_sm limits
         then ''register file cannot host min_blocks_per_sm blocks/SM''
      else if vector_width c \<le> 0 \<or> crem (block_k c) (vector_width c) \<noteq> 0
         then ''vector_width must divide BLOCK_K''
      else if elems_per_thread \<noteq> vector_width c * unroll c
         then ''elems_per_thread must equal vector_width*unroll''
      else if elems_per_thread < kMinElemsPerThread
         then ''elems_per_thread below minimum productivity''
      else [])"

definition IsAdmissible :: "config \<Rightarrow> arch_limits \<Rightarrow> bool" where
  "IsAdmissible c limits \<longleftrightarrow> RejectionReason c limits = []"

definition Prune :: "config list \<Rightarrow> arch_limits \<Rightarrow> config list" where
  "Prune configs limits = filter (\<lambda>c. IsAdmissible c limits) configs"

definition Enumerate :: "arch_limits \<Rightarrow> config list" where
  "Enumerate limits = Prune FullGrid limits"

definition ToString :: "config \<Rightarrow> string" where
  "ToString c =
     ''block_m='' @ int_to_string (block_m c) @ '' block_n='' @ int_to_string (block_n c) @
     '' block_k='' @ int_to_string (block_k c) @ '' num_warps='' @ int_to_string (num_warps c) @
     '' vector_width='' @ int_to_string (vector_width c) @ '' unroll='' @ int_to_string (unroll c) @
     '' shared_memory_stages='' @ int_to_string (shared_memory_stages c)"

section \<open>What the pruner keeps\<close>

lemma sorted_concat_map:
  assumes "sorted_wrt (<) (xs :: int list)" and "\<And>x. x \<in> set xs \<Longrightarrow> sorted_wrt R (f x)"
    and "\<And>x y a b. x \<in> set xs \<Longrightarrow> y \<in> set xs \<Longrightarrow> x < y \<Longrightarrow> a \<in> set (f x) \<Longrightarrow> b \<in> set (f y) \<Longrightarrow> R a b"
  shows "sorted_wrt R (concat (map f xs))"
  using assms
proof (induction xs)
  case (Cons x xs)
  have "sorted_wrt R (concat (map f xs))"
    using Cons.prems(1,2) by (intro Cons.IH) (simp, simp, metis Cons.prems(3) list.set_intros(2))
  moreover have "R a b" if "a \<in> set (f x)" "y \<in> set xs" "b \<in> set (f y)" for a b y
    using Cons.prems(3) [of x y a b] Cons.prems(1) that by simp
  ultimately show ?case using Cons.prems(2) by (auto simp: sorted_wrt_append)
qed simp

lemma sorted_map_axis:
  assumes "sorted_wrt (<) (xs :: int list)" and "\<And>x y. x < y \<Longrightarrow> R (f x) (f y)"
  shows "sorted_wrt R (map f xs)"
  using assms by (induction xs) auto

lemma config_less [simp]:
  "Config bm bn bk nw vw un st < Config bm' bn' bk' nw' vw' un' st' \<longleftrightarrow>
     [bm, bn, bk, nw, vw, un, st] < [bm', bn', bk', nw', vw', un', st']"
  by (simp add: less_config_def config_key_def)

lemma axes_sorted [simp]:
  "sorted_wrt (<) kBlockM" "sorted_wrt (<) kBlockN" "sorted_wrt (<) kBlockK" "sorted_wrt (<) kNumWarps"
  "sorted_wrt (<) kVectorWidth" "sorted_wrt (<) kUnroll" "sorted_wrt (<) kStages"
  by (simp_all add: kBlockM_def kBlockN_def kBlockK_def kNumWarps_def kVectorWidth_def kUnroll_def kStages_def)

lemma FullGrid_sorted: "sorted_wrt (<) FullGrid"
  unfolding FullGrid_def
  by (intro sorted_concat_map sorted_map_axis axes_sorted) auto

definition on_grid :: "config \<Rightarrow> bool" where
  "on_grid c \<longleftrightarrow> block_m c \<in> set kBlockM \<and> block_n c \<in> set kBlockN \<and> block_k c \<in> set kBlockK \<and>
     num_warps c \<in> set kNumWarps \<and> vector_width c \<in> set kVectorWidth \<and> unroll c \<in> set kUnroll \<and>
     shared_memory_stages c \<in> set kStages"

lemma set_FullGrid: "c \<in> set FullGrid \<longleftrightarrow> on_grid c"
  by (cases c) (simp add: FullGrid_def on_grid_def image_iff conj_ac)

lemma length_FullGrid: "length FullGrid = 4608"
  by (simp add: FullGrid_def length_concat comp_def kBlockM_def kBlockN_def kBlockK_def kNumWarps_def
      kVectorWidth_def kUnroll_def kStages_def)

definition grid_rules :: "arch_limits \<Rightarrow> config \<Rightarrow> bool" where
  "grid_rules l c \<longleftrightarrow>
     (let threads = num_warps c * 32; tile = block_m c * block_n c; micro = vector_width c * unroll c;
          regs = tile * unroll c div threads + tile_operands c * unroll c div threads
      in tile = threads * micro \<and> 4 \<le> micro \<and> (4096 \<le> tile \<or> num_warps c \<noteq> 8) \<and>
         shared_memory_stages c * tile_operands c * elem_bytes l * min_blocks_per_sm l \<le> smem_per_sm_bytes l \<and>
         regs \<le> max_regs_per_thread l \<and> regs * threads * min_blocks_per_sm l \<le> regs_per_sm l)"

lemma axes_pos:
  "\<forall>x \<in> set kBlockM. 0 < x" "\<forall>x \<in> set kBlockN. 0 < x" "\<forall>x \<in> set kBlockK. 0 < x"
  "\<forall>x \<in> set kNumWarps. 0 < x" "\<forall>x \<in> set kVectorWidth. 0 < x" "\<forall>x \<in> set kUnroll. 0 < x"
  "\<forall>x \<in> set kBlockK. \<forall>v \<in> set kVectorWidth. v dvd x"
  by (simp_all add: kBlockM_def kBlockN_def kBlockK_def kNumWarps_def kVectorWidth_def kUnroll_def)

lemma grid_pos:
  assumes "on_grid c"
  shows "0 < block_m c" "0 < block_n c" "0 < block_k c" "0 < num_warps c" "0 < vector_width c"
    "0 < unroll c" "vector_width c dvd block_k c"
  using assms axes_pos unfolding on_grid_def by blast+

lemma exact_div_iff: "0 < (t::int) \<Longrightarrow> a mod t = 0 \<and> a div t = q \<longleftrightarrow> a = t * q"
  using mult_div_mod_eq [of t a] by auto

lemma reason_chain: "s \<noteq> [] \<Longrightarrow> (if b then s else t) = [] \<longleftrightarrow> \<not> b \<and> t = []"
  by simp

lemma RejectionReason_Nil:
  "RejectionReason c l = [] \<longleftrightarrow>
     (let threads = num_warps c * 32; tile = block_m c * block_n c; regs = RegisterEstimate c threads
      in 0 < threads \<and> crem tile threads = 0 \<and> (4096 \<le> tile \<or> num_warps c \<noteq> 8) \<and>
         shared_memory_stages c * tile_operands c * elem_bytes l * min_blocks_per_sm l \<le> smem_per_sm_bytes l \<and>
         regs \<le> max_regs_per_thread l \<and> regs * threads * min_blocks_per_sm l \<le> regs_per_sm l \<and>
         0 < vector_width c \<and> crem (block_k c) (vector_width c) = 0 \<and>
         cquot tile threads = vector_width c * unroll c \<and> 4 \<le> cquot tile threads)"
  unfolding RejectionReason_def Let_def
  by (simp only: reason_chain list.distinct not_False_eq_True de_Morgan_disj de_Morgan_conj not_not
      not_less not_le kMinTileFor8Warps_def kMinElemsPerThread_def simp_thms conj_assoc)

lemma IsAdmissible_grid:
  assumes "on_grid c"
  shows "IsAdmissible c l \<longleftrightarrow> grid_rules l c"
proof -
  note p = grid_pos [OF assms]
  have 1: "crem (block_m c * block_n c) (num_warps c * 32) = block_m c * block_n c mod (num_warps c * 32)"
    "cquot (block_m c * block_n c) (num_warps c * 32) = block_m c * block_n c div (num_warps c * 32)"
    "crem (block_k c) (vector_width c) = 0"
    using p by (simp_all add: crem_nonneg cquot_nonneg)
  have 2: "0 \<le> tile_operands c" using p by (simp add: tile_operands_def)
  have 3: "RegisterEstimate c (num_warps c * 32) = block_m c * block_n c * unroll c div (num_warps c * 32) +
      tile_operands c * unroll c div (num_warps c * 32)"
    using p 2 by (simp add: RegisterEstimate_def Let_def cquot_nonneg)
  have e: "block_m c * block_n c mod (num_warps c * 32) = 0 \<and>
      block_m c * block_n c div (num_warps c * 32) = vector_width c * unroll c \<longleftrightarrow>
      block_m c * block_n c = num_warps c * 32 * (vector_width c * unroll c)"
    using p by (intro exact_div_iff) simp
  show ?thesis
    unfolding IsAdmissible_def RejectionReason_Nil grid_rules_def Let_def 1 3
      kMinTileFor8Warps_def kMinElemsPerThread_def not_less not_le
    using p(4,5) e by auto
qed

text \<open>Counting the survivors axis by axis, with the rules that do not depend on the pipeline depth
  tested outside its loop.\<close>

definition tile_rules :: "config \<Rightarrow> bool" where
  "tile_rules c \<longleftrightarrow> block_m c * block_n c = num_warps c * 32 * (vector_width c * unroll c) \<and>
     4 \<le> vector_width c * unroll c \<and> (4096 \<le> block_m c * block_n c \<or> num_warps c \<noteq> 8)"

lemma tile_rules_stages: "tile_rules (Config bm bn bk nw vw un st) = tile_rules (Config bm bn bk nw vw un 0)"
  by (simp add: tile_rules_def)

lemma length_filter_concat_map:
  "length (filter Q (concat (map f xs))) = sum_list (map (\<lambda>x. length (filter Q (f x))) xs)"
  by (induction xs) simp_all

definition survivors :: "arch_limits \<Rightarrow> nat" where
  "survivors l = sum_list (map (\<lambda>bm. sum_list (map (\<lambda>bn. sum_list (map (\<lambda>bk. sum_list (map (\<lambda>nw.
     sum_list (map (\<lambda>vw. sum_list (map (\<lambda>un.
       if tile_rules (Config bm bn bk nw vw un 0)
       then length (filter (\<lambda>st. grid_rules l (Config bm bn bk nw vw un st)) kStages) else 0)
     kUnroll)) kVectorWidth)) kNumWarps)) kBlockK)) kBlockN)) kBlockM)"

lemma Enumerate_length: "length (Enumerate l) = survivors l"
proof -
  have "Enumerate l = filter (grid_rules l) FullGrid"
    unfolding Enumerate_def Prune_def
    by (rule filter_cong) (simp_all add: IsAdmissible_grid set_FullGrid)
  moreover have "grid_rules l c \<Longrightarrow> tile_rules c" for c
    unfolding grid_rules_def tile_rules_def Let_def by blast
  then have "length (filter (grid_rules l) (map (Config bm bn bk nw vw un) kStages)) =
      (if tile_rules (Config bm bn bk nw vw un 0)
       then length (filter (\<lambda>st. grid_rules l (Config bm bn bk nw vw un st)) kStages) else 0)"
    for bm bn bk nw vw un
    by (auto simp: filter_map comp_def filter_empty_conv intro: tile_rules_stages [THEN iffD1])
  ultimately show ?thesis
    by (simp add: FullGrid_def length_filter_concat_map survivors_def)
qed

lemma default_count: "survivors default_limits = 141"
  by code_simp

text \<open>C15. Enumeration: for every target the candidates are strictly increasing in the order of
  \<open>operator<=>\<close> (so none is listed twice), and they are exactly the grid points whose output tile is
  the threads times the micro tile, with the declared minimum sizes, shared memory and registers.
  Rule R5 never fires on the grid.\<close>

theorem Enumerate_exact:
  "sorted_wrt (<) (Enumerate l) \<and> (\<forall>c. c \<in> set (Enumerate l) \<longleftrightarrow> on_grid c \<and> grid_rules l c)"
  by (auto simp: Enumerate_def Prune_def set_FullGrid IsAdmissible_grid
      intro!: sorted_wrt_filter FullGrid_sorted)

text \<open>With the default limits 141 of the 4608 points survive, as the comments claim.\<close>

theorem Enumerate_default_count: "length FullGrid = 4608 \<and> length (Enumerate default_limits) = 141"
  using length_FullGrid Enumerate_length [of default_limits] by (simp only: default_count simp_thms)

end
