(* ===== verification/Json.thy ===== *)
theory Json
  imports Prelude Doubles "HOL-Library.Countable"
begin

text \<open>
  The JSON library of the sources, \<open>llvm::json\<close>, is not part of the repository. It is a parameter:
  a record of the operations the sources call, with the law they rely on (what is printed is read
  back). \<open>tree_json\<close> is a concrete instance that satisfies the law.
\<close>

text \<open>The documents the sources build with \<open>json::Object\<close>, \<open>json::Array\<close> and \<open>json::Value\<close>.\<close>

datatype json = JNull | JBool bool | JInt int | JNum double | JStr string | JArr "json list"
  | JObj "(string \<times> json) list"

type_synonym 'v obj = "string \<Rightarrow> 'v option"

record 'v json_lib =
  jl_parse :: "string \<Rightarrow> string + 'v"
  jl_print :: "json \<Rightarrow> string"
  jl_object :: "'v \<Rightarrow> 'v obj option"
  jl_array :: "'v \<Rightarrow> 'v list option"
  jl_string :: "'v \<Rightarrow> string option"
  jl_integer :: "'v \<Rightarrow> int option"
  jl_number :: "'v \<Rightarrow> double option"
  jl_boolean :: "'v \<Rightarrow> bool option"
  jl_null :: "'v \<Rightarrow> bool"
  jl_utf8 :: "string \<Rightarrow> bool"

section \<open>What is printed is read back\<close>

text \<open>\<open>reads L d v\<close>: the accessors of the library find in the parsed value \<open>v\<close> all that the
  document \<open>d\<close> holds.\<close>

fun reads :: "'v json_lib \<Rightarrow> json \<Rightarrow> 'v \<Rightarrow> bool" where
  "reads L JNull v = jl_null L v"
| "reads L (JBool b) v = (jl_boolean L v = Some b)"
| "reads L (JInt i) v = (jl_integer L v = Some i)"
| "reads L (JNum x) v = (jl_number L v = Some x \<and> \<not> jl_null L v)"
| "reads L (JStr s) v = (jl_string L v = Some s)"
| "reads L (JArr ds) v = (case jl_array L v of None \<Rightarrow> False | Some vs \<Rightarrow> list_all2 (reads L) ds vs)"
| "reads L (JObj fs) v = (case jl_object L v of None \<Rightarrow> False
     | Some o' \<Rightarrow> list_all (\<lambda>(k, d). case o' k of None \<Rightarrow> False | Some w \<Rightarrow> reads L d w) fs)"

text \<open>The numbers the decimal form preserves: finite, and not the negative zero.\<close>

definition plain_double :: "double \<Rightarrow> bool" where
  "plain_double x \<longleftrightarrow> fp_finite binary64 x \<and> x < 2 ^ 64 \<and> x \<noteq> 2 ^ 63"

fun printable :: "'v json_lib \<Rightarrow> json \<Rightarrow> bool" where
  "printable L JNull = True"
| "printable L (JBool b) = True"
| "printable L (JInt i) = in_i64 i"
| "printable L (JNum x) = plain_double x"
| "printable L (JStr s) = jl_utf8 L s"
| "printable L (JArr ds) = list_all (printable L) ds"
| "printable L (JObj fs) = (distinct (map fst fs) \<and> list_all (\<lambda>(k, d). printable L d) fs)"

definition json_roundtrip :: "'v json_lib \<Rightarrow> bool" where
  "json_roundtrip L \<longleftrightarrow>
     (\<forall>d. printable L d \<longrightarrow> (case jl_parse L (jl_print L d) of Inl e \<Rightarrow> False | Inr v \<Rightarrow> reads L d v))"

lemma json_roundtripD:
  assumes "json_roundtrip L" and "printable L d"
  obtains v where "jl_parse L (jl_print L d) = Inr v" and "reads L d v"
  using assms unfolding json_roundtrip_def by (metis (no_types, lifting) sum.case_eq_if sum.collapse(2))

section \<open>Fields\<close>

definition fld :: "'v obj \<Rightarrow> string \<Rightarrow> ('v \<Rightarrow> 'a option) \<Rightarrow> 'a option" where
  "fld ob k conv = (case ob k of None \<Rightarrow> None | Some v \<Rightarrow> conv v)"

text \<open>The body the strict accessors share: an absent key, a value of the wrong kind, or the value.\<close>

definition get_field :: "('v \<Rightarrow> 'a option) \<Rightarrow> string \<Rightarrow> string \<Rightarrow> 'v obj \<Rightarrow> string \<Rightarrow> string \<Rightarrow> string + 'a" where
  "get_field conv missing expected ob key path =
     (case ob key of
        None \<Rightarrow> Inl (path @ ''.'' @ key @ '': missing required '' @ missing @ '' field'')
      | Some v \<Rightarrow>
          (case conv v of
             None \<Rightarrow> Inl (path @ ''.'' @ key @ '': expected '' @ expected)
           | Some x \<Rightarrow> Inr x))"

lemma get_field_Inr [simp]: "get_field conv m e ob k p = Inr x \<longleftrightarrow> fld ob k conv = Some x"
  by (simp add: get_field_def fld_def split: option.splits)

lemma reads_JObj:
  "reads L (JObj fs) v \<longleftrightarrow> (\<exists>o'. jl_object L v = Some o' \<and>
     list_all (\<lambda>(k, d). \<exists>w. o' k = Some w \<and> reads L d w) fs)"
  by (auto simp: list_all_iff split: option.splits)

lemma reads_JArr: "reads L (JArr ds) v \<longleftrightarrow> (\<exists>vs. jl_array L v = Some vs \<and> list_all2 (reads L) ds vs)"
  by (simp split: option.splits)

section \<open>A concrete library\<close>

text \<open>The parsed values are the documents themselves, printed as the decimal form of their code.\<close>

instance json :: countable
  by countable_datatype

definition tree_json :: "json json_lib" where
  "tree_json = \<lparr>
     jl_parse = \<lambda>s. Inr (from_nat (digits_val s)),
     jl_print = \<lambda>d. nat_to_string (to_nat d),
     jl_object = \<lambda>v. (case v of JObj fs \<Rightarrow> Some (map_of fs) | _ \<Rightarrow> None),
     jl_array = \<lambda>v. (case v of JArr vs \<Rightarrow> Some vs | _ \<Rightarrow> None),
     jl_string = \<lambda>v. (case v of JStr s \<Rightarrow> Some s | _ \<Rightarrow> None),
     jl_integer = \<lambda>v. (case v of JInt i \<Rightarrow> Some i | _ \<Rightarrow> None),
     jl_number = \<lambda>v. (case v of JNum x \<Rightarrow> Some x | JInt i \<Rightarrow> Some (d_of_int i) | _ \<Rightarrow> None),
     jl_boolean = \<lambda>v. (case v of JBool b \<Rightarrow> Some b | _ \<Rightarrow> None),
     jl_null = \<lambda>v. (v = JNull),
     jl_utf8 = \<lambda>s. True\<rparr>"

lemma tree_json_simps [simp]:
  "jl_object tree_json (JObj fs) = Some (map_of fs)" "jl_array tree_json (JArr vs) = Some vs"
  "jl_string tree_json (JStr s) = Some s" "jl_integer tree_json (JInt i) = Some i"
  "jl_number tree_json (JNum x) = Some x" "jl_boolean tree_json (JBool b) = Some b"
  "jl_null tree_json v = (v = JNull)" "jl_utf8 tree_json s" "jl_parse tree_json (jl_print tree_json d) = Inr d"
  by (simp_all add: tree_json_def)

lemma reads_tree_json: "printable tree_json d \<Longrightarrow> reads tree_json d d"
proof (induction d)
  case (JArr ds)
  then show ?case by (auto simp: list_all_iff list_all2_same)
next
  case (JObj fs)
  then have "\<exists>w. map_of fs k = Some w \<and> reads tree_json d w" if "(k, d) \<in> set fs" for k d
    using that by (fastforce simp: list_all_iff)
  then show ?case by (auto simp: reads_JObj list_all_iff simp del: reads.simps)
qed simp_all

lemma json_roundtrip_tree_json: "json_roundtrip tree_json"
  by (simp add: json_roundtrip_def reads_tree_json)

end
