(* ===== verification/TuningCache.thy ===== *)
theory TuningCache
  imports ConfigSpace Json
begin

text \<open>
  The tuning cache (\<open>TuningCache.h\<close>, \<open>TuningCache.cpp\<close>): the versioned envelope of tuned
  variants, its strict decoder and its serializer, over the JSON library of theory Json. Error
  messages are modelled, so the model names the field the code names.
\<close>

section \<open>The data\<close>

definition kTuningCacheVersion :: int where "kTuningCacheVersion = 1"

datatype shape = Shape (shape_m: int) (shape_n: int) (shape_k: int) (shape_dtype: string)

record correctness =
  cosine :: double
  max_rel_err :: double
  pcc :: double

record cache_entry =
  ce_gpu :: string
  ce_op :: string
  ce_shape :: shape
  ce_best :: config
  ce_scored_by :: string
  ce_time_ms :: "double option"
  ce_validated :: bool
  ce_correctness :: correctness

record tuning_cache =
  tc_version :: int
  tc_entries :: "cache_entry list"

section \<open>The strict decoder\<close>

definition GetObject :: "'v json_lib \<Rightarrow> 'v obj \<Rightarrow> string \<Rightarrow> string \<Rightarrow> string + 'v obj" where
  "GetObject L = get_field (jl_object L) ''object'' ''an object''"

definition GetString :: "'v json_lib \<Rightarrow> 'v obj \<Rightarrow> string \<Rightarrow> string \<Rightarrow> string + string" where
  "GetString L = get_field (jl_string L) ''string'' ''a string''"

definition GetInt :: "'v json_lib \<Rightarrow> 'v obj \<Rightarrow> string \<Rightarrow> string \<Rightarrow> string + int" where
  "GetInt L = get_field (jl_integer L) ''integer'' ''an integer''"

definition GetDouble :: "'v json_lib \<Rightarrow> 'v obj \<Rightarrow> string \<Rightarrow> string \<Rightarrow> string + double" where
  "GetDouble L = get_field (jl_number L) ''number'' ''a number''"

definition GetBool :: "'v json_lib \<Rightarrow> 'v obj \<Rightarrow> string \<Rightarrow> string \<Rightarrow> string + bool" where
  "GetBool L = get_field (jl_boolean L) ''boolean'' ''a boolean''"

definition GetNullableTime :: "'v json_lib \<Rightarrow> 'v obj \<Rightarrow> string \<Rightarrow> string + double option" where
  "GetNullableTime L ob path =
     (case ob ''time_ms'' of
        None \<Rightarrow> Inl (path @ ''.time_ms: missing required field (use null for a compile-time-model score)'')
      | Some v \<Rightarrow>
          if jl_null L v then Inr None
          else (case jl_number L v of
                  None \<Rightarrow> Inl (path @ ''.time_ms: expected a number or null'')
                | Some d \<Rightarrow> Inr (Some d)))"

definition ParseShape :: "'v json_lib \<Rightarrow> 'v obj \<Rightarrow> string \<Rightarrow> string + shape" where
  "ParseShape L ob path =
     rbind (GetInt L ob ''M'' path) (\<lambda>m.
     rbind (GetInt L ob ''N'' path) (\<lambda>n.
     rbind (GetInt L ob ''K'' path) (\<lambda>k.
     rbind (GetString L ob ''dtype'' path) (\<lambda>dt.
     Inr (Shape m n k dt)))))"

definition ParseConfig :: "'v json_lib \<Rightarrow> 'v obj \<Rightarrow> string \<Rightarrow> string + config" where
  "ParseConfig L ob path =
     rbind (GetInt L ob ''block_m'' path) (\<lambda>bm.
     rbind (GetInt L ob ''block_n'' path) (\<lambda>bn.
     rbind (GetInt L ob ''block_k'' path) (\<lambda>bk.
     rbind (GetInt L ob ''num_warps'' path) (\<lambda>nw.
     rbind (GetInt L ob ''vector_width'' path) (\<lambda>vw.
     rbind (GetInt L ob ''unroll'' path) (\<lambda>un.
     rbind (GetInt L ob ''shared_memory_stages'' path) (\<lambda>st.
     Inr (Config (wrap_i32 bm) (wrap_i32 bn) (wrap_i32 bk) (wrap_i32 nw) (wrap_i32 vw) (wrap_i32 un)
           (wrap_i32 st)))))))))"

definition ParseCorrectness :: "'v json_lib \<Rightarrow> 'v obj \<Rightarrow> string \<Rightarrow> string + correctness" where
  "ParseCorrectness L ob path =
     rbind (GetDouble L ob ''cosine'' path) (\<lambda>c.
     rbind (GetDouble L ob ''max_rel_err'' path) (\<lambda>r.
     rbind (GetDouble L ob ''pcc'' path) (\<lambda>p.
     Inr \<lparr>cosine = c, max_rel_err = r, pcc = p\<rparr>)))"

definition ParseEntry :: "'v json_lib \<Rightarrow> 'v obj \<Rightarrow> string \<Rightarrow> string + cache_entry" where
  "ParseEntry L ob path =
     rbind (GetString L ob ''gpu'' path) (\<lambda>gpu.
     rbind (GetString L ob ''op'' path) (\<lambda>op'.
     rbind (GetObject L ob ''shape'' path) (\<lambda>so.
     rbind (ParseShape L so (path @ ''.shape'')) (\<lambda>shape.
     rbind (GetObject L ob ''best'' path) (\<lambda>bo.
     rbind (ParseConfig L bo (path @ ''.best'')) (\<lambda>best.
     rbind (GetString L ob ''scored_by'' path) (\<lambda>sb.
     rbind (GetNullableTime L ob path) (\<lambda>t.
     rbind (GetBool L ob ''validated'' path) (\<lambda>val.
     rbind (GetObject L ob ''correctness'' path) (\<lambda>co.
     rbind (ParseCorrectness L co (path @ ''.correctness'')) (\<lambda>corr.
     Inr \<lparr>ce_gpu = gpu, ce_op = op', ce_shape = shape, ce_best = best, ce_scored_by = sb,
           ce_time_ms = t, ce_validated = val, ce_correctness = corr\<rparr>)))))))))))"

definition entry_path :: "nat \<Rightarrow> string" where
  "entry_path i = ''entries['' @ nat_to_string i @ '']''"

fun parse_entries :: "'v json_lib \<Rightarrow> nat \<Rightarrow> 'v list \<Rightarrow> string + cache_entry list" where
  "parse_entries L i [] = Inr []"
| "parse_entries L i (v # vs) =
     (case jl_object L v of
        None \<Rightarrow> Inl (entry_path i @ '': expected an object'')
      | Some ob \<Rightarrow>
          rbind (ParseEntry L ob (entry_path i)) (\<lambda>e.
          rbind (parse_entries L (Suc i) vs) (\<lambda>es. Inr (e # es))))"

definition ParseTuningCache :: "'v json_lib \<Rightarrow> string \<Rightarrow> string + tuning_cache" where
  "ParseTuningCache L text =
     (case jl_parse L text of
        Inl err \<Rightarrow> Inl (''malformed JSON: '' @ err)
      | Inr v \<Rightarrow>
          (case jl_object L v of
             None \<Rightarrow> Inl ''root: expected a JSON object (the versioned envelope)''
           | Some rt \<Rightarrow>
               rbind (GetInt L rt ''version'' ''root'') (\<lambda>version.
               if version \<noteq> kTuningCacheVersion
               then Inl (''root.version: unsupported schema version '' @ int_to_string version @
                      '' (expected '' @ int_to_string kTuningCacheVersion @ '')'')
               else case rt ''entries'' of
                      None \<Rightarrow> Inl ''root.entries: missing required array field''
                    | Some ev \<Rightarrow>
                        (case jl_array L ev of
                           None \<Rightarrow> Inl ''root.entries: expected an array''
                         | Some es \<Rightarrow>
                             rbind (parse_entries L 0 es) (\<lambda>entries.
                             Inr \<lparr>tc_version = wrap_i32 version, tc_entries = entries\<rparr>)))))"

section \<open>The serializer\<close>

definition shape_json :: "shape \<Rightarrow> json" where
  "shape_json s = JObj [(''M'', JInt (shape_m s)), (''N'', JInt (shape_n s)), (''K'', JInt (shape_k s)),
     (''dtype'', JStr (shape_dtype s))]"

definition config_json :: "config \<Rightarrow> json" where
  "config_json c = JObj [(''block_m'', JInt (block_m c)), (''block_n'', JInt (block_n c)),
     (''block_k'', JInt (block_k c)), (''num_warps'', JInt (num_warps c)),
     (''vector_width'', JInt (vector_width c)), (''unroll'', JInt (unroll c)),
     (''shared_memory_stages'', JInt (shared_memory_stages c))]"

definition correctness_json :: "correctness \<Rightarrow> json" where
  "correctness_json c = JObj [(''cosine'', JNum (cosine c)), (''max_rel_err'', JNum (max_rel_err c)),
     (''pcc'', JNum (pcc c))]"

definition entry_json :: "cache_entry \<Rightarrow> json" where
  "entry_json e = JObj [(''gpu'', JStr (ce_gpu e)), (''op'', JStr (ce_op e)),
     (''shape'', shape_json (ce_shape e)), (''best'', config_json (ce_best e)),
     (''scored_by'', JStr (ce_scored_by e)),
     (''time_ms'', (case ce_time_ms e of None \<Rightarrow> JNull | Some t \<Rightarrow> JNum t)),
     (''validated'', JBool (ce_validated e)), (''correctness'', correctness_json (ce_correctness e))]"

definition cache_json :: "tuning_cache \<Rightarrow> json" where
  "cache_json c = JObj [(''version'', JInt (tc_version c)), (''entries'', JArr (map entry_json (tc_entries c)))]"

definition SerializeTuningCache :: "'v json_lib \<Rightarrow> tuning_cache \<Rightarrow> string" where
  "SerializeTuningCache L c = jl_print L (cache_json c)"

section \<open>What the decoder accepts\<close>

definition shape_schema :: "'v json_lib \<Rightarrow> 'v obj \<Rightarrow> shape \<Rightarrow> bool" where
  "shape_schema L ob s \<longleftrightarrow> fld ob ''M'' (jl_integer L) = Some (shape_m s) \<and>
     fld ob ''N'' (jl_integer L) = Some (shape_n s) \<and> fld ob ''K'' (jl_integer L) = Some (shape_k s) \<and>
     fld ob ''dtype'' (jl_string L) = Some (shape_dtype s)"

definition int_member :: "'v json_lib \<Rightarrow> 'v obj \<Rightarrow> string \<Rightarrow> int \<Rightarrow> bool" where
  "int_member L ob k x \<longleftrightarrow> (case fld ob k (jl_integer L) of None \<Rightarrow> False | Some i \<Rightarrow> x = wrap_i32 i)"

definition config_schema :: "'v json_lib \<Rightarrow> 'v obj \<Rightarrow> config \<Rightarrow> bool" where
  "config_schema L ob c \<longleftrightarrow> int_member L ob ''block_m'' (block_m c) \<and> int_member L ob ''block_n'' (block_n c) \<and>
     int_member L ob ''block_k'' (block_k c) \<and> int_member L ob ''num_warps'' (num_warps c) \<and>
     int_member L ob ''vector_width'' (vector_width c) \<and> int_member L ob ''unroll'' (unroll c) \<and>
     int_member L ob ''shared_memory_stages'' (shared_memory_stages c)"

definition correctness_schema :: "'v json_lib \<Rightarrow> 'v obj \<Rightarrow> correctness \<Rightarrow> bool" where
  "correctness_schema L ob c \<longleftrightarrow> fld ob ''cosine'' (jl_number L) = Some (cosine c) \<and>
     fld ob ''max_rel_err'' (jl_number L) = Some (max_rel_err c) \<and> fld ob ''pcc'' (jl_number L) = Some (pcc c)"

definition time_schema :: "'v json_lib \<Rightarrow> 'v obj \<Rightarrow> double option \<Rightarrow> bool" where
  "time_schema L ob t \<longleftrightarrow> (case ob ''time_ms'' of None \<Rightarrow> False
     | Some v \<Rightarrow> if jl_null L v then t = None else t \<noteq> None \<and> jl_number L v = t)"

definition sub_schema :: "'v json_lib \<Rightarrow> 'v obj \<Rightarrow> string \<Rightarrow> ('v obj \<Rightarrow> bool) \<Rightarrow> bool" where
  "sub_schema L ob k P \<longleftrightarrow> (case fld ob k (jl_object L) of None \<Rightarrow> False | Some o' \<Rightarrow> P o')"

definition entry_schema :: "'v json_lib \<Rightarrow> 'v obj \<Rightarrow> cache_entry \<Rightarrow> bool" where
  "entry_schema L ob e \<longleftrightarrow>
     fld ob ''gpu'' (jl_string L) = Some (ce_gpu e) \<and> fld ob ''op'' (jl_string L) = Some (ce_op e) \<and>
     sub_schema L ob ''shape'' (\<lambda>o'. shape_schema L o' (ce_shape e)) \<and>
     sub_schema L ob ''best'' (\<lambda>o'. config_schema L o' (ce_best e)) \<and>
     fld ob ''scored_by'' (jl_string L) = Some (ce_scored_by e) \<and> time_schema L ob (ce_time_ms e) \<and>
     fld ob ''validated'' (jl_boolean L) = Some (ce_validated e) \<and>
     sub_schema L ob ''correctness'' (\<lambda>o'. correctness_schema L o' (ce_correctness e))"

definition value_schema :: "'v json_lib \<Rightarrow> 'v \<Rightarrow> cache_entry \<Rightarrow> bool" where
  "value_schema L v e \<longleftrightarrow> (case jl_object L v of None \<Rightarrow> False | Some ob \<Rightarrow> entry_schema L ob e)"

definition cache_schema :: "'v json_lib \<Rightarrow> 'v \<Rightarrow> tuning_cache \<Rightarrow> bool" where
  "cache_schema L v c \<longleftrightarrow> (case jl_object L v of None \<Rightarrow> False | Some rt \<Rightarrow>
     fld rt ''version'' (jl_integer L) = Some kTuningCacheVersion \<and> tc_version c = kTuningCacheVersion \<and>
     (case fld rt ''entries'' (jl_array L) of None \<Rightarrow> False
      | Some vs \<Rightarrow> list_all2 (value_schema L) vs (tc_entries c)))"

named_theorems schema_simps \<open>acceptance of the strict parsers\<close>

lemma ParseShape_Inr [schema_simps]: "ParseShape L ob p = Inr s \<longleftrightarrow> shape_schema L ob s"
  by (cases s) (simp add: ParseShape_def GetInt_def GetString_def rbind_Inr_iff shape_schema_def)

lemma ParseConfig_Inr [schema_simps]: "ParseConfig L ob p = Inr c \<longleftrightarrow> config_schema L ob c"
  by (cases c) (auto simp: ParseConfig_def GetInt_def rbind_Inr_iff config_schema_def int_member_def
      split: option.splits)

lemma ParseCorrectness_Inr [schema_simps]: "ParseCorrectness L ob p = Inr c \<longleftrightarrow> correctness_schema L ob c"
  by (cases c) (simp add: ParseCorrectness_def GetDouble_def rbind_Inr_iff correctness_schema_def)

lemma GetNullableTime_Inr [schema_simps]: "GetNullableTime L ob p = Inr t \<longleftrightarrow> time_schema L ob t"
  by (auto simp: GetNullableTime_def time_schema_def split: option.splits)

lemma sub_schema_iff: "sub_schema L ob k P \<longleftrightarrow> (\<exists>o'. fld ob k (jl_object L) = Some o' \<and> P o')"
  by (simp add: sub_schema_def split: option.splits)

lemma ParseEntry_Inr [schema_simps]: "ParseEntry L ob p = Inr e \<longleftrightarrow> entry_schema L ob e"
  by (cases e) (auto simp: ParseEntry_def GetString_def GetObject_def GetBool_def rbind_Inr_iff
      schema_simps entry_schema_def sub_schema_iff)

lemma parse_entries_Inr [schema_simps]:
  "parse_entries L i vs = Inr es \<longleftrightarrow> list_all2 (value_schema L) vs es"
proof (induction vs arbitrary: i es)
  case Nil
  show ?case by (cases es) simp_all
next
  case (Cons v vs)
  then show ?case
    by (cases es) (auto simp: rbind_Inr_iff schema_simps value_schema_def split: option.splits)
qed

lemma wrap_version [simp]: "wrap_i32 kTuningCacheVersion = kTuningCacheVersion"
  by (simp add: kTuningCacheVersion_def wrap_i32_def)

lemma ParseTuningCache_Inr:
  "ParseTuningCache L text = Inr c \<longleftrightarrow> (\<exists>v. jl_parse L text = Inr v \<and> cache_schema L v c)"
  by (cases c) (auto simp: ParseTuningCache_def GetInt_def rbind_Inr_iff schema_simps cache_schema_def
      fld_def [of _ "''entries''"] split: sum.splits option.splits if_splits)

section \<open>Round trip\<close>

fun shape_ok :: "'v json_lib \<Rightarrow> shape \<Rightarrow> bool" where
  "shape_ok L (Shape m n k dt) = (in_i64 m \<and> in_i64 n \<and> in_i64 k \<and> jl_utf8 L dt)"

definition entry_ok :: "'v json_lib \<Rightarrow> cache_entry \<Rightarrow> bool" where
  "entry_ok L e \<longleftrightarrow> jl_utf8 L (ce_gpu e) \<and> jl_utf8 L (ce_op e) \<and> shape_ok L (ce_shape e) \<and>
     list_all in_i32 (config_key (ce_best e)) \<and> jl_utf8 L (ce_scored_by e) \<and>
     (case ce_time_ms e of None \<Rightarrow> True | Some t \<Rightarrow> plain_double t) \<and>
     plain_double (cosine (ce_correctness e)) \<and> plain_double (max_rel_err (ce_correctness e)) \<and>
     plain_double (pcc (ce_correctness e))"

lemma in_i32_i64: "in_i32 i \<Longrightarrow> in_i64 i"
  by (simp add: in_i32_def in_i64_def)

lemma printable_entry: "entry_ok L e \<Longrightarrow> printable L (entry_json e)"
  by (cases "ce_shape e") (auto simp: entry_ok_def entry_json_def shape_json_def config_json_def
      correctness_json_def config_key_def in_i32_i64 split: option.splits)

lemma reads_shape: "reads L (shape_json s) v \<Longrightarrow> \<exists>o'. jl_object L v = Some o' \<and> shape_schema L o' s"
  unfolding shape_json_def reads_JObj by (auto simp: shape_schema_def fld_def)

lemma reads_correctness:
  "reads L (correctness_json c) v \<Longrightarrow> \<exists>o'. jl_object L v = Some o' \<and> correctness_schema L o' c"
  unfolding correctness_json_def reads_JObj by (auto simp: correctness_schema_def fld_def)

lemma reads_config:
  assumes "list_all in_i32 (config_key c)" and "reads L (config_json c) v"
  shows "\<exists>o'. jl_object L v = Some o' \<and> config_schema L o' c"
  using assms unfolding config_json_def reads_JObj
  by (auto simp: config_schema_def int_member_def config_key_def fld_def wrap_i32_id)

lemma reads_entry:
  assumes "entry_ok L e" and "reads L (entry_json e) v"
  shows "value_schema L v e"
proof -
  from assms(2) obtain ob where ob: "jl_object L v = Some ob"
    and fs: "\<exists>w. ob ''gpu'' = Some w \<and> reads L (JStr (ce_gpu e)) w"
    "\<exists>w. ob ''op'' = Some w \<and> reads L (JStr (ce_op e)) w"
    "\<exists>w. ob ''shape'' = Some w \<and> reads L (shape_json (ce_shape e)) w"
    "\<exists>w. ob ''best'' = Some w \<and> reads L (config_json (ce_best e)) w"
    "\<exists>w. ob ''scored_by'' = Some w \<and> reads L (JStr (ce_scored_by e)) w"
    "\<exists>w. ob ''time_ms'' = Some w \<and> reads L (case ce_time_ms e of None \<Rightarrow> JNull | Some t \<Rightarrow> JNum t) w"
    "\<exists>w. ob ''validated'' = Some w \<and> reads L (JBool (ce_validated e)) w"
    "\<exists>w. ob ''correctness'' = Some w \<and> reads L (correctness_json (ce_correctness e)) w"
    unfolding entry_json_def reads_JObj by (auto simp del: reads.simps)
  have i32: "list_all in_i32 (config_key (ce_best e))" using assms(1) by (simp add: entry_ok_def)
  have "time_schema L ob (ce_time_ms e)"
    using fs(6) by (auto simp: time_schema_def split: option.splits)
  moreover have "sub_schema L ob ''shape'' (\<lambda>o'. shape_schema L o' (ce_shape e))"
    using fs(3) reads_shape by (fastforce simp: sub_schema_iff fld_def)
  moreover have "sub_schema L ob ''best'' (\<lambda>o'. config_schema L o' (ce_best e))"
    using fs(4) reads_config [OF i32] by (fastforce simp: sub_schema_iff fld_def)
  moreover have "sub_schema L ob ''correctness'' (\<lambda>o'. correctness_schema L o' (ce_correctness e))"
    using fs(8) reads_correctness by (fastforce simp: sub_schema_iff fld_def)
  ultimately show ?thesis
    using fs(1,2,5,7) by (auto simp: value_schema_def ob entry_schema_def fld_def)
qed

definition cache_ok :: "'v json_lib \<Rightarrow> tuning_cache \<Rightarrow> bool" where
  "cache_ok L c \<longleftrightarrow> tc_version c = kTuningCacheVersion \<and> list_all (entry_ok L) (tc_entries c)"

lemma ParseTuningCache_roundtrip:
  assumes "json_roundtrip L" and "cache_ok L c"
  shows "ParseTuningCache L (SerializeTuningCache L c) = Inr c"
proof -
  have "printable L (cache_json c)"
    using assms(2) by (auto simp: cache_json_def cache_ok_def list_all_iff printable_entry
        kTuningCacheVersion_def in_i64_def)
  from json_roundtripD [OF assms(1) this] obtain v
    where v: "jl_parse L (jl_print L (cache_json c)) = Inr v" "reads L (cache_json c) v" .
  from v(2) obtain ob w vs where ob: "jl_object L v = Some ob"
      "fld ob ''version'' (jl_integer L) = Some (tc_version c)" "ob ''entries'' = Some w"
      "jl_array L w = Some vs" "list_all2 (reads L) (map entry_json (tc_entries c)) vs"
    unfolding cache_json_def reads_JObj by (auto simp: fld_def split: option.splits)
  have "list_all2 (value_schema L) vs (tc_entries c)"
    using ob(5) assms(2)
    by (auto simp: list_all2_conv_all_nth cache_ok_def list_all_length intro: reads_entry)
  with v(1) ob assms(2) show ?thesis
    by (auto simp: ParseTuningCache_Inr SerializeTuningCache_def cache_schema_def cache_ok_def fld_def)
qed

text \<open>The members the decoder reads, the wrap of the configuration numbers included.\<close>

lemma ParseTuningCache_strict:
  "ParseTuningCache L text = Inr c \<longleftrightarrow> (\<exists>v. jl_parse L text = Inr v \<and> cache_schema L v c)"
  by (rule ParseTuningCache_Inr)

text \<open>Serializing a version 1 cache and parsing the text gives the cache back, entry by entry.\<close>

theorem SerializeTuningCache_inverse:
  assumes "json_roundtrip L" and "cache_ok L c"
  shows "ParseTuningCache L (SerializeTuningCache L c) = Inr c"
  using assms by (rule ParseTuningCache_roundtrip)

definition demo_entry :: "string \<Rightarrow> bool \<Rightarrow> cache_entry" where
  "demo_entry gpu ok = \<lparr>ce_gpu = gpu, ce_op = ''matmul'', ce_shape = Shape 64 32 16 ''bf16'',
     ce_best = Config 64 64 32 4 2 4 2, ce_scored_by = ''compile_time_model'', ce_time_ms = None,
     ce_validated = ok, ce_correctness = \<lparr>cosine = 0, max_rel_err = 0, pcc = 0\<rparr>\<rparr>"

lemma plain_double_0: "plain_double 0"
  by (auto simp: plain_double_def fp_finite_def fp_decode_def binary64_def intro: exI [of _ False])

lemma entry_ok_demo: "entry_ok tree_json (demo_entry gpu ok)"
  by (simp add: entry_ok_def demo_entry_def plain_double_0 config_key_def in_i32_def in_i64_def)

theorem SerializeTuningCache_inverse_witness:
  "ParseTuningCache tree_json (SerializeTuningCache tree_json \<lparr>tc_version = 1, tc_entries = [demo_entry ''sm_90'' True]\<rparr>)
     = Inr \<lparr>tc_version = 1, tc_entries = [demo_entry ''sm_90'' True]\<rparr>"
  by (rule SerializeTuningCache_inverse)
    (simp_all add: json_roundtrip_tree_json cache_ok_def kTuningCacheVersion_def entry_ok_demo)

section \<open>The schema as a table, and the first violation of a document\<close>

text \<open>
  The fields of the documented format, in its order, each with the path that leads to it and the kind of value
  it must hold. The table mentions neither the decoder nor its conversions.
\<close>

datatype field_kind = KObject | KArray | KString | KInteger | KNumber | KBoolean | KNullableNumber

type_synonym field = "string list \<times> field_kind"

definition shape_fields :: "field list" where
  "shape_fields = [([''M''], KInteger), ([''N''], KInteger), ([''K''], KInteger), ([''dtype''], KString)]"

definition config_keys :: "string list" where
  "config_keys = [''block_m'', ''block_n'', ''block_k'', ''num_warps'', ''vector_width'', ''unroll'',
     ''shared_memory_stages'']"

definition config_fields :: "field list" where
  "config_fields = map (\<lambda>k. ([k], KInteger)) config_keys"

definition correctness_fields :: "field list" where
  "correctness_fields = [([''cosine''], KNumber), ([''max_rel_err''], KNumber), ([''pcc''], KNumber)]"

definition object_fields :: "string \<Rightarrow> field list \<Rightarrow> field list" where
  "object_fields k fs = ([k], KObject) # map (\<lambda>(ks, kd). (k # ks, kd)) fs"

definition entry_fields :: "field list" where
  "entry_fields = [([''gpu''], KString), ([''op''], KString)] @ object_fields ''shape'' shape_fields @
     object_fields ''best'' config_fields @
     [([''scored_by''], KString), ([''time_ms''], KNullableNumber), ([''validated''], KBoolean)] @
     object_fields ''correctness'' correctness_fields"

fun has_kind :: "'v json_lib \<Rightarrow> field_kind \<Rightarrow> 'v \<Rightarrow> bool" where
  "has_kind L KObject v = (jl_object L v \<noteq> None)"
| "has_kind L KArray v = (jl_array L v \<noteq> None)"
| "has_kind L KString v = (jl_string L v \<noteq> None)"
| "has_kind L KInteger v = (jl_integer L v \<noteq> None)"
| "has_kind L KNumber v = (jl_number L v \<noteq> None)"
| "has_kind L KBoolean v = (jl_boolean L v \<noteq> None)"
| "has_kind L KNullableNumber v = (jl_null L v \<or> jl_number L v \<noteq> None)"

fun missing_message :: "field_kind \<Rightarrow> string" where
  "missing_message KObject = '': missing required object field''"
| "missing_message KArray = '': missing required array field''"
| "missing_message KString = '': missing required string field''"
| "missing_message KInteger = '': missing required integer field''"
| "missing_message KNumber = '': missing required number field''"
| "missing_message KBoolean = '': missing required boolean field''"
| "missing_message KNullableNumber = '': missing required field (use null for a compile-time-model score)''"

fun kind_message :: "field_kind \<Rightarrow> string" where
  "kind_message KObject = '': expected an object''"
| "kind_message KArray = '': expected an array''"
| "kind_message KString = '': expected a string''"
| "kind_message KInteger = '': expected an integer''"
| "kind_message KNumber = '': expected a number''"
| "kind_message KBoolean = '': expected a boolean''"
| "kind_message KNullableNumber = '': expected a number or null''"

text \<open>The value at a path, and what is wrong with it.\<close>

fun at_path :: "'v json_lib \<Rightarrow> 'v obj \<Rightarrow> string list \<Rightarrow> 'v option" where
  "at_path L ob [] = None"
| "at_path L ob [k] = ob k"
| "at_path L ob (k # ks) = (case fld ob k (jl_object L) of None \<Rightarrow> None | Some sub \<Rightarrow> at_path L sub ks)"

definition violation :: "'v json_lib \<Rightarrow> 'v obj \<Rightarrow> string \<Rightarrow> field \<Rightarrow> string list" where
  "violation L ob path f =
     (let p = path @ concat (map (\<lambda>k. ''.'' @ k) (fst f))
      in case at_path L ob (fst f) of
           None \<Rightarrow> [p @ missing_message (snd f)]
         | Some v \<Rightarrow> if has_kind L (snd f) v then [] else [p @ kind_message (snd f)])"

definition violations :: "'v json_lib \<Rightarrow> 'v obj \<Rightarrow> string \<Rightarrow> field list \<Rightarrow> string list" where
  "violations L ob path fs = concat (map (violation L ob path) fs)"

definition element_violations :: "'v json_lib \<Rightarrow> nat \<Rightarrow> 'v \<Rightarrow> string list" where
  "element_violations L i v =
     (case jl_object L v of
        None \<Rightarrow> [entry_path i @ '': expected an object'']
      | Some ob \<Rightarrow> violations L ob (entry_path i) entry_fields)"

fun elements_violations :: "'v json_lib \<Rightarrow> nat \<Rightarrow> 'v list \<Rightarrow> string list" where
  "elements_violations L i [] = []"
| "elements_violations L i (v # vs) = element_violations L i v @ elements_violations L (Suc i) vs"

definition version_violations :: "int \<Rightarrow> string list" where
  "version_violations n = (if n = 1 then []
     else [''root.version: unsupported schema version '' @ int_to_string n @ '' (expected 1)''])"

definition elements_of :: "'v json_lib \<Rightarrow> 'v \<Rightarrow> 'v list" where
  "elements_of L v = (case jl_object L v of None \<Rightarrow> []
     | Some rt \<Rightarrow> (case fld rt ''entries'' (jl_array L) of None \<Rightarrow> [] | Some vs \<Rightarrow> vs))"

definition document_violations :: "'v json_lib \<Rightarrow> 'v \<Rightarrow> string list" where
  "document_violations L v =
     (case jl_object L v of
        None \<Rightarrow> [''root: expected a JSON object (the versioned envelope)'']
      | Some rt \<Rightarrow> violations L rt ''root'' [([''version''], KInteger)] @
          (case fld rt ''version'' (jl_integer L) of None \<Rightarrow> [] | Some n \<Rightarrow> version_violations n) @
          violations L rt ''root'' [([''entries''], KArray)] @ elements_violations L 0 (elements_of L v))"

subsection \<open>The decoder stops at the first violation\<close>

definition stops_at :: "string + 'a \<Rightarrow> string list \<Rightarrow> bool" where
  "stops_at r ms \<longleftrightarrow> (case r of Inl m \<Rightarrow> ms \<noteq> [] \<and> m = hd ms | Inr x \<Rightarrow> ms = [])"

lemma stops_at_Inr [simp]: "stops_at (Inr x) ms \<longleftrightarrow> ms = []"
  by (simp add: stops_at_def)

lemma stops_at_rbind:
  assumes "stops_at r ms" and "\<And>x. r = Inr x \<Longrightarrow> stops_at (f x) ns"
  shows "stops_at (rbind r f) (ms @ ns)"
  using assms by (cases r) (auto simp: stops_at_def split: sum.split)

lemma stops_at_last: "stops_at (rbind r f) (ms @ []) \<Longrightarrow> stops_at (rbind r f) ms"
  by simp

lemma violations_simps:
  "violations L ob p [] = []" "violations L ob p (f # fs) = violation L ob p f @ violations L ob p fs"
  "violations L ob p (fs @ gs) = violations L ob p fs @ violations L ob p gs"
  by (simp_all add: violations_def)

lemma getters_stop:
  "stops_at (GetObject L ob k p) (violation L ob p ([k], KObject))"
  "stops_at (GetString L ob k p) (violation L ob p ([k], KString))"
  "stops_at (GetInt L ob k p) (violation L ob p ([k], KInteger))"
  "stops_at (GetDouble L ob k p) (violation L ob p ([k], KNumber))"
  "stops_at (GetBool L ob k p) (violation L ob p ([k], KBoolean))"
  "stops_at (GetNullableTime L ob p) (violation L ob p ([''time_ms''], KNullableNumber))"
  by (auto simp: stops_at_def GetObject_def GetString_def GetInt_def GetDouble_def GetBool_def GetNullableTime_def
      get_field_def violation_def Let_def split: option.split)

text \<open>Below an object that is there, the paths are those of the object itself.\<close>

lemma violations_below:
  assumes "GetObject L ob k p = Inr sub" and "list_all (\<lambda>f. fst f \<noteq> []) fs"
  shows "violations L ob p (map (\<lambda>(ks, kd). (k # ks, kd)) fs) = violations L sub (p @ ''.'' @ k) fs"
proof -
  have "violation L ob p (k # ks, kd) = violation L sub (p @ ''.'' @ k) (ks, kd)" if "ks \<noteq> []" for ks kd
    using assms(1) that by (cases ks) (simp_all add: violation_def GetObject_def Let_def split: option.split)
  with assms(2) show ?thesis by (induction fs) (auto simp: violations_simps)
qed

lemma subobject_stops:
  assumes "\<And>sub. GetObject L ob k p = Inr sub \<Longrightarrow> stops_at (f sub) (violations L sub q fs @ ns)"
    and "q = p @ ''.'' @ k" and "list_all (\<lambda>f. fst f \<noteq> []) fs"
  shows "stops_at (rbind (GetObject L ob k p) f) (violations L ob p (object_fields k fs) @ ns)"
proof -
  have "stops_at (rbind (GetObject L ob k p) f) (violation L ob p ([k], KObject) @
      violations L ob p (map (\<lambda>(ks, kd). (k # ks, kd)) fs) @ ns)"
    using assms by (intro stops_at_rbind getters_stop) (simp add: violations_below)
  then show ?thesis by (simp add: object_fields_def violations_simps)
qed

lemma ParseShape_stops: "stops_at (ParseShape L ob p) (violations L ob p shape_fields)"
  unfolding ParseShape_def shape_fields_def violations_simps by (intro stops_at_rbind getters_stop) simp

lemma ParseConfig_stops: "stops_at (ParseConfig L ob p) (violations L ob p config_fields)"
  unfolding ParseConfig_def config_fields_def config_keys_def list.map violations_simps
  by (intro stops_at_rbind getters_stop) simp

lemma ParseCorrectness_stops: "stops_at (ParseCorrectness L ob p) (violations L ob p correctness_fields)"
  unfolding ParseCorrectness_def correctness_fields_def violations_simps
  by (intro stops_at_rbind getters_stop) simp

lemma below_fields:
  "list_all (\<lambda>f. fst f \<noteq> []) shape_fields" "list_all (\<lambda>f. fst f \<noteq> []) config_fields"
  "list_all (\<lambda>f. fst f \<noteq> []) correctness_fields"
  by (simp_all add: shape_fields_def config_fields_def config_keys_def correctness_fields_def)

lemma ParseEntry_stops: "stops_at (ParseEntry L ob p) (violations L ob p entry_fields)"
proof -
  have "stops_at (ParseEntry L ob p)
    (violation L ob p ([''gpu''], KString) @ violation L ob p ([''op''], KString) @
     violations L ob p (object_fields ''shape'' shape_fields) @
     violations L ob p (object_fields ''best'' config_fields) @
     violation L ob p ([''scored_by''], KString) @ violation L ob p ([''time_ms''], KNullableNumber) @
     violation L ob p ([''validated''], KBoolean) @
     violations L ob p (object_fields ''correctness'' correctness_fields) @ [])"
    unfolding ParseEntry_def
    by (rule stops_at_rbind [OF getters_stop(2)] subobject_stops [OF _ _ below_fields(1)]
        subobject_stops [OF _ _ below_fields(2)] subobject_stops [OF _ _ below_fields(3)]
        stops_at_rbind [OF ParseShape_stops] stops_at_rbind [OF ParseConfig_stops]
        stops_at_rbind [OF ParseCorrectness_stops] stops_at_rbind [OF getters_stop(5)]
        stops_at_rbind [OF getters_stop(6)] stops_at_Inr [THEN iffD2] refl | simp (no_asm))+
  then show ?thesis by (simp add: entry_fields_def violations_simps)
qed

lemma parse_entries_stops: "stops_at (parse_entries L i vs) (elements_violations L i vs)"
proof (induction vs arbitrary: i)
  case (Cons v vs)
  show ?case
  proof (cases "jl_object L v")
    case None
    then show ?thesis by (simp add: stops_at_def element_violations_def)
  next
    case (Some ob)
    have "stops_at (rbind (parse_entries L (Suc i) vs) (\<lambda>es. Inr (e # es))) (elements_violations L (Suc i) vs @ [])" for e
      by (intro stops_at_rbind Cons.IH) simp
    then have "stops_at (rbind (ParseEntry L ob (entry_path i)) (\<lambda>e. rbind (parse_entries L (Suc i) vs) (\<lambda>es. Inr (e # es))))
        (violations L ob (entry_path i) entry_fields @ elements_violations L (Suc i) vs)"
      by (intro stops_at_rbind ParseEntry_stops) simp
    then show ?thesis by (simp add: Some element_violations_def)
  qed
qed simp

lemma root_entries_stops:
  "stops_at (case rt ''entries'' of None \<Rightarrow> Inl ''root.entries: missing required array field''
     | Some ev \<Rightarrow> (case jl_array L ev of None \<Rightarrow> Inl ''root.entries: expected an array'' | Some es \<Rightarrow>
         rbind (parse_entries L 0 es) (\<lambda>entries. Inr (f entries))))
    (violations L rt ''root'' [([''entries''], KArray)] @
      elements_violations L 0 (case fld rt ''entries'' (jl_array L) of None \<Rightarrow> [] | Some vs \<Rightarrow> vs))"
proof -
  have "stops_at (rbind (parse_entries L 0 es) (\<lambda>entries. Inr (f entries))) (elements_violations L 0 es @ [])" for es
    by (intro stops_at_rbind parse_entries_stops) simp
  then show ?thesis
    by (auto simp: violations_simps violation_def fld_def Let_def stops_at_def [of "Inl _"] split: option.split)
qed

lemma ParseTuningCache_stops:
  assumes "jl_parse L text = Inr v"
  shows "stops_at (ParseTuningCache L text) (document_violations L v)"
proof (cases "jl_object L v")
  case None
  with assms show ?thesis by (simp add: ParseTuningCache_def document_violations_def stops_at_def)
next
  case (Some rt)
  have one: "int_to_string 1 = ''1''" by (simp add: int_to_string_def nat_to_string.simps digit_char_def char_of_def bit_0)
  show ?thesis
    unfolding ParseTuningCache_def document_violations_def assms Some sum.case option.case elements_of_def
      violations_simps(2) violations_simps(1) append_Nil2
  proof (rule stops_at_rbind [OF getters_stop(3)])
    fix n
    assume "GetInt L rt ''version'' ''root'' = Inr n"
    then show "stops_at (if n \<noteq> kTuningCacheVersion
        then Inl (''root.version: unsupported schema version '' @ int_to_string n @ '' (expected '' @
               int_to_string kTuningCacheVersion @ '')'')
        else case rt ''entries'' of None \<Rightarrow> Inl ''root.entries: missing required array field''
             | Some ev \<Rightarrow> (case jl_array L ev of None \<Rightarrow> Inl ''root.entries: expected an array'' | Some es \<Rightarrow>
                 rbind (parse_entries L 0 es) (\<lambda>entries. Inr \<lparr>tc_version = wrap_i32 n, tc_entries = entries\<rparr>)))
      ((case fld rt ''version'' (jl_integer L) of None \<Rightarrow> [] | Some n \<Rightarrow> version_violations n) @
       violation L rt ''root'' ([''entries''], KArray) @
       elements_violations L 0 (case fld rt ''entries'' (jl_array L) of None \<Rightarrow> [] | Some vs \<Rightarrow> vs))"
      using root_entries_stops [where rt = rt and L = L and f = "\<lambda>es. \<lparr>tc_version = wrap_i32 n, tc_entries = es\<rparr>"]
      by (auto simp: GetInt_def version_violations_def kTuningCacheVersion_def violations_simps stops_at_def [of "Inl _"] one)
  qed
qed

subsection \<open>What a document without violations is read as\<close>

definition null_is_no_number :: "'v json_lib \<Rightarrow> bool" where
  "null_is_no_number L \<longleftrightarrow> (\<forall>v. jl_null L v \<longrightarrow> jl_number L v = None)"

text \<open>The configuration numbers of an element fit the \<open>int\<close> fields that hold them.\<close>

definition ints_fit :: "'v json_lib \<Rightarrow> 'v \<Rightarrow> bool" where
  "ints_fit L v = (case jl_object L v of None \<Rightarrow> False | Some ob \<Rightarrow> list_all (\<lambda>k.
     case at_path L ob [''best'', k] of None \<Rightarrow> False
     | Some w \<Rightarrow> (case jl_integer L w of None \<Rightarrow> False | Some i \<Rightarrow> in_i32 i)) config_keys)"

lemma value_schema_reads:
  assumes "null_is_no_number L" and "value_schema L v e" and "ints_fit L v"
  shows "reads L (entry_json e) v"
proof -
  from assms(2) obtain ob so bo co where o: "jl_object L v = Some ob" "entry_schema L ob e"
    "fld ob ''shape'' (jl_object L) = Some so" "shape_schema L so (ce_shape e)"
    "fld ob ''best'' (jl_object L) = Some bo" "config_schema L bo (ce_best e)"
    "fld ob ''correctness'' (jl_object L) = Some co" "correctness_schema L co (ce_correctness e)"
    by (auto simp: value_schema_def entry_schema_def sub_schema_iff split: option.splits)
  have num: "jl_number L w = Some x \<Longrightarrow> \<not> jl_null L w" for w x
    using assms(1) by (auto simp: null_is_no_number_def)
  have mem: "fld bo k (jl_integer L) = Some x" if "int_member L bo k x" "k \<in> set config_keys" for k x
  proof -
    from that(1) obtain i where i: "fld bo k (jl_integer L) = Some i" "x = wrap_i32 i"
      by (auto simp: int_member_def split: option.splits)
    with assms(3) that(2) o(5) have "in_i32 i"
      by (auto simp: ints_fit_def o(1) list_all_iff fld_def split: option.splits)
    with i show ?thesis by (simp add: wrap_i32_id)
  qed
  have best: "\<exists>w. ob ''best'' = Some w \<and> reads L (config_json (ce_best e)) w"
  proof -
    have "fld bo ''block_m'' (jl_integer L) = Some (block_m (ce_best e))"
      "fld bo ''block_n'' (jl_integer L) = Some (block_n (ce_best e))"
      "fld bo ''block_k'' (jl_integer L) = Some (block_k (ce_best e))"
      "fld bo ''num_warps'' (jl_integer L) = Some (num_warps (ce_best e))"
      "fld bo ''vector_width'' (jl_integer L) = Some (vector_width (ce_best e))"
      "fld bo ''unroll'' (jl_integer L) = Some (unroll (ce_best e))"
      "fld bo ''shared_memory_stages'' (jl_integer L) = Some (shared_memory_stages (ce_best e))"
      using o(6) by (auto intro!: mem simp: config_schema_def config_keys_def)
    then show ?thesis
      using o(5) unfolding config_json_def reads_JObj by (auto simp: fld_def split: option.splits)
  qed
  have "\<exists>w. ob ''shape'' = Some w \<and> reads L (shape_json (ce_shape e)) w"
    using o(3,4) unfolding shape_schema_def shape_json_def reads_JObj by (auto simp: fld_def split: option.splits)
  moreover have "\<exists>w. ob ''correctness'' = Some w \<and> reads L (correctness_json (ce_correctness e)) w"
    using o(7,8) num unfolding correctness_schema_def correctness_json_def reads_JObj
    by (auto simp: fld_def split: option.splits)
  moreover have "\<exists>w. ob ''time_ms'' = Some w \<and> reads L (case ce_time_ms e of None \<Rightarrow> JNull | Some t \<Rightarrow> JNum t) w"
    using o(2) num by (auto simp: entry_schema_def time_schema_def split: option.splits if_splits)
  ultimately show ?thesis
    unfolding entry_json_def reads_JObj using o(1,2) best
    by (auto simp: entry_schema_def fld_def split: option.splits simp del: reads.simps(7))
qed

text \<open>C14. The decoder reports the first violation of the documented format, and nothing else is rejected. A text
  that is not JSON is refused with the library's message. Otherwise the fields of the envelope and of every
  entry are checked in their documented order, and if one is absent or of the wrong kind, the result is the
  error that names the full path of the first such field; if there is none, the result is a version 1 cache
  with one entry per element, and every entry is the one its element describes: each field of the entry, as
  the serializer would write it, is found in the element. (That last part for elements whose configuration
  numbers fit an \<open>int\<close>; the others are accepted and truncated.)\<close>

theorem ParseTuningCache_first_error:
  assumes "null_is_no_number L"
  shows "case jl_parse L text of
      Inl err \<Rightarrow> ParseTuningCache L text = Inl (''malformed JSON: '' @ err)
    | Inr v \<Rightarrow> (case document_violations L v of
        m # ms \<Rightarrow> ParseTuningCache L text = Inl m
      | [] \<Rightarrow> (case ParseTuningCache L text of
          Inl m \<Rightarrow> False
        | Inr c \<Rightarrow> tc_version c = 1 \<and>
            list_all2 (\<lambda>w e. ints_fit L w \<longrightarrow> reads L (entry_json e) w) (elements_of L v) (tc_entries c)))"
proof (cases "jl_parse L text")
  case (Inl err)
  then show ?thesis by (simp add: ParseTuningCache_def)
next
  case (Inr v)
  note stop = ParseTuningCache_stops [OF Inr]
  show ?thesis
  proof (cases "document_violations L v")
    case (Cons m ms)
    with stop Inr show ?thesis by (auto simp: stops_at_def split: sum.splits)
  next
    case Nil
    with stop obtain c where c: "ParseTuningCache L text = Inr c" by (auto simp: stops_at_def split: sum.splits)
    with Inr have "cache_schema L v c" by (simp add: ParseTuningCache_Inr)
    then have "tc_version c = 1" "list_all2 (value_schema L) (elements_of L v) (tc_entries c)"
      by (auto simp: cache_schema_def elements_of_def kTuningCacheVersion_def split: option.splits)
    moreover from this(2) have "list_all2 (\<lambda>w e. ints_fit L w \<longrightarrow> reads L (entry_json e) w) (elements_of L v) (tc_entries c)"
      by (rule list_all2_mono) (simp add: value_schema_reads [OF assms])
    ultimately show ?thesis by (simp add: Inr Nil c)
  qed
qed

text \<open>An entry without its time and with a shape of the wrong kind: the shape comes first.\<close>

definition broken_document :: json where
  "broken_document = JObj [(''version'', JInt 1), (''entries'', JArr [JObj [(''gpu'', JStr ''gfx942''),
     (''op'', JStr ''matmul''), (''shape'', JStr ''64x32''), (''best'', config_json (Config 64 64 32 4 2 4 2)),
     (''scored_by'', JStr ''measure''), (''validated'', JBool True)]])]"

theorem ParseTuningCache_first_error_witness:
  "ParseTuningCache tree_json (jl_print tree_json broken_document) = Inl ''entries[0].shape: expected an object''"
proof -
  have "null_is_no_number tree_json" by (simp add: null_is_no_number_def) (simp add: tree_json_def)
  note first = ParseTuningCache_first_error [OF this, of "jl_print tree_json broken_document"]
  have "elements_violations tree_json 0 (elements_of tree_json broken_document) =
      ''entries[0].shape: expected an object'' # tl (elements_violations tree_json 0 (elements_of tree_json broken_document))"
    by (simp add: broken_document_def elements_of_def fld_def element_violations_def entry_fields_def
        object_fields_def violations_simps violation_def tree_json_def entry_path_def nat_to_string.simps digit_char_def char_of_def bit_0)
  then have "document_violations tree_json broken_document =
      ''entries[0].shape: expected an object'' # tl (elements_violations tree_json 0 (elements_of tree_json broken_document))"
    by (simp add: document_violations_def broken_document_def violations_simps violation_def fld_def
        version_violations_def)
  with first show ?thesis by simp
qed

text \<open>Two departures from the documented contract. The header states the inverse law for every
  cache; a cache with another version is written and then rejected. And a configuration number
  outside \<open>int\<close> is accepted and silently reduced.\<close>

lemma other_version_rejected:
  assumes "json_roundtrip L" and "in_i64 (tc_version c)" and "tc_version c \<noteq> 1"
    and "list_all (entry_ok L) (tc_entries c)"
  shows "\<not> is_ok (ParseTuningCache L (SerializeTuningCache L c))"
proof -
  have "printable L (cache_json c)"
    using assms(2,4) by (auto simp: cache_json_def list_all_iff printable_entry)
  from json_roundtripD [OF assms(1) this] obtain v
    where v: "jl_parse L (jl_print L (cache_json c)) = Inr v" "reads L (cache_json c) v" .
  from v(2) obtain ob where "jl_object L v = Some ob" "fld ob ''version'' (jl_integer L) = Some (tc_version c)"
    unfolding cache_json_def reads_JObj by (auto simp: fld_def)
  then have "\<not> cache_schema L v c'" for c'
    using assms(3) by (simp add: cache_schema_def kTuningCacheVersion_def)
  then show ?thesis
    by (simp add: is_ok_iff ParseTuningCache_Inr SerializeTuningCache_def v(1))
qed

lemma ParseConfig_truncates:
  "ParseConfig tree_json (map_of [(''block_m'', JInt 4294967312), (''block_n'', JInt 16), (''block_k'', JInt 32),
     (''num_warps'', JInt 4), (''vector_width'', JInt 1), (''unroll'', JInt 4), (''shared_memory_stages'', JInt 2)]) p
     = Inr (Config 16 16 32 4 1 4 2)"
  by (simp add: ParseConfig_Inr config_schema_def int_member_def fld_def wrap_i32_def)

end
