(* ===== verification/StdMap.thy ===== *)
theory StdMap
  imports Prelude
begin

text \<open>
  \<open>std::map\<close>: an association list in strictly increasing key order, so iteration is the list
  itself. Assignment through \<open>operator[]\<close>, \<open>find\<close> and \<open>erase\<close>.
\<close>

type_synonym ('k, 'v) std_map = "('k \<times> 'v) list"

fun map_put :: "'k::linorder \<Rightarrow> 'v \<Rightarrow> ('k, 'v) std_map \<Rightarrow> ('k, 'v) std_map" where
  "map_put k v [] = [(k, v)]"
| "map_put k v ((k', v') # xs) =
     (if k < k' then (k, v) # (k', v') # xs
      else if k = k' then (k, v) # xs
      else (k', v') # map_put k v xs)"

definition map_find :: "'k \<Rightarrow> ('k, 'v) std_map \<Rightarrow> 'v option" where
  "map_find k xs = map_of xs k"

definition map_erase :: "'k \<Rightarrow> ('k, 'v) std_map \<Rightarrow> ('k, 'v) std_map" where
  "map_erase k xs = filter (\<lambda>p. fst p \<noteq> k) xs"

definition map_sorted :: "('k::linorder, 'v) std_map \<Rightarrow> bool" where
  "map_sorted xs \<longleftrightarrow> sorted_wrt (<) (map fst xs)"

lemma map_sorted_Nil [simp]: "map_sorted []"
  by (simp add: map_sorted_def)

lemma map_sorted_Cons: "map_sorted ((k, v) # xs) \<longleftrightarrow> (\<forall>p \<in> set xs. k < fst p) \<and> map_sorted xs"
  by (simp add: map_sorted_def)

lemma map_sorted_distinct: "map_sorted xs \<Longrightarrow> distinct (map fst xs)"
  by (simp add: map_sorted_def strict_sorted_iff)

lemma map_of_map_put: "map_of (map_put k v xs) = (map_of xs)(k \<mapsto> v)"
  by (induction k v xs rule: map_put.induct) auto

lemma set_fst_map_put: "fst ` set (map_put k v xs) = insert k (fst ` set xs)"
  by (induction k v xs rule: map_put.induct) auto

lemma map_sorted_map_put: "map_sorted xs \<Longrightarrow> map_sorted (map_put k v xs)"
proof (induction k v xs rule: map_put.induct)
  case (2 k v k' v' xs)
  have "k' < fst p" if "p \<in> set (map_put k v xs)" "k' < k" for p
    using that 2(2) set_fst_map_put [of k v xs] by (fastforce simp: map_sorted_Cons)
  with 2 show ?case by (fastforce simp: map_sorted_Cons)
qed (simp add: map_sorted_def)

lemma map_find_put [simp]: "map_find k' (map_put k v xs) = (if k' = k then Some v else map_find k' xs)"
  by (simp add: map_find_def map_of_map_put)

lemma map_find_Nil [simp]: "map_find k [] = None"
  by (simp add: map_find_def)

lemma map_find_Some_set: "map_find k xs = Some v \<Longrightarrow> (k, v) \<in> set xs"
  by (simp add: map_find_def map_of_SomeD)

lemma map_find_iff: "map_sorted xs \<Longrightarrow> map_find k xs = Some v \<longleftrightarrow> (k, v) \<in> set xs"
  by (simp add: map_find_def map_of_eq_Some_iff map_sorted_distinct)

lemma map_find_None: "map_find k xs = None \<longleftrightarrow> k \<notin> fst ` set xs"
  by (simp add: map_find_def map_of_eq_None_iff)

lemma set_map_put: "map_sorted xs \<Longrightarrow> set (map_put k v xs) = insert (k, v) {p \<in> set xs. fst p \<noteq> k}"
proof -
  assume s: "map_sorted xs"
  have "(k', v') \<in> set (map_put k v xs) \<longleftrightarrow> (k', v') \<in> insert (k, v) {p \<in> set xs. fst p \<noteq> k}" for k' v'
    by (simp add: map_find_iff [OF map_sorted_map_put [OF s], symmetric] map_find_iff [OF s, symmetric] eq_commute)
  then show ?thesis by auto
qed

lemma map_sorted_filter: "map_sorted xs \<Longrightarrow> map_sorted (filter P xs)"
  by (induction xs) (auto simp: map_sorted_Cons)

lemma map_sorted_erase: "map_sorted xs \<Longrightarrow> map_sorted (map_erase k xs)"
  by (simp add: map_erase_def map_sorted_filter)

lemma map_find_erase [simp]: "map_find k' (map_erase k xs) = (if k' = k then None else map_find k' xs)"
  by (induction xs) (auto simp: map_erase_def map_find_def)

lemma map_sorted_ext:
  assumes "map_sorted xs" and "map_sorted ys" and "\<And>k. map_find k xs = map_find k ys"
  shows "xs = ys"
proof -
  have "k \<in> fst ` set xs \<longleftrightarrow> k \<in> fst ` set ys" for k
    using assms(3) [of k] map_find_None [of k xs] map_find_None [of k ys] by simp
  then have "fst ` set xs = fst ` set ys" by (rule set_eqI)
  then have keys: "map fst xs = map fst ys"
    using assms(1,2) strict_sorted_equal [of "map fst xs" "map fst ys"] by (simp add: map_sorted_def)
  have r: "zs = map (\<lambda>k. (k, the (map_find k zs))) (map fst zs)" if "map_sorted zs" for zs :: "('a, 'b) std_map"
  proof -
    have "(fst p, the (map_find (fst p) zs)) = p" if "p \<in> set zs" for p
      using that map_find_iff [OF \<open>map_sorted zs\<close>, of "fst p" "snd p"] by simp
    then show ?thesis by (simp add: comp_def map_idI)
  qed
  have "xs = map (\<lambda>k. (k, the (map_find k xs))) (map fst xs)" by (rule r [OF assms(1)])
  also have "\<dots> = map (\<lambda>k. (k, the (map_find k ys))) (map fst ys)" by (simp only: keys assms(3))
  also have "\<dots> = ys" by (rule r [OF assms(2), symmetric])
  finally show ?thesis .
qed

end
