(* ===== verification/TuningDb.thy ===== *)
theory TuningDb
  imports TuningCache StdMap "HOL-Library.Product_Lexorder"
begin

text \<open>
  The per-GPU tuning database (\<open>AmdTuningDb.h\<close>, \<open>AmdTuningDb.cpp\<close>): a \<open>std::map\<close> from
  (gpu, op, shape) to cache entries, its namespaces, and its persistence through the tuning cache.
  The locale \<open>keyed_store\<close> is what the kernel cache needs of it.
\<close>

section \<open>State and operations\<close>

text \<open>The key: gpu, op and the members of the shape, compared in this order.\<close>

type_synonym db_key = "string \<times> string \<times> int \<times> int \<times> int \<times> string"

fun db_key_of :: "string \<Rightarrow> string \<Rightarrow> shape \<Rightarrow> db_key" where
  "db_key_of gpu op' (Shape m n k dt) = (gpu, op', m, n, k, dt)"

definition entry_key :: "cache_entry \<Rightarrow> db_key" where
  "entry_key e = db_key_of (ce_gpu e) (ce_op e) (ce_shape e)"

fun db_key_less :: "db_key \<Rightarrow> db_key \<Rightarrow> bool" where
  "db_key_less (g, p, m, n, k, d) (g', p', m', n', k', d') =
     (if g \<noteq> g' then g < g'
      else if p \<noteq> p' then p < p'
      else if m \<noteq> m' then m < m'
      else if n \<noteq> n' then n < n'
      else if k \<noteq> k' then k < k'
      else d < d')"

text \<open>It is the order \<open>std::map\<close> is modelled with.\<close>

lemma db_key_less_eq: "db_key_less a b \<longleftrightarrow> a < b"
  by (cases a; cases b) auto

type_synonym tuning_db = "(db_key, cache_entry) std_map"

definition db_put :: "cache_entry \<Rightarrow> tuning_db \<Rightarrow> bool \<times> tuning_db" where
  "db_put e db = (if ce_gpu e = [] then (False, db) else (True, map_put (entry_key e) e db))"

definition db_get :: "string \<Rightarrow> string \<Rightarrow> shape \<Rightarrow> tuning_db \<Rightarrow> cache_entry option" where
  "db_get gpu op' sh db = map_find (db_key_of gpu op' sh) db"

definition db_entries :: "string \<Rightarrow> tuning_db \<Rightarrow> cache_entry list" where
  "db_entries gpu db = map snd (filter (\<lambda>(k, e). fst k = gpu) db)"

definition Namespaces :: "tuning_db \<Rightarrow> string list" where
  "Namespaces db = foldl (\<lambda>out (k, e). if out = [] \<or> last out \<noteq> fst k then out @ [fst k] else out) [] db"

definition db_size :: "tuning_db \<Rightarrow> nat" where
  "db_size db = length db"

definition db_serialize :: "'v json_lib \<Rightarrow> tuning_db \<Rightarrow> string" where
  "db_serialize L db = SerializeTuningCache L \<lparr>tc_version = kTuningCacheVersion, tc_entries = map snd db\<rparr>"

definition SerializeNamespace :: "'v json_lib \<Rightarrow> string \<Rightarrow> tuning_db \<Rightarrow> string" where
  "SerializeNamespace L gpu db =
     SerializeTuningCache L \<lparr>tc_version = kTuningCacheVersion,
       tc_entries = map snd (filter (\<lambda>(k, e). fst k = gpu) db)\<rparr>"

fun put_entries :: "nat \<Rightarrow> cache_entry list \<Rightarrow> tuning_db \<Rightarrow> string + tuning_db" where
  "put_entries i [] db = Inr db"
| "put_entries i (e # es) db =
     (case db_put e db of (ok, db') \<Rightarrow>
        if \<not> ok
        then Inl (entry_path i @ ''.gpu: empty gpu - a tuning entry must belong to a namespace (e.g. gfx1101, gfx942)'')
        else put_entries (Suc i) es db')"

definition db_parse :: "'v json_lib \<Rightarrow> string \<Rightarrow> string + tuning_db" where
  "db_parse L text =
     rbind (ParseTuningCache L text) (\<lambda>parsed. put_entries 0 (tc_entries parsed) [])"

section \<open>The invariant\<close>

definition db_ok :: "tuning_db \<Rightarrow> bool" where
  "db_ok db \<longleftrightarrow> map_sorted db \<and> list_all (\<lambda>(k, e). k = entry_key e \<and> ce_gpu e \<noteq> []) db"

lemma fst_db_key_of [simp]: "fst (db_key_of g p s) = g"
  by (cases s) simp

lemma db_key_of_inject [simp]: "db_key_of g p s = db_key_of g' p' s' \<longleftrightarrow> g = g' \<and> p = p' \<and> s = s'"
  by (cases s; cases s') auto

lemma db_ok_Nil [simp]: "db_ok []"
  by (simp add: db_ok_def)

lemma db_ok_put [inv_intros]: "db_ok db \<Longrightarrow> db_ok (snd (db_put e db))"
  by (auto simp: db_ok_def db_put_def map_sorted_map_put list_all_iff set_map_put)

lemma db_ok_get:
  assumes "db_ok db" and "db_get g p s db = Some e"
  shows "ce_gpu e = g" "ce_op e = p" "ce_shape e = s" "g \<noteq> []"
  using assms map_find_Some_set [of "db_key_of g p s" db e]
  by (auto simp: db_ok_def db_get_def entry_key_def list_all_iff)

lemma db_get_put: "db_get g p s (snd (db_put e db)) =
    (if ce_gpu e \<noteq> [] \<and> g = ce_gpu e \<and> p = ce_op e \<and> s = ce_shape e then Some e else db_get g p s db)"
  by (auto simp: db_get_def db_put_def entry_key_def)

lemma db_get_iff:
  assumes "db_ok db"
  shows "db_get g p s db = Some e \<longleftrightarrow> e \<in> set (map snd db) \<and> ce_gpu e = g \<and> ce_op e = p \<and> ce_shape e = s"
proof -
  have "(k, e) \<in> set db \<longleftrightarrow> e \<in> set (map snd db) \<and> k = entry_key e" for k e
    using assms by (force simp: db_ok_def list_all_iff)
  then have "db_get g p s db = Some e \<longleftrightarrow> e \<in> set (map snd db) \<and> db_key_of g p s = entry_key e"
    using assms map_find_iff [of db "db_key_of g p s" e] by (simp add: db_ok_def db_get_def)
  then show ?thesis by (auto simp: entry_key_def)
qed

lemma db_ext:
  assumes "db_ok a" and "db_ok b" and "\<And>g p s. db_get g p s a = db_get g p s b"
  shows "a = b"
proof (rule map_sorted_ext)
  fix k :: db_key
  obtain g p m n q d where "k = (g, p, m, n, q, d)" by (cases k)
  then show "map_find k a = map_find k b"
    using assms(3) [of g p "Shape m n q d"] by (simp add: db_get_def)
qed (use assms(1,2) in \<open>simp_all add: db_ok_def\<close>)

lemma db_entries_set:
  "db_ok db \<Longrightarrow> set (db_entries g db) = {e \<in> set (map snd db). ce_gpu e = g}"
  by (force simp: db_entries_def db_ok_def list_all_iff entry_key_def)

section \<open>Namespaces\<close>

lemma run_heads:
  assumes "sorted_wrt (\<lambda>a b. (a::'a::linorder) \<le> b) gs" and "sorted_wrt (<) out"
    and "\<forall>g \<in> set gs. out \<noteq> [] \<longrightarrow> last out \<le> g"
  defines "r \<equiv> foldl (\<lambda>out g. if out = [] \<or> last out \<noteq> g then out @ [g] else out) out gs"
  shows "sorted_wrt (<) r \<and> set r = set out \<union> set gs"
  using assms(1-3) unfolding r_def
proof (induction gs arbitrary: out)
  case (Cons g gs)
  have below: "\<forall>x \<in> set out. x \<le> last out" if "out \<noteq> []" "sorted_wrt (<) out" for out :: "'a list"
    using that by (cases out rule: rev_cases) (auto simp: sorted_wrt_append less_imp_le)
  show ?case
  proof (cases "out = [] \<or> last out \<noteq> g")
    case True
    have "sorted_wrt (<) (out @ [g])"
    proof (cases "out = []")
      case False
      then have "last out < g" using True Cons.prems(3) by (simp add: order.strict_iff_order)
      then show ?thesis
        using below [OF False Cons.prems(2)] Cons.prems(2) by (auto simp: sorted_wrt_append)
    qed simp
    then show ?thesis using True Cons.IH [of "out @ [g]"] Cons.prems(1) by auto
  next
    case False
    then have "g \<in> set out" by auto
    then show ?thesis using False Cons.IH [of out] Cons.prems by auto
  qed
qed simp

lemma key_sorted_gpus: "map_sorted db \<Longrightarrow> sorted_wrt (\<le>) (map (\<lambda>p. fst (fst p)) (db :: tuning_db))"
  by (induction db) (auto simp: map_sorted_Cons, force)

lemma Namespaces_eq:
  "Namespaces db = foldl (\<lambda>out g. if out = [] \<or> last out \<noteq> g then out @ [g] else out) [] (map (\<lambda>p. fst (fst p)) db)"
proof -
  have "foldl (\<lambda>out (k, e). if out = [] \<or> last out \<noteq> fst k then out @ [fst k] else out) out db =
      foldl (\<lambda>out g. if out = [] \<or> last out \<noteq> g then out @ [g] else out) out (map (\<lambda>p. fst (fst p)) db)" for out
    by (induction db arbitrary: out) (auto simp: split_beta)
  then show ?thesis by (simp add: Namespaces_def)
qed

lemma Namespaces_spec:
  assumes "db_ok db"
  shows "sorted_wrt (<) (Namespaces db)" "set (Namespaces db) = ce_gpu ` set (map snd db)"
proof -
  have s: "sorted_wrt (\<le>) (map (\<lambda>p. fst (fst p)) db)"
    using assms by (simp add: db_ok_def key_sorted_gpus)
  from run_heads [OF this, of "[]"] show "sorted_wrt (<) (Namespaces db)"
    by (simp add: Namespaces_eq)
  from run_heads [OF s, of "[]"] have "set (Namespaces db) = (\<lambda>p. fst (fst p)) ` set db"
    by (simp add: Namespaces_eq)
  also have "\<dots> = ce_gpu ` set (map snd db)"
    using assms by (force simp: db_ok_def list_all_iff entry_key_def)
  finally show "set (Namespaces db) = ce_gpu ` set (map snd db)" .
qed

section \<open>The interface the kernel cache uses\<close>

text \<open>\<open>put_all\<close> is a sequence of \<open>Put\<close> calls; \<open>has_key\<close> is equality of identities.\<close>

definition put_all :: "(cache_entry \<Rightarrow> 's \<Rightarrow> bool \<times> 's) \<Rightarrow> 's \<Rightarrow> cache_entry list \<Rightarrow> 's" where
  "put_all put = foldl (\<lambda>s e. snd (put e s))"

definition has_key :: "string \<Rightarrow> string \<Rightarrow> shape \<Rightarrow> cache_entry \<Rightarrow> bool" where
  "has_key g p s e \<longleftrightarrow> ce_gpu e = g \<and> ce_op e = p \<and> ce_shape e = s"

locale keyed_store =
  fixes empty :: 's
    and put :: "cache_entry \<Rightarrow> 's \<Rightarrow> bool \<times> 's"
    and get :: "string \<Rightarrow> string \<Rightarrow> shape \<Rightarrow> 's \<Rightarrow> cache_entry option"
    and spaces :: "'s \<Rightarrow> string list"
    and entries :: "string \<Rightarrow> 's \<Rightarrow> cache_entry list"
    and ok :: "'s \<Rightarrow> bool"
  assumes ok_empty: "ok empty"
    and get_empty: "get g p s empty = None"
    and put_accepts: "fst (put e st) \<longleftrightarrow> ce_gpu e \<noteq> []"
    and ok_put: "ok st \<Longrightarrow> ok (snd (put e st))"
    and get_put: "get g p s (snd (put e st)) =
      (if ce_gpu e \<noteq> [] \<and> has_key g p s e then Some e else get g p s st)"
    and get_identity: "ok st \<Longrightarrow> get g p s st = Some e \<Longrightarrow> has_key g p s e \<and> g \<noteq> []"
    and entries_get: "ok st \<Longrightarrow> e \<in> set (entries g st) \<longleftrightarrow> get g (ce_op e) (ce_shape e) st = Some e"
    and spaces_get: "ok st \<Longrightarrow> g \<in> set (spaces st) \<longleftrightarrow> (\<exists>p s e. get g p s st = Some e)"
    and store_ext: "ok a \<Longrightarrow> ok b \<Longrightarrow> (\<And>g p s. get g p s a = get g p s b) \<Longrightarrow> a = b"
begin

lemma ok_put_all: "ok st \<Longrightarrow> ok (put_all put st es)"
  by (induction es arbitrary: st) (simp_all add: put_all_def ok_put)

text \<open>The last writer wins.\<close>

lemma get_put_all:
  "get g p s (put_all put st es) =
     (case find (\<lambda>e. ce_gpu e \<noteq> [] \<and> has_key g p s e) (rev es) of Some e \<Rightarrow> Some e | None \<Rightarrow> get g p s st)"
  by (induction es rule: rev_induct) (simp_all add: put_all_def get_put)

lemma iteration_get:
  assumes "ok st"
  shows "e \<in> set (concat (map (\<lambda>g. entries g st) (spaces st))) \<longleftrightarrow>
    get (ce_gpu e) (ce_op e) (ce_shape e) st = Some e"
proof
  assume "e \<in> set (concat (map (\<lambda>g. entries g st) (spaces st)))"
  then obtain g where "e \<in> set (entries g st)" by auto
  then have "get g (ce_op e) (ce_shape e) st = Some e" using assms by (simp add: entries_get)
  with get_identity [OF assms this] show "get (ce_gpu e) (ce_op e) (ce_shape e) st = Some e"
    by (simp add: has_key_def)
next
  assume e: "get (ce_gpu e) (ce_op e) (ce_shape e) st = Some e"
  then have "ce_gpu e \<in> set (spaces st)" "e \<in> set (entries (ce_gpu e) st)"
    using assms by (auto simp: spaces_get entries_get)
  then show "e \<in> set (concat (map (\<lambda>g. entries g st) (spaces st)))" by auto
qed

text \<open>Copying the entries that satisfy \<open>Q\<close> into an empty store keeps exactly those.\<close>

lemma get_copy:
  assumes "ok st" and es: "\<And>e. e \<in> set es \<longleftrightarrow> get (ce_gpu e) (ce_op e) (ce_shape e) st = Some e"
  shows "get g p s (put_all put empty (filter Q es)) =
    (case get g p s st of None \<Rightarrow> None | Some e \<Rightarrow> if Q e then Some e else None)"
proof -
  let ?P = "\<lambda>e. ce_gpu e \<noteq> [] \<and> has_key g p s e"
  have in_es: "e \<in> set es \<and> ?P e \<longleftrightarrow> get g p s st = Some e" for e
  proof
    assume "e \<in> set es \<and> ?P e"
    then show "get g p s st = Some e" by (auto simp: has_key_def es)
  next
    assume e: "get g p s st = Some e"
    then have "has_key g p s e" "g \<noteq> []" using get_identity [OF assms(1)] by blast+
    then show "e \<in> set es \<and> ?P e" using e es [of e] by (simp add: has_key_def)
  qed
  show ?thesis
  proof (cases "find ?P (rev (filter Q es))")
    case None
    then have "\<not> (get g p s st = Some e \<and> Q e)" for e
      using in_es [of e] by (auto simp: find_None_iff)
    with None show ?thesis by (auto simp: get_put_all get_empty split: option.split)
  next
    case (Some e)
    then have "e \<in> set es" "Q e" "?P e" by (auto dest: find_SomeD)
    with Some show ?thesis using in_es [of e] by (simp add: get_put_all)
  qed
qed

lemma copy_all:
  assumes "ok st" and "\<And>e. e \<in> set es \<longleftrightarrow> get (ce_gpu e) (ce_op e) (ce_shape e) st = Some e"
  shows "put_all put empty es = st"
proof (rule store_ext)
  show "get g p s (put_all put empty es) = get g p s st" for g p s
    using get_copy [OF assms, of g p s "\<lambda>_. True"] by (simp split: option.split)
qed (simp_all add: ok_put_all ok_empty assms(1))

end

interpretation db: keyed_store "[]" db_put db_get Namespaces db_entries db_ok
proof unfold_locales
  fix st :: tuning_db and e g p s
  assume st: "db_ok st"
  show "db_get g p s st = Some e \<Longrightarrow> has_key g p s e \<and> g \<noteq> []"
    using db_ok_get [OF st, of g p s e] by (simp add: has_key_def)
  show "e \<in> set (db_entries g st) \<longleftrightarrow> db_get g (ce_op e) (ce_shape e) st = Some e"
    using st by (auto simp: db_entries_set db_get_iff)
  show "g \<in> set (Namespaces st) \<longleftrightarrow> (\<exists>p s e. db_get g p s st = Some e)"
    unfolding Namespaces_spec(2) [OF st] db_get_iff [OF st] by blast
next
  show "db_get g p s [] = None" for g p s by (simp add: db_get_def)
  show "fst (db_put e st) \<longleftrightarrow> ce_gpu e \<noteq> []" for e st by (simp add: db_put_def)
  show "db_get g p s (snd (db_put e st)) =
      (if ce_gpu e \<noteq> [] \<and> has_key g p s e then Some e else db_get g p s st)" for g p s e st
    by (auto simp: db_get_put has_key_def)
qed (simp_all add: db_ok_put db_ext)

section \<open>Properties\<close>

text \<open>C13. Whatever sequence of \<open>Put\<close> calls built the database: a lookup returns the last entry put
  under exactly this gpu, op and shape (entries without a gpu are refused), so one namespace never
  shadows another; the namespaces are listed once each in order, and they are the gpus that have
  an entry; and the entries of a namespace are exactly those a lookup finds.\<close>

theorem db_last_writer:
  "let db = put_all db_put [] es
   in db_get g p s db = find (\<lambda>e. ce_gpu e \<noteq> [] \<and> has_key g p s e) (rev es) \<and>
      sorted_wrt (<) (Namespaces db) \<and> (h \<in> set (Namespaces db) \<longleftrightarrow> (\<exists>p s e. db_get h p s db = Some e)) \<and>
      (e \<in> set (db_entries g db) \<longleftrightarrow> db_get g (ce_op e) (ce_shape e) db = Some e)"
proof -
  have ok: "db_ok (put_all db_put [] es)" by (simp add: db.ok_put_all)
  have "db_get g p s (put_all db_put [] es) = find (\<lambda>e. ce_gpu e \<noteq> [] \<and> has_key g p s e) (rev es)"
    by (simp add: db.get_put_all db.get_empty split: option.split)
  with Namespaces_spec(1) [OF ok] db.spaces_get [OF ok] db.entries_get [OF ok] show ?thesis by simp
qed

lemma put_entries_put_all:
  "list_all (\<lambda>e. ce_gpu e \<noteq> []) es \<Longrightarrow> put_entries i es db = Inr (put_all db_put db es)"
  by (induction es arbitrary: i db) (simp_all add: put_all_def db_put_def)

lemma db_parse_serialize:
  assumes "json_roundtrip L" and "db_ok db" and "list_all (entry_ok L) (map snd db)"
  shows "db_parse L (db_serialize L db) = Inr db"
proof -
  have "ParseTuningCache L (db_serialize L db) = Inr \<lparr>tc_version = kTuningCacheVersion, tc_entries = map snd db\<rparr>"
    unfolding db_serialize_def using assms by (intro ParseTuningCache_roundtrip) (simp_all add: cache_ok_def)
  moreover have "list_all (\<lambda>e. ce_gpu e \<noteq> []) (map snd db)"
    using assms(2) by (force simp: db_ok_def list_all_iff)
  moreover have "put_all db_put [] (map snd db) = db"
    using assms(2) by (intro db.copy_all) (auto simp: db_get_iff)
  ultimately show ?thesis by (simp add: db_parse_def put_entries_put_all)
qed

text \<open>Parsing a serialized database gives the same database, namespaces, order and all.\<close>

theorem db_roundtrip:
  assumes "json_roundtrip L" and "list_all (entry_ok L) es"
  shows "db_parse L (db_serialize L (put_all db_put [] es)) = Inr (put_all db_put [] es)"
proof (rule db_parse_serialize [OF assms(1)])
  show ok: "db_ok (put_all db_put [] es)" by (simp add: db.ok_put_all)
  have "snd ` set (put_all db_put [] es) \<subseteq> set es"
  proof
    fix e assume "e \<in> snd ` set (put_all db_put [] es)"
    then have "db_get (ce_gpu e) (ce_op e) (ce_shape e) (put_all db_put [] es) = Some e"
      by (simp add: db_get_iff [OF ok])
    then show "e \<in> set es"
      by (auto simp: db.get_put_all db.get_empty dest: find_SomeD split: option.splits)
  qed
  then show "list_all (entry_ok L) (map snd (put_all db_put [] es))"
    using assms(2) by (auto simp: list_all_iff)
qed

theorem db_roundtrip_witness:
  "db_parse tree_json (db_serialize tree_json (put_all db_put [] [demo_entry ''gfx942'' True, demo_entry ''gfx1101'' False]))
     = Inr (put_all db_put [] [demo_entry ''gfx942'' True, demo_entry ''gfx1101'' False])"
  by (rule db_roundtrip) (simp_all add: json_roundtrip_tree_json entry_ok_demo)

end
