(* ===== verification/KernelCache.thy ===== *)
theory KernelCache
  imports TuningDb
begin

text \<open>
  The kernel cache of the runtime (\<open>KernelCache.h\<close>, \<open>KernelCache.cpp\<close>): selection of a tuned and
  validated variant, the metadata of compiled binaries with their hashes, persistence to a
  directory, and the invalidation of stale binaries. The file system (\<open>llvm::MemoryBuffer\<close>,
  \<open>raw_fd_ostream\<close>, \<open>create_directories\<close>) is a parameter, a record of operations on an abstract
  state.
\<close>

unbundle bit_operations_syntax

section \<open>The file system\<close>

datatype write_result = Written | OpenFailed string | WriteFailed

record 's fs_lib =
  fs_read :: "'s \<Rightarrow> string \<Rightarrow> string + string"
  fs_mkdirs :: "string \<Rightarrow> 's \<Rightarrow> string option \<times> 's"
  fs_write :: "string \<Rightarrow> string \<Rightarrow> 's \<Rightarrow> write_result \<times> 's"

text \<open>A completed write is read back and does not touch another file.\<close>

definition fs_laws :: "'s fs_lib \<Rightarrow> bool" where
  "fs_laws F \<longleftrightarrow> (\<forall>p c s s'. fs_write F p c s = (Written, s') \<longrightarrow>
     fs_read F s' p = Inr c \<and> (\<forall>q. q \<noteq> p \<longrightarrow> fs_read F s' q = fs_read F s q))"

definition map_fs :: "(string \<Rightarrow> string option) fs_lib" where
  "map_fs = \<lparr>fs_read = \<lambda>s p. (case s p of None \<Rightarrow> Inl ''No such file or directory'' | Some c \<Rightarrow> Inr c),
     fs_mkdirs = \<lambda>p s. (None, s), fs_write = \<lambda>p c s. (Written, s(p \<mapsto> c))\<rparr>"

lemma fs_laws_map_fs: "fs_laws map_fs"
  by (simp add: fs_laws_def map_fs_def)

definition ReadFile :: "'s fs_lib \<Rightarrow> 's \<Rightarrow> string \<Rightarrow> string + string" where
  "ReadFile F s path =
     (case fs_read F s path of Inl m \<Rightarrow> Inl (''cannot read '' @ path @ '': '' @ m) | Inr c \<Rightarrow> Inr c)"

definition WriteFile :: "'s fs_lib \<Rightarrow> string \<Rightarrow> string \<Rightarrow> 's \<Rightarrow> string option \<times> 's" where
  "WriteFile F path content s =
     (case fs_write F path content s of
        (OpenFailed m, s') \<Rightarrow> (Some (''cannot open '' @ path @ '' for writing: '' @ m), s')
      | (WriteFailed, s') \<Rightarrow> (Some (''write failed for '' @ path), s')
      | (Written, s') \<Rightarrow> (None, s'))"

section \<open>Keys and hashes\<close>

definition FormatKey :: "string \<Rightarrow> string \<Rightarrow> shape \<Rightarrow> string" where
  "FormatKey gpu op' s =
     gpu @ ''/'' @ op' @ ''/M='' @ int_to_string (shape_m s) @ '',N='' @ int_to_string (shape_n s) @
     '',K='' @ int_to_string (shape_k s) @ '','' @ shape_dtype s"

definition fnv_offset :: u64 where "fnv_offset = 1469598103934665603"

definition fnv_prime :: u64 where "fnv_prime = 1099511628211"

definition fnv_step :: "u64 \<Rightarrow> char \<Rightarrow> u64" where
  "fnv_step h c = (h XOR of_nat (of_char c)) * fnv_prime"

definition fnv :: "string \<Rightarrow> u64" where
  "fnv bytes = foldl fnv_step fnv_offset bytes"

definition kHex :: string where "kHex = ''0123456789abcdef''"

text \<open>The loop fills the string from its end; \<open>hex_digits n\<close> is its last \<open>n\<close> rounds.\<close>

fun hex_digits :: "nat \<Rightarrow> u64 \<Rightarrow> string" where
  "hex_digits 0 h = []"
| "hex_digits (Suc n) h = hex_digits n (drop_bit 4 h) @ [kHex ! unat (h AND 0xF)]"

definition HashFile :: "'s fs_lib \<Rightarrow> 's \<Rightarrow> string \<Rightarrow> string + string" where
  "HashFile F s so_path =
     (case fs_read F s so_path of
        Inl m \<Rightarrow> Inl (''cannot read binary '' @ so_path @ '': '' @ m)
      | Inr buf \<Rightarrow> Inr (hex_digits 16 (fnv buf)))"

section \<open>The cache\<close>

record cached_binary =
  so_path :: string
  kernel_hash :: string

record kernel_cache =
  kc_db :: tuning_db
  kc_binaries :: "(string, cached_binary) std_map"

definition new_cache :: kernel_cache where
  "new_cache = \<lparr>kc_db = [], kc_binaries = []\<rparr>"

definition LoadTuningCache :: "'v json_lib \<Rightarrow> string \<Rightarrow> kernel_cache \<Rightarrow> string option \<times> kernel_cache" where
  "LoadTuningCache L text c =
     (case db_parse L text of Inl err \<Rightarrow> (Some err, c) | Inr db' \<Rightarrow> (None, c\<lparr>kc_db := db'\<rparr>))"

definition kc_put :: "cache_entry \<Rightarrow> kernel_cache \<Rightarrow> bool \<times> kernel_cache" where
  "kc_put e c = (case db_put e (kc_db c) of (ok, db') \<Rightarrow> (ok, c\<lparr>kc_db := db'\<rparr>))"

definition Select :: "string \<Rightarrow> string \<Rightarrow> shape \<Rightarrow> kernel_cache \<Rightarrow> string + cache_entry" where
  "Select gpu op' s c =
     (case db_get gpu op' s (kc_db c) of
        None \<Rightarrow> Inl (''no tuned kernel for '' @ FormatKey gpu op' s @
                  ''; run the autotuner (polykernel-bench --autotune) to populate the cache'')
      | Some e \<Rightarrow>
          if \<not> ce_validated e
          then Inl (''cached entry for '' @ FormatKey gpu op' s @
                 '' is not validated; run the autotuner to produce a correctness-gated variant'')
          else Inr e)"

definition SelectPerGpu :: "string list \<Rightarrow> string \<Rightarrow> shape \<Rightarrow> kernel_cache \<Rightarrow> (string \<times> (string + cache_entry)) list" where
  "SelectPerGpu gpus op' s c = map (\<lambda>gpu. (gpu, Select gpu op' s c)) gpus"

definition PutBinary :: "string \<Rightarrow> string \<Rightarrow> shape \<Rightarrow> cached_binary \<Rightarrow> kernel_cache \<Rightarrow> bool \<times> kernel_cache" where
  "PutBinary gpu op' s b c =
     (if gpu = [] then (False, c)
      else if db_get gpu op' s (kc_db c) = None then (False, c)
      else (True, c\<lparr>kc_binaries := map_put (FormatKey gpu op' s) b (kc_binaries c)\<rparr>))"

definition GetBinary :: "string \<Rightarrow> string \<Rightarrow> shape \<Rightarrow> kernel_cache \<Rightarrow> cached_binary option" where
  "GetBinary gpu op' s c = map_find (FormatKey gpu op' s) (kc_binaries c)"

section \<open>Persistence\<close>

definition kPersistVersion :: int where "kPersistVersion = 1"
definition kTuningDbFile :: string where "kTuningDbFile = ''/tuning_db.json''"
definition kBinariesFile :: string where "kBinariesFile = ''/binaries.json''"

definition binary_shape_json :: "shape \<Rightarrow> json" where
  "binary_shape_json s = JObj [(''M'', JInt (shape_m s)), (''N'', JInt (shape_n s)), (''K'', JInt (shape_k s)),
     (''dtype'', JStr (shape_dtype s))]"

definition GetStr :: "'v json_lib \<Rightarrow> 'v obj \<Rightarrow> string \<Rightarrow> string \<Rightarrow> string + string" where
  "GetStr L = get_field (jl_string L) ''string'' ''a string''"

definition GetI64 :: "'v json_lib \<Rightarrow> 'v obj \<Rightarrow> string \<Rightarrow> string \<Rightarrow> string + int" where
  "GetI64 L = get_field (jl_integer L) ''integer'' ''an integer''"

definition GetObj :: "'v json_lib \<Rightarrow> 'v obj \<Rightarrow> string \<Rightarrow> string \<Rightarrow> string + 'v obj" where
  "GetObj L = get_field (jl_object L) ''object'' ''an object''"

definition parse_binary_shape :: "'v json_lib \<Rightarrow> 'v obj \<Rightarrow> string \<Rightarrow> string + shape" where
  "parse_binary_shape L ob path =
     rbind (GetI64 L ob ''M'' path) (\<lambda>m.
     rbind (GetI64 L ob ''N'' path) (\<lambda>n.
     rbind (GetI64 L ob ''K'' path) (\<lambda>k.
     rbind (GetStr L ob ''dtype'' path) (\<lambda>dt.
     Inr (Shape m n k dt)))))"

definition binary_json :: "cache_entry \<Rightarrow> cached_binary \<Rightarrow> json" where
  "binary_json e b = JObj [(''gpu'', JStr (ce_gpu e)), (''op'', JStr (ce_op e)),
     (''shape'', binary_shape_json (ce_shape e)), (''so_path'', JStr (so_path b)),
     (''kernel_hash'', JStr (kernel_hash b))]"

definition entry_format_key :: "cache_entry \<Rightarrow> string" where
  "entry_format_key e = FormatKey (ce_gpu e) (ce_op e) (ce_shape e)"

definition db_iteration :: "tuning_db \<Rightarrow> cache_entry list" where
  "db_iteration db = concat (map (\<lambda>ns. db_entries ns db) (Namespaces db))"

definition binary_records :: "tuning_db \<Rightarrow> (string, cached_binary) std_map \<Rightarrow> (cache_entry \<times> cached_binary) list" where
  "binary_records db bins =
     concat (map (\<lambda>e. case map_find (entry_format_key e) bins of None \<Rightarrow> [] | Some b \<Rightarrow> [(e, b)]) (db_iteration db))"

definition binaries_json :: "tuning_db \<Rightarrow> (string, cached_binary) std_map \<Rightarrow> json" where
  "binaries_json db bins = JObj [(''version'', JInt kPersistVersion),
     (''binaries'', JArr (map (\<lambda>(e, b). binary_json e b) (binary_records db bins)))]"

definition SerializeBinaries :: "'v json_lib \<Rightarrow> tuning_db \<Rightarrow> (string, cached_binary) std_map \<Rightarrow> string" where
  "SerializeBinaries L db bins = jl_print L (binaries_json db bins)"

definition parse_binary :: "'v json_lib \<Rightarrow> tuning_db \<Rightarrow> 'v obj \<Rightarrow> string \<Rightarrow> string + string \<times> cached_binary" where
  "parse_binary L db ob path =
     rbind (GetStr L ob ''gpu'' path) (\<lambda>gpu.
     rbind (GetStr L ob ''op'' path) (\<lambda>op'.
     rbind (GetObj L ob ''shape'' path) (\<lambda>so.
     rbind (parse_binary_shape L so (path @ ''.shape'')) (\<lambda>s.
     rbind (GetStr L ob ''so_path'' path) (\<lambda>sp.
     rbind (GetStr L ob ''kernel_hash'' path) (\<lambda>kh.
     if db_get gpu op' s db = None
     then Inl (path @ '': no tuning entry for '' @ FormatKey gpu op' s @
            '' (a binary must back a present tuning entry)'')
     else Inr (FormatKey gpu op' s, \<lparr>so_path = sp, kernel_hash = kh\<rparr>)))))))"

fun parse_binary_list :: "'v json_lib \<Rightarrow> tuning_db \<Rightarrow> nat \<Rightarrow> 'v list \<Rightarrow> (string, cached_binary) std_map
    \<Rightarrow> string + (string, cached_binary) std_map" where
  "parse_binary_list L db i [] out = Inr out"
| "parse_binary_list L db i (v # vs) out =
     (let path = ''binaries['' @ nat_to_string i @ '']''
      in case jl_object L v of
           None \<Rightarrow> Inl (path @ '': expected an object'')
         | Some ob \<Rightarrow> rbind (parse_binary L db ob path) (\<lambda>(k, b).
             parse_binary_list L db (Suc i) vs (map_put k b out)))"

definition ParseBinaries :: "'v json_lib \<Rightarrow> string \<Rightarrow> tuning_db \<Rightarrow> string + (string, cached_binary) std_map" where
  "ParseBinaries L text db =
     (case jl_parse L text of
        Inl err \<Rightarrow> Inl (''malformed JSON: '' @ err)
      | Inr v \<Rightarrow>
          (case jl_object L v of
             None \<Rightarrow> Inl ''root: expected a JSON object (the binaries envelope)''
           | Some rt \<Rightarrow>
               rbind (GetI64 L rt ''version'' ''root'') (\<lambda>version.
               if version \<noteq> kPersistVersion
               then Inl (''root.version: unsupported binaries version '' @ int_to_string version @
                      '' (expected '' @ int_to_string kPersistVersion @ '')'')
               else case rt ''binaries'' of
                      None \<Rightarrow> Inl ''root.binaries: missing required array field''
                    | Some bv \<Rightarrow>
                        (case jl_array L bv of
                           None \<Rightarrow> Inl ''root.binaries: expected an array''
                         | Some vs \<Rightarrow> parse_binary_list L db 0 vs []))))"

definition Persist :: "'s fs_lib \<Rightarrow> 'v json_lib \<Rightarrow> string \<Rightarrow> kernel_cache \<Rightarrow> 's \<Rightarrow> string option \<times> 's" where
  "Persist F L dir c s =
     (case fs_mkdirs F dir s of
        (Some ec, s') \<Rightarrow> (Some (''cannot create cache dir '' @ dir @ '': '' @ ec), s')
      | (None, s') \<Rightarrow>
          (case WriteFile F (dir @ kTuningDbFile) (db_serialize L (kc_db c)) s' of
             (Some err, s'') \<Rightarrow> (Some err, s'')
           | (None, s'') \<Rightarrow>
               WriteFile F (dir @ kBinariesFile) (SerializeBinaries L (kc_db c) (kc_binaries c)) s''))"

definition LoadPersisted :: "'s fs_lib \<Rightarrow> 'v json_lib \<Rightarrow> 's \<Rightarrow> string \<Rightarrow> kernel_cache \<Rightarrow> string option \<times> kernel_cache" where
  "LoadPersisted F L s dir c =
     (case ReadFile F s (dir @ kTuningDbFile) of
        Inl err \<Rightarrow> (Some err, c)
      | Inr tuning_text \<Rightarrow>
          (case ReadFile F s (dir @ kBinariesFile) of
             Inl err \<Rightarrow> (Some err, c)
           | Inr binaries_text \<Rightarrow>
               (case db_parse L tuning_text of
                  Inl err \<Rightarrow> (Some (''tuning_db.json: '' @ err), c)
                | Inr db' \<Rightarrow>
                    (case ParseBinaries L binaries_text db' of
                       Inl err \<Rightarrow> (Some (''binaries.json: '' @ err), c)
                     | Inr bins \<Rightarrow> (None, c\<lparr>kc_db := db', kc_binaries := bins\<rparr>)))))"

section \<open>Invalidation\<close>

definition is_stale :: "'s fs_lib \<Rightarrow> 's \<Rightarrow> cached_binary \<Rightarrow> bool" where
  "is_stale F s b =
     (case HashFile F s (so_path b) of Inl err \<Rightarrow> True | Inr h \<Rightarrow> h \<noteq> kernel_hash b)"

definition stale_keys :: "'s fs_lib \<Rightarrow> 's \<Rightarrow> (string, cached_binary) std_map \<Rightarrow> string list" where
  "stale_keys F s bins = map fst (filter (\<lambda>(k, b). is_stale F s b) bins)"

definition InvalidateStale :: "'s fs_lib \<Rightarrow> 's \<Rightarrow> kernel_cache \<Rightarrow> nat \<times> kernel_cache" where
  "InvalidateStale F s c =
     (let stale = stale_keys F s (kc_binaries c)
      in if stale = [] then (0, c)
         else (length stale,
           c\<lparr>kc_db := put_all db_put [] (filter (\<lambda>e. entry_format_key e \<notin> set stale) (db_iteration (kc_db c))),
             kc_binaries := foldl (\<lambda>bins k. map_erase k bins) (kc_binaries c) stale\<rparr>))"

section \<open>The hash\<close>

lemma fnv_prime_inverse: "fnv_prime * 14886173955864302971 = 1"
  by (simp add: fnv_prime_def)

lemma mult_fnv_prime_inject: "a * fnv_prime = b * fnv_prime \<longleftrightarrow> a = (b :: u64)"
proof
  assume "a * fnv_prime = b * fnv_prime"
  then have "a * (fnv_prime * 14886173955864302971) = b * (fnv_prime * 14886173955864302971)"
    by (simp add: mult.assoc [symmetric])
  then show "a = b" by (simp add: fnv_prime_inverse)
qed simp

lemma xor_left_inject: "x XOR a = x XOR b \<longleftrightarrow> a = (b :: u64)"
proof
  assume "x XOR a = x XOR b"
  then have "x XOR (x XOR a) = x XOR (x XOR b)" by simp
  then show "a = b" by (simp add: xor.assoc [symmetric])
qed simp

lemma byte_inject: "(of_nat (of_char a) :: u64) = of_nat (of_char b) \<longleftrightarrow> a = b"
proof
  assume "(of_nat (of_char a) :: u64) = of_nat (of_char b)"
  then have "unat (of_nat (of_char a) :: u64) = unat (of_nat (of_char b) :: u64)" by simp
  moreover have "(of_char c :: nat) < 2 ^ 64" for c :: char
    by (rule less_trans [OF nat_of_char_less_256]) simp
  ultimately show "a = b" by (simp add: unsigned_of_nat take_bit_nat_eq_self)
qed simp

lemma fnv_step_inject_state: "fnv_step h c = fnv_step h' c \<longleftrightarrow> h = h'"
  by (simp add: fnv_step_def mult_fnv_prime_inject xor.commute [of _ "of_nat (of_char c)"] xor_left_inject)

lemma fnv_step_inject_byte: "fnv_step h a = fnv_step h b \<longleftrightarrow> a = b"
  by (simp add: fnv_step_def mult_fnv_prime_inject xor_left_inject byte_inject)

lemma fnv_fold_inject: "foldl fnv_step h cs = foldl fnv_step h' cs \<longleftrightarrow> h = h'"
  by (induction cs arbitrary: h h') (simp_all add: fnv_step_inject_state)

lemma fnv_one_byte: "fnv (xs @ a # ys) = fnv (xs @ b # ys) \<longleftrightarrow> a = b"
  by (simp add: fnv_def fnv_fold_inject fnv_step_inject_byte)

lemma kHex_inject: "i < 16 \<Longrightarrow> j < 16 \<Longrightarrow> kHex ! i = kHex ! j \<longleftrightarrow> i = j"
  by (rule nth_eq_iff_index_eq) (simp_all add: kHex_def)

lemma length_hex_digits [simp]: "length (hex_digits n h) = n"
  by (induction n arbitrary: h) simp_all

lemma unat_low_digit: "unat (h AND 0xF :: u64) = unat h mod 16"
proof -
  have "h AND 0xF = take_bit 4 h" by (simp add: take_bit_eq_mask mask_eq_exp_minus_1)
  then show ?thesis by (simp add: take_bit_eq_mod unat_mod_distrib)
qed

lemma unat_shift_digit: "unat (drop_bit 4 h :: u64) = unat h div 16"
  by (simp add: drop_bit_eq_div unat_div_distrib)

lemma hex_digits_inject:
  "hex_digits n h = hex_digits n h' \<Longrightarrow> unat h mod 16 ^ n = unat h' mod 16 ^ n"
proof (induction n arbitrary: h h')
  case (Suc n)
  then have "hex_digits n (drop_bit 4 h) = hex_digits n (drop_bit 4 h')" by simp
  then have "unat h div 16 mod 16 ^ n = unat h' div 16 mod 16 ^ n"
    using Suc.IH unat_shift_digit by metis
  moreover have "unat h mod 16 = unat h' mod 16"
    using Suc.prems by (simp add: unat_low_digit kHex_inject)
  ultimately show ?case
    by (simp only: power_Suc mod_mult2_eq)
qed simp

lemma hex_hash_inject: "hex_digits 16 h = hex_digits 16 h' \<longleftrightarrow> h = h'"
proof
  assume "hex_digits 16 h = hex_digits 16 h'"
  then have "unat h mod 16 ^ 16 = unat h' mod 16 ^ 16" by (rule hex_digits_inject)
  moreover have "unat w mod 16 ^ 16 = unat w" for w :: u64
  proof -
    have "unat w < 2 ^ LENGTH(64)" by (rule unsigned_less)
    then show ?thesis by simp
  qed
  ultimately show "h = h'" by (simp only: word_unat_eq_iff)
qed simp

section \<open>The invariant of the cache\<close>

definition kc_ok :: "kernel_cache \<Rightarrow> bool" where
  "kc_ok c \<longleftrightarrow> db_ok (kc_db c) \<and> map_sorted (kc_binaries c)"

lemma kc_ok_new [inv_intros]: "kc_ok new_cache"
  by (simp add: kc_ok_def new_cache_def)

lemma db_ok_put_entries: "db_ok d \<Longrightarrow> put_entries i es d = Inr d' \<Longrightarrow> db_ok d'"
  by (induction es arbitrary: i d) (auto simp: split_beta split: if_splits dest: db_ok_put)

lemma db_ok_parse: "db_parse L text = Inr d \<Longrightarrow> db_ok d"
  by (auto simp: db_parse_def rbind_Inr_iff dest: db_ok_put_entries [OF db_ok_Nil])

lemma sorted_parse_binary_list:
  "map_sorted out \<Longrightarrow> parse_binary_list L d i vs out = Inr bins \<Longrightarrow> map_sorted bins"
proof (induction vs arbitrary: i out)
  case (Cons v vs)
  from Cons.prems(2) obtain j k b where "parse_binary_list L d j vs (map_put k b out) = Inr bins"
    by (auto simp: Let_def rbind_Inr_iff split: option.splits)
  with Cons.IH [OF map_sorted_map_put [OF Cons.prems(1)]] show ?case by blast
qed simp

lemma sorted_ParseBinaries: "ParseBinaries L text d = Inr bins \<Longrightarrow> map_sorted bins"
  by (auto simp: ParseBinaries_def rbind_Inr_iff split: sum.splits option.splits if_splits
      dest: sorted_parse_binary_list [OF map_sorted_Nil])

lemma kc_ok_LoadTuningCache [inv_intros]: "kc_ok c \<Longrightarrow> kc_ok (snd (LoadTuningCache L text c))"
  by (auto simp: LoadTuningCache_def kc_ok_def db_ok_parse split: sum.split)

lemma kc_ok_put [inv_intros]: "kc_ok c \<Longrightarrow> kc_ok (snd (kc_put e c))"
  using db_ok_put [of "kc_db c" e] by (simp add: kc_put_def kc_ok_def split_beta)

lemma kc_ok_PutBinary [inv_intros]: "kc_ok c \<Longrightarrow> kc_ok (snd (PutBinary g p s b c))"
  by (simp add: PutBinary_def kc_ok_def map_sorted_map_put)

lemma kc_ok_LoadPersisted [inv_intros]: "kc_ok c \<Longrightarrow> kc_ok (snd (LoadPersisted F L st dir c))"
  by (auto simp: LoadPersisted_def kc_ok_def db_ok_parse sorted_ParseBinaries split: sum.split)

lemma sorted_erase_all: "map_sorted bins \<Longrightarrow> map_sorted (foldl (\<lambda>bins k. map_erase k bins) bins ks)"
  by (induction ks arbitrary: bins) (simp_all add: map_sorted_erase)

lemma kc_ok_InvalidateStale [inv_intros]: "kc_ok c \<Longrightarrow> kc_ok (snd (InvalidateStale F st c))"
  by (simp add: InvalidateStale_def kc_ok_def Let_def db.ok_put_all sorted_erase_all)

text \<open>What a process does with its cache; the file system is any state at each call.\<close>

inductive kc_step :: "'s fs_lib \<Rightarrow> 'v json_lib \<Rightarrow> kernel_cache \<Rightarrow> kernel_cache \<Rightarrow> bool"
  for F :: "'s fs_lib" and L :: "'v json_lib" where
  step_load: "kc_step F L c (snd (LoadTuningCache L text c))"
| step_put: "kc_step F L c (snd (kc_put e c))"
| step_put_binary: "kc_step F L c (snd (PutBinary g p s b c))"
| step_load_persisted: "kc_step F L c (snd (LoadPersisted F L st dir c))"
| step_invalidate: "kc_step F L c (snd (InvalidateStale F st c))"

definition kc_reachable :: "'s fs_lib \<Rightarrow> 'v json_lib \<Rightarrow> kernel_cache \<Rightarrow> bool" where
  "kc_reachable F L c \<longleftrightarrow> (kc_step F L)\<^sup>*\<^sup>* new_cache c"

lemma kc_ok_reachable: "kc_reachable F L c \<Longrightarrow> kc_ok c"
  unfolding kc_reachable_def
  by (induction rule: rtranclp_induct) (auto elim!: kc_step.cases intro: inv_intros)

text \<open>Selection is safe in every reachable cache: a variant is returned exactly when the database
  has a validated entry for the requested gpu, op and shape, and it is that entry, with the
  requested identity; asking for several gpus asks each one separately.\<close>

theorem Select_safe:
  assumes "kc_reachable F L c"
  shows "(Select g p s c = Inr e \<longleftrightarrow> ce_validated e \<and> has_key g p s e \<and> e \<in> set (db_entries g (kc_db c))) \<and>
    ((g, Inr e) \<in> set (SelectPerGpu gs p s c) \<longleftrightarrow> g \<in> set gs \<and> Select g p s c = Inr e)"
proof -
  have ok: "db_ok (kc_db c)" using kc_ok_reachable [OF assms] by (simp add: kc_ok_def)
  have "db_get g p s (kc_db c) = Some e \<longleftrightarrow> has_key g p s e \<and> e \<in> set (db_entries g (kc_db c))"
    using db.get_identity [OF ok, of g p s e] db.entries_get [OF ok, of e g] by (auto simp: has_key_def)
  then have "Select g p s c = Inr e \<longleftrightarrow> ce_validated e \<and> has_key g p s e \<and> e \<in> set (db_entries g (kc_db c))"
    by (auto simp: Select_def split: option.splits)
  then show ?thesis by (auto simp: SelectPerGpu_def)
qed

section \<open>Invalidation removes exactly the stale entries\<close>

definition stale_key :: "'s fs_lib \<Rightarrow> 's \<Rightarrow> kernel_cache \<Rightarrow> string \<Rightarrow> bool" where
  "stale_key F st c k \<longleftrightarrow> (case map_find k (kc_binaries c) of None \<Rightarrow> False | Some b \<Rightarrow> is_stale F st b)"

lemma set_stale_keys:
  "map_sorted (kc_binaries c) \<Longrightarrow> k \<in> set (stale_keys F st (kc_binaries c)) \<longleftrightarrow> stale_key F st c k"
proof -
  assume s: "map_sorted (kc_binaries c)"
  have "k \<in> set (stale_keys F st (kc_binaries c)) \<longleftrightarrow> (\<exists>b. (k, b) \<in> set (kc_binaries c) \<and> is_stale F st b)"
    by (force simp: stale_keys_def)
  also have "\<dots> \<longleftrightarrow> stale_key F st c k"
    by (simp add: stale_key_def map_find_iff [OF s, symmetric] split: option.split)
  finally show ?thesis .
qed

lemma db_iteration_get:
  "db_ok d \<Longrightarrow> e \<in> set (db_iteration d) \<longleftrightarrow> db_get (ce_gpu e) (ce_op e) (ce_shape e) d = Some e"
  unfolding db_iteration_def by (rule db.iteration_get)

lemma map_find_erase_all:
  "map_find k (foldl (\<lambda>bins k. map_erase k bins) bins ks) = (if k \<in> set ks then None else map_find k bins)"
  by (induction ks arbitrary: bins) auto

lemma InvalidateStale_get:
  assumes "kc_ok c"
  shows "db_get g p s (kc_db (snd (InvalidateStale F st c))) =
    (if stale_key F st c (FormatKey g p s) then None else db_get g p s (kc_db c))"
proof -
  let ?ks = "stale_keys F st (kc_binaries c)"
  have ok: "db_ok (kc_db c)" and st: "stale_key F st c k \<longleftrightarrow> k \<in> set ?ks" for k
    using assms by (simp_all add: kc_ok_def set_stale_keys)
  note copy = db.get_copy [OF ok db_iteration_get [OF ok], of g p s "\<lambda>e. entry_format_key e \<notin> set ?ks"]
  show ?thesis
    using copy db.get_identity [OF ok, of g p s]
    by (auto simp: InvalidateStale_def Let_def st has_key_def entry_format_key_def split: option.splits)
qed

lemma InvalidateStale_find:
  assumes "kc_ok c"
  shows "map_find k (kc_binaries (snd (InvalidateStale F st c))) =
    (if stale_key F st c k then None else map_find k (kc_binaries c))"
  using assms by (auto simp: InvalidateStale_def Let_def map_find_erase_all kc_ok_def
      set_stale_keys [symmetric])

lemma InvalidateStale_count:
  assumes "kc_ok c"
  shows "fst (InvalidateStale F st c) = card {k. stale_key F st c k}"
proof -
  have "distinct (stale_keys F st (kc_binaries c))"
    using assms map_sorted_distinct [of "kc_binaries c"]
    by (simp add: stale_keys_def kc_ok_def distinct_map_filter)
  then have "length (stale_keys F st (kc_binaries c)) = card (set (stale_keys F st (kc_binaries c)))"
    by (rule distinct_card [symmetric])
  also have "set (stale_keys F st (kc_binaries c)) = {k. stale_key F st c k}"
    using assms by (auto simp: kc_ok_def set_stale_keys)
  finally show ?thesis by (auto simp: InvalidateStale_def Let_def)
qed

lemma InvalidateStale_idempotent:
  assumes "kc_ok c"
  shows "InvalidateStale F st (snd (InvalidateStale F st c)) = (0, snd (InvalidateStale F st c))"
proof -
  let ?c = "snd (InvalidateStale F st c)"
  have "kc_ok ?c" by (rule kc_ok_InvalidateStale [OF assms])
  moreover have "\<not> stale_key F st ?c k" for k
    using InvalidateStale_find [OF assms, of k F st] by (auto simp: stale_key_def split: option.splits)
  ultimately have "k \<notin> set (stale_keys F st (kc_binaries ?c))" for k
    unfolding kc_ok_def by (simp add: set_stale_keys)
  then have "stale_keys F st (kc_binaries ?c) = []"
    by (metis list.set_intros(1) neq_Nil_conv)
  then show ?thesis by (simp add: InvalidateStale_def [of F st ?c])
qed

text \<open>Invalidation drops exactly the entries and binary records whose binary is unreadable or
  hashes differently, keeps every other lookup as it was, returns their number, and leaves nothing
  for a second call.\<close>

theorem InvalidateStale_exact:
  assumes "kc_reachable F L c" and "InvalidateStale F st c = (n, c')"
  shows "(\<forall>g p s. db_get g p s (kc_db c') = (if stale_key F st c (FormatKey g p s) then None else db_get g p s (kc_db c))) \<and>
    (\<forall>k. map_find k (kc_binaries c') = (if stale_key F st c k then None else map_find k (kc_binaries c))) \<and>
    n = card {k. stale_key F st c k} \<and> InvalidateStale F st c' = (0, c')"
proof -
  note ok = kc_ok_reachable [OF assms(1)]
  show ?thesis
    using InvalidateStale_get [OF ok, of _ _ _ F st] InvalidateStale_find [OF ok, of _ F st]
      InvalidateStale_count [OF ok, of F st] InvalidateStale_idempotent [OF ok, of F st]
    unfolding assms(2) by simp
qed

definition demo_cache :: kernel_cache where
  "demo_cache = snd (PutBinary ''gfx942'' ''matmul'' (Shape 64 32 16 ''bf16'') \<lparr>so_path = ''k.so'', kernel_hash = ''00''\<rparr>
     (snd (kc_put (demo_entry ''gfx942'' True) new_cache)))"

lemma demo_cache_reachable: "kc_reachable map_fs tree_json demo_cache"
  unfolding kc_reachable_def demo_cache_def
  by (rule rtranclp.rtrancl_into_rtrancl [OF rtranclp.rtrancl_into_rtrancl [OF rtranclp.rtrancl_refl]])
    (rule kc_step.intros)+

theorem Select_safe_witness:
  "Select ''gfx942'' ''matmul'' (Shape 64 32 16 ''bf16'') demo_cache = Inr (demo_entry ''gfx942'' True) \<and>
   Select ''gfx1101'' ''matmul'' (Shape 64 32 16 ''bf16'') demo_cache \<noteq> Inr (demo_entry ''gfx942'' True)"
  using Select_safe [OF demo_cache_reachable, of "''gfx942''" "''matmul''" "Shape 64 32 16 ''bf16''" "demo_entry ''gfx942'' True"]
    Select_safe [OF demo_cache_reachable, of "''gfx1101''" "''matmul''" "Shape 64 32 16 ''bf16''" "demo_entry ''gfx942'' True"]
  by (simp add: demo_cache_def kc_put_def db_put_def PutBinary_def db_get_def new_cache_def db_entries_def
      has_key_def entry_key_def demo_entry_def)

lemma no_file_stale: "is_stale map_fs (\<lambda>p. None) b"
  by (simp add: is_stale_def HashFile_def map_fs_def)

theorem InvalidateStale_exact_witness:
  "db_get ''gfx942'' ''matmul'' (Shape 64 32 16 ''bf16'') (kc_db (snd (InvalidateStale map_fs (\<lambda>p. None) demo_cache))) = None"
proof -
  have "stale_key map_fs (\<lambda>p. None) demo_cache (FormatKey ''gfx942'' ''matmul'' (Shape 64 32 16 ''bf16''))"
    by (simp add: stale_key_def demo_cache_def PutBinary_def kc_put_def db_put_def new_cache_def db_get_def
        entry_key_def demo_entry_def map_find_def no_file_stale)
  with InvalidateStale_exact [OF demo_cache_reachable prod.collapse [symmetric], of "\<lambda>p. None"] show ?thesis
    by metis
qed

text \<open>The hash of a file is sixteen hexadecimal digits, and replacing one byte of a file always
  changes it, as the comment claims: each round of the hash is injective in the state and in the
  byte, and no state is lost in the printing.\<close>

theorem HashFile_one_byte:
  assumes "fs_read F s p = Inr (xs @ a # ys)" and "fs_read F s q = Inr (xs @ b # ys)"
  shows "(\<exists>h. HashFile F s p = Inr h \<and> length h = 16) \<and> (HashFile F s p = HashFile F s q \<longleftrightarrow> a = b)"
  by (simp add: HashFile_def assms hex_hash_inject fnv_one_byte)

theorem HashFile_one_byte_witness:
  "HashFile map_fs [''a'' \<mapsto> ''ELF1'', ''b'' \<mapsto> ''ELF2''] ''a'' \<noteq> HashFile map_fs [''a'' \<mapsto> ''ELF1'', ''b'' \<mapsto> ''ELF2''] ''b''"
  using HashFile_one_byte [of map_fs "[''a'' \<mapsto> ''ELF1'', ''b'' \<mapsto> ''ELF2'']" "''a''" "''ELF''" "CHR ''1''" "[]" "''b''" "CHR ''2''"]
  by (simp add: map_fs_def)

section \<open>Persisting and loading\<close>

definition backed :: "kernel_cache \<Rightarrow> bool" where
  "backed c \<longleftrightarrow> (\<forall>k \<in> fst ` set (kc_binaries c). k \<in> entry_format_key ` set (map snd (kc_db c)))"

text \<open>The records that the file format can hold: it lists a binary under the entry it backs.\<close>

definition backed_binaries :: "kernel_cache \<Rightarrow> (string, cached_binary) std_map" where
  "backed_binaries c = filter (\<lambda>(k, b). k \<in> entry_format_key ` set (map snd (kc_db c))) (kc_binaries c)"

lemma find_filter_keys: "map_find k (filter (\<lambda>(k, b). P k) xs) = (if P k then map_find k xs else None)"
  by (induction xs) (auto simp: map_find_def)

lemma backed_iff: "backed c \<longleftrightarrow> backed_binaries c = kc_binaries c"
  by (simp add: backed_def backed_binaries_def filter_id_conv split_beta)

definition binary_ok :: "'v json_lib \<Rightarrow> cached_binary \<Rightarrow> bool" where
  "binary_ok L b \<longleftrightarrow> jl_utf8 L (so_path b) \<and> jl_utf8 L (kernel_hash b)"

definition storable :: "'v json_lib \<Rightarrow> kernel_cache \<Rightarrow> bool" where
  "storable L c \<longleftrightarrow> list_all (entry_ok L) (map snd (kc_db c)) \<and>
     list_all (binary_ok L) (map snd (kc_binaries c))"

lemma set_binary_records:
  "(e, b) \<in> set (binary_records d bins) \<longleftrightarrow> e \<in> set (db_iteration d) \<and> map_find (entry_format_key e) bins = Some b"
  by (auto simp: binary_records_def split: option.splits)

lemma reads_binary:
  assumes "reads L (binary_json e b) v" and "db_get (ce_gpu e) (ce_op e) (ce_shape e) d \<noteq> None"
  shows "\<exists>ob. jl_object L v = Some ob \<and> parse_binary L d ob path = Inr (entry_format_key e, b)"
proof -
  obtain m n k dt where sh: "ce_shape e = Shape m n k dt" by (cases "ce_shape e")
  from assms(1) obtain ob where ob: "jl_object L v = Some ob"
    and fs: "fld ob ''gpu'' (jl_string L) = Some (ce_gpu e)" "fld ob ''op'' (jl_string L) = Some (ce_op e)"
    "\<exists>w. ob ''shape'' = Some w \<and> reads L (binary_shape_json (ce_shape e)) w"
    "fld ob ''so_path'' (jl_string L) = Some (so_path b)" "fld ob ''kernel_hash'' (jl_string L) = Some (kernel_hash b)"
    unfolding binary_json_def reads_JObj by (auto simp: fld_def)
  from fs(3) obtain w so where so: "ob ''shape'' = Some w" "jl_object L w = Some so"
    "fld so ''M'' (jl_integer L) = Some m" "fld so ''N'' (jl_integer L) = Some n"
    "fld so ''K'' (jl_integer L) = Some k" "fld so ''dtype'' (jl_string L) = Some dt"
    unfolding binary_shape_json_def reads_JObj by (auto simp: fld_def sh)
  have "parse_binary L d ob path = Inr (entry_format_key e, b)"
    using assms(2) fs(1,2,4,5) so
    by (simp add: parse_binary_def parse_binary_shape_def rbind_Inr_iff GetStr_def GetI64_def GetObj_def sh
        entry_format_key_def fld_def [of ob "''shape''"])
  with ob show ?thesis by blast
qed

lemma parse_binary_records:
  assumes "list_all2 (reads L) (map (\<lambda>(e, b). binary_json e b) rs) vs"
    and "\<And>e b. (e, b) \<in> set rs \<Longrightarrow> db_get (ce_gpu e) (ce_op e) (ce_shape e) d \<noteq> None"
  shows "parse_binary_list L d i vs out =
    Inr (foldl (\<lambda>out (e, b). map_put (entry_format_key e) b out) out rs)"
  using assms
proof (induction rs arbitrary: vs i out)
  case (Cons r rs)
  obtain e b where r: "r = (e, b)" by (cases r)
  from Cons.prems(1) r obtain v vs' where vs: "vs = v # vs'" "reads L (binary_json e b) v"
    "list_all2 (reads L) (map (\<lambda>(e, b). binary_json e b) rs) vs'"
    by (auto simp: list_all2_Cons1)
  have "db_get (ce_gpu e) (ce_op e) (ce_shape e) d \<noteq> None" using Cons.prems(2) [of e b] r by simp
  from reads_binary [OF vs(2) this] obtain ob where ob: "jl_object L v = Some ob"
    "\<And>path. parse_binary L d ob path = Inr (entry_format_key e, b)" by (metis option.inject)
  have "db_get (ce_gpu e') (ce_op e') (ce_shape e') d \<noteq> None" if "(e', b') \<in> set rs" for e' b'
    using that Cons.prems(2) [of e' b'] by simp
  from Cons.IH [OF vs(3) this] show ?case by (simp add: vs(1) ob r Let_def)
qed simp

lemma find_put_records:
  assumes "\<And>e b. (e, b) \<in> set rs \<Longrightarrow> map_find (entry_format_key e) bins = Some b"
  shows "map_find k (foldl (\<lambda>out (e, b). map_put (entry_format_key e) b out) out rs) =
    (if k \<in> entry_format_key ` fst ` set rs then map_find k bins else map_find k out)"
  using assms
proof (induction rs rule: rev_induct)
  case (snoc r rs)
  obtain e b where r: "r = (e, b)" by (cases r)
  have IH: "map_find k (foldl (\<lambda>out (e, b). map_put (entry_format_key e) b out) out rs) =
    (if k \<in> entry_format_key ` fst ` set rs then map_find k bins else map_find k out)"
    using snoc.prems by (intro snoc.IH) simp
  have "map_find (entry_format_key e) bins = Some b" using snoc.prems r by simp
  with IH show ?case by (simp add: r)
qed simp

lemma sorted_put_records:
  "map_sorted out \<Longrightarrow> map_sorted (foldl (\<lambda>out (e, b). map_put (entry_format_key e) b out) out rs)"
  by (induction rs arbitrary: out) (auto simp: map_sorted_map_put)

lemma ParseBinaries_roundtrip:
  assumes "json_roundtrip L" and "kc_ok c" and "storable L c"
  shows "ParseBinaries L (SerializeBinaries L (kc_db c) (kc_binaries c)) (kc_db c) = Inr (backed_binaries c)"
proof -
  let ?d = "kc_db c" and ?rs = "binary_records (kc_db c) (kc_binaries c)"
  have ok: "db_ok ?d" and sorted: "map_sorted (kc_binaries c)" using assms(2) by (simp_all add: kc_ok_def)
  have iter: "e \<in> set (db_iteration ?d) \<longleftrightarrow> e \<in> set (map snd ?d)" for e
    by (simp add: db_iteration_get [OF ok] db_get_iff [OF ok])
  have "printable L (binary_json e b)" if "(e, b) \<in> set ?rs" for e b
  proof -
    have "e \<in> set (map snd ?d)" "b \<in> set (map snd (kc_binaries c))"
      using that map_find_Some_set [of "entry_format_key e" "kc_binaries c" b]
      by (force simp: set_binary_records iter)+
    then have "entry_ok L e" "binary_ok L b"
      using assms(3) by (auto simp: storable_def list_all_iff)
    then show ?thesis
      by (cases "ce_shape e") (simp add: binary_json_def binary_shape_json_def entry_ok_def binary_ok_def)
  qed
  then have "printable L (binaries_json ?d (kc_binaries c))"
    by (auto simp: binaries_json_def list_all_iff kPersistVersion_def in_i64_def)
  from json_roundtripD [OF assms(1) this] obtain v
    where v: "jl_parse L (jl_print L (binaries_json ?d (kc_binaries c))) = Inr v"
      "reads L (binaries_json ?d (kc_binaries c)) v" .
  from v(2) obtain rt w vs where rt: "jl_object L v = Some rt"
    "fld rt ''version'' (jl_integer L) = Some kPersistVersion" "rt ''binaries'' = Some w" "jl_array L w = Some vs"
    "list_all2 (reads L) (map (\<lambda>(e, b). binary_json e b) ?rs) vs"
    unfolding binaries_json_def reads_JObj by (auto simp: fld_def split: option.splits)
  have "parse_binary_list L ?d 0 vs [] = Inr (foldl (\<lambda>out (e, b). map_put (entry_format_key e) b out) [] ?rs)"
    by (rule parse_binary_records [OF rt(5)]) (simp add: set_binary_records db_iteration_get [OF ok])
  also have "foldl (\<lambda>out (e, b). map_put (entry_format_key e) b out) [] ?rs = backed_binaries c"
  proof (rule map_sorted_ext)
    show "map_find k (foldl (\<lambda>out (e, b). map_put (entry_format_key e) b out) [] ?rs) = map_find k (backed_binaries c)" for k
    proof -
      have "map_find k (foldl (\<lambda>out (e, b). map_put (entry_format_key e) b out) [] ?rs) =
          (if k \<in> entry_format_key ` fst ` set ?rs then map_find k (kc_binaries c) else None)"
        by (subst find_put_records [where bins = "kc_binaries c"]) (auto simp: set_binary_records)
      also have "\<dots> = (if k \<in> entry_format_key ` set (map snd ?d) then map_find k (kc_binaries c) else None)"
      proof (cases "map_find k (kc_binaries c)")
        case (Some b)
        have "k \<in> entry_format_key ` fst ` set ?rs \<longleftrightarrow> k \<in> entry_format_key ` set (map snd ?d)"
        proof
          assume "k \<in> entry_format_key ` fst ` set ?rs"
          then show "k \<in> entry_format_key ` set (map snd ?d)" by (auto simp: set_binary_records iter)
        next
          assume "k \<in> entry_format_key ` set (map snd ?d)"
          then obtain e where "e \<in> set (map snd ?d)" "k = entry_format_key e" by blast
          then have "(e, b) \<in> set ?rs" "k = entry_format_key e" using Some by (simp_all add: set_binary_records iter)
          then show "k \<in> entry_format_key ` fst ` set ?rs" by force
        qed
        then show ?thesis by simp
      qed simp
      finally show ?thesis by (simp add: backed_binaries_def find_filter_keys)
    qed
  qed (simp_all add: sorted_put_records sorted backed_binaries_def map_sorted_filter)
  finally show ?thesis
    using v(1) rt(1-4) by (simp add: ParseBinaries_def SerializeBinaries_def GetI64_def rbind_Inr_iff)
qed

lemma failed_load_unchanged:
  "LoadPersisted F L st dir c = (Some err, c') \<Longrightarrow> c' = c"
  "LoadTuningCache L text c = (Some err, c') \<Longrightarrow> c' = c"
  by (auto simp: LoadPersisted_def LoadTuningCache_def split: sum.splits)

text \<open>C12. Persisting and loading: when every write of \<open>Persist\<close> succeeds, \<open>LoadPersisted\<close> of the same
  directory succeeds into any cache and gives it the whole tuning database of the persisted one and exactly
  those of its binary records that back an entry; a record without an entry, which the file format cannot
  express, is not restored, so the loaded cache is the persisted one exactly when every record backs an entry.
  The strings of the cache are assumed to be valid UTF-8 and its numbers representable in JSON.\<close>

theorem Persist_LoadPersisted:
  assumes "json_roundtrip L" and "fs_laws F" and "kc_reachable F L c" and "storable L c"
    and "Persist F L dir c s = (None, s')"
  shows "LoadPersisted F L s' dir c0 = (None, c\<lparr>kc_binaries := backed_binaries c\<rparr>) \<and>
    (LoadPersisted F L s' dir c0 = (None, c)) = backed c"
proof -
  let ?t = "dir @ kTuningDbFile" and ?b = "dir @ kBinariesFile"
  let ?tc = "db_serialize L (kc_db c)" and ?bc = "SerializeBinaries L (kc_db c) (kc_binaries c)"
  have ok: "kc_ok c" by (rule kc_ok_reachable [OF assms(3)])
  from assms(5) obtain s1 s2 where w: "fs_write F ?t ?tc s1 = (Written, s2)" "fs_write F ?b ?bc s2 = (Written, s')"
    by (auto simp: Persist_def WriteFile_def split: prod.splits option.splits write_result.splits)
  have "?t \<noteq> ?b" by (simp add: kTuningDbFile_def kBinariesFile_def)
  then have "fs_read F s' ?t = Inr ?tc" "fs_read F s' ?b = Inr ?bc"
    using assms(2) w unfolding fs_laws_def by metis+
  moreover have "db_parse L ?tc = Inr (kc_db c)"
    using assms(1,4) ok by (intro db_parse_serialize) (simp_all add: kc_ok_def storable_def)
  moreover have "ParseBinaries L ?bc (kc_db c) = Inr (backed_binaries c)"
    by (rule ParseBinaries_roundtrip [OF assms(1) ok assms(4)])
  ultimately have "LoadPersisted F L s' dir c0 = (None, c\<lparr>kc_binaries := backed_binaries c\<rparr>)"
    by (simp add: LoadPersisted_def ReadFile_def)
  moreover have "c\<lparr>kc_binaries := backed_binaries c\<rparr> = c \<longleftrightarrow> backed c"
    unfolding backed_iff by (cases c) auto
  ultimately show ?thesis by simp
qed

theorem Persist_LoadPersisted_witness:
  "LoadPersisted map_fs tree_json (snd (Persist map_fs tree_json ''cache'' demo_cache (\<lambda>p. None))) ''cache'' new_cache
     = (None, demo_cache)"
proof -
  have "storable tree_json demo_cache" and b: "backed demo_cache"
    by (simp_all add: storable_def backed_def demo_cache_def PutBinary_def kc_put_def db_put_def new_cache_def
        db_get_def map_find_def entry_ok_demo binary_ok_def entry_format_key_def)
      (simp_all add: demo_entry_def)
  moreover have "Persist map_fs tree_json ''cache'' demo_cache (\<lambda>p. None) =
      (None, snd (Persist map_fs tree_json ''cache'' demo_cache (\<lambda>p. None)))"
    by (simp add: Persist_def WriteFile_def map_fs_def)
  ultimately show ?thesis
    using Persist_LoadPersisted [OF json_roundtrip_tree_json fs_laws_map_fs demo_cache_reachable] by blast
qed

section \<open>Where the keys and the contract fall short\<close>

text \<open>Two requests whose gpu and op differ share one key, hence one binary record.\<close>

lemma FormatKey_collision: "FormatKey ''a/b'' ''c'' s = FormatKey ''a'' ''b/c'' s"
  by (simp add: FormatKey_def)

text \<open>Loading a tuning cache replaces the entries and keeps the binaries of the old ones, so a cache
  can hold binaries that back no entry; persisting then drops them silently.\<close>

lemma LoadTuningCache_keeps_binaries:
  "db_parse L text = Inr [] \<Longrightarrow> kc_binaries c \<noteq> [] \<Longrightarrow> \<not> backed (snd (LoadTuningCache L text c))"
  by (cases "kc_binaries c") (auto simp: LoadTuningCache_def backed_def)

lemma Persist_drops_unbacked: "binary_records [] bins = []"
  by (simp add: binary_records_def db_iteration_def Namespaces_def)

text \<open>The offset basis of FNV-1a has one decimal digit more than the constant of the code.\<close>

lemma fnv_offset_truncated: "fnv_offset \<noteq> 14695981039346656037" "unat fnv_offset = 14695981039346656037 div 10"
  by (simp_all add: fnv_offset_def)

text \<open>Without a slash in the gpu and the op the key is injective.\<close>

lemma split_at_first:
  "c \<notin> set a \<Longrightarrow> c \<notin> set b \<Longrightarrow> a @ c # x = b @ c # y \<longleftrightarrow> a = b \<and> x = y"
proof (induction a arbitrary: b)
  case Nil
  then show ?case by (cases b) auto
next
  case (Cons d a)
  then show ?case by (cases b) auto
qed

lemma int_to_string_chars: "c \<in> set (int_to_string i) \<Longrightarrow> is_digit c \<or> c = CHR ''-''"
  by (auto simp: int_to_string_def dest: nat_to_string_digits split: if_splits)

lemma comma_int_to_string: "CHR '','' \<notin> set (int_to_string i)"
  using int_to_string_chars [of "CHR '',''" i] by (auto simp: is_digit_def)

lemma int_to_string_inject: "int_to_string i = int_to_string j \<longleftrightarrow> i = j"
proof -
  have "nat_to_string n \<noteq> CHR ''-'' # s" for n s
  proof
    assume "nat_to_string n = CHR ''-'' # s"
    then have "is_digit CHR ''-''" using nat_to_string_digits [of "CHR ''-''" n] by simp
    then show False by (simp add: is_digit_def)
  qed
  then show ?thesis
    by (auto simp: int_to_string_def eq_commute [of "_ # _" "nat_to_string _"])
qed

lemma FormatKey_inject:
  assumes "CHR ''/'' \<notin> set g" "CHR ''/'' \<notin> set g'" "CHR ''/'' \<notin> set p" "CHR ''/'' \<notin> set p'"
  shows "FormatKey g p s = FormatKey g' p' s' \<longleftrightarrow> g = g' \<and> p = p' \<and> s = s'"
  using assms
  by (cases s; cases s') (simp add: FormatKey_def split_at_first comma_int_to_string int_to_string_inject)

end
