(* ===== verification/Npy.thy ===== *)
theory Npy
  imports Prelude
begin

text \<open>
  The \<open>.npy\<close> bridge of the CPU reference (\<open>npy_io.h\<close>, \<open>npy_io.cpp\<close>): reading and writing bf16
  tensors with the \<open>V2\<close> descriptor. A file is the string of its bytes. Exceptions are values;
  a product of dimensions outside \<open>int64_t\<close>, undefined in C++, is an error of its own.
\<close>

record npy_array =
  npy_shape :: "int list"
  npy_data :: "u16 list"

datatype npy_error = NpyError string | StollOutOfRange | LengthError | SignedOverflow

definition kMagic :: string where
  "kMagic = [char_of (0x93 :: nat), CHR ''N'', CHR ''U'', CHR ''M'', CHR ''P'', CHR ''Y'']"

text \<open>The running product; \<open>None\<close> when a partial product leaves \<open>int64_t\<close>.\<close>

definition npy_product :: "int list \<Rightarrow> int option" where
  "npy_product sh = foldl (\<lambda>n d. case n of None \<Rightarrow> None
     | Some n \<Rightarrow> if in_i64 (n * d) then Some (n * d) else None) (Some 1) sh"

section \<open>Searching the header\<close>

text \<open>\<open>find_sub pat s\<close> is the rest of \<open>s\<close> behind the first occurrence of \<open>pat\<close>.\<close>

fun strip_prefix :: "string \<Rightarrow> string \<Rightarrow> string option" where
  "strip_prefix [] s = Some s"
| "strip_prefix (p # ps) [] = None"
| "strip_prefix (p # ps) (c # cs) = (if p = c then strip_prefix ps cs else None)"

fun find_sub :: "string \<Rightarrow> string \<Rightarrow> string option" where
  "find_sub pat [] = strip_prefix pat []"
| "find_sub pat (c # cs) =
     (case strip_prefix pat (c # cs) of Some rest \<Rightarrow> Some rest | None \<Rightarrow> find_sub pat cs)"

text \<open>The text before the first \<open>c\<close>, when there is one.\<close>

definition upto_char :: "char \<Rightarrow> string \<Rightarrow> string option" where
  "upto_char c s = (if c \<in> set s then Some (takeWhile (\<lambda>d. d \<noteq> c) s) else None)"

definition quoted :: "string \<Rightarrow> string" where
  "quoted s = CHR 0x27 # s @ [CHR 0x27]"

definition quoted_value_after :: "string \<Rightarrow> string \<Rightarrow> npy_error + string" where
  "quoted_value_after header key =
     (case find_sub key header of
        None \<Rightarrow> Inl (NpyError (''npy header missing key '' @ key))
      | Some rest \<Rightarrow>
          (case find_sub [CHR 0x27] rest of
             None \<Rightarrow> Inl (NpyError (''npy header: no opening quote for '' @ key))
           | Some body \<Rightarrow>
               (case upto_char (CHR 0x27) body of
                  None \<Rightarrow> Inl (NpyError (''npy header: no closing quote for '' @ key))
                | Some v \<Rightarrow> Inr v)))"

text \<open>The loop over the tuple between the parentheses.\<close>

definition is_separator :: "char \<Rightarrow> bool" where
  "is_separator c \<longleftrightarrow> c = CHR '' '' \<or> c = CHR '',''"

function shape_loop :: "string \<Rightarrow> int list \<Rightarrow> npy_error + int list" where
  "shape_loop s acc =
     (case dropWhile is_separator s of
        [] \<Rightarrow> Inr acc
      | c # cs \<Rightarrow>
          if \<not> is_digit c
          then Inl (NpyError (''npy header: non-integer dimension in '' @ quoted ''shape''))
          else let d = int (digits_val (takeWhile is_digit (c # cs)))
               in if \<not> in_i64 d then Inl StollOutOfRange
                  else shape_loop (dropWhile is_digit (c # cs)) (acc @ [d]))"
  by pat_completeness auto

termination shape_loop
proof (relation "measure (\<lambda>(s, acc). length s)")
  fix s c cs d and acc :: "int list"
  assume 1: "dropWhile is_separator s = c # cs" and 2: "\<not> \<not> is_digit c"
  have "length (dropWhile is_digit (c # cs)) < length (c # cs)"
    using 2 length_dropWhile_le [of is_digit cs] by simp
  also have "\<dots> \<le> length s" using length_dropWhile_le [of is_separator s] by (simp add: 1)
  finally show "((dropWhile is_digit (c # cs), acc @ [d]), (s, acc)) \<in> measure (\<lambda>(s, acc). length s)"
    by simp
qed simp

declare shape_loop.simps [simp del]

definition parse_shape :: "string \<Rightarrow> npy_error + int list" where
  "parse_shape header =
     (case find_sub (quoted ''shape'') header of
        None \<Rightarrow> Inl (NpyError (''npy header missing '' @ quoted ''shape''))
      | Some rest \<Rightarrow>
          (case find_sub ''('' rest of
             None \<Rightarrow> Inl (NpyError (''npy header: malformed '' @ quoted ''shape'' @ '' tuple''))
           | Some body \<Rightarrow>
               (case upto_char (CHR '')'') body of
                  None \<Rightarrow> Inl (NpyError (''npy header: malformed '' @ quoted ''shape'' @ '' tuple''))
                | Some tuple \<Rightarrow> shape_loop tuple [])))"

section \<open>Reading\<close>

definition byte :: "char \<Rightarrow> nat" where "byte c = of_char c"

fun u16_list :: "string \<Rightarrow> u16 list" where
  "u16_list (a # b # cs) = of_nat (byte a + 256 * byte b) # u16_list cs"
| "u16_list _ = []"

text \<open>The magic, two version bytes, and the little-endian header length of version 1 (two bytes) or
  of a later version (four). A short stream fails in the test behind them.\<close>

definition read_header_len :: "string \<Rightarrow> string \<Rightarrow> npy_error + nat \<times> string" where
  "read_header_len path bytes =
     (let truncated = Inl (NpyError (''truncated .npy header: '' @ path))
      in case bytes of
           v0 # v1 # rest \<Rightarrow>
             if byte v0 = 1
             then (case rest of b0 # b1 # body \<Rightarrow> Inr (byte b0 + 256 * byte b1, body) | _ \<Rightarrow> truncated)
             else (case rest of
                     b0 # b1 # b2 # b3 # body \<Rightarrow>
                       Inr (byte b0 + 256 * byte b1 + 65536 * byte b2 + 16777216 * byte b3, body)
                   | _ \<Rightarrow> truncated)
         | _ \<Rightarrow> truncated)"

definition npy_parse :: "string \<Rightarrow> string \<Rightarrow> npy_error + npy_array" where
  "npy_parse path file =
     (if length file < 6 \<or> take 6 file \<noteq> kMagic then Inl (NpyError (''not a .npy file (bad magic): '' @ path))
      else rbind (read_header_len path (drop 6 file)) (\<lambda>(header_len, rest).
        if length rest < header_len then Inl (NpyError (''truncated .npy header body: '' @ path))
        else let header = take header_len rest; payload = drop header_len rest
        in rbind (quoted_value_after header (quoted ''descr'')) (\<lambda>descr.
        if descr \<noteq> ''<V2'' \<and> descr \<noteq> ''|V2''
        then Inl (NpyError (''unsupported npy descr '' @ quoted descr @ '' (expected '' @ quoted ''<V2'' @ '' bf16)''))
        else rbind (parse_shape header) (\<lambda>sh.
        case npy_product sh of
          None \<Rightarrow> Inl SignedOverflow
        | Some n \<Rightarrow>
            if n < 0 \<or> 2 ^ 62 \<le> n then Inl LengthError
            else if length payload < nat (2 * n) then Inl (NpyError (''truncated .npy payload: '' @ path))
            else Inr \<lparr>npy_shape = sh, npy_data = u16_list (take (nat (2 * n)) payload)\<rparr>))))"

text \<open>The files of the process; \<open>None\<close> is a file that cannot be opened.\<close>

definition read_npy_bf16 :: "(string \<Rightarrow> string option) \<Rightarrow> string \<Rightarrow> npy_error + npy_array" where
  "read_npy_bf16 files path =
     (case files path of
        None \<Rightarrow> Inl (NpyError (''cannot open npy file for reading: '' @ path))
      | Some file \<Rightarrow> npy_parse path file)"

section \<open>Writing\<close>

fun join_dims :: "int list \<Rightarrow> string" where
  "join_dims [] = []"
| "join_dims [d] = int_to_string d"
| "join_dims (d # ds) = int_to_string d @ '', '' @ join_dims ds"

definition shape_tuple :: "int list \<Rightarrow> string" where
  "shape_tuple sh = ''('' @ join_dims sh @ (if length sh = 1 then '','' else []) @ '')''"

definition npy_dict :: "int list \<Rightarrow> string" where
  "npy_dict sh = ''{'' @ quoted ''descr'' @ '': '' @ quoted ''<V2'' @ '', '' @ quoted ''fortran_order'' @
     '': False, '' @ quoted ''shape'' @ '': '' @ shape_tuple sh @ '', }''"

definition npy_header :: "int list \<Rightarrow> string" where
  "npy_header sh =
     (let dict = npy_dict sh;
          total_unpadded = 10 + length dict + 1;
          padded_total = ((total_unpadded + 63) div 64) * 64;
          header_len = padded_total - 10
      in dict @ replicate (header_len - length dict - 1) (CHR '' '') @ [char_of (10 :: nat)])"

definition u16_bytes :: "u16 \<Rightarrow> string" where
  "u16_bytes w = [char_of (unat w mod 256), char_of (unat w div 256)]"

definition npy_bytes :: "int list \<Rightarrow> u16 list \<Rightarrow> npy_error + string" where
  "npy_bytes sh data =
     (case npy_product sh of
        None \<Rightarrow> Inl SignedOverflow
      | Some n \<Rightarrow>
          if n \<noteq> int (length data) then Inl (NpyError ''npy write: data size != product(shape)'')
          else let header = npy_header sh
               in Inr (kMagic @ [char_of (1 :: nat), char_of (0 :: nat)] @
                    [char_of (length header mod 256), char_of (length header div 256 mod 256)] @
                    header @ concat (map u16_bytes data)))"

text \<open>\<open>can_open\<close> says which files open for writing; the writes of an open file are taken to succeed.\<close>

definition write_npy_bf16 :: "(string \<Rightarrow> bool) \<Rightarrow> string \<Rightarrow> int list \<Rightarrow> u16 list \<Rightarrow> (string \<Rightarrow> string option)
    \<Rightarrow> npy_error + (string \<Rightarrow> string option)" where
  "write_npy_bf16 can_open path sh data files =
     rbind (npy_bytes sh data) (\<lambda>bytes.
       if \<not> can_open path then Inl (NpyError (''cannot open npy file for writing: '' @ path))
       else Inr (files(path \<mapsto> bytes)))"

section \<open>Round trip\<close>

lemma byte_char_of [simp]: "byte (char_of n) = n mod 256"
  by (simp add: byte_def)

lemma unat_u16_lt: "unat (w :: u16) < 65536"
  using unsigned_less [of w] by simp

lemma u16_list_bytes: "u16_list (concat (map u16_bytes ws)) = ws"
proof (induction ws)
  case (Cons w ws)
  have "unat w div 256 < 256" using unat_u16_lt [of w] by (simp add: less_mult_imp_div_less)
  then have "byte (char_of (unat w mod 256)) + 256 * byte (char_of (unat w div 256)) = unat w" by simp
  then have "of_nat (byte (char_of (unat w mod 256)) + 256 * byte (char_of (unat w div 256))) = w" by simp
  with Cons show ?case by (simp add: u16_bytes_def)
qed simp

lemma length_u16_bytes: "length (concat (map u16_bytes ws)) = 2 * length ws"
  by (induction ws) (simp_all add: u16_bytes_def)

lemma digit_not_separator: "is_digit c \<Longrightarrow> \<not> is_separator c"
  by (auto simp: is_digit_def is_separator_def)

lemma shape_loop_dim:
  assumes "0 \<le> d" "in_i64 d" "list_all is_separator sep" "rest = [] \<or> \<not> is_digit (hd rest)"
  shows "shape_loop (sep @ int_to_string d @ rest) acc = shape_loop rest (acc @ [d])"
proof -
  let ?s = "nat_to_string (nat d)"
  obtain c cs where c: "?s = c # cs" by (metis list.exhaust nat_to_string_nonempty)
  have digits: "\<forall>x \<in> set ?s. is_digit x" using nat_to_string_digits by blast
  then have "is_digit c" "\<not> is_separator c" using c by (simp_all add: digit_not_separator)
  then have drop: "dropWhile is_separator (sep @ ?s @ rest) = ?s @ rest"
    using assms(3) by (simp add: dropWhile_append c list_all_iff)
  have "takeWhile is_digit (?s @ rest) = ?s" "dropWhile is_digit (?s @ rest) = rest"
    using digits assms(4) by (cases rest; simp add: takeWhile_append dropWhile_append)+
  with drop \<open>is_digit c\<close> assms(1,2) show ?thesis
    by (subst shape_loop.simps) (simp add: int_to_string_def c digits_val_nat_to_string [of "nat d", unfolded c])
qed

lemma shape_loop_end: "list_all is_separator s \<Longrightarrow> shape_loop s acc = Inr acc"
  by (subst shape_loop.simps) (simp add: list_all_iff dropWhile_eq_Nil_conv [THEN iffD2])

lemma shape_loop_join:
  assumes "list_all (\<lambda>d. 0 \<le> d \<and> in_i64 d) sh" "list_all is_separator sep" "list_all is_separator tl'"
  shows "shape_loop (sep @ join_dims sh @ tl') acc = Inr (acc @ sh)"
  using assms(1,2)
proof (induction sh arbitrary: sep acc rule: join_dims.induct)
  case 1
  then show ?case using assms(3) by (simp add: shape_loop_end)
next
  case (2 d)
  have "tl' = [] \<or> \<not> is_digit (hd tl')"
    using assms(3) digit_not_separator by (cases tl') auto
  then show ?case using 2 assms(3) by (simp add: shape_loop_dim shape_loop_end)
next
  case (3 d e ds)
  have "shape_loop (sep @ int_to_string d @ ('', '' @ join_dims (e # ds) @ tl')) acc =
      shape_loop ('', '' @ join_dims (e # ds) @ tl') (acc @ [d])"
    using 3 by (intro shape_loop_dim) (simp_all add: is_digit_def)
  also have "\<dots> = Inr ((acc @ [d]) @ e # ds)"
    using "3.prems" by (intro "3.IH") (simp_all add: is_separator_def)
  finally show ?case by simp
qed

lemma join_dims_chars: "c \<in> set (join_dims sh) \<Longrightarrow> is_digit c \<or> c = CHR ''-'' \<or> is_separator c"
proof (induction sh rule: join_dims.induct)
  case (2 d)
  then show ?case by (auto simp: int_to_string_def dest: nat_to_string_digits split: if_splits)
next
  case (3 d e ds)
  then show ?case
    by (auto simp: int_to_string_def is_separator_def dest: nat_to_string_digits split: if_splits)
qed simp

lemma upto_char_append: "c \<notin> set s \<Longrightarrow> upto_char c (s @ c # t) = Some s"
  by (simp add: upto_char_def takeWhile_append)

lemma descr_of_header: "quoted_value_after (npy_dict sh @ pad) (quoted ''descr'') = Inr ''<V2''"
  by (simp add: quoted_value_after_def npy_dict_def quoted_def upto_char_def)

lemma shape_of_header:
  assumes "list_all (\<lambda>d. 0 \<le> d \<and> in_i64 d) sh"
  shows "parse_shape (npy_dict sh @ pad) = Inr sh"
proof -
  let ?sep = "if length sh = 1 then '','' else []"
  have "CHR '')'' \<notin> set (join_dims sh @ ?sep)"
    using join_dims_chars [of "CHR '')''" sh] by (auto simp: is_digit_def is_separator_def)
  from upto_char_append [OF this] have
    "upto_char (CHR '')'') (join_dims sh @ ?sep @ CHR '')'' # t) = Some (join_dims sh @ ?sep)" for t by simp
  moreover have "shape_loop (join_dims sh @ ?sep) [] = Inr sh"
    using shape_loop_join [OF assms, of "[]" ?sep "[]"] by (simp add: is_separator_def)
  ultimately show ?thesis
    by (simp add: parse_shape_def npy_dict_def shape_tuple_def quoted_def del: if_split_asm)
qed

lemma length_u16_list: "length (u16_list s) = length s div 2"
  by (induction s rule: u16_list.induct) simp_all

lemma shape_loop_dims:
  "shape_loop s acc = Inr sh \<Longrightarrow> list_all (\<lambda>d. 0 \<le> d \<and> in_i64 d) acc \<Longrightarrow> list_all (\<lambda>d. 0 \<le> d \<and> in_i64 d) sh"
proof (induction s acc rule: shape_loop.induct)
  case (1 s acc)
  show ?case
  proof (cases "dropWhile is_separator s")
    case Nil
    have "sh = acc" using "1.prems"(1) unfolding shape_loop.simps [of s acc] Nil list.case by simp
    then show ?thesis using "1.prems"(2) by simp
  next
    case (Cons c cs)
    from "1.prems"(1) have "is_digit c" "in_i64 (int (digits_val (takeWhile is_digit (c # cs))))"
      and "shape_loop (dropWhile is_digit (c # cs)) (acc @ [int (digits_val (takeWhile is_digit (c # cs)))]) = Inr sh"
      by (simp_all add: shape_loop.simps [of s] Cons Let_def split: if_splits)
    with "1.IH" [OF Cons] "1.prems"(2) show ?thesis by simp
  qed
qed

lemma if_Inl_Inr: "(if c then Inl e else r) = Inr y \<longleftrightarrow> \<not> c \<and> r = Inr y"
  by simp

lemma rbind_InrE: "rbind r f = Inr y \<Longrightarrow> (\<And>x. r = Inr x \<Longrightarrow> f x = Inr y \<Longrightarrow> P) \<Longrightarrow> P"
  by (cases r) simp_all

text \<open>What a successful read guarantees: dimensions from 0 up whose product is the length of the data.\<close>

lemma read_npy_shape:
  assumes "read_npy_bf16 files path = Inr a"
  shows "list_all (\<lambda>d. 0 \<le> d \<and> in_i64 d) (npy_shape a)" "npy_product (npy_shape a) = Some (int (length (npy_data a)))"
    "length (npy_data a) < 2 ^ 62"
proof -
  from assms obtain f where "npy_parse path f = Inr a" by (auto simp: read_npy_bf16_def split: option.splits)
  then obtain header_len rest descr sh where sh: "parse_shape (take header_len rest) = Inr sh"
    and r: "(case npy_product sh of None \<Rightarrow> Inl SignedOverflow
      | Some n \<Rightarrow> if n < 0 \<or> 2 ^ 62 \<le> n then Inl LengthError
          else if length (drop header_len rest) < nat (2 * n) then Inl (NpyError (''truncated .npy payload: '' @ path))
          else Inr \<lparr>npy_shape = sh, npy_data = u16_list (take (nat (2 * n)) (drop header_len rest))\<rparr>) = Inr a"
    unfolding npy_parse_def Let_def if_Inl_Inr by (elim conjE rbind_InrE) (auto simp only: if_Inl_Inr prod.case elim!: rbind_InrE)
  define payload where "payload = drop header_len rest"
  from r obtain n where n: "npy_product sh = Some n" by (cases "npy_product sh") simp_all
  with r have sh': "npy_product sh = Some n" "\<not> (n < 0 \<or> 2 ^ 62 \<le> n)" "\<not> length payload < nat (2 * n)"
    and a: "a = \<lparr>npy_shape = sh, npy_data = u16_list (take (nat (2 * n)) payload)\<rparr>"
    unfolding payload_def by (simp_all split: if_splits)
  note sh = sh sh'
  obtain t where "shape_loop t [] = Inr sh" using sh(1) by (auto simp: parse_shape_def split: option.splits)
  then show "list_all (\<lambda>d. 0 \<le> d \<and> in_i64 d) (npy_shape a)" using shape_loop_dims [of t "[]" sh] by (simp add: a)
  have "length (npy_data a) = nat n" using sh(3,4) by (simp add: a length_u16_list nat_mult_distrib)
  moreover have "nat n < 2 ^ 62" using sh(3) by (subst nat_less_iff) simp_all
  ultimately show "npy_product (npy_shape a) = Some (int (length (npy_data a)))" "length (npy_data a) < 2 ^ 62"
    using sh(2,3) by (simp_all add: a)
qed

lemma npy_header_split: "\<exists>pad. npy_header sh = npy_dict sh @ pad"
  by (simp add: npy_header_def Let_def)

lemma length_npy_header: "length (npy_header sh) \<le> length (npy_dict sh) + 64"
  by (simp add: npy_header_def Let_def)

lemma npy_read_back:
  assumes "list_all (\<lambda>d. 0 \<le> d \<and> in_i64 d) sh" and "length (npy_dict sh) < 65472"
    and "length data < 2 ^ 62" and "write_npy_bf16 can_open path sh data files = Inr files'"
  shows "read_npy_bf16 files' path = Inr \<lparr>npy_shape = sh, npy_data = data\<rparr>"
proof -
  from assms(4) have prod: "npy_product sh = Some (int (length data))" and files: "files' = files(path \<mapsto>
      kMagic @ [char_of (1 :: nat), char_of (0 :: nat)] @
      [char_of (length (npy_header sh) mod 256), char_of (length (npy_header sh) div 256 mod 256)] @
      npy_header sh @ concat (map u16_bytes data))"
    by (auto simp: write_npy_bf16_def npy_bytes_def rbind_Inr_iff Let_def split: option.splits if_splits)
  have len: "length (npy_header sh) < 65536" using length_npy_header [of sh] assms(2) by simp
  then have "length (npy_header sh) div 256 < 256" by (simp add: less_mult_imp_div_less)
  then have hl: "length (npy_header sh) mod 256 + 256 * (length (npy_header sh) div 256 mod 256) = length (npy_header sh)"
    by simp
  have parsed: "quoted_value_after (npy_header sh) (quoted ''descr'') = Inr ''<V2''" "parse_shape (npy_header sh) = Inr sh"
    using npy_header_split [of sh] descr_of_header shape_of_header [OF assms(1)] by auto
  have n: "\<not> (int (length data) < 0 \<or> 2 ^ 62 \<le> int (length data))" using assms(3) by simp
  have magic: "length kMagic = 6" by (simp add: kMagic_def)
  show ?thesis
    by (simp add: read_npy_bf16_def files npy_parse_def magic read_header_len_def hl parsed prod n [simplified]
        length_u16_bytes u16_list_bytes del: mod_less)
qed

text \<open>C19. Writing a bf16 tensor and reading the file back gives the tensor: every shape of
  non-negative dimensions, scalars and one-dimensional shapes with their trailing comma included,
  and every payload, as long as the header fits the two length bytes.\<close>

theorem npy_roundtrip:
  assumes "list_all (\<lambda>d. 0 \<le> d \<and> in_i64 d) sh" and "length (npy_dict sh) < 65472"
    and "length data < 2 ^ 62" and "write_npy_bf16 can_open path sh data files = Inr files'"
  shows "read_npy_bf16 files' path = Inr \<lparr>npy_shape = sh, npy_data = data\<rparr>"
  by (rule npy_read_back [OF assms])

theorem npy_roundtrip_witness:
  "\<exists>files'. write_npy_bf16 (\<lambda>p. True) ''t.npy'' [2, 1] [0x3F80, 0xC000] (\<lambda>p. None) = Inr files' \<and>
     read_npy_bf16 files' ''t.npy'' = Inr \<lparr>npy_shape = [2, 1], npy_data = [0x3F80, 0xC000]\<rparr>"
proof -
  obtain files' where w: "write_npy_bf16 (\<lambda>p. True) ''t.npy'' [2, 1] [0x3F80, 0xC000] (\<lambda>p. None) = Inr files'"
    by (auto simp: write_npy_bf16_def npy_bytes_def npy_product_def in_i64_def Let_def)
  have "read_npy_bf16 files' ''t.npy'' = Inr \<lparr>npy_shape = [2, 1], npy_data = [0x3F80, 0xC000]\<rparr>"
    by (rule npy_roundtrip [OF _ _ _ w])
      (simp_all add: in_i64_def npy_dict_def shape_tuple_def quoted_def int_to_string_def
        nat_to_string.simps [of 2] nat_to_string.simps [of "Suc 0"])
  with w show ?thesis by blast
qed

text \<open>A dimension below zero is written (with an even number of them the sizes agree) but its sign
  is no digit for the reader.\<close>

lemma negative_dims_unreadable:
  "is_ok (write_npy_bf16 (\<lambda>p. True) p [-1, -1] [0] files)"
  "parse_shape (npy_dict [-1, -1] @ pad) = Inl (NpyError (''npy header: non-integer dimension in '' @ quoted ''shape''))"
  by (simp_all add: write_npy_bf16_def npy_bytes_def npy_product_def in_i64_def Let_def parse_shape_def npy_dict_def
      shape_tuple_def quoted_def int_to_string_def digit_char_def upto_char_def shape_loop.simps is_separator_def
      is_digit_def)

end
