(* ===== verification/Runtime.thy ===== *)
theory Runtime
  imports KernelCache Npy
begin

text \<open>
  The serving runtime (\<open>DeviceDetect.h\<close>, \<open>DeviceDetect.cpp\<close>, \<open>Runtime.h\<close>, \<open>Runtime.cpp\<close>): the
  detectors, which reduce what a backend reports to the architecture string the kernel cache is
  keyed on, and the flow detect, select, load, serve. The device properties the backends return are
  parameters. A launcher is a function of the selected entry, the opaque I/O bundle and the error
  string; \<open>None\<close> in the registry is an empty \<open>std::function\<close>, whose call throws.
\<close>

section \<open>Device detection\<close>

record device_info =
  di_arch :: string
  di_name :: string

type_synonym detector = "int \<Rightarrow> device_info option"

definition lower_alnum :: "char \<Rightarrow> bool" where
  "lower_alnum c \<longleftrightarrow> is_digit c \<or> (97 \<le> (of_char c :: nat) \<and> (of_char c :: nat) \<le> 122)"

definition ParseGcnArchName :: "string \<Rightarrow> string" where
  "ParseGcnArchName gcnArchName =
     (case find_sub ''gfx'' gcnArchName of
        None \<Rightarrow> []
      | Some rest \<Rightarrow>
          (case rest of
             [] \<Rightarrow> []
           | c # cs \<Rightarrow> if \<not> is_digit c then [] else ''gfx'' @ takeWhile lower_alnum rest))"

definition SmArchFromComputeCapability :: "int \<Rightarrow> int \<Rightarrow> string" where
  "SmArchFromComputeCapability major minor = ''sm_'' @ int_to_string major @ int_to_string minor"

definition FixedArchDetector :: "string \<Rightarrow> string \<Rightarrow> detector" where
  "FixedArchDetector arch name ordinal = Some \<lparr>di_arch = arch, di_name = name\<rparr>"

text \<open>\<open>hipGetDeviceProperties\<close> and \<open>cudaGetDeviceProperties\<close>: \<open>None\<close> is a failure.\<close>

definition HipDeviceDetector :: "(int \<Rightarrow> (string \<times> string) option) \<Rightarrow> detector" where
  "HipDeviceDetector props ordinal =
     (case props ordinal of
        None \<Rightarrow> None
      | Some (gcnArchName, name) \<Rightarrow> Some \<lparr>di_arch = ParseGcnArchName gcnArchName, di_name = name\<rparr>)"

definition CudaDeviceDetector :: "(int \<Rightarrow> (int \<times> int \<times> string) option) \<Rightarrow> detector" where
  "CudaDeviceDetector props ordinal =
     (case props ordinal of
        None \<Rightarrow> None
      | Some (major, minor, name) \<Rightarrow>
          Some \<lparr>di_arch = SmArchFromComputeCapability major minor, di_name = name\<rparr>)"

section \<open>The runtime\<close>

type_synonym 'io launch_fn = "cache_entry \<Rightarrow> 'io \<Rightarrow> string \<Rightarrow> bool \<times> 'io \<times> string"

record resolve_result =
  rr_device :: "device_info option"
  rr_entry :: "cache_entry option"
  rr_error :: string

definition resolve_ok :: "resolve_result \<Rightarrow> bool" where
  "resolve_ok r \<longleftrightarrow> rr_entry r \<noteq> None"

record 'io runtime =
  rt_detector :: detector
  rt_cache :: kernel_cache
  rt_launchers :: "(string, 'io launch_fn option) std_map"

definition new_runtime :: "detector \<Rightarrow> kernel_cache \<Rightarrow> 'io runtime" where
  "new_runtime detector cache = \<lparr>rt_detector = detector, rt_cache = cache, rt_launchers = []\<rparr>"

definition RegisterLauncher :: "string \<Rightarrow> 'io launch_fn option \<Rightarrow> 'io runtime \<Rightarrow> 'io runtime" where
  "RegisterLauncher op' f r = r\<lparr>rt_launchers := map_put op' f (rt_launchers r)\<rparr>"

definition Resolve :: "'io runtime \<Rightarrow> string \<Rightarrow> shape \<Rightarrow> resolve_result" where
  "Resolve r op' s =
     (case rt_detector r 0 of
        None \<Rightarrow> \<lparr>rr_device = None, rr_entry = None,
          rr_error = ''device detection failed; no usable GPU to serve op '' @ op'\<rparr>
      | Some d \<Rightarrow>
          (case Select (di_arch d) op' s (rt_cache r) of
             Inl err \<Rightarrow> \<lparr>rr_device = Some d, rr_entry = None, rr_error = err\<rparr>
           | Inr e \<Rightarrow> \<lparr>rr_device = Some d, rr_entry = Some e, rr_error = []\<rparr>))"

text \<open>\<open>None\<close>: the call of an empty launcher throws \<open>std::bad_function_call\<close>.\<close>

definition Run :: "'io runtime \<Rightarrow> string \<Rightarrow> shape \<Rightarrow> 'io \<Rightarrow> string \<Rightarrow> (bool \<times> 'io \<times> string) option" where
  "Run r op' s io error =
     (let resolved = Resolve r op' s
      in case rr_entry resolved of
           None \<Rightarrow> Some (False, io, rr_error resolved)
         | Some e \<Rightarrow>
             (case map_find op' (rt_launchers r) of
                None \<Rightarrow> Some (False, io, ''no compiled launcher registered for op '' @ op' @
                  ''; load the compiled variant (register its launch entry) first'')
              | Some None \<Rightarrow> None
              | Some (Some f) \<Rightarrow> Some (f e io error)))"

section \<open>The architecture strings\<close>

lemma strip_prefix_self [simp]: "strip_prefix pat (pat @ s) = Some s"
  by (induction pat) simp_all

text \<open>A reported name is an architecture token followed by feature flags, and the token is what is
  left of it.\<close>

lemma ParseGcnArchName_token:
  assumes "is_digit d" and "list_all lower_alnum ds" and "flags = [] \<or> \<not> lower_alnum (hd flags)"
  shows "ParseGcnArchName (''gfx'' @ (d # ds) @ flags) = ''gfx'' @ d # ds"
proof -
  have "find_sub ''gfx'' (''gfx'' @ (d # ds) @ flags) = Some (d # ds @ flags)" by simp
  moreover have "takeWhile lower_alnum flags = []" using assms(3) by (cases flags) auto
  then have "takeWhile lower_alnum (d # ds @ flags) = d # ds"
    using assms(1,2) by (simp add: lower_alnum_def list_all_iff takeWhile_append2)
  ultimately show ?thesis using assms(1) by (simp add: ParseGcnArchName_def)
qed

definition gfx_arch :: "string \<Rightarrow> bool" where
  "gfx_arch a \<longleftrightarrow> (\<exists>d ds. a = ''gfx'' @ d # ds \<and> is_digit d \<and> list_all lower_alnum ds)"

definition sm_arch :: "string \<Rightarrow> bool" where
  "sm_arch a \<longleftrightarrow> (\<exists>major minor. a = SmArchFromComputeCapability major minor)"

lemma ParseGcnArchName_form: "ParseGcnArchName s = [] \<or> gfx_arch (ParseGcnArchName s)"
proof (cases "find_sub ''gfx'' s")
  case (Some rest)
  show ?thesis
  proof (cases rest)
    case (Cons c cs)
    have "list_all lower_alnum (takeWhile lower_alnum cs)" by (auto simp: list_all_iff dest: set_takeWhileD)
    then show ?thesis using Some Cons by (auto simp: ParseGcnArchName_def gfx_arch_def lower_alnum_def)
  qed (simp add: Some ParseGcnArchName_def)
qed (simp add: ParseGcnArchName_def)

lemma gcn_arch_family: "\<not> gfx_arch (ParseGcnArchName s) \<Longrightarrow> ParseGcnArchName s = []"
  using ParseGcnArchName_form [of s] by blast

lemma sm_arch_SmArch [simp]: "sm_arch (SmArchFromComputeCapability major minor)"
  by (auto simp: sm_arch_def)

lemma gfx_not_sm: "gfx_arch a \<Longrightarrow> \<not> sm_arch a"
  by (auto simp: gfx_arch_def sm_arch_def SmArchFromComputeCapability_def)

text \<open>The two digits are printed without a separator, so two-digit minor numbers would collide.\<close>

lemma SmArch_collision: "SmArchFromComputeCapability 1 10 = SmArchFromComputeCapability 11 0"
  by (simp add: SmArchFromComputeCapability_def int_to_string_def nat_to_string.simps digit_char_def)

section \<open>Serving\<close>

lemma Resolve_entry: "rr_entry (Resolve r op' s) = Some e \<longleftrightarrow>
    (\<exists>d. rt_detector r 0 = Some d \<and> Select (di_arch d) op' s (rt_cache r) = Inr e)"
  by (auto simp: Resolve_def split: option.splits sum.splits)

lemma Resolve_error: "rr_entry (Resolve r op' s) = None \<Longrightarrow> rr_error (Resolve r op' s) \<noteq> []"
  by (auto simp: Resolve_def Select_def split: option.splits sum.splits if_splits)

lemma find_RegisterLauncher:
  "map_find op' (rt_launchers (RegisterLauncher q f r)) = (if op' = q then Some f else map_find op' (rt_launchers r))"
  "rt_cache (RegisterLauncher q f r) = rt_cache r" "rt_detector (RegisterLauncher q f r) = rt_detector r"
  by (simp_all add: RegisterLauncher_def)

lemma Resolve_RegisterLauncher [simp]: "Resolve (RegisterLauncher q f r) = Resolve r"
  unfolding Resolve_def [abs_def] find_RegisterLauncher by (rule refl)

lemma Select_reachable:
  "kc_reachable F L c \<Longrightarrow> Select g p s c = Inr e \<longleftrightarrow> ce_validated e \<and> has_key g p s e \<and> e \<in> set (db_entries g (kc_db c))"
  using Select_safe by blast

text \<open>The entries that answer a request on a device.\<close>

definition serves :: "'io runtime \<Rightarrow> string \<Rightarrow> shape \<Rightarrow> cache_entry \<Rightarrow> bool" where
  "serves r op' s e \<longleftrightarrow> (\<exists>d. rt_detector r 0 = Some d \<and> ce_validated e \<and> has_key (di_arch d) op' s e \<and>
     e \<in> set (db_entries (di_arch d) (kc_db (rt_cache r))))"

lemma Resolve_serves:
  "kc_reachable F L (rt_cache r) \<Longrightarrow> rr_entry (Resolve r op' s) = Some e \<longleftrightarrow> serves r op' s e"
  by (auto simp: Resolve_entry serves_def Select_reachable)

text \<open>A detector of a family reports architectures of that family, or the empty string.\<close>

locale device_detector =
  fixes detect :: detector and family :: "string \<Rightarrow> bool"
  assumes arch_family: "detect n = Some d \<Longrightarrow> di_arch d = [] \<or> family (di_arch d)"
begin

lemma served_family:
  assumes "kc_reachable F L (rt_cache r)" and "rt_detector r = detect" and "rr_entry (Resolve r op' s) = Some e"
  shows "family (ce_gpu e)"
proof -
  obtain d where d: "detect 0 = Some d" "Select (di_arch d) op' s (rt_cache r) = Inr e"
    using assms(2,3) by (auto simp: Resolve_entry)
  then have "db_get (di_arch d) op' s (kc_db (rt_cache r)) = Some e"
    by (auto simp: Select_def split: option.splits if_splits)
  from db_ok_get [OF _ this] kc_ok_reachable [OF assms(1)] have "ce_gpu e = di_arch d" "di_arch d \<noteq> []"
    by (simp_all add: kc_ok_def)
  then show ?thesis using arch_family [OF d(1)] by simp
qed

end

interpretation hip: device_detector "HipDeviceDetector props" gfx_arch for props
  by unfold_locales (auto simp: HipDeviceDetector_def split: option.splits dest: gcn_arch_family)

interpretation cuda: device_detector "CudaDeviceDetector props" sm_arch for props
  by unfold_locales (auto simp: CudaDeviceDetector_def split: option.splits)

interpretation fixed: device_detector "FixedArchDetector arch name" "\<lambda>a. a = arch" for arch name
  by unfold_locales (auto simp: FixedArchDetector_def)

text \<open>C32. Serving is safe for every cache a process can build: either the request is answered by the
  registered launcher of that operation, called once with a validated entry for exactly the detected
  architecture, the operation and the shape, on the caller's data, and then such an entry exists; or
  the call returns false with a message, the caller's data untouched, and then no such entry or no
  launcher exists. On an AMD device the entry is never one of an NVIDIA architecture.\<close>

theorem Run_serves:
  assumes "kc_reachable F L (rt_cache r)" and "map_find op' (rt_launchers r) \<noteq> Some None"
  shows "((\<exists>e f. serves r op' s e \<and> map_find op' (rt_launchers r) = Some (Some f) \<and>
        Run r op' s io error = Some (f e io error) \<and>
        (rt_detector r = HipDeviceDetector props \<longrightarrow> \<not> sm_arch (ce_gpu e))) \<or>
      (\<exists>msg. msg \<noteq> [] \<and> Run r op' s io error = Some (False, io, msg) \<and>
        ((\<forall>e. \<not> serves r op' s e) \<or> map_find op' (rt_launchers r) = None)))"
proof (cases "rr_entry (Resolve r op' s)")
  case None
  then show ?thesis using Resolve_error [OF None] Resolve_serves [OF assms(1), of op' s] by (auto simp: Run_def Let_def)
next
  case (Some e)
  note sv = Resolve_serves [OF assms(1), of op' s e, THEN iffD1, OF Some]
  show ?thesis
  proof (cases "map_find op' (rt_launchers r)")
    case None
    then show ?thesis using Some by (simp add: Run_def Let_def)
  next
    case (Some f)
    then obtain g where g: "f = Some g" using assms(2) by (cases f) auto
    have "rt_detector r = HipDeviceDetector props \<Longrightarrow> \<not> sm_arch (ce_gpu e)"
      using hip.served_family [OF assms(1) _ \<open>rr_entry (Resolve r op' s) = Some e\<close>] gfx_not_sm by blast
    then show ?thesis using sv Some g \<open>rr_entry (Resolve r op' s) = Some e\<close> by (auto simp: Run_def Let_def)
  qed
qed

definition demo_runtime :: "string runtime" where
  "demo_runtime = RegisterLauncher ''matmul'' (Some (\<lambda>e io err. (True, io @ ce_op e, err)))
     (new_runtime (HipDeviceDetector (\<lambda>n. Some (''gfx942:sramecc+:xnack-'', ''MI300X''))) demo_cache)"

lemma demo_runtime_entry:
  "rr_entry (Resolve demo_runtime ''matmul'' (Shape 64 32 16 ''bf16'')) = Some (demo_entry ''gfx942'' True)"
proof -
  have "HipDeviceDetector (\<lambda>n. Some (''gfx942:sramecc+:xnack-'', ''MI300X'')) 0 = Some \<lparr>di_arch = ''gfx942'', di_name = ''MI300X''\<rparr>"
    by (simp add: HipDeviceDetector_def ParseGcnArchName_def lower_alnum_def is_digit_def)
  then show ?thesis
    by (simp add: demo_runtime_def Resolve_def RegisterLauncher_def new_runtime_def Select_def demo_cache_def PutBinary_def
        kc_put_def db_put_def new_cache_def db_get_def entry_key_def demo_entry_def map_find_def)
qed

theorem Run_serves_witness:
  "Run demo_runtime ''matmul'' (Shape 64 32 16 ''bf16'') ''io:'' ''e'' = Some (True, ''io:matmul'', ''e'')"
proof -
  have c: "rt_cache demo_runtime = demo_cache" "map_find ''matmul'' (rt_launchers demo_runtime) = Some (Some (\<lambda>e io err. (True, io @ ce_op e, err)))"
    by (simp_all add: demo_runtime_def RegisterLauncher_def new_runtime_def map_find_def)
  have r: "kc_reachable map_fs tree_json (rt_cache demo_runtime)" unfolding c(1) by (rule demo_cache_reachable)
  have l: "map_find ''matmul'' (rt_launchers demo_runtime) \<noteq> Some None" unfolding c(2) by simp
  have "\<exists>e. serves demo_runtime ''matmul'' (Shape 64 32 16 ''bf16'') e"
    using Resolve_serves [OF r, THEN iffD1, OF demo_runtime_entry] by blast
  then obtain e where "serves demo_runtime ''matmul'' (Shape 64 32 16 ''bf16'') e"
    "Run demo_runtime ''matmul'' (Shape 64 32 16 ''bf16'') ''io:'' ''e'' = Some (True, ''io:'' @ ce_op e, ''e'')"
    using Run_serves [OF r l, of "Shape 64 32 16 ''bf16''" "''io:''" "''e''"] c(2) by auto
  then show ?thesis by (auto simp: serves_def has_key_def)
qed

text \<open>An empty launcher is accepted by the registry, and serving it throws.\<close>

lemma empty_launcher_throws:
  "kc_reachable F L (rt_cache r) \<Longrightarrow> serves r op' s e \<Longrightarrow> Run (RegisterLauncher op' None r) op' s io error = None"
  using Resolve_serves [of F L r op' s e]
  by (simp add: Run_def Let_def Resolve_RegisterLauncher find_RegisterLauncher)

text \<open>The last registration of an operation is the one that is served.\<close>

lemma RegisterLauncher_last:
  "Run (RegisterLauncher op' f (RegisterLauncher op' g r)) op' s io error = Run (RegisterLauncher op' f r) op' s io error"
  unfolding Run_def find_RegisterLauncher Resolve_RegisterLauncher by simp

end
