(* ===== verification/Bf16.thy ===== *)
theory Bf16
  imports Half
begin

text \<open>
  The brain-float conversions of the CPU reference (\<open>cpu_reference.h\<close>) and the single-precision
  operations of the kernels on bit patterns: \<open>bf16_to_float\<close> is exact and \<open>float_to_bf16\<close> is the
  IEEE rounding to nearest even, although it is written with integer arithmetic.
\<close>

section \<open>The conversions\<close>

definition bf16_to_float :: "u16 \<Rightarrow> u32" where
  "bf16_to_float bits = push_bit 16 (ucast bits)"

definition float_to_bf16 :: "u32 \<Rightarrow> u16" where
  "float_to_bf16 u =
     (if u AND 0x7F800000 = 0x7F800000 \<and> u AND 0x007FFFFF \<noteq> 0
      then ucast (drop_bit 16 u OR 0x0040)
      else let lsb = drop_bit 16 u AND 1; u = u + (0x7FFF + lsb)
           in ucast (drop_bit 16 u))"

text \<open>The remaining single-precision operations; a subtraction adds the negated operand.\<close>

definition f32_div :: "u32 \<Rightarrow> u32 \<Rightarrow> u32" where
  "f32_div a b = of_nat (fp_div binary32 (unat a) (unat b))"

definition f32_neg :: "u32 \<Rightarrow> u32" where
  "f32_neg a = a XOR 0x80000000"

definition f32_sub :: "u32 \<Rightarrow> u32 \<Rightarrow> u32" where
  "f32_sub a b = f32_add a (f32_neg b)"

definition f32_lt :: "u32 \<Rightarrow> u32 \<Rightarrow> bool" where
  "f32_lt a b = fp_lt binary32 (unat a) (unat b)"

definition f32_of_int :: "int \<Rightarrow> u32" where
  "f32_of_int i = of_nat (fp_of_int binary32 i)"

text \<open>A decimal literal \<open>a / b\<close>.\<close>

definition f32_lit :: "nat \<Rightarrow> nat \<Rightarrow> u32" where
  "f32_lit a b = of_nat (fp_round binary32 False a b)"

definition f32_one :: u32 where "f32_one = 0x3F800000"

section \<open>Rounding\<close>

lemma div_rne_scale: "0 < b \<Longrightarrow> 0 < c \<Longrightarrow> div_rne (a * c) (b * c) = div_rne a b"
  by (intro antisym div_rne_mono) (simp_all add: mult_ac)

lemma div_rne_eq:
  assumes "0 < b" "0 < d" "a * d = c * b"
  shows "div_rne a b = div_rne c d"
  using assms by (intro antisym div_rne_mono) simp_all

lemma div_rne_even_shift: "0 < b \<Longrightarrow> even k \<Longrightarrow> div_rne (k * b + r) b = k + div_rne r b"
  by (auto simp: div_rne_def Let_def)

lemma div_rne_bits: "div_rne g 65536 = (g + (32767 + g div 65536 mod 2)) div 65536"
proof -
  define q r where "q = g div 65536" and "r = g mod 65536"
  have r: "r < 65536" and g: "g = q * 65536 + r" unfolding q_def r_def by simp_all
  have "(q * 65536 + r + (32767 + q mod 2)) div 65536 = q + (r + (32767 + q mod 2)) div 65536"
    by (simp add: div_mult_self3 add.assoc)
  moreover have "(r + (32767 + q mod 2)) div 65536 =
      (if 2 * r < 65536 then 0 else if 65536 < 2 * r then 1 else q mod 2)"
    using r by (cases "even q") (auto simp: even_iff_mod_2_eq_zero odd_iff_mod_2_eq_one)
  ultimately show ?thesis
    unfolding div_rne_def Let_def q_def [symmetric] r_def [symmetric]
    by (simp add: g even_iff_mod_2_eq_zero)
qed

lemma frac_exponent_eqI:
  assumes "0 < a" "0 < b" "2 powi e \<le> real a / real b" "real a / real b < 2 powi (e + 1)"
  shows "frac_exponent a b = e"
proof -
  note f = frac_exponent_bounds [OF assms(1,2)]
  have "(2::real) powi e < 2 powi (frac_exponent a b + 1)" "(2::real) powi frac_exponent a b < 2 powi (e + 1)"
    using f assms(3,4) by (meson le_less_trans)+
  then have "e < frac_exponent a b + 1" "frac_exponent a b < e + 1"
    using power_int_increasing [of _ _ "2::real"] by (meson not_le one_le_numeral)+
  then show ?thesis by simp
qed

lemma fp_round_mag_at:
  assumes "0 < a" "0 < b" "2 powi e \<le> real a / real b" "real a / real b < 2 powi (e + 1)"
    and u: "u = max (e - int (f_man F)) (f_emin F)"
    and r: "0 < d" "real a / real b = real c / real d * 2 powi u"
  shows "fp_round_mag F a b = min (nat (u - f_emin F) * 2 ^ f_man F + div_rne c d) (fp_inf_mag F)"
proof -
  obtain a' b' where s: "scale_frac u (a, b) = (a', b')" by fastforce
  have e: "frac_exponent a b = e" by (rule frac_exponent_eqI [OF assms(1-4)])
  have b': "0 < b'" using scale_frac_pos [OF assms(2), of u a] s by simp
  have "real a' / real b' = real a / real b * 2 powi (- u)"
    using scale_frac_val [OF assms(2), of u a] s by simp
  also have "\<dots> = real c / real d" by (simp add: r(2) power_int_minus)
  finally have "real (a' * d) = real (c * b')" using b' r(1) by (simp add: field_simps)
  then have "div_rne a' b' = div_rne c d" using b' r(1) by (intro div_rne_eq) (simp_all only: of_nat_eq_iff)
  with s assms(1) show ?thesis by (simp add: fp_round_mag_def e u [symmetric])
qed

text \<open>Narrowing a binary32 magnitude to bfloat16 drops sixteen bits of its encoding, rounding to
  nearest even: both formats have the same exponents.\<close>

lemma bf16_inf_mag: "fp_inf_mag bfloat16 = 32640" "f_man bfloat16 = 7" "f_emin bfloat16 = - 133"
  by (simp_all add: fp_inf_mag_def bfloat16_def f_emin_def f_bias_def)

lemma narrow_subnormal:
  assumes "m < 2 ^ 23"
  shows "round_dyadic bfloat16 s m (- 149) = fp_signed bfloat16 s (div_rne m 65536)"
proof (cases "m = 0")
  case True
  then show ?thesis by (simp add: round_dyadic_def dyadic_def fp_round_def fp_round_mag_def div_rne_def)
next
  case False
  define e where "e = frac_exponent m (2 ^ 149)"
  have b: "2 powi e \<le> real m / real (2 ^ 149)" "real m / real (2 ^ 149) < 2 powi (e + 1)"
    using frac_exponent_bounds [of m "2 ^ 149"] False by (simp_all add: e_def)
  have "real m < 2 ^ 23" using assms by (metis of_nat_less_iff of_nat_numeral of_nat_power)
  then have "real m / real (2 ^ 149) < 2 powi (- 126)" by (simp add: power_int_minus field_simps)
  then have "(2::real) powi e < 2 powi (- 126)" using b(1) by linarith
  then have "e < - 126"
    using power_int_increasing [of "- 126" e "2::real"] by (meson not_le one_le_numeral)
  then have "fp_round_mag bfloat16 m (2 ^ 149) =
      min (nat (- 133 - f_emin bfloat16) * 2 ^ f_man bfloat16 + div_rne m 65536) (fp_inf_mag bfloat16)"
    using False b by (intro fp_round_mag_at [of _ _ e]) (simp_all add: bf16_inf_mag power_int_minus)
  moreover have "div_rne m 65536 \<le> 32640"
    using div_rne_bounds [of m 65536] div_le_mono [of m "2 ^ 23" 65536] assms by simp
  ultimately show ?thesis by (simp add: round_dyadic_def dyadic_def fp_round_def bf16_inf_mag)
qed

lemma narrow_normal:
  assumes "m < 2 ^ 23" "1 \<le> x" "x < 255"
  shows "round_dyadic bfloat16 s (m + 2 ^ 23) (int x - 150) = fp_signed bfloat16 s (div_rne (x * 2 ^ 23 + m) 65536)"
proof -
  obtain a b where d: "dyadic (m + 2 ^ 23) (int x - 150) = (a, b)" by fastforce
  then have b: "0 < b" "real a / real b = real (m + 2 ^ 23) * 2 powi (int x - 150)" using dyadic_val by blast+
  have m: "real m < 2 ^ 23" using assms(1) by (metis of_nat_less_iff of_nat_numeral of_nat_power)
  have p: "(2::real) powi (int x - 150) = 2 powi (int x - 127) / 2 ^ 23"
    by (simp add: power_int_diff)
  have P: "0 < (2::real) powi (int x - 127)" by simp
  have P2: "(2::real) powi (int x - 127 + 1) = 2 powi (int x - 127) * 2" by (subst power_int_add) simp_all
  have "0 < a" using b by (metis divide_eq_0_iff gr0I less_numeral_extra(3) mult_eq_0_iff of_nat_0 of_nat_eq_0_iff
        power_int_eq_0_iff add_is_0 zero_neq_numeral power_not_zero)
  then have "fp_round_mag bfloat16 a b =
      min (nat (int x - 134 - f_emin bfloat16) * 2 ^ f_man bfloat16 + div_rne (m + 2 ^ 23) 65536) (fp_inf_mag bfloat16)"
  proof (rule fp_round_mag_at [OF _ b(1), where e = "int x - 127"])
    show "2 powi (int x - 127) \<le> real a / real b" "real a / real b < 2 powi (int x - 127 + 1)"
      using m P unfolding b(2) p P2 by (simp_all add: divide_simps)
    show "real a / real b = real (m + 2 ^ 23) / real 65536 * 2 powi (int x - 134)"
      unfolding b(2) by (simp add: power_int_diff)
  qed (use assms(2) in \<open>simp_all add: bf16_inf_mag\<close>)
  also have "nat (int x - 134 - f_emin bfloat16) * 2 ^ f_man bfloat16 + div_rne (m + 2 ^ 23) 65536 =
      div_rne ((x - 1) * 2 ^ 7 * 65536 + (m + 2 ^ 23)) 65536"
    using assms(2) by (subst div_rne_even_shift) (simp_all add: bf16_inf_mag nat_diff_distrib)
  also have "(x - 1) * 2 ^ 7 * 65536 + (m + 2 ^ 23) = x * 2 ^ 23 + m"
    using assms(2) by (cases x) simp_all
  also have "min (div_rne (x * 2 ^ 23 + m) 65536) (fp_inf_mag bfloat16) = div_rne (x * 2 ^ 23 + m) 65536"
  proof -
    have "x * 2 ^ 23 + m < 255 * 2 ^ 23" using assms by simp
    then have "div_rne (x * 2 ^ 23 + m) 65536 \<le> div_rne (32640 * 65536) 65536" by (intro div_rne_mono) simp_all
    also have "\<dots> = 32640" by (rule div_rne_exact) simp
    finally show ?thesis by (simp add: bf16_inf_mag)
  qed
  finally show ?thesis by (simp add: round_dyadic_def d [simplified] fp_round_def)
qed

lemma narrow_float:
  assumes "fp_decode binary32 (unat f) = FFin s m e"
  shows "round_dyadic bfloat16 s m e = fp_signed bfloat16 s (div_rne (f_exp_field f * 2 ^ 23 + f_man_field f) 65536)"
    and "s = f_sign f" and "f_exp_field f < 255"
proof -
  have x: "f_exp_field f \<noteq> 255" using assms by (auto simp: fp_decode_float split: if_splits)
  then show x': "f_exp_field f < 255" using f_bounds(1) [of f] by linarith
  show "s = f_sign f" using assms by (auto simp: fp_decode_float split: if_splits)
  show "round_dyadic bfloat16 s m e = fp_signed bfloat16 s (div_rne (f_exp_field f * 2 ^ 23 + f_man_field f) 65536)"
    using assms x' narrow_subnormal [of "f_man_field f" s] narrow_normal [of "f_man_field f" "f_exp_field f" s]
    by (cases "f_exp_field f = 0") (auto simp: fp_decode_float)
qed

section \<open>The bit manipulation\<close>

lemma not_special:
  assumes "f_exp_field f \<noteq> 255"
  shows "f AND 0x7F800000 \<noteq> 0x7F800000"
proof
  assume "f AND 0x7F800000 = 0x7F800000"
  then have "drop_bit 23 (f AND 0x7F800000) = drop_bit 23 0x7F800000" by simp
  then have "drop_bit 23 f AND 0xFF = 0xFF" by simp
  then have "unat (drop_bit 23 f AND 0xFF) = 255" by simp
  then show False using assms unfolding float_mask(2) by simp
qed

lemma unat_lsb: "unat (drop_bit 16 f AND 1 :: u32) = unat f div 65536 mod 2"
proof -
  have "drop_bit 16 f AND 1 = take_bit 1 (drop_bit 16 f)" by (simp add: take_bit_eq_mask)
  then show ?thesis by (simp add: take_bit_eq_mod unat_mod_distrib drop_bit_eq_div unat_div_distrib)
qed

lemma unat_high_half: "unat (ucast (drop_bit 16 (u :: u32)) :: u16) = unat u div 65536"
proof -
  have "unat u < 2 ^ 32" using unat_lt [of u] by simp
  then have "unat (drop_bit 16 u) < 65536" by (simp add: drop_bit_eq_div unat_div_distrib less_mult_imp_div_less)
  then show ?thesis
    by (simp add: unsigned_ucast_eq take_bit_nat_eq_self drop_bit_eq_div unat_div_distrib)
qed

lemma unat_float_to_bf16:
  assumes "f_exp_field f < 255"
  shows "unat (float_to_bf16 f) = (unat f + (32767 + unat f div 65536 mod 2)) div 65536"
proof -
  let ?lsb = "drop_bit 16 f AND 1 :: u32"
  have "unat f \<le> 2 ^ 31 + (f_exp_field f * 2 ^ 23 + f_man_field f)"
    by (simp add: unat_float [of f] fp_signed_def binary32_def)
  moreover have "f_exp_field f * 2 ^ 23 + f_man_field f < 255 * 2 ^ 23"
  proof -
    have "f_exp_field f * 8388608 + f_man_field f < 255 * 8388608"
      using assms f_bounds(2) [of f] by linarith
    then show ?thesis by simp
  qed
  ultimately have small: "unat f + 65536 < 2 ^ 32" by simp
  have l: "unat ?lsb < 2" by (simp add: unat_lsb)
  then have k: "unat (0x7FFF + ?lsb) = 32767 + unat ?lsb"
    by (simp add: unat_add_lem [THEN iffD1])
  have "unat (f + (0x7FFF + ?lsb)) = unat f + (32767 + unat ?lsb)"
    unfolding k [symmetric] using small l k by (intro unat_add_lem [THEN iffD1]) simp
  then show ?thesis
    using not_special [of f] assms unfolding float_to_bf16_def Let_def
    by (simp add: unat_high_half unat_lsb)
qed

lemma sign_carry: "(32768 * 65536 + g + (32767 + (32768 * 65536 + g) div 65536 mod 2)) div 65536 =
    32768 + (g + (32767 + g div 65536 mod 2)) div (65536 :: nat)"
proof -
  have 1: "(32768 * 65536 + g) div 65536 = 32768 + g div 65536" by (rule div_mult_self3) simp
  have "32768 * 65536 + g + (32767 + (32768 * 65536 + g) div 65536 mod 2) =
      32768 * 65536 + (g + (32767 + g div 65536 mod 2))"
  proof -
    have "(32768 + n) mod 2 = n mod (2 :: nat)" for n by presburger
    then show ?thesis by (simp only: 1 add.assoc)
  qed
  then have "(32768 * 65536 + g + (32767 + (32768 * 65536 + g) div 65536 mod 2)) div 65536 =
      (32768 * 65536 + (g + (32767 + g div 65536 mod 2))) div 65536" by (rule arg_cong)
  also have "\<dots> = 32768 + (g + (32767 + g div 65536 mod 2)) div 65536" by (rule div_mult_self3) simp
  finally show ?thesis .
qed

text \<open>C20. Narrowing is the IEEE rounding: for every finite float the result of the integer trick is
  the bfloat16 nearest to its value, ties to even, with overflow to infinity and the subnormal
  range included.\<close>

theorem float_to_bf16_rne:
  assumes "fp_decode binary32 (unat f) = FFin s m e"
  shows "unat (float_to_bf16 f) = round_dyadic bfloat16 s m e"
proof -
  let ?g = "f_exp_field f * 2 ^ 23 + f_man_field f"
  note n = narrow_float [OF assms]
  have u: "unat f = (if s then 32768 else 0) * 65536 + ?g"
    by (simp add: unat_float [of f] fp_signed_def binary32_def n(2))
  have "unat (float_to_bf16 f) = (if s then 32768 else 0) + (?g + (32767 + ?g div 65536 mod 2)) div 65536"
    unfolding unat_float_to_bf16 [OF n(3)] u using sign_carry [of ?g] by (cases s) simp_all
  also have "\<dots> = fp_signed bfloat16 s (div_rne ?g 65536)"
    by (simp add: div_rne_bits fp_signed_def bfloat16_def)
  finally show ?thesis by (simp add: n(1))
qed

theorem float_to_bf16_rne_witness:
  "unat (float_to_bf16 0x3F808000) = round_dyadic bfloat16 False (0x8080 * 2 ^ 8) (- 23)"
  by (rule float_to_bf16_rne) (simp add: fp_decode_def binary32_def f_emin_def f_bias_def Let_def)

lemma unat_bf16_to_float: "unat (bf16_to_float b) = unat b * 65536"
proof -
  have "unat b < 65536" using unat_lt [of b] by simp
  then have "unat (ucast b :: u32) = unat b" by (simp add: unsigned_ucast_eq take_bit_nat_eq_self)
  with \<open>unat b < 65536\<close> show ?thesis
    unfolding bf16_to_float_def unsigned_push_bit_eq by (simp add: take_bit_nat_eq_self push_bit_eq_mult)
qed

lemma bf16_parts:
  fixes n :: nat
  shows "n * 65536 mod 2 ^ 23 = (n mod 2 ^ 7) * 65536" "n * 65536 div 2 ^ 23 = n div 2 ^ 7"
    "n * 65536 div 2 ^ 31 = n div 2 ^ 15"
proof -
  have p: "(2::nat) ^ 23 = 2 ^ 7 * 65536" "(2::nat) ^ 31 = 2 ^ 15 * 65536" by simp_all
  show "n * 65536 mod 2 ^ 23 = (n mod 2 ^ 7) * 65536" unfolding p by (rule mult_mod_left [symmetric])
  show "n * 65536 div 2 ^ 23 = n div 2 ^ 7" "n * 65536 div 2 ^ 31 = n div 2 ^ 15"
    unfolding p by (rule div_mult_mult2, simp)+
qed

lemma decode_bf16_to_float:
  "fp_decode binary32 (unat (bf16_to_float b)) =
    (case fp_decode bfloat16 (unat b) of FFin s m e \<Rightarrow> FFin s (m * 65536) (e - 16) | r \<Rightarrow> r)"
proof -
  have m: "2 ^ 7 * 65536 = (2 :: nat) ^ 23" by simp
  show ?thesis
    unfolding unat_bf16_to_float fp_decode_def
    by (simp add: binary32_def bfloat16_def Let_def bf16_parts [simplified] f_emin_def f_bias_def distrib_right)
qed

lemma bf16_to_float_fields:
  "f_exp_field (bf16_to_float b) = unat b div 2 ^ 7 mod 2 ^ 8" "f_man_field (bf16_to_float b) = (unat b mod 2 ^ 7) * 65536"
  unfolding f_exp_field_def f_man_field_def unat_bf16_to_float bf16_parts by (rule refl)+

lemma widen_narrow:
  assumes "\<not> fp_is_nan bfloat16 (unat b)"
  shows "float_to_bf16 (bf16_to_float b) = b"
proof -
  let ?f = "bf16_to_float b"
  have b: "unat b < 65536" using unat_lt [of b] by simp
  have nan: "\<not> (?f AND 0x7F800000 = 0x7F800000 \<and> ?f AND 0x007FFFFF \<noteq> 0)"
  proof
    assume c: "?f AND 0x7F800000 = 0x7F800000 \<and> ?f AND 0x007FFFFF \<noteq> 0"
    then have "f_exp_field ?f = 255" using not_special by blast
    moreover have "unat (?f AND 0x7FFFFF) \<noteq> 0" using c by (simp add: unsigned_eq_0_iff)
    then have "f_man_field ?f \<noteq> 0" unfolding float_mask(3) .
    ultimately have "unat b div 2 ^ 7 mod 2 ^ 8 = 255" "unat b mod 2 ^ 7 \<noteq> 0" by (auto simp: bf16_to_float_fields)
    then show False using assms by (simp add: fp_is_nan_def fp_decode_def bfloat16_def Let_def)
  qed
  have l: "unat (drop_bit 16 ?f AND 1) < 2" by (simp add: unat_lsb)
  then have k: "unat (0x7FFF + (drop_bit 16 ?f AND 1)) = 32767 + unat (drop_bit 16 ?f AND 1)"
    by (simp add: unat_add_lem [THEN iffD1])
  have "unat (?f + (0x7FFF + (drop_bit 16 ?f AND 1))) = unat ?f + (32767 + unat (drop_bit 16 ?f AND 1))"
    unfolding k [symmetric] using l k b by (intro unat_add_lem [THEN iffD1]) (simp add: unat_bf16_to_float)
  also have "\<dots> div 65536 = unat b" using l by (simp add: unat_bf16_to_float)
  finally have "unat (float_to_bf16 ?f) = unat b"
    unfolding float_to_bf16_def if_not_P [OF nan] Let_def unat_high_half .
  then show ?thesis by (rule unsigned_word_eqI)
qed

lemma bf16_to_float_val: "fp_val binary32 (unat (bf16_to_float b)) = fp_val bfloat16 (unat b)"
proof -
  have p: "2 powi (e - 16) * 65536 = (2::real) powi e" for e by (simp add: power_int_diff)
  have "fin_val s (m * 65536) (e - 16) = fin_val s m e" for s m e
    using p [of e] by (simp add: fin_val_def)
  then show ?thesis
    by (simp add: fp_val_def decode_bf16_to_float split: fpnum.split)
qed

text \<open>Widening is exact, and narrowing a widened value gives it back, for every bfloat16 pattern
  that is not a NaN (signed zeros, subnormals and infinities included).\<close>

theorem bf16_widen_narrow:
  assumes "\<not> fp_is_nan bfloat16 (unat b)"
  shows "float_to_bf16 (bf16_to_float b) = b \<and> fp_val binary32 (unat (bf16_to_float b)) = fp_val bfloat16 (unat b)"
  using widen_narrow [OF assms] bf16_to_float_val by blast

theorem bf16_widen_narrow_witness:
  "float_to_bf16 (bf16_to_float 0xFF80) = 0xFF80 \<and> fp_val binary32 (unat (bf16_to_float 0xFF80)) = fp_val bfloat16 (unat (0xFF80 :: u16))"
  by (rule bf16_widen_narrow) (simp add: fp_is_nan_def fp_decode_def bfloat16_def)

section \<open>Accumulators\<close>

text \<open>A running sum that starts at zero never becomes the negative zero, and a NaN in it is the
  default one; such a value absorbs the addition of either zero.\<close>

definition canonical :: "u32 \<Rightarrow> bool" where
  "canonical a \<longleftrightarrow> (if fp_is_nan binary32 (unat a) then unat a = fp_nan binary32 else a \<noteq> 0x80000000)"

lemma binary32_consts:
  "f_man binary32 = 23" "f_exp binary32 = 8" "f_emin binary32 = - 149" "fp_inf_mag binary32 = 2139095040"
  "fp_nan binary32 = 2143289344"
  by (simp_all add: binary32_def f_emin_def f_bias_def fp_inf_mag_def fp_nan_def)

lemma canonical_0: "canonical 0"
  by (simp add: canonical_def fp_is_nan_def fp_decode_def binary32_def)

lemma fp_add_commute: "fp_add F x y = fp_add F y x"
  by (simp add: fp_add_def add.commute min.commute conj_commute Let_def split: fpnum.split)

lemma f32_add_commute: "f32_add a b = f32_add b a"
  by (simp add: f32_add_def fp_add_commute)

lemma round_decoded:
  assumes d: "fp_decode binary32 (unat (f :: u32)) = FFin s m e" and "m \<noteq> 0" and b: "0 < b"
    and v: "real a / real b = real m * 2 powi e"
  shows "fp_round binary32 s a b = unat f"
proof -
  have sg: "s = f_sign f" using d by (auto simp: fp_decode_float split: if_splits)
  have a: "0 < a" using v b \<open>m \<noteq> 0\<close> by (cases "a = 0") auto
  have x: "f_exp_field f < 255" by (rule narrow_float(3) [OF d])
  have mag: "fp_round_mag binary32 a b = f_exp_field f * 2 ^ 23 + f_man_field f"
  proof (cases "f_exp_field f = 0")
    case True
    then have me: "m = f_man_field f" "e = - 149" using d by (auto simp: fp_decode_float)
    have "m < 8388608" using f_bounds(2) [of f] me(1) by linarith
    then have "real m < 8388608" by simp
    then have "real a / real b < 2 powi (- 126)" unfolding v me(2) by (simp add: power_int_minus field_simps)
    moreover define E where "E = frac_exponent a b"
    note E = frac_exponent_bounds [OF a b, folded E_def]
    ultimately have "(2::real) powi E < 2 powi (- 126)" by linarith
    then have "E < - 126" using power_int_increasing [of "- 126" E "2::real"] by (meson not_le one_le_numeral)
    note small = this
    have "fp_round_mag binary32 a b = min (nat (- 149 - f_emin binary32) * 2 ^ f_man binary32 + div_rne m 1) (fp_inf_mag binary32)"
    proof (rule fp_round_mag_at [OF a b E [THEN conjunct1] E [THEN conjunct2]])
      show "- 149 = max (E - int (f_man binary32)) (f_emin binary32)"
        using small by (simp add: binary32_consts)
      show "real a / real b = real m / real 1 * 2 powi - 149" unfolding v me(2) by (simp only: of_nat_1 div_by_1)
    qed simp
    moreover have "min m 2139095040 = m" using \<open>m < 8388608\<close> by simp
    ultimately show ?thesis using True me(1) div_rne_exact [of 1 m] by (simp add: binary32_consts)
  next
    case False
    then have me: "m = f_man_field f + 2 ^ 23" "e = int (f_exp_field f) - 150" using d x by (auto simp: fp_decode_float)
    have "m < 16777216" using f_bounds(2) [of f] me(1) by simp
    then have mb: "8388608 \<le> real m" "real m < 16777216" using me(1) by simp_all
    have P: "(2::real) powi (e + 23) = 2 powi e * 8388608" "(2::real) powi (e + 23 + 1) = 2 powi e * 16777216"
      by (simp_all add: power_int_add)
    have "fp_round_mag binary32 a b = min (nat (e - f_emin binary32) * 2 ^ f_man binary32 + div_rne m 1) (fp_inf_mag binary32)"
    proof (rule fp_round_mag_at [OF a b, of "e + 23"])
      show "2 powi (e + 23) \<le> real a / real b" "real a / real b < 2 powi (e + 23 + 1)"
        unfolding v P using mb by (simp_all add: mult.commute)
    qed (use v me(2) False in \<open>simp_all add: binary32_consts\<close>)
    moreover have "nat (e + 149) * 2 ^ 23 + m = f_exp_field f * 2 ^ 23 + f_man_field f"
      using me False by (cases "f_exp_field f") simp_all
    moreover have "f_exp_field f * 8388608 + f_man_field f < 2139095040"
      using f_bounds(2) [of f] x by linarith
    ultimately show ?thesis using div_rne_exact [of 1 m] by (simp add: binary32_consts)
  qed
  show ?thesis unfolding fp_round_def mag sg by (rule unat_float [symmetric])
qed

lemma zero_decode: "z = 0 \<or> z = 0x80000000 \<Longrightarrow> fp_decode binary32 (unat (z :: u32)) = FFin (z \<noteq> 0) 0 (- 149)"
  by (auto simp: fp_decode_def binary32_def f_emin_def f_bias_def Let_def)

lemma decode_e: "fp_decode binary32 (unat (f :: u32)) = FFin s m e \<Longrightarrow> - 149 \<le> e"
  by (auto simp: fp_decode_float split: if_splits)

lemma decode_zero_unat:
  assumes "fp_decode binary32 (unat (f :: u32)) = FFin s 0 e"
  shows "f = (if s then 0x80000000 else 0)"
proof -
  have "f_exp_field f = 0" "f_man_field f = 0" "s = f_sign f"
    using assms by (auto simp: fp_decode_float split: if_splits)
  then have "unat f = unat (if s then 0x80000000 else 0 :: u32)"
    using unat_float [of f] by (simp add: fp_signed_def binary32_def)
  then show ?thesis by (rule unsigned_word_eqI)
qed

lemma canonical_add_zero:
  assumes "canonical a" and z: "z = 0 \<or> z = 0x80000000"
  shows "f32_add a z = a"
proof -
  note dz = zero_decode [OF z]
  have "fp_add binary32 (unat a) (unat z) = unat a"
  proof (cases "fp_decode binary32 (unat a)")
    case FNan
    then show ?thesis using assms(1) by (simp add: fp_add_def canonical_def fp_is_nan_def)
  next
    case (FInf s)
    then have "f_exp_field a = 255" "f_man_field a = 0" "s = f_sign a"
      by (auto simp: fp_decode_float split: if_splits)
    then show ?thesis using FInf unat_float [of a] by (simp add: fp_add_def dz binary32_consts)
  next
    case (FFin s m e)
    have e: "- 149 \<le> e" by (rule decode_e [OF FFin])
    show ?thesis
    proof (cases "m = 0")
      case True
      then have "a = (if s then 0x80000000 else 0)" using decode_zero_unat FFin by blast
      then have "\<not> s" "a = 0" using assms(1) FFin by (auto simp: canonical_def fp_is_nan_def split: if_splits)
      then show ?thesis using FFin True
        by (simp add: fp_add_def dz signed_shift_def Let_def fp_signed_def)
    next
      case False
      let ?n = "m * 2 ^ nat (e + 149)"
      have t: "signed_shift s m (nat (e - min e (- 149))) + signed_shift (z \<noteq> 0) 0 (nat (- 149 - min e (- 149))) =
          (if s then - int ?n else int ?n)"
        using e by (simp add: signed_shift_def min_def)
      obtain p q where pq: "dyadic ?n (- 149) = (p, q)" by fastforce
      have "real ?n * 2 powi (- 149) = real m * 2 powi e"
      proof -
        have "(2::real) ^ nat (e + 149) = 2 powi (e + 149)" using e by (simp add: power_int_def)
        moreover have "2 powi (e + 149) * 2 powi (- 149) = (2::real) powi (e + 149 + - 149)"
          by (rule power_int_add [symmetric]) simp
        ultimately have "(2::real) ^ nat (e + 149) * 2 powi (- 149) = 2 powi e" by simp
        then show ?thesis by (simp only: of_nat_mult of_nat_power of_nat_numeral mult.assoc)
      qed
      with dyadic_val [OF pq] have "0 < q" "real p / real q = real m * 2 powi e" by (metis, metis)
      from round_decoded [OF FFin False this] have "round_dyadic binary32 s ?n (- 149) = unat a"
        by (simp add: round_dyadic_def pq)
      moreover have "min e (- 149) = - 149" using e by simp
      ultimately show ?thesis
        unfolding fp_add_def FFin dz using False t
        by (cases s) (simp_all add: Let_def flip: of_nat_power of_nat_mult del: of_nat_power of_nat_mult of_nat_numeral)
    qed
  qed
  then show ?thesis by (simp add: f32_add_def)
qed


lemma round_mag_pos:
  assumes "0 < n" and "- 149 \<le> e"
  shows "\<exists>g. round_dyadic binary32 s n e = fp_signed binary32 s g \<and> g \<noteq> 0 \<and> g \<le> 2139095040"
proof -
  obtain a b where d: "dyadic n e = (a, b)" by fastforce
  note v = dyadic_val [OF d]
  have "fp_round binary32 False 1 (2 ^ 149) = unat (1 :: u32)"
    by (rule round_decoded [of 1 False 1 "- 149"])
      (simp_all add: fp_decode_def binary32_def f_emin_def f_bias_def power_int_minus divide_simps)
  then have one: "fp_round_mag binary32 1 (2 ^ 149) = 1" by (simp add: fp_round_def fp_signed_def)
  have "1 * (2::real) powi (- 149) \<le> real n * 2 powi e"
    using assms by (intro mult_mono power_int_increasing) simp_all
  then have "2 powi (- 149) \<le> real a / real b" using v by simp
  then have "real (1 * b) \<le> real (a * 2 ^ 149)" using v by (simp add: power_int_minus divide_simps mult.commute)
  then have "1 * b \<le> a * 2 ^ 149" by (simp only: of_nat_le_iff)
  then have "1 \<le> fp_round_mag binary32 a b"
    using fp_round_mag_mono [of "2 ^ 149" b 1 a binary32] v by (simp only: one zero_less_power zero_less_numeral)
  moreover have "fp_round_mag binary32 a b \<le> 2139095040"
    by (simp add: fp_round_mag_def Let_def binary32_consts split: prod.splits)
  ultimately show ?thesis by (auto simp: round_dyadic_def d fp_round_def)
qed

lemma canonical_signed:
  assumes "g \<le> 2139095040" and "s \<Longrightarrow> g \<noteq> 0"
  shows "canonical (of_nat (fp_signed binary32 s g))"
proof -
  have lt: "fp_signed binary32 s g < 2 ^ 32" using assms(1) by (simp add: fp_signed_def binary32_def)
  then have u: "unat (of_nat (fp_signed binary32 s g) :: u32) = fp_signed binary32 s g"
    by (simp add: unsigned_of_nat take_bit_nat_eq_self)
  have dm: "g div 8388608 * 8388608 + g mod 8388608 = g" by (rule div_mult_mod_eq)
  have x: "g div 8388608 \<le> 255" using div_le_mono [OF assms(1), of 8388608] by simp
  have "g div 8388608 = 255 \<Longrightarrow> g mod 8388608 = 0" using assms(1) dm by simp
  then have "\<not> fp_is_nan binary32 (fp_signed binary32 s g)"
    using fp_decode_signed [of "g mod 8388608" binary32 "g div 8388608" s] x
    by (auto simp: fp_is_nan_def dm binary32_consts)
  moreover have "(of_nat (fp_signed binary32 s g) :: u32) \<noteq> 0x80000000"
  proof
    assume "(of_nat (fp_signed binary32 s g) :: u32) = 0x80000000"
    then have "unat (of_nat (fp_signed binary32 s g) :: u32) = unat (0x80000000 :: u32)" by (rule arg_cong)
    then have "fp_signed binary32 s g = 2147483648" unfolding u by simp
    then show False using assms by (cases s) (simp_all add: fp_signed_def binary32_def)
  qed
  ultimately show ?thesis by (simp add: canonical_def u)
qed

lemma canonical_nan: "canonical (of_nat (fp_nan binary32))"
  by (simp add: canonical_def binary32_consts fp_is_nan_def fp_decode_def) 

lemma canonical_add:
  assumes "canonical x"
  shows "canonical (f32_add x y)"
proof (cases "fp_decode binary32 (unat x)"; cases "fp_decode binary32 (unat y)")
  fix s m e s' m' e'
  assume d: "fp_decode binary32 (unat x) = FFin s m e" "fp_decode binary32 (unat y) = FFin s' m' e'"
  define t where "t = signed_shift s m (nat (e - min e e')) + signed_shift s' m' (nat (e' - min e e'))"
  have f: "f32_add x y = of_nat (if t = 0 then fp_signed binary32 (s \<and> s') 0
      else round_dyadic binary32 (t < 0) (nat \<bar>t\<bar>) (min e e'))"
    unfolding f32_add_def fp_add_def d t_def by (simp add: Let_def)
  show ?thesis
  proof (cases "t = 0")
    case True
    have "\<not> (s \<and> s')"
    proof
      assume s: "s \<and> s'"
      define A where "A = m * 2 ^ nat (e - min e e')"
      define B where "B = m' * 2 ^ nat (e' - min e e')"
      have "t = - int (A + B)" using s by (simp add: t_def signed_shift_def A_def B_def)
      then have "A = 0" using True by simp
      then have "m = 0" by (simp add: A_def)
      then have "x = 0x80000000" using decode_zero_unat d(1) s by fastforce
      then show False using assms by (simp add: canonical_def fp_is_nan_def fp_decode_def binary32_def split: if_splits)
    qed
    then show ?thesis unfolding f using True canonical_0 by (auto simp: fp_signed_def)
  next
    case False
    have "- 149 \<le> min e e'" using decode_e [OF d(1)] decode_e [OF d(2)] by simp
    with False round_mag_pos [of "nat \<bar>t\<bar>" "min e e'" "t < 0"]
    obtain g where "round_dyadic binary32 (t < 0) (nat \<bar>t\<bar>) (min e e') = fp_signed binary32 (t < 0) g"
      "g \<noteq> 0" "g \<le> 2139095040" by auto
    then show ?thesis unfolding f using False canonical_signed by simp
  qed
qed (simp_all add: f32_add_def fp_add_def canonical_nan [simplified binary32_consts of_nat_numeral] canonical_signed binary32_consts)

lemma f32_mul_zero: "f32_mul 0 0 = 0"
  by (simp add: f32_mul_def fp_mul_def fp_decode_def binary32_def round_dyadic_def dyadic_def fp_round_def
      fp_round_mag_def fp_signed_def f_emin_def f_bias_def)

text \<open>Negation flips the sign bit; a product with zero is a zero.\<close>

lemma low_bits_fields:
  assumes "take_bit 31 a = take_bit 31 (b :: u32)"
  shows "f_exp_field a = f_exp_field b" "f_man_field a = f_man_field b"
proof -
  have "unat (take_bit 31 a) = unat (take_bit 31 b)" using assms by simp
  then have m: "unat a mod 2 ^ 31 = unat b mod 2 ^ 31" unfolding unsigned_take_bit_eq by (simp only: take_bit_eq_mod)
  have e: "n div 2 ^ 23 mod 2 ^ 8 = n mod 2 ^ 31 div 2 ^ 23" "n mod 2 ^ 23 = n mod 2 ^ 31 mod 2 ^ 23" for n :: nat
  proof -
    have "n mod 2 ^ 31 div 2 ^ 23 = n mod (2 ^ 23 * 2 ^ 8) div 2 ^ 23" by simp
    also have "\<dots> = n div 2 ^ 23 mod 2 ^ 8" by (subst mod_mult2_eq) simp
    finally show "n div 2 ^ 23 mod 2 ^ 8 = n mod 2 ^ 31 div 2 ^ 23" by (rule sym)
    show "n mod 2 ^ 23 = n mod 2 ^ 31 mod 2 ^ 23" by (rule mod_mod_cancel [symmetric]) (rule le_imp_power_dvd, simp)
  qed
  show "f_exp_field a = f_exp_field b" "f_man_field a = f_man_field b"
    by (simp only: f_exp_field_def e(1) m, metis f_man_field_def e(2) m)
qed

lemma f32_neg_fields:
  "f_sign (f32_neg a) = (\<not> f_sign a)" "f_exp_field (f32_neg a) = f_exp_field a" "f_man_field (f32_neg a) = f_man_field a"
proof -
  have c: "(0x80000000 :: u32) = push_bit 31 1" by simp
  show "f_sign (f32_neg a) = (\<not> f_sign a)"
    unfolding f_sign_def f32_neg_def c by (simp only: bit_xor_iff bit_push_bit_iff) (simp add: bit_simps)
  have "take_bit 31 (f32_neg a) = take_bit 31 a"
    unfolding f32_neg_def c by (rule bit_word_eqI) (auto simp only: bit_take_bit_iff bit_xor_iff bit_push_bit_iff)
  from low_bits_fields [OF this] show "f_exp_field (f32_neg a) = f_exp_field a" "f_man_field (f32_neg a) = f_man_field a" .
qed

lemma f32_mul_zero_left:
  assumes "fp_finite binary32 (unat y)"
  shows "f32_mul 0 y = 0 \<or> f32_mul 0 y = 0x80000000"
proof -
  obtain s m e where d: "fp_decode binary32 (unat y) = FFin s m e" using assms by (auto simp: fp_finite_def)
  have z: "fp_decode binary32 0 = FFin False 0 (- 149)" using zero_decode [of 0] by simp
  have "f32_mul 0 y = of_nat (round_dyadic binary32 s 0 (e - 149))" by (simp add: f32_mul_def fp_mul_def d z)
  also have "round_dyadic binary32 s 0 (e - 149) = fp_signed binary32 s 0"
    by (simp add: round_dyadic_def dyadic_def fp_round_def fp_round_mag_def)
  finally show ?thesis by (cases s) (simp_all add: fp_signed_def binary32_consts)
qed

end
