(* ===== verification/Libm.thy ===== *)
theory Libm
  imports Bf16 Doubles
begin

text \<open>
  The mathematical functions of the kernels. Square root and the conversions between \<open>float\<close> and
  \<open>double\<close> are fixed by IEEE 754 and defined here; \<open>expf\<close> and \<open>erf\<close>, whose accuracy neither C++ nor
  CUDA fixes, and the locale-dependent \<open>std::stof\<close> are the fields of a record the models take as a
  parameter.
\<close>

record libm =
  expf :: "u32 \<Rightarrow> u32"
  erf :: "double \<Rightarrow> double"
  stof :: "string \<Rightarrow> u32 option"

section \<open>Square root\<close>

fun isqrt :: "nat \<Rightarrow> nat" where
  "isqrt n = (if n = 0 then 0 else let r = 2 * isqrt (n div 4) in if (r + 1) * (r + 1) \<le> n then r + 1 else r)"

declare isqrt.simps [simp del]

text \<open>Two more digits than the format and a sticky bit make the final rounding the only one.\<close>

definition fp_sqrt :: "fmt \<Rightarrow> nat \<Rightarrow> nat" where
  "fp_sqrt F x =
     (case fp_decode F x of
        FNan \<Rightarrow> fp_nan F
      | FInf s \<Rightarrow> if s then fp_nan F else fp_signed F False (fp_inf_mag F)
      | FFin s m e \<Rightarrow>
          if m = 0 then fp_signed F s 0
          else if s then fp_nan F
          else let k = 2 * (f_man F + 2) + (if even e then 0 else 1);
                   n = m * 2 ^ k;
                   r = isqrt n
               in round_dyadic F False (2 * r + (if r * r = n then 0 else 1)) ((e - int k) div 2 - 1))"

definition f32_sqrt :: "u32 \<Rightarrow> u32" where
  "f32_sqrt x = of_nat (fp_sqrt binary32 (unat x))"

lemma isqrt_bounds: "isqrt n * isqrt n \<le> n \<and> n < (isqrt n + 1) * (isqrt n + 1)"
proof (induction n rule: isqrt.induct)
  case (1 n)
  show ?case
  proof (cases "n = 0")
    case True
    then show ?thesis by (simp add: isqrt.simps [of 0])
  next
    case False
    define q where "q = isqrt (n div 4)"
    have "q * q \<le> n div 4" "n div 4 < (q + 1) * (q + 1)" using "1.IH" False by (simp_all add: q_def)
    then have "4 * (q * q) \<le> n" "n < 4 * ((q + 1) * (q + 1))" by linarith+
    then show ?thesis using False by (simp add: isqrt.simps [of n] q_def [symmetric] Let_def algebra_simps)
  qed
qed

text \<open>The square root of a perfect square that the format holds is exact.\<close>

lemma isqrt_square: "isqrt (r * r) = r"
proof -
  have b: "isqrt (r * r) * isqrt (r * r) \<le> r * r" "r * r < (isqrt (r * r) + 1) * (isqrt (r * r) + 1)"
    using isqrt_bounds by blast+
  have "isqrt (r * r) \<le> r" by (rule power2_le_imp_le) (use b in \<open>simp_all add: power2_eq_square\<close>)
  moreover have "r < isqrt (r * r) + 1" by (rule power2_less_imp_less) (use b in \<open>simp_all add: power2_eq_square\<close>)
  ultimately show ?thesis by simp
qed

section \<open>Conversions\<close>

definition fp_convert :: "fmt \<Rightarrow> fmt \<Rightarrow> nat \<Rightarrow> nat" where
  "fp_convert F G x =
     (case fp_decode F x of
        FNan \<Rightarrow> fp_nan G
      | FInf s \<Rightarrow> fp_signed G s (fp_inf_mag G)
      | FFin s m e \<Rightarrow> round_dyadic G s m e)"

definition f32_to_f64 :: "u32 \<Rightarrow> double" where
  "f32_to_f64 x = fp_convert binary32 binary64 (unat x)"

definition f64_to_f32 :: "double \<Rightarrow> u32" where
  "f64_to_f32 x = of_nat (fp_convert binary64 binary32 x)"

section \<open>Maximum\<close>

text \<open>\<open>std::max (a, b)\<close> is \<open>(a < b) ? b : a\<close>; \<open>fmaxf\<close> ignores one NaN operand, makes the device's NaN of
  two, and, as \<open>max.f32\<close> of PTX, orders the zeros (equal operands have equal bits otherwise).\<close>

definition std_max :: "u32 \<Rightarrow> u32 \<Rightarrow> u32" where
  "std_max a b = (if f32_lt a b then b else a)"

definition f32_is_nan :: "u32 \<Rightarrow> bool" where
  "f32_is_nan a = fp_is_nan binary32 (unat a)"

definition fmaxf :: "u32 \<Rightarrow> u32 \<Rightarrow> u32" where
  "fmaxf a b =
     (if f32_is_nan a \<and> f32_is_nan b then 0x7FFFFFFF
      else if f32_is_nan a then b else if f32_is_nan b then a
      else if f32_lt a b then b else if f32_lt b a then a
      else a AND b)"

lemma fin_le_total: "fin_le s m e s' m' e' \<or> fin_le s' m' e' s m e"
  by (auto simp: fin_le_def Let_def min.commute)

lemma f32_lt_asym:
  assumes "f32_lt a b"
  shows "\<not> f32_lt b a"
proof (cases "fp_decode binary32 (unat a)"; cases "fp_decode binary32 (unat b)")
  fix s m e s' m' e'
  assume "fp_decode binary32 (unat a) = FFin s m e" "fp_decode binary32 (unat b) = FFin s' m' e'"
  then show ?thesis using assms fin_le_total [of s m e s' m' e'] by (auto simp: f32_lt_def fp_lt_def fp_le_def)
qed (use assms in \<open>auto simp: f32_lt_def fp_lt_def fp_le_def\<close>)

lemma fmaxf_commute: "fmaxf a b = fmaxf b a"
  using f32_lt_asym by (auto simp: fmaxf_def and.commute)

text \<open>On finite values both maxima are the maximum of the reals.\<close>

lemma finite_mag:
  assumes "fp_finite binary32 (unat (f :: u32))"
  obtains g where "unat f = fp_signed binary32 (f_sign f) g" "g < fp_inf_mag binary32"
    "fp_val binary32 (unat f) = (if f_sign f then - 1 else 1) * mag_val binary32 g"
proof -
  let ?g = "f_exp_field f * 2 ^ 23 + f_man_field f"
  have "f_exp_field f \<noteq> 255" using assms by (auto simp: fp_finite_def fp_decode_float split: if_splits)
  then have "f_exp_field f < 255" using f_bounds(1) [of f] by linarith
  moreover have "f_man_field f < 8388608" by (rule f_bounds(2))
  moreover have "?g = f_exp_field f * 8388608 + f_man_field f" by simp
  ultimately have g: "?g < fp_inf_mag binary32" unfolding binary32_consts by linarith
  then show ?thesis using that [of ?g] unat_float [of f] mag_decode [OF g, of "f_sign f"] by (simp add: binary32_consts)
qed

lemma mag_val_0: "mag_val F 0 = 0"
  by (simp add: mag_val_def)

lemma mag_val_nonneg: "0 \<le> mag_val F g"
  using mag_val_mono [of 0 g F] by (simp add: mag_val_0)

lemma mag_val_zero_iff: "mag_val F g = 0 \<longleftrightarrow> g = 0"
  using mag_val_strict [of 0 g F] by (cases "g = 0") (simp_all add: mag_val_0)

lemma mag_val_inject: "mag_val F g = mag_val F g' \<longleftrightarrow> g = g'"
  by (metis mag_val_strict less_irrefl linorder_neqE_nat)

text \<open>Two finite values are equal only with equal bits, the zeros apart.\<close>

lemma finite_inject:
  assumes "fp_finite binary32 (unat (a :: u32))" "fp_finite binary32 (unat b)" "fp_val binary32 (unat a) = fp_val binary32 (unat b)"
  shows "a = b \<or> a \<in> {0, 0x80000000} \<and> b \<in> {0, 0x80000000}"
proof -
  obtain g where g: "unat a = fp_signed binary32 (f_sign a) g" "fp_val binary32 (unat a) = (if f_sign a then - 1 else 1) * mag_val binary32 g"
    by (rule finite_mag [OF assms(1)])
  obtain g' where g': "unat b = fp_signed binary32 (f_sign b) g'" "fp_val binary32 (unat b) = (if f_sign b then - 1 else 1) * mag_val binary32 g'"
    by (rule finite_mag [OF assms(2)])
  have zero: "c \<in> {0, 0x80000000}" if "unat c = fp_signed binary32 s 0" for c :: u32 and s
    using that by (auto simp: fp_signed_def binary32_def unat_arith_simps split: if_splits)
  show ?thesis
  proof (cases "g = 0 \<or> g' = 0")
    case True
    then have "g = 0 \<and> g' = 0" using assms(3) g(2) g'(2) by (auto simp: mag_val_0 mag_val_zero_iff split: if_splits)
    with zero g(1) g'(1) show ?thesis by blast
  next
    case False
    then have "0 < mag_val binary32 g" "0 < mag_val binary32 g'"
      using mag_val_strict [of 0 g binary32] mag_val_strict [of 0 g' binary32] by (simp_all add: mag_val_0)
    then have "f_sign a = f_sign b \<and> g = g'" using assms(3) g(2) g'(2) by (auto simp: mag_val_inject split: if_splits)
    then have "unat a = unat b" using g(1) g'(1) by simp
    then show ?thesis by (simp only: word_unat_eq_iff simp_thms)
  qed
qed

lemma finite_not_nan: "fp_finite binary32 (unat a) \<Longrightarrow> \<not> f32_is_nan a"
  by (auto simp: fp_finite_def f32_is_nan_def fp_is_nan_def)

lemma zero_value: "a \<in> {0, 0x80000000} \<Longrightarrow> fp_finite binary32 (unat (a :: u32)) \<and> fp_val binary32 (unat a) = 0"
  using zero_decode [of a] by (auto simp: fp_finite_def fp_val_def fin_val_def)

lemma fmaxf_value:
  assumes "fp_finite binary32 (unat a)" "fp_finite binary32 (unat b)"
  shows "fp_finite binary32 (unat (fmaxf a b)) \<and>
    fp_val binary32 (unat (fmaxf a b)) = max (fp_val binary32 (unat a)) (fp_val binary32 (unat b))"
proof -
  have lt: "f32_lt a b \<longleftrightarrow> fp_val binary32 (unat a) < fp_val binary32 (unat b)"
    "f32_lt b a \<longleftrightarrow> fp_val binary32 (unat b) < fp_val binary32 (unat a)"
    using fp_lt_finite assms by (simp_all add: f32_lt_def)
  note nn = finite_not_nan [OF assms(1)] finite_not_nan [OF assms(2)]
  consider "f32_lt a b" | "f32_lt b a" | "fp_val binary32 (unat a) = fp_val binary32 (unat b)" using lt by linarith
  then show ?thesis
  proof cases
    case 3
    then have "\<not> f32_lt a b" "\<not> f32_lt b a" using lt by simp_all
    then have m: "fmaxf a b = a AND b" using nn by (simp add: fmaxf_def)
    from finite_inject [OF assms 3] show ?thesis
    proof
      assume "a \<in> {0, 0x80000000} \<and> b \<in> {0, 0x80000000}"
      moreover from this have "a AND b \<in> {0, 0x80000000}" by auto
      ultimately show ?thesis unfolding m using zero_value [of a] zero_value [of b] zero_value [of "a AND b"] by simp
    qed (use assms m in simp)
  qed (use assms lt nn in \<open>auto simp: fmaxf_def\<close>)
qed

lemma std_max_value:
  assumes "fp_finite binary32 (unat a)" "fp_finite binary32 (unat b)"
  shows "fp_finite binary32 (unat (std_max a b)) \<and>
    fp_val binary32 (unat (std_max a b)) = max (fp_val binary32 (unat a)) (fp_val binary32 (unat b))"
  using assms fp_lt_finite [OF assms] by (auto simp: std_max_def f32_lt_def)

definition FLT_MAX :: u32 where "FLT_MAX = 0x7F7FFFFF"

lemma lowest_finite:
  assumes "fp_finite binary32 (unat (x :: u32))"
  shows "fp_finite binary32 (unat (f32_neg FLT_MAX)) \<and> fp_val binary32 (unat (f32_neg FLT_MAX)) \<le> fp_val binary32 (unat x)"
proof -
  have u: "unat (f32_neg FLT_MAX) = fp_signed binary32 True 0x7F7FFFFF"
    by (simp add: FLT_MAX_def f32_neg_def fp_signed_def binary32_def)
  have m: "fp_finite binary32 (unat (f32_neg FLT_MAX))" "fp_val binary32 (unat (f32_neg FLT_MAX)) = - mag_val binary32 0x7F7FFFFF"
    unfolding u using mag_decode [of "0x7F7FFFFF" binary32 True] by (simp_all add: binary32_consts)
  obtain g where g: "g < fp_inf_mag binary32" "fp_val binary32 (unat x) = (if f_sign x then - 1 else 1) * mag_val binary32 g"
    by (rule finite_mag [OF assms])
  have "g \<le> 0x7F7FFFFF" using g(1) by (simp add: binary32_consts)
  then have "mag_val binary32 g \<le> mag_val binary32 0x7F7FFFFF" by (rule mag_val_mono)
  then show ?thesis using m g(2) mag_val_nonneg [of binary32 g] mag_val_nonneg [of binary32 "0x7F7FFFFF"] by auto
qed

end
