(* ===== verification/Buffers.thy ===== *)
theory Buffers
  imports Prelude "HOL-Library.Monad_Syntax"
begin

text \<open>
  Memory as the kernels see it: a buffer is the list of its elements, an access outside it (undefined
  behaviour in C++) makes the whole run \<open>None\<close>, and a counted \<open>for\<close> loop is \<open>loop\<close>. The lemmas turn
  a loop whose accesses are in range into a fold, and a loop that stores each element once into
  the list of the stored values.
\<close>

definition rd :: "'a list \<Rightarrow> nat \<Rightarrow> 'a option" where
  "rd xs i = (if i < length xs then Some (xs ! i) else None)"

definition wr :: "'a list \<Rightarrow> nat \<Rightarrow> 'a \<Rightarrow> 'a list option" where
  "wr xs i v = (if i < length xs then Some (xs[i := v]) else None)"

text \<open>\<open>for (i = 0; i < n; ++i)\<close>, and the same from \<open>lo\<close> in steps of \<open>d\<close>.\<close>

primrec loop :: "nat \<Rightarrow> (nat \<Rightarrow> 's \<Rightarrow> 's option) \<Rightarrow> 's \<Rightarrow> 's option" where
  "loop 0 f s = Some s"
| "loop (Suc n) f s = loop n f s \<bind> f n"

definition loop_by :: "nat \<Rightarrow> nat \<Rightarrow> nat \<Rightarrow> (nat \<Rightarrow> 's \<Rightarrow> 's option) \<Rightarrow> 's \<Rightarrow> 's option" where
  "loop_by lo d n f = loop ((n - lo + (d - 1)) div d) (\<lambda>k. f (lo + k * d))"

lemma rd_in [simp]: "i < length xs \<Longrightarrow> rd xs i = Some (xs ! i)"
  by (simp add: rd_def)

lemma wr_in [simp]: "i < length xs \<Longrightarrow> wr xs i v = Some (xs[i := v])"
  by (simp add: wr_def)

lemma loop_cong: "(\<And>i s. i < n \<Longrightarrow> f i s = g i s) \<Longrightarrow> loop n f s = loop n g s"
  by (induction n) (simp_all cong: Option.bind_cong)

lemma loop_pure: "(\<And>i s. i < n \<Longrightarrow> f i s = Some (g i s)) \<Longrightarrow> loop n f s = Some (foldl (\<lambda>s i. g i s) s [0..<n])"
  by (induction n) simp_all

lemma loop_None: "k < n \<Longrightarrow> (\<And>s. f k s = None) \<Longrightarrow> loop n f s = None"
proof (induction n)
  case (Suc n)
  then show ?case by (cases "k = n"; cases "loop n f s") simp_all
qed simp

lemma loop_inv:
  assumes "P 0 s" and "\<And>i s. i < n \<Longrightarrow> P i s \<Longrightarrow> \<exists>s'. f i s = Some s' \<and> P (Suc i) s'"
  shows "\<exists>s'. loop n f s = Some s' \<and> P n s'"
  using assms(2)
proof (induction n)
  case 0
  then show ?case using assms(1) by simp
next
  case (Suc n)
  then obtain s1 where "loop n f s = Some s1" "P n s1" by auto
  with Suc.prems [of n s1] show ?case by auto
qed

text \<open>Reducing loops over the elements of one buffer and of two.\<close>

lemma loop_reduce:
  assumes "\<And>i. i < n \<Longrightarrow> p i < length xs"
  shows "loop n (\<lambda>i s. rd xs (p i) \<bind> (\<lambda>x. Some (h s x))) s = Some (foldl (\<lambda>s i. h s (xs ! p i)) s [0..<n])"
  by (rule loop_pure) (simp add: assms)

lemma loop_reduce2:
  assumes "\<And>i. i < n \<Longrightarrow> p i < length xs" "\<And>i. i < n \<Longrightarrow> q i < length ys"
  shows "loop n (\<lambda>i s. rd xs (p i) \<bind> (\<lambda>x. rd ys (q i) \<bind> (\<lambda>y. Some (h s x y)))) s =
    Some (foldl (\<lambda>s i. h s (xs ! p i) (ys ! q i)) s [0..<n])"
  by (rule loop_pure) (simp add: assms)

section \<open>Stores at consecutive places\<close>

lemma loop_wr:
  assumes "base + n \<le> length out" and "\<And>i out'. i < n \<Longrightarrow> length out' = length out \<Longrightarrow>
      take base out' = take base out \<Longrightarrow> drop (base + i) out' = drop (base + i) out \<Longrightarrow> f i out' = wr out' (base + i) (v i)"
  shows "loop n f out = Some (take base out @ map v [0..<n] @ drop (base + n) out)"
  using assms
proof (induction n)
  case 0
  then show ?case by simp
next
  case (Suc n)
  let ?o = "take base out @ map v [0..<n] @ drop (base + n) out"
  have "loop n f out = Some ?o" using Suc by simp
  moreover have "f n ?o = wr ?o (base + n) (v n)"
    using Suc.prems(1) by (intro Suc.prems(2)) simp_all
  moreover have "drop (base + n) out = out ! (base + n) # drop (base + Suc n) out"
    using Suc.prems(1) by (simp add: Cons_nth_drop_Suc)
  ultimately show ?case using Suc.prems(1)
    by (simp add: list_update_append)
qed

text \<open>The rows of a matrix, one behind the other.\<close>

definition tabulate :: "nat \<Rightarrow> nat \<Rightarrow> (nat \<Rightarrow> nat \<Rightarrow> 'a) \<Rightarrow> 'a list" where
  "tabulate m n v = concat (map (\<lambda>i. map (v i) [0..<n]) [0..<m])"

lemma length_tabulate [simp]: "length (tabulate m n v) = m * n"
  by (induction m) (simp_all add: tabulate_def add.commute)

lemma tabulate_Suc: "tabulate (Suc m) n v = tabulate m n v @ map (v m) [0..<n]"
  by (simp add: tabulate_def)

lemma nth_tabulate: "i < m \<Longrightarrow> j < n \<Longrightarrow> tabulate m n v ! (i * n + j) = v i j"
proof (induction m)
  case (Suc m)
  show ?case
  proof (cases "i = m")
    case True
    then show ?thesis using Suc.prems by (simp add: tabulate_Suc nth_append)
  next
    case False
    with Suc.prems have "i < m" by simp
    then have "j + n * i < n * m" using index_lt [of j n i m] Suc.prems(2) by (simp add: mult.commute add.commute)
    with Suc \<open>i < m\<close> show ?thesis by (simp add: tabulate_Suc nth_append mult.commute add.commute)
  qed
qed simp

lemma tabulate_cong: "(\<And>i j. i < m \<Longrightarrow> j < n \<Longrightarrow> v i j = w i j) \<Longrightarrow> tabulate m n v = tabulate m n w"
  by (induction m) (simp_all add: tabulate_Suc tabulate_def)

lemma tabulate_div_mod: "tabulate m n v = map (\<lambda>p. v (p div n) (p mod n)) [0..<m * n]"
proof (rule nth_equalityI)
  fix p assume "p < length (tabulate m n v)"
  then have p: "p < m * n" by simp
  then have "p div n < m" "p mod n < n" by (simp add: less_mult_imp_div_less, cases n) auto
  with nth_tabulate [of "p div n" m "p mod n" n v] p
  show "tabulate m n v ! p = map (\<lambda>p. v (p div n) (p mod n)) [0..<m * n] ! p" by simp
qed simp

lemma loop_rows:
  assumes "m * n \<le> length out" and "\<And>i j out'. i < m \<Longrightarrow> j < n \<Longrightarrow> length out' = length out \<Longrightarrow>
      drop (i * n + j) out' = drop (i * n + j) out \<Longrightarrow> f i j out' = wr out' (i * n + j) (v i j)"
  shows "loop m (\<lambda>i. loop n (f i)) out = Some (tabulate m n v @ drop (m * n) out)"
  using assms
proof (induction m)
  case 0
  then show ?case by (simp add: tabulate_def)
next
  case (Suc m)
  let ?o = "tabulate m n v @ drop (m * n) out"
  have len: "length ?o = length out" using Suc.prems(1) by simp
  have "loop m (\<lambda>i. loop n (f i)) out = Some ?o" using Suc by simp
  moreover have "loop n (f m) ?o = Some (take (m * n) ?o @ map (v m) [0..<n] @ drop (m * n + n) ?o)"
  proof (rule loop_wr)
    show "m * n + n \<le> length ?o" unfolding len using Suc.prems(1) by simp
    fix j out' assume j: "j < n" and o: "length out' = length ?o" "drop (m * n + j) out' = drop (m * n + j) ?o"
    have "drop (m * n + j) ?o = drop (m * n + j) out" by (simp add: add.commute)
    with o len j show "f m j out' = wr out' (m * n + j) (v m j)" by (intro Suc.prems(2)) simp_all
  qed
  ultimately show ?case by (simp add: tabulate_Suc add.commute)
qed

lemma loop_rows_full:
  assumes "m * n = length out" and "\<And>i j out'. i < m \<Longrightarrow> j < n \<Longrightarrow> length out' = length out \<Longrightarrow>
      drop (i * n + j) out' = drop (i * n + j) out \<Longrightarrow> f i j out' = wr out' (i * n + j) (v i j)"
  shows "loop m (\<lambda>i. loop n (f i)) out = Some (tabulate m n v)"
  using loop_rows [of m n out f v] assms by simp

section \<open>Nested loops and blocks\<close>

lemma loop_add: "loop (m + n) f s = loop m f s \<bind> loop n (\<lambda>j. f (m + j))"
proof (induction n)
  case 0
  then show ?case by (cases "loop m f s") simp_all
next
  case (Suc n)
  then show ?case by (cases "loop m f s") simp_all
qed

lemma loop_nested: "loop m (\<lambda>i. loop n (\<lambda>j. f (i * n + j))) s = loop (m * n) f s"
  by (induction m) (simp_all add: loop_add add.commute [of n])

lemma copy_block:
  assumes "cb + n \<le> length c" "ob + n \<le> length out"
  shows "loop n (\<lambda>p out. rd c (cb + p) \<bind> (\<lambda>x. wr out (ob + p) x)) out =
    Some (take ob out @ take n (drop cb c) @ drop (ob + n) out)"
proof -
  have "loop n (\<lambda>p out. rd c (cb + p) \<bind> (\<lambda>x. wr out (ob + p) x)) out =
      Some (take ob out @ map (\<lambda>p. c ! (cb + p)) [0..<n] @ drop (ob + n) out)"
    by (rule loop_wr) (use assms in simp_all)
  moreover have "map (\<lambda>p. c ! (cb + p)) [0..<n] = take n (drop cb c)"
    by (rule nth_equalityI) (use assms in simp_all)
  ultimately show ?thesis by simp
qed

lemma length_blocks: "(\<And>i. i < m \<Longrightarrow> length (block i) = n) \<Longrightarrow> length (concat (map block [0..<m])) = m * n"
  by (induction m) simp_all

lemma nth_blocks:
  assumes "\<And>i. i < m \<Longrightarrow> length (block i) = n" "i < m" "p < n"
  shows "concat (map block [0..<m]) ! (i * n + p) = block i ! p"
  using assms
proof (induction m)
  case (Suc m)
  have l: "length (concat (map block [0..<m])) = m * n" using Suc.prems(1) by (intro length_blocks) simp
  show ?case
  proof (cases "i = m")
    case True
    then show ?thesis using l by (simp add: nth_append)
  next
    case False
    with Suc.prems have "i < m" by simp
    then have "i * n + p < m * n" using index_lt [of p n i m] Suc.prems(3) by (simp add: mult.commute)
    with Suc \<open>i < m\<close> l show ?thesis by (simp add: nth_append)
  qed
qed simp

lemma loop_blocks:
  assumes "m * n \<le> length out" "\<And>i. i < m \<Longrightarrow> length (block i) = n"
    and "\<And>i out'. i < m \<Longrightarrow> length out' = length out \<Longrightarrow>
      f i out' = Some (take (i * n) out' @ block i @ drop (i * n + n) out')"
  shows "loop m f out = Some (concat (map block [0..<m]) @ drop (m * n) out)"
  using assms
proof (induction m)
  case (Suc m)
  let ?o = "concat (map block [0..<m]) @ drop (m * n) out"
  have l: "length (concat (map block [0..<m])) = m * n" using Suc.prems(2) by (intro length_blocks) simp
  have "loop m f out = Some ?o" using Suc by simp
  moreover have "length ?o = length out" using l Suc.prems(1) by simp
  ultimately show ?case using Suc.prems(3) [of m ?o] l by (simp add: add.commute)
qed simp

end
