(* ===== verification/CpuRef.thy ===== *)
theory CpuRef
  imports Libm Buffers
begin

text \<open>
  The CPU reference kernels (\<open>cpu_reference.cpp\<close>), the executable specification of the GPU kernels:
  RMSNorm, GELU, SiLU, matrix product, softmax and the two fused chains over row-major bf16
  buffers. Each \<open>launch\<close> function has the loops, the loads and the stores of the source, and is
  \<open>None\<close> when one of them leaves its buffer; the lemmas give its result as a list when the buffers
  have the sizes the callers promise.
\<close>

section \<open>Normalisation and activations\<close>

definition launch_rmsnorm_cpu ::
    "u16 list \<Rightarrow> u16 list option \<Rightarrow> u16 list \<Rightarrow> nat \<Rightarrow> nat \<Rightarrow> u32 \<Rightarrow> u16 list option" where
  "launch_rmsnorm_cpu input weight output rows cols epsilon =
     (let inv_cols = f32_div f32_one (f32_of_int (int cols))
      in loop rows (\<lambda>r output. do {
           sum_sq \<leftarrow> loop cols (\<lambda>i sum_sq. do {
               x \<leftarrow> rd input (r * cols + i);
               Some (f32_add sum_sq (f32_mul (bf16_to_float x) (bf16_to_float x)))
             }) 0;
           loop cols (\<lambda>i output. do {
               x \<leftarrow> rd input (r * cols + i);
               let y = f32_div (bf16_to_float x) (f32_sqrt (f32_add (f32_mul sum_sq inv_cols) epsilon));
               y \<leftarrow> (case weight of
                       None \<Rightarrow> Some y
                     | Some weight \<Rightarrow> do { w \<leftarrow> rd weight i; Some (f32_mul y (bf16_to_float w)) });
               wr output (r * cols + i) (float_to_bf16 y)
             }) output
         }) output)"

definition half_lit :: u32 where "half_lit = f32_lit 1 2"

definition kInvSqrt2 :: u32 where
  "kInvSqrt2 = f32_lit 70710678118654752440 (10 ^ 20)"

definition gelu_cpu :: "libm \<Rightarrow> u16 \<Rightarrow> u16" where
  "gelu_cpu lm bits =
     (let x = bf16_to_float bits;
          e = f64_to_f32 (erf lm (f32_to_f64 (f32_mul x kInvSqrt2)))
      in float_to_bf16 (f32_mul (f32_mul half_lit x) (f32_add f32_one e)))"

definition launch_gelu_cpu :: "libm \<Rightarrow> u16 list \<Rightarrow> u16 list \<Rightarrow> nat \<Rightarrow> u16 list option" where
  "launch_gelu_cpu lm input output n =
     loop n (\<lambda>i output. do { x \<leftarrow> rd input i; wr output i (gelu_cpu lm x) }) output"

definition silu_cpu :: "libm \<Rightarrow> u16 \<Rightarrow> u16" where
  "silu_cpu lm bits =
     (let x = bf16_to_float bits
      in float_to_bf16 (f32_div x (f32_add f32_one (expf lm (f32_neg x)))))"

definition launch_silu_cpu :: "libm \<Rightarrow> u16 list \<Rightarrow> u16 list \<Rightarrow> nat \<Rightarrow> u16 list option" where
  "launch_silu_cpu lm input output n =
     loop n (\<lambda>i output. do { x \<leftarrow> rd input i; wr output i (silu_cpu lm x) }) output"

section \<open>Matrix product and the fused chains\<close>

definition launch_matmul_cpu ::
    "u16 list \<Rightarrow> u16 list \<Rightarrow> u16 list \<Rightarrow> nat \<Rightarrow> nat \<Rightarrow> nat \<Rightarrow> u16 list option" where
  "launch_matmul_cpu a b c M N K =
     loop M (\<lambda>i. loop N (\<lambda>j c. do {
         acc \<leftarrow> loop K (\<lambda>k acc. do {
             x \<leftarrow> rd a (i * K + k);
             y \<leftarrow> rd b (k * N + j);
             Some (f32_add acc (f32_mul (bf16_to_float x) (bf16_to_float y)))
           }) 0;
         wr c (i * N + j) (float_to_bf16 acc)
       })) c"

definition launch_fused_rmsnorm_matmul_cpu ::
    "u16 list \<Rightarrow> u16 list \<Rightarrow> u16 list \<Rightarrow> nat \<Rightarrow> nat \<Rightarrow> nat \<Rightarrow> u32 \<Rightarrow> u16 list option" where
  "launch_fused_rmsnorm_matmul_cpu input weight output M N K epsilon = do {
     normed \<leftarrow> launch_rmsnorm_cpu input None (replicate (M * K) 0) M K epsilon;
     launch_matmul_cpu normed weight output M N K
   }"

definition add_bf16 :: "u16 \<Rightarrow> u16 \<Rightarrow> u16" where
  "add_bf16 x y = float_to_bf16 (f32_add (bf16_to_float x) (bf16_to_float y))"

definition launch_fused_matmul_bias_gelu_cpu ::
    "libm \<Rightarrow> u16 list \<Rightarrow> u16 list \<Rightarrow> u16 list \<Rightarrow> u16 list \<Rightarrow> nat \<Rightarrow> nat \<Rightarrow> nat \<Rightarrow> u16 list option" where
  "launch_fused_matmul_bias_gelu_cpu lm a b bias output M N K = do {
     mm \<leftarrow> launch_matmul_cpu a b (replicate (M * N) 0) M N K;
     mm \<leftarrow> loop M (\<lambda>i. loop N (\<lambda>j mm. do {
             x \<leftarrow> rd mm (i * N + j);
             y \<leftarrow> rd bias j;
             wr mm (i * N + j) (add_bf16 x y)
           })) mm;
     launch_gelu_cpu lm mm output (M * N)
   }"

section \<open>Softmax\<close>

definition launch_softmax_cpu :: "libm \<Rightarrow> u16 list \<Rightarrow> u16 list \<Rightarrow> nat \<Rightarrow> nat \<Rightarrow> u16 list option" where
  "launch_softmax_cpu lm input output rows cols =
     loop rows (\<lambda>r output. do {
         x0 \<leftarrow> rd input (r * cols);
         row_max \<leftarrow> loop (cols - 1) (\<lambda>i row_max. do {
             x \<leftarrow> rd input (r * cols + Suc i);
             Some (std_max row_max (bf16_to_float x))
           }) (bf16_to_float x0);
         sum \<leftarrow> loop cols (\<lambda>i sum. do {
             x \<leftarrow> rd input (r * cols + i);
             Some (f32_add sum (expf lm (f32_sub (bf16_to_float x) row_max)))
           }) 0;
         let inv_sum = f32_div f32_one sum;
         loop cols (\<lambda>i output. do {
             x \<leftarrow> rd input (r * cols + i);
             wr output (r * cols + i) (float_to_bf16 (f32_mul (expf lm (f32_sub (bf16_to_float x) row_max)) inv_sum))
           }) output
       }) output"

section \<open>What the launches compute\<close>

definition sum_squares :: "u16 list \<Rightarrow> nat \<Rightarrow> nat \<Rightarrow> u32" where
  "sum_squares input cols r =
     foldl (\<lambda>acc i. f32_add acc (f32_mul (bf16_to_float (input ! (r * cols + i))) (bf16_to_float (input ! (r * cols + i))))) 0
       [0..<cols]"

definition row_rms :: "u16 list \<Rightarrow> nat \<Rightarrow> u32 \<Rightarrow> nat \<Rightarrow> u32" where
  "row_rms input cols epsilon r =
     f32_sqrt (f32_add (f32_mul (sum_squares input cols r) (f32_div f32_one (f32_of_int (int cols)))) epsilon)"

definition scale_by :: "u16 list option \<Rightarrow> nat \<Rightarrow> u32 \<Rightarrow> u32" where
  "scale_by weight i y = (case weight of None \<Rightarrow> y | Some w \<Rightarrow> f32_mul y (bf16_to_float (w ! i)))"

definition rmsnorm_spec :: "u16 list \<Rightarrow> u16 list option \<Rightarrow> nat \<Rightarrow> nat \<Rightarrow> u32 \<Rightarrow> u16 list" where
  "rmsnorm_spec input weight rows cols epsilon = tabulate rows cols (\<lambda>r i.
     float_to_bf16 (scale_by weight i (f32_div (bf16_to_float (input ! (r * cols + i))) (row_rms input cols epsilon r))))"

definition dot :: "u16 list \<Rightarrow> u16 list \<Rightarrow> nat \<Rightarrow> nat \<Rightarrow> nat \<Rightarrow> nat \<Rightarrow> u32" where
  "dot a b N K i j =
     foldl (\<lambda>acc k. f32_add acc (f32_mul (bf16_to_float (a ! (i * K + k))) (bf16_to_float (b ! (k * N + j))))) 0 [0..<K]"

definition matmul_spec :: "u16 list \<Rightarrow> u16 list \<Rightarrow> nat \<Rightarrow> nat \<Rightarrow> nat \<Rightarrow> u16 list" where
  "matmul_spec a b M N K = tabulate M N (\<lambda>i j. float_to_bf16 (dot a b N K i j))"

definition row_max :: "u16 list \<Rightarrow> nat \<Rightarrow> nat \<Rightarrow> u32" where
  "row_max input cols r =
     foldl (\<lambda>m i. std_max m (bf16_to_float (input ! (r * cols + Suc i)))) (bf16_to_float (input ! (r * cols))) [0..<cols - 1]"

definition softmax_term :: "libm \<Rightarrow> u16 list \<Rightarrow> nat \<Rightarrow> nat \<Rightarrow> nat \<Rightarrow> u32" where
  "softmax_term lm input cols r i = expf lm (f32_sub (bf16_to_float (input ! (r * cols + i))) (row_max input cols r))"

definition softmax_spec :: "libm \<Rightarrow> u16 list \<Rightarrow> nat \<Rightarrow> nat \<Rightarrow> u16 list" where
  "softmax_spec lm input rows cols = tabulate rows cols (\<lambda>r i.
     float_to_bf16 (f32_mul (softmax_term lm input cols r i)
       (f32_div f32_one (foldl (\<lambda>s i. f32_add s (softmax_term lm input cols r i)) 0 [0..<cols]))))"

lemma row_index:
  assumes "r < rows" "rows * cols \<le> length xs" "i < cols"
  shows "r * cols + i < length xs"
  using index_lt [OF assms(3,1)] assms(2) by (simp add: mult.commute)

lemma launch_matmul_cpu_eq:
  assumes "M * K \<le> length a" "K * N \<le> length b" "length c = M * N"
  shows "launch_matmul_cpu a b c M N K = Some (matmul_spec a b M N K)"
  unfolding launch_matmul_cpu_def matmul_spec_def
proof (rule loop_rows_full)
  fix i j c' assume ij: "i < M" "j < N"
  have "\<And>k. k < K \<Longrightarrow> i * K + k < length a" "\<And>k. k < K \<Longrightarrow> k * N + j < length b"
    using ij assms row_index by blast+
  then have "loop K (\<lambda>k acc. rd a (i * K + k) \<bind> (\<lambda>x. rd b (k * N + j) \<bind> (\<lambda>y.
      Some (f32_add acc (f32_mul (bf16_to_float x) (bf16_to_float y)))))) 0 = Some (dot a b N K i j)"
    unfolding dot_def by (rule loop_reduce2)
  then show "loop K (\<lambda>k acc. rd a (i * K + k) \<bind> (\<lambda>x. rd b (k * N + j) \<bind> (\<lambda>y.
      Some (f32_add acc (f32_mul (bf16_to_float x) (bf16_to_float y)))))) 0 \<bind>
      (\<lambda>acc. wr c' (i * N + j) (float_to_bf16 acc)) = wr c' (i * N + j) (float_to_bf16 (dot a b N K i j))"
    by (simp only: Option.bind.simps)
qed (simp add: assms(3))

lemma launch_map:
  assumes "n \<le> length input" "length output = n"
  shows "loop n (\<lambda>i output. rd input i \<bind> (\<lambda>x. wr output i (f x))) output = Some (map f (take n input))"
proof -
  have "loop n (\<lambda>i output. rd input i \<bind> (\<lambda>x. wr output i (f x))) output =
      Some (take 0 output @ map (\<lambda>i. f (input ! i)) [0..<n] @ drop (0 + n) output)"
    by (rule loop_wr) (use assms in simp_all)
  also have "map (\<lambda>i. f (input ! i)) [0..<n] = map f (take n input)"
    by (rule nth_equalityI) (use assms in simp_all)
  finally show ?thesis using assms(2) by simp
qed

lemma launch_gelu_cpu_eq:
  "n \<le> length input \<Longrightarrow> length output = n \<Longrightarrow> launch_gelu_cpu lm input output n = Some (map (gelu_cpu lm) (take n input))"
  unfolding launch_gelu_cpu_def by (rule launch_map)

lemma launch_silu_cpu_eq:
  "n \<le> length input \<Longrightarrow> length output = n \<Longrightarrow> launch_silu_cpu lm input output n = Some (map (silu_cpu lm) (take n input))"
  unfolding launch_silu_cpu_def by (rule launch_map)

text \<open>Loops that fill one row after the other.\<close>

lemma loop_rows_general:
  assumes "m * n = length out"
    and "\<And>i out'. i < m \<Longrightarrow> length out' = length out \<Longrightarrow> F i out' = loop n (g i) out'"
    and "\<And>i j out'. i < m \<Longrightarrow> j < n \<Longrightarrow> length out' = length out \<Longrightarrow> g i j out' = wr out' (i * n + j) (v i j)"
  shows "loop m F out = Some (tabulate m n v)"
proof -
  have "m' \<le> m \<Longrightarrow> loop m' F out = loop m' (\<lambda>i. loop n (g i)) out" for m'
  proof (induction m')
    case (Suc k)
    then have "loop k F out = loop k (\<lambda>i. loop n (g i)) out" by simp
    moreover have "loop k (\<lambda>i. loop n (g i)) out = Some (tabulate k n v @ drop (k * n) out)"
    proof (rule loop_rows)
      show "k * n \<le> length out" using Suc.prems assms(1) by (metis Suc_leD mult_le_mono1)
    qed (use assms(3) Suc.prems in simp_all)
    moreover have "length (tabulate k n v @ drop (k * n) out) = length out"
      using Suc.prems assms(1) by (metis Suc_leD add_diff_inverse_nat length_append length_drop length_tabulate mult_le_mono1 not_le)
    ultimately show ?case using assms(2) [of k] Suc.prems by simp
  qed simp
  then have "loop m F out = loop m (\<lambda>i. loop n (g i)) out" by simp
  then show ?thesis using loop_rows_full [OF assms(1)] assms(3) by simp
qed

lemma launch_rmsnorm_cpu_eq:
  assumes "rows * cols \<le> length input" "length output = rows * cols"
    and "\<And>w. weight = Some w \<Longrightarrow> cols \<le> length w"
  shows "launch_rmsnorm_cpu input weight output rows cols epsilon = Some (rmsnorm_spec input weight rows cols epsilon)"
  unfolding launch_rmsnorm_cpu_def rmsnorm_spec_def Let_def
proof (rule loop_rows_general)
  fix r i and out' :: "u16 list" assume r: "r < rows" and i: "i < cols"
  have "r * cols + i < length input" by (rule row_index [OF r assms(1) i])
  moreover have "(case weight of None \<Rightarrow> Some y | Some weight \<Rightarrow> rd weight i \<bind> (\<lambda>w. Some (f32_mul y (bf16_to_float w)))) =
      Some (scale_by weight i y)" for y
    using assms(3) i by (cases weight) (simp_all add: scale_by_def rd_def less_le_trans)
  ultimately show "rd input (r * cols + i) \<bind> (\<lambda>x. (case weight of
          None \<Rightarrow> Some (f32_div (bf16_to_float x) (row_rms input cols epsilon r))
        | Some weight \<Rightarrow> rd weight i \<bind> (\<lambda>w. Some (f32_mul (f32_div (bf16_to_float x) (row_rms input cols epsilon r)) (bf16_to_float w))))
      \<bind> (\<lambda>y. wr out' (r * cols + i) (float_to_bf16 y))) =
    wr out' (r * cols + i) (float_to_bf16 (scale_by weight i (f32_div (bf16_to_float (input ! (r * cols + i))) (row_rms input cols epsilon r))))"
    by simp
next
  fix r and out' :: "u16 list" assume r: "r < rows"
  have "loop cols (\<lambda>i acc. rd input (r * cols + i) \<bind> (\<lambda>x. Some (f32_add acc (f32_mul (bf16_to_float x) (bf16_to_float x))))) 0 =
      Some (sum_squares input cols r)"
    unfolding sum_squares_def by (intro loop_reduce row_index [OF r assms(1)])
  then show "loop cols (\<lambda>i acc. rd input (r * cols + i) \<bind> (\<lambda>x. Some (f32_add acc (f32_mul (bf16_to_float x) (bf16_to_float x))))) 0 \<bind>
      (\<lambda>sum_sq. loop cols (\<lambda>i output. rd input (r * cols + i) \<bind> (\<lambda>x. (case weight of
          None \<Rightarrow> Some (f32_div (bf16_to_float x) (f32_sqrt (f32_add (f32_mul sum_sq (f32_div f32_one (f32_of_int (int cols)))) epsilon)))
        | Some weight \<Rightarrow> rd weight i \<bind> (\<lambda>w. Some (f32_mul (f32_div (bf16_to_float x)
            (f32_sqrt (f32_add (f32_mul sum_sq (f32_div f32_one (f32_of_int (int cols)))) epsilon))) (bf16_to_float w))))
        \<bind> (\<lambda>y. wr output (r * cols + i) (float_to_bf16 y)))) out') =
    loop cols (\<lambda>i out'. rd input (r * cols + i) \<bind> (\<lambda>x. (case weight of
          None \<Rightarrow> Some (f32_div (bf16_to_float x) (row_rms input cols epsilon r))
        | Some weight \<Rightarrow> rd weight i \<bind> (\<lambda>w. Some (f32_mul (f32_div (bf16_to_float x) (row_rms input cols epsilon r)) (bf16_to_float w))))
      \<bind> (\<lambda>y. wr out' (r * cols + i) (float_to_bf16 y)))) out'"
    by (simp only: Option.bind.simps row_rms_def)
qed (simp add: assms(2))

lemma launch_fused_rmsnorm_matmul_cpu_eq:
  assumes "M * K \<le> length input" "K * N \<le> length weight" "length output = M * N"
  shows "launch_fused_rmsnorm_matmul_cpu input weight output M N K epsilon =
    Some (matmul_spec (rmsnorm_spec input None M K epsilon) weight M N K)"
proof -
  have "length (rmsnorm_spec input None M K epsilon) = M * K" by (simp add: rmsnorm_spec_def)
  moreover have "launch_rmsnorm_cpu input None (replicate (M * K) 0) M K epsilon = Some (rmsnorm_spec input None M K epsilon)"
    using assms(1) by (intro launch_rmsnorm_cpu_eq) simp_all
  ultimately show ?thesis using assms by (simp add: launch_fused_rmsnorm_matmul_cpu_def launch_matmul_cpu_eq)
qed

lemma launch_fused_matmul_bias_gelu_cpu_eq:
  assumes "M * K \<le> length a" "K * N \<le> length b" "N \<le> length bias" "length output = M * N"
  shows "launch_fused_matmul_bias_gelu_cpu lm a b bias output M N K =
    Some (tabulate M N (\<lambda>i j. gelu_cpu lm (add_bf16 (float_to_bf16 (dot a b N K i j)) (bias ! j))))"
proof -
  let ?mm = "matmul_spec a b M N K"
  have "loop M (\<lambda>i. loop N (\<lambda>j mm. rd mm (i * N + j) \<bind> (\<lambda>x. rd bias j \<bind> (\<lambda>y. wr mm (i * N + j) (add_bf16 x y))))) ?mm =
      Some (tabulate M N (\<lambda>i j. add_bf16 (float_to_bf16 (dot a b N K i j)) (bias ! j)))"
  proof (rule loop_rows_full)
    fix i j mm' assume ij: "i < M" "j < N" and l: "length mm' = length ?mm" and d: "drop (i * N + j) mm' = drop (i * N + j) ?mm"
    have lt: "i * N + j < length mm'" using row_index [OF ij(1) _ ij(2), of mm'] l by (simp add: matmul_spec_def)
    have "mm' ! (i * N + j) = hd (drop (i * N + j) mm')" using lt by (simp add: hd_drop_conv_nth)
    also have "\<dots> = ?mm ! (i * N + j)" using lt l unfolding d by (simp add: hd_drop_conv_nth)
    also have "\<dots> = float_to_bf16 (dot a b N K i j)" using ij by (simp add: matmul_spec_def nth_tabulate)
    finally show "rd mm' (i * N + j) \<bind> (\<lambda>x. rd bias j \<bind> (\<lambda>y. wr mm' (i * N + j) (add_bf16 x y))) =
        wr mm' (i * N + j) (add_bf16 (float_to_bf16 (dot a b N K i j)) (bias ! j))"
      using lt ij assms(3) by simp
  qed (simp add: matmul_spec_def)
  moreover have "map (gelu_cpu lm) (take (M * N) (tabulate M N f)) = tabulate M N (\<lambda>i j. gelu_cpu lm (f i j))" for f
    by (simp add: tabulate_div_mod)
  ultimately show ?thesis
    using assms by (simp add: launch_fused_matmul_bias_gelu_cpu_def launch_matmul_cpu_eq launch_gelu_cpu_eq)
qed

lemma launch_softmax_cpu_eq:
  assumes "rows * cols \<le> length input" "length output = rows * cols" "0 < cols"
  shows "launch_softmax_cpu lm input output rows cols = Some (softmax_spec lm input rows cols)"
  unfolding launch_softmax_cpu_def softmax_spec_def Let_def
proof (rule loop_rows_general)
  fix r and out' :: "u16 list" assume r: "r < rows"
  note idx = row_index [OF r assms(1)]
  have x0: "rd input (r * cols) = Some (input ! (r * cols))" using idx [of 0] assms(3) by simp
  have mx: "loop (cols - 1) (\<lambda>i m. rd input (r * cols + Suc i) \<bind> (\<lambda>x. Some (std_max m (bf16_to_float x))))
      (bf16_to_float (input ! (r * cols))) = Some (row_max input cols r)"
    unfolding row_max_def by (intro loop_reduce idx) simp
  have sm: "loop cols (\<lambda>i s. rd input (r * cols + i) \<bind> (\<lambda>x. Some (f32_add s (expf lm (f32_sub (bf16_to_float x) (row_max input cols r))))))
      0 = Some (foldl (\<lambda>s i. f32_add s (softmax_term lm input cols r i)) 0 [0..<cols])"
    unfolding softmax_term_def by (intro loop_reduce idx)
  show "rd input (r * cols) \<bind> (\<lambda>x0. loop (cols - 1) (\<lambda>i row_max. rd input (r * cols + Suc i) \<bind> (\<lambda>x. Some (std_max row_max (bf16_to_float x))))
      (bf16_to_float x0) \<bind> (\<lambda>row_max. loop cols (\<lambda>i sum. rd input (r * cols + i) \<bind> (\<lambda>x. Some (f32_add sum (expf lm (f32_sub (bf16_to_float x) row_max)))))
      0 \<bind> (\<lambda>sum. loop cols (\<lambda>i output. rd input (r * cols + i) \<bind>
        (\<lambda>x. wr output (r * cols + i) (float_to_bf16 (f32_mul (expf lm (f32_sub (bf16_to_float x) row_max)) (f32_div f32_one sum))))) out'))) =
    loop cols (\<lambda>i output. rd input (r * cols + i) \<bind>
        (\<lambda>x. wr output (r * cols + i) (float_to_bf16 (f32_mul (expf lm (f32_sub (bf16_to_float x) (row_max input cols r)))
          (f32_div f32_one (foldl (\<lambda>s i. f32_add s (softmax_term lm input cols r i)) 0 [0..<cols])))))) out'"
    unfolding x0 Option.bind.simps mx sm ..
next
  fix r i and out' :: "u16 list" assume "r < rows" "i < cols"
  then show "rd input (r * cols + i) \<bind>
        (\<lambda>x. wr out' (r * cols + i) (float_to_bf16 (f32_mul (expf lm (f32_sub (bf16_to_float x) (row_max input cols r)))
          (f32_div f32_one (foldl (\<lambda>s i. f32_add s (softmax_term lm input cols r i)) 0 [0..<cols]))))) =
      wr out' (r * cols + i) (float_to_bf16 (f32_mul (softmax_term lm input cols r i)
        (f32_div f32_one (foldl (\<lambda>s i. f32_add s (softmax_term lm input cols r i)) 0 [0..<cols]))))"
    using row_index [OF _ assms(1)] by (simp add: softmax_term_def)
qed (simp add: assms(2))

end
