(* ===== verification/Drivers.thy ===== *)
theory Drivers
  imports CpuRef Npy
begin

text \<open>
  The \<open>main\<close> functions of the CPU reference executables (\<open>cpu_ref_*.cpp\<close>): argument parsing, the
  checks of the shapes, the call of the kernel and the output file. A run either stops (with the
  usage text and exit code 2, with a diagnostic or a caught exception and exit code 1, with an
  exception that leaves \<open>main\<close>, or with undefined behaviour) or ends with exit code 0 and the new
  contents of the files. \<open>argv\<close> includes the program name; memory is taken to be available.
\<close>

datatype stop = Usage | Reject string | Caught npy_error | Uncaught | Undefined

fun attempt :: "npy_error + 'a \<Rightarrow> stop + 'a" where
  "attempt (Inl SignedOverflow) = Inl Undefined"
| "attempt (Inl e) = Inl (Caught e)"
| "attempt (Inr x) = Inr x"

fun defined :: "'a option \<Rightarrow> stop + 'a" where
  "defined None = Inl Undefined"
| "defined (Some x) = Inr x"

fun exit_code :: "stop + 'a \<Rightarrow> int option" where
  "exit_code (Inl Usage) = Some 2"
| "exit_code (Inl (Reject m)) = Some 1"
| "exit_code (Inl (Caught e)) = Some 1"
| "exit_code (Inl Uncaught) = None"
| "exit_code (Inl Undefined) = None"
| "exit_code (Inr x) = Some 0"

type_synonym files = "string \<Rightarrow> string option"

definition npy_size :: "npy_array \<Rightarrow> stop + int" where
  "npy_size a = defined (npy_product (npy_shape a))"

definition quotient :: "int \<Rightarrow> int \<Rightarrow> stop + int" where
  "quotient n k = (if k = 0 then Inl Undefined else Inr (cquot n k))"

text \<open>\<open>std::vector<uint16_t> v (static_cast<size_t>(n))\<close>\<close>

definition alloc :: "int \<Rightarrow> stop + u16 list" where
  "alloc n = (if 2 ^ 62 \<le> n mod 2 ^ 64 then Inl (Caught LengthError) else Inr (replicate (nat (n mod 2 ^ 64)) 0))"

definition load :: "files \<Rightarrow> string \<Rightarrow> stop + npy_array" where
  "load files path = attempt (read_npy_bf16 files path)"

definition store :: "(string \<Rightarrow> bool) \<Rightarrow> string \<Rightarrow> int list \<Rightarrow> u16 list \<Rightarrow> files \<Rightarrow> stop + files" where
  "store can_open path sh data files = attempt (write_npy_bf16 can_open path sh data files)"

section \<open>Matrix product\<close>

definition main_matmul :: "(string \<Rightarrow> bool) \<Rightarrow> files \<Rightarrow> string list \<Rightarrow> stop + files" where
  "main_matmul can_open files argv =
     (if length argv \<noteq> 4 then Inl Usage
      else
        rbind (load files (argv ! 1)) (\<lambda>a.
        rbind (load files (argv ! 2)) (\<lambda>b.
        if length (npy_shape a) < 2 then Inl (Reject ''matmul needs A of rank >= 2'')
        else if length (npy_shape b) \<noteq> 2 then Inl (Reject ''matmul needs B of rank 2'')
        else let K = last (npy_shape a) in
        rbind (npy_size a) (\<lambda>size.
        rbind (quotient size K) (\<lambda>M.
        let Kb = npy_shape b ! 0; N = npy_shape b ! 1 in
        if K \<noteq> Kb then Inl (Reject ''matmul contraction mismatch'')
        else
          rbind (alloc (M * N)) (\<lambda>c.
          rbind (defined (launch_matmul_cpu (npy_data a) (npy_data b) c (nat M) (nat N) (nat K))) (\<lambda>c.
          store can_open (argv ! 3) (butlast (npy_shape a) @ [N]) c files)))))))"

section \<open>RMSNorm\<close>

definition kDefaultEpsilon :: u32 where "kDefaultEpsilon = f32_lit 1 100000"

fun rmsnorm_options :: "libm \<Rightarrow> string list \<Rightarrow> string \<Rightarrow> u32 \<Rightarrow> stop + string \<times> u32" where
  "rmsnorm_options lm [] weight_path epsilon = Inr (weight_path, epsilon)"
| "rmsnorm_options lm (arg # rest) weight_path epsilon =
     (if arg = ''--weight'' \<and> rest \<noteq> [] then rmsnorm_options lm (tl rest) (hd rest) epsilon
      else if arg = ''--epsilon'' \<and> rest \<noteq> [] then
        (case stof lm (hd rest) of
           None \<Rightarrow> Inl Uncaught
         | Some e \<Rightarrow> rmsnorm_options lm (tl rest) weight_path e)
      else Inl Usage)"

definition load_weight :: "files \<Rightarrow> string \<Rightarrow> int \<Rightarrow> stop + u16 list option" where
  "load_weight files weight_path cols =
     (if weight_path = [] then Inr None
      else rbind (load files weight_path) (\<lambda>w.
           rbind (npy_size w) (\<lambda>size.
           if size \<noteq> cols then Inl (Reject ''weight length != last input dim'') else Inr (Some (npy_data w)))))"

definition main_rmsnorm :: "libm \<Rightarrow> (string \<Rightarrow> bool) \<Rightarrow> files \<Rightarrow> string list \<Rightarrow> stop + files" where
  "main_rmsnorm lm can_open files argv =
     (if length argv < 3 then Inl Usage
      else
        rbind (rmsnorm_options lm (drop 3 argv) [] kDefaultEpsilon) (\<lambda>(weight_path, epsilon).
        rbind (load files (argv ! 1)) (\<lambda>input.
        if npy_shape input = [] then Inl (Reject ''rmsnorm needs a non-scalar input tensor'')
        else let cols = last (npy_shape input) in
        rbind (npy_size input) (\<lambda>size.
        rbind (quotient size cols) (\<lambda>rows.
        rbind (load_weight files weight_path cols) (\<lambda>weight.
        rbind (defined (launch_rmsnorm_cpu (npy_data input) weight (replicate (length (npy_data input)) 0)
            (nat rows) (nat cols) epsilon)) (\<lambda>output.
        store can_open (argv ! 2) (npy_shape input) output files)))))))"

section \<open>Softmax\<close>

definition is_space :: "char \<Rightarrow> bool" where
  "is_space c \<longleftrightarrow> c = CHR '' '' \<or> (9 \<le> (of_char c :: nat) \<and> (of_char c :: nat) \<le> 13)"

text \<open>\<open>std::stoll\<close> reads white space, a sign and as many digits as there are.\<close>

definition stoll :: "string \<Rightarrow> int option" where
  "stoll s =
     (let s = dropWhile is_space s;
          (neg, body) = (case s of [] \<Rightarrow> (False, [])
            | c # cs \<Rightarrow> if c = CHR ''-'' then (True, cs) else if c = CHR ''+'' then (False, cs) else (False, s));
          ds = takeWhile is_digit body;
          v = (if neg then - int (digits_val ds) else int (digits_val ds))
      in if ds = [] \<or> \<not> in_i64 v then None else Some v)"

fun softmax_options :: "string list \<Rightarrow> int \<Rightarrow> stop + int" where
  "softmax_options [] axis = Inr axis"
| "softmax_options (arg # rest) axis =
     (if arg = ''--axis'' \<and> rest \<noteq> [] then
        (case stoll (hd rest) of None \<Rightarrow> Inl Uncaught | Some n \<Rightarrow> softmax_options (tl rest) n)
      else Inl Usage)"

definition main_softmax :: "libm \<Rightarrow> (string \<Rightarrow> bool) \<Rightarrow> files \<Rightarrow> string list \<Rightarrow> stop + files" where
  "main_softmax lm can_open files argv =
     (if length argv < 3 then Inl Usage
      else
        rbind (softmax_options (drop 3 argv) (- 1)) (\<lambda>axis.
        rbind (load files (argv ! 1)) (\<lambda>input.
        if npy_shape input = [] then Inl (Reject ''softmax needs a non-scalar input tensor'')
        else let rank = int (length (npy_shape input)); resolved_axis = (if axis < 0 then axis + rank else axis) in
        if resolved_axis \<noteq> rank - 1 then Inl (Reject ''the Wave-2 softmax baseline reduces the last axis only'')
        else let cols = last (npy_shape input) in
        rbind (npy_size input) (\<lambda>size.
        rbind (quotient size cols) (\<lambda>rows.
        rbind (defined (launch_softmax_cpu lm (npy_data input) (replicate (length (npy_data input)) 0) (nat rows) (nat cols)))
          (\<lambda>output. store can_open (argv ! 2) (npy_shape input) output files))))))"

section \<open>Activations\<close>

definition main_gelu :: "libm \<Rightarrow> (string \<Rightarrow> bool) \<Rightarrow> files \<Rightarrow> string list \<Rightarrow> stop + files" where
  "main_gelu lm can_open files argv =
     (if length argv \<noteq> 3 then Inl Usage
      else
        rbind (load files (argv ! 1)) (\<lambda>input.
        rbind (npy_size input) (\<lambda>size.
        rbind (defined (launch_gelu_cpu lm (npy_data input) (replicate (length (npy_data input)) 0) (nat size))) (\<lambda>output.
        store can_open (argv ! 2) (npy_shape input) output files))))"

definition main_silu :: "libm \<Rightarrow> (string \<Rightarrow> bool) \<Rightarrow> files \<Rightarrow> string list \<Rightarrow> stop + files" where
  "main_silu lm can_open files argv =
     (if length argv \<noteq> 3 then Inl Usage
      else
        rbind (load files (argv ! 1)) (\<lambda>input.
        rbind (npy_size input) (\<lambda>size.
        rbind (defined (launch_silu_cpu lm (npy_data input) (replicate (length (npy_data input)) 0) (nat size))) (\<lambda>output.
        store can_open (argv ! 2) (npy_shape input) output files))))"

section \<open>Fused chains\<close>

fun epsilon_options :: "libm \<Rightarrow> string list \<Rightarrow> u32 \<Rightarrow> stop + u32" where
  "epsilon_options lm [] epsilon = Inr epsilon"
| "epsilon_options lm (arg # rest) epsilon =
     (if arg = ''--epsilon'' \<and> rest \<noteq> [] then
        (case stof lm (hd rest) of None \<Rightarrow> Inl Uncaught | Some e \<Rightarrow> epsilon_options lm (tl rest) e)
      else Inl Usage)"

definition main_fused_rmsnorm_matmul :: "libm \<Rightarrow> (string \<Rightarrow> bool) \<Rightarrow> files \<Rightarrow> string list \<Rightarrow> stop + files" where
  "main_fused_rmsnorm_matmul lm can_open files argv =
     (if length argv < 4 then Inl Usage
      else
        rbind (epsilon_options lm (drop 4 argv) kDefaultEpsilon) (\<lambda>epsilon.
        rbind (load files (argv ! 1)) (\<lambda>x.
        rbind (load files (argv ! 2)) (\<lambda>w.
        if length (npy_shape x) < 2 then Inl (Reject ''fused_rmsnorm_matmul needs x of rank >= 2'')
        else if length (npy_shape w) \<noteq> 2 then Inl (Reject ''fused_rmsnorm_matmul needs w of rank 2'')
        else let K = last (npy_shape x) in
        rbind (npy_size x) (\<lambda>size.
        rbind (quotient size K) (\<lambda>M.
        let Kw = npy_shape w ! 0; N = npy_shape w ! 1 in
        if K \<noteq> Kw then Inl (Reject ''contraction mismatch'')
        else
          rbind (alloc (M * N)) (\<lambda>out.
          rbind (defined (launch_fused_rmsnorm_matmul_cpu (npy_data x) (npy_data w) out (nat M) (nat N) (nat K) epsilon)) (\<lambda>out.
          store can_open (argv ! 3) (butlast (npy_shape x) @ [N]) out files))))))))"

definition main_fused_matmul_bias_gelu :: "libm \<Rightarrow> (string \<Rightarrow> bool) \<Rightarrow> files \<Rightarrow> string list \<Rightarrow> stop + files" where
  "main_fused_matmul_bias_gelu lm can_open files argv =
     (if length argv \<noteq> 5 then Inl Usage
      else
        rbind (load files (argv ! 1)) (\<lambda>a.
        rbind (load files (argv ! 2)) (\<lambda>b.
        rbind (load files (argv ! 3)) (\<lambda>bias.
        if length (npy_shape a) < 2 then Inl (Reject ''fused_matmul_bias_gelu needs a of rank >= 2'')
        else if length (npy_shape b) \<noteq> 2 then Inl (Reject ''fused_matmul_bias_gelu needs b of rank 2'')
        else let K = last (npy_shape a) in
        rbind (npy_size a) (\<lambda>size.
        rbind (quotient size K) (\<lambda>M.
        let Kb = npy_shape b ! 0; N = npy_shape b ! 1 in
        if K \<noteq> Kb then Inl (Reject ''contraction mismatch'')
        else rbind (npy_size bias) (\<lambda>bias_size.
        if bias_size \<noteq> N then Inl (Reject ''bias length != output columns'')
        else
          rbind (alloc (M * N)) (\<lambda>out.
          rbind (defined (launch_fused_matmul_bias_gelu_cpu lm (npy_data a) (npy_data b) (npy_data bias) out
              (nat M) (nat N) (nat K))) (\<lambda>out.
          store can_open (argv ! 4) (butlast (npy_shape a) @ [N]) out files)))))))))"

section \<open>The matrix product driver\<close>

lemma attempt_Inr: "attempt r = Inr x \<longleftrightarrow> r = Inr x"
  by (cases r rule: attempt.cases) simp_all

lemma attempt_Undefined: "attempt r = Inl Undefined \<longleftrightarrow> r = Inl SignedOverflow"
  by (cases r rule: attempt.cases) simp_all

lemma npy_product_snoc: "npy_product (sh @ [d]) =
    (case npy_product sh of None \<Rightarrow> None | Some n \<Rightarrow> if in_i64 (n * d) then Some (n * d) else None)"
  by (simp add: npy_product_def)

lemma npy_product_nonneg: "npy_product sh = Some n \<Longrightarrow> list_all (\<lambda>d. 0 \<le> d \<and> in_i64 d) sh \<Longrightarrow> 0 \<le> n"
proof (induction sh arbitrary: n rule: rev_induct)
  case (snoc d sh)
  then show ?case by (auto simp: npy_product_snoc split: option.splits if_splits)
qed (simp add: npy_product_def)

text \<open>The row count: all dimensions but the last.\<close>

lemma load_split:
  assumes "load files path = Inr a" "npy_shape a \<noteq> []"
  obtains P where "npy_product (butlast (npy_shape a)) = Some P" "0 \<le> P" "0 \<le> last (npy_shape a)"
    "int (length (npy_data a)) = P * last (npy_shape a)" "npy_size a = Inr (int (length (npy_data a)))"
proof -
  from assms(1) have r: "read_npy_bf16 files path = Inr a" by (simp add: load_def attempt_Inr)
  note s = read_npy_shape [OF r]
  have sh: "npy_shape a = butlast (npy_shape a) @ [last (npy_shape a)]" using assms(2) by simp
  from s(2) obtain P where P: "npy_product (butlast (npy_shape a)) = Some P" "int (length (npy_data a)) = P * last (npy_shape a)"
    by (subst (asm) sh) (auto simp only: npy_product_snoc split: option.splits if_splits)
  have all: "list_all (\<lambda>d. 0 \<le> d \<and> in_i64 d) (butlast (npy_shape a) @ [last (npy_shape a)])" using s(1) sh by simp
  then have "0 \<le> P" using P(1) npy_product_nonneg by simp
  with P s(2) all that show ?thesis by (simp add: npy_size_def)
qed

lemma quotient_mult: "0 \<le> P \<Longrightarrow> 0 < K \<Longrightarrow> quotient (P * K) K = Inr P"
  by (simp add: quotient_def cquot_nonneg)

lemma nat_rows: "int n = P * K \<Longrightarrow> 0 \<le> P \<Longrightarrow> 0 \<le> K \<Longrightarrow> nat P * nat K = n"
  by (simp flip: nat_mult_distrib) 

lemma load_matrix:
  assumes "load files path = Inr b" "length (npy_shape b) = 2"
  shows "length (npy_data b) = nat (npy_shape b ! 0) * nat (npy_shape b ! 1)" "0 \<le> npy_shape b ! 0" "0 \<le> npy_shape b ! 1"
proof -
  from assms(2) obtain x y where sh: "npy_shape b = [x, y]"
    by (metis (no_types) One_nat_def Suc_1 length_0_conv length_Suc_conv)
  from assms(1) have r: "read_npy_bf16 files path = Inr b" by (simp add: load_def attempt_Inr)
  note s = read_npy_shape [OF r]
  show "0 \<le> npy_shape b ! 0" "0 \<le> npy_shape b ! 1" using s(1) by (simp_all add: sh)
  show "length (npy_data b) = nat (npy_shape b ! 0) * nat (npy_shape b ! 1)"
    using s(1,2) by (auto simp: sh npy_product_def nat_mult_distrib [symmetric] split: if_splits)
qed

lemma alloc_small: "0 \<le> n \<Longrightarrow> n < 2 ^ 62 \<Longrightarrow> alloc n = Inr (replicate (nat n) 0)"
  by (simp add: alloc_def)

lemma store_ok:
  assumes "npy_product sh = Some (int (length data))" "can_open path" "list_all (\<lambda>d. 0 \<le> d \<and> in_i64 d) sh"
    "length (npy_dict sh) < 65472" "length data < 2 ^ 62"
  shows "\<exists>files'. store can_open path sh data files = Inr files' \<and>
    load files' path = Inr \<lparr>npy_shape = sh, npy_data = data\<rparr> \<and> (\<forall>p. p \<noteq> path \<longrightarrow> files' p = files p)"
proof -
  from assms(1,2) obtain bytes where w: "write_npy_bf16 can_open path sh data files = Inr (files(path \<mapsto> bytes))"
    by (auto simp: write_npy_bf16_def npy_bytes_def Let_def)
  from npy_read_back [OF assms(3-5) w] w show ?thesis
    by (intro exI [of _ "files(path \<mapsto> bytes)"]) (simp add: store_def load_def)
qed

lemma load_dims: "load files path = Inr a \<Longrightarrow> list_all (\<lambda>d. 0 \<le> d \<and> in_i64 d) (npy_shape a)"
  unfolding load_def attempt_Inr by (rule read_npy_shape(1))

text \<open>A run on matching operands up to the store of its result.\<close>

lemma main_matmul_run:
  assumes "load files a_path = Inr a" "load files b_path = Inr b" "2 \<le> length (npy_shape a)"
    and b: "npy_shape b = [K, N]" and K: "last (npy_shape a) = K" "K \<noteq> 0"
    and M: "M = length (npy_data a) div nat K"
  shows "M * nat N < 2 ^ 62 \<Longrightarrow> main_matmul can_open files [prog, a_path, b_path, c_path] =
      store can_open c_path (butlast (npy_shape a) @ [N]) (matmul_spec (npy_data a) (npy_data b) M (nat N) (nat K)) files"
    and "M * nat N < 2 ^ 62 \<Longrightarrow> npy_product (butlast (npy_shape a) @ [N]) = Some (int (M * nat N))"
    and "list_all (\<lambda>d. 0 \<le> d \<and> in_i64 d) (butlast (npy_shape a) @ [N])"
    and "2 ^ 62 \<le> M * nat N \<Longrightarrow> M * nat N < 2 ^ 64 \<Longrightarrow>
      main_matmul can_open files [prog, a_path, b_path, c_path] = Inl (Caught LengthError)"
proof -
  have "npy_shape a \<noteq> []" using assms(3) by auto
  from load_split [OF assms(1) this] obtain P where P: "npy_product (butlast (npy_shape a)) = Some P" "0 \<le> P"
    "0 \<le> K" "int (length (npy_data a)) = P * K" "npy_size a = Inr (int (length (npy_data a)))" unfolding K(1) by blast
  have K0: "0 < K" using P(3) K(2) by simp
  have rows: "nat P * nat K = length (npy_data a)" by (rule nat_rows [OF P(4,2,3)])
  then have PM: "nat P = M" using K0 unfolding M rows [symmetric] by simp
  note bm = load_matrix [OF assms(2), unfolded b, simplified]
  have PN: "P * N = int (M * nat N)" using PM P(2) bm(3) by (simp flip: PM)
  have run: "main_matmul can_open files [prog, a_path, b_path, c_path] =
      rbind (alloc (P * N)) (\<lambda>c. rbind (defined (launch_matmul_cpu (npy_data a) (npy_data b) c M (nat N) (nat K))) (\<lambda>c.
        store can_open c_path (butlast (npy_shape a) @ [N]) c files))"
    unfolding main_matmul_def
    using assms(3) by (simp add: assms(1,2) b K P(4,5) quotient_mult [OF P(2) K0] PM Let_def)
  show "list_all (\<lambda>d. 0 \<le> d \<and> in_i64 d) (butlast (npy_shape a) @ [N])"
    using load_dims [OF assms(1)] load_dims [OF assms(2)] by (auto simp: b list_all_iff dest: in_set_butlastD)
  { assume size: "M * nat N < 2 ^ 62"
    have "alloc (P * N) = Inr (replicate (M * nat N) 0)"
      unfolding PN using size by (subst alloc_small) (simp_all flip: of_nat_mult add: nat_int_add)
    moreover have "launch_matmul_cpu (npy_data a) (npy_data b) (replicate (M * nat N) 0) M (nat N) (nat K) =
        Some (matmul_spec (npy_data a) (npy_data b) M (nat N) (nat K))"
      by (rule launch_matmul_cpu_eq) (simp_all add: rows [unfolded PM] bm(1))
    ultimately show "main_matmul can_open files [prog, a_path, b_path, c_path] =
      store can_open c_path (butlast (npy_shape a) @ [N]) (matmul_spec (npy_data a) (npy_data b) M (nat N) (nat K)) files"
      by (simp add: run)
    have "in_i64 (int (M * nat N))" using size by (simp add: in_i64_def del: of_nat_mult)
    then show "npy_product (butlast (npy_shape a) @ [N]) = Some (int (M * nat N))"
      unfolding npy_product_snoc P(1) option.case PN by simp }
  { assume "2 ^ 62 \<le> M * nat N" "M * nat N < 2 ^ 64"
    then have "alloc (P * N) = Inl (Caught LengthError)" unfolding PN alloc_def by (simp del: of_nat_mult)
    then show "main_matmul can_open files [prog, a_path, b_path, c_path] = Inl (Caught LengthError)" by (simp add: run) }
qed

text \<open>C16. The matrix product driver, end to end: with readable operands of matching shapes and a
  non-zero contraction dimension it exits with code 0, and the file it leaves reads back as the
  product, in fp32 accumulation order and rounded to bf16 element by element, with the leading
  dimensions of A; no other file changes.\<close>

theorem main_matmul_correct:
  assumes "load files a_path = Inr a" "load files b_path = Inr b" "2 \<le> length (npy_shape a)"
    and "npy_shape b = [K, N]" and "last (npy_shape a) = K" "K \<noteq> 0"
    and "M = length (npy_data a) div nat K" and "M * nat N < 2 ^ 62"
    and "can_open c_path" "length (npy_dict (butlast (npy_shape a) @ [N])) < 65472"
  shows "\<exists>files'. main_matmul can_open files [prog, a_path, b_path, c_path] = Inr files' \<and>
    load files' c_path = Inr \<lparr>npy_shape = butlast (npy_shape a) @ [N],
      npy_data = matmul_spec (npy_data a) (npy_data b) M (nat N) (nat K)\<rparr> \<and>
    (\<forall>p. p \<noteq> c_path \<longrightarrow> files' p = files p)"
proof -
  note run = main_matmul_run [OF assms(1-7)]
  have len: "length (matmul_spec (npy_data a) (npy_data b) M (nat N) (nat K)) = M * nat N" by (simp add: matmul_spec_def)
  show ?thesis unfolding run(1) [OF assms(8)]
    by (rule store_ok) (simp_all only: len run(2) [OF assms(8)] run(3) assms(8-10))
qed

theorem main_matmul_correct_witness:
  "\<exists>files files'. main_matmul (\<lambda>p. True) files [''mm'', ''a'', ''b'', ''c''] = Inr files' \<and>
     load files' ''c'' = Inr \<lparr>npy_shape = [1, 1], npy_data = matmul_spec [0x3F80, 0x4000] [0x4040, 0xC000] 1 1 2\<rparr>"
proof -
  let ?a = "\<lparr>npy_shape = [1, 2], npy_data = [0x3F80, 0x4000]\<rparr>" and ?b = "\<lparr>npy_shape = [2, 1], npy_data = [0x4040, 0xC000]\<rparr>"
  note sizes = in_i64_def npy_dict_def shape_tuple_def quoted_def int_to_string_def nat_to_string.simps [of 2]
    nat_to_string.simps [of "Suc 0"] npy_product_def
  obtain f1 where f1: "load f1 ''a'' = Inr ?a"
    using store_ok [of "[1, 2]" "[0x3F80, 0x4000]" "\<lambda>p. True" "''a''" Map.empty] by (auto simp: sizes)
  obtain f2 where f2: "load f2 ''b'' = Inr ?b" "\<forall>p. p \<noteq> ''b'' \<longrightarrow> f2 p = f1 p"
    using store_ok [of "[2, 1]" "[0x4040, 0xC000]" "\<lambda>p. True" "''b''" f1] by (auto simp: sizes)
  have "load f2 ''a'' = Inr ?a" using f1 f2(2) by (simp add: load_def read_npy_bf16_def)
  from main_matmul_correct [OF this f2(1), of 2 1 1 "\<lambda>p. True" "''c''" "''mm''"]
  have "\<exists>files'. main_matmul (\<lambda>p. True) f2 [''mm'', ''a'', ''b'', ''c''] = Inr files' \<and>
     load files' ''c'' = Inr \<lparr>npy_shape = [1, 1], npy_data = matmul_spec [0x3F80, 0x4000] [0x4040, 0xC000] 1 1 2\<rparr>"
    by (auto simp: sizes)
  then show ?thesis by blast
qed

text \<open>The driver has no undefined behaviour but in three cases: a shape whose product of dimensions
  leaves \<open>int64_t\<close>, a contraction dimension of zero (an integer division by zero), and a result of
  \<open>2 ^ 64\<close> elements or more; every other run, on whatever files, ends with an exit code.\<close>

theorem main_matmul_undefined:
  assumes "main_matmul can_open files [prog, a_path, b_path, c_path] = Inl Undefined"
  shows "read_npy_bf16 files a_path = Inl SignedOverflow \<or> read_npy_bf16 files b_path = Inl SignedOverflow \<or>
    (\<exists>a b. load files a_path = Inr a \<and> load files b_path = Inr b \<and>
      (last (npy_shape a) = 0 \<or> 2 ^ 64 \<le> length (npy_data a) div nat (last (npy_shape a)) * nat (npy_shape b ! 1)))"
proof (cases "load files a_path"; cases "load files b_path")
  fix a b assume l: "load files a_path = Inr a" "load files b_path = Inr b"
  define K N M where "K = last (npy_shape a)" and "N = npy_shape b ! 1" and "M = length (npy_data a) div nat K"
  show ?thesis
  proof (rule ccontr)
    assume "\<not> ?thesis"
    with l have K: "K \<noteq> 0" and small: "M * nat N < 2 ^ 64" by (auto simp: K_def N_def M_def not_le)
    have r: "\<not> length (npy_shape a) < 2" "\<not> length (npy_shape b) \<noteq> 2"
      using assms by (simp_all add: main_matmul_def l split: if_splits)
    then have "npy_shape a \<noteq> []" by auto
    from load_split [OF l(1) this] obtain P where "0 \<le> P" "0 \<le> K" "int (length (npy_data a)) = P * K"
      "npy_size a = Inr (int (length (npy_data a)))" unfolding K_def by blast
    then have "npy_shape b ! 0 = K"
      using assms r K quotient_mult [of P K] by (auto simp: main_matmul_def l Let_def K_def split: if_splits)
    then have b: "npy_shape b = [K, N]" using r(2) N_def
      by (metis (no_types) One_nat_def Suc_1 length_0_conv length_Suc_conv nth_Cons_0 nth_Cons_Suc)
    note run = main_matmul_run [OF l _ b K_def [symmetric] K M_def]
    have ra: "2 \<le> length (npy_shape a)" using r(1) by simp
    show False
    proof (cases "M * nat N < 2 ^ 62")
      case True
      have "length (matmul_spec (npy_data a) (npy_data b) M (nat N) (nat K)) = M * nat N" by (simp add: matmul_spec_def)
      then have "store can_open c_path (butlast (npy_shape a) @ [N]) (matmul_spec (npy_data a) (npy_data b) M (nat N) (nat K)) files
          \<noteq> Inl Undefined"
        using run(2) [OF ra True] unfolding store_def attempt_Undefined
        by (simp add: write_npy_bf16_def npy_bytes_def Let_def)
      then show False using assms run(1) [OF ra True] by simp
    next
      case False
      then show False using assms run(4) [OF ra] small by (simp add: not_less)
    qed
  qed
qed (use assms in \<open>auto simp: main_matmul_def load_def attempt_Undefined\<close>)

theorem main_matmul_undefined_witness:
  "\<exists>files. main_matmul (\<lambda>p. True) files [''mm'', ''a'', ''a'', ''c''] = Inl Undefined \<and>
    (read_npy_bf16 files ''a'' = Inl SignedOverflow \<or> (\<exists>a. load files ''a'' = Inr a))"
proof -
  obtain f1 where f1: "load f1 ''a'' = Inr \<lparr>npy_shape = [0, 0], npy_data = []\<rparr>"
    using store_ok [of "[0, 0]" "[]" "\<lambda>p. True" "''a''" Map.empty]
    by (auto simp: in_i64_def npy_dict_def shape_tuple_def quoted_def int_to_string_def nat_to_string.simps [of 0] npy_product_def)
  have u: "main_matmul (\<lambda>p. True) f1 [''mm'', ''a'', ''a'', ''c''] = Inl Undefined"
    by (simp add: main_matmul_def f1 npy_size_def npy_product_def in_i64_def quotient_def)
  show ?thesis using main_matmul_undefined [OF u] u by blast
qed

text \<open>An option value that \<open>std::stof\<close> or \<open>std::stoll\<close> rejects: the loop over the options stands before
  the \<open>try\<close> block, so the exception leaves \<open>main\<close>.\<close>

lemma bad_option_uncaught:
  "stof lm v = None \<Longrightarrow> main_rmsnorm lm can_open files [prog, i, o', ''--epsilon'', v] = Inl Uncaught"
  "main_softmax lm can_open files [prog, i, o', ''--axis'', ''last''] = Inl Uncaught"
  by (simp_all add: main_rmsnorm_def main_softmax_def stoll_def is_space_def is_digit_def Let_def)

text \<open>An empty last dimension divides by zero.\<close>

lemma empty_last_dim_undefined:
  assumes "load files i = Inr a" "npy_shape a = [n, 0]" "0 \<le> n" "in_i64 n"
  shows "main_rmsnorm lm can_open files [prog, i, o'] = Inl Undefined"
    and "main_softmax lm can_open files [prog, i, o'] = Inl Undefined"
  using assms by (simp_all add: main_rmsnorm_def main_softmax_def npy_size_def npy_product_def in_i64_def quotient_def)

end
