(* ===== verification/Attention.thy ===== *)
theory Attention
  imports Drivers
begin

text \<open>
  The CPU reference of the attention operations (\<open>attention.cpp\<close>): the append of a KV cache and
  scaled dot-product attention with a causal mask. The dimensions come from the files; an axis that
  is missing counts as \<open>-1\<close>, as in the source.
\<close>

definition dim :: "npy_array \<Rightarrow> nat \<Rightarrow> int" where
  "dim a axis = (if axis < length (npy_shape a) then npy_shape a ! axis else - 1)"

text \<open>A product or sum of \<open>int64_t\<close> values.\<close>

definition i64 :: "int \<Rightarrow> stop + int" where
  "i64 n = (if in_i64 n then Inr n else Inl Undefined)"

section \<open>Cache append\<close>

definition append_loops :: "u16 list \<Rightarrow> u16 list \<Rightarrow> u16 list \<Rightarrow> nat \<Rightarrow> nat \<Rightarrow> nat \<Rightarrow> nat \<Rightarrow> u16 list option" where
  "append_loops cache new out BH Sc Sn D =
     loop BH (\<lambda>bh out. do {
         out \<leftarrow> loop Sc (\<lambda>s. loop D (\<lambda>d out. do {
             x \<leftarrow> rd cache (bh * Sc * D + (s * D + d));
             wr out (bh * (Sc + Sn) * D + (s * D + d)) x
           })) out;
         loop Sn (\<lambda>s. loop D (\<lambda>d out. do {
             x \<leftarrow> rd new (bh * Sn * D + (s * D + d));
             wr out (bh * (Sc + Sn) * D + ((Sc + s) * D + d)) x
           })) out
       }) out"

definition run_append :: "(string \<Rightarrow> bool) \<Rightarrow> files \<Rightarrow> string list \<Rightarrow> stop + files" where
  "run_append can_open files argv =
     (if length argv \<noteq> 5 then Inl Usage
      else
        rbind (load files (argv ! 2)) (\<lambda>cache.
        rbind (load files (argv ! 3)) (\<lambda>new.
        let B = dim cache 0; H = dim cache 1; Sc = dim cache 2; D = dim cache 3; Sn = dim new 2 in
        if B < 0 \<or> dim new 0 \<noteq> B \<or> dim new 1 \<noteq> H \<or> dim new 3 \<noteq> D then Inl (Reject ''append: cache/new shape mismatch'')
        else
          rbind (i64 (B * H)) (\<lambda>BH.
          rbind (i64 (Sc + Sn)) (\<lambda>S.
          rbind (i64 (BH * S)) (\<lambda>BHS.
          rbind (i64 (BHS * D)) (\<lambda>n.
          rbind (alloc n) (\<lambda>out.
          rbind (defined (append_loops (npy_data cache) (npy_data new) out (nat BH) (nat Sc) (nat Sn) (nat D))) (\<lambda>out.
          store can_open (argv ! 4) [B, H, S, D] out files)))))))))"

section \<open>Attention\<close>

definition neg_inf :: u32 where "neg_inf = 0xFF800000"

text \<open>The scores of one query row and their maximum, the weights and their sum, the weighted sums.\<close>

definition score_loop ::
    "u16 list \<Rightarrow> u16 list \<Rightarrow> nat \<Rightarrow> nat \<Rightarrow> nat \<Rightarrow> nat \<Rightarrow> int \<Rightarrow> u32 \<Rightarrow> u32 list \<Rightarrow> (u32 \<times> u32 list) option" where
  "score_loop q k qb kb Skv D limit scale score =
     loop Skv (\<lambda>j (m, score).
       if int j > limit then do { score \<leftarrow> wr score j neg_inf; Some (m, score) }
       else do {
         dot \<leftarrow> loop D (\<lambda>d dot. do {
             x \<leftarrow> rd q (qb + d);
             y \<leftarrow> rd k (kb + j * D + d);
             Some (f32_add dot (f32_mul (bf16_to_float x) (bf16_to_float y)))
           }) 0;
         score \<leftarrow> wr score j (f32_mul dot scale);
         s \<leftarrow> rd score j;
         Some (std_max m s, score)
       }) (neg_inf, score)"

definition weight_loop :: "libm \<Rightarrow> nat \<Rightarrow> u32 \<Rightarrow> u32 list \<Rightarrow> (u32 \<times> u32 list) option" where
  "weight_loop lm Skv m score =
     loop Skv (\<lambda>j (sum, score). do {
         s \<leftarrow> rd score j;
         score \<leftarrow> wr score j (expf lm (f32_sub s m));
         w \<leftarrow> rd score j;
         Some (f32_add sum w, score)
       }) (0, score)"

definition value_loop :: "u16 list \<Rightarrow> nat \<Rightarrow> nat \<Rightarrow> nat \<Rightarrow> u32 \<Rightarrow> u32 list \<Rightarrow> nat \<Rightarrow> u16 list \<Rightarrow> u16 list option" where
  "value_loop v vb Skv D inv_sum score ob out =
     loop D (\<lambda>d out. do {
         acc \<leftarrow> loop Skv (\<lambda>j acc. do {
             w \<leftarrow> rd score j;
             x \<leftarrow> rd v (vb + j * D + d);
             Some (f32_add acc (f32_mul w (bf16_to_float x)))
           }) 0;
         wr out (ob + d) (float_to_bf16 (f32_mul acc inv_sum))
       }) out"

definition prefill_loops :: "libm \<Rightarrow> u16 list \<Rightarrow> u16 list \<Rightarrow> u16 list \<Rightarrow> bool \<Rightarrow> nat \<Rightarrow> nat \<Rightarrow> nat \<Rightarrow> nat \<Rightarrow> u32 \<Rightarrow>
    u16 list \<times> u32 list \<Rightarrow> (u16 list \<times> u32 list) option" where
  "prefill_loops lm q k v causal BH Sq Skv D scale =
     loop BH (\<lambda>bh. loop Sq (\<lambda>i (out, score). do {
         let limit = (if causal then int Skv - int Sq + int i else int Skv - 1);
         (m, score) \<leftarrow> score_loop q k ((bh * Sq + i) * D) (bh * Skv * D) Skv D limit scale score;
         (sum, score) \<leftarrow> weight_loop lm Skv m score;
         let inv_sum = f32_div f32_one sum;
         out \<leftarrow> value_loop v (bh * Skv * D) Skv D inv_sum score ((bh * Sq + i) * D) out;
         Some (out, score)
       }))"

definition stoi :: "string \<Rightarrow> int option" where
  "stoi s = (case stoll s of None \<Rightarrow> None | Some v \<Rightarrow> if in_i32 v then Some v else None)"

fun causal_options :: "string list \<Rightarrow> int \<Rightarrow> stop + int" where
  "causal_options [] causal = Inr causal"
| "causal_options (a # rest) causal =
     (if a = ''--causal'' \<and> rest \<noteq> [] then
        (case stoi (hd rest) of
           None \<Rightarrow> Inl (Caught (NpyError ''stoi''))
         | Some n \<Rightarrow> causal_options (tl rest) n)
      else Inl Usage)"

definition run_prefill :: "libm \<Rightarrow> (string \<Rightarrow> bool) \<Rightarrow> files \<Rightarrow> string list \<Rightarrow> stop + files" where
  "run_prefill lm can_open files argv =
     (if length argv < 6 then Inl Usage
      else
        rbind (causal_options (drop 6 argv) 1) (\<lambda>causal.
        rbind (load files (argv ! 2)) (\<lambda>Q.
        rbind (load files (argv ! 3)) (\<lambda>K.
        rbind (load files (argv ! 4)) (\<lambda>V.
        let B = dim Q 0; H = dim Q 1; Sq = dim Q 2; D = dim Q 3; Skv = dim K 2 in
        if B < 0 \<or> dim K 0 \<noteq> B \<or> dim K 1 \<noteq> H \<or> dim K 3 \<noteq> D \<or>
           dim V 0 \<noteq> B \<or> dim V 1 \<noteq> H \<or> dim V 2 \<noteq> Skv \<or> dim V 3 \<noteq> D
        then Inl (Reject ''prefill: Q/K/V shape mismatch'')
        else let scale = f32_div f32_one (f32_sqrt (f32_of_int D)) in
          rbind (i64 (B * H)) (\<lambda>BH.
          rbind (i64 (BH * Sq)) (\<lambda>BHS.
          rbind (i64 (BHS * D)) (\<lambda>n.
          rbind (alloc n) (\<lambda>out.
          if Skv < 0 \<or> 2 ^ 61 \<le> Skv then Inl (Caught LengthError)
          else
            rbind (defined (prefill_loops lm (npy_data Q) (npy_data K) (npy_data V) (causal \<noteq> 0)
              (nat BH) (nat Sq) (nat Skv) (nat D) scale (out, replicate (nat Skv) 0))) (\<lambda>(out, score).
            store can_open (argv ! 5) [B, H, Sq, D] out files))))))))))"

definition main_attention :: "libm \<Rightarrow> (string \<Rightarrow> bool) \<Rightarrow> files \<Rightarrow> string list \<Rightarrow> stop + files" where
  "main_attention lm can_open files argv =
     (if length argv < 2 then Inl Usage
      else if argv ! 1 = ''prefill'' then run_prefill lm can_open files argv
      else if argv ! 1 = ''append'' then run_append can_open files argv
      else Inl Usage)"

section \<open>What append computes\<close>

definition append_spec :: "u16 list \<Rightarrow> u16 list \<Rightarrow> nat \<Rightarrow> nat \<Rightarrow> nat \<Rightarrow> nat \<Rightarrow> u16 list" where
  "append_spec cache new BH Sc Sn D =
     concat (map (\<lambda>bh. take (Sc * D) (drop (bh * (Sc * D)) cache) @ take (Sn * D) (drop (bh * (Sn * D)) new)) [0..<BH])"

lemma block_bound: "i < m \<Longrightarrow> m * n \<le> l \<Longrightarrow> i * n + n \<le> (l :: nat)"
  by (metis Suc_leI add.commute le_trans mult_Suc mult_le_mono1)

lemma splice_twice:
  assumes "n = p + q" "x + n \<le> length out" "length a = p" "length b = q"
  shows "take (x + p) (take x out @ a @ drop (x + p) out) @ b @ drop (x + p + q) (take x out @ a @ drop (x + p) out) =
    take x out @ (a @ b) @ drop (x + n) out"
  using assms by (simp add: ac_simps)

lemma nat_cache_size:
  "0 \<le> bh \<Longrightarrow> 0 \<le> Sc \<Longrightarrow> 0 \<le> Sn \<Longrightarrow> nat (bh * (Sc + Sn) * D) = nat bh * ((nat Sc + nat Sn) * nat D)"
  by (simp add: nat_mult_distrib nat_add_distrib mult.assoc)

lemma append_loops_eq:
  assumes "length cache = BH * (Sc * D)" "length new = BH * (Sn * D)" "length out = BH * ((Sc + Sn) * D)"
  shows "append_loops cache new out BH Sc Sn D = Some (append_spec cache new BH Sc Sn D)"
proof -
  let ?n = "(Sc + Sn) * D"
  let ?block = "\<lambda>bh. take (Sc * D) (drop (bh * (Sc * D)) cache) @ take (Sn * D) (drop (bh * (Sn * D)) new)"
  have n: "?n = Sc * D + Sn * D" by (simp add: distrib_right)
  have "append_loops cache new out BH Sc Sn D = Some (concat (map ?block [0..<BH]) @ drop (BH * ?n) out)"
    unfolding append_loops_def
  proof (rule loop_blocks)
    fix bh assume bh: "bh < BH"
    have c: "bh * (Sc * D) + Sc * D \<le> length cache" "bh * (Sn * D) + Sn * D \<le> length new"
      using block_bound [OF bh] assms(1,2) by simp_all
    then show "length (?block bh) = ?n" by (simp add: n)
    fix out' :: "u16 list" assume "length out' = length out"
    then have o: "bh * ?n + ?n \<le> length out'" using block_bound [OF bh] assms(3) by simp
    let ?o = "take (bh * ?n) out' @ take (Sc * D) (drop (bh * (Sc * D)) cache) @ drop (bh * ?n + Sc * D) out'"
    have 1: "loop Sc (\<lambda>s. loop D (\<lambda>d out. rd cache (bh * Sc * D + (s * D + d)) \<bind> (\<lambda>x. wr out (bh * (Sc + Sn) * D + (s * D + d)) x))) out' = Some ?o"
      unfolding mult.assoc loop_nested [where f = "\<lambda>p out. rd cache (bh * (Sc * D) + p) \<bind> (\<lambda>x. wr out (bh * ((Sc + Sn) * D) + p) x)"]
      by (rule copy_block) (use c o n in simp_all)
    have 2: "loop Sn (\<lambda>s. loop D (\<lambda>d out. rd new (bh * Sn * D + (s * D + d)) \<bind> (\<lambda>x. wr out (bh * (Sc + Sn) * D + ((Sc + s) * D + d)) x))) ?o =
        Some (take (bh * ?n + Sc * D) ?o @ take (Sn * D) (drop (bh * (Sn * D)) new) @ drop (bh * ?n + Sc * D + Sn * D) ?o)"
    proof -
      have "bh * (Sc + Sn) * D + ((Sc + s) * D + d) = bh * ?n + Sc * D + (s * D + d)"
        "bh * Sn * D + (s * D + d) = bh * (Sn * D) + (s * D + d)" for s d by (simp_all add: algebra_simps)
      then show ?thesis
        by (simp only: loop_nested [where f = "\<lambda>p out. rd new (bh * (Sn * D) + p) \<bind> (\<lambda>x. wr out (bh * ?n + Sc * D + p) x)"])
          (rule copy_block, use c o n in simp_all)
    qed
    have "loop Sc (\<lambda>s. loop D (\<lambda>d out. rd cache (bh * Sc * D + (s * D + d)) \<bind> (\<lambda>x. wr out (bh * (Sc + Sn) * D + (s * D + d)) x))) out' \<bind>
        loop Sn (\<lambda>s. loop D (\<lambda>d out. rd new (bh * Sn * D + (s * D + d)) \<bind> (\<lambda>x. wr out (bh * (Sc + Sn) * D + ((Sc + s) * D + d)) x))) =
        Some (take (bh * ?n + Sc * D) ?o @ take (Sn * D) (drop (bh * (Sn * D)) new) @ drop (bh * ?n + Sc * D + Sn * D) ?o)"
      unfolding 1 Option.bind.simps 2 ..
    also have "take (bh * ?n + Sc * D) ?o @ take (Sn * D) (drop (bh * (Sn * D)) new) @ drop (bh * ?n + Sc * D + Sn * D) ?o =
        take (bh * ?n) out' @ ?block bh @ drop (bh * ?n + ?n) out'"
      by (rule splice_twice [OF n]) (use c o in simp_all)
    finally show "loop Sc (\<lambda>s. loop D (\<lambda>d out. rd cache (bh * Sc * D + (s * D + d)) \<bind> (\<lambda>x. wr out (bh * (Sc + Sn) * D + (s * D + d)) x))) out' \<bind>
        (\<lambda>out. loop Sn (\<lambda>s. loop D (\<lambda>d out. rd new (bh * Sn * D + (s * D + d)) \<bind> (\<lambda>x. wr out (bh * (Sc + Sn) * D + ((Sc + s) * D + d)) x))) out) =
        Some (take (bh * ?n) out' @ ?block bh @ drop (bh * ?n + ?n) out')"
      by simp
  qed (simp add: assms(3))
  then show ?thesis by (simp add: append_spec_def assms(3))
qed

lemma length_append_spec:
  assumes "length cache = BH * (Sc * D)" "length new = BH * (Sn * D)"
  shows "length (append_spec cache new BH Sc Sn D) = BH * ((Sc + Sn) * D)"
  unfolding append_spec_def
proof (rule length_blocks)
  fix i assume "i < BH"
  then have "i * (Sc * D) + Sc * D \<le> length cache" "i * (Sn * D) + Sn * D \<le> length new"
    using block_bound assms by simp_all
  then show "length (take (Sc * D) (drop (i * (Sc * D)) cache) @ take (Sn * D) (drop (i * (Sn * D)) new)) = (Sc + Sn) * D"
    by (simp add: distrib_right)
qed

lemma nth_append_spec:
  assumes "length cache = BH * (Sc * D)" "length new = BH * (Sn * D)" "bh < BH" "s < Sc + Sn" "d < D"
  shows "append_spec cache new BH Sc Sn D ! ((bh * (Sc + Sn) + s) * D + d) =
    (if s < Sc then cache ! ((bh * Sc + s) * D + d) else new ! ((bh * Sn + (s - Sc)) * D + d))"
proof -
  let ?block = "\<lambda>bh. take (Sc * D) (drop (bh * (Sc * D)) cache) @ take (Sn * D) (drop (bh * (Sn * D)) new)"
  have b: "i * (Sc * D) + Sc * D \<le> length cache" "i * (Sn * D) + Sn * D \<le> length new" if "i < BH" for i
    using block_bound [OF that] assms(1,2) by simp_all
  have p: "s * D + d < (Sc + Sn) * D" using index_lt [OF assms(5,4)] by (simp add: mult.commute)
  have "(bh * (Sc + Sn) + s) * D + d = bh * ((Sc + Sn) * D) + (s * D + d)" by (simp add: algebra_simps)
  moreover have "append_spec cache new BH Sc Sn D ! (bh * ((Sc + Sn) * D) + (s * D + d)) = ?block bh ! (s * D + d)"
    unfolding append_spec_def
  proof (rule nth_blocks)
    fix i assume "i < BH"
    from b [OF this] show "length (?block i) = (Sc + Sn) * D" by (simp add: distrib_right)
  qed (use assms(3) p in simp_all)
  moreover have "?block bh ! (s * D + d) =
      (if s < Sc then cache ! ((bh * Sc + s) * D + d) else new ! ((bh * Sn + (s - Sc)) * D + d))"
  proof (cases "s < Sc")
    case True
    then have "s * D + d < Sc * D" using index_lt [OF assms(5) True] by (simp add: mult.commute)
    with True b(1) [OF assms(3)] show ?thesis by (simp add: nth_append algebra_simps)
  next
    case False
    then obtain t where t: "s = Sc + t" by (metis le_Suc_ex not_le)
    then have "t * D + d < Sn * D" using index_lt [OF assms(5), of t Sn] assms(4) by (simp add: mult.commute)
    with t b [OF assms(3)] show ?thesis by (simp add: nth_append algebra_simps)
  qed
  ultimately show ?thesis by (simp only:)
qed

lemma load_rank4:
  assumes "load files path = Inr a" "npy_shape a = [B, H, S, D]"
  shows "0 \<le> B" "0 \<le> H" "0 \<le> S" "0 \<le> D" "in_i64 (B * H)" "length (npy_data a) = nat (B * H) * (nat S * nat D)"
proof -
  from assms(1) have r: "read_npy_bf16 files path = Inr a" by (simp add: load_def attempt_Inr)
  note s = read_npy_shape [OF r]
  show nn: "0 \<le> B" "0 \<le> H" "0 \<le> S" "0 \<le> D" using s(1) by (simp_all add: assms(2))
  have "in_i64 (B * H)" "B * H * S * D = int (length (npy_data a))"
    using s(2) by (auto simp: assms(2) npy_product_def split: if_splits)
  then show "in_i64 (B * H)" "length (npy_data a) = nat (B * H) * (nat S * nat D)"
    using nn by (simp_all flip: nat_mult_distrib add: mult.assoc)
qed

lemma main_append_run:
  assumes "load files cp = Inr cache" "load files np = Inr new"
    and c: "npy_shape cache = [B, H, Sc, D]" and n: "npy_shape new = [B, H, Sn, D]"
    and pos: "0 < B" "0 < H" "0 < D" and size: "B * H * (Sc + Sn) * D < 2 ^ 62"
  shows "main_attention lm can_open files [prog, ''append'', cp, np, op] =
    store can_open op [B, H, Sc + Sn, D] (append_spec (npy_data cache) (npy_data new) (nat (B * H)) (nat Sc) (nat Sn) (nat D)) files"
    and "npy_product [B, H, Sc + Sn, D] = Some (B * H * (Sc + Sn) * D)"
proof -
  note lc = load_rank4 [OF assms(1) c] and ln = load_rank4 [OF assms(2) n]
  have S: "0 \<le> Sc + Sn" using lc(3) ln(3) by simp
  have bh: "1 \<le> B * H" using pos(1,2) by (metis int_one_le_iff_zero_less mult_pos_pos)
  have "1 * (Sc + Sn) \<le> B * H * (Sc + Sn)" using bh S by (rule mult_right_mono)
  moreover have "B * H * (Sc + Sn) * 1 \<le> B * H * (Sc + Sn) * D"
    using S bh pos(3) by (intro mult_left_mono) simp_all
  moreover have "0 \<le> B * H * (Sc + Sn) * D" using S bh pos(3) by simp
  ultimately have r: "in_i64 (Sc + Sn)" "in_i64 (B * H * (Sc + Sn))" "in_i64 (B * H * (Sc + Sn) * D)"
    and nn: "0 \<le> B * H * (Sc + Sn) * D"
    using size S by (simp_all add: in_i64_def)
  have B: "in_i64 B" using load_dims [OF assms(1)] by (simp add: c)
  then show "npy_product [B, H, Sc + Sn, D] = Some (B * H * (Sc + Sn) * D)"
    using lc(5) r by (simp add: npy_product_def)
  have m: "nat (B * H * (Sc + Sn) * D) = nat (B * H) * ((nat Sc + nat Sn) * nat D)"
    using bh lc(3) ln(3) by (intro nat_cache_size) simp_all
  have "append_loops (npy_data cache) (npy_data new) (replicate (nat (B * H) * ((nat Sc + nat Sn) * nat D)) 0)
      (nat (B * H)) (nat Sc) (nat Sn) (nat D) =
    Some (append_spec (npy_data cache) (npy_data new) (nat (B * H)) (nat Sc) (nat Sn) (nat D))"
    by (rule append_loops_eq) (simp_all add: lc(6) ln(6))
  then show "main_attention lm can_open files [prog, ''append'', cp, np, op] =
    store can_open op [B, H, Sc + Sn, D] (append_spec (npy_data cache) (npy_data new) (nat (B * H)) (nat Sc) (nat Sn) (nat D)) files"
    using pos(1) lc(5) r
    by (simp add: main_attention_def run_append_def assms(1,2) dim_def c n i64_def Let_def
        alloc_small [OF nn size] m)
qed

text \<open>C18. Appending to a KV cache, end to end: for rank-4 files that agree in batch, heads and depth the
  run exits with 0 and the file it leaves reads back as the concatenation along the sequence axis:
  the first positions of each head are the cache's, the following the new ones, bit for bit.\<close>

theorem main_append_correct:
  assumes "load files cp = Inr cache" "load files np = Inr new"
    and "npy_shape cache = [B, H, Sc, D]" and "npy_shape new = [B, H, Sn, D]"
    and "0 < B" "0 < H" "0 < D" and "B * H * (Sc + Sn) * D < 2 ^ 62"
    and "can_open op" "length (npy_dict [B, H, Sc + Sn, D]) < 65472"
  shows "\<exists>files' out. main_attention lm can_open files [prog, ''append'', cp, np, op] = Inr files' \<and>
    load files' op = Inr \<lparr>npy_shape = [B, H, Sc + Sn, D], npy_data = out\<rparr> \<and>
    (\<forall>bh s d. bh < nat (B * H) \<and> s < nat Sc + nat Sn \<and> d < nat D \<longrightarrow>
      out ! ((bh * (nat Sc + nat Sn) + s) * nat D + d) =
      (if s < nat Sc then npy_data cache ! ((bh * nat Sc + s) * nat D + d)
       else npy_data new ! ((bh * nat Sn + (s - nat Sc)) * nat D + d)))"
proof -
  note run = main_append_run [OF assms(1-8)]
  note lc = load_rank4 [OF assms(1,3)] and ln = load_rank4 [OF assms(2,4)]
  let ?out = "append_spec (npy_data cache) (npy_data new) (nat (B * H)) (nat Sc) (nat Sn) (nat D)"
  have len: "length ?out = nat (B * H) * ((nat Sc + nat Sn) * nat D)"
    by (rule length_append_spec [OF lc(6) ln(6)])
  also have "\<dots> = nat (B * H * (Sc + Sn) * D)"
    using lc(1-3) ln(3) by (intro nat_cache_size [symmetric]) simp_all
  finally have len: "length ?out = nat (B * H * (Sc + Sn) * D)" .
  have nn: "0 \<le> B * H * (Sc + Sn) * D" using lc(1-4) ln(3) by simp
  have "\<exists>files'. store can_open op [B, H, Sc + Sn, D] ?out files = Inr files' \<and>
    load files' op = Inr \<lparr>npy_shape = [B, H, Sc + Sn, D], npy_data = ?out\<rparr> \<and> (\<forall>p. p \<noteq> op \<longrightarrow> files' p = files p)"
  proof (rule store_ok [where can_open = can_open and path = op, OF _ assms(9) _ assms(10)])
    show "npy_product [B, H, Sc + Sn, D] = Some (int (length ?out))" unfolding run(2) len using nn by simp
    show "length ?out < 2 ^ 62" unfolding len using assms(8) nn by (subst nat_less_iff) simp_all
    have "in_i64 (Sc + Sn)"
    proof -
      have "1 \<le> B * H * D" using assms(5-7) by (metis int_one_le_iff_zero_less mult_pos_pos)
      then have "1 * (Sc + Sn) \<le> B * H * D * (Sc + Sn)" using lc(3) ln(3) by (intro mult_right_mono) simp_all
      then show ?thesis using assms(8) lc(3) ln(3) by (simp add: in_i64_def mult.commute mult.left_commute)
    qed
    then show "list_all (\<lambda>d. 0 \<le> d \<and> in_i64 d) [B, H, Sc + Sn, D]"
      using load_dims [OF assms(1)] lc ln(3) by (simp add: assms(3))
  qed
  then show ?thesis unfolding run(1) using nth_append_spec [OF lc(6) ln(6)] by blast
qed

theorem main_append_correct_witness:
  "\<exists>files files' out. main_attention \<lparr>expf = id, erf = id, stof = (\<lambda>s. None)\<rparr> (\<lambda>p. True) files
       [''attention'', ''append'', ''a'', ''a'', ''o''] = Inr files' \<and>
     load files' ''o'' = Inr \<lparr>npy_shape = [1, 1, 2, 1], npy_data = out\<rparr> \<and> out ! 1 = (0x3F80 :: u16)"
proof -
  note sizes = in_i64_def npy_dict_def shape_tuple_def quoted_def int_to_string_def nat_to_string.simps [of 2]
    nat_to_string.simps [of "Suc 0"] npy_product_def
  obtain f where f: "load f ''a'' = Inr \<lparr>npy_shape = [1, 1, 1, 1], npy_data = [0x3F80]\<rparr>"
    using store_ok [of "[1, 1, 1, 1]" "[0x3F80]" "\<lambda>p. True" "''a''" Map.empty] by (auto simp: sizes)
  let ?a = "\<lparr>npy_shape = [1, 1, 1, 1], npy_data = [0x3F80 :: u16]\<rparr>"
  have "\<exists>files' out. main_attention \<lparr>expf = id, erf = id, stof = (\<lambda>s. None)\<rparr> (\<lambda>p. True) f
       [''attention'', ''append'', ''a'', ''a'', ''o''] = Inr files' \<and>
     load files' ''o'' = Inr \<lparr>npy_shape = [1, 1, 1 + 1, 1], npy_data = out\<rparr> \<and>
     (\<forall>bh s d. bh < nat (1 * 1) \<and> s < nat 1 + nat 1 \<and> d < nat 1 \<longrightarrow> out ! ((bh * (nat 1 + nat 1) + s) * nat 1 + d) =
      (if s < nat 1 then npy_data ?a ! ((bh * nat 1 + s) * nat 1 + d)
       else npy_data ?a ! ((bh * nat 1 + (s - nat 1)) * nat 1 + d)))"
    by (rule main_append_correct [OF f f]) (simp_all add: sizes)
  then obtain files' out where r: "main_attention \<lparr>expf = id, erf = id, stof = (\<lambda>s. None)\<rparr> (\<lambda>p. True) f
       [''attention'', ''append'', ''a'', ''a'', ''o''] = Inr files'"
     "load files' ''o'' = Inr \<lparr>npy_shape = [1, 1, 1 + 1, 1], npy_data = out\<rparr>" and
     o: "\<forall>bh s d. bh < nat (1 * 1) \<and> s < nat 1 + nat 1 \<and> d < nat 1 \<longrightarrow> out ! ((bh * (nat 1 + nat 1) + s) * nat 1 + d) =
      (if s < nat 1 then npy_data ?a ! ((bh * nat 1 + s) * nat 1 + d)
       else npy_data ?a ! ((bh * nat 1 + (s - nat 1)) * nat 1 + d))"
    by blast
  from o [rule_format, of 0 1 0] have "out ! 1 = 0x3F80" by simp
  with r show ?thesis by auto
qed

text \<open>The guard tests ranks through the missing axes' \<open>-1\<close>, which rank-2 files pass: the run then
  stores a tensor with the dimensions \<open>-2\<close> and \<open>-1\<close>, which no reader accepts.\<close>

lemma append_rank2:
  assumes "load files cp = Inr a" "npy_shape a = [1, 1]"
  shows "main_attention lm can_open files [prog, ''append'', cp, cp, op] = store can_open op [1, 1, - 2, - 1] [0, 0] files"
  using assms by (simp add: main_attention_def run_append_def dim_def i64_def in_i64_def alloc_def append_loops_def
      Let_def eval_nat_numeral)

section \<open>What attention computes\<close>

definition attn_score :: "u16 list \<Rightarrow> u16 list \<Rightarrow> nat \<Rightarrow> nat \<Rightarrow> nat \<Rightarrow> u32 \<Rightarrow> nat \<Rightarrow> u32" where
  "attn_score q k qb kb D scale j =
     f32_mul (foldl (\<lambda>acc d. f32_add acc (f32_mul (bf16_to_float (q ! (qb + d))) (bf16_to_float (k ! (kb + j * D + d))))) 0 [0..<D]) scale"

definition attn_max :: "(nat \<Rightarrow> bool) \<Rightarrow> (nat \<Rightarrow> u32) \<Rightarrow> nat \<Rightarrow> u32" where
  "attn_max hidden score n = foldl (\<lambda>m j. if hidden j then m else std_max m (score j)) neg_inf [0..<n]"

definition attn_weight :: "libm \<Rightarrow> (nat \<Rightarrow> bool) \<Rightarrow> (nat \<Rightarrow> u32) \<Rightarrow> u32 \<Rightarrow> nat \<Rightarrow> u32" where
  "attn_weight lm hidden score m j = expf lm (f32_sub (if hidden j then neg_inf else score j) m)"

text \<open>One output element: the softmax-weighted sum of one column of the values.\<close>

definition attend :: "libm \<Rightarrow> (nat \<Rightarrow> bool) \<Rightarrow> (nat \<Rightarrow> u32) \<Rightarrow> (nat \<Rightarrow> u16) \<Rightarrow> nat \<Rightarrow> u16" where
  "attend lm hidden score val n =
     (let w = attn_weight lm hidden score (attn_max hidden score n)
      in float_to_bf16 (f32_mul (foldl (\<lambda>acc j. f32_add acc (f32_mul (w j) (bf16_to_float (val j)))) 0 [0..<n])
           (f32_div f32_one (foldl (\<lambda>s j. f32_add s (w j)) 0 [0..<n]))))"

lemma score_loop_eq:
  assumes "length score = Skv" "qb + D \<le> length q" "kb + Skv * D \<le> length k"
  shows "score_loop q k qb kb Skv D limit scale score =
    Some (attn_max (\<lambda>j. limit < int j) (attn_score q k qb kb D scale) Skv,
      map (\<lambda>j. if limit < int j then neg_inf else attn_score q k qb kb D scale j) [0..<Skv])"
proof -
  define sc where "sc = attn_score q k qb kb D scale"
  define f where "f j ms = (case ms of (m, score) \<Rightarrow>
       if limit < int j then wr score j neg_inf \<bind> (\<lambda>score. Some (m, score))
       else loop D (\<lambda>d dot. rd q (qb + d) \<bind> (\<lambda>x. rd k (kb + j * D + d) \<bind> (\<lambda>y.
             Some (f32_add dot (f32_mul (bf16_to_float x) (bf16_to_float y)))))) 0 \<bind>
         (\<lambda>dot. wr score j (f32_mul dot scale) \<bind> (\<lambda>score. rd score j \<bind> (\<lambda>s. Some (std_max m s, score)))))" for j ms
  have step: "f j (m, score') = Some (if limit < int j then m else std_max m (sc j), score'[j := if limit < int j then neg_inf else sc j])"
    if j: "j < Skv" "length score' = Skv" for j m score'
  proof -
    have kb: "kb + j * D + d < length k" if "d < D" for d
      using index_lt [OF that j(1)] assms(3) by (simp add: mult.commute)
    have "loop D (\<lambda>d dot. rd q (qb + d) \<bind> (\<lambda>x. rd k (kb + j * D + d) \<bind> (\<lambda>y.
             Some (f32_add dot (f32_mul (bf16_to_float x) (bf16_to_float y)))))) 0 =
        Some (foldl (\<lambda>acc d. f32_add acc (f32_mul (bf16_to_float (q ! (qb + d))) (bf16_to_float (k ! (kb + j * D + d))))) 0 [0..<D])"
      by (rule loop_reduce2) (use assms(2) kb in simp_all)
    then show ?thesis using j by (simp add: f_def sc_def attn_score_def)
  qed
  have "n \<le> Skv \<Longrightarrow> loop n f (neg_inf, score) =
      Some (attn_max (\<lambda>j. limit < int j) sc n, map (\<lambda>j. if limit < int j then neg_inf else sc j) [0..<n] @ drop n score)" for n
  proof (induction n)
    case (Suc n)
    then have "drop n score = score ! n # drop (Suc n) score" using assms(1) by (simp add: Cons_nth_drop_Suc)
    with Suc assms(1) show ?case by (simp add: step attn_max_def list_update_append)
  qed (simp add: attn_max_def)
  from this [of Skv] show ?thesis using assms(1) by (simp add: score_loop_def f_def [abs_def] sc_def)
qed

lemma weight_loop_eq:
  "weight_loop lm n m (map s [0..<n]) =
    Some (foldl (\<lambda>a j. f32_add a (expf lm (f32_sub (s j) m))) 0 [0..<n], map (\<lambda>j. expf lm (f32_sub (s j) m)) [0..<n])"
proof -
  define w where "w j = expf lm (f32_sub (s j) m)" for j
  define f where "f j ss = (case ss of (a, score) \<Rightarrow> rd score j \<bind> (\<lambda>x. wr score j (expf lm (f32_sub x m)) \<bind>
      (\<lambda>score. rd score j \<bind> (\<lambda>w. Some (f32_add a w, score)))))" for j ss
  have "k \<le> n \<Longrightarrow> loop k f (0, map s [0..<n]) = Some (foldl (\<lambda>a j. f32_add a (w j)) 0 [0..<k], map w [0..<k] @ map s [k..<n])" for k
  proof (induction k)
    case (Suc k)
    then have "[k..<n] = k # [Suc k..<n]" by (simp add: upt_conv_Cons)
    with Suc show ?case by (simp add: f_def nth_append list_update_append w_def)
  qed simp
  from this [of n] show ?thesis by (simp add: weight_loop_def f_def [abs_def] w_def [abs_def])
qed

lemma value_loop_eq:
  assumes "vb + Skv * D \<le> length v" "ob + D \<le> length out"
  shows "value_loop v vb Skv D inv_sum (map w [0..<Skv]) ob out =
    Some (take ob out @ map (\<lambda>d. float_to_bf16 (f32_mul
        (foldl (\<lambda>acc j. f32_add acc (f32_mul (w j) (bf16_to_float (v ! (vb + j * D + d))))) 0 [0..<Skv]) inv_sum)) [0..<D] @
      drop (ob + D) out)"
  unfolding value_loop_def
proof (rule loop_wr)
  fix d and out' :: "u16 list" assume d: "d < D"
  have vb: "vb + j * D + d < length v" if "j < Skv" for j
    using index_lt [OF d that] assms(1) by (simp add: mult.commute)
  have "loop Skv (\<lambda>j acc. rd (map w [0..<Skv]) j \<bind> (\<lambda>w. rd v (vb + j * D + d) \<bind> (\<lambda>x. Some (f32_add acc (f32_mul w (bf16_to_float x)))))) 0 =
      Some (foldl (\<lambda>acc j. f32_add acc (f32_mul (map w [0..<Skv] ! j) (bf16_to_float (v ! (vb + j * D + d))))) 0 [0..<Skv])"
    by (rule loop_reduce2) (use vb in simp_all)
  also have "foldl (\<lambda>acc j. f32_add acc (f32_mul (map w [0..<Skv] ! j) (bf16_to_float (v ! (vb + j * D + d))))) 0 [0..<Skv] =
      foldl (\<lambda>acc j. f32_add acc (f32_mul (w j) (bf16_to_float (v ! (vb + j * D + d))))) 0 [0..<Skv]"
    by (rule foldl_cong) simp_all
  finally show "loop Skv (\<lambda>j acc. rd (map w [0..<Skv]) j \<bind> (\<lambda>w. rd v (vb + j * D + d) \<bind> (\<lambda>x. Some (f32_add acc (f32_mul w (bf16_to_float x)))))) 0 \<bind>
      (\<lambda>acc. wr out' (ob + d) (float_to_bf16 (f32_mul acc inv_sum))) =
    wr out' (ob + d) (float_to_bf16 (f32_mul
        (foldl (\<lambda>acc j. f32_add acc (f32_mul (w j) (bf16_to_float (v ! (vb + j * D + d))))) 0 [0..<Skv]) inv_sum))"
    by (simp only: Option.bind.simps)
qed (rule assms(2))

text \<open>Row \<open>p\<close> counts the queries of all heads.\<close>

definition attn_limit :: "bool \<Rightarrow> nat \<Rightarrow> nat \<Rightarrow> nat \<Rightarrow> int" where
  "attn_limit causal Sq Skv p = (if causal then int Skv - int Sq + int (p mod Sq) else int Skv - 1)"

definition attn_row ::
    "libm \<Rightarrow> u16 list \<Rightarrow> u16 list \<Rightarrow> u16 list \<Rightarrow> (nat \<Rightarrow> bool) \<Rightarrow> nat \<Rightarrow> nat \<Rightarrow> nat \<Rightarrow> nat \<Rightarrow> u32 \<Rightarrow> nat \<Rightarrow> u16 list" where
  "attn_row lm q k v hidden n Sq Skv D scale p = map (\<lambda>d.
     attend lm hidden (attn_score q k (p * D) (p div Sq * Skv * D) D scale)
       (\<lambda>j. v ! (p div Sq * Skv * D + j * D + d)) n) [0..<D]"

lemma prefill_loops_eq:
  assumes "length q = BH * Sq * D" "length k = BH * Skv * D" "length v = BH * Skv * D" "length out = BH * Sq * D"
    "length score = Skv"
  shows "\<exists>score'. prefill_loops lm q k v causal BH Sq Skv D scale (out, score) =
    Some (concat (map (\<lambda>p. attn_row lm q k v (\<lambda>j. attn_limit causal Sq Skv p < int j) Skv Sq Skv D scale p) [0..<BH * Sq]), score')"
proof -
  define row where "row p = attn_row lm q k v (\<lambda>j. attn_limit causal Sq Skv p < int j) Skv Sq Skv D scale p" for p
  define f where "f p os = (case os of (out, score) \<Rightarrow>
      score_loop q k (p * D) (p div Sq * Skv * D) Skv D (attn_limit causal Sq Skv p) scale score \<bind> (\<lambda>(m, score).
      weight_loop lm Skv m score \<bind> (\<lambda>(a, score).
      value_loop v (p div Sq * Skv * D) Skv D (f32_div f32_one a) score (p * D) out \<bind> (\<lambda>out. Some (out, score)))))" for p os
  have "prefill_loops lm q k v causal BH Sq Skv D scale (out, score) = loop BH (\<lambda>bh. loop Sq (\<lambda>i. f (bh * Sq + i))) (out, score)"
    unfolding prefill_loops_def
    by (intro loop_cong) (simp add: f_def attn_limit_def Let_def split: prod.split cong: if_cong)
  also have "\<dots> = loop (BH * Sq) f (out, score)" by (rule loop_nested)
  also have "\<exists>os. loop (BH * Sq) f (out, score) = Some os \<and>
      fst os = concat (map row [0..<BH * Sq]) @ drop (BH * Sq * D) out \<and> length (snd os) = Skv"
  proof (rule loop_inv)
    fix p and os :: "u16 list \<times> u32 list"
    assume p: "p < BH * Sq" and os: "fst os = concat (map row [0..<p]) @ drop (p * D) out \<and> length (snd os) = Skv"
    obtain out' sc where o: "os = (out', sc)" by fastforce
    have bh: "p div Sq < BH" using p by (simp add: less_mult_imp_div_less)
    have kb: "p div Sq * Skv * D + Skv * D \<le> length k" "p div Sq * Skv * D + Skv * D \<le> length v"
      using block_bound [OF bh, of "Skv * D"] assms(2,3) by (simp_all add: mult.assoc)
    have qb: "p * D + D \<le> length q" "p * D + D \<le> length out"
      using block_bound [OF p, of D] assms(1,4) by simp_all
    have l: "length (concat (map row [0..<p])) = p * D" by (rule length_blocks) (simp add: row_def attn_row_def)
    then have out': "length out' = length out" using os qb by (simp add: o)
    let ?s = "attn_score q k (p * D) (p div Sq * Skv * D) D scale" and ?h = "\<lambda>j. attn_limit causal Sq Skv p < int j"
    let ?s' = "\<lambda>j. if ?h j then neg_inf else ?s j"
    have 1: "score_loop q k (p * D) (p div Sq * Skv * D) Skv D (attn_limit causal Sq Skv p) scale sc =
        Some (attn_max ?h ?s Skv, map ?s' [0..<Skv])"
      by (rule score_loop_eq) (use os qb kb in \<open>simp_all add: o\<close>)
    have "f p os = Some (take (p * D) out' @ row p @ drop (p * D + D) out', map (attn_weight lm ?h ?s (attn_max ?h ?s Skv)) [0..<Skv])"
      unfolding f_def o prod.case 1 Option.bind.simps weight_loop_eq [of lm Skv _ ?s']
      by (subst value_loop_eq) (use kb qb out' in \<open>simp_all add: row_def attn_row_def attend_def attn_weight_def Let_def\<close>)
    moreover have "take (p * D) out' @ row p @ drop (p * D + D) out' = concat (map row [0..<Suc p]) @ drop (Suc p * D) out"
      using os l by (simp add: o)
    ultimately show "\<exists>os'. f p os = Some os' \<and> (fst os' = concat (map row [0..<Suc p]) @ drop (Suc p * D) out \<and> length (snd os') = Skv)"
      by auto
  qed (simp add: assms(5))
  finally show ?thesis using assms(4) by (auto simp: row_def)
qed

section \<open>Causality\<close>

lemma decode_neg_inf: "fp_decode binary32 (unat neg_inf) = FInf True"
  by (simp add: neg_inf_def fp_decode_def binary32_def)

lemma f32_sub_neg_inf:
  assumes "\<not> f32_is_nan m" "m \<noteq> neg_inf"
  shows "f32_sub neg_inf m = neg_inf"
proof -
  have r: "of_nat (fp_signed binary32 True (fp_inf_mag binary32)) = neg_inf"
    by (simp add: fp_signed_def binary32_def fp_inf_mag_def neg_inf_def)
  show ?thesis
  proof (cases "fp_decode binary32 (unat (f32_neg m))")
    case FNan
    then show ?thesis using assms(1) by (auto simp: f32_is_nan_def fp_is_nan_def fp_decode_float f32_neg_fields split: if_splits)
  next
    case (FInf s)
    have "s"
    proof (rule ccontr)
      assume "\<not> s"
      with FInf have "f_sign m" "f_exp_field m = 255" "f_man_field m = 0"
        by (auto simp: fp_decode_float f32_neg_fields split: if_splits)
      then have "unat m = unat neg_inf" using unat_float [of m] by (simp add: fp_signed_def binary32_def neg_inf_def)
      then have "m = neg_inf" by (rule unsigned_word_eqI)
      then show False using assms(2) by simp
    qed
    with FInf show ?thesis by (simp add: f32_sub_def f32_add_def fp_add_def decode_neg_inf r)
  next
    case (FFin s a e)
    then show ?thesis by (simp add: f32_sub_def f32_add_def fp_add_def decode_neg_inf r)
  qed
qed

lemma foldl_absorb: "P a \<Longrightarrow> (\<And>a j. j \<in> set js \<Longrightarrow> P a \<Longrightarrow> f a j = a) \<Longrightarrow> foldl f a js = a"
  by (induction js) simp_all

lemma std_max_not_nan: "\<not> f32_is_nan a \<Longrightarrow> \<not> f32_is_nan (std_max a b)"
  by (auto simp: std_max_def f32_is_nan_def f32_lt_def fp_lt_def fp_is_nan_def split: fpnum.splits)

lemma attn_max_not_nan: "\<not> f32_is_nan (attn_max hidden score n)"
  by (induction n) (simp_all add: attn_max_def f32_is_nan_def fp_is_nan_def decode_neg_inf
      std_max_not_nan [unfolded f32_is_nan_def fp_is_nan_def])

lemma upt_split: "vis \<le> n \<Longrightarrow> [0..<n] = [0..<vis] @ [vis..<n]"
  by (metis add_diff_inverse_nat le0 not_le upt_add_eq_append)

lemma canonical_foldl: "canonical a \<Longrightarrow> canonical (foldl (\<lambda>a j. f32_add a (g j)) a js)"
  by (induction js arbitrary: a) (simp_all add: canonical_add)

text \<open>The positions from \<open>vis\<close> on have weight zero and drop out of both sums.\<close>

lemma attend_prefix:
  assumes "vis \<le> n" and hidden: "\<And>j. hidden j \<longleftrightarrow> vis \<le> j" and e: "expf lm neg_inf = 0"
    and m: "attn_max (\<lambda>j. False) score vis \<noteq> neg_inf"
    and fin: "\<And>j. vis \<le> j \<Longrightarrow> j < n \<Longrightarrow> fp_finite binary32 (unat (bf16_to_float (val j)))"
  shows "attend lm hidden score val n = attend lm (\<lambda>j. False) score val vis"
proof -
  note upt = upt_split [OF assms(1)]
  define m where "m = attn_max (\<lambda>j. False) score vis"
  have "attn_max hidden score n = foldl (\<lambda>m j. if hidden j then m else std_max m (score j)) (attn_max hidden score vis) [vis..<n]"
    by (simp add: attn_max_def upt)
  also have "\<dots> = attn_max hidden score vis" by (rule foldl_absorb [where P = "\<lambda>_. True"]) (simp_all add: hidden)
  also have "\<dots> = m" unfolding attn_max_def m_def by (rule foldl_cong) (simp_all add: hidden)
  finally have mx: "attn_max hidden score n = m" .
  define w where "w = attn_weight lm (\<lambda>j. False) score m"
  have w: "attn_weight lm hidden score m j = (if vis \<le> j then 0 else w j)" for j
    using f32_sub_neg_inf [OF attn_max_not_nan assms(4)] e by (simp add: attn_weight_def hidden w_def m_def)
  have z: "f32_add a z = a" if "canonical a" "z = 0 \<or> z = 0x80000000" for a z using canonical_add_zero [OF that] .
  have "foldl (\<lambda>s j. f32_add s (if vis \<le> j then 0 else w j)) 0 [0..<n] =
      foldl (\<lambda>s j. f32_add s (if vis \<le> j then 0 else w j)) (foldl (\<lambda>s j. f32_add s (if vis \<le> j then 0 else w j)) 0 [0..<vis]) [vis..<n]"
    by (simp add: upt)
  also have "\<dots> = foldl (\<lambda>s j. f32_add s (if vis \<le> j then 0 else w j)) 0 [0..<vis]"
    by (rule foldl_absorb [where P = canonical]) (simp_all add: canonical_foldl canonical_0 z)
  also have "\<dots> = foldl (\<lambda>s j. f32_add s (w j)) 0 [0..<vis]" by (rule foldl_cong) simp_all
  finally have s: "foldl (\<lambda>s j. f32_add s (if vis \<le> j then 0 else w j)) 0 [0..<n] = foldl (\<lambda>s j. f32_add s (w j)) 0 [0..<vis]" .
  let ?t = "\<lambda>j. f32_mul (if vis \<le> j then 0 else w j) (bf16_to_float (val j))"
  have "foldl (\<lambda>a j. f32_add a (?t j)) 0 [0..<n] = foldl (\<lambda>a j. f32_add a (?t j)) (foldl (\<lambda>a j. f32_add a (?t j)) 0 [0..<vis]) [vis..<n]"
    by (simp add: upt)
  also have "\<dots> = foldl (\<lambda>a j. f32_add a (?t j)) 0 [0..<vis]"
    by (rule foldl_absorb [where P = canonical])
      (use f32_mul_zero_left [OF fin] in \<open>simp_all add: canonical_foldl canonical_0 z\<close>)
  also have "\<dots> = foldl (\<lambda>a j. f32_add a (f32_mul (w j) (bf16_to_float (val j)))) 0 [0..<vis]" by (rule foldl_cong) simp_all
  finally have a: "foldl (\<lambda>a j. f32_add a (?t j)) 0 [0..<n] =
      foldl (\<lambda>a j. f32_add a (f32_mul (w j) (bf16_to_float (val j)))) 0 [0..<vis]" .
  show ?thesis
    unfolding attend_def mx m_def [symmetric] Let_def w using s a by (simp add: w_def)
qed

text \<open>C17. Causal attention attends to the past only: on buffers of the sizes the driver checks, output
  element \<open>d\<close> of query row \<open>p\<close> is the attention over the keys up to the row's limit alone, computed
  without any mask; whatever finite values the later positions of V hold, and whatever K holds there,
  do not matter. The hypotheses on the library and the input: \<open>expf\<close> sends minus infinity to zero,
  and some visible score exceeds minus infinity.\<close>

theorem prefill_causal:
  assumes "length q = BH * Sq * D" "length k = BH * Skv * D" "length v = BH * Skv * D" "length out = BH * Sq * D"
    "length score = Skv" and e: "expf lm neg_inf = 0" and p: "p < BH * Sq" "d < D"
    and vis: "int vis = attn_limit True Sq Skv p + 1"
    and m: "attn_max (\<lambda>j. False) (attn_score q k (p * D) (p div Sq * Skv * D) D scale) vis \<noteq> neg_inf"
    and fin: "\<And>j. vis \<le> j \<Longrightarrow> j < Skv \<Longrightarrow> fp_finite bfloat16 (unat (v ! (p div Sq * Skv * D + j * D + d)))"
  shows "\<exists>out' score'. prefill_loops lm q k v True BH Sq Skv D scale (out, score) = Some (out', score') \<and>
    out' ! (p * D + d) = attend lm (\<lambda>j. False) (attn_score q k (p * D) (p div Sq * Skv * D) D scale)
      (\<lambda>j. v ! (p div Sq * Skv * D + j * D + d)) vis"
proof -
  let ?row = "\<lambda>p. attn_row lm q k v (\<lambda>j. attn_limit True Sq Skv p < int j) Skv Sq Skv D scale p"
  obtain score' where run: "prefill_loops lm q k v True BH Sq Skv D scale (out, score) = Some (concat (map ?row [0..<BH * Sq]), score')"
    using prefill_loops_eq [OF assms(1-5), of lm True scale] by blast
  have "0 < Sq" using p(1) by (cases Sq) simp_all
  then have "p mod Sq < Sq" by (rule mod_less_divisor)
  then have "int vis \<le> int Skv" using vis by (simp add: attn_limit_def)
  then have v: "vis \<le> Skv" by simp
  have h: "(attn_limit True Sq Skv p < int j) = (vis \<le> j)" for j using vis by linarith
  have "concat (map ?row [0..<BH * Sq]) ! (p * D + d) = ?row p ! d"
    by (rule nth_blocks) (use p in \<open>simp_all add: attn_row_def\<close>)
  also have "\<dots> = attend lm (\<lambda>j. attn_limit True Sq Skv p < int j) (attn_score q k (p * D) (p div Sq * Skv * D) D scale)
      (\<lambda>j. v ! (p div Sq * Skv * D + j * D + d)) Skv"
    using p(2) by (simp add: attn_row_def)
  also have "\<dots> = attend lm (\<lambda>j. False) (attn_score q k (p * D) (p div Sq * Skv * D) D scale)
      (\<lambda>j. v ! (p div Sq * Skv * D + j * D + d)) vis"
  proof (rule attend_prefix [OF v h e m])
    fix j assume "vis \<le> j" "j < Skv"
    from fin [OF this] show "fp_finite binary32 (unat (bf16_to_float (v ! (p div Sq * Skv * D + j * D + d))))"
      by (auto simp: fp_finite_def decode_bf16_to_float)
  qed
  finally show ?thesis using run by blast
qed

theorem prefill_causal_witness:
  "\<exists>out' score'. prefill_loops \<lparr>expf = (\<lambda>x. if x = neg_inf then 0 else f32_one), erf = id, stof = (\<lambda>s. None)\<rparr>
      [0, 0] [0, 0] [0x3F80, 0x4000] True 1 2 2 1 0 ([0, 0], [0, 0]) = Some (out', score') \<and>
    out' ! (0 * 1 + 0) = attend \<lparr>expf = (\<lambda>x. if x = neg_inf then 0 else f32_one), erf = id, stof = (\<lambda>s. None)\<rparr> (\<lambda>j. False)
      (attn_score [0, 0] [0, 0] (0 * 1) (0 div 2 * 2 * 1) 1 0)
      (\<lambda>j. [0x3F80, 0x4000] ! (0 div 2 * 2 * 1 + j * 1 + 0)) 1"
proof (rule prefill_causal)
  show "attn_max (\<lambda>j. False) (attn_score [0, 0] [0, 0] (0 * 1) (0 div 2 * 2 * 1) 1 0) 1 \<noteq> neg_inf"
  proof -
    have "f32_lt neg_inf 0"
      using zero_decode [of 0] by (simp add: f32_lt_def fp_lt_def fp_le_def decode_neg_inf)
    moreover have "bf16_to_float 0 = 0" by (simp add: bf16_to_float_def)
    moreover have "f32_add 0 0 = 0" by (rule canonical_add_zero [OF canonical_0]) simp
    ultimately show ?thesis by (simp add: attn_max_def attn_score_def f32_mul_zero std_max_def neg_inf_def)
  qed
  fix j :: nat assume "1 \<le> j" "j < 2"
  then have "j = 1" by simp
  then show "fp_finite bfloat16 (unat ([0x3F80, 0x4000 :: u16] ! (0 div 2 * 2 * 1 + j * 1 + 0)))"
    by (simp add: fp_finite_def fp_decode_def bfloat16_def Let_def) blast
qed (simp_all add: attn_limit_def)

text \<open>A query before the first key (more queries than keys) sees none: the maximum stays at minus
  infinity and every weight is \<open>expf\<close> of a NaN.\<close>

lemma no_visible_key:
  assumes "\<And>j. j < n \<Longrightarrow> hidden j"
  shows "attn_max hidden score n = neg_inf"
    and "j < n \<Longrightarrow> attn_weight lm hidden score (attn_max hidden score n) j = expf lm 0x7FC00000"
proof -
  have "foldl (\<lambda>m j. if hidden j then m else std_max m (score j)) neg_inf [0..<n] = neg_inf"
    by (rule foldl_absorb [where P = "\<lambda>_. True"]) (simp_all add: assms)
  then show m: "attn_max hidden score n = neg_inf" by (simp add: attn_max_def)
  have "f32_sub neg_inf neg_inf = 0x7FC00000"
    by (simp add: f32_sub_def f32_add_def f32_neg_def fp_add_def decode_neg_inf [unfolded neg_inf_def] neg_inf_def
        fp_decode_def binary32_def fp_nan_def fp_inf_mag_def)
  then show "j < n \<Longrightarrow> attn_weight lm hidden score (attn_max hidden score n) j = expf lm 0x7FC00000"
    using assms by (simp add: attn_weight_def m)
qed

end
