(* ===== verification/Simt.thy ===== *)
theory Simt
  imports Buffers Libm
begin

text \<open>
  The execution model of the generated GPU kernels (\<open>kernel_common.h\<close>): the threads of a launch emit
  lists of stores, the hardware applies them in an interleaving of its choice, and a block barrier
  ends a phase. A schedule picks the interleaving of every phase; the results below hold for every
  fair schedule, and \<open>in_order\<close>, which runs one thread after the other, is one. The vendor's
  conversion intrinsics and device functions are a parameter.
\<close>

record device =
  float2bf16 :: "u32 \<Rightarrow> u16"
  bf162float :: "u16 \<Rightarrow> u32"
  dev_sqrtf :: "u32 \<Rightarrow> u32"
  dev_expf :: "u32 \<Rightarrow> u32"
  dev_erf :: "double \<Rightarrow> double"

text \<open>What the vendor documents: \<open>__bfloat162float\<close> is exact, and \<open>__float2bfloat16\<close> rounds to nearest
  even; the pattern of a NaN is its own choice.\<close>

definition ieee_device :: "device \<Rightarrow> bool" where
  "ieee_device dev \<longleftrightarrow> (\<forall>b. bf162float dev b = bf16_to_float b) \<and>
     (\<forall>x. \<not> f32_is_nan x \<longrightarrow> float2bf16 dev x = float_to_bf16 x)"

text \<open>A device for concrete runs: the conversions of the host, and identities for the transcendental
  functions.\<close>

definition host_device :: device where
  "host_device = \<lparr>float2bf16 = float_to_bf16, bf162float = bf16_to_float, dev_sqrtf = f32_sqrt, dev_expf = id, dev_erf = id\<rparr>"

lemma ieee_host_device: "ieee_device host_device"
  by (simp add: ieee_device_def host_device_def)

type_synonym 'a store = "nat \<times> 'a"
type_synonym 'a sched = "nat list \<Rightarrow> 'a store list list \<Rightarrow> 'a store list"

fun apply_stores :: "'a list \<Rightarrow> 'a store list \<Rightarrow> 'a list option" where
  "apply_stores xs [] = Some xs"
| "apply_stores xs ((i, v) # ss) = wr xs i v \<bind> (\<lambda>xs. apply_stores xs ss)"

inductive interleave :: "'a list list \<Rightarrow> 'a list \<Rightarrow> bool" where
  finished: "\<forall>p \<in> set ps. p = [] \<Longrightarrow> interleave ps []"
| issue: "i < length ps \<Longrightarrow> ps ! i = x # p \<Longrightarrow> interleave (ps[i := p]) ys \<Longrightarrow> interleave ps (x # ys)"

definition fair :: "'a sched \<Rightarrow> bool" where
  "fair sched \<longleftrightarrow> (\<forall>phase ps. interleave ps (sched phase ps))"

definition in_order :: "'a sched" where
  "in_order phase ps = concat ps"

definition reversed :: "'a sched" where
  "reversed phase ps = concat (rev ps)"

text \<open>\<open>for (int i = lo; i < n; i += d)\<close>: the addition behind the last trip may leave \<open>int\<close> too.\<close>

definition stride_loop :: "nat \<Rightarrow> nat \<Rightarrow> nat \<Rightarrow> (nat \<Rightarrow> 's \<Rightarrow> 's option) \<Rightarrow> 's \<Rightarrow> 's option" where
  "stride_loop lo d n f = loop_by lo d n (\<lambda>i s. f i s \<bind> (\<lambda>s. if in_i32 (int (i + d)) then Some s else None))"

definition trips :: "nat \<Rightarrow> nat \<Rightarrow> nat \<Rightarrow> nat" where
  "trips lo d n = (n - lo + (d - 1)) div d"

lemma trips_iff: "0 < d \<Longrightarrow> k < trips lo d n \<longleftrightarrow> lo + k * d < n"
proof -
  assume d: "0 < d"
  have "k < trips lo d n \<longleftrightarrow> Suc k * d \<le> n - lo + (d - 1)"
    unfolding trips_def using d by (metis Suc_le_eq less_eq_div_iff_mult_less_eq)
  also have "\<dots> \<longleftrightarrow> k * d < n - lo" using d by (simp add: Suc_le_eq) linarith
  also have "\<dots> \<longleftrightarrow> lo + k * d < n" by auto
  finally show ?thesis .
qed

lemma in_i32_le: "a \<le> b \<Longrightarrow> in_i32 (int b) \<Longrightarrow> in_i32 (int a)"
  by (simp add: in_i32_def)

lemma stride_loop_eq:
  assumes "0 < d" "in_i32 (int (n + d))" "\<And>k s. lo + k * d < n \<Longrightarrow> f (lo + k * d) s = Some (g k s)"
  shows "stride_loop lo d n f s = Some (foldl (\<lambda>s k. g k s) s [0..<trips lo d n])"
  unfolding stride_loop_def loop_by_def trips_def [symmetric]
proof (rule loop_pure)
  fix k s assume "k < trips lo d n"
  then have k: "lo + k * d < n" using trips_iff [OF assms(1)] by blast
  then have "in_i32 (int (lo + k * d + d))" by (intro in_i32_le [OF _ assms(2)]) simp
  then show "f (lo + k * d) s \<bind> (\<lambda>s. if in_i32 (int (lo + k * d + d)) then Some s else None) = Some (g k s)"
    using assms(3) [OF k] by simp
qed

lemma foldl_snoc_concat: "foldl (\<lambda>s k. s @ g k) a ks = a @ concat (map g ks)"
  by (induction ks arbitrary: a) simp_all

section \<open>Interleavings\<close>

lemma interleave_mset: "interleave ps ys \<Longrightarrow> mset ys = sum_list (map mset ps)"
proof (induction rule: interleave.induct)
  case (finished ps)
  then show ?case by (induction ps) simp_all
next
  case (issue i ps x p ys)
  have "sum_list (map mset (ps[i := p])) + mset (ps ! i) = sum_list (map mset ps) + mset p"
    by (rule sum_list_update_mset) (rule issue.hyps(1))
  then show ?case using issue by simp
qed

lemma interleave_set: "interleave ps ys \<Longrightarrow> mset ys = mset (concat ps)"
  using interleave_mset by (simp add: mset_concat)

lemma interleave_cons_empty: "interleave ps ys \<Longrightarrow> interleave ([] # ps) ys"
proof (induction rule: interleave.induct)
  case (finished ps)
  then show ?case by (intro interleave.finished) simp
next
  case (issue i ps x p ys)
  then show ?case by (intro interleave.issue [of "Suc i"]) simp_all
qed

lemma interleave_concat: "interleave ps (concat ps)"
proof (induction ps)
  case Nil
  then show ?case by (simp add: interleave.finished)
next
  case (Cons p ps)
  then show ?case
  proof (induction p)
    case Nil
    then show ?case by (simp add: interleave_cons_empty)
  next
    case (Cons x p)
    then show ?case by (auto intro: interleave.issue [of 0])
  qed
qed

lemma fair_in_order: "fair in_order"
  by (simp add: fair_def in_order_def interleave_concat)

section \<open>Stores to distinct places commute\<close>

lemma length_apply_stores: "apply_stores xs ss = Some ys \<Longrightarrow> length ys = length xs"
  by (induction xs ss rule: apply_stores.induct) (auto simp: wr_def split: if_splits)

lemma apply_stores_Some: "\<forall>s \<in> set ss. fst s < length xs \<Longrightarrow> \<exists>ys. apply_stores xs ss = Some ys"
  by (induction xs ss rule: apply_stores.induct) auto

lemma apply_stores_nth:
  assumes "apply_stores xs ss = Some ys" "distinct (map fst ss)"
  shows "((i, v) \<in> set ss \<longrightarrow> ys ! i = v) \<and> (i \<notin> fst ` set ss \<longrightarrow> ys ! i = xs ! i)"
  using assms
proof (induction xs ss rule: apply_stores.induct)
  case (2 xs j w ss)
  then have j: "j < length xs" "apply_stores (xs[j := w]) ss = Some ys" by (auto simp: wr_def split: if_splits)
  then have IH: "((i, v) \<in> set ss \<longrightarrow> ys ! i = v) \<and> (i \<notin> fst ` set ss \<longrightarrow> ys ! i = xs[j := w] ! i)"
    using 2 by simp
  have d: "j \<notin> fst ` set ss" using "2.prems"(2) by simp
  show ?case
  proof (cases "i = j")
    case True
    then have "ys ! i = w" using IH d j(1) by simp
    moreover have "(i, v) \<notin> set ss" using d True by (metis fst_conv image_eqI)
    ultimately show ?thesis using True by simp
  qed (use IH in auto)
qed simp

text \<open>A phase whose stores go to distinct places inside the buffer has one result.\<close>

lemma phase_result:
  assumes "fair sched" "distinct (map fst (concat ps))" "\<And>i v. (i, v) \<in> set (concat ps) \<Longrightarrow> i < length xs"
  obtains ys where "apply_stores xs (sched phase ps) = Some ys" "length ys = length xs"
    "\<And>i v. (i, v) \<in> set (concat ps) \<Longrightarrow> ys ! i = v" "\<And>i. i \<notin> fst ` set (concat ps) \<Longrightarrow> ys ! i = xs ! i"
proof -
  have m: "mset (sched phase ps) = mset (concat ps)" using assms(1) interleave_set by (auto simp: fair_def)
  then have s: "set (sched phase ps) = set (concat ps)" by (metis set_mset_mset)
  have "mset (map fst (sched phase ps)) = mset (map fst (concat ps))" using m by (simp only: mset_map)
  then have d: "distinct (map fst (sched phase ps))" using assms(2) by (metis mset_eq_imp_distinct_iff)
  have "\<forall>t \<in> set (sched phase ps). fst t < length xs" unfolding s using assms(3) by (metis prod.collapse)
  then obtain ys where ys: "apply_stores xs (sched phase ps) = Some ys" using apply_stores_Some by blast
  then show ?thesis using that length_apply_stores apply_stores_nth [OF ys d] s by blast
qed

text \<open>When every place is stored once, the result is the list of the stored values.\<close>

lemma phase_fill:
  assumes "fair sched" "distinct (map fst (concat ps))"
    and cover: "\<And>i. i < length xs \<Longrightarrow> (i, v i) \<in> set (concat ps)"
    and range: "\<And>i w. (i, w) \<in> set (concat ps) \<Longrightarrow> i < length xs"
  shows "apply_stores xs (sched phase ps) = Some (map v [0..<length xs])"
proof (rule phase_result [where phase = phase and xs = xs, OF assms(1,2)])
  fix ys assume ys: "apply_stores xs (sched phase ps) = Some ys" "length ys = length xs"
    "\<And>i v. (i, v) \<in> set (concat ps) \<Longrightarrow> ys ! i = v"
  have "ys = map v [0..<length xs]" by (rule nth_equalityI) (use ys(2,3) cover in simp_all)
  with ys(1) show ?thesis by simp
qed (rule range)

text \<open>Several threads at once.\<close>

lemma those_map: "(\<And>x. x \<in> set xs \<Longrightarrow> f x = Some (g x)) \<Longrightarrow> those (map f xs) = Some (map g xs)"
  by (induction xs) simp_all

lemma distinct_concat_map:
  assumes "distinct xs" "\<And>x. x \<in> set xs \<Longrightarrow> distinct (g x)"
    and "\<And>x y. x \<in> set xs \<Longrightarrow> y \<in> set xs \<Longrightarrow> x \<noteq> y \<Longrightarrow> set (g x) \<inter> set (g y) = {}"
  shows "distinct (concat (map g xs))"
  using assms
proof (induction xs)
  case (Cons x xs)
  then have "set (g x) \<inter> set (concat (map g xs)) = {}" by auto
  with Cons show ?case by auto
qed simp

lemma in_concat_upt: "i \<in> set (concat (map f [0..<n])) \<longleftrightarrow> (\<exists>t < n. i \<in> set (f t))"
  by (auto simp: Bex_def)

end
