(* ===== verification/CudaElementwise.thy ===== *)
theory CudaElementwise
  imports Simt CpuRef
begin

text \<open>
  The generated elementwise kernels (\<open>LowerToCuda.cpp\<close>): GELU and SiLU with a grid-stride loop over
  pairs of elements and a scalar tail. Indices are \<open>int\<close>; leaving that type makes the run undefined.
\<close>

definition kBlockThreads :: nat where "kBlockThreads = 256"
definition kMaxBlocks :: nat where "kMaxBlocks = 65535"

text \<open>The body both kernels share, for the function \<open>f\<close> applied to one element.\<close>

definition elementwise_thread :: "(u16 \<Rightarrow> u16) \<Rightarrow> u16 list \<Rightarrow> nat \<Rightarrow> nat \<Rightarrow> nat \<Rightarrow> u16 store list option" where
  "elementwise_thread f input n stride tid = do {
     let n2 = n - n mod 2;
     stores \<leftarrow> stride_loop (tid * 2) (stride * 2) n2 (\<lambda>i stores. do {
         x \<leftarrow> rd input i;
         y \<leftarrow> rd input (i + 1);
         Some (stores @ [(i, f x), (i + 1, f y)])
       }) [];
     if n mod 2 = 1 \<and> tid = 0
     then do { x \<leftarrow> rd input (n - 1); Some (stores @ [(n - 1, f x)]) }
     else Some stores
   }"

definition launch_elementwise :: "u16 sched \<Rightarrow> (u16 \<Rightarrow> u16) \<Rightarrow> u16 list \<Rightarrow> u16 list \<Rightarrow> nat \<Rightarrow> u16 list option" where
  "launch_elementwise sched f input output n =
     (let pairs = n div 2;
          blocks = (pairs + kBlockThreads - 1) div kBlockThreads;
          blocks = (if blocks < 1 then 1 else blocks);
          blocks = (if kMaxBlocks < blocks then kMaxBlocks else blocks);
          stride = blocks * kBlockThreads
      in do {
           stores \<leftarrow> those (map (elementwise_thread f input n stride) [0..<stride]);
           apply_stores output (sched [] stores)
         })"

definition kInvSqrt2D :: double where
  "kInvSqrt2D = d_lit 70710678118654752440 (10 ^ 20)"

definition gelu_one :: "device \<Rightarrow> u32 \<Rightarrow> u32" where
  "gelu_one dev x = f32_mul (f32_mul half_lit x)
     (f32_add f32_one (f64_to_f32 (dev_erf dev (d_mul (f32_to_f64 x) kInvSqrt2D))))"

definition gelu_elem :: "device \<Rightarrow> u16 \<Rightarrow> u16" where
  "gelu_elem dev x = float2bf16 dev (gelu_one dev (bf162float dev x))"

definition launch_gelu :: "device \<Rightarrow> u16 sched \<Rightarrow> u16 list \<Rightarrow> u16 list \<Rightarrow> nat \<Rightarrow> u16 list option" where
  "launch_gelu dev sched input output n = launch_elementwise sched (gelu_elem dev) input output n"

definition silu_one :: "device \<Rightarrow> u32 \<Rightarrow> u32" where
  "silu_one dev x = f32_div x (f32_add f32_one (dev_expf dev (f32_neg x)))"

definition silu_elem :: "device \<Rightarrow> u16 \<Rightarrow> u16" where
  "silu_elem dev x = float2bf16 dev (silu_one dev (bf162float dev x))"

definition launch_silu :: "device \<Rightarrow> u16 sched \<Rightarrow> u16 list \<Rightarrow> u16 list \<Rightarrow> nat \<Rightarrow> u16 list option" where
  "launch_silu dev sched input output n = launch_elementwise sched (silu_elem dev) input output n"

section \<open>Every element is computed once\<close>

definition pair_stores :: "(nat \<Rightarrow> u16) \<Rightarrow> nat \<Rightarrow> u16 store list" where
  "pair_stores v p = [(2 * p, v (2 * p)), (2 * p + 1, v (2 * p + 1))]"

definition tail_stores :: "(nat \<Rightarrow> u16) \<Rightarrow> nat \<Rightarrow> nat \<Rightarrow> u16 store list" where
  "tail_stores v n tid = (if n mod 2 = 1 \<and> tid = 0 then [(n - 1, v (n - 1))] else [])"

definition thread_stores :: "(nat \<Rightarrow> u16) \<Rightarrow> nat \<Rightarrow> nat \<Rightarrow> nat \<Rightarrow> u16 store list" where
  "thread_stores v n stride tid =
     concat (map (\<lambda>k. pair_stores v (tid + k * stride)) [0..<trips (tid * 2) (stride * 2) (n - n mod 2)]) @ tail_stores v n tid"

lemma pair_in_range: "p < n div 2 \<Longrightarrow> 2 * p + 1 < (n :: nat)"
  by presburger

lemma trip_iff:
  assumes "0 < stride"
  shows "k < trips (tid * 2) (stride * 2) (n - n mod 2) \<longleftrightarrow> tid + k * stride < n div 2"
proof -
  have "k < trips (tid * 2) (stride * 2) (n - n mod 2) \<longleftrightarrow> tid * 2 + k * (stride * 2) < n - n mod 2"
    using assms by (intro trips_iff) simp
  also have "\<dots> \<longleftrightarrow> 2 * (tid + k * stride) < 2 * (n div 2)" by (simp add: minus_mod_eq_mult_div algebra_simps)
  also have "\<dots> \<longleftrightarrow> tid + k * stride < n div 2" by (rule nat_mult_less_cancel1) simp
  finally show ?thesis .
qed

text \<open>A loop over the pairs of one thread.\<close>

lemma pair_fold:
  assumes "0 < stride" "in_i32 (int (n + stride * 2))"
    and "\<And>p st. p < n div 2 \<Longrightarrow> f (2 * p) st = Some (g p st)"
  shows "stride_loop (tid * 2) (stride * 2) (n - n mod 2) f s =
    Some (foldl (\<lambda>st k. g (tid + k * stride) st) s [0..<trips (tid * 2) (stride * 2) (n - n mod 2)])"
proof (rule stride_loop_eq)
  show "in_i32 (int (n - n mod 2 + stride * 2))" by (rule in_i32_le [OF _ assms(2)]) simp
  fix k st assume k: "tid * 2 + k * (stride * 2) < n - n mod 2"
  then have "k < trips (tid * 2) (stride * 2) (n - n mod 2)" using trips_iff assms(1) by simp
  then have "tid + k * stride < n div 2" using trip_iff [OF assms(1)] by blast
  from assms(3) [OF this, of st] show "f (tid * 2 + k * (stride * 2)) st = Some (g (tid + k * stride) st)"
    by (simp add: algebra_simps)
qed (use assms(1) in simp)

lemma pair_loop:
  assumes "0 < stride" "in_i32 (int (n + stride * 2))"
    and "\<And>p st. p < n div 2 \<Longrightarrow> f (2 * p) st = Some (st @ g p)"
  shows "stride_loop (tid * 2) (stride * 2) (n - n mod 2) f [] =
    Some (concat (map (\<lambda>k. g (tid + k * stride)) [0..<trips (tid * 2) (stride * 2) (n - n mod 2)]))"
  using pair_fold [where f = f and g = "\<lambda>p st. st @ g p" and s = "[]", OF assms] by (simp add: foldl_snoc_concat)

lemma elementwise_thread_eq:
  assumes "length input = n" "0 < stride" "in_i32 (int (n + stride * 2))"
  shows "elementwise_thread f input n stride tid = Some (thread_stores (\<lambda>i. f (input ! i)) n stride tid)"
proof -
  have "stride_loop (tid * 2) (stride * 2) (n - n mod 2) (\<lambda>i stores. rd input i \<bind> (\<lambda>x. rd input (i + 1) \<bind> (\<lambda>y.
      Some (stores @ [(i, f x), (i + 1, f y)])))) [] =
    Some (concat (map (\<lambda>k. pair_stores (\<lambda>i. f (input ! i)) (tid + k * stride)) [0..<trips (tid * 2) (stride * 2) (n - n mod 2)]))"
    by (rule pair_loop [OF assms(2,3), where g = "pair_stores (\<lambda>i. f (input ! i))"]) (use pair_in_range assms(1) in \<open>simp add: pair_stores_def rd_def Suc_lessD\<close>)
  moreover have "n mod 2 = 1 \<Longrightarrow> n - 1 < length input" using assms(1) by (cases n) simp_all
  ultimately show ?thesis by (simp add: elementwise_thread_def thread_stores_def tail_stores_def)
qed

lemma thread_stores_mem:
  assumes "0 < stride"
  shows "(i, w) \<in> set (thread_stores v n stride tid) \<longleftrightarrow>
    w = v i \<and> ((\<exists>k. tid + k * stride < n div 2 \<and> i div 2 = tid + k * stride) \<or> n mod 2 = 1 \<and> tid = 0 \<and> i = n - 1)"
proof -
  have "i = 2 * p \<or> i = 2 * p + 1 \<longleftrightarrow> i div 2 = p" for p :: nat by presburger
  moreover have "(i, w) \<in> set (pair_stores v p) \<longleftrightarrow> w = v i \<and> (i = 2 * p \<or> i = 2 * p + 1)" for p
    by (auto simp: pair_stores_def)
  ultimately have "(i, w) \<in> set (pair_stores v p) \<longleftrightarrow> w = v i \<and> i div 2 = p" for p by blast
  moreover have "(i, w) \<in> set (tail_stores v n tid) \<longleftrightarrow> w = v i \<and> n mod 2 = 1 \<and> tid = 0 \<and> i = n - 1"
    by (auto simp: tail_stores_def)
  ultimately show ?thesis by (auto simp: thread_stores_def Bex_def trip_iff [OF assms])
qed

lemma distinct_thread_stores:
  assumes "0 < stride"
  shows "distinct (map fst (thread_stores v n stride tid))"
proof -
  let ?keys = "\<lambda>k. [2 * (tid + k * stride), 2 * (tid + k * stride) + 1]"
  define ks where "ks = concat (map ?keys [0..<trips (tid * 2) (stride * 2) (n - n mod 2)])"
  have "distinct ks"
    unfolding ks_def
  proof (rule distinct_concat_map)
    fix k k' :: nat assume "k \<noteq> k'"
    then have "tid + k * stride \<noteq> tid + k' * stride" using assms by simp
    then have "2 * (tid + k * stride) + a \<noteq> 2 * (tid + k' * stride) + b" if "a < 2" "b < 2" for a b :: nat
      using that by presburger
    from this [of 0 0] this [of 0 1] this [of 1 0] this [of 1 1]
    show "set (?keys k) \<inter> set (?keys k') = {}" by simp
  qed simp_all
  moreover have "n - 1 \<notin> set ks" if "n mod 2 = 1"
  proof
    assume "n - 1 \<in> set ks"
    then obtain p where "p < n div 2" "n - 1 = 2 * p \<or> n - 1 = 2 * p + 1"
      unfolding ks_def in_concat_upt trip_iff [OF assms] by auto
    with that show False by presburger
  qed
  moreover have "map fst (thread_stores v n stride tid) =
      ks @ (if n mod 2 = 1 \<and> tid = 0 then [n - 1] else [])"
    by (simp add: ks_def thread_stores_def map_concat comp_def pair_stores_def tail_stores_def)
  ultimately show ?thesis by simp
qed

lemma threads_cover:
  assumes s: "0 < stride"
  shows "(i, w) \<in> set (concat (map (thread_stores v n stride) [0..<stride])) \<longleftrightarrow> i < n \<and> w = v i"
proof -
  have "(\<exists>tid < stride. (\<exists>k. tid + k * stride < n div 2 \<and> i div 2 = tid + k * stride) \<or> n mod 2 = 1 \<and> tid = 0 \<and> i = n - 1) \<longleftrightarrow> i < n"
    proof
      assume "i < n"
      then have "i div 2 < n div 2 \<or> n mod 2 = 1 \<and> i = n - 1" by presburger
      moreover have "i div 2 = i div 2 mod stride + i div 2 div stride * stride" by simp
      moreover have "i div 2 mod stride < stride" using s by simp
      ultimately show "\<exists>tid < stride. (\<exists>k. tid + k * stride < n div 2 \<and> i div 2 = tid + k * stride) \<or> n mod 2 = 1 \<and> tid = 0 \<and> i = n - 1"
        using s by metis
    next
      assume "\<exists>tid < stride. (\<exists>k. tid + k * stride < n div 2 \<and> i div 2 = tid + k * stride) \<or> n mod 2 = 1 \<and> tid = 0 \<and> i = n - 1"
      then have "i div 2 < n div 2 \<or> n mod 2 = 1 \<and> i = n - 1" by auto
      then show "i < n" by presburger
    qed
    then show ?thesis unfolding set_concat set_map by (auto simp: thread_stores_mem [OF s]) 
qed

lemma threads_distinct:
  assumes s: "0 < stride"
  shows "distinct (map fst (concat (map (thread_stores v n stride) [0..<stride])))"
proof -
  let ?ps = "map (thread_stores v n stride) [0..<stride]"
  have keys: "map fst (concat ?ps) = concat (map (\<lambda>tid. map fst (thread_stores v n stride tid)) [0..<stride])"
    by (simp add: map_concat comp_def)
  show "distinct (map fst (concat ?ps))"
    unfolding keys
  proof (rule distinct_concat_map)
    fix tid tid' :: nat assume t: "tid \<in> set [0..<stride]" "tid' \<in> set [0..<stride]" "tid \<noteq> tid'"
    { fix i assume "i \<in> set (map fst (thread_stores v n stride tid))" "i \<in> set (map fst (thread_stores v n stride tid'))"
      then obtain w w' where "(i, w) \<in> set (thread_stores v n stride tid)" "(i, w') \<in> set (thread_stores v n stride tid')" by auto
      then have o: "(\<exists>k. tid + k * stride < n div 2 \<and> i div 2 = tid + k * stride) \<or> n mod 2 = 1 \<and> tid = 0 \<and> i = n - 1"
        "(\<exists>k. tid' + k * stride < n div 2 \<and> i div 2 = tid' + k * stride) \<or> n mod 2 = 1 \<and> tid' = 0 \<and> i = n - 1"
        unfolding thread_stores_mem [OF s] by blast+
      have "\<not> (n mod 2 = 1 \<and> i = n - 1 \<and> i div 2 < n div 2)" by presburger
      with o t(3) obtain k k' where "i div 2 = tid + k * stride" "i div 2 = tid' + k' * stride" by auto
      then have "tid = tid'" using t(1,2) by (metis atLeastLessThan_iff mod_less mod_mult_self1 set_upt)
      with t(3) have False by simp }
    then show "set (map fst (thread_stores v n stride tid)) \<inter> set (map fst (thread_stores v n stride tid')) = {}"
      by (intro Int_emptyI)
  qed (simp_all add: distinct_thread_stores [OF s] del: set_map map_map)
qed

lemma launch_elementwise_eq:
  assumes sched: "fair sched" and len: "length input = n" "length output = n" and n: "n \<le> 2 ^ 31 - 2 ^ 25"
  shows "launch_elementwise sched f input output n = Some (map f input)"
proof -
  define blocks where "blocks = (let b = (n div 2 + kBlockThreads - 1) div kBlockThreads; b = (if b < 1 then 1 else b)
      in if kMaxBlocks < b then kMaxBlocks else b)"
  define stride where "stride = blocks * kBlockThreads"
  have b: "1 \<le> blocks" "blocks \<le> 65535" by (auto simp: blocks_def Let_def kMaxBlocks_def)
  then have s: "0 < stride" "stride * 2 < 2 ^ 25" by (simp_all add: stride_def kBlockThreads_def)
  then have i32: "in_i32 (int (n + stride * 2))" using n by (simp add: in_i32_def)
  let ?ps = "map (thread_stores (\<lambda>i. f (input ! i)) n stride) [0..<stride]"
  have those: "those (map (elementwise_thread f input n stride) [0..<stride]) = Some ?ps"
    by (rule those_map) (use elementwise_thread_eq [OF len(1) s(1) i32] in simp)
  have "apply_stores output (sched [] ?ps) = Some (map (\<lambda>i. f (input ! i)) [0..<length output])"
    by (rule phase_fill [OF sched threads_distinct [OF s(1)]]) (simp_all only: threads_cover [OF s(1)] len)
  also have "map (\<lambda>i. f (input ! i)) [0..<length output] = map f input" by (rule nth_equalityI) (simp_all add: len)
  finally have "apply_stores output (sched [] ?ps) = Some (map f input)" .
  moreover have "launch_elementwise sched f input output n =
      those (map (elementwise_thread f input n stride) [0..<stride]) \<bind> (\<lambda>stores. apply_stores output (sched [] stores))"
    unfolding launch_elementwise_def stride_def blocks_def Let_def ..
  ultimately show ?thesis by (simp add: those)
qed

text \<open>The SiLU kernel computes what the CPU reference computes: for every interleaving of its threads,
  any grid size the launch picks, odd lengths included, each element of the output is stored once
  and has the reference's bits, unless the result is a NaN, whose pattern is the device's.\<close>

theorem launch_silu_matches_cpu:
  assumes "ieee_device dev" "dev_expf dev = expf lm" "fair sched" "length input = n" "length output = n" "n \<le> 2 ^ 31 - 2 ^ 25"
  shows "\<exists>gpu cpu. launch_silu dev sched input output n = Some gpu \<and> launch_silu_cpu lm input output n = Some cpu \<and>
    length gpu = n \<and> (\<forall>i < n. \<not> f32_is_nan (silu_one dev (bf162float dev (input ! i))) \<longrightarrow> gpu ! i = cpu ! i)"
proof -
  have "launch_silu dev sched input output n = Some (map (silu_elem dev) input)"
    unfolding launch_silu_def by (rule launch_elementwise_eq) (rule assms)+
  moreover have "launch_silu_cpu lm input output n = Some (map (silu_cpu lm) input)"
    using launch_silu_cpu_eq [where lm = lm, of n input "output"] assms(4,5) by simp
  moreover have "silu_elem dev x = silu_cpu lm x" if "\<not> f32_is_nan (silu_one dev (bf162float dev x))" for x
    using that assms(1,2) by (simp add: silu_elem_def silu_cpu_def silu_one_def ieee_device_def Let_def)
  ultimately show ?thesis using assms(4) by simp
qed

theorem launch_silu_matches_cpu_witness:
  "\<exists>gpu cpu. launch_silu host_device in_order
       [0x3F80, 0, 0xBF80] [0, 0, 0] 3 = Some gpu \<and>
     launch_silu_cpu \<lparr>expf = id, erf = id, stof = (\<lambda>s. None)\<rparr> [0x3F80, 0, 0xBF80] [0, 0, 0] 3 = Some cpu \<and> length gpu = 3"
proof -
  have "dev_expf host_device = expf \<lparr>expf = id, erf = id, stof = (\<lambda>s. None)\<rparr>" by (simp add: host_device_def)
  from launch_silu_matches_cpu [OF ieee_host_device this fair_in_order, of "[0x3F80, 0, 0xBF80]" 3 "[0, 0, 0]"]
  show ?thesis by auto
qed

text \<open>Beyond the bound of the theorem the loop index overflows: with the largest grid, thread 0 of a
  launch over \<open>2 ^ 31 - 2\<close> elements adds past \<open>INT_MAX\<close> after its last pair.\<close>

lemma elementwise_overflow:
  "elementwise_thread f input (2 ^ 31 - 2) (65535 * 256) 0 = None"
proof -
  have o: "\<not> in_i32 (int (0 * 2 + 64 * (65535 * 256 * 2) + 65535 * 256 * 2))" by (simp add: in_i32_def)
  have "stride_loop (0 * 2) (65535 * 256 * 2) (2 ^ 31 - 2 - (2 ^ 31 - 2) mod 2) F [] = None" for F :: "nat \<Rightarrow> u16 store list \<Rightarrow> u16 store list option"
    unfolding stride_loop_def loop_by_def
  proof (rule loop_None [of 64])
    fix s show "F (0 * 2 + 64 * (65535 * 256 * 2)) s \<bind>
      (\<lambda>s. if in_i32 (int (0 * 2 + 64 * (65535 * 256 * 2) + 65535 * 256 * 2)) then Some s else None) = None"
      unfolding if_not_P [OF o] by (cases "F (0 * 2 + 64 * (65535 * 256 * 2)) s") simp_all
  qed simp
  then show ?thesis unfolding elementwise_thread_def Let_def by (simp only: bind.simps)
qed

end
