(* ===== verification/CudaGemm.thy ===== *)
theory CudaGemm
  imports CudaElementwise
begin

text \<open>
  The generated matrix product kernels (\<open>LowerToCuda.cpp\<close>): the tiled product, and the two fused
  kernels that put RMSNorm into its load and bias and GELU into its store. Their bodies share the
  tile loop, which is \<open>gemm_tile\<close>: every thread stages one element of A and one of B into shared
  memory, a barrier, every thread accumulates sixteen products, a barrier. Thread \<open>tid\<close> of a
  block is \<open>threadIdx = (tid mod 16, tid div 16)\<close>.
\<close>

section \<open>The tile loop\<close>

definition kBlockM_gemm :: nat where "kBlockM_gemm = 16"
definition kBlockN_gemm :: nat where "kBlockN_gemm = 16"
definition kBlockK_gemm :: nat where "kBlockK_gemm = 16"

definition tx :: "nat \<Rightarrow> nat" where "tx tid = tid mod kBlockN_gemm"
definition ty :: "nat \<Rightarrow> nat" where "ty tid = tid div kBlockN_gemm"

definition block_threads :: "nat list" where
  "block_threads = [0..<kBlockN_gemm * kBlockM_gemm]"

text \<open>\<open>As[i][j]\<close> is place \<open>i * 16 + j\<close> of the shared memory, \<open>Bs[i][j]\<close> is \<open>256 + (i * 16 + j)\<close>.\<close>

definition As :: "nat \<Rightarrow> nat \<Rightarrow> nat" where "As i j = i * kBlockK_gemm + j"
definition Bs :: "nat \<Rightarrow> nat \<Rightarrow> nat" where "Bs i j = kBlockM_gemm * kBlockK_gemm + (i * kBlockN_gemm + j)"

definition gemm_stage ::
    "(nat \<Rightarrow> nat \<Rightarrow> 'a option) \<Rightarrow> (nat \<Rightarrow> nat \<Rightarrow> 'a option) \<Rightarrow> nat \<Rightarrow> nat \<Rightarrow> nat \<Rightarrow> nat \<Rightarrow> 'a store list option" where
  "gemm_stage loadA loadB by bx t tid = do {
     a \<leftarrow> loadA (by * kBlockM_gemm + ty tid) (t * kBlockK_gemm + tx tid);
     b \<leftarrow> loadB (t * kBlockK_gemm + ty tid) (bx * kBlockN_gemm + tx tid);
     Some [(As (ty tid) (tx tid), a), (Bs (ty tid) (tx tid), b)]
   }"

text \<open>One multiplication and addition of a thread, on what it staged.\<close>

type_synonym 'a mac = "nat \<Rightarrow> 'a \<Rightarrow> 'a \<Rightarrow> u32 \<Rightarrow> u32 option"

definition bf16_mac :: "device \<Rightarrow> u16 mac" where
  "bf16_mac dev tid x y acc = Some (f32_add acc (f32_mul (bf162float dev x) (bf162float dev y)))"

definition gemm_accumulate :: "'a mac \<Rightarrow> 'a list \<Rightarrow> nat \<Rightarrow> u32 \<Rightarrow> u32 option" where
  "gemm_accumulate mac shared tid acc =
     loop kBlockK_gemm (\<lambda>kk acc. do {
         x \<leftarrow> rd shared (As (ty tid) kk);
         y \<leftarrow> rd shared (Bs kk (tx tid));
         mac tid x y acc
       }) acc"

definition gemm_tile :: "'a mac \<Rightarrow> 'a sched \<Rightarrow> (nat \<Rightarrow> nat \<Rightarrow> 'a option) \<Rightarrow> (nat \<Rightarrow> nat \<Rightarrow> 'a option) \<Rightarrow>
    nat \<Rightarrow> nat \<Rightarrow> nat \<Rightarrow> 'a list \<times> u32 list \<Rightarrow> ('a list \<times> u32 list) option" where
  "gemm_tile mac sched loadA loadB by bx t state = (case state of (shared, accs) \<Rightarrow> do {
     stores \<leftarrow> those (map (gemm_stage loadA loadB by bx t) block_threads);
     shared \<leftarrow> apply_stores shared (sched [by, bx, t] stores);
     accs \<leftarrow> those (map (\<lambda>tid. gemm_accumulate mac shared tid (accs ! tid)) block_threads);
     Some (shared, accs)
   })"

definition gemm_block :: "'a mac \<Rightarrow> 'a sched \<Rightarrow> 'a list \<Rightarrow> (nat \<Rightarrow> nat \<Rightarrow> 'a option) \<Rightarrow> (nat \<Rightarrow> nat \<Rightarrow> 'a option) \<Rightarrow>
    (nat \<Rightarrow> nat \<Rightarrow> u32 \<Rightarrow> u16 store list option) \<Rightarrow> nat \<Rightarrow> nat \<Rightarrow> nat \<Rightarrow> u16 store list list option" where
  "gemm_block mac sched shared loadA loadB epilogue K by bx = do {
     (shared, accs) \<leftarrow> loop ((K + kBlockK_gemm - 1) div kBlockK_gemm) (gemm_tile mac sched loadA loadB by bx)
       (shared, replicate (kBlockN_gemm * kBlockM_gemm) 0);
     those (map (\<lambda>tid. epilogue (by * kBlockM_gemm + ty tid) (bx * kBlockN_gemm + tx tid) (accs ! tid)) block_threads)
   }"

text \<open>The host side: the rounded-up sizes are \<open>int\<close>; the runtime rejects an empty grid and more than
  65535 rows of blocks, which \<open>PK_CHECK\<close> only prints.\<close>

definition grid_launch :: "u16 sched \<Rightarrow> (nat \<Rightarrow> nat \<Rightarrow> u16 store list list option) \<Rightarrow> u16 list \<Rightarrow> nat \<Rightarrow> nat \<Rightarrow> nat \<Rightarrow> u16 list option" where
  "grid_launch sched body C M N K =
     (let gx = (N + kBlockN_gemm - 1) div kBlockN_gemm; gy = (M + kBlockM_gemm - 1) div kBlockM_gemm
      in if \<not> in_i32 (int (M + kBlockM_gemm)) \<or> \<not> in_i32 (int (N + kBlockN_gemm)) \<or> \<not> in_i32 (int (K + kBlockK_gemm)) then None
         else if gx = 0 \<or> gy = 0 \<or> 65535 < gy then Some C
         else do {
           blocks \<leftarrow> those (map (\<lambda>b. body (b div gx) (b mod gx)) [0..<gx * gy]);
           apply_stores C (sched [] (concat blocks))
         })"

section \<open>The kernels\<close>

definition load_matrix_elem :: "device \<Rightarrow> u16 list \<Rightarrow> nat \<Rightarrow> nat \<Rightarrow> nat \<Rightarrow> nat \<Rightarrow> u16 option" where
  "load_matrix_elem dev A rows cols i j = (if i < rows \<and> j < cols then rd A (i * cols + j) else Some (float2bf16 dev 0))"

definition matmul_store :: "device \<Rightarrow> nat \<Rightarrow> nat \<Rightarrow> nat \<Rightarrow> nat \<Rightarrow> u32 \<Rightarrow> u16 store list option" where
  "matmul_store dev M N row col acc = Some (if row < M \<and> col < N then [(row * N + col, float2bf16 dev acc)] else [])"

definition matmul_kernel :: "device \<Rightarrow> u16 sched \<Rightarrow> u16 list \<Rightarrow> u16 list \<Rightarrow> u16 list \<Rightarrow> nat \<Rightarrow> nat \<Rightarrow> nat \<Rightarrow> nat \<Rightarrow> nat \<Rightarrow>
    u16 store list list option" where
  "matmul_kernel dev sched shared A B M N K =
     gemm_block (bf16_mac dev) sched shared (load_matrix_elem dev A M K) (load_matrix_elem dev B K N) (matmul_store dev M N) K"

definition launch_matmul :: "device \<Rightarrow> u16 sched \<Rightarrow> u16 list \<Rightarrow> u16 list \<Rightarrow> u16 list \<Rightarrow> u16 list \<Rightarrow> nat \<Rightarrow> nat \<Rightarrow> nat \<Rightarrow>
    u16 list option" where
  "launch_matmul dev sched shared A B C M N K = grid_launch sched (matmul_kernel dev sched shared A B M N K) C M N K"

definition bias_gelu_store :: "device \<Rightarrow> u16 list \<Rightarrow> nat \<Rightarrow> nat \<Rightarrow> nat \<Rightarrow> nat \<Rightarrow> u32 \<Rightarrow> u16 store list option" where
  "bias_gelu_store dev bias M N row col acc =
     (if row < M \<and> col < N then do {
        let mm = bf162float dev (float2bf16 dev acc);
        b \<leftarrow> rd bias col;
        let biased = bf162float dev (float2bf16 dev (f32_add mm (bf162float dev b)));
        Some [(row * N + col, float2bf16 dev (gelu_one dev biased))]
      } else Some [])"

definition fused_matmul_bias_gelu_kernel :: "device \<Rightarrow> u16 sched \<Rightarrow> u16 list \<Rightarrow> u16 list \<Rightarrow> u16 list \<Rightarrow> u16 list \<Rightarrow>
    nat \<Rightarrow> nat \<Rightarrow> nat \<Rightarrow> nat \<Rightarrow> nat \<Rightarrow> u16 store list list option" where
  "fused_matmul_bias_gelu_kernel dev sched shared A B bias M N K =
     gemm_block (bf16_mac dev) sched shared (load_matrix_elem dev A M K) (load_matrix_elem dev B K N) (bias_gelu_store dev bias M N) K"

definition launch_fused_matmul_bias_gelu :: "device \<Rightarrow> u16 sched \<Rightarrow> u16 list \<Rightarrow> u16 list \<Rightarrow> u16 list \<Rightarrow> u16 list \<Rightarrow> u16 list \<Rightarrow>
    nat \<Rightarrow> nat \<Rightarrow> nat \<Rightarrow> u16 list option" where
  "launch_fused_matmul_bias_gelu dev sched shared a b bias output M N K =
     grid_launch sched (fused_matmul_bias_gelu_kernel dev sched shared a b bias M N K) output M N K"

section \<open>One block\<close>

lemmas gemm_consts = kBlockM_gemm_def kBlockN_gemm_def kBlockK_gemm_def tx_def ty_def As_def Bs_def block_threads_def

lemma distinct_shared: "n \<le> 256 \<Longrightarrow> distinct (concat (map (\<lambda>t. [t, 256 + t]) [0..<n]))"
  by (induction n) auto

lemma upt_split_at: "m \<le> n \<Longrightarrow> [0..<n] = [0..<m] @ [m..<n]"
  using upt_add_eq_append [of 0 m "n - m"] by simp

text \<open>The accumulator over \<open>n\<close> staged columns.\<close>

definition staged_fold :: "('a \<Rightarrow> 'a \<Rightarrow> u32 \<Rightarrow> u32) \<Rightarrow> (nat \<Rightarrow> nat \<Rightarrow> 'a) \<Rightarrow> (nat \<Rightarrow> nat \<Rightarrow> 'a) \<Rightarrow> nat \<Rightarrow> nat \<Rightarrow> nat \<Rightarrow> u32" where
  "staged_fold h la lb row col n = foldl (\<lambda>acc k. h (la row k) (lb k col) acc) 0 [0..<n]"

lemma gemm_tile_eq:
  assumes mac: "\<And>tid i k j acc. tid < 256 \<Longrightarrow> mac tid (la i k) (lb k j) acc = Some (h tid (la i k) (lb k j) acc)"
    and sched: "fair sched" and sh: "length shared = 512"
    and la: "loadA = (\<lambda>i k. Some (la i k))" and lb: "loadB = (\<lambda>k j. Some (lb k j))"
  shows "\<exists>shared'. length shared' = 512 \<and>
    gemm_tile mac sched loadA loadB by bx t
      (shared, map (\<lambda>tid. staged_fold (h tid) la lb (by * 16 + tid div 16) (bx * 16 + tid mod 16) (t * 16)) [0..<256]) =
    Some (shared', map (\<lambda>tid. staged_fold (h tid) la lb (by * 16 + tid div 16) (bx * 16 + tid mod 16) (Suc t * 16)) [0..<256])"
proof -
  define ps where "ps = map (\<lambda>tid. [(tid, la (by * 16 + tid div 16) (t * 16 + tid mod 16)),
      (256 + tid, lb (t * 16 + tid div 16) (bx * 16 + tid mod 16))]) [0..<256]"
  have stage: "those (map (gemm_stage loadA loadB by bx t) block_threads) = Some ps"
    unfolding ps_def block_threads_def kBlockM_gemm_def kBlockN_gemm_def
    by (simp only: num_double mult_numeral_1_right numeral_times_numeral semiring_norm, rule those_map)
      (simp add: gemm_stage_def la lb gemm_consts)
  have fst: "map fst (concat ps) = concat (map (\<lambda>t. [t, 256 + t]) [0..<256])"
    by (simp add: ps_def map_concat comp_def)
  then have d: "distinct (map fst (concat ps))" using distinct_shared [of 256] by simp
  have inr: "i < length shared" if "(i, v) \<in> set (concat ps)" for i v
    using that unfolding sh ps_def by auto
  obtain shared' where s: "apply_stores shared (sched [by, bx, t] ps) = Some shared'" "length shared' = length shared"
    "\<And>i v. (i, v) \<in> set (concat ps) \<Longrightarrow> shared' ! i = v"
    by (rule phase_result [where phase = "[by, bx, t]" and xs = shared, OF sched d]) (rule inr, assumption, blast)
  have A: "shared' ! (r * 16 + kk) = la (by * 16 + r) (t * 16 + kk)" if "r < 16" "kk < 16" for r kk
  proof (rule s(3))
    have "r * 16 + kk \<in> {0..<256}" "(r * 16 + kk) div 16 = r" "(r * 16 + kk) mod 16 = kk" using that by simp_all
    then show "(r * 16 + kk, la (by * 16 + r) (t * 16 + kk)) \<in> set (concat ps)"
      unfolding ps_def by (force simp del: atLeastLessThan_iff)
  qed
  have B: "shared' ! (256 + (kk * 16 + c)) = lb (t * 16 + kk) (bx * 16 + c)" if "kk < 16" "c < 16" for kk c
  proof (rule s(3))
    have "kk * 16 + c \<in> {0..<256}" "(kk * 16 + c) div 16 = kk" "(kk * 16 + c) mod 16 = c" using that by simp_all
    then show "(256 + (kk * 16 + c), lb (t * 16 + kk) (bx * 16 + c)) \<in> set (concat ps)"
      unfolding ps_def by (force simp del: atLeastLessThan_iff)
  qed
  have acc: "gemm_accumulate mac shared' tid (staged_fold (h tid) la lb (by * 16 + tid div 16) (bx * 16 + tid mod 16) (t * 16)) =
      Some (staged_fold (h tid) la lb (by * 16 + tid div 16) (bx * 16 + tid mod 16) (Suc t * 16))" if "tid < 256" for tid
  proof -
    let ?f = "\<lambda>acc k. h tid (la (by * 16 + tid div 16) k) (lb k (bx * 16 + tid mod 16)) acc"
    have q: "tid div 16 < 16" "tid mod 16 < 16" using that by simp_all
    have "gemm_accumulate mac shared' tid a = Some (foldl (\<lambda>acc kk. ?f acc (t * 16 + kk)) a [0..<16])" for a
      unfolding gemm_accumulate_def gemm_consts mult_numeral_1_right numeral_times_numeral semiring_norm
    proof (rule loop_pure)
      fix kk acc assume kk: "kk < (16 :: nat)"
      then have "tid div 16 * 16 + kk < length shared'" "256 + (kk * 16 + tid mod 16) < length shared'"
        unfolding s(2) sh using q by simp_all
      then have r: "rd shared' (tid div 16 * 16 + kk) = Some (la (by * 16 + tid div 16) (t * 16 + kk))"
        "rd shared' (256 + (kk * 16 + tid mod 16)) = Some (lb (t * 16 + kk) (bx * 16 + tid mod 16))"
        using A [OF q(1) kk] B [OF kk q(2)] by (simp_all add: rd_def)
      show "rd shared' (tid div 16 * 16 + kk) \<bind> (\<lambda>x. rd shared' (256 + (kk * 16 + tid mod 16)) \<bind> (\<lambda>y. mac tid x y acc)) =
          Some (?f acc (t * 16 + kk))"
        unfolding r Option.bind.simps by (rule mac [OF that])
    qed
    also have "foldl (\<lambda>acc kk. ?f acc (t * 16 + kk)) a [0..<16] = foldl ?f a [t * 16..<Suc t * 16]" for a
    proof -
      have "[t * 16..<Suc t * 16] = map (\<lambda>kk. t * 16 + kk) [0..<16]" by (simp add: map_add_upt add.commute)
      then show ?thesis by (simp only: foldl_map)
    qed
    also have "foldl ?f (foldl ?f 0 [0..<t * 16]) [t * 16..<Suc t * 16] = foldl ?f 0 [0..<Suc t * 16]"
    proof -
      have u: "[0..<Suc t * 16] = [0..<t * 16] @ [t * 16..<Suc t * 16]" by (rule upt_split_at) simp
      show ?thesis unfolding u foldl_append ..
    qed
    finally show ?thesis by (simp only: staged_fold_def)
  qed
  have "those (map (\<lambda>tid. gemm_accumulate mac shared' tid
      (map (\<lambda>tid. staged_fold (h tid) la lb (by * 16 + tid div 16) (bx * 16 + tid mod 16) (t * 16)) [0..<256] ! tid)) [0..<256]) =
    Some (map (\<lambda>tid. staged_fold (h tid) la lb (by * 16 + tid div 16) (bx * 16 + tid mod 16) (Suc t * 16)) [0..<256])"
    by (rule those_map) (use acc in simp)
  moreover have "block_threads = [0..<256]" by (simp add: gemm_consts)
  ultimately show ?thesis using s(1,2) sh stage unfolding gemm_tile_def by (intro exI [of _ shared']) (simp only: prod.case Option.bind.simps simp_thms)
qed

lemma gemm_block_fold:
  assumes mac: "\<And>tid i k j acc. tid < 256 \<Longrightarrow> mac tid (la i k) (lb k j) acc = Some (h tid (la i k) (lb k j) acc)"
    and sched: "fair sched" and sh: "length shared = 512"
    and la: "loadA = (\<lambda>i k. Some (la i k))" and lb: "loadB = (\<lambda>k j. Some (lb k j))"
    and ep: "\<And>row col acc. epilogue row col acc = Some (ep row col acc)"
  shows "gemm_block mac sched shared loadA loadB epilogue K by bx = Some (map (\<lambda>tid.
    ep (by * 16 + tid div 16) (bx * 16 + tid mod 16)
      (staged_fold (h tid) la lb (by * 16 + tid div 16) (bx * 16 + tid mod 16) ((K + 15) div 16 * 16))) [0..<256])"
proof -
  let ?accs = "\<lambda>n. map (\<lambda>tid. staged_fold (h tid) la lb (by * 16 + tid div 16) (bx * 16 + tid mod 16) (n * 16)) [0..<256]"
  have zero: "replicate (kBlockN_gemm * kBlockM_gemm) 0 = ?accs 0"
    by (simp add: gemm_consts staged_fold_def map_replicate_const)
  have kt: "(K + kBlockK_gemm - 1) div kBlockK_gemm = (K + 15) div 16" by (simp add: kBlockK_gemm_def)
  have "\<exists>s. loop ((K + 15) div 16) (gemm_tile mac sched loadA loadB by bx) (shared, ?accs 0) = Some s \<and>
      length (fst s) = 512 \<and> snd s = ?accs ((K + 15) div 16)"
  proof (rule loop_inv [where P = "\<lambda>t s. length (fst s) = 512 \<and> snd s = ?accs t"])
    fix t and s :: "'a list \<times> u32 list" assume s: "length (fst s) = 512 \<and> snd s = ?accs t"
    then obtain sh where sh: "s = (sh, ?accs t)" "length sh = 512" by (metis prod.collapse)
    obtain sh' where "length sh' = 512" "gemm_tile mac sched loadA loadB by bx t (sh, ?accs t) = Some (sh', ?accs (Suc t))"
      using gemm_tile_eq [where mac = mac and h = h, OF mac sched sh(2) la lb] by blast
    then show "\<exists>s'. gemm_tile mac sched loadA loadB by bx t s = Some s' \<and> (length (fst s') = 512 \<and> snd s' = ?accs (Suc t))"
      unfolding sh(1) by (intro exI [of _ "(sh', ?accs (Suc t))"]) (simp only: fst_conv snd_conv simp_thms)
  qed (simp add: sh)
  then obtain sh where run: "loop ((K + 15) div 16) (gemm_tile mac sched loadA loadB by bx) (shared, ?accs 0) =
      Some (sh, ?accs ((K + 15) div 16))" by (metis prod.collapse)
  have th: "block_threads = [0..<256]" by (simp add: gemm_consts)
  show ?thesis unfolding gemm_block_def zero kt run Option.bind.simps prod.case th
    by (rule those_map) (simp add: ep gemm_consts)
qed

text \<open>The dot product over \<open>n\<close> staged columns.\<close>

definition staged_dot :: "(nat \<Rightarrow> nat \<Rightarrow> u16) \<Rightarrow> (nat \<Rightarrow> nat \<Rightarrow> u16) \<Rightarrow> nat \<Rightarrow> nat \<Rightarrow> nat \<Rightarrow> u32" where
  "staged_dot la lb row col n =
     foldl (\<lambda>acc k. f32_add acc (f32_mul (bf16_to_float (la row k)) (bf16_to_float (lb k col)))) 0 [0..<n]"

lemma gemm_block_eq:
  assumes dev: "ieee_device dev" and sched: "fair sched" and sh: "length shared = 512"
    and la: "loadA = (\<lambda>i k. Some (la i k))" and lb: "loadB = (\<lambda>k j. Some (lb k j))"
    and ep: "\<And>row col acc. epilogue row col acc = Some (ep row col acc)"
  shows "gemm_block (bf16_mac dev) sched shared loadA loadB epilogue K by bx = Some (map (\<lambda>tid.
    ep (by * 16 + tid div 16) (bx * 16 + tid mod 16)
      (staged_dot la lb (by * 16 + tid div 16) (bx * 16 + tid mod 16) ((K + 15) div 16 * 16))) [0..<256])"
proof -
  have "bf16_mac dev tid (la i k) (lb k j) acc = Some (f32_add acc (f32_mul (bf16_to_float (la i k)) (bf16_to_float (lb k j))))" for tid i k j acc
    using dev by (simp add: bf16_mac_def ieee_device_def)
  from gemm_block_fold [where h = "\<lambda>tid x y acc. f32_add acc (f32_mul (bf16_to_float x) (bf16_to_float y))", OF this sched sh la lb ep]
  show ?thesis by (simp only: staged_fold_def staged_dot_def)
qed

text \<open>The padding of the last tile is absorbed: its products are zeros and the accumulator is
  never the negative zero.\<close>

lemma canonical_dot: "canonical (foldl (\<lambda>acc k. f32_add acc (g k)) 0 [0..<n])"
proof (induction n)
  case (Suc n)
  then show ?case by (simp add: canonical_add)
qed (simp add: canonical_0)

lemma staged_dot_pad:
  assumes "K \<le> n" "\<And>k. K \<le> k \<Longrightarrow> la row k = 0 \<and> lb k col = 0"
  shows "staged_dot la lb row col n = staged_dot la lb row col K"
  using assms(1)
proof (induction n)
  case (Suc n)
  show ?case
  proof (cases "K = Suc n")
    case False
    then have "la row n = 0" "lb n col = 0" "staged_dot la lb row col n = staged_dot la lb row col K"
      using Suc assms(2) [of n] by simp_all
    moreover have "bf16_to_float 0 = 0" by (simp add: bf16_to_float_def)
    moreover have "canonical (staged_dot la lb row col K)" unfolding staged_dot_def by (rule canonical_dot)
    ultimately show ?thesis using canonical_add_zero by (simp add: staged_dot_def f32_mul_zero)
  qed simp
qed simp

section \<open>The grid\<close>

lemma tile_index:
  fixes row col M N :: nat
  assumes "row < M" "col < N"
  defines "gx \<equiv> (N + 15) div 16" and "gy \<equiv> (M + 15) div 16"
  shows "row div 16 * gx + col div 16 < gx * gy" "(row div 16 * gx + col div 16) div gx = row div 16"
    "(row div 16 * gx + col div 16) mod gx = col div 16" "row mod 16 * 16 + col mod 16 < 256"
    "(row mod 16 * 16 + col mod 16) div 16 = row mod 16" "(row mod 16 * 16 + col mod 16) mod 16 = col mod 16"
proof -
  have c: "col div 16 < gx" "row div 16 < gy" using assms(1,2) unfolding gx_def gy_def by linarith+
  then show "row div 16 * gx + col div 16 < gx * gy" by (rule index_lt)
  show "(row div 16 * gx + col div 16) div gx = row div 16" "(row div 16 * gx + col div 16) mod gx = col div 16"
    using c(1) by simp_all
  have "col mod 16 < 16" "row mod 16 < 16" by simp_all
  then show "row mod 16 * 16 + col mod 16 < 256" using index_lt [of "col mod 16" 16 "row mod 16" 16] by simp
qed simp_all

lemma concat_of_concat: "concat (concat xs) = concat (map concat xs)"
  by (induction xs) simp_all

lemma grid_launch_eq:
  assumes sched: "fair sched" and C: "length C = M * N"
    and sizes: "in_i32 (int (M + 16))" "in_i32 (int (N + 16))" "in_i32 (int (K + 16))" "M \<le> 65535 * 16"
    and body: "\<And>b x. body b x = Some (map (\<lambda>tid. let row = b * 16 + tid div 16; col = x * 16 + tid mod 16 in
        if row < M \<and> col < N then [(row * N + col, v row col)] else []) [0..<256])"
  shows "grid_launch sched body C M N K = Some (tabulate M N v)"
proof -
  define gx gy where "gx = (N + 15) div 16" and "gy = (M + 15) div 16"
  have g: "(N + kBlockN_gemm - 1) div kBlockN_gemm = gx" "(M + kBlockM_gemm - 1) div kBlockM_gemm = gy"
    by (simp_all add: gx_def gy_def gemm_consts)
  have small: "\<not> 65535 < gy" using sizes(4) unfolding gy_def by linarith
  define row col where "row b tid = b div gx * 16 + tid div 16" and "col b tid = b mod gx * 16 + tid mod 16" for b tid
  define st where "st b tid = (if row b tid < M \<and> col b tid < N then [(row b tid * N + col b tid, v (row b tid) (col b tid))] else [])"
    for b tid
  define ps where "ps = concat (map (\<lambda>b. map (st b) [0..<256]) [0..<gx * gy])"
  have blocks: "those (map (\<lambda>b. body (b div gx) (b mod gx)) [0..<gx * gy]) = Some (map (\<lambda>b. map (st b) [0..<256]) [0..<gx * gy])"
    by (rule those_map) (simp add: body st_def [abs_def] row_def col_def Let_def)
  have flat: "concat ps = concat (map (\<lambda>b. concat (map (st b) [0..<256])) [0..<gx * gy])"
    unfolding ps_def by (simp add: concat_of_concat comp_def)
  have st_mem: "(i, w) \<in> set (st b tid) \<longleftrightarrow>
      row b tid < M \<and> col b tid < N \<and> i = row b tid * N + col b tid \<and> w = v (row b tid) (col b tid)" for i w b tid
    by (auto simp: st_def)
  have mem: "(i, w) \<in> set (concat ps) \<longleftrightarrow>
      (\<exists>b < gx * gy. \<exists>tid < 256. row b tid < M \<and> col b tid < N \<and> i = row b tid * N + col b tid \<and> w = v (row b tid) (col b tid))" for i w
    unfolding flat by (simp add: st_mem Bex_def)
  have keys: "map fst (concat ps) = concat (map (\<lambda>b. concat (map (\<lambda>tid. map fst (st b tid)) [0..<256])) [0..<gx * gy])"
    unfolding flat by (simp add: map_concat comp_def)
  have st_keys: "i \<in> set (map fst (st b tid)) \<longleftrightarrow> row b tid < M \<and> col b tid < N \<and> i = row b tid * N + col b tid" for i b tid
    by (auto simp: st_def)
  have inj: "b = b' \<and> tid = tid'"
    if "i \<in> set (map fst (st b tid))" "i \<in> set (map fst (st b' tid'))" "tid < 256" "tid' < 256" for i b tid b' tid'
  proof -
    have "row b tid = row b' tid' \<and> col b tid = col b' tid'"
      using that(1,2) unfolding st_keys by (metis index_inject)
    moreover have "tid div 16 < 16" "tid' div 16 < 16" "tid mod 16 < 16" "tid' mod 16 < 16" using that(3,4) by simp_all
    ultimately have "b div gx = b' div gx" "tid div 16 = tid' div 16" "b mod gx = b' mod gx" "tid mod 16 = tid' mod 16"
      unfolding row_def col_def using index_inject [of _ 16] by blast+
    then show ?thesis by (metis div_mult_mod_eq)
  qed
  have d: "distinct (map fst (concat ps))"
    unfolding keys
  proof (intro distinct_concat_map)
    fix b b' :: nat assume "b \<noteq> b'"
    { fix i assume "i \<in> set (concat (map (\<lambda>tid. map fst (st b tid)) [0..<256]))"
        "i \<in> set (concat (map (\<lambda>tid. map fst (st b' tid)) [0..<256]))"
      then obtain tid tid' where "tid < 256" "i \<in> set (map fst (st b tid))" "tid' < 256" "i \<in> set (map fst (st b' tid'))"
        unfolding in_concat_upt by blast
      with inj \<open>b \<noteq> b'\<close> have False by blast }
    then show "set (concat (map (\<lambda>tid. map fst (st b tid)) [0..<256])) \<inter> set (concat (map (\<lambda>tid. map fst (st b' tid)) [0..<256])) = {}"
      by (intro Int_emptyI)
  next
    fix b tid tid' :: nat assume "tid \<in> set [0..<256]" "tid' \<in> set [0..<256]" "tid \<noteq> tid'"
    then show "set (map fst (st b tid)) \<inter> set (map fst (st b tid')) = {}" using inj [of _ b tid b tid'] by auto
  qed (simp_all add: st_def)
  have "apply_stores C (sched [] ps) = Some (map (\<lambda>p. v (p div N) (p mod N)) [0..<length C])"
  proof (rule phase_fill [OF sched d])
    fix i assume i: "i < length C"
    then have rc: "i div N < M" "i mod N < N" unfolding C by (simp add: less_mult_imp_div_less, cases N) auto
    note ti = tile_index [OF rc, folded gx_def gy_def]
    let ?b = "i div N div 16 * gx + i mod N div 16" and ?t = "i div N mod 16 * 16 + i mod N mod 16"
    have "row ?b ?t = i div N" "col ?b ?t = i mod N" unfolding row_def col_def ti(2,3,5,6) by simp_all
    then show "(i, v (i div N) (i mod N)) \<in> set (concat ps)" unfolding mem using ti(1,4) rc by (metis div_mult_mod_eq)
  next
    fix i w assume "(i, w) \<in> set (concat ps)"
    then show "i < length C" unfolding mem C using index_lt by (metis mult.commute)
  qed
  moreover have "gx = 0 \<or> gy = 0 \<Longrightarrow> C = [] \<and> tabulate M N v = []"
  proof -
    assume "gx = 0 \<or> gy = 0"
    then have "N = 0 \<or> M = 0" unfolding gx_def gy_def by linarith
    then have "M * N = 0" by auto
    then show ?thesis using C by (metis length_0_conv length_tabulate)
  qed
  ultimately show ?thesis
    unfolding grid_launch_def g Let_def using sizes(1-3) small blocks
    by (auto simp: gemm_consts ps_def tabulate_div_mod C)
qed

section \<open>The matrix product\<close>

definition padded :: "u16 list \<Rightarrow> nat \<Rightarrow> nat \<Rightarrow> nat \<Rightarrow> nat \<Rightarrow> u16" where
  "padded A rows cols i j = (if i < rows \<and> j < cols then A ! (i * cols + j) else 0)"

lemma float2bf16_zero: "ieee_device dev \<Longrightarrow> float2bf16 dev 0 = 0"
  by (simp add: ieee_device_def f32_is_nan_def fp_is_nan_def fp_decode_def binary32_def float_to_bf16_def Let_def)

lemma load_padded:
  assumes "ieee_device dev" "rows * cols \<le> length A"
  shows "load_matrix_elem dev A rows cols = (\<lambda>i j. Some (padded A rows cols i j))"
proof (intro ext)
  fix i j
  show "load_matrix_elem dev A rows cols i j = Some (padded A rows cols i j)"
    using row_index [OF _ assms(2), of i j] float2bf16_zero [OF assms(1)]
    by (simp add: load_matrix_elem_def padded_def)
qed

lemma staged_dot_padded:
  assumes "i < M" "j < N"
  shows "staged_dot (padded A M K) (padded B K N) i j ((K + 15) div 16 * 16) = dot A B N K i j"
proof -
  have "staged_dot (padded A M K) (padded B K N) i j ((K + 15) div 16 * 16) = staged_dot (padded A M K) (padded B K N) i j K"
    by (rule staged_dot_pad) (auto simp: padded_def)
  also have "\<dots> = dot A B N K i j"
    unfolding staged_dot_def dot_def by (rule foldl_cong) (use assms in \<open>simp_all add: padded_def\<close>)
  finally show ?thesis .
qed

lemma launch_matmul_eq:
  assumes "ieee_device dev" "fair sched" "length shared = 512" "M * K \<le> length A" "K * N \<le> length B" "length C = M * N"
    and "in_i32 (int (M + 16))" "in_i32 (int (N + 16))" "in_i32 (int (K + 16))" "M \<le> 65535 * 16"
  shows "launch_matmul dev sched shared A B C M N K = Some (tabulate M N (\<lambda>i j. float2bf16 dev (dot A B N K i j)))"
proof -
  let ?acc = "\<lambda>i j. staged_dot (padded A M K) (padded B K N) i j ((K + 15) div 16 * 16)"
  have "matmul_kernel dev sched shared A B M N K b x = Some (map (\<lambda>tid. let row = b * 16 + tid div 16; col = x * 16 + tid mod 16 in
        if row < M \<and> col < N then [(row * N + col, float2bf16 dev (?acc row col))] else []) [0..<256])" for b x
    unfolding matmul_kernel_def Let_def
    by (rule gemm_block_eq [OF assms(1-3) load_padded [OF assms(1,4)] load_padded [OF assms(1,5)]]) (simp add: matmul_store_def)
  from grid_launch_eq [where body = "matmul_kernel dev sched shared A B M N K", OF assms(2,6-10) this]
  have "launch_matmul dev sched shared A B C M N K = Some (tabulate M N (\<lambda>i j. float2bf16 dev (?acc i j)))"
    by (simp only: launch_matmul_def)
  also have "tabulate M N (\<lambda>i j. float2bf16 dev (?acc i j)) = tabulate M N (\<lambda>i j. float2bf16 dev (dot A B N K i j))"
    by (rule tabulate_cong) (simp add: staged_dot_padded)
  finally show ?thesis .
qed

text \<open>C21. The tiled matrix product kernel computes the CPU reference bit for bit: for every interleaving
  of threads and blocks, every initial content of shared memory and all sizes, tile multiples or
  not, it stays inside its buffers and each output element has the bits of the reference, unless the
  accumulator is a NaN. The zeros that pad the last tile do not disturb the fp32 sum.\<close>

theorem launch_matmul_matches_cpu:
  assumes "ieee_device dev" "fair sched" "length shared = 512" "M * K \<le> length A" "K * N \<le> length B" "length C = M * N"
    and "in_i32 (int (M + 16))" "in_i32 (int (N + 16))" "in_i32 (int (K + 16))" "M \<le> 65535 * 16"
  shows "\<exists>gpu cpu. launch_matmul dev sched shared A B C M N K = Some gpu \<and> launch_matmul_cpu A B C M N K = Some cpu \<and>
    length gpu = M * N \<and> (\<forall>i < M. \<forall>j < N. \<not> f32_is_nan (dot A B N K i j) \<longrightarrow> gpu ! (i * N + j) = cpu ! (i * N + j))"
  using assms(1) launch_matmul_eq [OF assms] launch_matmul_cpu_eq [OF assms(4-6)]
  by (simp add: matmul_spec_def nth_tabulate ieee_device_def)

theorem launch_matmul_matches_cpu_witness:
  "\<exists>gpu cpu. launch_matmul host_device in_order
       (replicate 512 0x7FC0) [0x3F80, 0x4000] [0x4040, 0xC000] [0] 1 1 2 = Some gpu \<and>
     launch_matmul_cpu [0x3F80, 0x4000] [0x4040, 0xC000] [0] 1 1 2 = Some cpu \<and> length gpu = 1 * 1"
  using launch_matmul_matches_cpu [of host_device
      in_order "replicate 512 0x7FC0" 1 2 "[0x3F80, 0x4000]" 1 "[0x4040, 0xC000]" "[0]"] fair_in_order
  by (auto simp: ieee_host_device in_i32_def)

section \<open>Epilogue fusion\<close>

definition bias_add :: "device \<Rightarrow> u16 list \<Rightarrow> u16 list \<Rightarrow> nat \<Rightarrow> nat \<Rightarrow> u16 list" where
  "bias_add dev mm bias M N =
     tabulate M N (\<lambda>i j. float2bf16 dev (f32_add (bf162float dev (mm ! (i * N + j))) (bf162float dev (bias ! j))))"

lemma launch_fused_matmul_bias_gelu_eq:
  assumes "ieee_device dev" "fair sched" "length shared = 512" "M * K \<le> length a" "K * N \<le> length b" "length output = M * N"
    and "in_i32 (int (M + 16))" "in_i32 (int (N + 16))" "in_i32 (int (K + 16))" "M \<le> 65535 * 16" and bias: "N \<le> length bias"
  shows "launch_fused_matmul_bias_gelu dev sched shared a b bias output M N K =
    Some (tabulate M N (\<lambda>i j. gelu_elem dev (float2bf16 dev
      (f32_add (bf162float dev (float2bf16 dev (dot a b N K i j))) (bf162float dev (bias ! j))))))"
proof -
  let ?acc = "\<lambda>i j. staged_dot (padded a M K) (padded b K N) i j ((K + 15) div 16 * 16)"
  let ?v = "\<lambda>j acc. gelu_elem dev (float2bf16 dev (f32_add (bf162float dev (float2bf16 dev acc)) (bf162float dev (bias ! j))))"
  have st: "bias_gelu_store dev bias M N row col acc = Some (if row < M \<and> col < N then [(row * N + col, ?v col acc)] else [])" for row col acc
    using bias by (simp add: bias_gelu_store_def gelu_elem_def Let_def)
  have "fused_matmul_bias_gelu_kernel dev sched shared a b bias M N K b' x = Some (map (\<lambda>tid. let row = b' * 16 + tid div 16; col = x * 16 + tid mod 16 in
        if row < M \<and> col < N then [(row * N + col, ?v col (?acc row col))] else []) [0..<256])" for b' x
    unfolding fused_matmul_bias_gelu_kernel_def Let_def
    by (rule gemm_block_eq [OF assms(1-3) load_padded [OF assms(1,4)] load_padded [OF assms(1,5)] st])
  from grid_launch_eq [where body = "fused_matmul_bias_gelu_kernel dev sched shared a b bias M N K", OF assms(2,6-10) this]
  have "launch_fused_matmul_bias_gelu dev sched shared a b bias output M N K = Some (tabulate M N (\<lambda>i j. ?v j (?acc i j)))"
    by (simp only: launch_fused_matmul_bias_gelu_def)
  also have "tabulate M N (\<lambda>i j. ?v j (?acc i j)) = tabulate M N (\<lambda>i j. ?v j (dot a b N K i j))"
    by (rule tabulate_cong) (simp add: staged_dot_padded)
  finally show ?thesis .
qed

text \<open>C23. Epilogue fusion changes no bit: the fused kernel stores what running the matrix product kernel,
  the bias addition in bf16 and the GELU kernel one after the other stores, NaN patterns included,
  whatever the schedules of the three launches.\<close>

theorem fused_matmul_bias_gelu_unfused:
  assumes "ieee_device dev" "fair sched" "fair sched1" "fair sched2" "length shared = 512" "length shared1 = 512"
    and "M * K \<le> length a" "K * N \<le> length b" "N \<le> length bias" "length output = M * N" "M * N \<le> 2 ^ 31 - 2 ^ 25"
    and "in_i32 (int (M + 16))" "in_i32 (int (N + 16))" "in_i32 (int (K + 16))" "M \<le> 65535 * 16"
  shows "\<exists>mm out. launch_matmul dev sched1 shared1 a b output M N K = Some mm \<and>
    launch_gelu dev sched2 (bias_add dev mm bias M N) output (M * N) = Some out \<and>
    launch_fused_matmul_bias_gelu dev sched shared a b bias output M N K = Some out"
proof -
  let ?mm = "tabulate M N (\<lambda>i j. float2bf16 dev (dot a b N K i j))"
  have mm: "launch_matmul dev sched1 shared1 a b output M N K = Some ?mm"
    by (rule launch_matmul_eq) (use assms in simp_all)
  have fused: "launch_fused_matmul_bias_gelu dev sched shared a b bias output M N K =
    Some (tabulate M N (\<lambda>i j. gelu_elem dev (float2bf16 dev
      (f32_add (bf162float dev (float2bf16 dev (dot a b N K i j))) (bf162float dev (bias ! j))))))"
    by (rule launch_fused_matmul_bias_gelu_eq) (use assms in simp_all)
  have "launch_gelu dev sched2 (bias_add dev ?mm bias M N) output (M * N) = Some (map (gelu_elem dev) (bias_add dev ?mm bias M N))"
    unfolding launch_gelu_def by (rule launch_elementwise_eq) (use assms in \<open>simp_all add: bias_add_def\<close>)
  moreover have "bias_add dev ?mm bias M N = tabulate M N (\<lambda>i j. float2bf16 dev
      (f32_add (bf162float dev (float2bf16 dev (dot a b N K i j))) (bf162float dev (bias ! j))))"
    unfolding bias_add_def by (rule tabulate_cong) (simp add: nth_tabulate)
  moreover have "map (gelu_elem dev) (tabulate M N f) = tabulate M N (\<lambda>i j. gelu_elem dev (f i j))" for f
    by (simp add: tabulate_div_mod)
  ultimately have "launch_gelu dev sched2 (bias_add dev ?mm bias M N) output (M * N) = Some (tabulate M N (\<lambda>i j.
      gelu_elem dev (float2bf16 dev (f32_add (bf162float dev (float2bf16 dev (dot a b N K i j))) (bf162float dev (bias ! j))))))"
    by (simp only:)
  with mm fused show ?thesis by blast
qed

theorem fused_matmul_bias_gelu_unfused_witness:
  "\<exists>mm out. launch_matmul host_device in_order (replicate 512 0) [0x3F80, 0x4000] [0x4040, 0xC000] [0] 1 1 2 = Some mm \<and>
    launch_gelu host_device in_order (bias_add host_device mm [0xBF80] 1 1) [0] (1 * 1) = Some out \<and>
    launch_fused_matmul_bias_gelu host_device in_order (replicate 512 0) [0x3F80, 0x4000] [0x4040, 0xC000] [0xBF80] [0] 1 1 2 = Some out"
proof (rule fused_matmul_bias_gelu_unfused [OF ieee_host_device fair_in_order fair_in_order fair_in_order])
qed (simp_all add: in_i32_def)

end
