(* ===== verification/Warp.thy ===== *)
theory Warp
  imports Simt
begin

text \<open>
  The warp reductions of the generated kernels (\<open>warp_reduce_sum\<close>, \<open>warp_reduce_max\<close>,
  \<open>row_reduce_sum\<close>, \<open>block_reduce_sum\<close> and \<open>block_reduce_max\<close> of \<open>LowerToCuda.cpp\<close>). The registers
  of a block's threads are a list; a shuffle exchanges values between the lanes of a warp.
\<close>

definition PK_WARP_SIZE :: nat where "PK_WARP_SIZE = 32"

text \<open>The thread whose value \<open>pk_shfl_xor_sync (v, offset)\<close> returns: lane \<open>lane ^ offset\<close> of the same warp.\<close>

definition xor_lane :: "nat \<Rightarrow> nat \<Rightarrow> nat" where
  "xor_lane tid off = PK_WARP_SIZE * (tid div PK_WARP_SIZE) + ((tid mod PK_WARP_SIZE) XOR off)"

definition shfl_xor :: "'a list \<Rightarrow> nat \<Rightarrow> 'a list" where
  "shfl_xor vals off = map (\<lambda>tid. vals ! xor_lane tid off) [0..<length vals]"

text \<open>\<open>for (offset = start; offset > 0; offset >>= 1) v = op (v, shfl_xor (v, offset))\<close>\<close>

fun butterfly :: "('a \<Rightarrow> 'a \<Rightarrow> 'a) \<Rightarrow> nat \<Rightarrow> 'a list \<Rightarrow> 'a list" where
  "butterfly op off vals = (if off = 0 then vals else butterfly op (off div 2) (map2 op vals (shfl_xor vals off)))"

declare butterfly.simps [simp del]

text \<open>A block of 256 threads: the warps' totals go through shared memory, and warp 0 reduces them
  together with the identity in the idle lanes.\<close>

definition kNumWarps :: nat where "kNumWarps = 8"

definition block_reduce :: "('a \<Rightarrow> 'a \<Rightarrow> 'a) \<Rightarrow> 'a \<Rightarrow> 'a sched \<Rightarrow> nat list \<Rightarrow> 'a list \<Rightarrow> 'a list \<Rightarrow> ('a list \<times> 'a list) option" where
  "block_reduce op ident sched phase shared vals = do {
     let v = butterfly op (PK_WARP_SIZE div 2) vals;
     shared \<leftarrow> apply_stores shared (sched phase (map (\<lambda>tid.
       if tid mod PK_WARP_SIZE = 0 then [(tid div PK_WARP_SIZE, v ! tid)] else []) [0..<length vals]));
     v \<leftarrow> those (map (\<lambda>tid. if tid < kNumWarps then rd shared (tid mod PK_WARP_SIZE) else Some ident) [0..<length vals]);
     Some (shared, butterfly op (PK_WARP_SIZE div 2) (take PK_WARP_SIZE v) @ drop PK_WARP_SIZE v)
   }"

lemma xor_pow: "l XOR 2 ^ k = (if even (l div 2 ^ k) then l + 2 ^ k else l - 2 ^ k)" for l :: nat
proof -
  have f: "l XOR 2 ^ k = flip_bit k l" by (simp add: flip_bit_eq_xor push_bit_eq_mult)
  show ?thesis
  proof (cases "even (l div 2 ^ k)")
    case True
    then show ?thesis by (simp add: f flip_bit_eq_if set_bit_eq bit_iff_odd)
  next
    case False
    then have "bit l k" by (simp add: bit_iff_odd)
    then have "set_bit k (unset_bit k l) = l" by (intro bit_eqI) (auto simp: bit_set_bit_iff bit_unset_bit_iff)
    moreover have "\<not> bit (unset_bit k l) k" by (simp add: bit_unset_bit_iff)
    ultimately have "unset_bit k l + 2 ^ k = l" by (simp add: set_bit_eq)
    with False show ?thesis by (simp add: f flip_bit_eq_if bit_iff_odd)
  qed
qed

lemma xor_lane_pow:
  assumes "k < 5"
  shows "xor_lane tid (2 ^ k) = (if even (tid div 2 ^ k) then tid + 2 ^ k else tid - 2 ^ k)"
proof -
  define l w where "l = tid mod 32" and "w = tid div 32"
  have t: "tid = 32 * w + l" by (simp add: l_def w_def)
  obtain c :: nat where c: "32 = 2 ^ k * (2 * c)"
  proof -
    have "(32 :: nat) = 2 ^ k * (2 * 2 ^ (4 - k))" using assms by (simp flip: power_Suc power_add)
    then show thesis using that by blast
  qed
  have "tid = l + 2 ^ k * (2 * c * w)" using t c by simp
  then have "tid div 2 ^ k = 2 * c * w + l div 2 ^ k" by (simp only: div_mult_self2 power_not_zero zero_neq_numeral not_False_eq_True)
  then have e: "even (tid div 2 ^ k) \<longleftrightarrow> even (l div 2 ^ k)" by simp
  have ge: "odd (l div 2 ^ k) \<Longrightarrow> 2 ^ k \<le> l" by (metis div_less even_zero not_le)
  have "xor_lane tid (2 ^ k) = 32 * w + (l XOR 2 ^ k)" by (simp add: xor_lane_def PK_WARP_SIZE_def l_def w_def)
  then show ?thesis unfolding e xor_pow using t ge by simp
qed

text \<open>The partner of a lane stays in its group of \<open>2 ^ Suc k\<close> lanes and differs in bit \<open>k\<close>.\<close>

lemma xor_lane_group:
  assumes "k < 5"
  shows "xor_lane tid (2 ^ k) div 2 ^ Suc k = tid div 2 ^ Suc k"
    and "xor_lane tid (2 ^ k) mod 2 ^ Suc k = (tid + 2 ^ k) mod 2 ^ Suc k"
proof -
  define p :: nat where "p = 2 ^ k"
  have p: "0 < p" "2 ^ Suc k = p * 2" by (simp_all add: p_def)
  have x: "xor_lane tid p = (if even (tid div p) then tid + p else tid - p)" using xor_lane_pow [OF assms] by (simp add: p_def)
  have ge: "odd (tid div p) \<Longrightarrow> p \<le> tid" by (metis div_less even_zero not_le)
  have "(tid + p) div p = Suc (tid div p)" "odd (tid div p) \<Longrightarrow> (tid - p) div p = tid div p - 1"
    using p(1) ge by (simp_all add: le_div_geq)
  then have "xor_lane tid p div p div 2 = tid div p div 2" unfolding x
    by (cases "even (tid div p)") (auto elim: evenE oddE)
  then show "xor_lane tid (2 ^ k) div 2 ^ Suc k = tid div 2 ^ Suc k"
    unfolding p(2) p_def [symmetric] by (simp add: div_mult2_eq)
  have "(tid - p) mod (p * 2) = (tid + p) mod (p * 2)" if "odd (tid div p)"
  proof -
    have "tid + p = tid - p + p * 2" using ge [OF that] by simp
    then show ?thesis by (simp only: mod_add_self2)
  qed
  then show "xor_lane tid (2 ^ k) mod 2 ^ Suc k = (tid + 2 ^ k) mod 2 ^ Suc k"
    unfolding p(2) p_def [symmetric] x by (cases "even (tid div p)") (simp_all only: if_True if_False simp_thms)
qed

lemma mod_double_cases:
  assumes "i mod p = j mod (p :: nat)"
  shows "i mod (p * 2) = j mod (p * 2) \<or> i mod (p * 2) = (j + p) mod (p * 2) \<and> j mod (p * 2) = (i + p) mod (p * 2)"
proof (cases "p = 0")
  case False
  have m: "x mod (p * 2) = p * (x div p mod 2) + x mod p" for x by (rule mod_mult2_eq)
  have "(x + p) div p = Suc (x div p)" for x using False by simp
  then have n: "(x + p) mod (p * 2) = p * (Suc (x div p) mod 2) + x mod p" for x by (simp add: m)
  have "a mod 2 = b mod 2 \<or> a mod 2 = Suc b mod 2 \<and> b mod 2 = Suc a mod 2" for a b :: nat
    by (cases "even a"; cases "even b") (simp_all add: even_iff_mod_2_eq_zero odd_iff_mod_2_eq_one mod_Suc)
  from this [of "i div p" "j div p"]
  show ?thesis unfolding m [of i] m [of j] n assms by metis
qed (use assms in simp)

lemma length_butterfly [simp]: "length (butterfly op off vals) = length vals"
proof (induction op off vals rule: butterfly.induct)
  case (1 op off vals)
  then show ?case by (simp add: butterfly.simps [of op off] shfl_xor_def)
qed

section \<open>Every lane of a group gets the same total\<close>

locale lane_reduction =
  fixes op :: "'a \<Rightarrow> 'a \<Rightarrow> 'a"
  assumes comm: "op a b = op b a"
begin

text \<open>Values that agree in the lanes of a group with equal remainder keep agreeing at half the distance.\<close>

lemma butterfly_step:
  assumes k: "k < 5" and len: "2 ^ g dvd length vals" "Suc k \<le> g"
    and agree: "\<And>i j. i < length vals \<Longrightarrow> j < length vals \<Longrightarrow> i div 2 ^ g = j div 2 ^ g \<Longrightarrow>
      i mod 2 ^ Suc k = j mod 2 ^ Suc k \<Longrightarrow> vals ! i = vals ! j"
    and ij: "i < length vals" "j < length vals" "i div 2 ^ g = j div 2 ^ g" "i mod 2 ^ k = j mod 2 ^ k"
  shows "map2 op vals (shfl_xor vals (2 ^ k)) ! i = map2 op vals (shfl_xor vals (2 ^ k)) ! j"
proof -
  have "(2::nat) ^ g = 2 ^ (Suc k + (g - Suc k))" using len(2) by simp
  then obtain c where c: "(2::nat) ^ g = 2 ^ Suc k * c" unfolding power_add by blast
  let ?x = "\<lambda>t. xor_lane t (2 ^ k)"
  have grp: "?x t div 2 ^ g = t div 2 ^ g" for t
    unfolding c div_mult2_eq xor_lane_group(1) [OF k] ..
  have lt: "?x t < length vals" if "t < length vals" for t
  proof -
    obtain d where d: "length vals = d * 2 ^ g" using len(1) by (metis dvd_def mult.commute)
    then have "t div 2 ^ g < d" using that by (simp add: less_mult_imp_div_less)
    then show ?thesis unfolding d grp [of t, symmetric] by (simp add: div_less_iff_less_mult)
  qed
  have v: "map2 op vals (shfl_xor vals (2 ^ k)) ! t = op (vals ! t) (vals ! ?x t)" if "t < length vals" for t
    using that by (simp add: shfl_xor_def)
  have x: "i' mod 2 ^ Suc k = j' mod 2 ^ Suc k \<Longrightarrow> ?x i' mod 2 ^ Suc k = ?x j' mod 2 ^ Suc k" for i' j'
    unfolding xor_lane_group(2) [OF k] by (metis mod_add_left_eq)
  have "2 ^ Suc k = 2 ^ k * (2 :: nat)" by simp
  from mod_double_cases [OF ij(4), folded this] show ?thesis
  proof
    assume m: "i mod 2 ^ Suc k = j mod 2 ^ Suc k"
    have "vals ! i = vals ! j" using agree ij(1-3) m by blast
    moreover have "vals ! ?x i = vals ! ?x j" 
      by (rule agree [OF lt [OF ij(1)] lt [OF ij(2)] _ x [OF m]]) (simp only: grp ij(3))
    ultimately show ?thesis using v ij(1,2) by simp
  next
    assume m: "i mod 2 ^ Suc k = (j + 2 ^ k) mod 2 ^ Suc k \<and> j mod 2 ^ Suc k = (i + 2 ^ k) mod 2 ^ Suc k"
    then have "i mod 2 ^ Suc k = ?x j mod 2 ^ Suc k" "?x i mod 2 ^ Suc k = j mod 2 ^ Suc k"
      by (simp_all only: xor_lane_group(2) [OF k])
    then have "vals ! i = vals ! ?x j" "vals ! ?x i = vals ! j"
      using agree [OF ij(1) lt [OF ij(2)]] agree [OF lt [OF ij(1)] ij(2)] ij(3) grp by simp_all
    then show ?thesis using v ij(1,2) comm by simp
  qed
qed

lemma butterfly_agree:
  assumes "k < 5" "2 ^ g dvd length vals" "Suc k \<le> g"
    and "\<And>i j. i < length vals \<Longrightarrow> j < length vals \<Longrightarrow> i div 2 ^ g = j div 2 ^ g \<Longrightarrow>
      i mod 2 ^ Suc k = j mod 2 ^ Suc k \<Longrightarrow> vals ! i = vals ! j"
    and "i < length vals" "j < length vals" "i div 2 ^ g = j div 2 ^ g"
  shows "butterfly op (2 ^ k) vals ! i = butterfly op (2 ^ k) vals ! j"
  using assms
proof (induction k arbitrary: vals)
  case 0
  have b: "butterfly op (2 ^ 0) vals = map2 op vals (shfl_xor vals (2 ^ 0))"
    by (simp add: butterfly.simps [of op "Suc 0"] butterfly.simps [of op 0])
  show ?case unfolding b by (rule butterfly_step [OF "0.prems"]) simp_all
next
  case (Suc k)
  let ?v = "map2 op vals (shfl_xor vals (2 ^ Suc k))"
  have b: "butterfly op (2 ^ Suc k) vals = butterfly op (2 ^ k) ?v" by (simp add: butterfly.simps [of op "2 * 2 ^ k"])
  have l: "length ?v = length vals" by (simp add: shfl_xor_def)
  show ?case unfolding b
  proof (rule Suc.IH)
    show "k < 5" using Suc.prems(1) by linarith
    show "Suc k \<le> g" using Suc.prems(3) by linarith
    show "2 ^ g dvd length ?v" unfolding l by (rule Suc.prems(2))
    show "i < length ?v" "j < length ?v" unfolding l by (rule Suc.prems(5), rule Suc.prems(6))
    show "i div 2 ^ g = j div 2 ^ g" by (rule Suc.prems(7))
  next
    fix i j
    assume a: "i < length ?v" "j < length ?v" "i div 2 ^ g = j div 2 ^ g" "i mod 2 ^ Suc k = j mod 2 ^ Suc k"
    show "?v ! i = ?v ! j" by (rule butterfly_step [OF Suc.prems(1-3) _ a [unfolded l]]) (rule Suc.prems(4))
  qed
qed

text \<open>After a full butterfly all lanes of a group of \<open>2 ^ Suc k\<close> hold the same value.\<close>

lemma butterfly_uniform:
  assumes "k < 5" "2 ^ Suc k dvd length vals" "i < length vals" "j < length vals" "i div 2 ^ Suc k = j div 2 ^ Suc k"
  shows "butterfly op (2 ^ k) vals ! i = butterfly op (2 ^ k) vals ! j"
proof (rule butterfly_agree [OF assms(1,2)])
  fix i j assume "i div 2 ^ Suc k = j div 2 ^ Suc k" "i mod 2 ^ Suc k = j mod (2 :: nat) ^ Suc k"
  then show "vals ! i = vals ! j" by (metis div_mult_mod_eq)
qed (use assms in simp_all)

end

interpretation sum_lanes: lane_reduction f32_add
  by unfold_locales (rule f32_add_commute)

interpretation max_lanes: lane_reduction fmaxf
  by unfold_locales (rule fmaxf_commute)

section \<open>Every value enters the result once\<close>

text \<open>A parenthesisation of the values, with its result under an operation and the multiset of its
  leaves. No law of the operation is used, so this applies to the rounded fp32 sum.\<close>

datatype 'a rtree = Leaf 'a | Node "'a rtree" "'a rtree"

primrec evaluate :: "('a \<Rightarrow> 'a \<Rightarrow> 'a) \<Rightarrow> 'a rtree \<Rightarrow> 'a" where
  "evaluate op (Leaf a) = a"
| "evaluate op (Node l r) = op (evaluate op l) (evaluate op r)"

primrec leaves :: "'a rtree \<Rightarrow> 'a multiset" where
  "leaves (Leaf a) = {#a#}"
| "leaves (Node l r) = leaves l + leaves r"

lemma xor_lane_less:
  assumes "k < 5" "2 ^ Suc k dvd n" "t < n"
  shows "xor_lane t (2 ^ k) < n"
proof -
  obtain d where d: "n = d * 2 ^ Suc k" using assms(2) by (metis dvd_def mult.commute)
  then have "t div 2 ^ Suc k < d" using assms(3) by (simp only: less_mult_imp_div_less)
  then have "xor_lane t (2 ^ k) div 2 ^ Suc k < d" unfolding xor_lane_group(1) [OF assms(1)] .
  then show ?thesis unfolding d by (simp only: div_less_iff_less_mult zero_less_power pos2)
qed

lemma butterfly_power:
  "butterfly op (2 ^ 0) vals = map2 op vals (shfl_xor vals (2 ^ 0))"
  "butterfly op (2 ^ Suc k) vals = butterfly op (2 ^ k) (map2 op vals (shfl_xor vals (2 ^ Suc k)))"
  by (simp_all add: butterfly.simps [of op "Suc 0"] butterfly.simps [of op 0] butterfly.simps [of op "2 * 2 ^ k"])

lemma length_map2_shfl: "length (map2 op vals (shfl_xor vals off)) = length vals"
  by (simp add: shfl_xor_def)

text \<open>A map that respects the operation may be taken before or after.\<close>

lemma butterfly_hom:
  assumes h: "\<And>a b. h (f a b) = g (h a) (h b)"
    and "k < 5" "2 ^ Suc k dvd length vals"
  shows "map h (butterfly f (2 ^ k) vals) = butterfly g (2 ^ k) (map h vals)"
proof -
  have step: "map h (map2 f vals (shfl_xor vals (2 ^ k))) = map2 g (map h vals) (shfl_xor (map h vals) (2 ^ k))"
    if "k < 5" "2 ^ Suc k dvd length vals" for k and vals :: "'a list"
    by (rule nth_equalityI) (use xor_lane_less [OF that] in \<open>simp_all add: shfl_xor_def h\<close>)
  show ?thesis using assms(2,3)
  proof (induction k arbitrary: vals)
    case 0
    then show ?case unfolding butterfly_power by (intro step) simp_all
  next
    case (Suc k)
    have "2 ^ Suc k dvd length (map2 f vals (shfl_xor vals (2 ^ Suc k)))"
      unfolding length_map2_shfl by (rule dvd_trans [OF le_imp_power_dvd Suc.prems(2)]) simp
    with Suc show ?case unfolding butterfly_power step [OF Suc.prems, symmetric] by simp
  qed
qed

definition lane_group :: "nat \<Rightarrow> nat \<Rightarrow> nat set" where
  "lane_group k i = {j. j div 2 ^ k = i div 2 ^ k}"

lemma lane_group_image:
  assumes "k < 5"
  shows "(\<lambda>t. xor_lane t (2 ^ k)) ` lane_group k i = lane_group k (xor_lane i (2 ^ k))"
    and "inj_on (\<lambda>t. xor_lane t (2 ^ k)) (lane_group k i)"
    and "lane_group (Suc k) i = lane_group k i \<union> lane_group k (xor_lane i (2 ^ k))"
    and "lane_group k i \<inter> lane_group k (xor_lane i (2 ^ k)) = {}"
proof -
  define p :: nat where "p = 2 ^ k"
  have p: "0 < p" by (simp add: p_def)
  define x where "x t = xor_lane t p" for t
  have x: "x t = (if even (t div p) then t + p else t - p)" for t using xor_lane_pow [OF assms] by (simp add: x_def p_def)
  have ge: "odd (t div p) \<Longrightarrow> p \<le> t" for t by (metis div_less even_zero not_le)
  have xd: "x t div p = (if even (t div p) then Suc (t div p) else t div p - 1)" for t
  proof (cases "even (t div p)")
    case False
    then have "t div p = Suc ((t - p) div p)" by (intro le_div_geq p ge)
    with False show ?thesis unfolding x by simp
  qed (use p in \<open>simp add: x\<close>)
  have xx: "x (x t) = t" for t
  proof (cases "even (t div p)")
    case True
    then show ?thesis using xd [of t] by (simp add: x [of "x t"]) (simp add: x)
  next
    case False
    then have "even (x t div p)" using xd [of t] by simp
    with False show ?thesis using ge [of t] by (simp add: x [of "x t"]) (simp add: x)
  qed
  have g: "j \<in> lane_group k i \<longleftrightarrow> j div p = i div p" for j i by (simp add: lane_group_def p_def)
  have same: "j div p = i div p \<Longrightarrow> x j div p = x i div p" for i j by (simp add: xd)
  show "(\<lambda>t. xor_lane t (2 ^ k)) ` lane_group k i = lane_group k (xor_lane i (2 ^ k))"
    unfolding p_def [symmetric] x_def [symmetric]
  proof (intro set_eqI iffI)
    fix j assume "j \<in> lane_group k (x i)"
    then have "x j \<in> lane_group k i" unfolding g using same [of j "x i"] xx by simp
    then show "j \<in> x ` lane_group k i" using xx by (metis imageI)
  next
    fix j assume "j \<in> x ` lane_group k i"
    then obtain t where "j = x t" "t div p = i div p" using g by blast
    then show "j \<in> lane_group k (x i)" unfolding g using same by blast
  qed
  show "inj_on (\<lambda>t. xor_lane t (2 ^ k)) (lane_group k i)"
    unfolding p_def [symmetric] x_def [symmetric] by (rule inj_on_inverseI [of _ x]) (rule xx)
  have big: "j \<in> lane_group (Suc k) i \<longleftrightarrow> j div p div 2 = i div p div 2" for j
    by (simp add: lane_group_def p_def mult.commute flip: div_mult2_eq)
  have "j div p div 2 = i div p div 2 \<longleftrightarrow> j div p = i div p \<or> j div p = x i div p" for j
  proof -
    have c: "b div 2 = c \<longleftrightarrow> b = 2 * c \<or> b = Suc (2 * c)" for b c :: nat by presburger
    have "b div 2 = a div 2 \<longleftrightarrow> b = a \<or> b = (if even a then Suc a else a - 1)" for a b :: nat
      unfolding c by (cases "even a") (auto elim!: evenE oddE)
    then show ?thesis unfolding xd .
  qed
  then show "lane_group (Suc k) i = lane_group k i \<union> lane_group k (xor_lane i (2 ^ k))"
    unfolding p_def [symmetric] x_def [symmetric] by (auto simp: big g)
  show "lane_group k i \<inter> lane_group k (xor_lane i (2 ^ k)) = {}"
    unfolding p_def [symmetric] x_def [symmetric] by (auto simp: g xd elim!: oddE split: if_splits)
qed

text \<open>In a commutative monoid every lane gets the sum over its group.\<close>

lemma butterfly_sum:
  fixes vals :: "'b::comm_monoid_add list"
  assumes "k < 5" "2 ^ Suc k dvd length vals" "i < length vals"
  shows "butterfly (+) (2 ^ k) vals ! i = (\<Sum>j \<in> lane_group (Suc k) i. vals ! j)"
  using assms
proof (induction k arbitrary: vals)
  case 0
  have "lane_group 0 j = {j}" for j by (auto simp: lane_group_def)
  then have "lane_group (Suc 0) i = {i} \<union> {xor_lane i (2 ^ 0)}" "{i} \<inter> {xor_lane i (2 ^ 0)} = {}"
    using lane_group_image(3,4) [of 0 i] by simp_all
  moreover have "xor_lane i (2 ^ 0) < length vals" by (rule xor_lane_less) (use 0 in simp_all)
  ultimately show ?case unfolding butterfly_power using 0 by (simp add: shfl_xor_def add.commute)
next
  case (Suc k)
  let ?v = "map2 (+) vals (shfl_xor vals (2 ^ Suc k))" and ?x = "\<lambda>t. xor_lane t (2 ^ Suc k)"
  note grp = lane_group_image [OF Suc.prems(1), of i]
  have dvd: "2 ^ Suc k dvd length ?v" "i < length ?v"
    unfolding length_map2_shfl by (rule dvd_trans [OF le_imp_power_dvd Suc.prems(2)], simp, rule Suc.prems(3))
  have lt: "j < length vals" if "j \<in> lane_group (Suc k) i" for j
  proof -
    have "j \<in> lane_group (Suc (Suc k)) i" using that grp(3) by blast
    moreover obtain d where d: "length vals = d * 2 ^ Suc (Suc k)" using Suc.prems(2) by (metis dvd_def mult.commute)
    moreover have "i div 2 ^ Suc (Suc k) < d" using Suc.prems(3) unfolding d by (simp only: less_mult_imp_div_less)
    ultimately show ?thesis unfolding lane_group_def mem_Collect_eq d
      by (metis div_less_iff_less_mult zero_less_power pos2)
  qed
  have "(\<Sum>j \<in> lane_group (Suc k) i. ?v ! j) = (\<Sum>j \<in> lane_group (Suc k) i. vals ! j + vals ! ?x j)"
    by (rule sum.cong) (use lt in \<open>simp_all add: shfl_xor_def\<close>)
  also have "\<dots> = (\<Sum>j \<in> lane_group (Suc k) i. vals ! j) + (\<Sum>j \<in> ?x ` lane_group (Suc k) i. vals ! j)"
    by (simp only: sum.distrib sum.reindex [OF grp(2)] comp_def)
  also have "\<dots> = (\<Sum>j \<in> lane_group (Suc (Suc k)) i. vals ! j)"
  proof -
    have "finite (lane_group k' i)" for k'
    proof (rule finite_subset)
      show "lane_group k' i \<subseteq> {..<Suc (i div 2 ^ k') * 2 ^ k'}"
        by (auto simp: lane_group_def) (metis dividend_less_times_div pos2 zero_less_power mult.commute mult_Suc add.commute)
    qed simp
    then have "finite (lane_group (Suc k) i)" "finite (lane_group (Suc k) (?x i))" unfolding grp(1) [symmetric] by simp_all
    then show ?thesis unfolding grp(1) grp(3) by (rule sum.union_disjoint [symmetric]) (rule grp(4))
  qed
  finally show ?case unfolding butterfly_power using Suc.IH [OF _ dvd] Suc.prems(1) by simp
qed

section \<open>The block reduction\<close>

lemma warp_sum:
  fixes vals :: "'b::comm_monoid_add list"
  assumes "length vals = 32 * n" "w < n"
  shows "butterfly (+) 16 vals ! (32 * w) = (\<Sum>j = 32 * w..<32 * Suc w. vals ! j)"
proof -
  have "butterfly (+) (2 ^ 4) vals ! (32 * w) = (\<Sum>j \<in> lane_group (Suc 4) (32 * w). vals ! j)"
    by (rule butterfly_sum) (use assms in simp_all)
  moreover have "lane_group (Suc 4) (32 * w) = {32 * w..<32 * Suc w}"
  proof (intro set_eqI)
    fix j :: nat
    have "j div 32 = w \<longleftrightarrow> 32 * w \<le> j \<and> j < 32 * Suc w"
    proof
      assume "32 * w \<le> j \<and> j < 32 * Suc w"
      then show "j div 32 = w" by (intro div_nat_eqI) simp_all
    next
      assume "j div 32 = w"
      with dividend_less_div_times [of 32 j] div_times_less_eq_dividend [of j 32]
      show "32 * w \<le> j \<and> j < 32 * Suc w" by simp
    qed
    then show "j \<in> lane_group (Suc 4) (32 * w) \<longleftrightarrow> j \<in> {32 * w..<32 * Suc w}" by (simp add: lane_group_def)
  qed
  moreover have "(2 :: nat) ^ 4 = 16" by simp
  ultimately show ?thesis by (simp only:)
qed

definition block_total :: "('a \<Rightarrow> 'a \<Rightarrow> 'a) \<Rightarrow> 'a \<Rightarrow> 'a list \<Rightarrow> 'a" where
  "block_total op ident vals =
     butterfly op 16 (map (\<lambda>w. butterfly op 16 vals ! (32 * w)) [0..<8] @ replicate 24 ident) ! 0"

lemma sum_upt_blocks: "(\<Sum>w < n. \<Sum>j = 32 * w..<32 * Suc w. f j) = (\<Sum>j < 32 * n. f j :: 'b::comm_monoid_add)"
proof (induction n)
  case (Suc n)
  have "sum f {..<32 * Suc n} = sum f {..<32 * n} + sum f {32 * n..<32 * Suc n}"
    unfolding lessThan_atLeast0 by (rule sum.atLeastLessThan_concat [symmetric]) simp_all
  then show ?case using Suc by (simp only: sum.lessThan_Suc)
qed simp

lemma sum_singleton_mset: "(\<Sum>i < (n :: nat). {#a#}) = replicate_mset n a"
  by (induction n) simp_all

lemma block_total_sum:
  fixes vals :: "'b::comm_monoid_add list"
  assumes "length vals = 256"
  shows "block_total (+) ident vals = sum_list vals + (\<Sum>i < (24 :: nat). ident)"
proof -
  let ?v = "map (\<lambda>w. butterfly (+) 16 vals ! (32 * w)) [0..<8] @ replicate 24 ident"
  have "butterfly (+) 16 ?v ! (32 * 0) = (\<Sum>j = 32 * 0..<32 * Suc 0. ?v ! j)" by (rule warp_sum [of _ 1]) simp_all
  then have "block_total (+) ident vals = sum_list ?v" by (simp add: block_total_def sum_list_sum_nth)
  also have "\<dots> = (\<Sum>w < 8. butterfly (+) 16 vals ! (32 * w)) + (\<Sum>i < (24 :: nat). ident)"
    by (simp only: sum_list_append) (simp only: sum_list_sum_nth length_map length_upt length_replicate diff_zero,
      simp add: atLeast0LessThan)
  also have "(\<Sum>w < 8. butterfly (+) 16 vals ! (32 * w)) = (\<Sum>w < 8. \<Sum>j = 32 * w..<32 * Suc w. vals ! j)"
    by (rule sum.cong [OF refl]) (use warp_sum [of vals 8] assms in simp)
  also have "\<dots> = sum_list vals" unfolding sum_upt_blocks by (simp add: sum_list_sum_nth assms atLeast0LessThan)
  finally show ?thesis .
qed

lemma block_total_hom:
  assumes h: "\<And>a b. h (f a b) = g (h a) (h b)" and "length vals = 256"
  shows "h (block_total f ident vals) = block_total g (h ident) (map h vals)"
proof -
  have b: "map h (butterfly f 16 v) = butterfly g 16 (map h v)" if "2 ^ Suc 4 dvd length v" for v
    using butterfly_hom [where h = h and f = f and g = g and k = 4, OF h _ that] by simp
  let ?v = "map (\<lambda>w. butterfly f 16 vals ! (32 * w)) [0..<8]"
  have "h (block_total f ident vals) = map h (butterfly f 16 (?v @ replicate 24 ident)) ! 0"
    by (simp add: block_total_def)
  also have "map h (butterfly f 16 (?v @ replicate 24 ident)) = butterfly g 16 (map h ?v @ replicate 24 (h ident))"
    by (subst b) simp_all
  also have "map h ?v = map (\<lambda>w. butterfly g 16 (map h vals) ! (32 * w)) [0..<8]"
  proof (rule nth_equalityI)
    fix w assume "w < length (map h ?v)"
    moreover have "h (butterfly f 16 vals ! i) = butterfly g 16 (map h vals) ! i" if "i < 256" for i
      using arg_cong [where f = "\<lambda>xs. xs ! i", OF b [of vals]] that assms(2) by simp
    ultimately show "map h ?v ! w = map (\<lambda>w. butterfly g 16 (map h vals) ! (32 * w)) [0..<8] ! w" by simp
  qed simp
  finally show ?thesis by (simp add: block_total_def)
qed

text \<open>The result comes from one tree whose leaves are the threads' values and the 24 idle identities.\<close>

lemma block_total_tree:
  assumes "length vals = 256"
  shows "\<exists>t. block_total op ident vals = evaluate op t \<and> leaves t = mset vals + replicate_mset 24 ident"
proof (intro exI conjI)
  let ?t = "block_total Node (Leaf ident) (map Leaf vals)"
  have id: "map (evaluate op) (map Leaf vals) = vals" by (simp add: comp_def)
  have "evaluate op ?t = block_total op (evaluate op (Leaf ident)) (map (evaluate op) (map Leaf vals))"
    by (rule block_total_hom) (simp_all add: assms)
  then show "block_total op ident vals = evaluate op ?t" unfolding id by simp
  have "leaves ?t = block_total (+) (leaves (Leaf ident)) (map leaves (map Leaf vals))"
    by (rule block_total_hom) (simp_all add: assms)
  also have "\<dots> = sum_list (map (\<lambda>v. {#v#}) vals) + (\<Sum>i < (24::nat). {#ident#})"
    by (subst block_total_sum) (simp_all add: assms comp_def)
  finally show "leaves ?t = mset vals + replicate_mset 24 ident" by (simp add: sum_list_singleton_mset sum_singleton_mset)
qed

lemma lane_zero_stores:
  "concat (map (\<lambda>tid. if tid mod 32 = 0 then [f tid] else []) [0..<32 * n]) = map (\<lambda>w. f (32 * w)) [0..<n]"
proof (induction n)
  case (Suc n)
  have u: "[0..<32 * Suc n] = [0..<32 * n] @ (32 * n) # [32 * n + 1..<32 * n + 32]"
    using upt_add_eq_append [of 0 "32 * n" 32] upt_conv_Cons [of "32 * n" "32 * n + 32"] by (simp add: add.commute)
  have z: "tid mod 32 \<noteq> 0" if "tid \<in> set [32 * n + 1..<32 * n + 32]" for tid
  proof -
    have "tid = 32 * n + (tid - 32 * n)" "0 < tid - 32 * n" "tid - 32 * n < 32" using that by auto
    then show ?thesis by (metis mod_mult_self3 mod_less mult.commute less_not_refl)
  qed
  have "map (\<lambda>tid. if tid mod 32 = 0 then [f tid] else []) [32 * n + 1..<32 * n + 32] = map (\<lambda>tid. []) [32 * n + 1..<32 * n + 32]"
    by (rule map_cong [OF refl]) (simp only: z if_False)
  then have "concat (map (\<lambda>tid. if tid mod 32 = 0 then [f tid] else []) [32 * n + 1..<32 * n + 32]) = []"
    by (simp only: map_replicate_const concat_replicate_trivial)
  then show ?case unfolding u using Suc by (simp only: map_append concat_append list.map concat.simps) simp
qed simp

text \<open>The block reduction on every fair schedule, from any content of the shared array.\<close>

lemma block_reduce_eq:
  assumes sched: "fair sched" and vals: "length vals = 256" and shared: "length shared = 8"
  shows "\<exists>shared' res. block_reduce op ident sched phase shared vals = Some (shared', res) \<and> length shared' = 8 \<and>
    res ! 0 = block_total op ident vals"
proof -
  have half: "butterfly op (PK_WARP_SIZE div 2) xs = butterfly op 16 xs" for xs by (simp add: PK_WARP_SIZE_def)
  define v where "v = butterfly op 16 vals"
  define ps where "ps = map (\<lambda>tid. if tid mod 32 = 0 then [(tid div 32, v ! tid)] else []) [0..<256]"
  define shared' where "shared' = map (\<lambda>w. v ! (32 * w)) [0..<8]"
  have flat: "concat ps = map (\<lambda>w. (w, v ! (32 * w))) [0..<8]"
    unfolding ps_def using lane_zero_stores [of "\<lambda>tid. (tid div 32, v ! tid)" 8] by simp
  have "apply_stores shared (sched phase ps) = Some (map (\<lambda>w. v ! (32 * w)) [0..<length shared])"
    by (rule phase_fill [OF sched]) (unfold flat shared, auto simp: comp_def)
  then have st: "apply_stores shared (sched phase ps) = Some shared'" by (simp only: shared shared'_def)
  define ws where "ws = map (\<lambda>tid. if tid < 8 then v ! (32 * tid) else ident) [0..<256]"
  have rd: "those (map (\<lambda>tid. if tid < kNumWarps then rd shared' (tid mod PK_WARP_SIZE) else Some ident) [0..<length vals]) = Some ws"
    unfolding vals ws_def by (rule those_map) (simp add: kNumWarps_def PK_WARP_SIZE_def shared'_def)
  have "take 32 ws = map (\<lambda>w. v ! (32 * w)) [0..<8] @ replicate 24 ident"
  proof (rule nth_equalityI)
    fix i assume "i < length (take 32 ws)"
    then have "i < 32" by (simp add: ws_def)
    then show "take 32 ws ! i = (map (\<lambda>w. v ! (32 * w)) [0..<8] @ replicate 24 ident) ! i"
      by (simp add: ws_def nth_append)
  qed (simp add: ws_def)
  then have "(butterfly op 16 (take 32 ws) @ drop 32 ws) ! 0 = block_total op ident vals"
    by (simp add: block_total_def v_def nth_append)
  moreover have "block_reduce op ident sched phase shared vals = Some (shared', butterfly op 16 (take 32 ws) @ drop 32 ws)"
    unfolding block_reduce_def half Let_def v_def [symmetric] ps_def vals
    using st [unfolded ps_def] rd [unfolded vals] by (simp only: PK_WARP_SIZE_def Option.bind.simps)
  ultimately show ?thesis by (simp add: shared'_def)
qed

end
