(* ===== verification/CudaReduce.thy ===== *)
theory CudaReduce
  imports CudaElementwise Warp
begin

text \<open>
  The generated row kernels (\<open>LowerToCuda.cpp\<close>): RMSNorm and softmax, one block of 256 threads per
  row. Each thread folds its share of the row, \<open>block_reduce\<close> combines the 256 partial results, and
  the threads store the normalised row. The results hold for every fair schedule of the blocks and
  of the phases of the reduction. A launch with no rows is an error the runtime reports before
  anything runs, which leaves the output as it was, as here.
\<close>

definition launch_rows :: "u16 sched \<Rightarrow> (nat \<Rightarrow> u16 store list list option) \<Rightarrow> u16 list \<Rightarrow> nat \<Rightarrow> u16 list option" where
  "launch_rows sched body output rows = do {
     blocks \<leftarrow> those (map body [0..<rows]);
     apply_stores output (sched [] (concat blocks))
   }"

section \<open>RMSNorm\<close>

definition rmsnorm_local :: "device \<Rightarrow> u16 list \<Rightarrow> nat \<Rightarrow> nat \<Rightarrow> nat \<Rightarrow> u32 option" where
  "rmsnorm_local dev input cols row tid = do {
     local_ss \<leftarrow> stride_loop (tid * 2) (kBlockThreads * 2) (cols - cols mod 2) (\<lambda>i local_ss. do {
         x \<leftarrow> rd input (row * cols + i);
         y \<leftarrow> rd input (row * cols + (i + 1));
         let a = bf162float dev x;
         let b = bf162float dev y;
         Some (f32_add local_ss (f32_add (f32_mul a a) (f32_mul b b)))
       }) 0;
     if cols mod 2 = 1 \<and> tid = 0 then do {
       x \<leftarrow> rd input (row * cols + (cols - 1));
       let a = bf162float dev x;
       Some (f32_add local_ss (f32_mul a a))
     } else Some local_ss
   }"

definition rmsnorm_value :: "device \<Rightarrow> u16 list option \<Rightarrow> u32 \<Rightarrow> nat \<Rightarrow> u16 \<Rightarrow> u16 option" where
  "rmsnorm_value dev weight rms i x = do {
     let a = f32_div (bf162float dev x) rms;
     a \<leftarrow> (case weight of
             None \<Rightarrow> Some a
           | Some weight \<Rightarrow> do { w \<leftarrow> rd weight i; Some (f32_mul a (bf162float dev w)) });
     Some (float2bf16 dev a)
   }"

definition rmsnorm_thread :: "device \<Rightarrow> u16 list \<Rightarrow> u16 list option \<Rightarrow> nat \<Rightarrow> u32 \<Rightarrow> nat \<Rightarrow> nat \<Rightarrow> u16 store list option" where
  "rmsnorm_thread dev input weight cols rms row tid = do {
     stores \<leftarrow> stride_loop (tid * 2) (kBlockThreads * 2) (cols - cols mod 2) (\<lambda>i stores. do {
         x \<leftarrow> rd input (row * cols + i);
         y \<leftarrow> rd input (row * cols + (i + 1));
         a \<leftarrow> rmsnorm_value dev weight rms i x;
         b \<leftarrow> rmsnorm_value dev weight rms (i + 1) y;
         Some (stores @ [(row * cols + i, a), (row * cols + (i + 1), b)])
       }) [];
     if cols mod 2 = 1 \<and> tid = 0 then do {
       let i = cols - 1;
       x \<leftarrow> rd input (row * cols + i);
       a \<leftarrow> rmsnorm_value dev weight rms i x;
       Some (stores @ [(row * cols + i, a)])
     } else Some stores
   }"

definition rmsnorm_kernel :: "device \<Rightarrow> u32 sched \<Rightarrow> u32 list \<Rightarrow> u16 list \<Rightarrow> u16 list option \<Rightarrow> nat \<Rightarrow> u32 \<Rightarrow> nat \<Rightarrow>
    u16 store list list option" where
  "rmsnorm_kernel dev fsched warp_sums input weight cols epsilon row = do {
     local_ss \<leftarrow> those (map (rmsnorm_local dev input cols row) [0..<kBlockThreads]);
     (warp_sums, ss) \<leftarrow> block_reduce f32_add 0 fsched [row] warp_sums local_ss;
     let rms = dev_sqrtf dev (f32_add (f32_div (ss ! 0) (f32_of_int (int cols))) epsilon);
     those (map (rmsnorm_thread dev input weight cols rms row) [0..<kBlockThreads])
   }"

definition launch_rmsnorm :: "device \<Rightarrow> u16 sched \<Rightarrow> u32 sched \<Rightarrow> u32 list \<Rightarrow> u16 list \<Rightarrow> u16 list option \<Rightarrow> u16 list \<Rightarrow>
    nat \<Rightarrow> nat \<Rightarrow> u32 \<Rightarrow> u16 list option" where
  "launch_rmsnorm dev sched fsched warp_sums input weight output rows cols epsilon =
     launch_rows sched (rmsnorm_kernel dev fsched warp_sums input weight cols epsilon) output rows"

section \<open>Softmax\<close>

definition softmax_fold :: "(u32 \<Rightarrow> u32 \<Rightarrow> u32) \<Rightarrow> u32 \<Rightarrow> (u16 \<Rightarrow> u32) \<Rightarrow> u16 list \<Rightarrow> nat \<Rightarrow> nat \<Rightarrow> nat \<Rightarrow> u32 option" where
  "softmax_fold op start g input cols row tid =
     stride_loop tid kBlockThreads cols (\<lambda>i acc. do { x \<leftarrow> rd input (row * cols + i); Some (op acc (g x)) }) start"

definition softmax_thread :: "device \<Rightarrow> u16 list \<Rightarrow> nat \<Rightarrow> u32 \<Rightarrow> u32 \<Rightarrow> nat \<Rightarrow> nat \<Rightarrow> u16 store list option" where
  "softmax_thread dev input cols m inv_sum row tid =
     stride_loop tid kBlockThreads cols (\<lambda>i stores. do {
         x \<leftarrow> rd input (row * cols + i);
         Some (stores @ [(row * cols + i, float2bf16 dev (f32_mul (dev_expf dev (f32_sub (bf162float dev x) m)) inv_sum))])
       }) []"

definition softmax_kernel :: "device \<Rightarrow> u32 sched \<Rightarrow> u32 list \<Rightarrow> u16 list \<Rightarrow> nat \<Rightarrow> nat \<Rightarrow> u16 store list list option" where
  "softmax_kernel dev fsched warp_partials input cols row = do {
     local_max \<leftarrow> those (map (softmax_fold fmaxf (f32_neg FLT_MAX) (bf162float dev) input cols row) [0..<kBlockThreads]);
     (warp_partials, row_max) \<leftarrow> block_reduce fmaxf (f32_neg FLT_MAX) fsched [row, 0] warp_partials local_max;
     let m = row_max ! 0;
     local_sum \<leftarrow> those (map (softmax_fold f32_add 0 (\<lambda>x. dev_expf dev (f32_sub (bf162float dev x) m)) input cols row) [0..<kBlockThreads]);
     (warp_partials, row_sum) \<leftarrow> block_reduce f32_add 0 fsched [row, 1] warp_partials local_sum;
     let inv_sum = f32_div f32_one (row_sum ! 0);
     those (map (softmax_thread dev input cols m inv_sum row) [0..<kBlockThreads])
   }"

definition launch_softmax :: "device \<Rightarrow> u16 sched \<Rightarrow> u32 sched \<Rightarrow> u32 list \<Rightarrow> u16 list \<Rightarrow> u16 list \<Rightarrow> nat \<Rightarrow> nat \<Rightarrow> u16 list option" where
  "launch_softmax dev sched fsched warp_partials input output rows cols =
     launch_rows sched (softmax_kernel dev fsched warp_partials input cols) output rows"

section \<open>Sharing a row among the threads\<close>

text \<open>The columns a thread visits; together the threads visit every column once.\<close>

locale row_share =
  fixes threads :: nat and items :: "nat \<Rightarrow> nat \<Rightarrow> nat list"
  assumes share: "mset (concat (map (items n) [0..<threads])) = mset [0..<n]"
begin

lemma share_terms: "(\<Sum>tid < threads. image_mset f (mset (items n tid))) = image_mset f (mset [0..<n])"
proof -
  have "(\<Sum>tid < k. image_mset f (mset (items n tid))) = image_mset f (mset (concat (map (items n) [0..<k])))" for k
    by (induction k) simp_all
  from this [of threads] show ?thesis unfolding share .
qed

lemma share_set: "set (concat (map (items n) [0..<threads])) = {0..<n}"
  using arg_cong [where f = set_mset, OF share [of n]] by (simp only: set_mset_mset set_upt)

text \<open>A kernel whose threads store their columns of every row fills the output.\<close>

lemma launch_rows_eq:
  assumes sched: "fair sched" and out: "length output = rows * cols"
    and body: "\<And>row. row < rows \<Longrightarrow>
      body row = Some (map (\<lambda>tid. map (\<lambda>j. (row * cols + j, v row j)) (items cols tid)) [0..<threads])"
  shows "launch_rows sched body output rows = Some (tabulate rows cols v)"
proof -
  define ps where "ps row = map (\<lambda>tid. map (\<lambda>j. (row * cols + j, v row j)) (items cols tid)) [0..<threads]" for row
  have flat: "concat (ps row) = map (\<lambda>j. (row * cols + j, v row j)) (concat (map (items cols) [0..<threads]))" for row
    by (simp only: ps_def map_concat map_map comp_def)
  have blocks: "those (map body [0..<rows]) = Some (map ps [0..<rows])"
    by (rule those_map) (simp add: body ps_def)
  have keys: "map fst (concat (map (\<lambda>row. concat (ps row)) [0..<rows])) = concat (map (\<lambda>row. map fst (concat (ps row))) [0..<rows])"
    by (induction rows) simp_all
  have cc: "concat (concat (map ps [0..<rows])) = concat (map (\<lambda>row. concat (ps row)) [0..<rows])"
    by (induction rows) simp_all
  have mem: "(i, w) \<in> set (concat (concat (map ps [0..<rows]))) \<longleftrightarrow>
      (\<exists>row < rows. \<exists>j < cols. i = row * cols + j \<and> w = v row j)" for i w
    unfolding cc in_concat_upt flat set_map [of _ "concat (map (items cols) [0..<threads])"] share_set by auto
  have d: "distinct (map fst (concat (concat (map ps [0..<rows]))))"
    unfolding cc keys
  proof (rule distinct_concat_map)
    fix row
    have "distinct (concat (map (items cols) [0..<threads]))"
      unfolding mset_eq_imp_distinct_iff [OF share] by (rule distinct_upt)
    then show "distinct (map fst (concat (ps row)))" unfolding flat by (simp add: comp_def distinct_map inj_on_def)
  next
    fix row row' :: nat assume "row \<noteq> row'"
    have k: "i \<in> set (map fst (concat (ps row))) \<Longrightarrow> \<exists>j < cols. i = row * cols + j" for i row
      unfolding flat map_map set_map share_set comp_def fst_conv by (metis atLeastLessThan_iff imageE)
    { fix i assume "i \<in> set (map fst (concat (ps row)))" "i \<in> set (map fst (concat (ps row')))"
      with k obtain j j' where "j < cols" "i = row * cols + j" "j' < cols" "i = row' * cols + j'" by metis
      with \<open>row \<noteq> row'\<close> have False using index_inject [of j cols j' row row'] by simp }
    then show "set (map fst (concat (ps row))) \<inter> set (map fst (concat (ps row'))) = {}" by (intro Int_emptyI)
  qed simp
  have "apply_stores output (sched [] (concat (map ps [0..<rows]))) = Some (map (\<lambda>p. v (p div cols) (p mod cols)) [0..<length output])"
  proof (rule phase_fill [OF sched d])
    fix i assume i: "i < length output"
    then have "i div cols < rows" "i mod cols < cols" unfolding out by (simp add: less_mult_imp_div_less, cases cols) auto
    then show "(i, v (i div cols) (i mod cols)) \<in> set (concat (concat (map ps [0..<rows])))"
      unfolding mem by (metis div_mult_mod_eq)
  next
    fix i w assume "(i, w) \<in> set (concat (concat (map ps [0..<rows])))"
    then show "i < length output" unfolding mem out using index_lt by (metis mult.commute)
  qed
  then show ?thesis by (simp add: launch_rows_def blocks tabulate_div_mod out)
qed

end

locale block_share = row_share 256 items for items :: "nat \<Rightarrow> nat \<Rightarrow> nat list"
begin

text \<open>The reduction of the partial results of a row is one tree over the terms of all its columns.\<close>

lemma row_tree:
  assumes "\<And>tid. tid < 256 \<Longrightarrow> leaves (tree tid) = {#start#} + image_mset term (mset (items n tid))"
  shows "\<exists>t. block_total op start (map (\<lambda>tid. evaluate op (tree tid)) [0..<256]) = evaluate op t \<and>
    leaves t = image_mset term (mset [0..<n]) + replicate_mset 280 start"
proof (intro exI conjI)
  let ?t = "block_total Node (Leaf start) (map tree [0..<256])"
  have "evaluate op ?t = block_total op (evaluate op (Leaf start)) (map (evaluate op) (map tree [0..<256]))"
    by (rule block_total_hom) simp_all
  then show "block_total op start (map (\<lambda>tid. evaluate op (tree tid)) [0..<256]) = evaluate op ?t"
    by (simp only: map_map comp_def evaluate.simps)
  have "leaves ?t = block_total (+) (leaves (Leaf start)) (map leaves (map tree [0..<256]))"
    by (rule block_total_hom) simp_all
  also have "\<dots> = sum_list (map (\<lambda>tid. leaves (tree tid)) [0..<256]) + (\<Sum>i < (24 :: nat). {#start#})"
    by (subst block_total_sum) (simp, simp only: map_map comp_def leaves.simps)
  also have "sum_list (map (\<lambda>tid. leaves (tree tid)) [0..<256]) = (\<Sum>tid < 256. {#start#} + image_mset term (mset (items n tid)))"
    unfolding interv_sum_list_conv_sum_set_nat set_upt lessThan_atLeast0 [symmetric] by (rule sum.cong) (simp_all only: assms lessThan_iff)
  also have "\<dots> = (\<Sum>tid < (256 :: nat). {#start#}) + image_mset term (mset [0..<n])"
    by (simp only: sum.distrib share_terms)
  finally have "leaves ?t = replicate_mset 256 start + image_mset term (mset [0..<n]) + replicate_mset 24 start"
    unfolding sum_singleton_mset .
  moreover have "replicate_mset 280 start = replicate_mset 256 start + replicate_mset 24 start"
    by (rule multiset_eqI) simp
  ultimately show "leaves ?t = image_mset term (mset [0..<n]) + replicate_mset 280 start" by (simp only: ac_simps)
qed

end

section \<open>The two ways the kernels share a row\<close>

definition pair_items :: "nat \<Rightarrow> nat \<Rightarrow> nat list" where
  "pair_items n tid = concat (map (\<lambda>k. [2 * (tid + k * 256), 2 * (tid + k * 256) + 1]) [0..<trips (tid * 2) 512 (n - n mod 2)]) @
     (if n mod 2 = 1 \<and> tid = 0 then [n - 1] else [])"

definition strided_items :: "nat \<Rightarrow> nat \<Rightarrow> nat \<Rightarrow> nat list" where
  "strided_items d n tid = map (\<lambda>k. tid + k * d) [0..<trips tid d n]"

lemma mset_eq_upt: "distinct xs \<Longrightarrow> set xs = {..<n} \<Longrightarrow> mset xs = mset [0..<n]"
  by (rule set_eq_iff_mset_eq_distinct [THEN iffD1]) (simp_all add: lessThan_atLeast0)

lemma thread_stores_items: "thread_stores v n 256 tid = map (\<lambda>i. (i, v i)) (pair_items n tid)"
  by (simp add: thread_stores_def pair_items_def pair_stores_def tail_stores_def map_concat comp_def)

interpretation paired: block_share pair_items
proof unfold_locales
  fix n
  let ?st = "thread_stores (\<lambda>_. 0) n 256"
  have k: "map fst (concat (map ?st [0..<256])) = concat (map (pair_items n) [0..<256])"
    by (simp only: map_concat map_map comp_def thread_stores_items fst_conv map_ident)
  have "distinct (concat (map (pair_items n) [0..<256]))"
    unfolding k [symmetric] by (rule threads_distinct) simp
  moreover have "i \<in> set (concat (map (pair_items n) [0..<256])) \<longleftrightarrow> i < n" for i
  proof -
    have "i \<in> set (concat (map (pair_items n) [0..<256])) \<longleftrightarrow> (\<exists>w. (i, w) \<in> set (concat (map ?st [0..<256])))"
      unfolding k [symmetric] set_map image_def by (simp add: Bex_def del: set_concat)
    also have "\<dots> \<longleftrightarrow> i < n" by (subst threads_cover) simp_all
    finally show ?thesis .
  qed
  ultimately show "mset (concat (map (pair_items n) [0..<256])) = mset [0..<n]"
    by (intro mset_eq_upt) blast+
qed

lemma strided_share:
  assumes "0 < d"
  shows "mset (concat (map (strided_items d n) [0..<d])) = mset [0..<n]"
proof -
  have mem: "i \<in> set (strided_items d n tid) \<longleftrightarrow> (\<exists>k. i = tid + k * d \<and> i < n)" for i tid
    by (auto simp: strided_items_def trips_iff [OF assms])
  have dist: "distinct (concat (map (strided_items d n) [0..<d]))"
  proof (rule distinct_concat_map)
    fix tid show "distinct (strided_items d n tid)" using assms by (simp add: strided_items_def distinct_map inj_on_def)
  next
    fix tid tid' :: nat assume t: "tid \<in> set [0..<d]" "tid' \<in> set [0..<d]" "tid \<noteq> tid'"
    have ne: "tid + k * d \<noteq> tid' + k' * d" for k k'
      using t by (metis atLeastLessThan_iff mod_less mod_mult_self1 set_upt)
    { fix i assume "i \<in> set (strided_items d n tid)" "i \<in> set (strided_items d n tid')"
      with ne have False unfolding mem by metis }
    then show "set (strided_items d n tid) \<inter> set (strided_items d n tid') = {}" by (intro Int_emptyI)
  qed simp
  have "i \<in> set (concat (map (strided_items d n) [0..<d])) \<longleftrightarrow> i < n" for i
  proof -
    have "i = i mod d + i div d * d" "i mod d < d" using assms by simp_all
    then show ?thesis unfolding in_concat_upt mem by blast
  qed
  with dist show ?thesis by (intro mset_eq_upt) blast+
qed

interpretation strided: block_share "strided_items 256"
  by unfold_locales (rule strided_share, simp)

section \<open>The partial results as trees\<close>

text \<open>What thread \<open>tid\<close> computes for its share: a tree over its terms and the start value.\<close>

definition pair_tree :: "(nat \<Rightarrow> 'a) \<Rightarrow> 'a \<Rightarrow> nat \<Rightarrow> nat \<Rightarrow> 'a rtree" where
  "pair_tree term start n tid =
     (let bulk = foldl (\<lambda>t k. Node t (Node (Leaf (term (2 * (tid + k * 256)))) (Leaf (term (2 * (tid + k * 256) + 1)))))
        (Leaf start) [0..<trips (tid * 2) 512 (n - n mod 2)]
      in if n mod 2 = 1 \<and> tid = 0 then Node bulk (Leaf (term (n - 1))) else bulk)"

definition strided_tree :: "nat \<Rightarrow> (nat \<Rightarrow> 'a) \<Rightarrow> 'a \<Rightarrow> nat \<Rightarrow> nat \<Rightarrow> 'a rtree" where
  "strided_tree d term start n tid = foldl (\<lambda>t k. Node t (Leaf (term (tid + k * d)))) (Leaf start) [0..<trips tid d n]"

lemma evaluate_foldl: "(\<And>t k. evaluate op (f t k) = g (evaluate op t) k) \<Longrightarrow> evaluate op (foldl f t ks) = foldl g (evaluate op t) ks"
  by (induction ks arbitrary: t) simp_all

lemma leaves_foldl: "(\<And>t k. leaves (f t k) = leaves t + mset (g k)) \<Longrightarrow> leaves (foldl f t ks) = leaves t + mset (concat (map g ks))"
  by (induction ks arbitrary: t) simp_all

lemma leaves_pair_tree: "leaves (pair_tree term start n tid) = {#start#} + image_mset term (mset (pair_items n tid))"
proof -
  let ?n = "\<lambda>t k. Node t (Node (Leaf (term (2 * (tid + k * 256)))) (Leaf (term (2 * (tid + k * 256) + 1))))"
  have b: "leaves (foldl ?n (Leaf start) ks) = {#start#} +
      image_mset term (mset (concat (map (\<lambda>k. [2 * (tid + k * 256), 2 * (tid + k * 256) + 1]) ks)))" for ks
    using leaves_foldl [of ?n "\<lambda>k. map term [2 * (tid + k * 256), 2 * (tid + k * 256) + 1]" "Leaf start" ks]
    unfolding mset_map [symmetric] map_concat map_map comp_def by simp
  show ?thesis
  proof (cases "n mod 2 = 1 \<and> tid = 0")
    case True
    then show ?thesis
      unfolding pair_tree_def pair_items_def Let_def if_P [OF True] leaves.simps b mset_append image_mset_union by simp
  next
    case False
    show ?thesis unfolding pair_tree_def pair_items_def Let_def if_not_P [OF False] b by simp
  qed
qed

lemma leaves_strided_tree: "leaves (strided_tree d term start n tid) = {#start#} + image_mset term (mset (strided_items d n tid))"
proof -
  have "leaves (foldl (\<lambda>t k. Node t (Leaf (term (tid + k * d)))) (Leaf start) ks) = leaves (Leaf start) +
      mset (concat (map (\<lambda>k. [term (tid + k * d)]) ks))" for ks
    by (rule leaves_foldl) simp
  then show ?thesis
    unfolding mset_map [symmetric] strided_tree_def strided_items_def by (simp only: map_map comp_def concat_map_singleton leaves.simps)
qed



section \<open>The RMSNorm launch\<close>

definition square :: "u16 list \<Rightarrow> nat \<Rightarrow> nat \<Rightarrow> nat \<Rightarrow> u32" where
  "square input cols row j = f32_mul (bf16_to_float (input ! (row * cols + j))) (bf16_to_float (input ! (row * cols + j)))"

definition gpu_sum_squares :: "u16 list \<Rightarrow> nat \<Rightarrow> nat \<Rightarrow> u32" where
  "gpu_sum_squares input cols row = block_total f32_add 0 (map (\<lambda>tid. evaluate f32_add (pair_tree (square input cols row) 0 cols tid)) [0..<256])"

definition gpu_rms :: "device \<Rightarrow> u16 list \<Rightarrow> nat \<Rightarrow> u32 \<Rightarrow> nat \<Rightarrow> u32" where
  "gpu_rms dev input cols epsilon row = dev_sqrtf dev (f32_add (f32_div (gpu_sum_squares input cols row) (f32_of_int (int cols))) epsilon)"

definition gpu_normalised :: "device \<Rightarrow> u16 list \<Rightarrow> u16 list option \<Rightarrow> nat \<Rightarrow> u32 \<Rightarrow> nat \<Rightarrow> nat \<Rightarrow> u16" where
  "gpu_normalised dev input weight cols rms row j =
     float2bf16 dev (scale_by weight j (f32_div (bf16_to_float (input ! (row * cols + j))) rms))"

lemma device_widens: "ieee_device dev \<Longrightarrow> bf162float dev = bf16_to_float"
  by (simp add: ieee_device_def fun_eq_iff)

lemma odd_last: "n mod 2 = 1 \<and> P \<Longrightarrow> n - 1 < (n :: nat)"
  by (cases n) simp_all

lemma rmsnorm_local_eq:
  assumes "ieee_device dev" "row < rows" "rows * cols \<le> length input" "in_i32 (int (cols + 512))"
  shows "rmsnorm_local dev input cols row tid = Some (evaluate f32_add (pair_tree (square input cols row) 0 cols tid))"
proof -
  note idx = row_index [OF assms(2,3)] and w = device_widens [OF assms(1)]
  let ?sq = "square input cols row"
  let ?g = "\<lambda>p s. f32_add s (f32_add (?sq (2 * p)) (?sq (2 * p + 1)))"
  let ?bulk = "foldl (\<lambda>t k. Node t (Node (Leaf (?sq (2 * (tid + k * 256)))) (Leaf (?sq (2 * (tid + k * 256) + 1)))))
      (Leaf 0) [0..<trips (tid * 2) (256 * 2) (cols - cols mod 2)]"
  have "stride_loop (tid * 2) (256 * 2) (cols - cols mod 2) (\<lambda>i local_ss. rd input (row * cols + i) \<bind> (\<lambda>x. rd input (row * cols + (i + 1)) \<bind> (\<lambda>y.
      let a = bf162float dev x; b = bf162float dev y in Some (f32_add local_ss (f32_add (f32_mul a a) (f32_mul b b)))))) 0 =
    Some (foldl (\<lambda>st k. ?g (tid + k * 256) st) 0 [0..<trips (tid * 2) (256 * 2) (cols - cols mod 2)])"
  proof (rule pair_fold)
    fix p st assume p: "p < cols div 2"
    have "2 * p + 1 < cols" using pair_in_range [OF p] .
    then show "rd input (row * cols + 2 * p) \<bind> (\<lambda>x. rd input (row * cols + (2 * p + 1)) \<bind> (\<lambda>y.
        let a = bf162float dev x; b = bf162float dev y in Some (f32_add st (f32_add (f32_mul a a) (f32_mul b b))))) = Some (?g p st)"
      using idx [of "2 * p"] idx [of "2 * p + 1"] by (simp add: square_def w Let_def)
  qed (use assms(4) in simp_all)
  also have "foldl (\<lambda>st k. ?g (tid + k * 256) st) 0 ks = evaluate f32_add (foldl
      (\<lambda>t k. Node t (Node (Leaf (?sq (2 * (tid + k * 256)))) (Leaf (?sq (2 * (tid + k * 256) + 1))))) (Leaf 0) ks)" for ks
    by (subst evaluate_foldl) simp_all
  finally have L: "stride_loop (tid * 2) (256 * 2) (cols - cols mod 2) (\<lambda>i local_ss. rd input (row * cols + i) \<bind> (\<lambda>x. rd input (row * cols + (i + 1)) \<bind> (\<lambda>y.
      let a = bf162float dev x; b = bf162float dev y in Some (f32_add local_ss (f32_add (f32_mul a a) (f32_mul b b)))))) 0 =
    Some (evaluate f32_add ?bulk)" .
  have t: "pair_tree ?sq 0 cols tid = (if cols mod 2 = 1 \<and> tid = 0 then Node ?bulk (Leaf (?sq (cols - 1))) else ?bulk)"
    unfolding pair_tree_def Let_def numeral_times_numeral semiring_norm ..
  show ?thesis
  proof (cases "cols mod 2 = 1 \<and> tid = 0")
    case True
    have "rd input (row * cols + (cols - 1)) = Some (input ! (row * cols + (cols - 1)))" by (rule rd_in [OF idx [OF odd_last [OF True]]])
    then have "rmsnorm_local dev input cols row tid = Some (f32_add (evaluate f32_add ?bulk) (?sq (cols - 1)))"
      unfolding rmsnorm_local_def kBlockThreads_def L by (simp only: Option.bind.simps if_P [OF True] Let_def w square_def)
    then show ?thesis by (simp only: t if_P [OF True] evaluate.simps)
  next
    case False
    show ?thesis unfolding t rmsnorm_local_def kBlockThreads_def L Option.bind.simps if_not_P [OF False] ..
  qed
qed

lemma rmsnorm_thread_eq:
  assumes "ieee_device dev" "row < rows" "rows * cols \<le> length input" "in_i32 (int (cols + 512))"
    and "\<And>w. weight = Some w \<Longrightarrow> cols \<le> length w"
  shows "rmsnorm_thread dev input weight cols rms row tid =
    Some (map (\<lambda>j. (row * cols + j, gpu_normalised dev input weight cols rms row j)) (pair_items cols tid))"
proof -
  note idx = row_index [OF assms(2,3)]
  let ?v = "gpu_normalised dev input weight cols rms row"
  have val: "rmsnorm_value dev weight rms j (input ! (row * cols + j)) = Some (?v j)" if "j < cols" for j
    using that assms(5) by (cases weight) (auto simp: rmsnorm_value_def gpu_normalised_def scale_by_def device_widens [OF assms(1)] rd_def)
  let ?g = "\<lambda>p. [(row * cols + 2 * p, ?v (2 * p)), (row * cols + (2 * p + 1), ?v (2 * p + 1))]"
  have L: "stride_loop (tid * 2) (256 * 2) (cols - cols mod 2) (\<lambda>i stores. rd input (row * cols + i) \<bind> (\<lambda>x. rd input (row * cols + (i + 1)) \<bind> (\<lambda>y.
      rmsnorm_value dev weight rms i x \<bind> (\<lambda>a. rmsnorm_value dev weight rms (i + 1) y \<bind> (\<lambda>b.
        Some (stores @ [(row * cols + i, a), (row * cols + (i + 1), b)])))))) [] =
    Some (concat (map (\<lambda>k. ?g (tid + k * 256)) [0..<trips (tid * 2) (256 * 2) (cols - cols mod 2)]))"
  proof (rule pair_loop)
    fix p st assume p: "p < cols div 2"
    have "2 * p + 1 < cols" using pair_in_range [OF p] .
    then show "rd input (row * cols + 2 * p) \<bind> (\<lambda>x. rd input (row * cols + (2 * p + 1)) \<bind> (\<lambda>y.
        rmsnorm_value dev weight rms (2 * p) x \<bind> (\<lambda>a. rmsnorm_value dev weight rms (2 * p + 1) y \<bind> (\<lambda>b.
          Some (st @ [(row * cols + 2 * p, a), (row * cols + (2 * p + 1), b)]))))) = Some (st @ ?g p)"
      using idx [of "2 * p"] idx [of "2 * p + 1"] val [of "2 * p"] val [of "2 * p + 1"] by simp
  qed (use assms(4) in simp_all)
  have items: "map (\<lambda>j. (row * cols + j, ?v j)) (pair_items cols tid) =
      concat (map (\<lambda>k. ?g (tid + k * 256)) [0..<trips (tid * 2) (256 * 2) (cols - cols mod 2)]) @
      (if cols mod 2 = 1 \<and> tid = 0 then [(row * cols + (cols - 1), ?v (cols - 1))] else [])"
    by (simp add: pair_items_def map_concat comp_def)
  show ?thesis
  proof (cases "cols mod 2 = 1 \<and> tid = 0")
    case True
    have "rd input (row * cols + (cols - 1)) = Some (input ! (row * cols + (cols - 1)))" by (rule rd_in [OF idx [OF odd_last [OF True]]])
    with val [OF odd_last [OF True]] show ?thesis
      unfolding items rmsnorm_thread_def kBlockThreads_def L by (simp only: Option.bind.simps if_P [OF True] Let_def)
  next
    case False
    show ?thesis
      unfolding items rmsnorm_thread_def kBlockThreads_def L Option.bind.simps if_not_P [OF False] append_Nil2 ..
  qed
qed

lemma launch_rmsnorm_eq:
  assumes "ieee_device dev" "fair sched" "fair fsched" "length warp_sums = 8" "rows * cols \<le> length input"
    and "length output = rows * cols" "\<And>w. weight = Some w \<Longrightarrow> cols \<le> length w" "in_i32 (int (cols + 512))"
  shows "launch_rmsnorm dev sched fsched warp_sums input weight output rows cols epsilon =
    Some (tabulate rows cols (\<lambda>row. gpu_normalised dev input weight cols (gpu_rms dev input cols epsilon row) row))"
  unfolding launch_rmsnorm_def
proof (rule paired.launch_rows_eq [OF assms(2,6)])
  fix row assume row: "row < rows"
  let ?l = "map (\<lambda>tid. evaluate f32_add (pair_tree (square input cols row) 0 cols tid)) [0..<256]"
  have l: "those (map (rmsnorm_local dev input cols row) [0..<kBlockThreads]) = Some ?l"
    unfolding kBlockThreads_def by (rule those_map) (rule rmsnorm_local_eq [OF assms(1) row assms(5,8)])
  obtain shared' res where r: "block_reduce f32_add 0 fsched [row] warp_sums ?l = Some (shared', res)"
    "res ! 0 = gpu_sum_squares input cols row"
    using block_reduce_eq [OF assms(3) _ assms(4), of ?l f32_add 0 "[row]"] unfolding gpu_sum_squares_def by auto
  have "those (map (rmsnorm_thread dev input weight cols rms row) [0..<kBlockThreads]) =
      Some (map (\<lambda>tid. map (\<lambda>j. (row * cols + j, gpu_normalised dev input weight cols rms row j)) (pair_items cols tid)) [0..<256])" for rms
    unfolding kBlockThreads_def by (rule those_map) (rule rmsnorm_thread_eq [OF assms(1) row assms(5,8,7)])
  then show "rmsnorm_kernel dev fsched warp_sums input weight cols epsilon row =
      Some (map (\<lambda>tid. map (\<lambda>j. (row * cols + j, gpu_normalised dev input weight cols (gpu_rms dev input cols epsilon row) row j))
        (pair_items cols tid)) [0..<256])"
    unfolding rmsnorm_kernel_def l Option.bind.simps r(1) prod.case r(2) Let_def gpu_rms_def .
qed

text \<open>RMSNorm on the GPU, for every interleaving of blocks, of threads and of the reduction's phases,
  every initial content of shared memory, any row length, odd ones included, with and without a
  weight: the kernel stays inside its buffers, stores each output element once, and normalises all
  elements of a row by one root mean square, in whose sum of squares every element of the row occurs
  exactly once, in an order that the schedule does not change (the other terms are the zeros the
  accumulators and the idle lanes start from).\<close>

theorem launch_rmsnorm_result:
  assumes "ieee_device dev" "fair sched" "fair fsched" "length warp_sums = 8" "rows * cols \<le> length input"
    and "length output = rows * cols" "\<And>w. weight = Some w \<Longrightarrow> cols \<le> length w" "in_i32 (int (cols + 512))"
  shows "\<exists>out. launch_rmsnorm dev sched fsched warp_sums input weight output rows cols epsilon = Some out \<and> length out = rows * cols \<and>
    (\<forall>row < rows. \<exists>t. leaves t = image_mset (square input cols row) (mset [0..<cols]) + replicate_mset 280 0 \<and>
      (\<forall>j < cols. out ! (row * cols + j) = gpu_normalised dev input weight cols
        (dev_sqrtf dev (f32_add (f32_div (evaluate f32_add t) (f32_of_int (int cols))) epsilon)) row j))"
proof -
  let ?out = "tabulate rows cols (\<lambda>row. gpu_normalised dev input weight cols (gpu_rms dev input cols epsilon row) row)"
  have run: "launch_rmsnorm dev sched fsched warp_sums input weight output rows cols epsilon = Some ?out"
    by (rule launch_rmsnorm_eq) (use assms in simp_all)
  have "\<exists>t. leaves t = image_mset (square input cols row) (mset [0..<cols]) + replicate_mset 280 0 \<and>
      (\<forall>j < cols. ?out ! (row * cols + j) = gpu_normalised dev input weight cols
        (dev_sqrtf dev (f32_add (f32_div (evaluate f32_add t) (f32_of_int (int cols))) epsilon)) row j)" if "row < rows" for row
  proof -
    obtain t where "gpu_sum_squares input cols row = evaluate f32_add t"
    "leaves t = image_mset (square input cols row) (mset [0..<cols]) + replicate_mset 280 0"
    using paired.row_tree [where op = f32_add and start = 0 and n = cols and tree = "pair_tree (square input cols row) 0 cols",
      OF leaves_pair_tree] unfolding gpu_sum_squares_def by blast
    with that show ?thesis by (intro exI [of _ t]) (simp add: nth_tabulate gpu_rms_def)
  qed
  with run show ?thesis by (intro exI [of _ ?out] conjI) (simp_all only: length_tabulate, blast)
qed

theorem launch_rmsnorm_result_witness:
  "\<exists>out. launch_rmsnorm host_device
      in_order in_order (replicate 8 0x7FC00000) [0x3F80, 0x4000, 0xBF80] None [0, 0, 0] 1 3 0 = Some out \<and> length out = 3"
proof -
  have "in_i32 (int (3 + 512))" by (simp add: in_i32_def)
  with launch_rmsnorm_result [of host_device in_order in_order "replicate 8 0x7FC00000" 1 3 "[0x3F80, 0x4000, 0xBF80]" "[0, 0, 0]" None 0,
      OF ieee_host_device fair_in_order fair_in_order]
  show ?thesis by auto
qed

section \<open>The softmax launch\<close>

lemma softmax_fold_eq:
  assumes "row < rows" "rows * cols \<le> length input" "in_i32 (int (cols + 256))"
  shows "softmax_fold op start g input cols row tid =
    Some (evaluate op (strided_tree 256 (\<lambda>j. g (input ! (row * cols + j))) start cols tid))"
proof -
  note idx = row_index [OF assms(1,2)]
  have "softmax_fold op start g input cols row tid =
      Some (foldl (\<lambda>s k. op s (g (input ! (row * cols + (tid + k * 256))))) start [0..<trips tid 256 cols])"
    unfolding softmax_fold_def kBlockThreads_def
    by (rule stride_loop_eq) (use assms(3) idx in simp_all)
  also have "foldl (\<lambda>s k. op s (g (input ! (row * cols + (tid + k * 256))))) start ks =
      evaluate op (foldl (\<lambda>t k. Node t (Leaf (g (input ! (row * cols + (tid + k * 256)))))) (Leaf start) ks)" for ks
    by (subst evaluate_foldl) simp_all
  finally show ?thesis by (simp only: strided_tree_def)
qed

definition gpu_row_max :: "u16 list \<Rightarrow> nat \<Rightarrow> nat \<Rightarrow> u32" where
  "gpu_row_max input cols row = block_total fmaxf (f32_neg FLT_MAX) (map (\<lambda>tid. evaluate fmaxf
     (strided_tree 256 (\<lambda>j. bf16_to_float (input ! (row * cols + j))) (f32_neg FLT_MAX) cols tid)) [0..<256])"

definition gpu_exp :: "device \<Rightarrow> u16 list \<Rightarrow> nat \<Rightarrow> nat \<Rightarrow> u32 \<Rightarrow> nat \<Rightarrow> u32" where
  "gpu_exp dev input cols row m j = dev_expf dev (f32_sub (bf16_to_float (input ! (row * cols + j))) m)"

definition gpu_row_sum :: "device \<Rightarrow> u16 list \<Rightarrow> nat \<Rightarrow> nat \<Rightarrow> u32 \<Rightarrow> u32" where
  "gpu_row_sum dev input cols row m = block_total f32_add 0 (map (\<lambda>tid. evaluate f32_add
     (strided_tree 256 (gpu_exp dev input cols row m) 0 cols tid)) [0..<256])"

lemma softmax_thread_eq:
  assumes "ieee_device dev" "row < rows" "rows * cols \<le> length input" "in_i32 (int (cols + 256))"
  shows "softmax_thread dev input cols m inv_sum row tid =
    Some (map (\<lambda>j. (row * cols + j, float2bf16 dev (f32_mul (gpu_exp dev input cols row m j) inv_sum))) (strided_items 256 cols tid))"
proof -
  note idx = row_index [OF assms(2,3)]
  let ?v = "\<lambda>j. float2bf16 dev (f32_mul (gpu_exp dev input cols row m j) inv_sum)"
  have "softmax_thread dev input cols m inv_sum row tid =
      Some (foldl (\<lambda>s k. s @ [(row * cols + (tid + k * 256), ?v (tid + k * 256))]) [] [0..<trips tid 256 cols])"
    unfolding softmax_thread_def kBlockThreads_def
    by (rule stride_loop_eq) (use assms(4) idx in \<open>simp_all add: gpu_exp_def device_widens [OF assms(1)]\<close>)
  then show ?thesis by (simp add: foldl_snoc_concat strided_items_def comp_def)
qed

lemma launch_softmax_eq:
  assumes "ieee_device dev" "fair sched" "fair fsched" "length warp_partials = 8" "rows * cols \<le> length input"
    and "length output = rows * cols" "in_i32 (int (cols + 256))"
  shows "launch_softmax dev sched fsched warp_partials input output rows cols = Some (tabulate rows cols (\<lambda>row j.
    float2bf16 dev (f32_mul (gpu_exp dev input cols row (gpu_row_max input cols row) j)
      (f32_div f32_one (gpu_row_sum dev input cols row (gpu_row_max input cols row))))))"
  unfolding launch_softmax_def
proof (rule strided.launch_rows_eq [OF assms(2,6)])
  fix row assume row: "row < rows"
  let ?m = "gpu_row_max input cols row"
  have folds: "those (map (softmax_fold op start g input cols row) [0..<kBlockThreads]) =
      Some (map (\<lambda>tid. evaluate op (strided_tree 256 (\<lambda>j. g (input ! (row * cols + j))) start cols tid)) [0..<256])" for op start g
    unfolding kBlockThreads_def by (rule those_map) (rule softmax_fold_eq [OF row assms(5,7)])
  note reduce = block_reduce_eq [OF assms(3)]
  have len256: "length (map f [0..<256]) = 256" for f :: "nat \<Rightarrow> u32" by simp
  obtain sh1 r1 where r1: "block_reduce fmaxf (f32_neg FLT_MAX) fsched [row, 0] warp_partials (map (\<lambda>tid. evaluate fmaxf
      (strided_tree 256 (\<lambda>j. bf16_to_float (input ! (row * cols + j))) (f32_neg FLT_MAX) cols tid)) [0..<256]) = Some (sh1, r1)"
    "length sh1 = 8" "r1 ! 0 = ?m"
    unfolding gpu_row_max_def using reduce [where phase = "[row, 0]", OF _ assms(4), OF len256] by blast
  obtain sh2 r2 where r2: "block_reduce f32_add 0 fsched [row, 1] sh1 (map (\<lambda>tid. evaluate f32_add
      (strided_tree 256 (gpu_exp dev input cols row ?m) 0 cols tid)) [0..<256]) = Some (sh2, r2)"
    "r2 ! 0 = gpu_row_sum dev input cols row ?m"
    unfolding gpu_row_sum_def using reduce [where phase = "[row, 1]", OF _ r1(2), OF len256] by blast
  have threads: "those (map (softmax_thread dev input cols m inv_sum row) [0..<kBlockThreads]) =
      Some (map (\<lambda>tid. map (\<lambda>j. (row * cols + j, float2bf16 dev (f32_mul (gpu_exp dev input cols row m j) inv_sum))) (strided_items 256 cols tid)) [0..<256])"
    for m inv_sum unfolding kBlockThreads_def by (rule those_map) (rule softmax_thread_eq [OF assms(1) row assms(5,7)])
  have g: "(\<lambda>j. dev_expf dev (f32_sub (bf16_to_float (input ! (row * cols + j))) ?m)) = gpu_exp dev input cols row ?m"
    by (simp add: fun_eq_iff gpu_exp_def)
  show "softmax_kernel dev fsched warp_partials input cols row = Some (map (\<lambda>tid. map (\<lambda>j. (row * cols + j,
      float2bf16 dev (f32_mul (gpu_exp dev input cols row ?m j) (f32_div f32_one (gpu_row_sum dev input cols row ?m)))))
        (strided_items 256 cols tid)) [0..<256])"
    unfolding softmax_kernel_def folds device_widens [OF assms(1)] Option.bind.simps r1 prod.case Let_def g r2 threads ..
qed

text \<open>The maximum over a tree of finite values is their maximum as reals, in whatever order.\<close>

lemma evaluate_fmaxf:
  assumes "\<forall>v \<in># leaves t. fp_finite binary32 (unat v)"
  shows "fp_finite binary32 (unat (evaluate fmaxf t)) \<and>
    fp_val binary32 (unat (evaluate fmaxf t)) = Max ((\<lambda>v. fp_val binary32 (unat v)) ` set_mset (leaves t))"
  using assms
proof (induction t)
  case (Node l r)
  have "leaves t \<noteq> {#}" for t :: "u32 rtree" by (induction t) simp_all
  then have "Max ((\<lambda>v. fp_val binary32 (unat v)) ` set_mset (leaves l + leaves r)) =
      max (Max ((\<lambda>v. fp_val binary32 (unat v)) ` set_mset (leaves l))) (Max ((\<lambda>v. fp_val binary32 (unat v)) ` set_mset (leaves r)))"
    unfolding set_mset_union image_Un by (intro Max_Un) simp_all
  with Node fmaxf_value show ?case by simp
qed simp

lemma gpu_row_max_value:
  assumes fin: "\<forall>j < cols. fp_finite binary32 (unat (bf16_to_float (input ! (row * cols + j))))" and "0 < cols"
  shows "fp_val binary32 (unat (gpu_row_max input cols row)) =
    Max ((\<lambda>j. fp_val binary32 (unat (bf16_to_float (input ! (row * cols + j))))) ` {..<cols})"
proof -
  let ?x = "\<lambda>j. bf16_to_float (input ! (row * cols + j))" and ?low = "f32_neg FLT_MAX"
  let ?val = "\<lambda>v. fp_val binary32 (unat (v :: u32))"
  obtain t where t: "gpu_row_max input cols row = evaluate fmaxf t" "leaves t = image_mset ?x (mset [0..<cols]) + replicate_mset 280 ?low"
    using strided.row_tree [where op = fmaxf and start = ?low and n = cols and tree = "strided_tree 256 ?x ?low cols",
      OF leaves_strided_tree] unfolding gpu_row_max_def by blast
  have l: "set_mset (leaves t) = ?x ` {..<cols} \<union> {?low}" unfolding t(2) by auto
  have low: "fp_finite binary32 (unat ?low)" "\<forall>j < cols. ?val ?low \<le> ?val (?x j)"
    using fin assms(2) lowest_finite by blast+
  then have "?val (evaluate fmaxf t) = Max (?val ` (?x ` {..<cols} \<union> {?low}))"
    using evaluate_fmaxf [of t] fin unfolding l by auto
  also have "?val ` (?x ` {..<cols} \<union> {?low}) = insert (?val ?low) (?val ` ?x ` {..<cols})" by blast
  also have "Max \<dots> = max (?val ?low) (Max (?val ` ?x ` {..<cols}))" using assms(2) by (intro Max_insert) auto
  also have "\<dots> = Max (?val ` ?x ` {..<cols})"
  proof (rule max.absorb2)
    have "?val ?low \<le> ?val (?x 0)" using low(2) assms(2) by blast
    also have "?val (?x 0) \<le> Max (?val ` ?x ` {..<cols})" using assms(2) by (intro Max_ge imageI) simp_all
    finally show "?val ?low \<le> Max (?val ` ?x ` {..<cols})" .
  qed
  finally show ?thesis unfolding t(1) image_image .
qed

text \<open>C24. Softmax on the GPU, for every interleaving of blocks, of threads and of both reductions' phases and
  every initial content of shared memory: the kernel stays inside its buffers and stores each output
  element once; a row is shifted by the exact maximum of its elements when they are finite, and
  divided by a sum in which the exponential of every element occurs exactly once (the other terms are
  the zeros the accumulators and the idle lanes start from).\<close>

theorem launch_softmax_result:
  assumes "ieee_device dev" "fair sched" "fair fsched" "length warp_partials = 8" "rows * cols \<le> length input"
    and "length output = rows * cols" "in_i32 (int (cols + 256))" "0 < cols"
  shows "\<exists>out. launch_softmax dev sched fsched warp_partials input output rows cols = Some out \<and> length out = rows * cols \<and>
    (\<forall>row < rows. \<exists>m t. leaves t = image_mset (gpu_exp dev input cols row m) (mset [0..<cols]) + replicate_mset 280 0 \<and>
      ((\<forall>j < cols. fp_finite binary32 (unat (bf16_to_float (input ! (row * cols + j))))) \<longrightarrow>
        fp_val binary32 (unat m) = Max ((\<lambda>j. fp_val binary32 (unat (bf16_to_float (input ! (row * cols + j))))) ` {..<cols})) \<and>
      (\<forall>j < cols. out ! (row * cols + j) =
        float2bf16 dev (f32_mul (gpu_exp dev input cols row m j) (f32_div f32_one (evaluate f32_add t)))))"
proof -
  let ?m = "gpu_row_max input cols"
  let ?out = "tabulate rows cols (\<lambda>row j.
    float2bf16 dev (f32_mul (gpu_exp dev input cols row (?m row) j) (f32_div f32_one (gpu_row_sum dev input cols row (?m row)))))"
  have run: "launch_softmax dev sched fsched warp_partials input output rows cols = Some ?out"
    by (rule launch_softmax_eq) (use assms in simp_all)
  have "\<exists>m t. leaves t = image_mset (gpu_exp dev input cols row m) (mset [0..<cols]) + replicate_mset 280 0 \<and>
      ((\<forall>j < cols. fp_finite binary32 (unat (bf16_to_float (input ! (row * cols + j))))) \<longrightarrow>
        fp_val binary32 (unat m) = Max ((\<lambda>j. fp_val binary32 (unat (bf16_to_float (input ! (row * cols + j))))) ` {..<cols})) \<and>
      (\<forall>j < cols. ?out ! (row * cols + j) =
        float2bf16 dev (f32_mul (gpu_exp dev input cols row m j) (f32_div f32_one (evaluate f32_add t))))" if "row < rows" for row
  proof -
    obtain t where "gpu_row_sum dev input cols row (?m row) = evaluate f32_add t"
      "leaves t = image_mset (gpu_exp dev input cols row (?m row)) (mset [0..<cols]) + replicate_mset 280 0"
      using strided.row_tree [where op = f32_add and start = 0 and n = cols and tree = "strided_tree 256 (gpu_exp dev input cols row (?m row)) 0 cols",
        OF leaves_strided_tree] unfolding gpu_row_sum_def by blast
    with that gpu_row_max_value [OF _ assms(8)] show ?thesis
      by (intro exI [of _ "?m row"] exI [of _ t] conjI) (simp_all add: nth_tabulate)
  qed
  with run show ?thesis by (intro exI [of _ ?out] conjI) (simp_all only: length_tabulate, blast)
qed

theorem launch_softmax_result_witness:
  "\<exists>out. launch_softmax host_device in_order in_order (replicate 8 0x7FC00000) [0x3F80, 0x4000, 0xBF80] [0, 0, 0] 1 3 = Some out \<and> length out = 3"
proof -
  have "in_i32 (int (3 + 256))" by (simp add: in_i32_def)
  with launch_softmax_result [of host_device in_order in_order "replicate 8 0x7FC00000" 1 3 "[0x3F80, 0x4000, 0xBF80]" "[0, 0, 0]",
      OF ieee_host_device fair_in_order fair_in_order]
  show ?thesis by auto
qed

end
