(* ===== verification/CudaFused.thy ===== *)
theory CudaFused
  imports CudaGemm CudaReduce
begin

text \<open>
  The generated kernel that puts RMSNorm into the load of the matrix product (\<open>LowerToCuda.cpp\<close>): the
  sixteen threads of an output row, half a warp, first reduce the sum of squares of its input row,
  then stage normalised elements as the tiles of A.
\<close>

definition fused_local :: "device \<Rightarrow> u16 list \<Rightarrow> nat \<Rightarrow> nat \<Rightarrow> nat \<Rightarrow> nat \<Rightarrow> u32 option" where
  "fused_local dev X M K by tid =
     (let row = by * kBlockM_gemm + ty tid
      in if row < M then stride_loop (tx tid) kBlockN_gemm K (\<lambda>k local_ss. do {
           x \<leftarrow> rd X (row * K + k);
           let v = bf162float dev x;
           Some (f32_add local_ss (f32_mul v v))
         }) 0
         else Some 0)"

definition row_reduce_sum :: "u32 list \<Rightarrow> u32 list" where
  "row_reduce_sum vals = butterfly f32_add (kBlockN_gemm div 2) vals"

text \<open>The thread of a block that stages an element of A: its \<open>ty\<close> is the row's, its \<open>tx\<close> the column's.\<close>

definition staging_thread :: "nat \<Rightarrow> nat \<Rightarrow> nat" where
  "staging_thread row aCol = row mod kBlockM_gemm * kBlockN_gemm + aCol mod kBlockK_gemm"

definition load_normalised :: "device \<Rightarrow> u16 list \<Rightarrow> nat \<Rightarrow> nat \<Rightarrow> u32 list \<Rightarrow> nat \<Rightarrow> nat \<Rightarrow> u16 option" where
  "load_normalised dev X M K rms row aCol =
     (if row < M \<and> aCol < K
      then do {
        x \<leftarrow> rd X (row * K + aCol);
        let a = f32_div (bf162float dev x) (rms ! staging_thread row aCol);
        Some (float2bf16 dev a)
      }
      else Some (float2bf16 dev 0))"

definition fused_rmsnorm_matmul_kernel :: "device \<Rightarrow> u16 sched \<Rightarrow> u16 list \<Rightarrow> u16 list \<Rightarrow> u16 list \<Rightarrow>
    nat \<Rightarrow> nat \<Rightarrow> nat \<Rightarrow> u32 \<Rightarrow> nat \<Rightarrow> nat \<Rightarrow> u16 store list list option" where
  "fused_rmsnorm_matmul_kernel dev sched shared X W M N K epsilon by bx = do {
     local_ss \<leftarrow> those (map (fused_local dev X M K by) block_threads);
     let rms = map (\<lambda>ss. dev_sqrtf dev (f32_add (f32_div ss (f32_of_int (int K))) epsilon)) (row_reduce_sum local_ss);
     gemm_block (bf16_mac dev) sched shared (load_normalised dev X M K rms) (load_matrix_elem dev W K N) (matmul_store dev M N) K by bx
   }"

definition launch_fused_rmsnorm_matmul :: "device \<Rightarrow> u16 sched \<Rightarrow> u16 list \<Rightarrow> u16 list \<Rightarrow> u16 list \<Rightarrow> u16 list \<Rightarrow>
    nat \<Rightarrow> nat \<Rightarrow> nat \<Rightarrow> u32 \<Rightarrow> u16 list option" where
  "launch_fused_rmsnorm_matmul dev sched shared input weight output M N K epsilon =
     grid_launch sched (fused_rmsnorm_matmul_kernel dev sched shared input weight M N K epsilon) output M N K"

lemma staging_thread: "tid < 256 \<Longrightarrow> staging_thread (by * kBlockM_gemm + ty tid) (t * kBlockK_gemm + tx tid) = tid"
  by (simp add: staging_thread_def gemm_consts)

section \<open>The sum of squares of a row\<close>

interpretation half_warp: row_share 16 "strided_items 16"
  by unfold_locales (rule strided_share, simp)

definition fused_tree :: "u16 list \<Rightarrow> nat \<Rightarrow> nat \<Rightarrow> nat \<Rightarrow> nat \<Rightarrow> u32 rtree" where
  "fused_tree X M K by tid =
     (if by * 16 + tid div 16 < M then strided_tree 16 (square X K (by * 16 + tid div 16)) 0 K (tid mod 16) else Leaf 0)"

lemma fused_local_eq:
  assumes "ieee_device dev" "M * K \<le> length X" "in_i32 (int (K + 16))"
  shows "fused_local dev X M K by tid = Some (evaluate f32_add (fused_tree X M K by tid))"
proof (cases "by * 16 + tid div 16 < M")
  case True
  let ?row = "by * 16 + tid div 16"
  note idx = row_index [OF True assms(2)] and w = device_widens [OF assms(1)]
  have "stride_loop (tid mod 16) 16 K (\<lambda>k local_ss. rd X (?row * K + k) \<bind> (\<lambda>x. let v = bf162float dev x in Some (f32_add local_ss (f32_mul v v)))) 0 =
      Some (foldl (\<lambda>s k. f32_add s (square X K ?row (tid mod 16 + k * 16))) 0 [0..<trips (tid mod 16) 16 K])"
    by (rule stride_loop_eq) (use assms(3) idx in \<open>simp_all add: w square_def Let_def\<close>)
  also have "foldl (\<lambda>s k. f32_add s (square X K ?row (tid mod 16 + k * 16))) 0 ks =
      evaluate f32_add (foldl (\<lambda>t k. Node t (Leaf (square X K ?row (tid mod 16 + k * 16)))) (Leaf 0) ks)" for ks
    by (subst evaluate_foldl) simp_all
  finally show ?thesis using True unfolding fused_local_def Let_def [of "by * kBlockM_gemm + ty tid"]
    by (simp add: gemm_consts fused_tree_def strided_tree_def del: in_i32_def)
qed (simp add: fused_local_def fused_tree_def gemm_consts)

definition row_lane_sum :: "u16 list \<Rightarrow> nat \<Rightarrow> nat \<Rightarrow> nat \<Rightarrow> u32" where
  "row_lane_sum X M K row =
     butterfly f32_add 8 (map (\<lambda>tid. evaluate f32_add (fused_tree X M K (row div 16) tid)) [0..<256]) ! (row mod 16 * 16)"

lemma lane_group_16: "lane_group 4 i = {16 * (i div 16)..<16 * (i div 16) + 16}"
proof (intro set_eqI)
  fix j :: nat
  have "j div 16 = w \<longleftrightarrow> 16 * w \<le> j \<and> j < 16 * w + 16" for w
  proof
    assume "16 * w \<le> j \<and> j < 16 * w + 16"
    then show "j div 16 = w" by (intro div_nat_eqI) simp_all
  next
    assume "j div 16 = w"
    with dividend_less_div_times [of 16 j] div_times_less_eq_dividend [of j 16]
    show "16 * w \<le> j \<and> j < 16 * w + 16" by simp
  qed
  then show "j \<in> lane_group 4 i \<longleftrightarrow> j \<in> {16 * (i div 16)..<16 * (i div 16) + 16}" by (simp add: lane_group_def)
qed

lemma row_lane_sum_tree:
  assumes "row < M"
  shows "\<exists>t. row_lane_sum X M K row = evaluate f32_add t \<and>
    leaves t = image_mset (square X K row) (mset [0..<K]) + replicate_mset 16 0"
proof (intro exI conjI)
  let ?i = "row mod 16 * 16" and ?trees = "map (fused_tree X M K (row div 16)) [0..<256]"
  let ?t = "butterfly Node 8 ?trees ! ?i"
  have i: "?i < 256" by simp
  have hom: "map h (butterfly Node 8 ?trees) = butterfly g 8 (map h ?trees)" if "\<And>a b. h (Node a b) = g (h a) (h b)"
    for h :: "u32 rtree \<Rightarrow> 'z" and g
    using butterfly_hom [where f = Node and h = h and g = g and k = 3 and vals = ?trees, OF that] by simp
  have "evaluate f32_add ?t = map (evaluate f32_add) (butterfly Node 8 ?trees) ! ?i" using i by simp
  also have "\<dots> = butterfly f32_add 8 (map (evaluate f32_add) ?trees) ! ?i" using hom [of "evaluate f32_add" f32_add] by simp
  finally show "row_lane_sum X M K row = evaluate f32_add ?t"
    unfolding row_lane_sum_def by (simp only: map_map comp_def)
  have "leaves ?t = map leaves (butterfly Node 8 ?trees) ! ?i" using i by simp
  also have "\<dots> = butterfly (+) (2 ^ 3) (map leaves ?trees) ! ?i" using hom [of leaves "(+)"] by simp
  also have "\<dots> = (\<Sum>j \<in> lane_group (Suc 3) ?i. map leaves ?trees ! j)" by (rule butterfly_sum) (use i in simp_all)
  also have "lane_group (Suc 3) ?i = {16 * (row mod 16)..<16 * (row mod 16) + 16}" using lane_group_16 [of ?i] by simp
  also have "(\<Sum>j = 16 * (row mod 16)..<16 * (row mod 16) + 16. map leaves ?trees ! j) = (\<Sum>c < 16. map leaves ?trees ! (16 * (row mod 16) + c))"
    using sum.shift_bounds_nat_ivl [of "\<lambda>j. map leaves ?trees ! j" 0 "16 * (row mod 16)" 16] by (simp add: lessThan_atLeast0 add.commute)
  also have "\<dots> = (\<Sum>c < 16. {#0#} + image_mset (square X K row) (mset (strided_items 16 K c)))"
  proof (rule sum.cong [OF refl])
    fix c :: nat assume "c \<in> {..<16}"
    then have c: "c < 16" by simp
    have "16 * (row mod 16) + c < 256" using c mod_less_divisor [of 16 row] by linarith
    moreover have "row div 16 * 16 + (16 * (row mod 16) + c) div 16 = row" "(16 * (row mod 16) + c) mod 16 = c" using c by simp_all
    ultimately show "map leaves ?trees ! (16 * (row mod 16) + c) = {#0#} + image_mset (square X K row) (mset (strided_items 16 K c))"
      using assms by (simp add: fused_tree_def leaves_strided_tree)
  qed
  also have "\<dots> = (\<Sum>c < (16 :: nat). {#0#}) + image_mset (square X K row) (mset [0..<K])"
    unfolding sum.distrib half_warp.share_terms ..
  finally show "leaves ?t = image_mset (square X K row) (mset [0..<K]) + replicate_mset 16 0"
    unfolding sum_singleton_mset by (simp only: add.commute)
qed

text \<open>All lanes of a row hold the same sum.\<close>

lemma row_lane_uniform:
  assumes "tid < 256" "row = by * 16 + tid div 16"
  shows "row_reduce_sum (map (\<lambda>tid. evaluate f32_add (fused_tree X M K by tid)) [0..<256]) ! tid = row_lane_sum X M K row"
proof -
  let ?l = "map (\<lambda>tid. evaluate f32_add (fused_tree X M K by tid)) [0..<256]"
  have q: "tid div 16 < 16" using assms(1) by simp
  then have b: "row div 16 = by" "row mod 16 = tid div 16" using assms(2) by simp_all
  have "tid div 16 * 16 < 256" using q by linarith
  then have "butterfly f32_add (2 ^ 3) ?l ! tid = butterfly f32_add (2 ^ 3) ?l ! (tid div 16 * 16)"
    by (intro sum_lanes.butterfly_uniform) (use assms(1) in simp_all)
  then show ?thesis by (simp add: row_reduce_sum_def row_lane_sum_def kBlockN_gemm_def b)
qed

section \<open>Prologue fusion\<close>

definition lane_rms :: "device \<Rightarrow> u16 list \<Rightarrow> nat \<Rightarrow> nat \<Rightarrow> u32 \<Rightarrow> nat \<Rightarrow> u32" where
  "lane_rms dev X M K epsilon row = dev_sqrtf dev (f32_add (f32_div (row_lane_sum X M K row) (f32_of_int (int K))) epsilon)"

definition lane_normalised :: "device \<Rightarrow> u16 list \<Rightarrow> nat \<Rightarrow> nat \<Rightarrow> (nat \<Rightarrow> u32) \<Rightarrow> u16 list" where
  "lane_normalised dev X M K rms = tabulate M K (\<lambda>row. gpu_normalised dev X None K (rms row) row)"

lemma load_normalised_eq:
  assumes "ieee_device dev" "M * K \<le> length X" "length rms = 256"
    and rms: "\<And>tid. tid < 256 \<Longrightarrow> by * 16 + tid div 16 < M \<Longrightarrow> rms ! tid = r (by * 16 + tid div 16)"
    and "tid < 256"
  shows "load_normalised dev X M K rms (by * kBlockM_gemm + ty tid) (t * kBlockK_gemm + tx tid) =
    Some (padded (lane_normalised dev X M K r) M K (by * kBlockM_gemm + ty tid) (t * kBlockK_gemm + tx tid))"
proof (cases "by * kBlockM_gemm + ty tid < M \<and> t * kBlockK_gemm + tx tid < K")
  case True
  then have "rd X ((by * kBlockM_gemm + ty tid) * K + (t * kBlockK_gemm + tx tid)) = Some (X ! ((by * kBlockM_gemm + ty tid) * K + (t * kBlockK_gemm + tx tid)))"
    using row_index [OF _ assms(2)] by simp
  moreover have "rms ! tid = r (by * kBlockM_gemm + ty tid)" using rms [OF assms(5)] True by (simp add: gemm_consts)
  ultimately show ?thesis
    using True unfolding load_normalised_def padded_def staging_thread [OF assms(5)]
    by (simp add: lane_normalised_def nth_tabulate gpu_normalised_def scale_by_def device_widens [OF assms(1)])
qed (auto simp: load_normalised_def padded_def float2bf16_zero [OF assms(1)])

lemma gemm_block_cong:
  assumes "\<And>t tid. tid < 256 \<Longrightarrow> loadA (by * kBlockM_gemm + ty tid) (t * kBlockK_gemm + tx tid) =
    loadA' (by * kBlockM_gemm + ty tid) (t * kBlockK_gemm + tx tid)"
  shows "gemm_block (bf16_mac dev) sched shared loadA loadB epilogue K by bx = gemm_block (bf16_mac dev) sched shared loadA' loadB epilogue K by bx"
proof -
  have "map (gemm_stage loadA loadB by bx t) block_threads = map (gemm_stage loadA' loadB by bx t) block_threads" for t
    by (rule map_cong) (use assms in \<open>auto simp: gemm_stage_def block_threads_def kBlockM_gemm_def kBlockN_gemm_def\<close>)
  then have "gemm_tile (bf16_mac dev) sched loadA loadB by bx t = gemm_tile (bf16_mac dev) sched loadA' loadB by bx t" for t
    by (simp only: fun_eq_iff gemm_tile_def split: prod.split) simp
  then show ?thesis by (simp only: gemm_block_def cong: loop_cong)
qed

lemma fused_kernel_eq:
  assumes "ieee_device dev" "M * K \<le> length X" "in_i32 (int (K + 16))"
  shows "fused_rmsnorm_matmul_kernel dev sched shared X W M N K epsilon =
    matmul_kernel dev sched shared (lane_normalised dev X M K (lane_rms dev X M K epsilon)) W M N K"
proof (intro ext)
  fix b x
  let ?norm = "lane_normalised dev X M K (lane_rms dev X M K epsilon)"
  let ?l = "map (\<lambda>tid. evaluate f32_add (fused_tree X M K b tid)) [0..<256]"
  let ?rms = "map (\<lambda>ss. dev_sqrtf dev (f32_add (f32_div ss (f32_of_int (int K))) epsilon)) (row_reduce_sum ?l)"
  have l: "those (map (fused_local dev X M K b) block_threads) = Some ?l"
    unfolding gemm_consts by (simp only: numeral_times_numeral semiring_norm, rule those_map) (rule fused_local_eq [OF assms])
  have len: "length ?rms = 256" by (simp add: row_reduce_sum_def)
  have rms: "?rms ! tid = lane_rms dev X M K epsilon (b * 16 + tid div 16)" if "tid < 256" for tid
    using that row_lane_uniform [OF that refl, of X M K b] by (simp add: lane_rms_def row_reduce_sum_def)
  have pad: "load_matrix_elem dev ?norm M K = (\<lambda>i j. Some (padded ?norm M K i j))"
    by (rule load_padded [OF assms(1)]) (simp add: lane_normalised_def)
  have "gemm_block (bf16_mac dev) sched shared (load_normalised dev X M K ?rms) (load_matrix_elem dev W K N) (matmul_store dev M N) K b x =
      gemm_block (bf16_mac dev) sched shared (\<lambda>i j. Some (padded ?norm M K i j)) (load_matrix_elem dev W K N) (matmul_store dev M N) K b x"
    by (rule gemm_block_cong) (rule load_normalised_eq [OF assms(1,2) len rms])
  then show "fused_rmsnorm_matmul_kernel dev sched shared X W M N K epsilon b x = matmul_kernel dev sched shared ?norm W M N K b x"
    unfolding fused_rmsnorm_matmul_kernel_def l Option.bind.simps Let_def matmul_kernel_def pad .
qed

text \<open>C22. Prologue fusion computes what the two kernels it replaces would: the fused kernel is the matrix
  product kernel run on the normalised matrix it never stores, under the same schedule and whatever
  that schedule is. Each row is normalised by one root mean square, the same in all blocks, in whose
  sum of squares every element of the row occurs exactly once.\<close>

theorem launch_fused_rmsnorm_matmul_unfused:
  assumes "ieee_device dev" "M * K \<le> length input" "in_i32 (int (K + 16))"
  shows "\<exists>rms. launch_fused_rmsnorm_matmul dev sched shared input weight output M N K epsilon =
      launch_matmul dev sched shared (lane_normalised dev input M K rms) weight output M N K \<and>
    (\<forall>row < M. \<exists>t. leaves t = image_mset (square input K row) (mset [0..<K]) + replicate_mset 16 0 \<and>
      rms row = dev_sqrtf dev (f32_add (f32_div (evaluate f32_add t) (f32_of_int (int K))) epsilon))"
proof (intro exI [of _ "lane_rms dev input M K epsilon"] conjI allI impI)
  show "launch_fused_rmsnorm_matmul dev sched shared input weight output M N K epsilon =
      launch_matmul dev sched shared (lane_normalised dev input M K (lane_rms dev input M K epsilon)) weight output M N K"
    unfolding launch_fused_rmsnorm_matmul_def launch_matmul_def fused_kernel_eq [OF assms] ..
  fix row assume "row < M"
  from row_lane_sum_tree [OF this, of input K]
  show "\<exists>t. leaves t = image_mset (square input K row) (mset [0..<K]) + replicate_mset 16 0 \<and>
      lane_rms dev input M K epsilon row = dev_sqrtf dev (f32_add (f32_div (evaluate f32_add t) (f32_of_int (int K))) epsilon)"
    unfolding lane_rms_def by metis
qed

theorem launch_fused_rmsnorm_matmul_unfused_witness:
  "\<exists>rms. launch_fused_rmsnorm_matmul host_device in_order (replicate 512 0) [0x3F80, 0x4000] [0x4040, 0xC000] [0] 1 1 2 0 =
    launch_matmul host_device in_order (replicate 512 0) (lane_normalised host_device [0x3F80, 0x4000] 1 2 rms) [0x4040, 0xC000] [0] 1 1 2"
proof -
  have "in_i32 (int (2 + 16))" "1 * 2 \<le> length [0x3F80, 0x4000 :: u16]" by (simp_all add: in_i32_def)
  from launch_fused_rmsnorm_matmul_unfused [OF ieee_host_device this(2,1), of in_order "replicate 512 0" "[0x4040, 0xC000]" "[0]" 1 0]
  show ?thesis by blast
qed

end
