(* ===== verification/GpuRun.thy ===== *)
theory GpuRun
  imports Attention CudaFused
begin

text \<open>
  The launchers of the generated kernels (\<open>cuda_run_main.cpp\<close> and its HIP twin \<open>hip_run_main.cpp\<close>):
  the tensors are read, copied to the device, the kernel is launched, and the result is copied back
  and written. The GPU runtime is a parameter: what a fresh allocation holds (\<open>None\<close>: the allocation
  fails), whether copies and the synchronisation succeed, and the schedules of the launches. A failed
  runtime call ends the process with exit code 1, which is \<open>Reject\<close>; freeing a live buffer is taken
  to succeed. Every exception of the operations is caught by \<open>main\<close>.
\<close>

record backend =
  be_device :: device
  be_sched :: "u16 sched"
  be_fsched :: "u32 sched"
  be_shared :: "u16 list"
  be_warp :: "u32 list"
  be_fresh :: "nat \<Rightarrow> u16 list option"
  be_copies :: bool
  be_sync :: bool
  be_devices :: "nat option"

section \<open>Buffers\<close>

definition DevBuf :: "backend \<Rightarrow> nat \<Rightarrow> stop + u16 list" where
  "DevBuf B n =
     (if n = 0 then Inr []
      else case be_fresh B n of None \<Rightarrow> Inl (Reject ''cudaMalloc failed'') | Some xs \<Rightarrow> Inr xs)"

definition copied :: "backend \<Rightarrow> 'a \<Rightarrow> stop + 'a" where
  "copied B x = (if be_copies B then Inr x else Inl (Reject ''cudaMemcpy failed''))"

definition upload :: "backend \<Rightarrow> npy_array \<Rightarrow> stop + u16 list" where
  "upload B arr = rbind (DevBuf B (length (npy_data arr))) (\<lambda>d. copied B (npy_data arr))"

text \<open>\<open>DevBuf (static_cast<size_t>(n) * sizeof (uint16_t))\<close>\<close>

definition result_buffer :: "backend \<Rightarrow> int \<Rightarrow> stop + u16 list" where
  "result_buffer B n = DevBuf B (nat (n mod 2 ^ 64 * 2 mod 2 ^ 64) div 2)"

definition synced :: "backend \<Rightarrow> 'a \<Rightarrow> stop + 'a" where
  "synced B x = (if be_sync B then Inr x else Inl (Reject ''cudaDeviceSynchronize failed''))"

text \<open>Copying back more elements than the buffer has is left undefined.\<close>

definition download_write :: "backend \<Rightarrow> (string \<Rightarrow> bool) \<Rightarrow> u16 list \<Rightarrow> int list \<Rightarrow> string \<Rightarrow> files \<Rightarrow> stop + files" where
  "download_write B can_open d sh path files =
     rbind (defined (npy_product sh)) (\<lambda>n.
     rbind (alloc n) (\<lambda>host.
     if length d < length host then Inl Undefined
     else rbind (copied B (take (length host) d)) (\<lambda>host. store can_open path sh host files)))"

text \<open>The accesses \<open>shape.back()\<close> and \<open>shape[i]\<close>, which nothing checks, and the conversions of the
  sizes to \<open>int\<close>; a size that becomes negative is outside the model and counts as undefined.\<close>

definition back_dim :: "npy_array \<Rightarrow> stop + int" where
  "back_dim a = (if npy_shape a = [] then Inl Undefined else Inr (last (npy_shape a)))"

definition dim_at :: "npy_array \<Rightarrow> nat \<Rightarrow> stop + int" where
  "dim_at a i = (if i < length (npy_shape a) then Inr (npy_shape a ! i) else Inl Undefined)"

definition int_arg :: "int \<Rightarrow> stop + nat" where
  "int_arg x = (if wrap_i32 x < 0 then Inl Undefined else Inr (nat (wrap_i32 x)))"

definition matmul_out_shape :: "int list \<Rightarrow> int \<Rightarrow> int list" where
  "matmul_out_shape a N = butlast a @ [N]"

section \<open>The operations\<close>

definition gpu_rmsnorm :: "libm \<Rightarrow> backend \<Rightarrow> (string \<Rightarrow> bool) \<Rightarrow> files \<Rightarrow> string list \<Rightarrow> stop + files" where
  "gpu_rmsnorm lm B can_open files argv =
     (if length argv < 4 then Inl Usage
      else
        rbind (rmsnorm_options lm (drop 4 argv) [] kDefaultEpsilon) (\<lambda>(weight_path, epsilon).
        rbind (load files (argv ! 2)) (\<lambda>inp.
        rbind (back_dim inp) (\<lambda>cols.
        rbind (npy_size inp) (\<lambda>size.
        rbind (quotient size cols) (\<lambda>rows.
        rbind (if weight_path = [] then Inr None
               else rbind (load files weight_path) (\<lambda>w. Inr (Some w))) (\<lambda>w.
        rbind (upload B inp) (\<lambda>din.
        rbind (case w of None \<Rightarrow> Inr None | Some w \<Rightarrow> rbind (upload B w) (\<lambda>dw. Inr (Some dw))) (\<lambda>wptr.
        rbind (DevBuf B (length (npy_data inp))) (\<lambda>dout.
        rbind (int_arg rows) (\<lambda>r.
        rbind (int_arg cols) (\<lambda>c.
        rbind (defined (launch_rmsnorm (be_device B) (be_sched B) (be_fsched B) (be_warp B) din wptr dout r c epsilon)) (\<lambda>dout.
        rbind (synced B dout) (\<lambda>dout.
        download_write B can_open dout (npy_shape inp) (argv ! 3) files))))))))))))))"

definition gpu_gelu :: "backend \<Rightarrow> (string \<Rightarrow> bool) \<Rightarrow> files \<Rightarrow> string list \<Rightarrow> stop + files" where
  "gpu_gelu B can_open files argv =
     (if length argv \<noteq> 4 then Inl Usage
      else
        rbind (load files (argv ! 2)) (\<lambda>inp.
        rbind (upload B inp) (\<lambda>din.
        rbind (DevBuf B (length (npy_data inp))) (\<lambda>dout.
        rbind (npy_size inp) (\<lambda>size.
        rbind (int_arg size) (\<lambda>n.
        rbind (defined (launch_gelu (be_device B) (be_sched B) din dout n)) (\<lambda>dout.
        rbind (synced B dout) (\<lambda>dout.
        download_write B can_open dout (npy_shape inp) (argv ! 3) files))))))))"

definition gpu_matmul :: "backend \<Rightarrow> (string \<Rightarrow> bool) \<Rightarrow> files \<Rightarrow> string list \<Rightarrow> stop + files" where
  "gpu_matmul B can_open files argv =
     (if length argv \<noteq> 5 then Inl Usage
      else
        rbind (load files (argv ! 2)) (\<lambda>a.
        rbind (load files (argv ! 3)) (\<lambda>b.
        rbind (back_dim a) (\<lambda>K.
        rbind (npy_size a) (\<lambda>size.
        rbind (quotient size K) (\<lambda>M.
        rbind (dim_at b 1) (\<lambda>N.
        rbind (dim_at b 0) (\<lambda>Kb.
        if Kb \<noteq> K then Inl (Reject ''matmul: contraction mismatch'')
        else
          rbind (upload B a) (\<lambda>da.
          rbind (upload B b) (\<lambda>db.
          rbind (i64 (M * N)) (\<lambda>MN.
          rbind (result_buffer B MN) (\<lambda>dc.
          rbind (int_arg M) (\<lambda>m.
          rbind (int_arg N) (\<lambda>n.
          rbind (int_arg K) (\<lambda>k.
          rbind (defined (launch_matmul (be_device B) (be_sched B) (be_shared B) da db dc m n k)) (\<lambda>dc.
          rbind (synced B dc) (\<lambda>dc.
          download_write B can_open dc (matmul_out_shape (npy_shape a) N) (argv ! 4) files)))))))))))))))))"

fun gpu_axis :: "string list \<Rightarrow> int \<Rightarrow> stop + int" where
  "gpu_axis [] axis = Inr axis"
| "gpu_axis (a # rest) axis =
     (if a = ''--axis'' \<and> rest \<noteq> [] then
        (case stoi (hd rest) of None \<Rightarrow> Inl Uncaught | Some n \<Rightarrow> gpu_axis (tl rest) n)
      else Inl Usage)"

definition gpu_softmax :: "backend \<Rightarrow> (string \<Rightarrow> bool) \<Rightarrow> files \<Rightarrow> string list \<Rightarrow> stop + files" where
  "gpu_softmax B can_open files argv =
     (if length argv < 4 then Inl Usage
      else
        rbind (gpu_axis (drop 4 argv) (- 1)) (\<lambda>axis.
        rbind (load files (argv ! 2)) (\<lambda>inp.
        if axis \<noteq> - 1 \<and> axis \<noteq> int (length (npy_shape inp)) - 1
        then Inl (Reject ''softmax: only last-axis reduction supported (axis=-1)'')
        else
          rbind (back_dim inp) (\<lambda>cols.
          rbind (npy_size inp) (\<lambda>size.
          rbind (quotient size cols) (\<lambda>rows.
          rbind (upload B inp) (\<lambda>din.
          rbind (DevBuf B (length (npy_data inp))) (\<lambda>dout.
          rbind (int_arg rows) (\<lambda>r.
          rbind (int_arg cols) (\<lambda>c.
          rbind (defined (launch_softmax (be_device B) (be_sched B) (be_fsched B) (be_warp B) din dout r c)) (\<lambda>dout.
          rbind (synced B dout) (\<lambda>dout.
          download_write B can_open dout (npy_shape inp) (argv ! 3) files))))))))))))"

definition gpu_fused_rmsnorm_matmul :: "libm \<Rightarrow> backend \<Rightarrow> (string \<Rightarrow> bool) \<Rightarrow> files \<Rightarrow> string list \<Rightarrow> stop + files" where
  "gpu_fused_rmsnorm_matmul lm B can_open files argv =
     (if length argv < 5 then Inl Usage
      else
        rbind (epsilon_options lm (drop 5 argv) kDefaultEpsilon) (\<lambda>epsilon.
        rbind (load files (argv ! 2)) (\<lambda>x.
        rbind (load files (argv ! 3)) (\<lambda>w.
        rbind (back_dim x) (\<lambda>K.
        rbind (npy_size x) (\<lambda>size.
        rbind (quotient size K) (\<lambda>M.
        rbind (dim_at w 1) (\<lambda>N.
        rbind (dim_at w 0) (\<lambda>Kw.
        if Kw \<noteq> K then Inl (Reject ''fused_rmsnorm_matmul: K mismatch'')
        else
          rbind (upload B x) (\<lambda>dx.
          rbind (upload B w) (\<lambda>dw.
          rbind (i64 (M * N)) (\<lambda>MN.
          rbind (result_buffer B MN) (\<lambda>dout.
          rbind (int_arg M) (\<lambda>m.
          rbind (int_arg N) (\<lambda>n.
          rbind (int_arg K) (\<lambda>k.
          rbind (defined (launch_fused_rmsnorm_matmul (be_device B) (be_sched B) (be_shared B) dx dw dout m n k epsilon)) (\<lambda>dout.
          rbind (synced B dout) (\<lambda>dout.
          download_write B can_open dout (matmul_out_shape (npy_shape x) N) (argv ! 4) files))))))))))))))))))"

definition gpu_fused_matmul_bias_gelu :: "backend \<Rightarrow> (string \<Rightarrow> bool) \<Rightarrow> files \<Rightarrow> string list \<Rightarrow> stop + files" where
  "gpu_fused_matmul_bias_gelu B can_open files argv =
     (if length argv \<noteq> 6 then Inl Usage
      else
        rbind (load files (argv ! 2)) (\<lambda>a.
        rbind (load files (argv ! 3)) (\<lambda>b.
        rbind (load files (argv ! 4)) (\<lambda>bias.
        rbind (back_dim a) (\<lambda>K.
        rbind (npy_size a) (\<lambda>size.
        rbind (quotient size K) (\<lambda>M.
        rbind (dim_at b 1) (\<lambda>N.
        rbind (dim_at b 0) (\<lambda>Kb.
        rbind (if Kb \<noteq> K then Inr True else rbind (npy_size bias) (\<lambda>n. Inr (n \<noteq> N))) (\<lambda>mismatch.
        if mismatch then Inl (Reject ''fused_matmul_bias_gelu: shape mismatch'')
        else
          rbind (upload B a) (\<lambda>da.
          rbind (upload B b) (\<lambda>db.
          rbind (upload B bias) (\<lambda>dbias.
          rbind (i64 (M * N)) (\<lambda>MN.
          rbind (result_buffer B MN) (\<lambda>dout.
          rbind (int_arg M) (\<lambda>m.
          rbind (int_arg N) (\<lambda>n.
          rbind (int_arg K) (\<lambda>k.
          rbind (defined (launch_fused_matmul_bias_gelu (be_device B) (be_sched B) (be_shared B) da db dbias dout m n k)) (\<lambda>dout.
          rbind (synced B dout) (\<lambda>dout.
          download_write B can_open dout (matmul_out_shape (npy_shape a) N) (argv ! 5) files))))))))))))))))))))"

text \<open>\<open>dev\<close> reports the device; \<open>neg\<close> launches a block that is too large and reports what the runtime
  said (\<open>malloc_ok\<close>, and whether the launch and the synchronisation reported an error).\<close>

definition run_dev :: "backend \<Rightarrow> int" where
  "run_dev B = (case be_devices B of None \<Rightarrow> 1 | Some n \<Rightarrow> if n = 0 then 1 else 0)"

definition run_neg :: "bool \<Rightarrow> bool \<Rightarrow> bool \<Rightarrow> int" where
  "run_neg malloc_ok launch_error sync_error =
     (if \<not> malloc_ok then 1 else if \<not> launch_error \<and> \<not> sync_error then 2 else 1)"

section \<open>The main functions\<close>

fun exit_status :: "files \<Rightarrow> stop + files \<Rightarrow> (int \<times> files) option" where
  "exit_status files (Inr files') = Some (0, files')"
| "exit_status files (Inl Usage) = Some (2, files)"
| "exit_status files (Inl (Reject m)) = Some (1, files)"
| "exit_status files (Inl (Caught e)) = Some (1, files)"
| "exit_status files (Inl Uncaught) = Some (1, files)"
| "exit_status files (Inl Undefined) = None"

definition hip_run :: "libm \<Rightarrow> backend \<Rightarrow> (bool \<times> bool \<times> bool) \<Rightarrow> (string \<Rightarrow> bool) \<Rightarrow> files \<Rightarrow> string list \<Rightarrow> (int \<times> files) option" where
  "hip_run lm B probe can_open files argv =
     (if length argv < 2 then Some (2, files)
      else let op' = argv ! 1 in
        if op' = ''rmsnorm'' then exit_status files (gpu_rmsnorm lm B can_open files argv)
        else if op' = ''gelu'' then exit_status files (gpu_gelu B can_open files argv)
        else if op' = ''matmul'' then exit_status files (gpu_matmul B can_open files argv)
        else if op' = ''softmax'' then exit_status files (gpu_softmax B can_open files argv)
        else if op' = ''fused_rmsnorm_matmul'' then exit_status files (gpu_fused_rmsnorm_matmul lm B can_open files argv)
        else if op' = ''fused_matmul_bias_gelu'' then exit_status files (gpu_fused_matmul_bias_gelu B can_open files argv)
        else if op' = ''neg'' then (case probe of (a, l, s) \<Rightarrow> Some (run_neg a l s, files))
        else Some (2, files))"

definition cuda_run :: "libm \<Rightarrow> backend \<Rightarrow> (bool \<times> bool \<times> bool) \<Rightarrow> (string \<Rightarrow> bool) \<Rightarrow> files \<Rightarrow> string list \<Rightarrow> (int \<times> files) option" where
  "cuda_run lm B probe can_open files argv =
     (if length argv < 2 then Some (2, files)
      else let op' = argv ! 1 in
        if op' = ''rmsnorm'' then exit_status files (gpu_rmsnorm lm B can_open files argv)
        else if op' = ''gelu'' then exit_status files (gpu_gelu B can_open files argv)
        else if op' = ''matmul'' then exit_status files (gpu_matmul B can_open files argv)
        else if op' = ''softmax'' then exit_status files (gpu_softmax B can_open files argv)
        else if op' = ''fused_rmsnorm_matmul'' then exit_status files (gpu_fused_rmsnorm_matmul lm B can_open files argv)
        else if op' = ''fused_matmul_bias_gelu'' then exit_status files (gpu_fused_matmul_bias_gelu B can_open files argv)
        else if op' = ''dev'' then Some (run_dev B, files)
        else if op' = ''neg'' then (case probe of (a, l, s) \<Rightarrow> Some (run_neg a l s, files))
        else Some (2, files))"

section \<open>The matrix product on a GPU and on the host\<close>

text \<open>What the GPU runtime promises: conversions as documented, fair schedules, and allocations of the
  requested size. Any of its calls may still fail.\<close>

definition backend_laws :: "backend \<Rightarrow> bool" where
  "backend_laws B \<longleftrightarrow> ieee_device (be_device B) \<and> fair (be_sched B) \<and> length (be_shared B) = 512 \<and>
     (\<forall>n xs. be_fresh B n = Some xs \<longrightarrow> length xs = n)"

definition never_fails :: "backend \<Rightarrow> bool" where
  "never_fails B \<longleftrightarrow> be_copies B \<and> be_sync B \<and> (\<forall>n. be_fresh B n \<noteq> None)"

text \<open>A step of a launcher: it goes on with the value, or a runtime call failed.\<close>

definition step_to :: "backend \<Rightarrow> stop + 'a \<Rightarrow> ('a \<Rightarrow> bool) \<Rightarrow> bool" where
  "step_to B r P \<longleftrightarrow> (\<exists>x. r = Inr x \<and> P x) \<or> (\<exists>m. r = Inl (Reject m)) \<and> \<not> never_fails B"

text \<open>A run of a launcher: it ends like the host run \<open>c\<close>, or a runtime call failed and stopped it.\<close>

definition follows :: "backend \<Rightarrow> stop + files \<Rightarrow> stop + files \<Rightarrow> bool" where
  "follows B c r \<longleftrightarrow> r = c \<or> (\<exists>m. r = Inl (Reject m)) \<and> \<not> never_fails B"

lemma follows_bind: "step_to B r P \<Longrightarrow> (\<And>x. P x \<Longrightarrow> follows B c (f x)) \<Longrightarrow> follows B c (rbind r f)"
  unfolding step_to_def by (elim disjE exE conjE) (simp_all add: follows_def)

lemma step_bind: "step_to B r P \<Longrightarrow> (\<And>x. P x \<Longrightarrow> step_to B (f x) Q) \<Longrightarrow> step_to B (rbind r f) Q"
  unfolding step_to_def [of B r] by (elim disjE exE conjE) (simp_all add: step_to_def)

lemma step_DevBuf: "backend_laws B \<Longrightarrow> step_to B (DevBuf B n) (\<lambda>xs. length xs = n)"
  by (auto simp: step_to_def DevBuf_def backend_laws_def never_fails_def split: option.splits)

lemma step_copied: "step_to B (copied B x) (\<lambda>y. y = x)"
  by (simp add: step_to_def copied_def never_fails_def)

lemma step_synced: "step_to B (synced B x) (\<lambda>y. y = x)"
  by (simp add: step_to_def synced_def never_fails_def)

lemma step_upload: "backend_laws B \<Longrightarrow> step_to B (upload B arr) (\<lambda>d. d = npy_data arr)"
  unfolding upload_def
  by (rule step_bind [OF step_DevBuf]) (simp_all add: step_copied)

lemma result_buffer_small: "n < 2 ^ 62 \<Longrightarrow> result_buffer B (int n) = DevBuf B n"
proof -
  assume n: "n < 2 ^ 62"
  have "int n mod 2 ^ 64 * 2 mod 2 ^ 64 = int (n * 2)" using n by simp
  then have "nat (int n mod 2 ^ 64 * 2 mod 2 ^ 64) div 2 = n" by (simp only: nat_int)
  then show ?thesis by (simp only: result_buffer_def)
qed

lemma int_arg_small: "in_i32 (int n + 16) \<Longrightarrow> int_arg (int n) = Inr n"
  by (simp add: int_arg_def in_i32_def wrap_i32_id)

text \<open>Copying a result back and writing it is the store of the host driver.\<close>

lemma download_write_store:
  assumes "npy_product sh = Some (int (length d))" "length d < 2 ^ 62"
  shows "download_write B can_open d sh path files = rbind (copied B d) (\<lambda>d. store can_open path sh d files)"
  using assms by (simp add: download_write_def alloc_small)

lemma gpu_matmul_launch:
  assumes l: "load files a_path = Inr a" "load files b_path = Inr b" "2 \<le> length (npy_shape a)"
    and b: "npy_shape b = [int k, int n]" and K: "last (npy_shape a) = int k" "k \<noteq> 0" and M: "M = length (npy_data a) div k"
    and range: "in_i32 (int M + 16)" "in_i32 (int n + 16)" "in_i32 (int k + 16)"
  shows "gpu_matmul B can_open files [prog, op', a_path, b_path, c_path] =
      rbind (upload B a) (\<lambda>da. rbind (upload B b) (\<lambda>db. rbind (DevBuf B (M * n)) (\<lambda>dc.
        rbind (defined (launch_matmul (be_device B) (be_sched B) (be_shared B) da db dc M n k)) (\<lambda>dc.
        rbind (synced B dc) (\<lambda>dc. download_write B can_open dc (matmul_out_shape (npy_shape a) (int n)) c_path files)))))"
    and "M * n < 2 ^ 62" and "M * k \<le> length (npy_data a)" and "k * n \<le> length (npy_data b)"
    and "npy_product (matmul_out_shape (npy_shape a) (int n)) = Some (int (M * n))"
proof -
  have "npy_shape a \<noteq> []" using l(3) by auto
  from load_split [OF l(1) this] obtain P where P: "0 \<le> P" "int (length (npy_data a)) = P * int k"
    "npy_size a = Inr (int (length (npy_data a)))" unfolding K(1) by blast
  have rows: "nat P * k = length (npy_data a)" using nat_rows [OF P(2,1)] by simp
  then have PM: "P = int M" using K(2) P(1) unfolding M rows [symmetric] by simp
  note bm = load_matrix [OF l(2), unfolded b, simplified]
  have "M * n < 2 ^ 31 * 2 ^ 31"
    by (rule mult_strict_mono') (use range(1,2) in \<open>simp_all add: in_i32_def\<close>)
  then show small: "M * n < 2 ^ 62" by simp
  have MN: "i64 (int M * int n) = Inr (int (M * n))"
    using small by (simp add: i64_def in_i64_def flip: of_nat_mult)
  show "gpu_matmul B can_open files [prog, op', a_path, b_path, c_path] =
      rbind (upload B a) (\<lambda>da. rbind (upload B b) (\<lambda>db. rbind (DevBuf B (M * n)) (\<lambda>dc.
        rbind (defined (launch_matmul (be_device B) (be_sched B) (be_shared B) da db dc M n k)) (\<lambda>dc.
        rbind (synced B dc) (\<lambda>dc. download_write B can_open dc (matmul_out_shape (npy_shape a) (int n)) c_path files)))))"
    unfolding gpu_matmul_def using P(3) K \<open>npy_shape a \<noteq> []\<close> PM range small
    by (simp add: l(1,2) back_dim_def dim_at_def b P(2) quotient_mult int_arg_small MN
        result_buffer_small [OF small, simplified])
  show "M * k \<le> length (npy_data a)" "k * n \<le> length (npy_data b)" using rows PM bm(1) by simp_all
  have "npy_product (butlast (npy_shape a) @ [int n]) = Some (int (length (npy_data a) div nat (int k) * nat (int n)))"
    using main_matmul_run(2) [OF l b K(1) _ refl] K(2) small M by simp
  then show "npy_product (matmul_out_shape (npy_shape a) (int n)) = Some (int (M * n))"
    by (simp add: matmul_out_shape_def M)
qed

lemma gpu_matmul_run:
  assumes laws: "backend_laws B" and l: "load files a_path = Inr a" "load files b_path = Inr b" "2 \<le> length (npy_shape a)"
    and b: "npy_shape b = [int k, int n]" and K: "last (npy_shape a) = int k" "k \<noteq> 0" and M: "M = length (npy_data a) div k"
    and range: "in_i32 (int M + 16)" "in_i32 (int n + 16)" "in_i32 (int k + 16)" "M \<le> 65535 * 16"
    and nan: "\<And>i j. i < M \<Longrightarrow> j < n \<Longrightarrow> \<not> f32_is_nan (dot (npy_data a) (npy_data b) n k i j)"
  shows "follows B (main_matmul can_open files [prog', a_path, b_path, c_path]) (gpu_matmul B can_open files [prog, op', a_path, b_path, c_path])"
proof -
  let ?c = "main_matmul can_open files [prog', a_path, b_path, c_path]" and ?spec = "matmul_spec (npy_data a) (npy_data b) M n k"
  note g = gpu_matmul_launch [OF l b K M range(1-3)]
  have out: "launch_matmul (be_device B) (be_sched B) (be_shared B) (npy_data a) (npy_data b) dc M n k = Some ?spec"
    if "length dc = M * n" for dc
  proof -
    have "launch_matmul (be_device B) (be_sched B) (be_shared B) (npy_data a) (npy_data b) dc M n k =
        Some (tabulate M n (\<lambda>i j. float2bf16 (be_device B) (dot (npy_data a) (npy_data b) n k i j)))"
      by (rule launch_matmul_eq) (use laws range g(3,4) that in \<open>simp_all add: backend_laws_def\<close>)
    also have "tabulate M n (\<lambda>i j. float2bf16 (be_device B) (dot (npy_data a) (npy_data b) n k i j)) = ?spec"
      unfolding matmul_spec_def by (rule tabulate_cong) (use laws nan in \<open>simp add: backend_laws_def ieee_device_def\<close>)
    finally show ?thesis .
  qed
  have len: "length ?spec = M * n" by (simp add: matmul_spec_def)
  have cpu: "?c = store can_open c_path (butlast (npy_shape a) @ [int n]) ?spec files"
    using main_matmul_run(1) [OF l b K(1) _ refl] K(2) g(2) M by simp
  show ?thesis
    unfolding g(1)
  proof (rule follows_bind [OF step_upload [OF laws]], rule follows_bind [OF step_upload [OF laws]],
      rule follows_bind [OF step_DevBuf [OF laws]])
    fix da db dc :: "u16 list" assume d: "da = npy_data a" "db = npy_data b" "length dc = M * n"
    show "follows B ?c (rbind (defined (launch_matmul (be_device B) (be_sched B) (be_shared B) da db dc M n k)) (\<lambda>dc.
        rbind (synced B dc) (\<lambda>dc. download_write B can_open dc (matmul_out_shape (npy_shape a) (int n)) c_path files)))"
      unfolding d(1,2) out [OF d(3)] defined.simps rbind.simps
    proof (rule follows_bind [OF step_synced])
      fix dc assume dc: "dc = ?spec"
      have "download_write B can_open dc (matmul_out_shape (npy_shape a) (int n)) c_path files =
          rbind (copied B dc) (\<lambda>d. store can_open c_path (matmul_out_shape (npy_shape a) (int n)) d files)"
        by (rule download_write_store) (simp_all only: dc g(2,5) len)
      then show "follows B ?c (download_write B can_open dc (matmul_out_shape (npy_shape a) (int n)) c_path files)"
        by (simp only:) (rule follows_bind [OF step_copied], simp add: cpu dc follows_def matmul_out_shape_def)
    qed
  qed
qed

text \<open>A grid the runtime rejects is only printed by the launch function, which also clears the error:
  the launcher then writes whatever the fresh allocation held and exits with code 0.\<close>

lemma rejected_grid_writes_garbage:
  assumes "never_fails B" and l: "load files a_path = Inr a" "load files b_path = Inr b" "2 \<le> length (npy_shape a)"
    and b: "npy_shape b = [int k, int n]" and K: "last (npy_shape a) = int k" "k \<noteq> 0" and M: "M = length (npy_data a) div k"
    and range: "in_i32 (int M + 16)" "in_i32 (int n + 16)" "in_i32 (int k + 16)"
    and big: "65535 * 16 < M" "n \<noteq> 0" and fresh: "be_fresh B (M * n) = Some junk" "length junk = M * n"
  shows "gpu_matmul B can_open files [prog, op', a_path, b_path, c_path] =
    store can_open c_path (matmul_out_shape (npy_shape a) (int n)) junk files"
proof -
  note g = gpu_matmul_launch [OF l b K M range]
  have "1 \<le> (n + 15) div 16" "65535 < (15 + M) div 16" using big by presburger+
  then have "launch_matmul dev sched shared A Bm C M n k = Some C" for dev sched shared A Bm C
    using range by (simp add: launch_matmul_def grid_launch_def Let_def kBlockM_gemm_def kBlockN_gemm_def kBlockK_gemm_def)
  moreover have "M * n \<noteq> 0" using big by simp
  moreover have "DevBuf B m = Inr []" if "m = 0" for m using that by (simp add: DevBuf_def)
  moreover have "\<exists>x. DevBuf B m = Inr x" for m
  proof -
    have "be_fresh B m \<noteq> None" using assms(1) unfolding never_fails_def by blast
    then show ?thesis by (cases "be_fresh B m") (simp_all add: DevBuf_def)
  qed
  then have "upload B arr = Inr (npy_data arr)" for arr
    unfolding upload_def copied_def using assms(1) by (metis never_fails_def rbind.simps(2))
  ultimately show ?thesis
    unfolding g(1) using assms(1) fresh g(2,5) download_write_store [of _ junk]
    by (simp add: DevBuf_def synced_def never_fails_def copied_def)
qed

text \<open>C33. The GPU launchers and the host reference are interchangeable on matrix products: for readable
  operands of matching shapes within the limits of the grid, whose dot products are numbers,
  \<open>cuda_run\<close> and \<open>hip_run\<close>, under every fair schedule and whatever the device memory held, leave
  exactly the files and the exit status of the host driver; only a failing call of the GPU runtime
  can change that, and then no file is touched and the exit status is 1.\<close>

theorem gpu_matmul_follows_host:
  assumes "backend_laws B" "load files a_path = Inr a" "load files b_path = Inr b" "2 \<le> length (npy_shape a)"
    and "npy_shape b = [int K, int N]" "last (npy_shape a) = int K" "K \<noteq> 0" "M = length (npy_data a) div K"
    and "in_i32 (int M + 16)" "in_i32 (int N + 16)" "in_i32 (int K + 16)" "M \<le> 65535 * 16"
    and "\<And>i j. i < M \<Longrightarrow> j < N \<Longrightarrow> \<not> f32_is_nan (dot (npy_data a) (npy_data b) N K i j)"
    and run: "run = cuda_run lm B probe can_open files [prog, ''matmul'', a_path, b_path, c_path] \<or>
      run = hip_run lm B probe can_open files [prog, ''matmul'', a_path, b_path, c_path]"
  shows "run = exit_status files (main_matmul can_open files [prog', a_path, b_path, c_path]) \<or>
    run = Some (1, files) \<and> \<not> never_fails B"
proof -
  have "run = exit_status files (gpu_matmul B can_open files [prog, ''matmul'', a_path, b_path, c_path])"
    using run by (auto simp: cuda_run_def hip_run_def)
  with gpu_matmul_run [OF assms(1-13), of can_open prog' c_path prog "''matmul''"] show ?thesis
    by (auto simp: follows_def)
qed

definition host_backend :: backend where
  "host_backend = \<lparr>be_device = host_device, be_sched = in_order, be_fsched = in_order, be_shared = replicate 512 0x7FC0,
     be_warp = replicate 8 0, be_fresh = \<lambda>n. Some (replicate n 0x7FC0), be_copies = True, be_sync = True, be_devices = Some 1\<rparr>"

lemma host_backend_laws: "backend_laws host_backend" "never_fails host_backend"
  by (simp_all add: backend_laws_def never_fails_def host_backend_def ieee_host_device fair_in_order)

definition plain_libm :: libm where
  "plain_libm = \<lparr>expf = id, erf = id, stof = \<lambda>s. None\<rparr>"

lemma small_dot: "\<not> f32_is_nan (dot [0, 0] [0x4040, 0xC000] 1 2 0 0)"
proof -
  have d: "dot [0, 0] [0x4040, 0xC000] 1 2 0 0 = f32_add (f32_add 0 (f32_mul 0 (bf16_to_float 0x4040))) (f32_mul 0 (bf16_to_float 0xC000))"
    by (simp add: dot_def bf16_to_float_def upt_rec)
  have fin: "fp_finite binary32 (unat (bf16_to_float 0x4040))" "fp_finite binary32 (unat (bf16_to_float 0xC000))"
    by (auto simp: bf16_to_float_def fp_finite_def fp_decode_def binary32_def f_emin_def f_bias_def)
  have "dot [0, 0] [0x4040, 0xC000] 1 2 0 0 = 0"
    unfolding d using canonical_add_zero [OF canonical_0] f32_mul_zero_left [OF fin(1)] f32_mul_zero_left [OF fin(2)] by simp
  then show ?thesis by (simp add: f32_is_nan_def fp_is_nan_def fp_decode_def binary32_def)
qed

theorem gpu_matmul_follows_host_witness:
  "\<exists>files files'. cuda_run plain_libm host_backend (True, True, True) (\<lambda>p. True) files [''cuda_run'', ''matmul'', ''a'', ''b'', ''c''] = Some (0, files') \<and>
     main_matmul (\<lambda>p. True) files [''mm'', ''a'', ''b'', ''c''] = Inr files'"
proof -
  let ?a = "\<lparr>npy_shape = [1, 2], npy_data = [0, 0]\<rparr>" and ?b = "\<lparr>npy_shape = [2, 1], npy_data = [0x4040, 0xC000]\<rparr>"
  note sizes = in_i64_def npy_dict_def shape_tuple_def quoted_def int_to_string_def nat_to_string.simps [of 2]
    nat_to_string.simps [of "Suc 0"] npy_product_def
  obtain f1 where f1: "load f1 ''a'' = Inr ?a"
    using store_ok [of "[1, 2]" "[0, 0]" "\<lambda>p. True" "''a''" Map.empty] by (auto simp: sizes)
  obtain f2 where f2: "load f2 ''b'' = Inr ?b" "\<forall>p. p \<noteq> ''b'' \<longrightarrow> f2 p = f1 p"
    using store_ok [of "[2, 1]" "[0x4040, 0xC000]" "\<lambda>p. True" "''b''" f1] by (auto simp: sizes)
  have l: "load f2 ''a'' = Inr ?a" using f1 f2(2) by (simp add: load_def read_npy_bf16_def)
  obtain f3 where f3: "main_matmul (\<lambda>p. True) f2 [''mm'', ''a'', ''b'', ''c''] = Inr f3"
    using main_matmul_run(1) [OF l f2(1), of 2 1 1 "\<lambda>p. True" "''mm''" "''c''"]
      store_ok [of "[1, 1]" "matmul_spec [0, 0] [0x4040, 0xC000] 1 1 2" "\<lambda>p. True" "''c''" f2]
    by (auto simp: sizes matmul_spec_def)
  from gpu_matmul_follows_host [OF host_backend_laws(1) l f2(1), of 2 1 1 "cuda_run plain_libm host_backend (True, True, True) (\<lambda>p. True) f2 [''cuda_run'', ''matmul'', ''a'', ''b'', ''c'']"
      plain_libm "(True, True, True)" "\<lambda>p. True" "''cuda_run''" "''c''" "''mm''"]
  have "cuda_run plain_libm host_backend (True, True, True) (\<lambda>p. True) f2 [''cuda_run'', ''matmul'', ''a'', ''b'', ''c''] = Some (0, f3)"
    using small_dot host_backend_laws(2) f3 by (simp add: in_i32_def)
  with f3 show ?thesis by blast
qed

end
