(* ===== verification/Bench.thy ===== *)
theory Bench
  imports Runtime GpuRun
begin

text \<open>
  The correctness-gated benchmark (\<open>Benchmark.h\<close>, \<open>Benchmark.cpp\<close>): the gate, the selection of the
  fastest validated variant, and the driver that launches, ms_list and records variants. The GPU
  runtime is that of theory GpuRun with an event timer; the broken variants, which the harness
  generates, \<open>std::stod\<close> and the JSON library are parameters. What the driver prints is left out, but
  for the two times of a validated run.
\<close>

section \<open>The gate and the selection\<close>

definition kGateCosineThreshold :: double where "kGateCosineThreshold = d_lit 999 1000"
definition kGatePccThreshold :: double where "kGatePccThreshold = d_lit 99 100"
definition kGateMaxRelErrStrict :: double where "kGateMaxRelErrStrict = d_lit 1 100"
definition kGateMaxRelErrLargeK :: double where "kGateMaxRelErrLargeK = d_lit 5 100"

definition PassesCorrectnessGate :: "correctness \<Rightarrow> double \<Rightarrow> bool" where
  "PassesCorrectnessGate c max_rel_ceiling \<longleftrightarrow>
     d_ge (cosine c) kGateCosineThreshold \<and> d_ge (pcc c) kGatePccThreshold \<and> d_le (max_rel_err c) max_rel_ceiling"

record variant_result =
  vr_name :: string
  vr_correctness :: correctness
  vr_validated :: bool
  vr_time_ms :: "double option"

definition best_step :: "variant_result list \<Rightarrow> nat option \<Rightarrow> nat \<Rightarrow> nat option" where
  "best_step results best i =
     (if \<not> vr_validated (results ! i) then best
      else case vr_time_ms (results ! i) of
        None \<Rightarrow> best
      | Some t \<Rightarrow>
          (case best of
             None \<Rightarrow> Some i
           | Some b \<Rightarrow> if d_lt t (the (vr_time_ms (results ! b))) then Some i else best))"

definition SelectBestValidated :: "variant_result list \<Rightarrow> nat option" where
  "SelectBestValidated results = foldl (best_step results) None [0..<length results]"

section \<open>The options\<close>

fun collect_inputs :: "string list \<Rightarrow> string list" where
  "collect_inputs [] = []"
| "collect_inputs (a # rest) =
     (if take 2 a = ''--'' then collect_inputs (tl rest) else a # collect_inputs rest)"

fun opt_str :: "string list \<Rightarrow> string \<Rightarrow> string \<Rightarrow> string" where
  "opt_str (a # b # rest) name def = (if a = name then b else opt_str (b # rest) name def)"
| "opt_str argv name def = def"

type_synonym stod = "string \<Rightarrow> double option"

definition opt_dbl :: "stod \<Rightarrow> string list \<Rightarrow> string \<Rightarrow> double \<Rightarrow> stop + double" where
  "opt_dbl std argv name def =
     (let s = opt_str argv name []
      in if s = [] then Inr def else case std s of None \<Rightarrow> Inl Uncaught | Some x \<Rightarrow> Inr x)"

definition opt_int :: "string list \<Rightarrow> string \<Rightarrow> int \<Rightarrow> stop + int" where
  "opt_int argv name def =
     (let s = opt_str argv name []
      in if s = [] then Inr def else case stoi s of None \<Rightarrow> Inl Uncaught | Some x \<Rightarrow> Inr x)"

section \<open>The operations under test\<close>

text \<open>The broken variants: their launch functions, on the contents of the buffers.\<close>

record broken_kernels =
  matmul_broken :: "u16 list \<Rightarrow> u16 list \<Rightarrow> u16 list \<Rightarrow> nat \<Rightarrow> nat \<Rightarrow> nat \<Rightarrow> u16 list option"
  fused_rmsnorm_matmul_broken :: "u16 list \<Rightarrow> u16 list \<Rightarrow> u16 list \<Rightarrow> nat \<Rightarrow> nat \<Rightarrow> nat \<Rightarrow> u32 \<Rightarrow> u16 list option"
  fused_matmul_bias_gelu_broken :: "u16 list \<Rightarrow> u16 list \<Rightarrow> u16 list \<Rightarrow> u16 list \<Rightarrow> nat \<Rightarrow> nat \<Rightarrow> nat \<Rightarrow> u16 list option"

record op_instance =
  oi_out :: "u16 list"
  oi_out_shape :: "int list"
  oi_launch :: "u16 list \<Rightarrow> u16 list option"

definition is_broken :: "string \<Rightarrow> stop + bool" where
  "is_broken variant =
     (if variant = ''default'' \<or> variant = ''broken'' then Inr (variant = ''broken'') else Inl Usage)"

text \<open>The sizes of the matmul family: \<open>k\<close>, \<open>m\<close> and \<open>n\<close> as \<open>int\<close>, and the result buffer.\<close>

definition op_sizes :: "npy_array \<Rightarrow> npy_array \<Rightarrow> stop + nat \<times> nat \<times> nat" where
  "op_sizes a b =
     rbind (back_dim a) (\<lambda>K.
     rbind (int_arg K) (\<lambda>k.
     rbind (npy_size a) (\<lambda>size.
     rbind (quotient size (int k)) (\<lambda>M.
     rbind (int_arg M) (\<lambda>m.
     rbind (dim_at b 1) (\<lambda>N.
     rbind (int_arg N) (\<lambda>n. Inr (m, n, k))))))))"

definition setup_op :: "backend \<Rightarrow> broken_kernels \<Rightarrow> files \<Rightarrow> string \<Rightarrow> string \<Rightarrow> string list \<Rightarrow> stop + op_instance" where
  "setup_op B bad files op' variant inputs =
     rbind (is_broken variant) (\<lambda>broken.
       if op' = ''matmul'' then
         (if length inputs \<noteq> 2 then Inl Usage
          else
            rbind (load files (inputs ! 0)) (\<lambda>a.
            rbind (load files (inputs ! 1)) (\<lambda>b.
            rbind (op_sizes a b) (\<lambda>(m, n, k).
            rbind (upload B a) (\<lambda>A.
            rbind (upload B b) (\<lambda>Bm.
            rbind (result_buffer B (int m * int n)) (\<lambda>C.
            Inr \<lparr>oi_out = C, oi_out_shape = matmul_out_shape (npy_shape a) (int n),
              oi_launch = (\<lambda>C. if broken then matmul_broken bad A Bm C m n k
                else launch_matmul (be_device B) (be_sched B) (be_shared B) A Bm C m n k)\<rparr>)))))))
       else if op' = ''fused_rmsnorm_matmul'' then
         (if length inputs \<noteq> 2 then Inl Usage
          else
            rbind (load files (inputs ! 0)) (\<lambda>x.
            rbind (load files (inputs ! 1)) (\<lambda>w.
            rbind (op_sizes x w) (\<lambda>(m, n, k).
            rbind (upload B x) (\<lambda>X.
            rbind (upload B w) (\<lambda>W.
            rbind (result_buffer B (int m * int n)) (\<lambda>O'.
            Inr \<lparr>oi_out = O', oi_out_shape = matmul_out_shape (npy_shape x) (int n),
              oi_launch = (\<lambda>O'. if broken then fused_rmsnorm_matmul_broken bad X W O' m n k kDefaultEpsilon
                else launch_fused_rmsnorm_matmul (be_device B) (be_sched B) (be_shared B) X W O' m n k kDefaultEpsilon)\<rparr>)))))))
       else if op' = ''fused_matmul_bias_gelu'' then
         (if length inputs \<noteq> 3 then Inl Usage
          else
            rbind (load files (inputs ! 0)) (\<lambda>a.
            rbind (load files (inputs ! 1)) (\<lambda>b.
            rbind (load files (inputs ! 2)) (\<lambda>bias.
            rbind (op_sizes a b) (\<lambda>(m, n, k).
            rbind (upload B a) (\<lambda>A.
            rbind (upload B b) (\<lambda>Bm.
            rbind (upload B bias) (\<lambda>BI.
            rbind (result_buffer B (int m * int n)) (\<lambda>O'.
            Inr \<lparr>oi_out = O', oi_out_shape = matmul_out_shape (npy_shape a) (int n),
              oi_launch = (\<lambda>O'. if broken then fused_matmul_bias_gelu_broken bad A Bm BI O' m n k
                else launch_fused_matmul_bias_gelu (be_device B) (be_sched B) (be_shared B) A Bm BI O' m n k)\<rparr>)))))))))
       else Inl Usage)"

section \<open>Running and timing\<close>

definition run_run :: "backend \<Rightarrow> broken_kernels \<Rightarrow> (string \<Rightarrow> bool) \<Rightarrow> files \<Rightarrow> string list \<Rightarrow> stop + files" where
  "run_run B bad can_open files argv =
     (if length argv < 4 then Inl Usage
      else let out = opt_str argv ''--out'' [] in
        if out = [] then Inl Usage
        else
          rbind (setup_op B bad files (argv ! 2) (argv ! 3) (collect_inputs (drop 4 argv))) (\<lambda>io.
          rbind (defined (oi_launch io (oi_out io))) (\<lambda>d.
          rbind (synced B d) (\<lambda>d.
          download_write B can_open d (oi_out_shape io) out files))))"

text \<open>What a run does on the stream; \<open>Elapsed\<close> is the time the backend reports.\<close>

datatype event = Launch | Sync | TimerStart | TimerStop | Elapsed u32

datatype time_outcome = GateRejected | Validated u32 u32

fun warmup_loop :: "backend \<Rightarrow> (u16 list \<Rightarrow> u16 list option) \<Rightarrow> nat \<Rightarrow> u16 list \<Rightarrow> (stop + u16 list) \<times> event list" where
  "warmup_loop B launch 0 d = (Inr d, [])"
| "warmup_loop B launch (Suc n) d =
     (case launch d of
        None \<Rightarrow> (Inl Undefined, [Launch])
      | Some d \<Rightarrow>
          (case synced B d of
             Inl e \<Rightarrow> (Inl e, [Launch, Sync])
           | Inr d \<Rightarrow> (case warmup_loop B launch n d of (r, tr) \<Rightarrow> (r, Launch # Sync # tr))))"

text \<open>\<open>elapsed i\<close> is what the timer of round \<open>i\<close> measures, \<open>None\<close> when an event call fails.\<close>

fun time_loop :: "(nat \<Rightarrow> u32 option) \<Rightarrow> (u16 list \<Rightarrow> u16 list option) \<Rightarrow> nat \<Rightarrow> nat \<Rightarrow> u16 list \<Rightarrow> (stop + u32 list) \<times> event list" where
  "time_loop elapsed launch i 0 d = (Inr [], [])"
| "time_loop elapsed launch i (Suc n) d =
     (case launch d of
        None \<Rightarrow> (Inl Undefined, [TimerStart, Launch])
      | Some d \<Rightarrow>
          (case elapsed i of
             None \<Rightarrow> (Inl (Reject ''event timer failed''), [TimerStart, Launch, TimerStop])
           | Some ms \<Rightarrow>
               (case time_loop elapsed launch (Suc i) n d of (r, tr) \<Rightarrow>
                  (rbind r (\<lambda>ms_list. Inr (ms # ms_list)), [TimerStart, Launch, TimerStop, Elapsed ms] @ tr))))"

text \<open>\<open>std::sort\<close> on floats that are numbers.\<close>

fun insert_float :: "u32 \<Rightarrow> u32 list \<Rightarrow> u32 list" where
  "insert_float x [] = [x]"
| "insert_float x (y # ys) = (if f32_lt y x then y # insert_float x ys else x # y # ys)"

definition sort_floats :: "u32 list \<Rightarrow> u32 list" where
  "sort_floats xs = foldr insert_float xs []"

definition gate_options :: "stod \<Rightarrow> string list \<Rightarrow> stop + correctness \<times> double" where
  "gate_options std argv =
     rbind (opt_dbl std argv ''--cosine'' (d_lit 0 1)) (\<lambda>co.
     rbind (opt_dbl std argv ''--rel'' (d_lit 1 1)) (\<lambda>rel.
     rbind (opt_dbl std argv ''--pcc'' (d_lit 0 1)) (\<lambda>p.
     rbind (opt_dbl std argv ''--ceiling'' kGateMaxRelErrStrict) (\<lambda>max_rel.
     Inr (\<lparr>cosine = co, max_rel_err = rel, pcc = p\<rparr>, max_rel)))))"

definition run_time :: "stod \<Rightarrow> backend \<Rightarrow> broken_kernels \<Rightarrow> (nat \<Rightarrow> u32 option) \<Rightarrow> files \<Rightarrow> string list \<Rightarrow>
    (stop + time_outcome) \<times> event list" where
  "run_time std B bad elapsed files argv =
     (if length argv < 4 then (Inl Usage, [])
      else
        case gate_options std argv of
          Inl e \<Rightarrow> (Inl e, [])
        | Inr (c, max_rel) \<Rightarrow>
            if \<not> PassesCorrectnessGate c max_rel then (Inr GateRejected, [])
            else
              case rbind (opt_int argv ''--warmup'' 3) (\<lambda>warmup.
                   rbind (opt_int argv ''--iters'' 10) (\<lambda>iters.
                   rbind (setup_op B bad files (argv ! 2) (argv ! 3) (collect_inputs (drop 4 argv))) (\<lambda>io.
                   Inr (warmup, iters, io)))) of
                Inl e \<Rightarrow> (Inl e, [])
              | Inr (warmup, iters, io) \<Rightarrow>
                  (case warmup_loop B (oi_launch io) (nat warmup) (oi_out io) of
                     (Inl e, tr) \<Rightarrow> (Inl e, tr)
                   | (Inr d, tr) \<Rightarrow>
                       if iters < 0 then (Inl (Caught LengthError), tr)
                       else (case time_loop elapsed (oi_launch io) 0 (nat iters) d of
                               (Inl e, tr') \<Rightarrow> (Inl e, tr @ tr')
                             | (Inr ms_list, tr') \<Rightarrow>
                                 (let ts = sort_floats ms_list
                                  in if ts = [] then Inl Undefined
                                     else Inr (Validated (hd ts) (ts ! (length ts div 2))), tr @ tr'))))"

section \<open>Enumeration\<close>

definition run_enumerate :: "string list \<Rightarrow> stop + config list" where
  "run_enumerate argv =
     rbind (opt_int argv ''--limit'' 4) (\<lambda>limit.
       let pruned = Enumerate default_limits
       in Inr (take (min (nat (limit mod 2 ^ 64)) (length pruned)) pruned))"

section \<open>Recording a result\<close>

text \<open>\<open>sscanf\<close> with seven \<open>%d\<close>: white space, a sign and digits each; a number outside \<open>int\<close> is
  undefined.\<close>

fun scan_ints :: "nat \<Rightarrow> string \<Rightarrow> stop + int list" where
  "scan_ints 0 s = Inr []"
| "scan_ints (Suc n) s =
     (let s = dropWhile is_space s;
          (neg, body) = (case s of [] \<Rightarrow> (False, [])
            | c # cs \<Rightarrow> if c = CHR ''-'' then (True, cs) else if c = CHR ''+'' then (False, cs) else (False, s));
          ds = takeWhile is_digit body;
          v = (if neg then - int (digits_val ds) else int (digits_val ds))
      in if ds = [] then Inr []
         else if \<not> in_i32 v then Inl Undefined
         else rbind (scan_ints n (dropWhile is_digit body)) (\<lambda>vs. Inr (v # vs)))"

definition scan_config :: "string \<Rightarrow> stop + config" where
  "scan_config cfg =
     rbind (scan_ints 7 cfg) (\<lambda>vs.
       case vs of [bm, bn, bk, nw, vw, un, st] \<Rightarrow> Inr (Config bm bn bk nw vw un st) | _ \<Rightarrow> Inl Usage)"

definition cache_entry_of :: "stod \<Rightarrow> string list \<Rightarrow> stop + cache_entry" where
  "cache_entry_of std argv =
     rbind (opt_int argv ''--M'' 0) (\<lambda>m.
     rbind (opt_int argv ''--N'' 0) (\<lambda>n.
     rbind (opt_int argv ''--K'' 0) (\<lambda>k.
     rbind (scan_config (opt_str argv ''--config'' ''16 16 16 8 1 1 2'')) (\<lambda>best.
     rbind (opt_dbl std argv ''--time-ms'' (d_lit 0 1)) (\<lambda>t.
     rbind (opt_dbl std argv ''--cosine'' (d_lit 0 1)) (\<lambda>co.
     rbind (opt_dbl std argv ''--rel'' (d_lit 0 1)) (\<lambda>rel.
     rbind (opt_dbl std argv ''--pcc'' (d_lit 0 1)) (\<lambda>p.
     Inr \<lparr>ce_gpu = opt_str argv ''--gpu'' ''gfx1101'', ce_op = opt_str argv ''--op'' ''matmul'',
       ce_shape = Shape m n k (opt_str argv ''--dtype'' ''bf16''), ce_best = best,
       ce_scored_by = opt_str argv ''--scored-by'' ''measure'', ce_time_ms = Some t,
       ce_validated = (opt_str argv ''--validated'' ''true'' = ''true''),
       ce_correctness = \<lparr>cosine = co, max_rel_err = rel, pcc = p\<rparr>\<rparr>))))))))"

definition run_write_cache :: "stod \<Rightarrow> 'v json_lib \<Rightarrow> (string \<Rightarrow> bool) \<Rightarrow> files \<Rightarrow> string list \<Rightarrow> stop + files" where
  "run_write_cache std L can_open files argv =
     (let out = opt_str argv ''--out'' [] in
      if out = [] then Inl Usage
      else
        rbind (cache_entry_of std argv) (\<lambda>e.
        let json = SerializeTuningCache L \<lparr>tc_version = kTuningCacheVersion, tc_entries = [e]\<rparr>
        in if \<not> can_open out then Inl (Reject ''write-cache: cannot open the file for writing'')
           else Inr (files(out \<mapsto> json))))"

section \<open>The main function\<close>

fun time_status :: "files \<Rightarrow> stop + time_outcome \<Rightarrow> (int \<times> files) option" where
  "time_status files (Inl e) = exit_status files (Inl e)"
| "time_status files (Inr GateRejected) = Some (3, files)"
| "time_status files (Inr (Validated a b)) = Some (0, files)"

definition bench_main :: "stod \<Rightarrow> 'v json_lib \<Rightarrow> backend \<Rightarrow> broken_kernels \<Rightarrow> (nat \<Rightarrow> u32 option) \<Rightarrow> (string \<Rightarrow> bool) \<Rightarrow> files \<Rightarrow>
    string list \<Rightarrow> (int \<times> files) option" where
  "bench_main std L B bad elapsed can_open files argv =
     (if length argv < 2 then Some (2, files)
      else let mode = argv ! 1 in
        if mode = ''run'' then exit_status files (run_run B bad can_open files argv)
        else if mode = ''time'' then time_status files (fst (run_time std B bad elapsed files argv))
        else if mode = ''enumerate'' then exit_status files (rbind (run_enumerate argv) (\<lambda>cs. Inr files))
        else if mode = ''dev'' then Some (run_dev B, files)
        else if mode = ''write-cache'' then exit_status files (run_write_cache std L can_open files argv)
        else Some (2, files))"

section \<open>The fastest validated variant\<close>

definition candidate :: "variant_result list \<Rightarrow> nat \<Rightarrow> bool" where
  "candidate rs i \<longleftrightarrow> i < length rs \<and> vr_validated (rs ! i) \<and> vr_time_ms (rs ! i) \<noteq> None"

definition variant_time :: "variant_result list \<Rightarrow> nat \<Rightarrow> real" where
  "variant_time rs i = fp_val binary64 (the (vr_time_ms (rs ! i)))"

text \<open>Among the candidates below \<open>n\<close>, \<open>b\<close> is the first fastest.\<close>

definition first_fastest :: "variant_result list \<Rightarrow> nat \<Rightarrow> nat option \<Rightarrow> bool" where
  "first_fastest rs n best \<longleftrightarrow>
     (case best of
        None \<Rightarrow> \<forall>i < n. \<not> candidate rs i
      | Some b \<Rightarrow> b < n \<and> candidate rs b \<and>
          (\<forall>i < n. candidate rs i \<longrightarrow> variant_time rs b \<le> variant_time rs i \<and> (i < b \<longrightarrow> variant_time rs b < variant_time rs i)))"

lemma best_step_fastest:
  assumes fin: "\<And>i. candidate rs i \<Longrightarrow> fp_finite binary64 (the (vr_time_ms (rs ! i)))"
    and n: "n < length rs" and inv: "first_fastest rs n best"
  shows "first_fastest rs (Suc n) (best_step rs best n)"
proof (cases "candidate rs n")
  case False
  then have "best_step rs best n = best" using n by (auto simp: best_step_def candidate_def split: option.splits)
  then show ?thesis using inv False by (auto simp: first_fastest_def less_Suc_eq split: option.splits)
next
  case True
  then obtain t where t: "vr_validated (rs ! n)" "vr_time_ms (rs ! n) = Some t" by (auto simp: candidate_def)
  show ?thesis
  proof (cases best)
    case None
    then show ?thesis using inv True t by (auto simp: first_fastest_def best_step_def less_Suc_eq)
  next
    case (Some b)
    then have b: "b < n" "candidate rs b"
      "\<And>i. i < n \<Longrightarrow> candidate rs i \<Longrightarrow> variant_time rs b \<le> variant_time rs i \<and> (i < b \<longrightarrow> variant_time rs b < variant_time rs i)"
      using inv by (auto simp: first_fastest_def)
    have "d_lt t (the (vr_time_ms (rs ! b))) \<longleftrightarrow> variant_time rs n < variant_time rs b"
      unfolding d_lt_def variant_time_def using fp_lt_finite [OF fin [OF True] fin [OF b(2)]] t(2) by simp
    then have step: "best_step rs best n = (if variant_time rs n < variant_time rs b then Some n else Some b)"
      using t by (simp add: best_step_def Some)
    show ?thesis unfolding step
      using b True by (fastforce simp: first_fastest_def less_Suc_eq)
  qed
qed

lemma SelectBestValidated_fastest:
  assumes "\<And>i. candidate rs i \<Longrightarrow> fp_finite binary64 (the (vr_time_ms (rs ! i)))"
  shows "first_fastest rs (length rs) (SelectBestValidated rs)"
proof -
  have "first_fastest rs n (foldl (best_step rs) None [0..<n])" if "n \<le> length rs" for n
    using that by (induction n) (simp_all add: first_fastest_def [of rs 0] best_step_fastest [OF assms])
  then show ?thesis by (simp add: SelectBestValidated_def)
qed

text \<open>C35. The selection: with finite times it returns the fastest variant among those that passed the
  gate and were timed, the lowest index among equally fast ones, and nothing exactly when no variant
  passed; a variant that failed the gate is never selected.\<close>

theorem SelectBestValidated_exact:
  assumes "\<And>i. candidate rs i \<Longrightarrow> fp_finite binary64 (the (vr_time_ms (rs ! i)))"
  shows "(SelectBestValidated rs = Some b \<longleftrightarrow> candidate rs b \<and>
      (\<forall>i. candidate rs i \<longrightarrow> variant_time rs b \<le> variant_time rs i \<and> (i < b \<longrightarrow> variant_time rs b < variant_time rs i))) \<and>
    (SelectBestValidated rs = None \<longleftrightarrow> (\<forall>i. \<not> candidate rs i))"
proof -
  note f = SelectBestValidated_fastest [OF assms]
  have lt: "candidate rs i \<Longrightarrow> i < length rs" for i by (simp add: candidate_def)
  show ?thesis
  proof (cases "SelectBestValidated rs")
    case None
    then show ?thesis using f lt by (auto simp: first_fastest_def)
  next
    case (Some c)
    have c: "candidate rs c" "\<And>i. candidate rs i \<Longrightarrow> variant_time rs c \<le> variant_time rs i \<and> (i < c \<longrightarrow> variant_time rs c < variant_time rs i)"
      using f lt unfolding Some by (auto simp: first_fastest_def)
    have "b = c" if "candidate rs b" "\<forall>i. candidate rs i \<longrightarrow> variant_time rs b \<le> variant_time rs i \<and> (i < b \<longrightarrow> variant_time rs b < variant_time rs i)"
      using that c by (metis less_le_not_le linorder_neqE_nat)
    then show ?thesis using Some c by auto
  qed
qed

definition demo_variant :: "string \<Rightarrow> bool \<Rightarrow> double option \<Rightarrow> variant_result" where
  "demo_variant name ok t = \<lparr>vr_name = name, vr_correctness = \<lparr>cosine = 0, max_rel_err = 0, pcc = 0\<rparr>,
     vr_validated = ok, vr_time_ms = t\<rparr>"

text \<open>A time that is not a number is never beaten: \<open>t < NaN\<close> is false, so a first variant with such a
  time stays selected.\<close>

lemma nan_time_selected:
  assumes "fp_decode binary64 x = FNan"
  shows "SelectBestValidated [demo_variant ''a'' True (Some x), demo_variant ''b'' True (Some t)] = Some 0"
proof -
  have "\<not> d_lt t x" using assms by (simp add: d_lt_def fp_lt_def split: fpnum.splits)
  then show ?thesis by (simp add: SelectBestValidated_def best_step_def demo_variant_def upt_rec)
qed

theorem SelectBestValidated_exact_witness:
  "SelectBestValidated [demo_variant ''slow'' True (Some 3), demo_variant ''wrong'' False None, demo_variant ''fast'' True (Some 2)] = Some 2"
proof -
  let ?rs = "[demo_variant ''slow'' True (Some 3), demo_variant ''wrong'' False None, demo_variant ''fast'' True (Some 2)]"
  have c: "candidate ?rs i \<longleftrightarrow> i = 0 \<or> i = 2" for i
    by (auto simp: candidate_def demo_variant_def nth_Cons' less_Suc_eq numeral_2_eq_2 split: if_splits)
  have fin: "fp_decode binary64 3 = FFin False 3 (- 1074)" "fp_decode binary64 2 = FFin False 2 (- 1074)"
    by (simp_all add: fp_decode_def binary64_def f_emin_def f_bias_def)
  have "fp_finite binary64 (the (vr_time_ms (?rs ! i)))" if "candidate ?rs i" for i
    using that [unfolded c] fin by (auto simp: demo_variant_def fp_finite_def)
  moreover have "variant_time ?rs 0 = fin_val False 3 (- 1074)" "variant_time ?rs 2 = fin_val False 2 (- 1074)"
    by (simp_all add: variant_time_def demo_variant_def fp_val_def fin)
  moreover have "fin_val False 2 (- 1074) < fin_val False 3 (- 1074)" by (simp add: fin_val_def)
  ultimately show ?thesis using SelectBestValidated_exact [of ?rs 2] unfolding c by auto
qed

section \<open>Sorting the times\<close>

definition float_time :: "u32 \<Rightarrow> real" where
  "float_time x = fp_val binary32 (unat x)"

definition finite_times :: "u32 list \<Rightarrow> bool" where
  "finite_times xs \<longleftrightarrow> (\<forall>x \<in> set xs. fp_finite binary32 (unat x))"

lemma f32_lt_time:
  "fp_finite binary32 (unat x) \<Longrightarrow> fp_finite binary32 (unat y) \<Longrightarrow> f32_lt x y \<longleftrightarrow> float_time x < float_time y"
  by (simp add: f32_lt_def float_time_def fp_lt_finite)

lemma mset_insert_float [simp]: "mset (insert_float x ys) = add_mset x (mset ys)"
  by (induction ys) auto

lemma sorted_insert_float:
  "finite_times (x # ys) \<Longrightarrow> sorted (map float_time ys) \<Longrightarrow> sorted (map float_time (insert_float x ys))"
proof (induction ys)
  case (Cons y ys)
  have "set (insert_float x ys) = insert x (set ys)" by (metis mset_insert_float set_mset_add_mset_insert set_mset_mset)
  with Cons show ?case by (auto simp: finite_times_def f32_lt_time not_less)
qed simp

lemma sort_floats_sorts:
  "finite_times xs \<Longrightarrow> sorted (map float_time (sort_floats xs))" "mset (sort_floats xs) = mset xs"
proof -
  show m: "mset (sort_floats xs) = mset xs" for xs by (induction xs) (simp_all add: sort_floats_def)
  show "finite_times xs \<Longrightarrow> sorted (map float_time (sort_floats xs))"
  proof (induction xs)
    case (Cons x xs)
    have "set (sort_floats xs) = set xs" using m [of xs] by (metis set_mset_mset)
    with Cons have "finite_times (x # sort_floats xs)" "sorted (map float_time (sort_floats xs))" by (simp_all add: finite_times_def)
    from sorted_insert_float [OF this] show ?case by (simp add: sort_floats_def)
  qed (simp add: sort_floats_def)
qed

text \<open>The value in the middle of a sorted list has at most half of the values on either side.\<close>

definition median_of :: "u32 \<Rightarrow> u32 list \<Rightarrow> bool" where
  "median_of m xs \<longleftrightarrow> m \<in> set xs \<and> 2 * length (filter (\<lambda>x. float_time x < float_time m) xs) \<le> length xs \<and>
     2 * length (filter (\<lambda>x. float_time m < float_time x) xs) \<le> length xs"

lemma sorted_middle:
  assumes s: "sorted (map float_time ys)" and k: "k < length ys"
  shows "length (filter (\<lambda>x. float_time x < float_time (ys ! k)) ys) \<le> k"
    "length (filter (\<lambda>x. float_time (ys ! k) < float_time x) ys) \<le> length ys - Suc k"
proof -
  have mono: "i \<le> j \<Longrightarrow> j < length ys \<Longrightarrow> float_time (ys ! i) \<le> float_time (ys ! j)" for i j
    using sorted_nth_mono [OF s, of i j] by simp
  have "{i. i < length ys \<and> float_time (ys ! i) < float_time (ys ! k)} \<subseteq> {..<k}"
    using mono [of k] by (auto simp: not_le [symmetric])
  then show "length (filter (\<lambda>x. float_time x < float_time (ys ! k)) ys) \<le> k"
    unfolding length_filter_conv_card by (metis card_lessThan card_mono finite_lessThan)
  have "{i. i < length ys \<and> float_time (ys ! k) < float_time (ys ! i)} \<subseteq> {Suc k..<length ys}"
  proof
    fix i assume i: "i \<in> {i. i < length ys \<and> float_time (ys ! k) < float_time (ys ! i)}"
    then have "\<not> i \<le> k" using mono [of i k] k by auto
    then show "i \<in> {Suc k..<length ys}" using i by simp
  qed
  then show "length (filter (\<lambda>x. float_time (ys ! k) < float_time x) ys) \<le> length ys - Suc k"
    unfolding length_filter_conv_card by (metis card_atLeastLessThan card_mono finite_atLeastLessThan)
qed

lemma length_filter_mset: "mset xs = mset ys \<Longrightarrow> length (filter P xs) = length (filter P ys)"
  by (metis mset_filter size_mset)

lemma reported_times:
  assumes "finite_times xs" "xs \<noteq> []"
  shows "sort_floats xs \<noteq> []" "hd (sort_floats xs) \<in> set xs" "\<forall>x \<in> set xs. float_time (hd (sort_floats xs)) \<le> float_time x"
    "median_of (sort_floats xs ! (length (sort_floats xs) div 2)) xs"
proof -
  note s = sort_floats_sorts(1) [OF assms(1)] and m = sort_floats_sorts(2) [of xs]
  have len: "length (sort_floats xs) = length xs" "set (sort_floats xs) = set xs"
    using m by (metis size_mset, metis set_mset_mset)
  then show ne: "sort_floats xs \<noteq> []" using assms(2) by auto
  then show "hd (sort_floats xs) \<in> set xs" using len(2) hd_in_set by blast
  show "\<forall>x \<in> set xs. float_time (hd (sort_floats xs)) \<le> float_time x"
    unfolding len(2) [symmetric] using s ne by (cases "sort_floats xs") auto
  let ?k = "length (sort_floats xs) div 2"
  have k: "?k < length (sort_floats xs)" using ne by (simp add: length_greater_0_conv)
  note mid = sorted_middle [OF s k, unfolded length_filter_mset [OF m]]
  have "sort_floats xs ! ?k \<in> set xs" using k len(2) nth_mem by blast
  moreover have "2 * (length xs div 2) \<le> length xs" "2 * (length xs - Suc (length xs div 2)) \<le> length xs" by presburger+
  ultimately show "median_of (sort_floats xs ! ?k) xs" using mid unfolding len(1) median_of_def by (intro conjI) linarith+
qed

section \<open>Golden before timing\<close>

definition warmup_trace :: "nat \<Rightarrow> event list" where
  "warmup_trace w = concat (replicate w [Launch, Sync])"

definition timed_trace :: "u32 list \<Rightarrow> event list" where
  "timed_trace ts = concat (map (\<lambda>ms. [TimerStart, Launch, TimerStop, Elapsed ms]) ts)"

lemma warmup_loop_trace: "warmup_loop B launch w d = (Inr d', tr) \<Longrightarrow> tr = warmup_trace w"
  by (induction w arbitrary: d d' tr)
    (auto simp: warmup_trace_def split: option.splits sum.splits prod.splits)

lemma time_loop_trace:
  "time_loop elapsed launch i n d = (Inr ts, tr) \<Longrightarrow>
    length ts = n \<and> tr = timed_trace ts \<and> (\<forall>j < n. elapsed (i + j) = Some (ts ! j))"
proof (induction n arbitrary: i d ts tr)
  case (Suc n)
  from Suc.prems obtain d' ms r tr' where l: "launch d = Some d'" "elapsed i = Some ms"
    "time_loop elapsed launch (Suc i) n d' = (r, tr')" by (auto split: option.splits prod.splits)
  with Suc.prems obtain ts' where r: "r = Inr ts'" "ts = ms # ts'" "tr = [TimerStart, Launch, TimerStop, Elapsed ms] @ tr'"
    by (auto simp: rbind_Inr_iff)
  from Suc.IH [OF l(3) [unfolded r(1)]] show ?case
    using l(2) r(2,3) by (auto simp: timed_trace_def less_Suc_eq_0_disj nth_Cons split: nat.splits)
qed (auto simp: timed_trace_def)

text \<open>C34. Golden before timing: when the metrics fail the gate nothing is launched, timed or even read,
  and the run is rejected; a run that reports times passed the gate, launched the warm-up rounds
  first and then exactly the requested number of timed rounds, and reports the least and a median of
  the times the backend measured.\<close>

theorem run_time_gated:
  assumes "4 \<le> length argv" "gate_options std argv = Inr (c, max_rel)"
    and "\<And>i ms. elapsed i = Some ms \<Longrightarrow> fp_finite binary32 (unat ms)"
  shows "if \<not> PassesCorrectnessGate c max_rel then run_time std B bad elapsed files argv = (Inr GateRejected, [])
    else \<forall>mn md tr. run_time std B bad elapsed files argv = (Inr (Validated mn md), tr) \<longrightarrow>
      (\<exists>w n ts. opt_int argv ''--warmup'' 3 = Inr w \<and> opt_int argv ''--iters'' 10 = Inr n \<and> 0 < n \<and> length ts = nat n \<and>
        tr = warmup_trace (nat w) @ timed_trace ts \<and> (\<forall>j < length ts. elapsed j = Some (ts ! j)) \<and>
        mn \<in> set ts \<and> (\<forall>t \<in> set ts. float_time mn \<le> float_time t) \<and> median_of md ts)"
proof (cases "PassesCorrectnessGate c max_rel")
  case True
  { fix mn md tr assume run: "run_time std B bad elapsed files argv = (Inr (Validated mn md), tr)"
    have "\<not> length argv < 4" using assms(1) by simp
    moreover have "(if \<not> PassesCorrectnessGate c max_rel then x else y) = y" for x y :: "(stop + time_outcome) \<times> event list"
      using True by simp
    ultimately have r: "(case rbind (opt_int argv ''--warmup'' 3) (\<lambda>warmup. rbind (opt_int argv ''--iters'' 10) (\<lambda>iters.
          rbind (setup_op B bad files (argv ! 2) (argv ! 3) (collect_inputs (drop 4 argv))) (\<lambda>io. Inr (warmup, iters, io)))) of
        Inl e \<Rightarrow> (Inl e, [])
      | Inr (warmup, iters, io) \<Rightarrow>
          (case warmup_loop B (oi_launch io) (nat warmup) (oi_out io) of
             (Inl e, tr) \<Rightarrow> (Inl e, tr)
           | (Inr d, tr) \<Rightarrow>
               if iters < 0 then (Inl (Caught LengthError), tr)
               else (case time_loop elapsed (oi_launch io) 0 (nat iters) d of
                       (Inl e, tr') \<Rightarrow> (Inl e, tr @ tr')
                     | (Inr ts, tr') \<Rightarrow>
                         (let ts = sort_floats ts in if ts = [] then Inl Undefined
                           else Inr (Validated (hd ts) (ts ! (length ts div 2))), tr @ tr')))) = (Inr (Validated mn md), tr)"
      using run by (simp only: run_time_def assms(2) sum.case prod.case if_False)
    obtain w n io where o: "opt_int argv ''--warmup'' 3 = Inr w" "opt_int argv ''--iters'' 10 = Inr n"
      "setup_op B bad files (argv ! 2) (argv ! 3) (collect_inputs (drop 4 argv)) = Inr io"
      using r by (auto simp: rbind_Inr_iff split: sum.splits)
    obtain d tr1 where wl: "warmup_loop B (oi_launch io) (nat w) (oi_out io) = (Inr d, tr1)"
      using r True by (auto simp: o split: sum.splits prod.splits)
    have n0: "\<not> n < 0" using r True by (auto simp: o wl)
    obtain ts tr2 where tl: "time_loop elapsed (oi_launch io) 0 (nat n) d = (Inr ts, tr2)"
      using r True n0 by (auto simp: o wl split: sum.splits prod.splits)
    have fin: "sort_floats ts \<noteq> []" "mn = hd (sort_floats ts)" "md = sort_floats ts ! (length (sort_floats ts) div 2)" "tr = tr1 @ tr2"
      using r True n0 by (auto simp: o wl tl Let_def split: if_splits)
    note t = time_loop_trace [OF tl]
    have ne: "ts \<noteq> []" using fin(1) by (auto simp: sort_floats_def)
    have "finite_times ts"
      unfolding finite_times_def
    proof
      fix x assume "x \<in> set ts"
      then obtain i where "i < nat n" "x = ts ! i" using t by (auto simp: in_set_conv_nth)
      then show "fp_finite binary32 (unat x)" using t assms(3) [of i x] by simp
    qed
    note rep = reported_times [OF this ne]
    have "0 < n" using t ne n0 by (cases "n = 0") auto
    then have "0 < n \<and> length ts = nat n \<and>
        tr = warmup_trace (nat w) @ timed_trace ts \<and> (\<forall>j < length ts. elapsed j = Some (ts ! j)) \<and>
        mn \<in> set ts \<and> (\<forall>t \<in> set ts. float_time mn \<le> float_time t) \<and> median_of md ts"
      using t ne rep warmup_loop_trace [OF wl] fin(2-4) by auto
    with o(1,2) have "\<exists>w n ts. opt_int argv ''--warmup'' 3 = Inr w \<and> opt_int argv ''--iters'' 10 = Inr n \<and> 0 < n \<and> length ts = nat n \<and>
        tr = warmup_trace (nat w) @ timed_trace ts \<and> (\<forall>j < length ts. elapsed j = Some (ts ! j)) \<and>
        mn \<in> set ts \<and> (\<forall>t \<in> set ts. float_time mn \<le> float_time t) \<and> median_of md ts" by blast }
  then show ?thesis using True by auto
next
  case False
  then show ?thesis using assms(1,2) by (simp add: run_time_def)
qed

text \<open>Without a timed round the first element of an empty list is read.\<close>

lemma no_rounds_undefined:
  assumes "4 \<le> length argv" "gate_options std argv = Inr (c, max_rel)" "PassesCorrectnessGate c max_rel"
    and "opt_int argv ''--warmup'' 3 = Inr w" "opt_int argv ''--iters'' 10 = Inr 0"
    and "setup_op B bad files (argv ! 2) (argv ! 3) (collect_inputs (drop 4 argv)) = Inr io"
    and "warmup_loop B (oi_launch io) (nat w) (oi_out io) = (Inr d, tr)"
  shows "fst (run_time std B bad elapsed files argv) = Inl Undefined"
  using assms by (simp add: run_time_def sort_floats_def)

definition demo_time_args :: "string list" where
  "demo_time_args = [''bench'', ''time'', ''matmul'', ''default'', ''--cosine'', ''1'', ''--rel'', ''1'', ''--pcc'', ''1'']"

definition demo_stod :: stod where
  "demo_stod s = Some (d_lit 1 1)"

lemma demo_gate: "gate_options demo_stod demo_time_args = Inr (\<lparr>cosine = d_lit 1 1, max_rel_err = d_lit 1 1, pcc = d_lit 1 1\<rparr>, kGateMaxRelErrStrict)"
  by (simp add: gate_options_def opt_dbl_def demo_time_args_def demo_stod_def)

lemma demo_gate_fails: "\<not> PassesCorrectnessGate \<lparr>cosine = d_lit 1 1, max_rel_err = d_lit 1 1, pcc = d_lit 1 1\<rparr> kGateMaxRelErrStrict"
proof -
  have l: "ilog2 100 = 6" "ilog2 (Suc 0) = 0" by (rule ilog2_eqI; simp)+
  have "\<not> d_le (d_lit 1 1) kGateMaxRelErrStrict"
    by (simp add: d_le_def d_lit_def kGateMaxRelErrStrict_def fp_round_def fp_round_mag_def frac_exponent_def l scale_frac_def
        binary64_def f_emin_def f_bias_def fp_inf_mag_def div_rne_def Let_def fp_signed_def fp_le_def fp_decode_def fin_le_def signed_shift_def)
  then show ?thesis by (simp add: PassesCorrectnessGate_def)
qed

definition no_broken :: broken_kernels where
  "no_broken = \<lparr>matmul_broken = \<lambda>a b d m n k. None, fused_rmsnorm_matmul_broken = \<lambda>a b d m n k eps. None,
     fused_matmul_bias_gelu_broken = \<lambda>a b bias d m n k. None\<rparr>"

theorem run_time_gated_witness:
  "run_time demo_stod host_backend no_broken (\<lambda>i. Some 0) (\<lambda>p. None) demo_time_args = (Inr GateRejected, [])"
proof -
  have "fp_finite binary32 (unat ms)" if "Some 0 = Some ms" for ms :: u32
    using that by (auto simp: fp_finite_def fp_decode_def binary32_def)
  from run_time_gated [OF _ demo_gate, of "\<lambda>i. Some 0" host_backend no_broken "\<lambda>p. None", OF _ this]
  show ?thesis using demo_gate_fails by (simp add: demo_time_args_def)
qed

section \<open>From the benchmark to the runtime\<close>

lemma run_write_cache_eq:
  assumes "opt_str argv ''--out'' [] = out" "out \<noteq> []" "cache_entry_of std argv = Inr e" "can_open out"
  shows "run_write_cache std L can_open files argv =
    Inr (files(out \<mapsto> SerializeTuningCache L \<lparr>tc_version = kTuningCacheVersion, tc_entries = [e]\<rparr>))"
  using assms by (simp add: run_write_cache_def Let_def)

lemma load_single:
  assumes "json_roundtrip L" "entry_ok L e" "ce_gpu e \<noteq> []"
  shows "LoadTuningCache L (SerializeTuningCache L \<lparr>tc_version = kTuningCacheVersion, tc_entries = [e]\<rparr>) c =
    (None, c\<lparr>kc_db := [(entry_key e, e)]\<rparr>)"
proof -
  have "ParseTuningCache L (SerializeTuningCache L \<lparr>tc_version = kTuningCacheVersion, tc_entries = [e]\<rparr>) =
      Inr \<lparr>tc_version = kTuningCacheVersion, tc_entries = [e]\<rparr>"
    using assms(1,2) by (intro ParseTuningCache_roundtrip) (simp_all add: cache_ok_def)
  then show ?thesis using assms(3) by (simp add: LoadTuningCache_def db_parse_def db_put_def)
qed

text \<open>C36. What the benchmark records is what the runtime serves: the file \<open>write-cache\<close> leaves for a
  validated result loads into any kernel cache, and selection then returns exactly the recorded entry
  for its gpu, operation and shape, and nothing for any other request.\<close>

theorem recorded_result_selected:
  assumes "json_roundtrip L" "cache_entry_of std argv = Inr e" "entry_ok L e" "ce_gpu e \<noteq> []"
    and "opt_str argv ''--out'' [] = out" "out \<noteq> []" "can_open out"
  shows "\<exists>files' text c'. run_write_cache std L can_open files argv = Inr files' \<and> files' out = Some text \<and>
    LoadTuningCache L text c = (None, c') \<and>
    (\<forall>g p s r. Select g p s c' = Inr r \<longleftrightarrow> r = e \<and> ce_validated e \<and> has_key g p s e)"
proof -
  let ?text = "SerializeTuningCache L \<lparr>tc_version = kTuningCacheVersion, tc_entries = [e]\<rparr>"
  have get: "db_get g p s [(entry_key e, e)] = (if has_key g p s e then Some e else None)" for g p s
    by (auto simp: db_get_def map_find_def entry_key_def has_key_def)
  have "Select g p s (c\<lparr>kc_db := [(entry_key e, e)]\<rparr>) = Inr r \<longleftrightarrow> r = e \<and> ce_validated e \<and> has_key g p s e" for g p s r
    by (auto simp: Select_def get)
  then show ?thesis
    using run_write_cache_eq [where can_open = can_open and L = L and files = files, OF assms(5,6,2,7)] load_single [where c = c, OF assms(1,3,4)]
    by (intro exI [of _ "files(out \<mapsto> ?text)"] exI [of _ ?text] exI [of _ "c\<lparr>kc_db := [(entry_key e, e)]\<rparr>"]) simp
qed

definition demo_write_args :: "string list" where
  "demo_write_args = [''bench'', ''write-cache'', ''--out'', ''f'', ''--gpu'', ''gfx942'']"

definition demo_recorded :: cache_entry where
  "demo_recorded = \<lparr>ce_gpu = ''gfx942'', ce_op = ''matmul'', ce_shape = Shape 0 0 0 ''bf16'',
     ce_best = Config 16 16 16 8 1 1 2, ce_scored_by = ''measure'', ce_time_ms = Some (d_lit 0 1), ce_validated = True,
     ce_correctness = \<lparr>cosine = d_lit 0 1, max_rel_err = d_lit 0 1, pcc = d_lit 0 1\<rparr>\<rparr>"

lemma demo_recorded_entry: "cache_entry_of std demo_write_args = Inr demo_recorded"
  by (simp add: cache_entry_of_def demo_write_args_def demo_recorded_def opt_int_def opt_dbl_def scan_config_def
      numeral_eq_Suc Let_def is_space_def is_digit_def digits_val_def digit_val_def in_i32_def)

theorem recorded_result_selected_witness:
  "\<exists>files' text. run_write_cache demo_stod tree_json (\<lambda>p. True) (\<lambda>p. None) demo_write_args = Inr files' \<and> files' ''f'' = Some text \<and>
     Select ''gfx942'' ''matmul'' (Shape 0 0 0 ''bf16'') (snd (LoadTuningCache tree_json text new_cache)) = Inr demo_recorded"
proof -
  have z: "d_lit 0 (Suc 0) = 0" by (simp add: d_lit_def fp_round_def fp_round_mag_def fp_signed_def binary64_def)
  have "entry_ok tree_json demo_recorded"
    by (simp add: entry_ok_def demo_recorded_def z plain_double_0 config_key_def in_i32_def in_i64_def)
  from recorded_result_selected [OF json_roundtrip_tree_json demo_recorded_entry this, of "''f''" "\<lambda>p. True" demo_stod "\<lambda>p. None" new_cache]
  show ?thesis by (auto simp: demo_write_args_def demo_recorded_def has_key_def)
qed

text \<open>Nothing on the way applies the gate to the metrics it records: without options the driver writes a
  validated entry whose cosine similarity is zero.\<close>

lemma recorded_without_gate: "ce_validated demo_recorded" "\<not> PassesCorrectnessGate (ce_correctness demo_recorded) max_rel"
proof -
  show "ce_validated demo_recorded" by (simp add: demo_recorded_def)
  have l: "ilog2 999 = 9" "ilog2 1000 = 9" by (rule ilog2_eqI; simp)+
  have "\<not> d_ge (d_lit 0 1) kGateCosineThreshold"
    by (simp add: d_ge_def d_lit_def kGateCosineThreshold_def fp_round_def fp_round_mag_def frac_exponent_def l scale_frac_def
        binary64_def f_emin_def f_bias_def fp_inf_mag_def div_rne_def Let_def fp_signed_def fp_le_def fp_decode_def fin_le_def signed_shift_def)
  then show "\<not> PassesCorrectnessGate (ce_correctness demo_recorded) max_rel"
    by (simp add: PassesCorrectnessGate_def demo_recorded_def)
qed

end
