(* ===== verification/Fp8.thy ===== *)
theory Fp8
  imports Libm
begin

text \<open>
  The software rounding of a float onto an 8 bit floating point grid, e4m3fn or e5m2
  (\<open>matmul_quant.cpp\<close>). The float functions it uses (\<open>fabs\<close>, \<open>copysign\<close>, \<open>frexp\<close>, \<open>ldexp\<close>, \<open>nearbyint\<close>) are
  exact and defined here. The result, over the reals: the rounding picks the nearest point of the grid.
\<close>

unbundle bit_operations_syntax

section \<open>The 8 bit formats\<close>

definition f32_fabs :: "u32 \<Rightarrow> u32" where "f32_fabs x = take_bit 31 x"

definition f32_copysign :: "u32 \<Rightarrow> u32 \<Rightarrow> u32" where
  "f32_copysign a b = take_bit 31 a OR (b AND 0x80000000)"

definition f32_is_inf :: "u32 \<Rightarrow> bool" where
  "f32_is_inf x \<longleftrightarrow> (case fp_decode binary32 (unat x) of FInf s \<Rightarrow> True | _ \<Rightarrow> False)"

text \<open>\<open>frexp\<close> of a finite number other than zero, \<open>ldexp (1.0f, k)\<close>, and \<open>nearbyint\<close>.\<close>

definition frexp_exponent :: "u32 \<Rightarrow> int" where
  "frexp_exponent x = (case fp_decode binary32 (unat x) of FFin s m e \<Rightarrow> int (ilog2 m) + 1 + e | _ \<Rightarrow> 0)"

definition ldexp_one :: "int \<Rightarrow> u32" where
  "ldexp_one k = of_nat (round_dyadic binary32 False 1 k)"

definition nearbyint :: "u32 \<Rightarrow> u32" where
  "nearbyint x =
     (case fp_decode binary32 (unat x) of
        FFin s m e \<Rightarrow> if 0 \<le> e then x else of_nat (round_dyadic binary32 s (div_rne m (2 ^ nat (- e))) 0)
      | _ \<Rightarrow> x)"

text \<open>The steps on the magnitude, which is finite and not zero.\<close>

definition fp8_magnitude :: "u32 \<Rightarrow> int \<Rightarrow> int \<Rightarrow> u32 \<Rightarrow> u32" where
  "fp8_magnitude mag mbits bias fmax =
     (let mag = (if f32_lt fmax mag then fmax else mag);
          emin = 1 - bias;
          ex = frexp_exponent mag - 1;
          ulp = (if ex < emin then ldexp_one (emin - mbits) else ldexp_one (ex - mbits));
          r = f32_mul (nearbyint (f32_div mag ulp)) ulp
      in if f32_lt fmax r then fmax else r)"

definition fp8_round :: "u32 \<Rightarrow> int \<Rightarrow> int \<Rightarrow> u32 \<Rightarrow> bool \<Rightarrow> u32" where
  "fp8_round x mbits bias fmax has_inf =
     (if f32_is_nan x then x
      else let mag = f32_fabs x in
        if f32_is_inf mag then (if has_inf then x else f32_copysign fmax x)
        else if mag = 0 then x
        else f32_copysign (fp8_magnitude mag mbits bias fmax) x)"

definition e4m3_max :: u32 where "e4m3_max = f32_of_int 448"
definition e5m2_max :: u32 where "e5m2_max = f32_of_int 57344"

section \<open>Exact steps\<close>

text \<open>A float that is a number without a sign, and its value.\<close>

definition pos_val :: "u32 \<Rightarrow> real \<Rightarrow> bool" where
  "pos_val x v \<longleftrightarrow> (\<exists>m e. fp_decode binary32 (unat x) = FFin False m e \<and> real m * 2 powi e = v)"

definition fits32 :: "real \<Rightarrow> bool" where
  "fits32 v \<longleftrightarrow> v = 0 \<or> (\<exists>M k. 0 < M \<and> M < 2 ^ 24 \<and> - 149 \<le> k \<and> v = real M * 2 powi k \<and> v < 2 powi 128)"

lemma unat_fp_round: "unat (of_nat (fp_round binary32 s a b) :: u32) = fp_round binary32 s a b"
proof -
  have "fp_round binary32 s a b < 2 ^ 32" using fp_round_less [of binary32 s a b] by (simp add: binary32_def)
  then show ?thesis by (simp add: unsigned_of_nat take_bit_nat_eq_self)
qed

lemma pos_val_round:
  assumes "0 < b" "fits32 (real a / real b)"
  shows "pos_val (of_nat (fp_round binary32 False a b)) (real a / real b)"
proof (cases "a = 0")
  case True
  have "fp_decode binary32 (fp_round binary32 False 0 b) = FFin False 0 (- 149)"
    using fp_decode_zero [of binary32 False] by (simp add: fp_round_def fp_round_mag_def binary32_def f_emin_def f_bias_def)
  then show ?thesis unfolding pos_val_def unat_fp_round True by auto
next
  case False
  then obtain M k where M: "0 < M" "M < 2 ^ 24" "- 149 \<le> k" "real a / real b = real M * 2 powi k" "real a / real b < 2 powi 128"
    using assms by (auto simp: fits32_def)
  have "\<exists>m u. fp_decode binary32 (fp_round binary32 False a b) = FFin False m u \<and> real m * 2 powi u = real M * 2 powi k"
    by (rule fp_round_exact_decode) (use M assms(1) in \<open>simp_all add: binary32_def f_emin_def f_bias_def\<close>)
  then show ?thesis unfolding pos_val_def unat_fp_round M(4) .
qed

lemma pos_val_dyadic: "fits32 (real m * 2 powi e) \<Longrightarrow> pos_val (of_nat (round_dyadic binary32 False m e)) (real m * 2 powi e)"
proof -
  assume f: "fits32 (real m * 2 powi e)"
  obtain a b where d: "dyadic m e = (a, b)" by (cases "dyadic m e")
  note v = dyadic_val [OF d]
  show ?thesis using pos_val_round [of b a] f v by (simp add: round_dyadic_def d)
qed

lemma pos_val_div:
  assumes "pos_val x v" "pos_val y w" "0 < w" "fits32 (v / w)"
  shows "pos_val (f32_div x y) (v / w)"
proof -
  obtain m e m' e' where d: "fp_decode binary32 (unat x) = FFin False m e" "real m * 2 powi e = v"
    "fp_decode binary32 (unat y) = FFin False m' e'" "real m' * 2 powi e' = w"
    using assms(1,2) by (auto simp: pos_val_def)
  have "m' \<noteq> 0" using d(4) assms(3) by (cases "m' = 0") simp_all
  from fp_div_ratio [OF d(1,3) this] obtain a b where ab: "0 < b"
    "fp_div binary32 (unat x) (unat y) = fp_round binary32 False a b" "real a / real b = v / w" by (auto simp: d(2,4))
  show ?thesis using pos_val_round [OF ab(1), of a] assms(4) by (simp add: f32_div_def ab(2,3))
qed

lemma pos_val_mul:
  assumes "pos_val x v" "pos_val y w" "fits32 (v * w)"
  shows "pos_val (f32_mul x y) (v * w)"
proof -
  obtain m e m' e' where d: "fp_decode binary32 (unat x) = FFin False m e" "real m * 2 powi e = v"
    "fp_decode binary32 (unat y) = FFin False m' e'" "real m' * 2 powi e' = w"
    using assms(1,2) by (auto simp: pos_val_def)
  have "real (m * m') * 2 powi (e + e') = v * w" by (simp add: power_int_add flip: d(2,4))
  then show ?thesis using pos_val_dyadic [of "m * m'" "e + e'"] assms(3) by (simp add: f32_mul_def fp_mul_def d(1,3))
qed

lemma pos_val_lt: "pos_val x v \<Longrightarrow> pos_val y w \<Longrightarrow> f32_lt x y \<longleftrightarrow> v < w"
proof -
  assume "pos_val x v" "pos_val y w"
  then have "fp_finite binary32 (unat x)" "fp_finite binary32 (unat y)" "fp_val binary32 (unat x) = v" "fp_val binary32 (unat y) = w"
    by (auto simp: pos_val_def fp_finite_def fp_val_def fin_val_def)
  then show ?thesis by (simp add: f32_lt_def fp_lt_finite)
qed

lemma pos_val_frexp:
  assumes "pos_val x v" "0 < v"
  shows "2 powi (frexp_exponent x - 1) \<le> v" "v < 2 powi (frexp_exponent x)"
proof -
  obtain m e where d: "fp_decode binary32 (unat x) = FFin False m e" "real m * 2 powi e = v" using assms(1) by (auto simp: pos_val_def)
  have "0 < m" using d(2) assms(2) by (cases "m = 0") simp_all
  from ilog2_bounds [OF this] have "2 ^ ilog2 m \<le> real m" "real m < 2 ^ Suc (ilog2 m)"
    by (metis of_nat_le_iff of_nat_numeral of_nat_power, metis of_nat_less_iff of_nat_numeral of_nat_power)
  then have "2 ^ ilog2 m * 2 powi e \<le> v" "v < 2 ^ Suc (ilog2 m) * 2 powi e" by (simp_all flip: d(2))
  moreover have "(2::real) powi (int (ilog2 m) + e) = 2 ^ ilog2 m * 2 powi e" "(2::real) powi (int (Suc (ilog2 m)) + e) = 2 ^ Suc (ilog2 m) * 2 powi e"
    by (simp_all add: power_int_add flip: power_int_of_nat)
  ultimately show "2 powi (frexp_exponent x - 1) \<le> v" "v < 2 powi (frexp_exponent x)"
    by (simp_all add: frexp_exponent_def d(1) add_ac)
qed

lemma pos_val_ldexp: "- 149 \<le> k \<Longrightarrow> k \<le> 127 \<Longrightarrow> pos_val (ldexp_one k) (2 powi k)"
proof -
  assume k: "- 149 \<le> k" "k \<le> 127"
  have "(2::real) powi k < 2 powi 128" using k(2) by (intro power_int_strict_increasing) simp_all
  then have "fits32 (2 powi k)" unfolding fits32_def using k(1) by (intro disjI2 exI [of _ 1] exI [of _ k]) simp
  then show ?thesis using pos_val_dyadic [of 1 k] by (simp add: ldexp_one_def)
qed

section \<open>Nearest integers\<close>

lemma div_rne_nearest:
  assumes "0 < b"
  shows "\<bar>real (div_rne a b) - real a / real b\<bar> \<le> \<bar>real k - real a / real b\<bar>"
proof -
  define q r where "q = a div b" and "r = a mod b"
  define t where "t = real r / real b"
  have "real a = real (q * b + r)" by (simp add: q_def r_def)
  then have ab: "real a / real b = real q + t" using assms by (simp add: t_def field_simps)
  have t: "0 \<le> t" "t < 1" using assms by (simp_all add: t_def r_def)
  have real_less: "x < y \<longleftrightarrow> real x < real y" for x y by simp
  have half: "2 * r < b \<longleftrightarrow> t < 1 / 2" "b < 2 * r \<longleftrightarrow> 1 / 2 < t"
    unfolding real_less t_def using assms by (simp_all add: divide_less_eq less_divide_eq mult.commute)
  have "\<bar>real (div_rne a b) - (real q + t)\<bar> \<le> min t (1 - t)"
    unfolding div_rne_def Let_def q_def [symmetric] r_def [symmetric] half
    using t by (cases "t < 1 / 2"; cases "1 / 2 < t"; cases "even q") auto
  moreover have "min t (1 - t) \<le> \<bar>real k - (real q + t)\<bar>"
  proof (cases "k \<le> q")
    case True
    then have "real k \<le> real q" by simp
    then show ?thesis using t by linarith
  next
    case False
    then have "real q + 1 \<le> real k" by linarith
    then show ?thesis using t by linarith
  qed
  ultimately show ?thesis unfolding ab by linarith
qed

lemma fits32_nat: "n < 2 ^ 24 \<Longrightarrow> - 149 \<le> u \<Longrightarrow> real n * 2 powi u < 2 powi 128 \<Longrightarrow> fits32 (real n * 2 powi u)"
  unfolding fits32_def by (cases "n = 0") auto

lemma pos_val_nearbyint:
  assumes "pos_val x v" "v \<le> 2 ^ 20"
  shows "\<exists>n. pos_val (nearbyint x) (real n) \<and> (\<forall>k. \<bar>real n - v\<bar> \<le> \<bar>real (k :: nat) - v\<bar>)"
proof -
  obtain m e where d: "fp_decode binary32 (unat x) = FFin False m e" "real m * 2 powi e = v" using assms(1) by (auto simp: pos_val_def)
  show ?thesis
  proof (cases "0 \<le> e")
    case True
    then have v: "v = real (m * 2 ^ nat e)" using d(2) by (simp add: power_int_def)
    have "pos_val (nearbyint x) (real (m * 2 ^ nat e))" using assms(1) True v by (simp add: nearbyint_def d(1))
    then show ?thesis using v by (intro exI [of _ "m * 2 ^ nat e"]) simp
  next
    case False
    then have v: "v = real m / real (2 ^ nat (- e))" using d(2) by (simp add: power_int_def field_simps)
    let ?n = "div_rne m (2 ^ nat (- e))"
    have near: "\<bar>real ?n - v\<bar> \<le> \<bar>real k - v\<bar>" for k unfolding v by (rule div_rne_nearest) simp
    have "real ?n \<le> 2 ^ 21"
    proof (rule ccontr)
      assume "\<not> real ?n \<le> 2 ^ 21"
      then show False using near [of "2 ^ 20"] assms(2) by simp
    qed
    then have "real ?n < real (2 ^ 24)" by simp
    then have "?n < 2 ^ 24" by (rule of_nat_less_imp_less)
    then have "fits32 (real ?n * 2 powi 0)" by (rule fits32_nat) (use \<open>real ?n \<le> 2 ^ 21\<close> in simp_all)
    from pos_val_dyadic [OF this] have "pos_val (nearbyint x) (real ?n)" using False by (simp add: nearbyint_def d(1))
    then show ?thesis using near by blast
  qed
qed

section \<open>The grid\<close>

text \<open>The magnitudes of the format: at most \<open>mbits + 1\<close> significant bits, no finer than the smallest
  subnormal, up to the largest finite value.\<close>

definition fp8_grid :: "nat \<Rightarrow> int \<Rightarrow> real \<Rightarrow> real \<Rightarrow> bool" where
  "fp8_grid mb emin F g \<longleftrightarrow> (\<exists>k j. k < 2 ^ Suc mb \<and> emin - int mb \<le> j \<and> g = real (k :: nat) * 2 powi j \<and> g \<le> F)"

lemma powi_less_cancel: "(2::real) powi a < 2 powi b \<Longrightarrow> a < b"
  using power_int_increasing [of b a "2 :: real"] by (cases "a < b") auto

lemma powi_nat_add: "(2::real) ^ n * 2 powi u = 2 powi (u + int n)"
  by (simp add: power_int_add flip: power_int_of_nat)

lemma powi_step: "u \<le> j \<Longrightarrow> real k * 2 powi j = real (k * 2 ^ nat (j - u)) * 2 powi u"
proof -
  assume "u \<le> j"
  then have "(2::real) powi j = 2 ^ nat (j - u) * 2 powi u" by (simp only: powi_nat_add) simp
  then show ?thesis by simp
qed

lemma grid_multiple_small:
  assumes "k < 2 ^ Suc mb" shows "real k * 2 powi j < 2 powi (j + int mb + 1)"
proof -
  have "real k < real (2 ^ Suc mb)" using assms by (simp only: of_nat_less_iff)
  then have "real k * 2 powi j < 2 ^ Suc mb * 2 powi j" by simp
  then show ?thesis by (simp only: powi_nat_add) (simp add: algebra_simps)
qed

lemma nearest_le:
  assumes "\<forall>k. \<bar>real n - q\<bar> \<le> \<bar>real (k :: nat) - q\<bar>" "q \<le> real c" shows "n \<le> c"
proof (rule ccontr)
  assume "\<not> n \<le> c"
  then have "real c + 1 \<le> real n" by linarith
  moreover have "\<bar>real n - q\<bar> \<le> \<bar>real c - q\<bar>" using assms(1) by blast
  ultimately show False using assms(2) by linarith
qed

text \<open>The spacing of the grid around a number with exponent \<open>ex\<close>, as a power of two.\<close>

definition fp8_spacing :: "nat \<Rightarrow> int \<Rightarrow> int \<Rightarrow> int" where
  "fp8_spacing mb emin ex = max ex emin - int mb"

text \<open>Both formats have a largest value that is itself a point of the grid.\<close>

locale fp8_format =
  fixes mb :: nat and emin :: int and F :: real
  assumes top: "\<exists>k j. k < 2 ^ Suc mb \<and> emin - int mb \<le> j \<and> F = real (k :: nat) * 2 powi j"
begin

abbreviation "spacing ex \<equiv> fp8_spacing mb emin ex"

lemma spacing_divides:
  assumes "2 powi ex \<le> w" "w \<le> F"
  shows "\<exists>c. F = real (c :: nat) * 2 powi (spacing ex)"
proof -
  obtain k j where F: "k < 2 ^ Suc mb" "emin - int mb \<le> j" "F = real k * 2 powi j" using top by blast
  have "2 powi ex < (2::real) powi (j + int mb + 1)" using assms grid_multiple_small [OF F(1), of j] F(3) by linarith
  then have "ex < j + int mb + 1" by (rule powi_less_cancel)
  then have "spacing ex \<le> j" using F(2) by (simp add: fp8_spacing_def)
  then show ?thesis unfolding F(3) using powi_step by blast
qed

lemma rounded_nearest:
  assumes w: "2 powi ex \<le> w" "w < 2 powi (ex + 1)" "w \<le> F"
    and n: "\<forall>k. \<bar>real n - w / 2 powi (spacing ex)\<bar> \<le> \<bar>real (k :: nat) - w / 2 powi (spacing ex)\<bar>"
  shows "fp8_grid mb emin F (real n * 2 powi (spacing ex))"
    and "fp8_grid mb emin F g \<Longrightarrow> \<bar>real n * 2 powi (spacing ex) - w\<bar> \<le> \<bar>g - w\<bar>"
    and "n \<le> 2 ^ Suc mb"
proof -
  let ?u = "spacing ex"
  let ?P = "(2::real) powi ?u"
  have P: "0 < ?P" by simp
  have dist: "\<bar>real k * ?P - w\<bar> = \<bar>real k - w / ?P\<bar> * ?P" for k :: nat
  proof -
    have "real k * ?P - w = (real k - w / ?P) * ?P" using P by (simp add: left_diff_distrib)
    then show ?thesis using P by (simp add: abs_mult)
  qed
  have near: "\<bar>real n * ?P - w\<bar> \<le> \<bar>real k * ?P - w\<bar>" for k :: nat
    unfolding dist using n P by (intro mult_right_mono) simp_all
  obtain c where c: "F = real (c :: nat) * ?P" using spacing_divides [OF w(1,3)] by blast
  have "n \<le> c" by (rule nearest_le [OF n]) (use c w(3) P in \<open>simp add: divide_le_eq\<close>)
  then have rF: "real n * ?P \<le> F" unfolding c by (intro mult_right_mono) simp_all
  have "w < 2 ^ Suc mb * ?P"
  proof -
    have "(2::real) powi (ex + 1) \<le> 2 powi (?u + int (Suc mb))"
      by (rule power_int_increasing) (simp_all add: fp8_spacing_def)
    then show ?thesis using w(2) by (simp only: powi_nat_add)
  qed
  then have "w / ?P \<le> real (2 ^ Suc mb)" by (simp add: divide_le_eq)
  from nearest_le [OF n this] show n_le: "n \<le> 2 ^ Suc mb" .
  have u: "emin - int mb \<le> ?u" by (simp add: fp8_spacing_def)
  show "fp8_grid mb emin F (real n * ?P)"
  proof (cases "n = 2 ^ Suc mb")
    case True
    have "real n * ?P = real (2 ^ mb) * 2 powi (?u + 1)" by (simp add: True power_int_add)
    then show ?thesis unfolding fp8_grid_def using rF u by (intro exI [of _ "2 ^ mb"] exI [of _ "?u + 1"]) simp
  next
    case False
    then show ?thesis unfolding fp8_grid_def using n_le rF u by (intro exI [of _ n] exI [of _ ?u]) simp
  qed
  assume "fp8_grid mb emin F g"
  then obtain k j where g: "k < 2 ^ Suc mb" "emin - int mb \<le> j" "g = real k * 2 powi j" by (auto simp: fp8_grid_def)
  show "\<bar>real n * ?P - w\<bar> \<le> \<bar>g - w\<bar>"
  proof (cases "?u \<le> j")
    case True
    show ?thesis unfolding g(3) powi_step [OF True] by (rule near)
  next
    case False
    then have ex: "emin < ex" "?u = ex - int mb" using g(2) by (auto simp: fp8_spacing_def split: if_splits)
    have "(2::real) powi (j + int mb + 1) \<le> 2 powi ex" using False ex by (intro power_int_increasing) simp_all
    then have "g < 2 powi ex" using grid_multiple_small [OF g(1), of j] g(3) by linarith
    moreover have "real (2 ^ mb) * ?P = 2 powi ex" using powi_nat_add [of mb ?u] ex(2) by simp
    ultimately show ?thesis using near [of "2 ^ mb"] w(1) by linarith
  qed
qed

end

section \<open>The code's rounding\<close>

lemma pos_val_mantissa: "pos_val x v \<Longrightarrow> \<exists>m e. m < 2 ^ 24 \<and> - 149 \<le> e \<and> v = real m * 2 powi e"
proof -
  assume "pos_val x v"
  then obtain m e where d: "fp_decode binary32 (unat x) = FFin False m e" "real m * 2 powi e = v" by (auto simp: pos_val_def)
  have "m < 2 ^ 24" using d(1) f_bounds(2) [of x] by (auto simp: fp_decode_float simp del: f_bounds split: if_splits)
  then show ?thesis using decode_e [OF d(1)] d(2) by blast
qed

lemma scaled_fits:
  assumes "pos_val x w" "u \<le> 0 \<or> 2 powi u \<le> w" "w / 2 powi u < 2 powi 128"
  shows "fits32 (w / 2 powi u)"
proof -
  obtain m e where m: "m < 2 ^ 24" "- 149 \<le> e" "w = real m * 2 powi e" using pos_val_mantissa [OF assms(1)] by blast
  have "- 149 \<le> e - u"
  proof (cases "u \<le> 0")
    case False
    have "real m < real (2 ^ 24)" using m(1) by (simp only: of_nat_less_iff)
    then have "w < 2 ^ 24 * 2 powi e" unfolding m(3) by simp
    then have "(2::real) powi u < 2 powi (e + int 24)" using assms(2) False by (simp only: powi_nat_add) simp
    then show ?thesis using powi_less_cancel m(2) by fastforce
  qed (use m(2) in simp)
  moreover have "w / 2 powi u = real m * 2 powi (e - u)" by (simp add: m(3) power_int_diff)
  ultimately show ?thesis using fits32_nat [OF m(1), of "e - u"] assms(3) by simp
qed

locale fp8_rounder = fp8_format mb "1 - bias" F for mb :: nat and bias :: int and F :: real +
  fixes fmax :: u32
  assumes fmax: "pos_val fmax F" and F_bounds: "0 < F" "F \<le> 2 ^ 20" and mb: "mb \<le> 10" and bias: "1 \<le> bias" "bias \<le> 100"
begin

lemma top_on_grid: "fp8_grid mb (1 - bias) F F"
  using top by (auto simp: fp8_grid_def)

lemma spacing_bounds: "2 powi ex \<le> w \<Longrightarrow> w \<le> F \<Longrightarrow> - 109 \<le> spacing ex \<and> spacing ex \<le> 20"
proof -
  assume "2 powi ex \<le> w" "w \<le> F"
  then have "(2::real) powi ex < 2 powi 21" using F_bounds(2) by simp
  then have "ex < 21" by (rule powi_less_cancel)
  then show ?thesis using mb bias by (auto simp: fp8_spacing_def max_def)
qed

lemma steps_nearest:
  assumes "pos_val y w" "0 < w" "w \<le> F"
  defines "P \<equiv> ldexp_one (spacing (frexp_exponent y - 1))"
  shows "\<exists>r. pos_val (f32_mul (nearbyint (f32_div y P)) P) r \<and> fp8_grid mb (1 - bias) F r \<and>
    (\<forall>g. fp8_grid mb (1 - bias) F g \<longrightarrow> \<bar>r - w\<bar> \<le> \<bar>g - w\<bar>)"
proof -
  let ?ex = "frexp_exponent y - 1"
  let ?u = "spacing ?ex"
  have w: "2 powi ?ex \<le> w" "w < 2 powi (?ex + 1)" using pos_val_frexp [OF assms(1,2)] by simp_all
  have u: "- 109 \<le> ?u" "?u \<le> 20" using spacing_bounds [OF w(1) assms(3)] by simp_all
  have P: "pos_val P (2 powi ?u)" unfolding P_def using u by (intro pos_val_ldexp) simp_all
  have q: "w / 2 powi ?u < 2 powi 11"
  proof -
    have "(2::real) powi (?ex + 1) \<le> 2 powi (?u + 11)" using mb by (intro power_int_increasing) (simp_all add: fp8_spacing_def)
    also have "\<dots> = 2 powi 11 * 2 powi ?u" by (simp add: power_int_add)
    finally show ?thesis using w(2) by (simp add: divide_less_eq)
  qed
  have "?u \<le> 0 \<or> 2 powi ?u \<le> w"
  proof (cases "?u \<le> 0")
    case False
    then have "?u \<le> ?ex" using bias by (simp add: fp8_spacing_def max_def split: if_splits)
    then have "(2::real) powi ?u \<le> 2 powi ?ex" by (intro power_int_increasing) simp_all
    then show ?thesis using w(1) by simp
  qed simp
  moreover have "(2::real) powi 11 < 2 powi 128" by (intro power_int_strict_increasing) simp_all
  ultimately have "fits32 (w / 2 powi ?u)" using scaled_fits [OF assms(1), of ?u] q by linarith
  then have "pos_val (f32_div y P) (w / 2 powi ?u)" using pos_val_div [OF assms(1) P] by simp
  moreover have "w / 2 powi ?u \<le> 2 ^ 20" using q by simp
  ultimately obtain n where n: "pos_val (nearbyint (f32_div y P)) (real n)"
      "\<forall>k. \<bar>real n - w / 2 powi ?u\<bar> \<le> \<bar>real (k :: nat) - w / 2 powi ?u\<bar>"
    using pos_val_nearbyint by blast
  note r = rounded_nearest [OF w assms(3) n(2)]
  have "n \<le> 2 ^ 11" using r(3) mb power_increasing [of "Suc mb" 11 "2 :: nat"] by simp
  moreover have "real n * 2 powi ?u < 2 powi 128"
  proof -
    have "real n * 2 powi ?u \<le> F" using r(1) by (auto simp: fp8_grid_def)
    then show ?thesis using F_bounds(2) by simp
  qed
  ultimately have "fits32 (real n * 2 powi ?u)" using u by (intro fits32_nat) simp_all
  from pos_val_mul [OF n(1) P this] show ?thesis using r(1,2) by blast
qed

lemma magnitude_nearest:
  assumes "pos_val x v" "0 < v"
  shows "\<exists>r. pos_val (fp8_magnitude x (int mb) bias fmax) r \<and> fp8_grid mb (1 - bias) F r \<and>
    (\<forall>g. fp8_grid mb (1 - bias) F g \<longrightarrow> \<bar>r - v\<bar> \<le> \<bar>g - v\<bar>)"
proof -
  define y where "y = (if f32_lt fmax x then fmax else x)"
  have y: "pos_val y (min v F)" using fmax assms(1) pos_val_lt [OF fmax assms(1)] by (simp add: y_def min_def)
  have ulp: "(if ex < 1 - bias then ldexp_one (1 - bias - int mb) else ldexp_one (ex - int mb)) = ldexp_one (spacing ex)" for ex
    by (simp add: fp8_spacing_def)
  define R where "R = f32_mul (nearbyint (f32_div y (ldexp_one (spacing (frexp_exponent y - 1))))) (ldexp_one (spacing (frexp_exponent y - 1)))"
  have mag: "fp8_magnitude x (int mb) bias fmax = (if f32_lt fmax R then fmax else R)"
    unfolding fp8_magnitude_def Let_def y_def [symmetric] ulp R_def by (rule refl)
  obtain r where r: "pos_val R r"
      "fp8_grid mb (1 - bias) F r" "\<And>g. fp8_grid mb (1 - bias) F g \<Longrightarrow> \<bar>r - min v F\<bar> \<le> \<bar>g - min v F\<bar>"
    using steps_nearest [OF y] assms(2) F_bounds(1) unfolding R_def by auto
  have "r \<le> F" using r(2) by (auto simp: fp8_grid_def)
  then have m: "pos_val (fp8_magnitude x (int mb) bias fmax) r"
    using r(1) pos_val_lt [OF fmax r(1)] by (simp add: mag)
  have "\<bar>r - v\<bar> \<le> \<bar>g - v\<bar>" if g: "fp8_grid mb (1 - bias) F g" for g
  proof (cases "v \<le> F")
    case True
    then show ?thesis using r(3) [OF g] by (simp add: min_def)
  next
    case False
    then have "r = F" using r(3) [OF top_on_grid] by (simp add: min_def)
    moreover have "g \<le> F" using g by (auto simp: fp8_grid_def)
    ultimately show ?thesis using False by simp
  qed
  then show ?thesis using m r(2) by blast
qed

end

section \<open>Signs\<close>

lemma copysign_fields:
  "f_sign (f32_copysign a b) = f_sign b"
  "f_exp_field (f32_copysign a b) = f_exp_field a" "f_man_field (f32_copysign a b) = f_man_field a"
proof -
  have c: "(0x80000000 :: u32) = push_bit 31 1" by simp
  show "f_sign (f32_copysign a b) = f_sign b"
    unfolding f_sign_def f32_copysign_def c by (simp only: bit_or_iff bit_and_iff bit_push_bit_iff bit_take_bit_iff) (simp add: bit_simps)
  have "take_bit 31 (f32_copysign a b) = take_bit 31 a"
    unfolding f32_copysign_def c by (rule bit_word_eqI) (auto simp only: bit_take_bit_iff bit_or_iff bit_and_iff bit_push_bit_iff)
  from low_bits_fields [OF this] show "f_exp_field (f32_copysign a b) = f_exp_field a" "f_man_field (f32_copysign a b) = f_man_field a" .
qed

lemma fabs_fields:
  "\<not> f_sign (f32_fabs a)" "f_exp_field (f32_fabs a) = f_exp_field a" "f_man_field (f32_fabs a) = f_man_field a"
proof -
  show "\<not> f_sign (f32_fabs a)" by (simp add: f_sign_def f32_fabs_def bit_take_bit_iff)
  have "take_bit 31 (f32_fabs a) = take_bit 31 a" by (simp add: f32_fabs_def)
  from low_bits_fields [OF this] show "f_exp_field (f32_fabs a) = f_exp_field a" "f_man_field (f32_fabs a) = f_man_field a" .
qed

lemma fabs_decode:
  assumes "fp_decode binary32 (unat x) = FFin s m e"
  shows "fp_decode binary32 (unat (f32_fabs x)) = FFin False m e" "s = f_sign x"
  using assms by (auto simp: fp_decode_float fabs_fields split: if_splits)

lemma copysign_value:
  assumes "pos_val a v"
  shows "fp_finite binary32 (unat (f32_copysign a b))" "fp_val binary32 (unat (f32_copysign a b)) = (if f_sign b then - v else v)"
proof -
  obtain m e where d: "fp_decode binary32 (unat a) = FFin False m e" "real m * 2 powi e = v" using assms by (auto simp: pos_val_def)
  have "fp_decode binary32 (unat (f32_copysign a b)) = FFin (f_sign b) m e"
    using d(1) by (auto simp: fp_decode_float copysign_fields split: if_splits)
  from fp_finite_val [OF this] show "fp_finite binary32 (unat (f32_copysign a b))"
    "fp_val binary32 (unat (f32_copysign a b)) = (if f_sign b then - v else v)"
    using d(2) by (simp_all add: fin_val_def)
qed

lemma grid_zero: "0 < F \<Longrightarrow> fp8_grid mb emin F 0"
  unfolding fp8_grid_def by (intro exI [of _ 0] exI [of _ "emin - int mb"]) simp

text \<open>\<open>r\<close> is a point of the grid nearest to \<open>x\<close>, with the sign of \<open>x\<close>.\<close>

definition fp8_nearest :: "nat \<Rightarrow> int \<Rightarrow> real \<Rightarrow> u32 \<Rightarrow> u32 \<Rightarrow> bool" where
  "fp8_nearest mb emin F x r \<longleftrightarrow>
     fp_finite binary32 (unat r) \<and> f_sign r = f_sign x \<and> fp8_grid mb emin F \<bar>fp_val binary32 (unat r)\<bar> \<and>
     (\<forall>g. fp8_grid mb emin F \<bar>g\<bar> \<longrightarrow>
       \<bar>fp_val binary32 (unat r) - fp_val binary32 (unat x)\<bar> \<le> \<bar>g - fp_val binary32 (unat x)\<bar>)"

context fp8_rounder
begin

lemma round_nearest:
  assumes "fp_finite binary32 (unat x)"
  shows "fp8_nearest mb (1 - bias) F x (fp8_round x (int mb) bias fmax has_inf)"
proof -
  obtain s m e where d: "fp_decode binary32 (unat x) = FFin s m e" using assms by (auto simp: fp_finite_def)
  let ?mag = "f32_fabs x"
  note dm = fabs_decode [OF d]
  have spec: "\<not> f32_is_nan x" "\<not> f32_is_inf ?mag"
    using d dm by (simp_all add: f32_is_nan_def fp_is_nan_def f32_is_inf_def)
  have vx: "fp_val binary32 (unat x) = (if f_sign x then - (real m * 2 powi e) else real m * 2 powi e)"
    using fp_finite_val [OF d] dm(2) by (simp add: fin_val_def)
  show ?thesis
  proof (cases "?mag = 0")
    case True
    then have "m = 0" using dm(1) by (auto simp: fp_decode_def binary32_def split: if_splits)
    then have "fp_val binary32 (unat x) = 0" using vx by simp
    then show ?thesis using assms spec True grid_zero [OF F_bounds(1)] by (simp add: fp8_nearest_def fp8_round_def)
  next
    case False
    have "m \<noteq> 0"
    proof
      assume "m = 0"
      then show False using decode_zero_unat [of ?mag False e] dm(1) False by simp
    qed
    then have v: "pos_val ?mag (real m * 2 powi e)" "0 < real m * 2 powi e" using dm(1) by (auto simp: pos_val_def)
    from magnitude_nearest [OF v] obtain r where r: "pos_val (fp8_magnitude ?mag (int mb) bias fmax) r" "fp8_grid mb (1 - bias) F r"
      "\<And>g. fp8_grid mb (1 - bias) F g \<Longrightarrow> \<bar>r - real m * 2 powi e\<bar> \<le> \<bar>g - real m * 2 powi e\<bar>" by blast
    have "0 \<le> r" using r(2) by (auto simp: fp8_grid_def)
    have res: "fp8_round x (int mb) bias fmax has_inf = f32_copysign (fp8_magnitude ?mag (int mb) bias fmax) x"
      using spec False by (simp add: fp8_round_def)
    have near: "\<bar>(if f_sign x then - r else r) - fp_val binary32 (unat x)\<bar> \<le> \<bar>g - fp_val binary32 (unat x)\<bar>"
      if "fp8_grid mb (1 - bias) F \<bar>g\<bar>" for g
      using r(3) [OF that] v(2) unfolding vx by (cases "f_sign x") auto
    show ?thesis unfolding fp8_nearest_def res
      using copysign_value [OF r(1), of x] r(2) \<open>0 \<le> r\<close> near by (simp add: copysign_fields)
  qed
qed

end

lemma pos_val_int:
  assumes "n < 2 ^ 24" shows "pos_val (f32_of_int (int n)) (real n)"
proof -
  have "real n < real (2 ^ 24)" using assms by (simp only: of_nat_less_iff)
  also have "real (2 ^ 24) < 2 powi 128" by simp
  finally have "fits32 (real n * 2 powi 0)" using assms by (intro fits32_nat) simp_all
  then have "fits32 (real n / real (1 :: nat))" by simp
  from pos_val_round [OF _ this] show ?thesis by (simp add: f32_of_int_def fp_of_int_def)
qed

lemma e4m3_max_val: "pos_val e4m3_max 448" and e5m2_max_val: "pos_val e5m2_max 57344"
  using pos_val_int [of 448] pos_val_int [of 57344] by (simp_all add: e4m3_max_def e5m2_max_def)

interpretation e4m3: fp8_rounder 3 7 448 e4m3_max
proof unfold_locales
  show "\<exists>k j. k < 2 ^ Suc 3 \<and> 1 - 7 - int 3 \<le> j \<and> (448::real) = real (k :: nat) * 2 powi j"
    by (intro exI [of _ 14] exI [of _ 5]) simp
qed (simp_all add: e4m3_max_val)

interpretation e5m2: fp8_rounder 2 15 57344 e5m2_max
proof unfold_locales
  show "\<exists>k j. k < 2 ^ Suc 2 \<and> 1 - 15 - int 2 \<le> j \<and> (57344::real) = real (k :: nat) * 2 powi j"
    by (intro exI [of _ 7] exI [of _ 13]) simp
qed (simp_all add: e5m2_max_val)

section \<open>Points of the grid as bf16\<close>

lemma val_of_sign:
  assumes "fp_finite binary32 (unat r)"
  shows "fp_val binary32 (unat r) = (if f_sign r then - \<bar>fp_val binary32 (unat r)\<bar> else \<bar>fp_val binary32 (unat r)\<bar>)"
proof -
  obtain g where "fp_val binary32 (unat r) = (if f_sign r then - 1 else 1) * mag_val binary32 g" by (rule finite_mag [OF assms])
  then show ?thesis using mag_val_nonneg [of binary32 g] by (simp split: if_splits)
qed

text \<open>A float with eight significant bits or fewer survives the rounding to bf16.\<close>

lemma bf16_exact:
  assumes fin: "fp_finite binary32 (unat r)" and val: "\<bar>fp_val binary32 (unat r)\<bar> = real k * 2 powi j"
    and k: "k < 2 ^ 8" "- 133 \<le> j" "real k * 2 powi j < 2 powi 128"
  shows "bf16_to_float (float_to_bf16 r) = r"
proof (cases "k = 0")
  case True
  then have "r = 0 \<or> r = 0x80000000" using finite_inject [OF fin, of 0] val zero_value [of 0] by auto
  then show ?thesis by (auto simp: float_to_bf16_def bf16_to_float_def)
next
  case False
  obtain a b where d: "dyadic k j = (a, b)" by (cases "dyadic k j")
  note dv = dyadic_val [OF d]
  let ?c = "fp_round bfloat16 (f_sign r) a b"
  have "\<exists>m u. fp_decode bfloat16 ?c = FFin (f_sign r) m u \<and> real m * 2 powi u = real k * 2 powi j"
    by (rule fp_round_exact_decode) (use False k dv in \<open>simp_all add: bfloat16_def f_emin_def f_bias_def\<close>)
  then obtain m u where c: "fp_decode bfloat16 ?c = FFin (f_sign r) m u" "real m * 2 powi u = real k * 2 powi j" by blast
  have u: "unat (of_nat ?c :: u16) = ?c"
    using fp_round_less [of bfloat16 "f_sign r" a b] by (simp add: bfloat16_def unsigned_of_nat take_bit_nat_eq_self)
  let ?b = "of_nat ?c :: u16"
  have nan: "\<not> fp_is_nan bfloat16 (unat ?b)" unfolding u fp_is_nan_def c(1) by simp
  have "fp_val bfloat16 (unat ?b) = fp_val binary32 (unat r)"
    unfolding u using fp_finite_val [OF c(1)] c(2) val_of_sign [OF fin, unfolded val] by (cases "f_sign r") (simp_all add: fin_val_def)
  then have v: "fp_val binary32 (unat (bf16_to_float ?b)) = fp_val binary32 (unat r)" by (simp add: bf16_to_float_val)
  have "fp_finite binary32 (unat (bf16_to_float ?b))" by (simp add: fp_finite_def decode_bf16_to_float u c(1))
  moreover have "r \<notin> {0, 0x80000000}" using zero_value [of r] val False by auto
  ultimately have "bf16_to_float ?b = r" using finite_inject [OF _ fin v] by blast
  then show ?thesis using widen_narrow [OF nan] by simp
qed

lemma nearest_bf16_exact:
  assumes "fp8_nearest mb emin F x r" "mb \<le> 7" "- 133 \<le> emin - int mb" "F < 2 powi 128"
  shows "bf16_to_float (float_to_bf16 r) = r"
proof -
  obtain k j where g: "k < 2 ^ Suc mb" "emin - int mb \<le> j" "\<bar>fp_val binary32 (unat r)\<bar> = real k * 2 powi j" "\<bar>fp_val binary32 (unat r)\<bar> \<le> F"
    using assms(1) by (auto simp: fp8_nearest_def fp8_grid_def)
  have "k < 2 ^ 8" using g(1) assms(2) power_increasing [of "Suc mb" 8 "2 :: nat"] by simp
  then show ?thesis using assms(1) g(2-4) assms(3,4) by (intro bf16_exact [of r k j]) (simp_all add: fp8_nearest_def)
qed

end
