(* ===== verification/Quant.thy ===== *)
theory Quant
  imports Attention Fp8
begin

text \<open>
  The CPU reference of the quantized matrix product (\<open>matmul_quant.cpp\<close>): int8 weights with a scale per
  output channel, and bf16 weights rounded onto an 8 bit floating point grid (theory Fp8). Both modes, with
  their tensor files.
\<close>

section \<open>Raw tensor files\<close>

record npy_raw =
  raw_shape :: "int list"
  raw_bytes :: string

text \<open>An opening quote that is not found makes the search start over at the beginning of the header, and
  a closing one that is not found makes the value extend to the end.\<close>

definition quoted_after :: "string \<Rightarrow> string \<Rightarrow> stop + string" where
  "quoted_after h key =
     (case find_sub key h of
        None \<Rightarrow> Inl (Caught (NpyError (''npy header missing '' @ key)))
      | Some rest \<Rightarrow>
          Inr (takeWhile (\<lambda>c. c \<noteq> CHR 0x27) (case find_sub [CHR 0x27] rest of None \<Rightarrow> h | Some body \<Rightarrow> body)))"

text \<open>Without the key or a parenthesis the loop runs into \<open>std::stoll\<close> of an empty string, which throws,
  as it does on a character that is neither a separator nor a digit.\<close>

definition parse_shape_raw :: "string \<Rightarrow> stop + int list" where
  "parse_shape_raw h =
     (case find_sub (quoted ''shape'') h of
        None \<Rightarrow> Inl (Caught (NpyError ''stoll''))
      | Some rest \<Rightarrow>
          (case find_sub ''('' rest of
             None \<Rightarrow> Inl (Caught (NpyError ''stoll''))
           | Some body \<Rightarrow>
               (case upto_char (CHR '')'') body of
                  None \<Rightarrow> Inl (Caught (NpyError ''stoll''))
                | Some tup \<Rightarrow> attempt (shape_loop tup []))))"

text \<open>The header length; a file that ends inside the first twelve bytes leaves the fields uninitialised.\<close>

definition raw_header :: "string \<Rightarrow> stop + nat \<times> string" where
  "raw_header s =
     (if length s < 2 then Inl Undefined
      else if byte (s ! 0) = 1
      then (if length s < 4 then Inl Undefined
            else Inr (byte (s ! 2) + 256 * byte (s ! 3), drop 4 s))
      else (if length s < 6 then Inl Undefined
            else Inr (byte (s ! 2) + 256 * byte (s ! 3) + 65536 * byte (s ! 4) + 16777216 * byte (s ! 5), drop 6 s)))"

text \<open>\<open>size_t\<close> wraps around.\<close>

definition raw_size :: "int \<Rightarrow> nat \<Rightarrow> nat" where
  "raw_size n esz = nat (n mod 2 ^ 64 * int esz mod 2 ^ 64)"

text \<open>The GPU driver has a copy of the reader that accepts a second spelling of the element type.\<close>

definition read_raw :: "(string \<Rightarrow> bool) \<Rightarrow> files \<Rightarrow> string \<Rightarrow> string \<Rightarrow> nat \<Rightarrow> stop + npy_raw" where
  "read_raw accepts files path descr esz =
     (case files path of
        None \<Rightarrow> Inl (Caught (NpyError (''cannot open '' @ path)))
      | Some s \<Rightarrow>
          if length s < 6 then Inl Undefined
          else if take 6 s \<noteq> kMagic then Inl (Caught (NpyError (''bad npy magic: '' @ path)))
          else
            rbind (raw_header (drop 6 s)) (\<lambda>(hlen, rest).
            let header = take hlen rest @ replicate (hlen - length rest) (char_of (0 :: nat)) in
            rbind (quoted_after header (quoted ''descr'')) (\<lambda>d.
            if \<not> accepts d then Inl (Caught (NpyError (''npy descr '' @ d @ '' != expected '' @ descr)))
            else
              rbind (parse_shape_raw header) (\<lambda>sh.
              rbind (defined (npy_product sh)) (\<lambda>n.
              let size = raw_size n esz; payload = drop hlen rest in
              if 2 ^ 63 \<le> size then Inl (Caught LengthError)
              else if length rest < hlen \<or> length payload < size then Inl (Caught (NpyError (''truncated npy payload: '' @ path)))
              else Inr \<lparr>raw_shape = sh, raw_bytes = take size payload\<rparr>)))))"

definition read_npy_raw :: "files \<Rightarrow> string \<Rightarrow> string \<Rightarrow> nat \<Rightarrow> stop + npy_raw" where
  "read_npy_raw files path descr = read_raw (\<lambda>d. d = descr) files path descr"

text \<open>The payloads read as \<open>int8_t\<close> and little-endian \<open>float\<close>.\<close>

definition int8_at :: "string \<Rightarrow> nat \<Rightarrow> int option" where
  "int8_at bs i = map_option (\<lambda>c. sint (of_nat (byte c) :: u8)) (rd bs i)"

definition float_at :: "string \<Rightarrow> nat \<Rightarrow> u32 option" where
  "float_at bs i = do {
     a \<leftarrow> rd bs (4 * i);
     b \<leftarrow> rd bs (4 * i + 1);
     c \<leftarrow> rd bs (4 * i + 2);
     d \<leftarrow> rd bs (4 * i + 3);
     Some (of_nat (byte a + 256 * byte b + 65536 * byte c + 16777216 * byte d))
   }"

section \<open>The two products\<close>

definition fp8_sim :: "u32 \<Rightarrow> string \<Rightarrow> stop + u32" where
  "fp8_sim x fmt =
     (if fmt = ''e4m3'' then Inr (fp8_round x 3 7 e4m3_max False)
      else if fmt = ''e5m2'' then Inr (fp8_round x 2 15 e5m2_max True)
      else Inl (Caught (NpyError (''unknown fp8 format '' @ fmt))))"

definition shape_at :: "int list \<Rightarrow> nat \<Rightarrow> stop + int" where
  "shape_at sh i = (if i < length sh then Inr (sh ! i) else Inl Undefined)"

definition int8_loops :: "u16 list \<Rightarrow> string \<Rightarrow> string \<Rightarrow> u16 list \<Rightarrow> nat \<Rightarrow> nat \<Rightarrow> nat \<Rightarrow> u16 list option" where
  "int8_loops a wq sc c M N K =
     loop M (\<lambda>m c. loop N (\<lambda>n c. do {
         s \<leftarrow> float_at sc n;
         acc \<leftarrow> loop K (\<lambda>k acc. do {
           x \<leftarrow> rd a (m * K + k);
           w \<leftarrow> int8_at wq (k * N + n);
           Some (f32_add acc (f32_mul (bf16_to_float x) (f32_mul (f32_of_int w) s)))
         }) 0;
         wr c (m * N + n) (float_to_bf16 acc)
       }) c) c"

definition run_int8 :: "(string \<Rightarrow> bool) \<Rightarrow> files \<Rightarrow> string list \<Rightarrow> stop + files" where
  "run_int8 can_open files argv =
     rbind (load files (argv ! 0)) (\<lambda>a.
     rbind (read_npy_raw files (argv ! 1) ''|i1'' 1) (\<lambda>wq.
     rbind (read_npy_raw files (argv ! 2) ''<f4'' 4) (\<lambda>sc.
     if npy_shape a = [] then Inl Undefined
     else let K = last (npy_shape a) in
     rbind (npy_size a) (\<lambda>size.
     rbind (quotient size K) (\<lambda>M.
     rbind (shape_at (raw_shape wq) 1) (\<lambda>N.
     rbind (shape_at (raw_shape wq) 0) (\<lambda>Kw.
     rbind (if Kw \<noteq> K then Inr True else rbind (shape_at (raw_shape sc) 0) (\<lambda>Ns. Inr (Ns \<noteq> N))) (\<lambda>mismatch.
     if mismatch then Inl (Reject ''matmul_quant int8: shape mismatch'')
     else
       rbind (i64 (M * N)) (\<lambda>MN.
       rbind (alloc MN) (\<lambda>c.
       rbind (defined (int8_loops (npy_data a) (raw_bytes wq) (raw_bytes sc) c (nat M) (nat N) (nat K))) (\<lambda>c.
       store can_open (argv ! 3) (butlast (npy_shape a) @ [N]) c files)))))))))))"

text \<open>The exception of an unknown format leaves the loops; the state is \<open>Inl\<close> from then on.\<close>

fun unless_thrown :: "('s \<Rightarrow> (stop + 's) option) \<Rightarrow> stop + 's \<Rightarrow> (stop + 's) option" where
  "unless_thrown f (Inl e) = Some (Inl e)"
| "unless_thrown f (Inr s) = f s"

definition fp8_loops :: "string \<Rightarrow> u16 list \<Rightarrow> u16 list \<Rightarrow> u16 list \<Rightarrow> nat \<Rightarrow> nat \<Rightarrow> nat \<Rightarrow> (stop + u16 list) option" where
  "fp8_loops fmt a w c M N K =
     loop M (\<lambda>m. unless_thrown (\<lambda>c. loop N (\<lambda>n. unless_thrown (\<lambda>c. do {
         acc \<leftarrow> loop K (\<lambda>k. unless_thrown (\<lambda>acc. do {
           x \<leftarrow> rd w (k * N + n);
           case fp8_sim (bf16_to_float x) fmt of
             Inl e \<Rightarrow> Some (Inl e)
           | Inr w8 \<Rightarrow> do {
               y \<leftarrow> rd a (m * K + k);
               Some (Inr (f32_add acc (f32_mul (bf16_to_float y) w8)))
             }
         })) (Inr 0);
         case acc of
           Inl e \<Rightarrow> Some (Inl e)
         | Inr acc \<Rightarrow> map_option Inr (wr c (m * N + n) (float_to_bf16 acc))
       })) (Inr c))) (Inr c)"

definition run_fp8sim :: "(string \<Rightarrow> bool) \<Rightarrow> files \<Rightarrow> string \<Rightarrow> string list \<Rightarrow> stop + files" where
  "run_fp8sim can_open files fmt argv =
     rbind (load files (argv ! 0)) (\<lambda>a.
     rbind (load files (argv ! 1)) (\<lambda>w.
     if npy_shape a = [] then Inl Undefined
     else let K = last (npy_shape a) in
     rbind (npy_size a) (\<lambda>size.
     rbind (quotient size K) (\<lambda>M.
     rbind (shape_at (npy_shape w) 1) (\<lambda>N.
     rbind (shape_at (npy_shape w) 0) (\<lambda>Kw.
     if Kw \<noteq> K then Inl (Reject ''matmul_quant fp8sim: contraction mismatch'')
     else
       rbind (i64 (M * N)) (\<lambda>MN.
       rbind (alloc MN) (\<lambda>c.
       rbind (defined (fp8_loops fmt (npy_data a) (npy_data w) c (nat M) (nat N) (nat K))) (\<lambda>r.
       rbind r (\<lambda>c.
       store can_open (argv ! 2) (butlast (npy_shape a) @ [N]) c files))))))))))"

text \<open>\<open>argv\<close> includes the program name.\<close>

definition main_quant :: "(string \<Rightarrow> bool) \<Rightarrow> files \<Rightarrow> string list \<Rightarrow> stop + files" where
  "main_quant can_open files argv =
     (if length argv < 2 then Inl Usage
      else if argv ! 1 = ''int8'' \<and> length argv = 6 then run_int8 can_open files (drop 2 argv)
      else if argv ! 1 = ''fp8sim'' \<and> length argv = 6 then run_fp8sim can_open files (argv ! 2) (drop 3 argv)
      else Inl Usage)"

section \<open>The rounding of a weight\<close>

text \<open>\<open>r\<close> is a nearest point of the format to \<open>x\<close>.\<close>

definition rounds_to :: "string \<Rightarrow> u32 \<Rightarrow> u32 \<Rightarrow> bool" where
  "rounds_to fmt x r =
     (if fmt = ''e4m3'' then fp8_nearest 3 (- 6) 448 x r else fp8_nearest 2 (- 14) 57344 x r)"

lemma fp8_sim_rounds:
  assumes "fp_finite binary32 (unat x)" "fmt \<in> {''e4m3'', ''e5m2''}"
  shows "\<exists>r. fp8_sim x fmt = Inr r \<and> rounds_to fmt x r"
  using assms e4m3.round_nearest [OF assms(1)] e5m2.round_nearest [OF assms(1)] by (auto simp: fp8_sim_def rounds_to_def)

text \<open>C37. The simulated fp8 cast is a correct rounding: for every finite float it returns a value of the
  format (e4m3fn: three fraction bits, exponents from -6, at most 448; e5m2: two fraction bits, exponents
  from -14, at most 57344), keeps the sign bit, and no value of the format, subnormals and the largest
  finite included, is nearer to the argument.\<close>

theorem fp8_sim_nearest:
  assumes "fp_finite binary32 (unat x)"
  shows "(\<exists>r. fp8_sim x ''e4m3'' = Inr r \<and> fp8_nearest 3 (- 6) 448 x r) \<and>
    (\<exists>r. fp8_sim x ''e5m2'' = Inr r \<and> fp8_nearest 2 (- 14) 57344 x r)"
  using fp8_sim_rounds [OF assms, of "''e4m3''"] fp8_sim_rounds [OF assms, of "''e5m2''"] by (auto simp: rounds_to_def)

theorem fp8_sim_nearest_witness:
  "(\<exists>r. fp8_sim 0x3F800000 ''e4m3'' = Inr r \<and> fp8_nearest 3 (- 6) 448 0x3F800000 r) \<and>
   (\<exists>r. fp8_sim 0xFF7FFFFF ''e5m2'' = Inr r \<and> fp8_nearest 2 (- 14) 57344 0xFF7FFFFF r)"
proof -
  have "fp_finite binary32 (unat (0x3F800000 :: u32))" "fp_finite binary32 (unat (0xFF7FFFFF :: u32))"
    by (auto simp: fp_finite_def fp_decode_def binary32_def)
  from this [THEN fp8_sim_nearest] show ?thesis by blast
qed

text \<open>Values of the format are fixed, and rounding twice is rounding once.\<close>

lemma rounds_to_fixed:
  assumes "fp8_nearest mb emin F x r" "fp8_grid mb emin F \<bar>fp_val binary32 (unat x)\<bar>"
  shows "fp_val binary32 (unat r) = fp_val binary32 (unat x)"
  using assms unfolding fp8_nearest_def by fastforce

lemma rounds_to_bf16: "rounds_to fmt x r \<Longrightarrow> bf16_to_float (float_to_bf16 r) = r"
  unfolding rounds_to_def by (auto split: if_splits intro: nearest_bf16_exact)

text \<open>Finite floats beyond the range of a format become its largest value, in e5m2 too, which has an infinity.\<close>

lemma nearest_saturates:
  assumes "fp8_nearest mb emin F x r" and "fp8_grid mb emin F F" and "F < fp_val binary32 (unat x)" "0 \<le> F"
  shows "fp_val binary32 (unat r) = F"
proof -
  let ?r = "fp_val binary32 (unat r)"
  have "\<bar>?r - fp_val binary32 (unat x)\<bar> \<le> \<bar>F - fp_val binary32 (unat x)\<bar>"
    using assms(1,2,4) unfolding fp8_nearest_def by simp
  moreover have "\<bar>?r\<bar> \<le> F" using assms(1) unfolding fp8_nearest_def fp8_grid_def by blast
  ultimately show ?thesis using assms(3) by linarith
qed

lemma fp8_sim_saturates:
  assumes "fp_finite binary32 (unat x)"
  shows "448 < fp_val binary32 (unat x) \<Longrightarrow> \<exists>r. fp8_sim x ''e4m3'' = Inr r \<and> fp_val binary32 (unat r) = 448"
    and "57344 < fp_val binary32 (unat x) \<Longrightarrow> \<exists>r. fp8_sim x ''e5m2'' = Inr r \<and> fp_val binary32 (unat r) = 57344"
proof -
  from fp8_sim_rounds [OF assms, of "''e4m3''"] obtain r where r: "fp8_sim x ''e4m3'' = Inr r" "fp8_nearest 3 (- 6) 448 x r"
    by (auto simp: rounds_to_def)
  have "fp8_grid 3 (- 6) 448 448" using e4m3.top_on_grid by simp
  from nearest_saturates [OF r(2) this] r(1)
  show "448 < fp_val binary32 (unat x) \<Longrightarrow> \<exists>r. fp8_sim x ''e4m3'' = Inr r \<and> fp_val binary32 (unat r) = 448" by simp
  from fp8_sim_rounds [OF assms, of "''e5m2''"] obtain q where q: "fp8_sim x ''e5m2'' = Inr q" "fp8_nearest 2 (- 14) 57344 x q"
    by (auto simp: rounds_to_def)
  have "fp8_grid 2 (- 14) 57344 57344" using e5m2.top_on_grid by simp
  from nearest_saturates [OF q(2) this] q(1)
  show "57344 < fp_val binary32 (unat x) \<Longrightarrow> \<exists>r. fp8_sim x ''e5m2'' = Inr r \<and> fp_val binary32 (unat r) = 57344" by simp
qed

section \<open>The products\<close>

text \<open>The weight the inner loop multiplies with, rounded to the format and stored as bf16.\<close>

definition fp8_weight :: "string \<Rightarrow> u16 \<Rightarrow> u16" where
  "fp8_weight fmt w = (case fp8_sim (bf16_to_float w) fmt of Inr r \<Rightarrow> float_to_bf16 r | Inl e \<Rightarrow> w)"

lemma fp8_weight_exact:
  assumes "fp_finite bfloat16 (unat w)" "fmt \<in> {''e4m3'', ''e5m2''}"
  shows "fp8_sim (bf16_to_float w) fmt = Inr (bf16_to_float (fp8_weight fmt w))"
proof -
  have "fp_finite binary32 (unat (bf16_to_float w))" using assms(1) by (auto simp: fp_finite_def decode_bf16_to_float)
  from fp8_sim_rounds [OF this assms(2)] obtain r where r: "fp8_sim (bf16_to_float w) fmt = Inr r" "rounds_to fmt (bf16_to_float w) r" by blast
  then show ?thesis using rounds_to_bf16 [OF r(2)] by (simp add: fp8_weight_def)
qed

lemma unless_thrown_loop:
  "(\<And>i s. i < n \<Longrightarrow> f i s = map_option Inr (g i s)) \<Longrightarrow> loop n (\<lambda>i. unless_thrown (f i)) (Inr s) = map_option Inr (loop n g s)"
proof (induction n)
  case (Suc n)
  then show ?case by (cases "loop n g s") simp_all
qed simp

lemma fp8_loops_eq:
  assumes fin: "\<forall>x \<in> set w. fp_finite bfloat16 (unat x)" and fmt: "fmt \<in> {''e4m3'', ''e5m2''}"
    and len: "M * K \<le> length a" "K * N \<le> length w" "length c = M * N"
  shows "fp8_loops fmt a w c M N K = Some (Inr (matmul_spec a (map (fp8_weight fmt) w) M N K))"
proof -
  let ?w = "map (fp8_weight fmt) w"
  let ?step = "\<lambda>i j k acc. f32_add acc (f32_mul (bf16_to_float (a ! (i * K + k))) (bf16_to_float (?w ! (k * N + j))))"
  have inner: "loop K (\<lambda>k. unless_thrown (\<lambda>acc. rd w (k * N + j) \<bind> (\<lambda>x. case fp8_sim (bf16_to_float x) fmt of
        Inl e \<Rightarrow> Some (Inl e) | Inr w8 \<Rightarrow> rd a (i * K + k) \<bind> (\<lambda>y. Some (Inr (f32_add acc (f32_mul (bf16_to_float y) w8))))))) (Inr 0)
      = Some (Inr (dot a ?w N K i j))" if ij: "i < M" "j < N" for i j
  proof -
    have "loop K (\<lambda>k. unless_thrown (\<lambda>acc. rd w (k * N + j) \<bind> (\<lambda>x. case fp8_sim (bf16_to_float x) fmt of
        Inl e \<Rightarrow> Some (Inl e) | Inr w8 \<Rightarrow> rd a (i * K + k) \<bind> (\<lambda>y. Some (Inr (f32_add acc (f32_mul (bf16_to_float y) w8))))))) (Inr 0)
      = map_option Inr (loop K (\<lambda>k acc. Some (?step i j k acc)) 0)"
    proof (rule unless_thrown_loop)
      fix k acc assume k: "k < K"
      have "i * K + k < length a" "k * N + j < length w" using row_index [OF ij(1) len(1) k] row_index [OF k len(2) ij(2)] .
      then show "(rd w (k * N + j) \<bind> (\<lambda>x. case fp8_sim (bf16_to_float x) fmt of
          Inl e \<Rightarrow> Some (Inl e) | Inr w8 \<Rightarrow> rd a (i * K + k) \<bind> (\<lambda>y. Some (Inr (f32_add acc (f32_mul (bf16_to_float y) w8))))))
        = map_option Inr (Some (?step i j k acc))"
        using fp8_weight_exact [OF _ fmt, of "w ! (k * N + j)"] fin by (simp add: rd_def)
    qed
    also have "loop K (\<lambda>k acc. Some (?step i j k acc)) 0 = Some (dot a ?w N K i j)"
      unfolding dot_def by (rule loop_pure) (rule refl)
    finally show ?thesis by simp
  qed
  have "fp8_loops fmt a w c M N K =
      map_option Inr (loop M (\<lambda>i. loop N (\<lambda>j c. wr c (i * N + j) (float_to_bf16 (dot a ?w N K i j)))) c)"
    unfolding fp8_loops_def by (intro unless_thrown_loop) (simp only: inner Option.bind.simps sum.case)
  also have "loop M (\<lambda>i. loop N (\<lambda>j c. wr c (i * N + j) (float_to_bf16 (dot a ?w N K i j)))) c = Some (matmul_spec a ?w M N K)"
    unfolding matmul_spec_def by (rule loop_rows_full) (simp_all add: len(3))
  finally show ?thesis by simp
qed

text \<open>An unknown format is reported by the first weight, so a product without elements never reports it.\<close>

lemma unknown_format_unnoticed:
  "fmt \<notin> {''e4m3'', ''e5m2''} \<Longrightarrow> fp8_loops fmt a w [] 0 N K = Some (Inr [])"
  by (simp add: fp8_loops_def)

section \<open>The driver\<close>

text \<open>The dimensions both modes compute.\<close>

lemma quant_dims:
  assumes "load files a_path = Inr a" "2 \<le> length (npy_shape a)" "last (npy_shape a) = K" "K \<noteq> 0"
    and "M = length (npy_data a) div nat K" "0 \<le> N" "M * nat N < 2 ^ 62"
  shows "npy_shape a \<noteq> []" "npy_size a = Inr (int (length (npy_data a)))" "quotient (int (length (npy_data a))) K = Inr (int M)"
    and "M * nat K = length (npy_data a)" "i64 (int M * N) = Inr (int (M * nat N))"
    and "alloc (int (M * nat N)) = Inr (replicate (M * nat N) 0)"
proof -
  show ne: "npy_shape a \<noteq> []" using assms(2) by auto
  from load_split [OF assms(1) ne] obtain P where P: "0 \<le> P" "0 \<le> K"
    "int (length (npy_data a)) = P * K" "npy_size a = Inr (int (length (npy_data a)))" unfolding assms(3) by blast
  have K0: "0 < K" using P(2) assms(4) by simp
  have rows: "nat P * nat K = length (npy_data a)" by (rule nat_rows [OF P(3,1,2)])
  then have PM: "nat P = M" using K0 unfolding assms(5) rows [symmetric] by simp
  show "npy_size a = Inr (int (length (npy_data a)))" by (rule P(4))
  show "quotient (int (length (npy_data a))) K = Inr (int M)" unfolding P(3) using quotient_mult [OF P(1) K0] PM P(1) by auto
  show "M * nat K = length (npy_data a)" using rows PM by simp
  have MN: "int M * N = int (M * nat N)" using assms(6) by simp
  have "in_i64 (int (M * nat N))" using assms(7) by (simp add: in_i64_def del: of_nat_mult)
  then show "i64 (int M * N) = Inr (int (M * nat N))" unfolding MN by (simp add: i64_def)
  show "alloc (int (M * nat N)) = Inr (replicate (M * nat N) 0)"
    using assms(7) by (subst alloc_small) (simp_all only: nat_int of_nat_0_le_iff of_nat_less_numeral_power_cancel_iff)
qed

lemma run_fp8sim_eq:
  assumes "load files a_path = Inr a" "load files w_path = Inr w" "2 \<le> length (npy_shape a)"
    and w: "npy_shape w = [K, N]" and K: "last (npy_shape a) = K" "K \<noteq> 0"
    and M: "M = length (npy_data a) div nat K" "M * nat N < 2 ^ 62"
    and fin: "\<forall>x \<in> set (npy_data w). fp_finite bfloat16 (unat x)" and fmt: "fmt \<in> {''e4m3'', ''e5m2''}"
  shows "main_quant can_open files [prog, ''fp8sim'', fmt, a_path, w_path, c_path] =
    store can_open c_path (butlast (npy_shape a) @ [N])
      (matmul_spec (npy_data a) (map (fp8_weight fmt) (npy_data w)) M (nat N) (nat K)) files"
proof -
  note wm = load_matrix [OF assms(2), unfolded w, simplified]
  note d = quant_dims [OF assms(1,3) K M(1) wm(3) M(2)]
  have "fp8_loops fmt (npy_data a) (npy_data w) (replicate (M * nat N) 0) M (nat N) (nat K) =
      Some (Inr (matmul_spec (npy_data a) (map (fp8_weight fmt) (npy_data w)) M (nat N) (nat K)))"
    by (rule fp8_loops_eq [OF fin fmt]) (simp_all add: d(4) wm(1))
  then show ?thesis
    by (simp add: main_quant_def run_fp8sim_def assms(1,2) w K d shape_at_def Let_def del: of_nat_mult)
qed

text \<open>C38. The simulated fp8 product is the plain product of rounded weights: with readable operands of
  matching shapes and finite weights, \<open>fp8sim\<close> leaves the file that the matrix product driver leaves when
  its weights have been rounded to the format and stored as bf16 beforehand. The bf16 file holds every value
  of either format exactly, so nothing is lost by storing the rounded weights.\<close>

theorem fp8sim_rounds_weights:
  assumes "load files a_path = Inr a" "load files w_path = Inr w" "2 \<le> length (npy_shape a)"
    and "npy_shape w = [K, N]" "last (npy_shape a) = K" "K \<noteq> 0"
    and "M = length (npy_data a) div nat K" "M * nat N < 2 ^ 62"
    and "\<forall>x \<in> set (npy_data w). fp_finite bfloat16 (unat x)" "fmt \<in> {''e4m3'', ''e5m2''}"
    and "can_open c_path" "length (npy_dict (butlast (npy_shape a) @ [N])) < 65472"
    and r: "load rounded a_path = Inr a" "load rounded w_path = Inr (w\<lparr>npy_data := map (fp8_weight fmt) (npy_data w)\<rparr>)"
  shows "\<exists>g g' c. main_quant can_open files [prog, ''fp8sim'', fmt, a_path, w_path, c_path] = Inr g \<and>
    main_matmul can_open rounded [prog', a_path, w_path, c_path] = Inr g' \<and> load g c_path = Inr c \<and> load g' c_path = Inr c"
proof -
  have "npy_shape (w\<lparr>npy_data := map (fp8_weight fmt) (npy_data w)\<rparr>) = [K, N]" using assms(4) by simp
  note run = main_matmul_run [OF r assms(3) this assms(5-7)]
  let ?c = "matmul_spec (npy_data a) (map (fp8_weight fmt) (npy_data w)) M (nat N) (nat K)"
  have len: "length ?c = M * nat N" by (simp add: matmul_spec_def)
  have st: "\<exists>g. store can_open c_path (butlast (npy_shape a) @ [N]) ?c f = Inr g \<and>
      load g c_path = Inr \<lparr>npy_shape = butlast (npy_shape a) @ [N], npy_data = ?c\<rparr>" for f
    using store_ok [of "butlast (npy_shape a) @ [N]" ?c can_open c_path f] run(2) [OF assms(8)] run(3) assms(8,11,12)
    by (auto simp: len simp del: of_nat_mult)
  show ?thesis
    using st [of files] st [of rounded] unfolding run_fp8sim_eq [OF assms(1-10)] run(1) [OF assms(8)] by auto
qed

theorem fp8sim_rounds_weights_witness:
  "\<exists>files rounded g g' c. load rounded ''w'' = Inr \<lparr>npy_shape = [2, 1], npy_data = map (fp8_weight ''e4m3'') [0x4040, 0x3DCD]\<rparr> \<and>
     main_quant (\<lambda>p. True) files [''q'', ''fp8sim'', ''e4m3'', ''a'', ''w'', ''c''] = Inr g \<and>
     main_matmul (\<lambda>p. True) rounded [''mm'', ''a'', ''w'', ''c''] = Inr g' \<and> load g ''c'' = Inr c \<and> load g' ''c'' = Inr c"
proof -
  let ?a = "\<lparr>npy_shape = [1, 2], npy_data = [0x3F80, 0x4000]\<rparr>" and ?w = "\<lparr>npy_shape = [2, 1], npy_data = [0x4040, 0x3DCD]\<rparr>"
  let ?r = "?w\<lparr>npy_data := map (fp8_weight ''e4m3'') (npy_data ?w)\<rparr>"
  note sizes = in_i64_def npy_dict_def shape_tuple_def quoted_def int_to_string_def nat_to_string.simps [of 2]
    nat_to_string.simps [of "Suc 0"] npy_product_def
  obtain f1 where f1: "load f1 ''a'' = Inr ?a"
    using store_ok [of "[1, 2]" "[0x3F80, 0x4000]" "\<lambda>p. True" "''a''" Map.empty] by (auto simp: sizes)
  obtain f2 where f2: "load f2 ''w'' = Inr ?w" "\<forall>p. p \<noteq> ''w'' \<longrightarrow> f2 p = f1 p"
    using store_ok [of "[2, 1]" "[0x4040, 0x3DCD]" "\<lambda>p. True" "''w''" f1] by (auto simp: sizes)
  obtain f3 where f3: "load f3 ''w'' = Inr ?r" "\<forall>p. p \<noteq> ''w'' \<longrightarrow> f3 p = f1 p"
    using store_ok [of "[2, 1]" "npy_data ?r" "\<lambda>p. True" "''w''" f1] by (auto simp: sizes)
  have a: "load f2 ''a'' = Inr ?a" "load f3 ''a'' = Inr ?a" using f1 f2(2) f3(2) by (simp_all add: load_def read_npy_bf16_def)
  have fin: "\<forall>x \<in> set (npy_data ?w). fp_finite bfloat16 (unat x)" by (auto simp: fp_finite_def fp_decode_def bfloat16_def)
  have "\<exists>g g' c. main_quant (\<lambda>p. True) f2 [''q'', ''fp8sim'', ''e4m3'', ''a'', ''w'', ''c''] = Inr g \<and>
     main_matmul (\<lambda>p. True) f3 [''mm'', ''a'', ''w'', ''c''] = Inr g' \<and> load g ''c'' = Inr c \<and> load g' ''c'' = Inr c"
    by (rule fp8sim_rounds_weights [where K = 2 and N = 1 and M = 1, OF a(1) f2(1) _ _ _ _ _ _ fin _ _ _ a(2) f3(1)]) (simp_all add: sizes)
  then show ?thesis using f3(1) by - (rule exI [of _ f2], rule exI [of _ f3], simp)
qed

section \<open>int8 weights\<close>

text \<open>Each weight is scaled to fp32 before it enters the sum; only the result is rounded to bf16.\<close>

definition int8_spec :: "u16 list \<Rightarrow> string \<Rightarrow> string \<Rightarrow> nat \<Rightarrow> nat \<Rightarrow> nat \<Rightarrow> u16 list" where
  "int8_spec a wq sc M N K = tabulate M N (\<lambda>m n. float_to_bf16 (foldl (\<lambda>acc k. f32_add acc
     (f32_mul (bf16_to_float (a ! (m * K + k))) (f32_mul (f32_of_int (the (int8_at wq (k * N + n)))) (the (float_at sc n))))) 0 [0..<K]))"

lemma int8_loops_eq:
  assumes len: "M * K \<le> length a" "K * N \<le> length wq" "4 * N \<le> length sc" "length c = M * N"
  shows "int8_loops a wq sc c M N K = Some (int8_spec a wq sc M N K)"
  unfolding int8_loops_def int8_spec_def
proof (rule loop_rows_full)
  fix m n c' assume mn: "m < M" "n < N"
  have "4 * n + 3 < length sc" using mn(2) len(3) by linarith
  then have s: "float_at sc n = Some (the (float_at sc n))" by (simp add: float_at_def rd_def)
  have "loop K (\<lambda>k acc. rd a (m * K + k) \<bind> (\<lambda>x. int8_at wq (k * N + n) \<bind> (\<lambda>w.
      Some (f32_add acc (f32_mul (bf16_to_float x) (f32_mul (f32_of_int w) (the (float_at sc n)))))))) 0 =
    Some (foldl (\<lambda>acc k. f32_add acc (f32_mul (bf16_to_float (a ! (m * K + k)))
      (f32_mul (f32_of_int (the (int8_at wq (k * N + n)))) (the (float_at sc n))))) 0 [0..<K])"
  proof (rule loop_pure)
    fix k acc assume k: "k < K"
    have "m * K + k < length a" "k * N + n < length wq" using row_index [OF mn(1) len(1) k] row_index [OF k len(2) mn(2)] .
    then show "rd a (m * K + k) \<bind> (\<lambda>x. int8_at wq (k * N + n) \<bind> (\<lambda>w.
        Some (f32_add acc (f32_mul (bf16_to_float x) (f32_mul (f32_of_int w) (the (float_at sc n))))))) =
      Some (f32_add acc (f32_mul (bf16_to_float (a ! (m * K + k)))
        (f32_mul (f32_of_int (the (int8_at wq (k * N + n)))) (the (float_at sc n)))))"
      by (simp add: rd_def int8_at_def)
  qed
  then show "(float_at sc n \<bind> (\<lambda>s. loop K (\<lambda>k acc. rd a (m * K + k) \<bind> (\<lambda>x. int8_at wq (k * N + n) \<bind> (\<lambda>w.
      Some (f32_add acc (f32_mul (bf16_to_float x) (f32_mul (f32_of_int w) s)))))) 0 \<bind>
      (\<lambda>acc. wr c' (m * N + n) (float_to_bf16 acc)))) =
    wr c' (m * N + n) (float_to_bf16 (foldl (\<lambda>acc k. f32_add acc (f32_mul (bf16_to_float (a ! (m * K + k)))
      (f32_mul (f32_of_int (the (int8_at wq (k * N + n)))) (the (float_at sc n))))) 0 [0..<K]))"
    by (subst s) (simp only: Option.bind.simps)
qed (use len in simp)

lemma run_int8_eq:
  assumes "load files a_path = Inr a" "read_npy_raw files w_path ''|i1'' 1 = Inr wq" "read_npy_raw files s_path ''<f4'' 4 = Inr sc"
    and "2 \<le> length (npy_shape a)" "raw_shape wq = [K, N]" "raw_shape sc = [N]"
    and K: "last (npy_shape a) = K" "K \<noteq> 0" and M: "M = length (npy_data a) div nat K" "0 \<le> N" "M * nat N < 2 ^ 62"
    and len: "nat K * nat N \<le> length (raw_bytes wq)" "4 * nat N \<le> length (raw_bytes sc)"
  shows "main_quant can_open files [prog, ''int8'', a_path, w_path, s_path, c_path] =
    store can_open c_path (butlast (npy_shape a) @ [N]) (int8_spec (npy_data a) (raw_bytes wq) (raw_bytes sc) M (nat N) (nat K)) files"
proof -
  note d = quant_dims [OF assms(1,4) K M]
  have "int8_loops (npy_data a) (raw_bytes wq) (raw_bytes sc) (replicate (M * nat N) 0) M (nat N) (nat K) =
      Some (int8_spec (npy_data a) (raw_bytes wq) (raw_bytes sc) M (nat N) (nat K))"
    by (rule int8_loops_eq) (simp_all add: d(4) len)
  then show ?thesis
    using assms(2) by (simp add: main_quant_def run_int8_def assms(1,3,5,6) K d shape_at_def Let_def del: of_nat_mult)
qed

text \<open>The sizes of the payloads follow from the headers, products that wrap around apart.\<close>

lemma read_npy_raw_payload:
  assumes "read_npy_raw files path descr esz = Inr r"
  shows "\<exists>n. npy_product (raw_shape r) = Some n \<and> length (raw_bytes r) = raw_size n esz"
proof -
  have d: "defined x = Inr n \<longleftrightarrow> x = Some n" for x :: "int option" and n by (cases x) simp_all
  show ?thesis
    using assms by (auto simp: read_npy_raw_def read_raw_def Let_def rbind_Inr_iff d split: option.splits if_splits prod.splits)
qed

lemma raw_size_small: "0 \<le> n \<Longrightarrow> n * int esz < 2 ^ 64 \<Longrightarrow> 0 < esz \<Longrightarrow> raw_size n esz = nat n * esz"
proof -
  assume a: "0 \<le> n" "n * int esz < 2 ^ 64" "0 < esz"
  then have "n \<le> n * int esz" by (simp add: mult_le_cancel_left1)
  then show ?thesis using a by (simp add: raw_size_def nat_mult_distrib)
qed

end
