(* ===== verification/CudaInt8.thy ===== *)
theory CudaInt8
  imports GpuRun Quant
begin

text \<open>
  The int8 variant of the matrix product kernel, which \<open>Quantize.cpp\<close> emits
  (\<open>kernels/generated/matmul_int8.cu\<close>), and its GPU driver: the tile loop of CudaGemm on bf16 activations
  and int8 weights, which are scaled to fp32 as they are multiplied. The results: the kernel computes the
  CPU reference of Quant bit for bit where the scales are finite, and the driver leaves its files.
\<close>

section \<open>The kernel\<close>

text \<open>Shared memory holds a tile of each operand.\<close>

datatype cell = Activation u16 | Weight int

definition int8_load_A :: "device \<Rightarrow> u16 list \<Rightarrow> nat \<Rightarrow> nat \<Rightarrow> nat \<Rightarrow> nat \<Rightarrow> cell option" where
  "int8_load_A dev A M K row aCol =
     (if row < M \<and> aCol < K then map_option Activation (rd A (row * K + aCol)) else Some (Activation (float2bf16 dev 0)))"

definition int8_load_B :: "string \<Rightarrow> nat \<Rightarrow> nat \<Rightarrow> nat \<Rightarrow> nat \<Rightarrow> cell option" where
  "int8_load_B Wq K N bRow col =
     (if bRow < K \<and> col < N then map_option Weight (int8_at Wq (bRow * N + col)) else Some (Weight 0))"

definition int8_scale :: "string \<Rightarrow> nat \<Rightarrow> nat \<Rightarrow> nat \<Rightarrow> u32 option" where
  "int8_scale scale N bx tid =
     (let col = bx * kBlockN_gemm + tx tid in if col < N then float_at scale col else Some 0)"

definition int8_mac :: "device \<Rightarrow> u32 list \<Rightarrow> cell mac" where
  "int8_mac dev ss tid x y acc =
     (case (x, y) of
        (Activation a, Weight w) \<Rightarrow> Some (f32_add acc (f32_mul (bf162float dev a) (f32_mul (f32_of_int w) (ss ! tid))))
      | _ \<Rightarrow> None)"

definition matmul_int8_kernel :: "device \<Rightarrow> cell sched \<Rightarrow> cell list \<Rightarrow> u16 list \<Rightarrow> string \<Rightarrow> string \<Rightarrow> nat \<Rightarrow> nat \<Rightarrow> nat \<Rightarrow>
    nat \<Rightarrow> nat \<Rightarrow> u16 store list list option" where
  "matmul_int8_kernel dev tsched shared A Wq scale M N K by bx = do {
     ss \<leftarrow> those (map (int8_scale scale N bx) block_threads);
     gemm_block (int8_mac dev ss) tsched shared (int8_load_A dev A M K) (int8_load_B Wq K N) (matmul_store dev M N) K by bx
   }"

definition launch_matmul_int8 :: "device \<Rightarrow> u16 sched \<Rightarrow> cell sched \<Rightarrow> cell list \<Rightarrow> u16 list \<Rightarrow> string \<Rightarrow> string \<Rightarrow> u16 list \<Rightarrow>
    nat \<Rightarrow> nat \<Rightarrow> nat \<Rightarrow> u16 list option" where
  "launch_matmul_int8 dev sched tsched shared A Wq scale C M N K =
     grid_launch sched (matmul_int8_kernel dev tsched shared A Wq scale M N K) C M N K"

section \<open>What the kernel computes\<close>

definition int8_step :: "u32 \<Rightarrow> cell \<Rightarrow> cell \<Rightarrow> u32 \<Rightarrow> u32" where
  "int8_step s x y acc =
     (case (x, y) of (Activation a, Weight w) \<Rightarrow> f32_add acc (f32_mul (bf16_to_float a) (f32_mul (f32_of_int w) s)) | _ \<Rightarrow> acc)"

definition pad_A :: "u16 list \<Rightarrow> nat \<Rightarrow> nat \<Rightarrow> nat \<Rightarrow> nat \<Rightarrow> cell" where
  "pad_A A M K i k = Activation (padded A M K i k)"

definition pad_B :: "string \<Rightarrow> nat \<Rightarrow> nat \<Rightarrow> nat \<Rightarrow> nat \<Rightarrow> cell" where
  "pad_B Wq K N k j = Weight (if k < K \<and> j < N then the (int8_at Wq (k * N + j)) else 0)"

definition col_scale :: "string \<Rightarrow> nat \<Rightarrow> nat \<Rightarrow> u32" where
  "col_scale scale N j = (if j < N then the (float_at scale j) else 0)"

text \<open>The sum of the CPU reference for one element.\<close>

definition int8_dot :: "u16 list \<Rightarrow> string \<Rightarrow> string \<Rightarrow> nat \<Rightarrow> nat \<Rightarrow> nat \<Rightarrow> nat \<Rightarrow> u32" where
  "int8_dot A Wq scale N K i j = foldl (\<lambda>acc k. f32_add acc
     (f32_mul (bf16_to_float (A ! (i * K + k))) (f32_mul (f32_of_int (the (int8_at Wq (k * N + j)))) (the (float_at scale j))))) 0 [0..<K]"

lemma int8_spec_dot: "int8_spec A Wq scale M N K = tabulate M N (\<lambda>i j. float_to_bf16 (int8_dot A Wq scale N K i j))"
  by (simp add: int8_spec_def int8_dot_def)

lemma float_at_in: "4 * N \<le> length scale \<Longrightarrow> j < N \<Longrightarrow> float_at scale j = Some (the (float_at scale j))"
proof -
  assume "4 * N \<le> length scale" "j < N"
  then have "4 * j + 3 < length scale" by linarith
  then show ?thesis by (simp add: float_at_def rd_def)
qed

lemma int8_loads:
  assumes "ieee_device dev" "M * K \<le> length A" "K * N \<le> length Wq" "4 * N \<le> length scale"
  shows "int8_load_A dev A M K = (\<lambda>i k. Some (pad_A A M K i k))" "int8_load_B Wq K N = (\<lambda>k j. Some (pad_B Wq K N k j))"
    and "int8_scale scale N bx tid = Some (col_scale scale N (bx * 16 + tid mod 16))"
proof -
  show "int8_load_A dev A M K = (\<lambda>i k. Some (pad_A A M K i k))"
    using row_index [OF _ assms(2)] float2bf16_zero [OF assms(1)] by (auto simp: int8_load_A_def pad_A_def padded_def fun_eq_iff)
  show "int8_load_B Wq K N = (\<lambda>k j. Some (pad_B Wq K N k j))"
    using row_index [OF _ assms(3)] by (auto simp: int8_load_B_def pad_B_def int8_at_def rd_def fun_eq_iff)
  show "int8_scale scale N bx tid = Some (col_scale scale N (bx * 16 + tid mod 16))"
    using float_at_in [OF assms(4)] by (simp add: int8_scale_def col_scale_def Let_def gemm_consts)
qed

text \<open>The padding of the last tile multiplies zeros with the scale, which is a zero only if the scale is
  finite.\<close>

lemma f32_of_int_0: "f32_of_int 0 = 0"
  by (simp add: f32_of_int_def fp_of_int_def fp_round_def fp_round_mag_def fp_signed_def)

lemma f32_mul_zero_zero: "y = 0 \<or> y = 0x80000000 \<Longrightarrow> f32_mul 0 y = 0 \<or> f32_mul 0 y = 0x80000000"
  using zero_value [of y] f32_mul_zero_left [of y] by blast

lemma int8_pad_step:
  assumes "fp_finite binary32 (unat s)" "canonical acc"
  shows "int8_step s (Activation 0) (Weight 0) acc = acc"
proof -
  have "f32_mul (f32_of_int 0) s = 0 \<or> f32_mul (f32_of_int 0) s = 0x80000000"
    unfolding f32_of_int_0 by (rule f32_mul_zero_left [OF assms(1)])
  from f32_mul_zero_zero [OF this] show ?thesis
    using canonical_add_zero [OF assms(2)] by (auto simp: int8_step_def bf16_to_float_def)
qed

lemma int8_staged_fold:
  assumes "i < M" "j < N" "K \<le> n" and fin: "n = K \<or> fp_finite binary32 (unat (col_scale scale N j))"
  shows "staged_fold (int8_step (col_scale scale N j)) (pad_A A M K) (pad_B Wq K N) i j n = int8_dot A Wq scale N K i j"
proof -
  let ?h = "\<lambda>acc k. int8_step (col_scale scale N j) (pad_A A M K i k) (pad_B Wq K N k j) acc"
  have first: "foldl ?h 0 [0..<K] = int8_dot A Wq scale N K i j"
    unfolding int8_dot_def by (rule foldl_cong) (use assms in \<open>simp_all add: int8_step_def pad_A_def pad_B_def padded_def col_scale_def\<close>)
  have "foldl ?h (int8_dot A Wq scale N K i j) [K..<n] = int8_dot A Wq scale N K i j"
  proof (cases "n = K")
    case False
    have c: "canonical (int8_dot A Wq scale N K i j)" unfolding int8_dot_def by (rule canonical_dot)
    have "?h (int8_dot A Wq scale N K i j) k = int8_dot A Wq scale N K i j" if "k \<in> set [K..<n]" for k
      using int8_pad_step [OF _ c] fin False that by (simp add: pad_A_def pad_B_def padded_def)
    then show ?thesis by (induction n) simp_all
  qed simp
  then show ?thesis unfolding staged_fold_def upt_split_at [OF assms(3)] foldl_append first .
qed

lemma launch_matmul_int8_eq:
  assumes dev: "ieee_device dev" and sched: "fair sched" "fair tsched" and sh: "length shared = 512"
    and len: "M * K \<le> length A" "K * N \<le> length Wq" "4 * N \<le> length scale" "length C = M * N"
    and range: "in_i32 (int (M + 16))" "in_i32 (int (N + 16))" "in_i32 (int (K + 16))" "M \<le> 65535 * 16"
    and fin: "16 dvd K \<or> (\<forall>j < N. fp_finite binary32 (unat (the (float_at scale j))))"
  shows "launch_matmul_int8 dev sched tsched shared A Wq scale C M N K =
    Some (tabulate M N (\<lambda>i j. float2bf16 dev (int8_dot A Wq scale N K i j)))"
proof -
  note l = int8_loads [OF dev len(1-3)]
  let ?n = "(K + 15) div 16 * 16"
  let ?acc = "\<lambda>i j. staged_fold (int8_step (col_scale scale N j)) (pad_A A M K) (pad_B Wq K N) i j ?n"
  have kernel: "matmul_int8_kernel dev tsched shared A Wq scale M N K b x = Some (map (\<lambda>tid. let row = b * 16 + tid div 16; col = x * 16 + tid mod 16 in
        if row < M \<and> col < N then [(row * N + col, float2bf16 dev (?acc row col))] else []) [0..<256])" for b x
  proof -
    let ?ss = "map (\<lambda>tid. col_scale scale N (x * 16 + tid mod 16)) [0..<256]"
    have th: "block_threads = [0..<256]" by (simp add: gemm_consts)
    have ss: "those (map (int8_scale scale N x) block_threads) = Some ?ss" unfolding th by (rule those_map) (rule l(3))
    have mac: "int8_mac dev ?ss tid (pad_A A M K i k) (pad_B Wq K N k' j) acc =
        Some (int8_step (col_scale scale N (x * 16 + tid mod 16)) (pad_A A M K i k) (pad_B Wq K N k' j) acc)" if "tid < 256" for tid i k k' j acc
      using dev that by (simp add: int8_mac_def int8_step_def pad_A_def pad_B_def ieee_device_def)
    show ?thesis unfolding matmul_int8_kernel_def ss Option.bind.simps Let_def
      by (rule gemm_block_fold [where h = "\<lambda>tid. int8_step (col_scale scale N (x * 16 + tid mod 16))", OF mac sched(2) sh l(1,2)])
        (simp_all add: matmul_store_def)
  qed
  have "?acc i j = int8_dot A Wq scale N K i j" if "i < M" "j < N" for i j
  proof (rule int8_staged_fold [OF that])
    show "K \<le> ?n" by linarith
    show "?n = K \<or> fp_finite binary32 (unat (col_scale scale N j))"
    proof (cases "16 dvd K")
      case True
      then obtain q where "K = 16 * q" by (rule dvdE)
      then show ?thesis by simp
    next
      case False
      then show ?thesis using fin that(2) by (simp add: col_scale_def)
    qed
  qed
  then have "tabulate M N (\<lambda>i j. float2bf16 dev (?acc i j)) = tabulate M N (\<lambda>i j. float2bf16 dev (int8_dot A Wq scale N K i j))"
    by (intro tabulate_cong) simp
  with grid_launch_eq [where body = "matmul_int8_kernel dev tsched shared A Wq scale M N K", OF sched(1) len(4) range kernel]
  show ?thesis by (simp only: launch_matmul_int8_def)
qed

text \<open>With an infinite or NaN scale the zeros that pad the last tile do contribute: they turn the sum into a
  NaN, whatever the reference computes.\<close>

lemma f32_nan_decode: "fp_decode binary32 (unat (of_nat (fp_nan binary32) :: u32)) = FNan"
  by (simp add: fp_nan_def fp_inf_mag_def binary32_def fp_decode_def)

lemma f32_is_nan_decode: "f32_is_nan x \<longleftrightarrow> fp_decode binary32 (unat x) = FNan"
  by (simp add: f32_is_nan_def fp_is_nan_def)

lemma f32_nan_propagates:
  "f32_is_nan y \<Longrightarrow> f32_is_nan (f32_mul x y)" "f32_is_nan y \<Longrightarrow> f32_is_nan (f32_add x y)"
  "f32_is_nan x \<Longrightarrow> f32_is_nan (f32_add x y)"
  using f32_nan_decode
  by (auto simp: f32_is_nan_decode f32_mul_def fp_mul_def f32_add_def fp_add_def split: fpnum.split)

lemma zero_times_infinite: "\<not> fp_finite binary32 (unat s) \<Longrightarrow> f32_is_nan (f32_mul 0 s)"
proof -
  assume "\<not> fp_finite binary32 (unat s)"
  moreover have "fp_decode binary32 0 = FFin False 0 (- 149)" using zero_decode [of 0] by simp
  ultimately show ?thesis using f32_nan_decode
    by (cases "fp_decode binary32 (unat s)") (auto simp: f32_is_nan_decode f32_mul_def fp_mul_def fp_finite_def)
qed

lemma infinite_scale_nan:
  assumes "i < M" "j < N" "\<not> 16 dvd K" "\<not> fp_finite binary32 (unat (col_scale scale N j))"
  shows "f32_is_nan (staged_fold (int8_step (col_scale scale N j)) (pad_A A M K) (pad_B Wq K N) i j ((K + 15) div 16 * 16))"
proof -
  let ?s = "col_scale scale N j"
  let ?f = "\<lambda>n. staged_fold (int8_step ?s) (pad_A A M K) (pad_B Wq K N) i j n"
  have "f32_is_nan (f32_mul (bf16_to_float 0) (f32_mul (f32_of_int 0) ?s))"
    unfolding f32_of_int_0 by (intro f32_nan_propagates zero_times_infinite assms(4))
  then have pad: "f32_is_nan (?f (Suc n))" if "K \<le> n" for n
    using that by (simp add: staged_fold_def int8_step_def pad_A_def pad_B_def padded_def f32_nan_propagates)
  have "(K + 15) div 16 * 16 \<noteq> 0" "K < (K + 15) div 16 * 16" using assms(3) by presburger+
  then show ?thesis using pad [of "(K + 15) div 16 * 16 - 1"] by simp
qed

section \<open>The driver\<close>

text \<open>The second spelling leaves out the second character of the expected one.\<close>

definition read_npy_raw_run :: "files \<Rightarrow> string \<Rightarrow> string \<Rightarrow> nat \<Rightarrow> stop + npy_raw" where
  "read_npy_raw_run files path descr = read_raw (\<lambda>d. d = descr \<or> d = take 1 descr @ drop 2 descr) files path descr"

text \<open>Allocations are counted in elements of 16 bits.\<close>

definition upload_bytes :: "backend \<Rightarrow> string \<Rightarrow> stop + string" where
  "upload_bytes B bs = rbind (DevBuf B ((length bs + 1) div 2)) (\<lambda>d. copied B bs)"

definition run_gpu_int8 :: "backend \<Rightarrow> cell sched \<Rightarrow> cell list \<Rightarrow> (string \<Rightarrow> bool) \<Rightarrow> files \<Rightarrow> string list \<Rightarrow> stop + files" where
  "run_gpu_int8 B tsched shared can_open files argv =
     (if length argv \<noteq> 6 then Inl Usage
      else if argv ! 1 \<noteq> ''int8'' then Inl Usage
      else
        rbind (load files (argv ! 2)) (\<lambda>a.
        rbind (read_npy_raw_run files (argv ! 3) ''|i1'' 1) (\<lambda>wq.
        rbind (read_npy_raw_run files (argv ! 4) ''<f4'' 4) (\<lambda>sc.
        rbind (back_dim a) (\<lambda>K.
        rbind (npy_size a) (\<lambda>size.
        rbind (quotient size K) (\<lambda>M.
        rbind (shape_at (raw_shape wq) 1) (\<lambda>N.
        rbind (shape_at (raw_shape wq) 0) (\<lambda>Kw.
        if Kw \<noteq> K then Inl (Reject ''matmul_int8: contraction mismatch'')
        else rbind (shape_at (raw_shape sc) 0) (\<lambda>Ns.
        if Ns \<noteq> N then Inl (Reject ''matmul_int8: scale length'')
        else
          rbind (upload B a) (\<lambda>da.
          rbind (upload_bytes B (raw_bytes wq)) (\<lambda>dw.
          rbind (upload_bytes B (raw_bytes sc)) (\<lambda>ds.
          rbind (i64 (M * N)) (\<lambda>MN.
          rbind (result_buffer B MN) (\<lambda>dc.
          rbind (int_arg M) (\<lambda>m.
          rbind (int_arg N) (\<lambda>n.
          rbind (int_arg K) (\<lambda>k.
          rbind (defined (launch_matmul_int8 (be_device B) (be_sched B) tsched shared da dw ds dc m n k)) (\<lambda>dc.
          rbind (synced B dc) (\<lambda>dc.
          rbind (alloc MN) (\<lambda>host.
          if length dc < length host then Inl Undefined
          else rbind (copied B (take (length host) dc)) (\<lambda>host.
            store can_open (argv ! 5) (matmul_out_shape (npy_shape a) N) host files))))))))))))))))))))))"

definition main_gpu_int8 :: "backend \<Rightarrow> cell sched \<Rightarrow> cell list \<Rightarrow> (string \<Rightarrow> bool) \<Rightarrow> files \<Rightarrow> string list \<Rightarrow> (int \<times> files) option" where
  "main_gpu_int8 B tsched shared can_open files argv = exit_status files (run_gpu_int8 B tsched shared can_open files argv)"

section \<open>The GPU and the host\<close>

lemma read_raw_mono:
  assumes "read_raw accepts files path descr esz = Inr r" "\<And>d. accepts d \<Longrightarrow> accepts' d"
  shows "read_raw accepts' files path descr esz = Inr r"
proof -
  from assms(1) obtain s hlen rest d where s: "files path = Some s" "\<not> length s < 6" "take 6 s = kMagic"
    "raw_header (drop 6 s) = Inr (hlen, rest)"
    "quoted_after (take hlen rest @ replicate (hlen - length rest) (char_of (0 :: nat))) (quoted ''descr'') = Inr d" "accepts d"
    by (auto simp: read_raw_def Let_def rbind_Inr_iff split: option.splits if_splits prod.splits)
  then have "read_raw accepts' files path descr esz = read_raw accepts files path descr esz"
    using assms(2) by (simp add: read_raw_def Let_def)
  then show ?thesis using assms(1) by simp
qed

lemma read_raw_relaxed: "read_npy_raw files path descr esz = Inr r \<Longrightarrow> read_npy_raw_run files path descr esz = Inr r"
  unfolding read_npy_raw_def read_npy_raw_run_def by (erule read_raw_mono) simp

lemma step_upload_bytes: "backend_laws B \<Longrightarrow> step_to B (upload_bytes B bs) (\<lambda>d. d = bs)"
  unfolding upload_bytes_def by (rule step_bind [OF step_DevBuf]) (simp_all add: step_copied)

lemma raw_lengths:
  assumes "read_npy_raw files path descr esz = Inr r" "npy_product (raw_shape r) = Some (int n)" "n * esz < 2 ^ 64" "0 < esz"
  shows "length (raw_bytes r) = n * esz"
proof -
  have "int n * int esz < 2 ^ 64" using assms(3) by (simp flip: of_nat_mult)
  then show ?thesis using read_npy_raw_payload [OF assms(1)] assms(2,4) raw_size_small [of "int n" esz] by auto
qed

lemma run_gpu_int8_follows:
  assumes laws: "backend_laws B" "fair tsched" "length shared = 512" and l: "load files a_path = Inr a"
    and raw: "read_npy_raw files w_path ''|i1'' 1 = Inr wq" "read_npy_raw files s_path ''<f4'' 4 = Inr sc"
    and sh: "2 \<le> length (npy_shape a)" "raw_shape wq = [int K, int N]" "raw_shape sc = [int N]"
    and K: "last (npy_shape a) = int K" "K \<noteq> 0" and M: "M = length (npy_data a) div K"
    and range: "in_i32 (int M + 16)" "in_i32 (int N + 16)" "in_i32 (int K + 16)" "M \<le> 65535 * 16"
    and fin: "16 dvd K \<or> (\<forall>j < N. fp_finite binary32 (unat (the (float_at (raw_bytes sc) j))))"
    and nan: "\<And>i j. i < M \<Longrightarrow> j < N \<Longrightarrow> \<not> f32_is_nan (int8_dot (npy_data a) (raw_bytes wq) (raw_bytes sc) N K i j)"
  shows "follows B (main_quant can_open files [prog', ''int8'', a_path, w_path, s_path, c_path])
    (run_gpu_int8 B tsched shared can_open files [prog, ''int8'', a_path, w_path, s_path, c_path])"
proof -
  have lt: "M < 2 ^ 31" "N < 2 ^ 31" "K < 2 ^ 31" using range(1-3) by (simp_all add: in_i32_def)
  have MK: "M * N < 2 ^ 31 * 2 ^ 31" "K * N < 2 ^ 31 * 2 ^ 31"
    using mult_strict_mono' [OF lt(1,2)] mult_strict_mono' [OF lt(3,2)] by simp_all
  then have small: "M * nat (int N) < 2 ^ 62" "M * N < 2 ^ 62" by simp_all
  have "in_i64 (int K * int N)" "in_i64 (int K)" "in_i64 (int N)"
    using MK(2) range(2,3) by (simp_all add: in_i64_def in_i32_def flip: of_nat_mult)
  then have prod: "npy_product (raw_shape wq) = Some (int (K * N))" "npy_product (raw_shape sc) = Some (int N)"
    by (simp_all add: sh npy_product_def)
  have len: "length (raw_bytes wq) = K * N" "length (raw_bytes sc) = N * 4"
    using raw_lengths [OF raw(1) prod(1)] raw_lengths [OF raw(2) prod(2)] MK(2) range(2) by (simp_all add: in_i32_def)
  have M': "M = length (npy_data a) div nat (int K)" and K': "int K \<noteq> 0" and N': "0 \<le> int N" using M K(2) by simp_all
  note d = quant_dims [OF l sh(1) K(1) K' M' N' small(1), unfolded nat_int]
  let ?spec = "int8_spec (npy_data a) (raw_bytes wq) (raw_bytes sc) M N K"
  let ?c = "main_quant can_open files [prog', ''int8'', a_path, w_path, s_path, c_path]"
  have cpu: "?c = store can_open c_path (butlast (npy_shape a) @ [int N]) ?spec files"
    using run_int8_eq [OF l raw sh K(1) K' M' N' small(1)] len by simp
  have out: "launch_matmul_int8 (be_device B) (be_sched B) tsched shared (npy_data a) (raw_bytes wq) (raw_bytes sc) dc M N K = Some ?spec"
    if "length dc = M * N" for dc
  proof -
    have "launch_matmul_int8 (be_device B) (be_sched B) tsched shared (npy_data a) (raw_bytes wq) (raw_bytes sc) dc M N K =
        Some (tabulate M N (\<lambda>i j. float2bf16 (be_device B) (int8_dot (npy_data a) (raw_bytes wq) (raw_bytes sc) N K i j)))"
      by (rule launch_matmul_int8_eq) (use laws range d(4) len that fin in \<open>simp_all add: backend_laws_def\<close>)
    also have "tabulate M N (\<lambda>i j. float2bf16 (be_device B) (int8_dot (npy_data a) (raw_bytes wq) (raw_bytes sc) N K i j)) = ?spec"
      unfolding int8_spec_dot by (rule tabulate_cong) (use laws nan in \<open>simp add: backend_laws_def ieee_device_def\<close>)
    finally show ?thesis .
  qed
  have slen: "length ?spec = M * N" by (simp add: int8_spec_def)
  have gpu: "run_gpu_int8 B tsched shared can_open files [prog, ''int8'', a_path, w_path, s_path, c_path] =
      rbind (upload B a) (\<lambda>da. rbind (upload_bytes B (raw_bytes wq)) (\<lambda>dw. rbind (upload_bytes B (raw_bytes sc)) (\<lambda>ds.
      rbind (DevBuf B (M * N)) (\<lambda>dc.
      rbind (defined (launch_matmul_int8 (be_device B) (be_sched B) tsched shared da dw ds dc M N K)) (\<lambda>dc.
      rbind (synced B dc) (\<lambda>dc. if length dc < M * N then Inl Undefined
        else rbind (copied B (take (M * N) dc)) (\<lambda>host. store can_open c_path (matmul_out_shape (npy_shape a) (int N)) host files)))))))"
    using d(1-3,5,6) range small(2) K(1)
    by (simp add: run_gpu_int8_def l read_raw_relaxed [OF raw(1), simplified] read_raw_relaxed [OF raw(2)] back_dim_def shape_at_def sh
        int_arg_small result_buffer_small [simplified] del: of_nat_mult cong: if_cong)
  show ?thesis
    unfolding gpu
  proof (rule follows_bind [OF step_upload [OF laws(1)]], rule follows_bind [OF step_upload_bytes [OF laws(1)]],
      rule follows_bind [OF step_upload_bytes [OF laws(1)]], rule follows_bind [OF step_DevBuf [OF laws(1)]])
    fix da dw ds and dc :: "u16 list" assume v: "da = npy_data a" "dw = raw_bytes wq" "ds = raw_bytes sc" "length dc = M * N"
    show "follows B ?c (rbind (defined (launch_matmul_int8 (be_device B) (be_sched B) tsched shared da dw ds dc M N K)) (\<lambda>dc.
      rbind (synced B dc) (\<lambda>dc. if length dc < M * N then Inl Undefined
        else rbind (copied B (take (M * N) dc)) (\<lambda>host. store can_open c_path (matmul_out_shape (npy_shape a) (int N)) host files))))"
      unfolding v(1-3) out [OF v(4)] defined.simps rbind.simps
    proof (rule follows_bind [OF step_synced])
      fix dc assume dc: "dc = ?spec"
      show "follows B ?c (if length dc < M * N then Inl Undefined
        else rbind (copied B (take (M * N) dc)) (\<lambda>host. store can_open c_path (matmul_out_shape (npy_shape a) (int N)) host files))"
        unfolding dc slen if_not_P [OF less_irrefl]
        by (rule follows_bind [OF step_copied]) (simp add: cpu follows_def matmul_out_shape_def slen)
    qed
  qed
qed

text \<open>C39. The int8 product on a GPU and on the host: for readable operands of matching shapes within the
  limits of the grid, whose sums are numbers, and with finite scales (or a contraction dimension that is a
  multiple of the tile), the GPU driver leaves exactly the files and the exit status of the CPU driver, under
  every schedule and whatever shared and device memory held; only a failing call of the GPU runtime can
  change that, and then no file is touched and the exit status is 1.\<close>

theorem gpu_int8_follows_host:
  assumes "backend_laws B" "fair tsched" "length shared = 512" "load files a_path = Inr a"
    and "read_npy_raw files w_path ''|i1'' 1 = Inr wq" "read_npy_raw files s_path ''<f4'' 4 = Inr sc"
    and "2 \<le> length (npy_shape a)" "raw_shape wq = [int K, int N]" "raw_shape sc = [int N]"
    and "last (npy_shape a) = int K" "K \<noteq> 0" "M = length (npy_data a) div K"
    and "in_i32 (int M + 16)" "in_i32 (int N + 16)" "in_i32 (int K + 16)" "M \<le> 65535 * 16"
    and "16 dvd K \<or> (\<forall>j < N. fp_finite binary32 (unat (the (float_at (raw_bytes sc) j))))"
    and "\<And>i j. i < M \<Longrightarrow> j < N \<Longrightarrow> \<not> f32_is_nan (int8_dot (npy_data a) (raw_bytes wq) (raw_bytes sc) N K i j)"
  shows "main_gpu_int8 B tsched shared can_open files [prog, ''int8'', a_path, w_path, s_path, c_path] =
      exit_status files (main_quant can_open files [prog', ''int8'', a_path, w_path, s_path, c_path]) \<or>
    main_gpu_int8 B tsched shared can_open files [prog, ''int8'', a_path, w_path, s_path, c_path] = Some (1, files) \<and> \<not> never_fails B"
  using run_gpu_int8_follows [OF assms, of can_open prog' c_path prog] by (auto simp: follows_def main_gpu_int8_def)

text \<open>A file with a short header.\<close>

definition demo_raw :: "string \<Rightarrow> string \<Rightarrow> string" where
  "demo_raw header payload = kMagic @ [char_of (1 :: nat), char_of (0 :: nat), char_of (length header), char_of (0 :: nat)] @ header @ payload"

lemma read_demo_raw:
  assumes "files path = Some (demo_raw header payload)" "length header < 256" "quoted_after header (quoted ''descr'') = Inr descr"
    and "parse_shape_raw header = Inr sh" "npy_product sh = Some n" "length payload = raw_size n esz" "length payload < 2 ^ 63"
  shows "read_npy_raw files path descr esz = Inr \<lparr>raw_shape = sh, raw_bytes = payload\<rparr>"
proof -
  have l: "length kMagic = 6" by (simp add: kMagic_def)
  have "raw_header ([char_of (1 :: nat), char_of (0 :: nat), char_of (length header), char_of (0 :: nat)] @ header @ payload) =
      Inr (length header, header @ payload)"
    using assms(2) by (simp add: raw_header_def byte_def)
  then show ?thesis using assms by (simp add: read_npy_raw_def read_raw_def demo_raw_def l Let_def)
qed

definition w_header :: string where "w_header = quoted ''descr'' @ quoted ''|i1'' @ quoted ''shape'' @ ''(1,1)''"
definition s_header :: string where "s_header = quoted ''descr'' @ quoted ''<f4'' @ quoted ''shape'' @ ''(1,)''"

lemma demo_headers:
  "quoted_after w_header (quoted ''descr'') = Inr ''|i1''" "parse_shape_raw w_header = Inr [1, 1]"
  "quoted_after s_header (quoted ''descr'') = Inr ''<f4''" "parse_shape_raw s_header = Inr [1]"
  by code_simp+

lemma demo_dot: "\<not> f32_is_nan (int8_dot [0] [char_of (3 :: nat)] (replicate 4 (char_of (0 :: nat))) 1 1 0 0)"
proof -
  have s: "float_at (replicate 4 (char_of (0 :: nat))) 0 = Some 0" by (simp add: float_at_def rd_def byte_def)
  have w: "int8_at [char_of (3 :: nat)] 0 = Some 3" by (simp add: int8_at_def rd_def byte_def)
  obtain m e where d: "fp_decode binary32 (unat (f32_of_int 3)) = FFin False m e" using pos_val_int [of 3] by (auto simp: pos_val_def)
  have "f32_mul (f32_of_int 3) 0 = f32_mul 0 (f32_of_int 3)"
    using zero_decode [of 0] by (simp add: f32_mul_def fp_mul_def d add.commute)
  then have z: "f32_mul (f32_of_int 3) 0 = 0 \<or> f32_mul (f32_of_int 3) 0 = 0x80000000"
    using f32_mul_zero_left [OF fp_finite_val [OF d, THEN conjunct1]] by simp
  have "int8_dot [0] [char_of (3 :: nat)] (replicate 4 (char_of (0 :: nat))) 1 1 0 0 = f32_add 0 (f32_mul 0 (f32_mul (f32_of_int 3) 0))"
    by (simp add: int8_dot_def s w bf16_to_float_def)
  also have "\<dots> = 0" by (rule canonical_add_zero [OF canonical_0 f32_mul_zero_zero [OF z]])
  finally show ?thesis by (simp add: f32_is_nan_decode fp_decode_def binary32_def)
qed

theorem gpu_int8_follows_host_witness:
  "\<exists>files. main_gpu_int8 host_backend in_order (replicate 512 (Weight 7)) (\<lambda>p. True) files [''run'', ''int8'', ''a'', ''w'', ''s'', ''c''] =
     exit_status files (main_quant (\<lambda>p. True) files [''q'', ''int8'', ''a'', ''w'', ''s'', ''c''])"
proof -
  let ?a = "\<lparr>npy_shape = [1, 1], npy_data = [0]\<rparr>"
  obtain f1 where f1: "load f1 ''a'' = Inr ?a"
    using store_ok [of "[1, 1]" "[0]" "\<lambda>p. True" "''a''" Map.empty]
    by (auto simp: in_i64_def npy_dict_def shape_tuple_def quoted_def int_to_string_def nat_to_string.simps [of "Suc 0"] npy_product_def)
  let ?f = "f1(''w'' \<mapsto> demo_raw w_header [char_of (3 :: nat)], ''s'' \<mapsto> demo_raw s_header (replicate 4 (char_of (0 :: nat))))"
  have l: "load ?f ''a'' = Inr ?a" using f1 by (simp add: load_def read_npy_bf16_def)
  have hl: "length w_header < 256" "length s_header < 256" by (simp_all add: w_header_def s_header_def quoted_def)
  have r1: "read_npy_raw ?f ''w'' ''|i1'' 1 = Inr \<lparr>raw_shape = [1, 1], raw_bytes = [char_of (3 :: nat)]\<rparr>"
    by (rule read_demo_raw [where n = 1 and header = w_header]) (simp_all add: hl demo_headers raw_size_def npy_product_def in_i64_def)
  have r2: "read_npy_raw ?f ''s'' ''<f4'' 4 = Inr \<lparr>raw_shape = [1], raw_bytes = replicate 4 (char_of (0 :: nat))\<rparr>"
    by (rule read_demo_raw [where n = 1 and header = s_header]) (simp_all add: hl demo_headers raw_size_def npy_product_def in_i64_def)
  have fin: "\<forall>j < 1. fp_finite binary32 (unat (the (float_at (replicate 4 (char_of (0 :: nat))) j)))"
    by (auto simp: float_at_def rd_def byte_def fp_finite_def fp_decode_def binary32_def)
  from gpu_int8_follows_host [OF host_backend_laws(1) fair_in_order _ l r1 r2, of "replicate 512 (Weight 7)" 1 1 1 "\<lambda>p. True" "''run''" "''c''" "''q''"]
  show ?thesis using fin demo_dot host_backend_laws(2) by (intro exI [of _ ?f]) (simp add: in_i32_def)
qed

section \<open>Code generation\<close>

text \<open>The choice of the source to emit; the two simulated paths emit a comment, with no kernel in it.\<close>

datatype QuantPath = Int8WeightOnly | Fp8SimE4M3 | Fp8SimE5M2

fun quantPathName :: "QuantPath \<Rightarrow> string" where
  "quantPathName Int8WeightOnly = ''int8_weight_only''"
| "quantPathName Fp8SimE4M3 = ''fp8_sim_e4m3''"
| "quantPathName Fp8SimE5M2 = ''fp8_sim_e5m2''"

datatype emitted = MatMulInt8 | Fp8SimNote QuantPath string string

fun emitQuantizeCuda :: "QuantPath \<Rightarrow> emitted" where
  "emitQuantizeCuda Int8WeightOnly = MatMulInt8"
| "emitQuantizeCuda Fp8SimE4M3 = Fp8SimNote Fp8SimE4M3 ''e4m3'' ''e4m3fn''"
| "emitQuantizeCuda Fp8SimE5M2 = Fp8SimNote Fp8SimE5M2 ''e5m2'' ''e5m2''"

text \<open>The format a note names is one the CPU reference accepts.\<close>

lemma emitted_formats_known:
  "emitQuantizeCuda p = Fp8SimNote p' fmt dtype \<Longrightarrow> \<exists>r. fp8_sim x fmt = Inr r"
  by (cases p) (auto simp: fp8_sim_def)

end
