(* ===== verification/CudaAttention.thy ===== *)
theory CudaAttention
  imports Warp Attention CudaGemm
begin

text \<open>
  The GPU kernels of attention (\<open>attention_prefill.cu\<close>: tiled attention with an online softmax;
  \<open>kv_cache_update.cu\<close>: the cache append). The arithmetic of the attention kernel is a parameter: on
  \<open>float\<close> it is the kernel, and on the reals it shows that the tiles and their rescaling compute softmax
  attention. The update of a tile is not separated by barriers: its lanes run step by step in an order the
  hardware picks.
\<close>

section \<open>Arithmetic\<close>

record ('n, 'o) arith =
  ar_widen :: "u16 \<Rightarrow> 'n"
  ar_store :: "'n \<Rightarrow> 'o"
  ar_zero :: 'n
  ar_lowest :: 'n
  ar_add :: "'n \<Rightarrow> 'n \<Rightarrow> 'n"
  ar_sub :: "'n \<Rightarrow> 'n \<Rightarrow> 'n"
  ar_mul :: "'n \<Rightarrow> 'n \<Rightarrow> 'n"
  ar_div :: "'n \<Rightarrow> 'n \<Rightarrow> 'n"
  ar_max :: "'n \<Rightarrow> 'n \<Rightarrow> 'n"
  ar_exp :: "'n \<Rightarrow> 'n"
  ar_is_lowest :: "'n \<Rightarrow> bool"
  ar_positive :: "'n \<Rightarrow> bool"

text \<open>\<open>-FLT_MAX\<close>\<close>

definition flt_lowest :: u32 where "flt_lowest = 0xFF7FFFFF"

definition float_arith :: "device \<Rightarrow> (u32, u16) arith" where
  "float_arith dev = \<lparr>ar_widen = bf162float dev, ar_store = float2bf16 dev, ar_zero = 0, ar_lowest = flt_lowest,
     ar_add = f32_add, ar_sub = f32_sub, ar_mul = f32_mul, ar_div = f32_div, ar_max = fmaxf, ar_exp = dev_expf dev,
     ar_is_lowest = (\<lambda>x. x = flt_lowest), ar_positive = f32_lt 0\<rparr>"

section \<open>The scores of a tile\<close>

definition kKeyTile :: nat where "kKeyTile = 32"
definition kMaxWarps :: nat where "kMaxWarps = 32"

text \<open>The barriers of the reduction separate its phases; only thread 0 uses the broadcast result.\<close>

definition block_reduce_sum_broadcast :: "('n, 'o) arith \<Rightarrow> 'n list \<Rightarrow> 'n option" where
  "block_reduce_sum_broadcast A vals =
     (let nwarps = (length vals + PK_WARP_SIZE - 1) div PK_WARP_SIZE;
          v = butterfly (ar_add A) (PK_WARP_SIZE div 2) vals
      in if kMaxWarps < nwarps then None
         else Some (butterfly (ar_add A) (PK_WARP_SIZE div 2)
           (map (\<lambda>t. if t < nwarps then v ! (PK_WARP_SIZE * t) else ar_zero A) [0..<PK_WARP_SIZE]) ! 0))"

definition lane_query :: "('n, 'o) arith \<Rightarrow> u16 list \<Rightarrow> nat \<Rightarrow> nat \<Rightarrow> nat \<Rightarrow> 'n option" where
  "lane_query A Q D rowBase t = (if t < D then map_option (ar_widen A) (rd Q (rowBase + t)) else Some (ar_zero A))"

definition contribution :: "('n, 'o) arith \<Rightarrow> 'n list \<Rightarrow> u16 list \<Rightarrow> nat \<Rightarrow> int \<Rightarrow> nat \<Rightarrow> nat \<Rightarrow> nat \<Rightarrow> 'n option" where
  "contribution A q_reg K D limit kvBase j t =
     (if t < D \<and> int j \<le> limit then map_option (\<lambda>k. ar_mul A (q_reg ! t) (ar_widen A k)) (rd K (kvBase + j * D + t))
      else Some (ar_zero A))"

definition tile_scores :: "('n, 'o) arith \<Rightarrow> 'n list \<Rightarrow> u16 list \<Rightarrow> nat \<Rightarrow> int \<Rightarrow> nat \<Rightarrow> 'n \<Rightarrow> nat \<Rightarrow> nat \<Rightarrow> 'n list option" where
  "tile_scores A q_reg K D limit kvBase scale t0 tileLen =
     those (map (\<lambda>jj. do {
       cs \<leftarrow> those (map (contribution A q_reg K D limit kvBase (t0 + jj)) [0..<length q_reg]);
       dot \<leftarrow> block_reduce_sum_broadcast A cs;
       Some (if int (t0 + jj) \<le> limit then ar_mul A dot scale else ar_lowest A)
     }) [0..<tileLen])"

section \<open>The update of a tile\<close>

text \<open>Where a lane is: the loop over the maximum, the read and the write of the loop over the weights, the
  loop over the values.\<close>

datatype 'n pc = MaxAt nat | ReadAt nat | WriteAt nat 'n | AccAt nat | Finished

record 'n lane =
  l_pc :: "'n pc"
  l_max :: 'n
  l_sum :: 'n
  l_out :: 'n
  l_tile_max :: 'n
  l_new :: 'n
  l_correction :: 'n
  l_tile_sum :: 'n

definition lane_step :: "('n, 'o) arith \<Rightarrow> nat \<Rightarrow> (nat \<Rightarrow> 'n option) \<Rightarrow> 'n lane \<Rightarrow> 'n list \<Rightarrow> ('n lane \<times> 'n list) option" where
  "lane_step A tileLen value me sm =
     (case l_pc me of
        MaxAt jj \<Rightarrow>
          if jj < tileLen
          then map_option (\<lambda>s. (me\<lparr>l_pc := MaxAt (Suc jj), l_tile_max := ar_max A (l_tile_max me) s\<rparr>, sm)) (rd sm jj)
          else let m_new = ar_max A (l_max me) (l_tile_max me)
               in Some (me\<lparr>l_pc := ReadAt 0, l_new := m_new, l_tile_sum := ar_zero A,
                    l_correction := (if ar_is_lowest A (l_max me) then ar_zero A else ar_exp A (ar_sub A (l_max me) m_new))\<rparr>, sm)
      | ReadAt jj \<Rightarrow>
          if jj < tileLen
          then map_option (\<lambda>s. (me\<lparr>l_pc := WriteAt jj (ar_exp A (ar_sub A s (l_new me)))\<rparr>, sm)) (rd sm jj)
          else Some (me\<lparr>l_pc := AccAt 0, l_sum := ar_add A (ar_mul A (l_sum me) (l_correction me)) (l_tile_sum me),
                 l_out := ar_mul A (l_out me) (l_correction me)\<rparr>, sm)
      | WriteAt jj w \<Rightarrow>
          map_option (\<lambda>sm. (me\<lparr>l_pc := ReadAt (Suc jj), l_tile_sum := ar_add A (l_tile_sum me) w\<rparr>, sm)) (wr sm jj w)
      | AccAt jj \<Rightarrow>
          if jj < tileLen
          then do {
            w \<leftarrow> rd sm jj;
            v \<leftarrow> value jj;
            Some (me\<lparr>l_pc := AccAt (Suc jj), l_out := ar_add A (l_out me) (ar_mul A w v)\<rparr>, sm)
          }
          else Some (me\<lparr>l_pc := Finished, l_max := l_new me\<rparr>, sm)
      | Finished \<Rightarrow> Some (me, sm))"

text \<open>A schedule names the thread that takes the next step.\<close>

fun run_lanes :: "('n, 'o) arith \<Rightarrow> nat \<Rightarrow> (nat \<Rightarrow> nat \<Rightarrow> 'n option) \<Rightarrow> nat list \<Rightarrow> 'n lane list \<Rightarrow> 'n list \<Rightarrow>
    ('n lane list \<times> 'n list) option" where
  "run_lanes A tileLen values [] lanes sm = Some (lanes, sm)"
| "run_lanes A tileLen values (t # order) lanes sm =
     (if t < length lanes
      then case lane_step A tileLen (values t) (lanes ! t) sm of
             None \<Rightarrow> None
           | Some (me, sm) \<Rightarrow> run_lanes A tileLen values order (lanes[t := me]) sm
      else None)"

definition lane_value :: "('n, 'o) arith \<Rightarrow> u16 list \<Rightarrow> nat \<Rightarrow> nat \<Rightarrow> nat \<Rightarrow> nat \<Rightarrow> nat \<Rightarrow> 'n option" where
  "lane_value A V D kvBase t0 t jj =
     (if t < D then map_option (ar_widen A) (rd V (kvBase + (t0 + jj) * D + t)) else Some (ar_zero A))"

definition attention_tile :: "('n, 'o) arith \<Rightarrow> (nat \<Rightarrow> nat list) \<Rightarrow> 'n list \<Rightarrow> u16 list \<Rightarrow> u16 list \<Rightarrow> nat \<Rightarrow> nat \<Rightarrow> int \<Rightarrow> nat \<Rightarrow> 'n \<Rightarrow>
    nat \<Rightarrow> 'n lane list \<Rightarrow> 'n lane list option" where
  "attention_tile A order q_reg K V S_kv D limit kvBase scale tile lanes =
     (let t0 = tile * kKeyTile; tileLen = min kKeyTile (S_kv - t0)
      in do {
           scores \<leftarrow> tile_scores A q_reg K D limit kvBase scale t0 tileLen;
           (lanes, sm) \<leftarrow> run_lanes A tileLen (lane_value A V D kvBase t0) (order tile)
             (map (\<lambda>me. me\<lparr>l_pc := MaxAt 0, l_tile_max := ar_lowest A\<rparr>) lanes) scores;
           if list_all (\<lambda>me. l_pc me = Finished) lanes then Some lanes else None
         })"

section \<open>The kernel\<close>

definition new_lane :: "('n, 'o) arith \<Rightarrow> 'n lane" where
  "new_lane A = \<lparr>l_pc = Finished, l_max = ar_lowest A, l_sum = ar_zero A, l_out = ar_zero A, l_tile_max = ar_lowest A,
     l_new = ar_lowest A, l_correction = ar_zero A, l_tile_sum = ar_zero A\<rparr>"

definition key_limit :: "bool \<Rightarrow> nat \<Rightarrow> nat \<Rightarrow> nat \<Rightarrow> int" where
  "key_limit causal S_q S_kv i = (if causal then int S_kv - int S_q + int i else int S_kv - 1)"

definition attention_prefill_kernel :: "('n, 'o) arith \<Rightarrow> (nat \<Rightarrow> nat list) \<Rightarrow> u16 list \<Rightarrow> u16 list \<Rightarrow> u16 list \<Rightarrow>
    nat \<Rightarrow> nat \<Rightarrow> nat \<Rightarrow> 'n \<Rightarrow> bool \<Rightarrow> nat \<Rightarrow> nat \<Rightarrow> nat \<Rightarrow> 'o store list list option" where
  "attention_prefill_kernel A order Q K V S_q S_kv D scale causal nthreads bh i =
     (let rowBase = (bh * S_q + i) * D;
          kvBase = bh * S_kv * D;
          limit = key_limit causal S_q S_kv i
      in if \<not> in_i32 (int ((S_kv + kKeyTile - 1) div kKeyTile * kKeyTile)) then None
         else do {
           q_reg \<leftarrow> those (map (lane_query A Q D rowBase) [0..<nthreads]);
           lanes \<leftarrow> loop ((S_kv + kKeyTile - 1) div kKeyTile) (attention_tile A order q_reg K V S_kv D limit kvBase scale)
             (replicate nthreads (new_lane A));
           Some (map (\<lambda>t. let me = lanes ! t in
             if t < D then [(rowBase + t, ar_store A (if ar_positive A (l_sum me) then ar_div A (l_out me) (l_sum me) else ar_zero A))]
             else []) [0..<nthreads])
         })"

text \<open>\<open>D + 31\<close> and \<open>B * H\<close> are \<open>int\<close>. An empty grid or block, more than 1024 threads and more than 65535 rows of blocks are rejected by the
  runtime, which \<open>PK_CHECK\<close> only prints.\<close>

definition launch_attention_prefill :: "('n, 'o) arith \<Rightarrow> 'o sched \<Rightarrow> (nat \<Rightarrow> nat \<Rightarrow> nat list) \<Rightarrow> u16 list \<Rightarrow> u16 list \<Rightarrow> u16 list \<Rightarrow> 'o list \<Rightarrow>
    nat \<Rightarrow> nat \<Rightarrow> nat \<Rightarrow> nat \<Rightarrow> nat \<Rightarrow> 'n \<Rightarrow> bool \<Rightarrow> 'o list option" where
  "launch_attention_prefill A sched orders Q K V out B H S_q S_kv D scale causal =
     (let nthreads = (D + PK_WARP_SIZE - 1) div PK_WARP_SIZE * PK_WARP_SIZE
      in if \<not> (in_i32 (int (D + PK_WARP_SIZE - 1)) \<and> in_i32 (int (B * H))) then None
         else if nthreads = 0 \<or> 1024 < nthreads \<or> S_q = 0 \<or> B * H = 0 \<or> 65535 < B * H then Some out
         else do {
           blocks \<leftarrow> those (map (\<lambda>b. attention_prefill_kernel A (orders b) Q K V S_q S_kv D scale causal nthreads (b div S_q) (b mod S_q))
             [0..<B * H * S_q]);
           apply_stores out (sched [] (concat blocks))
         })"

section \<open>Lanes in lockstep\<close>

text \<open>Every lane takes its next step before any lane takes the one after.\<close>

definition rounds :: "nat \<Rightarrow> nat \<Rightarrow> nat list" where
  "rounds k n = concat (replicate k [0..<n])"

definition lockstep :: "nat \<Rightarrow> nat \<Rightarrow> nat list" where
  "lockstep tileLen n = rounds (4 * tileLen + 3) n"

lemma run_lanes_append:
  "run_lanes A L v (xs @ ys) lanes sm =
    (case run_lanes A L v xs lanes sm of None \<Rightarrow> None | Some (lanes, sm) \<Rightarrow> run_lanes A L v ys lanes sm)"
  by (induction A L v xs lanes sm rule: run_lanes.induct) (auto split: option.splits)

lemma rounds_add: "rounds (j + k) n = rounds j n @ rounds k n"
  by (simp add: rounds_def replicate_add)

lemma rounds_1: "rounds (Suc 0) n = [0..<n]"
  by (simp add: rounds_def)

lemma run_rounds:
  assumes "run_lanes A L v (rounds j n) lanes sm = Some (lanes', sm')" "run_lanes A L v (rounds k n) lanes' sm' = r"
  shows "run_lanes A L v (rounds (j + k) n) lanes sm = r"
  using assms by (simp add: rounds_add run_lanes_append)

text \<open>A round in which each lane's step does not depend on whether other lanes have taken theirs.\<close>

lemma one_round:
  assumes "length lanes = n" "0 < n"
    and before: "\<And>t. t < n \<Longrightarrow> lane_step A L (v t) (lanes ! t) sm = Some (nxt t, sm')"
    and after: "\<And>t. t < n \<Longrightarrow> lane_step A L (v t) (lanes ! t) sm' = Some (nxt t, sm')"
  shows "run_lanes A L v (rounds (Suc 0) n) lanes sm = Some (map nxt [0..<n], sm')"
proof -
  have "run_lanes A L v [0..<k] lanes sm = Some (map nxt [0..<k] @ drop k lanes, if k = 0 then sm else sm')" if "k \<le> n" for k
    using that
  proof (induction k)
    case (Suc k)
    let ?ls = "map nxt [0..<k] @ drop k lanes"
    have k: "k < n" "k < length ?ls" "?ls ! k = lanes ! k" using Suc.prems assms(1) by (simp_all add: nth_append)
    have "lane_step A L (v k) (?ls ! k) (if k = 0 then sm else sm') = Some (nxt k, sm')"
      using before [OF k(1)] after [OF k(1)] unfolding k(3) by (cases "k = 0") simp_all
    moreover have "?ls[k := nxt k] = map nxt [0..<Suc k] @ drop (Suc k) lanes"
      using k(1) assms(1) by (simp add: list_update_append Cons_nth_drop_Suc [symmetric])
    moreover have "run_lanes A L v [0..<k] lanes sm = Some (?ls, if k = 0 then sm else sm')" using Suc by simp
    ultimately show ?case using k(2) by (simp add: run_lanes_append)
  qed simp
  from this [of n] show ?thesis using assms(1,2) by (simp add: rounds_1)
qed

text \<open>Lanes that differ in their part of the output only.\<close>

definition lanes_of :: "nat \<Rightarrow> 'n lane \<Rightarrow> (nat \<Rightarrow> 'n) \<Rightarrow> 'n lane list" where
  "lanes_of n me out = map (\<lambda>t. me\<lparr>l_out := out t\<rparr>) [0..<n]"

lemma lanes_round:
  assumes "0 < n"
    and "\<And>t s. t < n \<Longrightarrow> s \<in> {sm, sm'} \<Longrightarrow> lane_step A L (v t) (me\<lparr>l_out := out t\<rparr>) s = Some (me'\<lparr>l_out := out' t\<rparr>, sm')"
  shows "run_lanes A L v (rounds (Suc 0) n) (lanes_of n me out) sm = Some (lanes_of n me' out', sm')"
  unfolding lanes_of_def by (rule one_round) (use assms in simp_all)

lemma max_rounds:
  assumes "0 < n" "length sm = L" "k \<le> L"
  shows "run_lanes A L v (rounds k n) (lanes_of n (me\<lparr>l_pc := MaxAt 0, l_tile_max := x\<rparr>) out) sm =
    Some (lanes_of n (me\<lparr>l_pc := MaxAt k, l_tile_max := foldl (ar_max A) x (take k sm)\<rparr>) out, sm)"
  using assms(3)
proof (induction k)
  case (Suc k)
  have "run_lanes A L v (rounds (k + Suc 0) n) (lanes_of n (me\<lparr>l_pc := MaxAt 0, l_tile_max := x\<rparr>) out) sm =
      Some (lanes_of n (me\<lparr>l_pc := MaxAt (Suc k), l_tile_max := foldl (ar_max A) x (take (Suc k) sm)\<rparr>) out, sm)"
    by (rule run_rounds [OF Suc.IH], use Suc.prems in simp, rule lanes_round)
      (use assms Suc.prems in \<open>auto simp: lane_step_def rd_def take_Suc_conv_app_nth\<close>)
  then show ?case by simp
qed (simp add: rounds_def)

lemma weight_rounds:
  fixes A :: "('n, 'o) arith" and scores :: "'n list"
  defines "w \<equiv> \<lambda>me s. ar_exp A (ar_sub A s (l_new me))"
  assumes "0 < n" "length scores = L" "k \<le> L"
  shows "run_lanes A L v (rounds (2 * k) n) (lanes_of n (me\<lparr>l_pc := ReadAt 0, l_tile_sum := x\<rparr>) out) scores =
    Some (lanes_of n (me\<lparr>l_pc := ReadAt k, l_tile_sum := foldl (ar_add A) x (map (w me) (take k scores))\<rparr>) out,
      map (w me) (take k scores) @ drop k scores)"
  using assms(4)
proof (induction k)
  case (Suc k)
  let ?sm = "map (w me) (take k scores) @ drop k scores" and ?x = "foldl (ar_add A) x (map (w me) (take k scores))"
  have sm: "length ?sm = L" "?sm ! k = scores ! k" using Suc.prems assms(3) by (simp_all add: nth_append)
  have upd: "?sm[k := w me (scores ! k)] = map (w me) (take (Suc k) scores) @ drop (Suc k) scores"
    using Suc.prems assms(3) by (simp add: list_update_append Cons_nth_drop_Suc [symmetric] take_Suc_conv_app_nth)
  have read: "run_lanes A L v (rounds (Suc 0) n) (lanes_of n (me\<lparr>l_pc := ReadAt k, l_tile_sum := ?x\<rparr>) out) ?sm =
      Some (lanes_of n (me\<lparr>l_pc := WriteAt k (w me (scores ! k)), l_tile_sum := ?x\<rparr>) out, ?sm)"
    by (rule lanes_round) (use assms(2) Suc.prems sm in \<open>auto simp: lane_step_def rd_def w_def\<close>)
  have written: "run_lanes A L v (rounds (Suc 0) n) (lanes_of n (me\<lparr>l_pc := WriteAt k (w me (scores ! k)), l_tile_sum := ?x\<rparr>) out) ?sm =
      Some (lanes_of n (me\<lparr>l_pc := ReadAt (Suc k), l_tile_sum := foldl (ar_add A) x (map (w me) (take (Suc k) scores))\<rparr>) out,
        ?sm[k := w me (scores ! k)])"
    by (rule lanes_round) (use assms(2,3) Suc.prems sm in \<open>auto simp: lane_step_def wr_def take_Suc_conv_app_nth\<close>)
  have "run_lanes A L v (rounds (2 * k + (Suc 0 + Suc 0)) n) (lanes_of n (me\<lparr>l_pc := ReadAt 0, l_tile_sum := x\<rparr>) out) scores =
      Some (lanes_of n (me\<lparr>l_pc := ReadAt (Suc k), l_tile_sum := foldl (ar_add A) x (map (w me) (take (Suc k) scores))\<rparr>) out,
        ?sm[k := w me (scores ! k)])"
    by (rule run_rounds [OF Suc.IH run_rounds [OF read written]]) (use Suc.prems in simp)
  then show ?case unfolding upd by simp
qed (simp add: rounds_def)

lemma value_rounds:
  assumes "0 < n" "length sm = L" "k \<le> L" "\<And>t jj. t < n \<Longrightarrow> jj < L \<Longrightarrow> v t jj = Some (x t jj)"
  shows "run_lanes A L v (rounds k n) (lanes_of n (me\<lparr>l_pc := AccAt 0\<rparr>) out) sm =
    Some (lanes_of n (me\<lparr>l_pc := AccAt k\<rparr>) (\<lambda>t. foldl (\<lambda>acc jj. ar_add A acc (ar_mul A (sm ! jj) (x t jj))) (out t) [0..<k]), sm)"
  using assms(3)
proof (induction k)
  case (Suc k)
  have "run_lanes A L v (rounds (k + Suc 0) n) (lanes_of n (me\<lparr>l_pc := AccAt 0\<rparr>) out) sm =
      Some (lanes_of n (me\<lparr>l_pc := AccAt (Suc k)\<rparr>)
        (\<lambda>t. foldl (\<lambda>acc jj. ar_add A acc (ar_mul A (sm ! jj) (x t jj))) (out t) [0..<Suc k]), sm)"
    by (rule run_rounds [OF Suc.IH], use Suc.prems in simp, rule lanes_round)
      (use assms Suc.prems in \<open>auto simp: lane_step_def rd_def\<close>)
  then show ?case by simp
qed (simp add: rounds_def)

text \<open>What a tile computes in lockstep: the state of all lanes, from the running maximum \<open>m\<close> and sum \<open>l\<close> and
  the lanes' outputs.\<close>

definition tile_new :: "('n, 'o) arith \<Rightarrow> 'n \<Rightarrow> 'n list \<Rightarrow> 'n" where
  "tile_new A m scores = ar_max A m (foldl (ar_max A) (ar_lowest A) scores)"

definition tile_correction :: "('n, 'o) arith \<Rightarrow> 'n \<Rightarrow> 'n list \<Rightarrow> 'n" where
  "tile_correction A m scores = (if ar_is_lowest A m then ar_zero A else ar_exp A (ar_sub A m (tile_new A m scores)))"

definition tile_weights :: "('n, 'o) arith \<Rightarrow> 'n \<Rightarrow> 'n list \<Rightarrow> 'n list" where
  "tile_weights A m scores = map (\<lambda>s. ar_exp A (ar_sub A s (tile_new A m scores))) scores"

definition tile_sum :: "('n, 'o) arith \<Rightarrow> 'n \<Rightarrow> 'n \<Rightarrow> 'n list \<Rightarrow> 'n" where
  "tile_sum A m l scores = ar_add A (ar_mul A l (tile_correction A m scores)) (foldl (ar_add A) (ar_zero A) (tile_weights A m scores))"

definition tile_out :: "('n, 'o) arith \<Rightarrow> 'n \<Rightarrow> 'n list \<Rightarrow> (nat \<Rightarrow> 'n) \<Rightarrow> 'n \<Rightarrow> 'n" where
  "tile_out A m scores x out = foldl (\<lambda>acc jj. ar_add A acc (ar_mul A (tile_weights A m scores ! jj) (x jj)))
     (ar_mul A out (tile_correction A m scores)) [0..<length scores]"

lemma lockstep_tile:
  assumes n: "0 < n" and L: "length scores = L" and v: "\<And>t jj. t < n \<Longrightarrow> jj < L \<Longrightarrow> v t jj = Some (x t jj)"
  shows "\<exists>me'. run_lanes A L v (lockstep L n) (lanes_of n (me\<lparr>l_pc := MaxAt 0, l_tile_max := ar_lowest A\<rparr>) out) scores =
      Some (lanes_of n me' (\<lambda>t. tile_out A (l_max me) scores (x t) (out t)), tile_weights A (l_max me) scores) \<and>
    l_pc me' = Finished \<and> l_max me' = tile_new A (l_max me) scores \<and> l_sum me' = tile_sum A (l_max me) (l_sum me) scores"
proof -
  let ?m = "l_max me"
  let ?c = "tile_correction A ?m scores" and ?ws = "tile_weights A ?m scores"
  define me1 where "me1 = me\<lparr>l_pc := MaxAt L, l_tile_max := foldl (ar_max A) (ar_lowest A) scores\<rparr>"
  define me2 where "me2 = me1\<lparr>l_new := tile_new A ?m scores, l_correction := ?c\<rparr>"
  define me3 where "me3 = me2\<lparr>l_pc := ReadAt L, l_tile_sum := foldl (ar_add A) (ar_zero A) ?ws\<rparr>"
  define me4 where "me4 = me3\<lparr>l_sum := tile_sum A ?m (l_sum me) scores\<rparr>"
  have 1: "run_lanes A L v (rounds L n) (lanes_of n (me\<lparr>l_pc := MaxAt 0, l_tile_max := ar_lowest A\<rparr>) out) scores = Some (lanes_of n me1 out, scores)"
    using max_rounds [where k = L, OF n L] L by (simp add: me1_def)
  have 2: "run_lanes A L v (rounds (Suc 0) n) (lanes_of n me1 out) scores =
      Some (lanes_of n (me2\<lparr>l_pc := ReadAt 0, l_tile_sum := ar_zero A\<rparr>) out, scores)"
    by (rule lanes_round [OF n]) (auto simp: lane_step_def me1_def me2_def tile_new_def tile_correction_def Let_def)
  have "l_new me2 = tile_new A ?m scores" by (simp add: me2_def)
  then have 3: "run_lanes A L v (rounds (2 * L) n) (lanes_of n (me2\<lparr>l_pc := ReadAt 0, l_tile_sum := ar_zero A\<rparr>) out) scores =
      Some (lanes_of n me3 out, ?ws)"
    using weight_rounds [where k = L and v = v and me = me2 and x = "ar_zero A" and out = out and A = A, OF n L] L by (simp add: me3_def tile_weights_def)
  have 4: "run_lanes A L v (rounds (Suc 0) n) (lanes_of n me3 out) ?ws =
      Some (lanes_of n (me4\<lparr>l_pc := AccAt 0\<rparr>) (\<lambda>t. ar_mul A (out t) ?c), ?ws)"
    by (rule lanes_round [OF n]) (auto simp: lane_step_def me1_def me2_def me3_def me4_def tile_sum_def)
  have lw: "length ?ws = L" by (simp add: tile_weights_def L)
  have 5: "run_lanes A L v (rounds L n) (lanes_of n (me4\<lparr>l_pc := AccAt 0\<rparr>) (\<lambda>t. ar_mul A (out t) ?c)) ?ws =
      Some (lanes_of n (me4\<lparr>l_pc := AccAt L\<rparr>) (\<lambda>t. tile_out A ?m scores (x t) (out t)), ?ws)"
    using value_rounds [OF n lw order_refl v] by (simp add: tile_out_def L)
  have 6: "run_lanes A L v (rounds (Suc 0) n) (lanes_of n (me4\<lparr>l_pc := AccAt L\<rparr>) (\<lambda>t. tile_out A ?m scores (x t) (out t))) ?ws =
      Some (lanes_of n (me4\<lparr>l_pc := Finished, l_max := l_new me4\<rparr>) (\<lambda>t. tile_out A ?m scores (x t) (out t)), ?ws)"
    by (rule lanes_round [OF n]) (auto simp: lane_step_def)
  have "4 * L + 3 = L + (Suc 0 + (2 * L + (Suc 0 + (L + Suc 0))))" by simp
  then have "run_lanes A L v (lockstep L n) (lanes_of n (me\<lparr>l_pc := MaxAt 0, l_tile_max := ar_lowest A\<rparr>) out) scores =
      Some (lanes_of n (me4\<lparr>l_pc := Finished, l_max := l_new me4\<rparr>) (\<lambda>t. tile_out A ?m scores (x t) (out t)), ?ws)"
    unfolding lockstep_def by (simp only:) (intro run_rounds [OF 1] run_rounds [OF 2] run_rounds [OF 3] run_rounds [OF 4] run_rounds [OF 5] 6)
  then show ?thesis
    by (intro exI [of _ "me4\<lparr>l_pc := Finished, l_max := l_new me4\<rparr>"]) (simp add: me4_def me3_def me2_def me1_def)
qed

section \<open>Exact arithmetic\<close>

text \<open>Real numbers, with a lowest number \<open>- big\<close> and an exponential that underflows to zero below \<open>- low\<close>.\<close>

definition real_arith :: "real \<Rightarrow> real \<Rightarrow> (real, real) arith" where
  "real_arith big low = \<lparr>ar_widen = (\<lambda>b. fp_val bfloat16 (unat b)), ar_store = id, ar_zero = 0, ar_lowest = - big,
     ar_add = (+), ar_sub = (-), ar_mul = (*), ar_div = (/), ar_max = max, ar_exp = (\<lambda>x. if x < - low then 0 else exp x),
     ar_is_lowest = (\<lambda>x. x = - big), ar_positive = (\<lambda>x. 0 < x)\<rparr>"

lemma foldl_max_start: "(a :: real) \<le> foldl max a xs"
proof (induction xs arbitrary: a)
  case (Cons x xs)
  show ?case using Cons.IH [of "max a x"] by simp
qed simp

lemma foldl_max_member: "y \<in> set xs \<Longrightarrow> (y :: real) \<le> foldl max a xs"
proof (induction xs arbitrary: a)
  case (Cons x xs)
  show ?case
  proof (cases "y \<in> set xs")
    case True
    then show ?thesis using Cons.IH by simp
  next
    case False
    then show ?thesis using Cons.prems foldl_max_start [of "max a x" xs] by simp
  qed
qed simp

lemma foldl_max_le: "(a :: real) \<le> b \<Longrightarrow> \<forall>y \<in> set xs. y \<le> b \<Longrightarrow> foldl max a xs \<le> b"
proof (induction xs arbitrary: a)
  case (Cons x xs)
  show ?case using Cons.IH [of "max a x"] Cons.prems by simp
qed simp

lemma sum_lessThan_add: "(\<Sum>j < n + (k :: nat). g j :: real) = (\<Sum>j < n. g j) + (\<Sum>j < k. g (n + j))"
  by (induction k) (simp_all add: add.assoc)

lemma foldl_sum_upt: "foldl (\<lambda>acc j. acc + g j) a [0..<n] = a + (\<Sum>j < n. g j :: real)"
  by (induction n) simp_all

lemma foldl_plus: "foldl (+) a xs = a + sum_list (xs :: real list)"
  by (induction xs arbitrary: a) (simp_all add: add.assoc)

text \<open>The online softmax of one query: \<open>s\<close> are its scores, \<open>vis\<close> the keys it attends to, and \<open>x t j\<close> the values.\<close>

definition weight :: "(nat \<Rightarrow> bool) \<Rightarrow> (nat \<Rightarrow> real) \<Rightarrow> real \<Rightarrow> nat \<Rightarrow> real" where
  "weight vis s m j = (if vis j then exp (s j - m) else 0)"

definition online :: "real \<Rightarrow> real \<Rightarrow> (nat \<Rightarrow> bool) \<Rightarrow> (nat \<Rightarrow> real) \<Rightarrow> (nat \<Rightarrow> nat \<Rightarrow> real) \<Rightarrow> nat \<Rightarrow> nat \<Rightarrow> real \<Rightarrow> real \<Rightarrow> (nat \<Rightarrow> real) \<Rightarrow> bool" where
  "online big Bd vis s x nthreads n m l out \<longleftrightarrow>
     (if n = 0 then m = - big else \<bar>m\<bar> \<le> Bd) \<and> l = (\<Sum>j < n. weight vis s m j) \<and>
     (\<forall>t < nthreads. out t = (\<Sum>j < n. weight vis s m j * x t j))"

lemma weight_rescale: "weight vis s m j * exp (m - m') = weight vis s m' j"
  by (simp add: weight_def flip: exp_add)

lemma online_tile:
  fixes big low :: real
  defines "A \<equiv> real_arith big low"
  assumes inv: "online big Bd vis s x nthreads n m l out" and L: "0 < L" and first: "vis 0"
    and bound: "\<And>j. vis j \<Longrightarrow> \<bar>s j\<bar> \<le> Bd" and Bd: "0 \<le> Bd" "2 * Bd \<le> low" "low + Bd < big"
    and sc: "scores = map (\<lambda>jj. if vis (n + jj) then s (n + jj) else - big) [0..<L]"
  shows "online big Bd vis s x nthreads (n + L) (tile_new A m scores) (tile_sum A m l scores)
    (\<lambda>t. tile_out A m scores (\<lambda>jj. x t (n + jj)) (out t))"
proof -
  let ?m = "tile_new A m scores"
  have mnew: "?m = max m (foldl max (- big) scores)" by (simp add: tile_new_def A_def real_arith_def)
  have le: "\<forall>y \<in> set scores. y \<le> Bd" using bound Bd by (force simp: sc)
  have mB: "m \<le> Bd" using inv Bd by (auto simp: online_def split: if_splits)
  have hi: "?m \<le> Bd" unfolding mnew using foldl_max_le [OF _ le, of "- big"] mB Bd by simp
  have lo: "- Bd \<le> ?m"
  proof (cases "n = 0")
    case True
    have "(if vis (n + 0) then s (n + 0) else - big) \<in> set scores" unfolding sc using L by (force simp del: add_0_right)
    then have "s 0 \<in> set scores" using first True by simp
    then have "- Bd \<le> foldl max (- big) scores" using foldl_max_member [of "s 0" scores "- big"] bound [OF first] by linarith
    then show ?thesis unfolding mnew by (rule max.coboundedI2)
  next
    case False
    then have "- Bd \<le> m" using inv by (simp add: online_def abs_le_iff)
    then show ?thesis unfolding mnew by (rule max.coboundedI1)
  qed
  have ws: "tile_weights A m scores = map (\<lambda>jj. weight vis s ?m (n + jj)) [0..<L]"
  proof -
    have "ar_exp A (ar_sub A (if vis j then s j else - big) ?m) = weight vis s ?m j" for j
    proof (cases "vis j")
      case True
      have "\<not> s j - ?m < - low" using bound [OF True] hi Bd by linarith
      then show ?thesis using True by (simp add: A_def real_arith_def weight_def)
    next
      case False
      have "- big - ?m < - low" using lo Bd by linarith
      then show ?thesis using False by (simp add: A_def real_arith_def weight_def)
    qed
    then show ?thesis by (simp add: tile_weights_def) (simp add: sc comp_def)
  qed
  have corr: "(\<Sum>j < n. weight vis s m j * g j) * tile_correction A m scores = (\<Sum>j < n. weight vis s ?m j * g j)" for g
  proof (cases "n = 0")
    case False
    then have m: "\<bar>m\<bar> \<le> Bd" using inv by (simp add: online_def)
    then have "m \<noteq> - big" "\<not> m - ?m < - low" using hi Bd by linarith+
    then have c: "tile_correction A m scores = exp (m - ?m)" unfolding tile_correction_def by (simp add: A_def real_arith_def)
    have "weight vis s m j * g j * exp (m - ?m) = weight vis s ?m j * g j" for j
      using weight_rescale [of vis s m j ?m] by (simp add: mult.commute mult.left_commute)
    then show ?thesis unfolding c sum_distrib_right by (intro sum.cong refl)
  qed simp
  have "tile_sum A m l scores = l * tile_correction A m scores + (\<Sum>jj < L. weight vis s ?m (n + jj))"
    unfolding tile_sum_def ws by (simp add: A_def real_arith_def foldl_plus sum_list_sum_nth atLeast0LessThan)
  also have "l * tile_correction A m scores = (\<Sum>j < n. weight vis s ?m j)"
    using corr [of "\<lambda>j. 1"] inv by (simp add: online_def)
  finally have sum: "tile_sum A m l scores = (\<Sum>j < n + L. weight vis s ?m j)" by (simp add: sum_lessThan_add)
  have "tile_out A m scores (\<lambda>jj. x t (n + jj)) (out t) = (\<Sum>j < n + L. weight vis s ?m j * x t j)" if "t < nthreads" for t
  proof -
    have len: "length scores = L" by (simp add: sc)
    have "tile_out A m scores (\<lambda>jj. x t (n + jj)) (out t) =
        out t * tile_correction A m scores + (\<Sum>jj < L. tile_weights A m scores ! jj * x t (n + jj))"
      unfolding tile_out_def len foldl_sum_upt [symmetric] by (simp add: A_def real_arith_def)
    also have "(\<Sum>jj < L. tile_weights A m scores ! jj * x t (n + jj)) = (\<Sum>jj < L. weight vis s ?m (n + jj) * x t (n + jj))"
      unfolding ws by (rule sum.cong) simp_all
    also have "out t * tile_correction A m scores = (\<Sum>j < n. weight vis s ?m j * x t j)"
      using corr [of "x t"] inv that by (simp add: online_def)
    finally show ?thesis by (simp add: sum_lessThan_add)
  qed
  then show ?thesis using sum hi lo L by (simp add: online_def abs_le_iff)
qed

lemma online_result:
  assumes "online big Bd vis s x nthreads n m l out" "vis 0" "0 < n" "t < nthreads"
  shows "0 < l" "out t / l = (\<Sum>j < n. if vis j then exp (s j) * x t j else 0) / (\<Sum>j < n. if vis j then exp (s j) else 0)"
proof -
  have l: "l = (\<Sum>j < n. weight vis s m j)" "out t = (\<Sum>j < n. weight vis s m j * x t j)" using assms by (simp_all add: online_def)
  have w: "weight vis s m j = (if vis j then exp (s j) else 0) * exp (- m)" for j by (simp add: weight_def flip: exp_add)
  have "0 < weight vis s m 0" using assms(2) by (simp add: weight_def)
  then show "0 < l" unfolding l(1) using assms(3) by (intro sum_pos2 [of _ 0]) (simp_all add: weight_def)
  have "l = (\<Sum>j < n. if vis j then exp (s j) else 0) * exp (- m)" unfolding l(1) sum_distrib_right by (rule sum.cong) (simp_all add: w)
  moreover have "out t = (\<Sum>j < n. if vis j then exp (s j) * x t j else 0) * exp (- m)"
    unfolding l(2) sum_distrib_right by (rule sum.cong) (simp_all add: w)
  ultimately show "out t / l = (\<Sum>j < n. if vis j then exp (s j) * x t j else 0) / (\<Sum>j < n. if vis j then exp (s j) else 0)" by simp
qed

section \<open>The kernel in exact arithmetic\<close>

abbreviation bf16_val :: "u16 \<Rightarrow> real" where "bf16_val b \<equiv> fp_val bfloat16 (unat b)"

text \<open>Softmax attention as it is written on paper.\<close>

definition attention_score :: "u16 list \<Rightarrow> u16 list \<Rightarrow> nat \<Rightarrow> real \<Rightarrow> nat \<Rightarrow> nat \<Rightarrow> nat \<Rightarrow> real" where
  "attention_score Q K D scale rowBase kvBase j =
     (\<Sum>t < D. bf16_val (Q ! (rowBase + t)) * bf16_val (K ! (kvBase + j * D + t))) * scale"

definition softmax_attention :: "u16 list \<Rightarrow> u16 list \<Rightarrow> u16 list \<Rightarrow> nat \<Rightarrow> nat \<Rightarrow> real \<Rightarrow> int \<Rightarrow> nat \<Rightarrow> nat \<Rightarrow> nat \<Rightarrow> real" where
  "softmax_attention Q K V D S_kv scale limit rowBase kvBase t =
     (let e = (\<lambda>j. exp (attention_score Q K D scale rowBase kvBase j))
      in (\<Sum>j < S_kv. if int j \<le> limit then e j * bf16_val (V ! (kvBase + j * D + t)) else 0) /
         (\<Sum>j < S_kv. if int j \<le> limit then e j else 0))"

lemma real_arith_simps [simp]:
  "ar_widen (real_arith big low) = bf16_val" "ar_zero (real_arith big low) = 0" "ar_lowest (real_arith big low) = - big"
  "ar_add (real_arith big low) = (+)" "ar_mul (real_arith big low) = (*)" "ar_div (real_arith big low) = (/)"
  "ar_store (real_arith big low) r = r" "ar_positive (real_arith big low) r \<longleftrightarrow> 0 < r"
  by (simp_all add: real_arith_def)

lemma block_reduce_real:
  assumes "length vals = 32 * nw" "nw \<le> 32"
  shows "block_reduce_sum_broadcast (real_arith big low) vals = Some (sum_list vals)"
proof -
  let ?ws = "map (\<lambda>t. if t < nw then butterfly (+) 16 vals ! (32 * t) else 0) [0..<32]"
  have nw: "(length vals + 32 - 1) div 32 = nw" unfolding assms(1) by simp
  have "butterfly (+) 16 ?ws ! (32 * 0) = (\<Sum>j = 32 * 0..<32 * Suc 0. ?ws ! j)" by (rule warp_sum [of _ 1]) simp_all
  also have "\<dots> = (\<Sum>t < 32. if t < nw then butterfly (+) 16 vals ! (32 * t) else 0)"
    by (simp only: mult_0_right mult_1_right One_nat_def [symmetric] atLeast0LessThan, rule sum.cong) simp_all
  also have "\<dots> = (\<Sum>t < nw. butterfly (+) 16 vals ! (32 * t))"
    by (rule sum.mono_neutral_cong_right) (use assms(2) in auto)
  also have "\<dots> = (\<Sum>w < nw. \<Sum>j = 32 * w..<32 * Suc w. vals ! j)" by (rule sum.cong [OF refl]) (use warp_sum [OF assms(1)] in simp)
  also have "\<dots> = sum_list vals" unfolding sum_upt_blocks by (simp add: sum_list_sum_nth assms(1) atLeast0LessThan)
  finally show ?thesis
    unfolding block_reduce_sum_broadcast_def Let_def PK_WARP_SIZE_def nw using assms(2) by (simp add: kMaxWarps_def cong: if_cong)
qed

lemma tile_scores_real:
  assumes n: "n = 32 * nw" "nw \<le> 32" "D \<le> n" and K: "kvBase + (t0 + L) * D \<le> length K"
    and q: "q_reg = map (\<lambda>t. if t < D then bf16_val (Q ! (rowBase + t)) else 0) [0..<n]"
  shows "tile_scores (real_arith big low) q_reg K D limit kvBase scale t0 L =
    Some (map (\<lambda>jj. if int (t0 + jj) \<le> limit then attention_score Q K D scale rowBase kvBase (t0 + jj) else - big) [0..<L])"
  unfolding tile_scores_def
proof (rule those_map)
  fix jj assume "jj \<in> set [0..<L]"
  then have jj: "jj < L" by simp
  let ?j = "t0 + jj"
  let ?g = "\<lambda>t. if t < D \<and> int ?j \<le> limit then bf16_val (Q ! (rowBase + t)) * bf16_val (K ! (kvBase + ?j * D + t)) else 0"
  have "kvBase + ?j * D + t < length K" if "t < D" for t
  proof -
    have "Suc ?j * D \<le> (t0 + L) * D" using jj by (intro mult_le_mono1) simp
    then show ?thesis using K that by simp
  qed
  then have cs: "those (map (contribution (real_arith big low) q_reg K D limit kvBase ?j) [0..<length q_reg]) = Some (map ?g [0..<n])"
    unfolding q length_map length_upt minus_nat.diff_0 by (intro those_map) (simp add: contribution_def rd_def)
  have "sum_list (map ?g [0..<n]) = (\<Sum>t < n. ?g t)" by (simp add: interv_sum_list_conv_sum_set_nat atLeast0LessThan)
  also have "\<dots> = (\<Sum>t < D. ?g t)" by (rule sum.mono_neutral_right) (use n(3) in auto)
  finally have "sum_list (map ?g [0..<n]) = (\<Sum>t < D. ?g t)" .
  moreover have "block_reduce_sum_broadcast (real_arith big low) (map ?g [0..<n]) = Some (sum_list (map ?g [0..<n]))"
    by (rule block_reduce_real [OF _ n(2)]) (simp add: n(1))
  ultimately show "(those (map (contribution (real_arith big low) q_reg K D limit kvBase ?j) [0..<length q_reg]) \<bind>
      (\<lambda>cs. block_reduce_sum_broadcast (real_arith big low) cs \<bind>
      (\<lambda>dot. Some (if int ?j \<le> limit then ar_mul (real_arith big low) dot scale else ar_lowest (real_arith big low))))) =
    Some (if int ?j \<le> limit then attention_score Q K D scale rowBase kvBase ?j else - big)"
    unfolding cs by (simp add: attention_score_def)
qed

lemma lanes_of_reset:
  "map (\<lambda>me. me\<lparr>l_pc := p, l_tile_max := x\<rparr>) (lanes_of n me out) = lanes_of n (me\<lparr>l_pc := p, l_tile_max := x\<rparr>) out"
  by (auto simp: lanes_of_def intro: lane.equality)

lemma attention_prefill_exact:
  fixes Bd big low :: real
  assumes n: "n = 32 * nw" "nw \<le> 32" "D \<le> n" "0 < n" and S: "0 < S_kv" "S_kv \<le> 2 ^ 31 - 32"
    and len: "(bh * S_q + i) * D + D \<le> length Q" "bh * S_kv * D + S_kv * D \<le> length K" "bh * S_kv * D + S_kv * D \<le> length V"
    and limit: "limit = key_limit causal S_q S_kv i" "0 \<le> limit"
    and bound: "\<And>j. int j \<le> limit \<Longrightarrow> \<bar>attention_score Q K D scale ((bh * S_q + i) * D) (bh * S_kv * D) j\<bar> \<le> Bd"
    and Bd: "0 \<le> Bd" "2 * Bd \<le> low" "low + Bd < big"
    and order: "\<And>t. order t = lockstep (min 32 (S_kv - t * 32)) n"
  shows "attention_prefill_kernel (real_arith big low) order Q K V S_q S_kv D scale causal n bh i =
    Some (map (\<lambda>t. if t < D then [((bh * S_q + i) * D + t,
      softmax_attention Q K V D S_kv scale limit ((bh * S_q + i) * D) (bh * S_kv * D) t)] else []) [0..<n])"
proof -
  let ?A = "real_arith big low"
  define rowBase kvBase where "rowBase = (bh * S_q + i) * D" and "kvBase = bh * S_kv * D"
  define q where "q = map (\<lambda>t. if t < D then bf16_val (Q ! (rowBase + t)) else 0) [0..<n]"
  define s where "s = attention_score Q K D scale rowBase kvBase"
  define vis where "vis j \<longleftrightarrow> int j \<le> limit" for j
  define x where "x t j = (if t < D then bf16_val (V ! (kvBase + j * D + t)) else 0)" for t j
  have q: "those (map (lane_query ?A Q D rowBase) [0..<n]) = Some q"
    unfolding q_def by (rule those_map) (use len(1) in \<open>simp add: lane_query_def rd_def rowBase_def\<close>)
  have vis0: "vis 0" using limit(2) by (simp add: vis_def)
  have bnd: "vis j \<Longrightarrow> \<bar>s j\<bar> \<le> Bd" for j using bound by (simp add: vis_def s_def rowBase_def kvBase_def)
  define P where "P t lanes \<longleftrightarrow> (\<exists>me out. lanes = lanes_of n me out \<and> online big Bd vis s x n (min (t * 32) S_kv) (l_max me) (l_sum me) out)" for t lanes
  have tile: "\<exists>lanes'. attention_tile ?A order q K V S_kv D limit kvBase scale t lanes = Some lanes' \<and> P (Suc t) lanes'"
    if t: "t < (S_kv + kKeyTile - 1) div kKeyTile" and Pt: "P t lanes" for t lanes
  proof -
    have lt: "t * 32 < S_kv" using t unfolding kKeyTile_def by linarith
    let ?L = "min 32 (S_kv - t * 32)"
    have L: "0 < ?L" "t * 32 + ?L = min (Suc t * 32) S_kv" "t * 32 + ?L \<le> S_kv" using lt by auto
    obtain me out where me: "lanes = lanes_of n me out" "online big Bd vis s x n (t * 32) (l_max me) (l_sum me) out"
      using Pt lt unfolding P_def by (auto simp: min_def)
    let ?scores = "map (\<lambda>jj. if vis (t * 32 + jj) then s (t * 32 + jj) else - big) [0..<?L]"
    have kv: "(t * 32 + ?L) * D \<le> S_kv * D" using L(3) by (rule mult_le_mono1)
    have sc: "tile_scores ?A q K D limit kvBase scale (t * 32) ?L = Some ?scores"
      unfolding vis_def s_def by (rule tile_scores_real [OF n(1-3) _ q_def]) (use kv len(2) in \<open>unfold kvBase_def, linarith\<close>)
    have v: "lane_value ?A V D kvBase (t * 32) t' jj = Some (x t' (t * 32 + jj))" if "t' < n" "jj < ?L" for t' jj
    proof -
      have "jj < S_kv - t * 32" using that(2) by simp
      then have "Suc (t * 32 + jj) \<le> S_kv" by (simp add: less_diff_conv)
      then have "Suc (t * 32 + jj) * D \<le> S_kv * D" by (rule mult_le_mono1)
      then show ?thesis using len(3) by (simp add: lane_value_def x_def rd_def kvBase_def)
    qed
    obtain me' where run: "run_lanes ?A ?L (lane_value ?A V D kvBase (t * 32)) (lockstep ?L n)
        (lanes_of n (me\<lparr>l_pc := MaxAt 0, l_tile_max := ar_lowest ?A\<rparr>) out) ?scores =
      Some (lanes_of n me' (\<lambda>t'. tile_out ?A (l_max me) ?scores (\<lambda>jj. x t' (t * 32 + jj)) (out t')), tile_weights ?A (l_max me) ?scores)"
      and me': "l_pc me' = Finished" "l_max me' = tile_new ?A (l_max me) ?scores" "l_sum me' = tile_sum ?A (l_max me) (l_sum me) ?scores"
      using lockstep_tile [OF n(4), of ?scores ?L "lane_value ?A V D kvBase (t * 32)" "\<lambda>t' jj. x t' (t * 32 + jj)" ?A me out] v by auto
    have "online big Bd vis s x n (t * 32 + ?L) (l_max me') (l_sum me') (\<lambda>t'. tile_out ?A (l_max me) ?scores (\<lambda>jj. x t' (t * 32 + jj)) (out t'))"
      unfolding me'(2,3) by (rule online_tile [OF me(2) L(1) vis0 bnd Bd refl])
    moreover have "list_all (\<lambda>me. l_pc me = Finished) (lanes_of n me' f)" for f by (simp add: lanes_of_def list_all_iff me'(1))
    ultimately show ?thesis
      unfolding attention_tile_def Let_def kKeyTile_def me(1) lanes_of_reset sc order run Option.bind.simps prod.case L(2) P_def by auto
  qed
  have init: "P 0 (replicate n (new_lane ?A))"
    unfolding P_def by (intro exI [of _ "new_lane ?A"] exI [of _ "\<lambda>t. 0"]) (auto simp: lanes_of_def new_lane_def online_def map_replicate_const intro: lane.equality)
  obtain lanes where lanes: "loop ((S_kv + kKeyTile - 1) div kKeyTile) (attention_tile ?A order q K V S_kv D limit kvBase scale)
      (replicate n (new_lane ?A)) = Some lanes" "P ((S_kv + kKeyTile - 1) div kKeyTile) lanes"
    using loop_inv [where P = P, OF init] tile by blast
  have "min ((S_kv + kKeyTile - 1) div kKeyTile * 32) S_kv = S_kv" using S(1) unfolding kKeyTile_def by linarith
  then obtain me out where me: "lanes = lanes_of n me out" "online big Bd vis s x n S_kv (l_max me) (l_sum me) out"
    using lanes(2) unfolding P_def by auto
  have res: "l_sum (lanes ! t) = l_sum me" "l_out (lanes ! t) = out t" if "t < n" for t using that by (simp_all add: me(1) lanes_of_def)
  have val: "out t / l_sum me = softmax_attention Q K V D S_kv scale limit rowBase kvBase t" "0 < l_sum me" if "t < D" for t
  proof -
    note r = online_result [OF me(2) vis0 S(1), of t]
    have tn: "t < n" using that n(3) by simp
    show "0 < l_sum me" by (rule r(1) [OF tn])
    show "out t / l_sum me = softmax_attention Q K V D S_kv scale limit rowBase kvBase t"
      unfolding r(2) [OF tn] softmax_attention_def Let_def using that by (simp add: vis_def s_def x_def cong: if_cong)
  qed
  have "(S_kv + 31) div 32 * 32 \<le> S_kv + 31" by simp
  then have "in_i32 (int ((S_kv + kKeyTile - 1) div kKeyTile * kKeyTile))"
    unfolding kKeyTile_def in_i32_def using S(2) by simp
  then have c: "(\<not> in_i32 (int ((S_kv + kKeyTile - 1) div kKeyTile * kKeyTile))) = False" by simp
  show ?thesis
    unfolding attention_prefill_kernel_def Let_def c if_False rowBase_def [symmetric] kvBase_def [symmetric] limit(1) [symmetric] q Option.bind.simps lanes(1)
    using res val n(3) by (auto intro: map_cong)
qed

section \<open>The launch\<close>

lemma bh_row: "b < B * H * S_q \<Longrightarrow> b div S_q * (S_q :: nat) + b mod S_q = b \<and> b div S_q < B * H"
  by (simp add: less_mult_imp_div_less)

text \<open>The attention kernel computes softmax attention: with the threads of a tile in lockstep, in exact
  arithmetic and under every fair schedule of the stores, the launch fills the output with the softmax weighted
  means of the value rows over the keys up to the causal limit, for every head size up to 1024 and every number
  of tiles. The running maximum only has to stay inside the range where the exponential does not underflow.\<close>

theorem gpu_attention_is_softmax:
  fixes Bd big low :: real
  assumes sched: "fair sched" and D: "0 < D" "D \<le> 1024" and S: "0 < S_q" "S_q \<le> S_kv" "S_kv \<le> 2 ^ 31 - 32" and BH: "0 < B * H" "B * H \<le> 65535"
    and len: "B * H * S_q * D \<le> length Q" "B * H * S_kv * D \<le> length K" "B * H * S_kv * D \<le> length V" "length out = B * H * S_q * D"
    and bound: "\<And>b j. b < B * H * S_q \<Longrightarrow> int j \<le> key_limit causal S_q S_kv (b mod S_q) \<Longrightarrow> \<bar>attention_score Q K D scale (b * D) (b div S_q * S_kv * D) j\<bar> \<le> Bd"
    and Bd: "0 \<le> Bd" "2 * Bd \<le> low" "low + Bd < big"
    and orders: "\<And>b t. orders b t = lockstep (min 32 (S_kv - t * 32)) ((D + 31) div 32 * 32)"
  shows "launch_attention_prefill (real_arith big low) sched orders Q K V out B H S_q S_kv D scale causal =
    Some (tabulate (B * H * S_q) D (\<lambda>b t. softmax_attention Q K V D S_kv scale (key_limit causal S_q S_kv (b mod S_q)) (b * D) (b div S_q * S_kv * D) t))"
proof -
  define n where "n = (D + 31) div 32 * 32"
  have nw: "(D + 31) div 32 \<le> 32" using D(2) by linarith
  then have "n \<le> 32 * 32" unfolding n_def by (rule mult_le_mono1)
  then have n: "n = 32 * ((D + 31) div 32)" "(D + 31) div 32 \<le> 32" "D \<le> n" "0 < n" "n \<le> 1024"
    using nw D unfolding n_def by linarith+
  define w where "w b t = softmax_attention Q K V D S_kv scale (key_limit causal S_q S_kv (b mod S_q)) (b * D) (b div S_q * S_kv * D) t" for b t
  define ps where "ps b = map (\<lambda>t. if t < D then [(b * D + t, w b t)] else []) [0..<n]" for b
  let ?R = "B * H * S_q"
  have blk: "attention_prefill_kernel (real_arith big low) (orders b) Q K V S_q S_kv D scale causal n (b div S_q) (b mod S_q) = Some (ps b)"
    if "b < ?R" for b
  proof -
    note r = bh_row [OF that]
    have q: "b * D + D \<le> length Q" using block_bound [OF that] len(1) by blast
    have kv: "b div S_q * S_kv * D + S_kv * D \<le> l" if "B * H * S_kv * D \<le> l" for l
      using block_bound [of "b div S_q" "B * H" "S_kv * D" l] r that by (simp add: mult.assoc)
    have i: "b mod S_q < S_q" using S(1) by simp
    then have lim: "0 \<le> key_limit causal S_q S_kv (b mod S_q)"
      using S by (simp add: key_limit_def)
    show ?thesis
      using attention_prefill_exact [where bh = "b div S_q" and i = "b mod S_q" and S_q = S_q and D = D and n = n and K = K and V = V and Q = Q
          and S_kv = S_kv and limit = "key_limit causal S_q S_kv (b mod S_q)" and causal = causal and scale = scale and Bd = Bd and big = big and low = low and order = "orders b",
          OF n(1-4) _ S(3) _ kv kv refl lim _ Bd]
      using S q r len(2,3) bound [OF that] orders by (simp add: ps_def w_def n_def)
  qed
  have one: "concat (ps b) = map (\<lambda>t. (b * D + t, w b t)) [0..<D]" for b
  proof -
    have "[0..<n] = [0..<D] @ [D..<n]" using n(3) by (metis upt_add_eq_append le_add_diff_inverse zero_le)
    moreover have "concat (map (\<lambda>t. if t < D then [(b * D + t, w b t)] else []) [D..<n]) = []" by simp
    moreover have "concat (map (\<lambda>t. if t < D then [(b * D + t, w b t)] else []) [0..<k]) = map (\<lambda>t. (b * D + t, w b t)) [0..<k]" if "k \<le> D" for k
      using that by (induction k) simp_all
    ultimately show ?thesis by (simp add: ps_def)
  qed
  have flat: "concat (concat (map ps [0..<?R])) = map (\<lambda>p. (p, w (p div D) (p mod D))) [0..<?R * D]"
  proof -
    have "concat (concat (map ps [0..<?R])) = tabulate ?R D (\<lambda>b t. (b * D + t, w b t))"
      by (simp add: concat_of_concat comp_def one tabulate_def)
    then show ?thesis by (simp add: tabulate_div_mod)
  qed
  have "apply_stores out (sched [] (concat (map ps [0..<?R]))) = Some (map (\<lambda>p. w (p div D) (p mod D)) [0..<length out])"
    by (rule phase_fill [OF sched]) (unfold flat, auto simp: comp_def len(4))
  moreover have "those (map (\<lambda>b. attention_prefill_kernel (real_arith big low) (orders b) Q K V S_q S_kv D scale causal n (b div S_q) (b mod S_q)) [0..<?R]) =
      Some (map ps [0..<?R])"
    by (rule those_map) (use blk in simp)
  moreover have "(D + PK_WARP_SIZE - 1) div PK_WARP_SIZE * PK_WARP_SIZE = n" by (simp add: PK_WARP_SIZE_def n_def add.commute)
  moreover have "(\<not> (in_i32 (int (D + PK_WARP_SIZE - 1)) \<and> in_i32 (int (B * H)))) = False"
  proof -
    have m: "in_i32 (int m)" if "m \<le> 65535" for m :: nat using that by (simp add: in_i32_def)
    have "in_i32 (int (D + PK_WARP_SIZE - 1))" by (rule m) (use D(2) in \<open>simp add: PK_WARP_SIZE_def\<close>)
    with m [OF BH(2)] show ?thesis by blast
  qed
  moreover have "\<not> (n = 0 \<or> 1024 < n \<or> S_q = 0 \<or> B * H = 0 \<or> 65535 < B * H)" using n(4,5) S BH by simp
  ultimately show ?thesis
    by (simp only: launch_attention_prefill_def Let_def if_False Option.bind.simps tabulate_div_mod len(4) w_def)
qed

lemma gpu_attention_is_softmax_witness:
  "launch_attention_prefill (real_arith 1 0) in_order (\<lambda>b t. lockstep (min 32 (1 - t * 32)) 32) [0] [0] [0x3F80] [7] 1 1 1 1 1 1 True =
    Some [1]"
proof -
  have "fp_decode bfloat16 0 = FFin False 0 (- 133)" "fp_decode bfloat16 16256 = FFin False 128 (- 7)"
    by (simp_all add: fp_decode_def bfloat16_def f_emin_def f_bias_def Let_def)
  then have val: "fp_val bfloat16 0 = 0" "fp_val bfloat16 16256 = 1" by (simp_all add: fp_val_def fin_val_def power_int_minus)
  then have z: "attention_score [0] [0] 1 1 0 0 0 = 0" by (simp add: attention_score_def)
  have "softmax_attention [0] [0] [0x3F80] 1 1 1 0 0 0 0 = 1"
    by (simp add: softmax_attention_def z val)
  then show ?thesis
    using gpu_attention_is_softmax [of in_order 1 1 1 1 1 "[0]" "[0]" "[0x3F80]" "[7]" True 1 0 0 1 "\<lambda>b t. lockstep (min 32 (1 - t * 32)) 32"] z
    by (simp add: fair_in_order key_limit_def tabulate_div_mod)
qed

text \<open>A row that may see no key (a causal mask over fewer keys than queries) is not zero: the maximum of its scores
  is the masked score itself, and every weight is 1.\<close>

lemma masked_row_weights:
  assumes "0 \<le> low"
  shows "tile_weights (real_arith big low) (- big) (replicate n (- big)) = replicate n 1"
    and "tile_sum (real_arith big low) (- big) l (replicate n (- big)) = real n"
proof -
  have "foldl max (- big) (replicate n (- big)) = - big" by (induction n) simp_all
  then show w: "tile_weights (real_arith big low) (- big) (replicate n (- big)) = replicate n 1"
    using assms by (simp add: tile_weights_def tile_new_def real_arith_def)
  show "tile_sum (real_arith big low) (- big) l (replicate n (- big)) = real n"
    unfolding tile_sum_def w by (simp add: tile_correction_def foldl_plus) (simp add: real_arith_def foldl_plus sum_list_replicate)
qed

section \<open>Lanes that are not in lockstep\<close>

text \<open>Every thread replaces the scores by weights, with no barrier before other threads have read them. Of two
  lanes that run one after the other, the second takes the first one's weights for scores: for the scores 5
  and 0 its running maximum is 1 instead of 5, and the weight it leaves for the second key is
  \<open>exp (exp (- 5) - 1)\<close> instead of \<open>exp (- 5)\<close>.\<close>

definition one_after_the_other :: "nat list" where
  "one_after_the_other = replicate 11 0 @ replicate 11 1"

lemma late_lane_takes_weights_for_scores:
  "\<exists>a b. run_lanes (real_arith 100 50) 2 (\<lambda>t jj. Some 0) one_after_the_other
       (replicate 2 ((new_lane (real_arith 100 50))\<lparr>l_pc := MaxAt 0\<rparr>)) [5, 0] = Some ([a, b], [1, exp (exp (- 5) - 1)]) \<and>
     l_max a = 5 \<and> l_sum a = 1 + exp (- 5) \<and> l_max b = 1 \<and> l_sum b = 1 + exp (exp (- 5) - 1)"
proof -
  have e: "exp (- 5 :: real) \<le> 1" "0 < exp (- 5 :: real)" by simp_all
  then have "\<not> 49 + exp (- 5 :: real) < 0" by linarith
  with e show ?thesis
    by (simp add: one_after_the_other_def eval_nat_numeral real_arith_def new_lane_def lane_step_def rd_def wr_def Let_def)
qed

section \<open>Cache append\<close>

definition kv_cache_update_thread :: "u16 list \<Rightarrow> u16 list \<Rightarrow> nat \<Rightarrow> nat \<Rightarrow> nat \<Rightarrow> nat \<Rightarrow> nat \<Rightarrow> u16 store list option" where
  "kv_cache_update_thread cache new S_cache S_new D elems gid =
     (if elems \<le> gid then Some []
      else
        let d = gid mod D; bh_s = gid div D;
            s = bh_s mod (S_cache + S_new); bh = bh_s div (S_cache + S_new)
        in map_option (\<lambda>x. [(gid, x)])
             (if s < S_cache then rd cache (bh * S_cache * D + s * D + d)
              else rd new (bh * S_new * D + (s - S_cache) * D + d)))"

text \<open>The sum of the lengths is an \<open>int\<close>, the number of blocks is cut to 32 bits, and an empty or too large
  grid is rejected by the runtime.\<close>

definition launch_kv_cache_update :: "u16 sched \<Rightarrow> u16 list \<Rightarrow> u16 list \<Rightarrow> u16 list \<Rightarrow> nat \<Rightarrow> nat \<Rightarrow> nat \<Rightarrow> nat \<Rightarrow> nat \<Rightarrow> u16 list option" where
  "launch_kv_cache_update sched cache new out B H S_cache S_new D =
     (if \<not> in_i32 (int (S_cache + S_new)) then None
      else
        let elems = B * H * (S_cache + S_new) * D;
            blocks = (elems + 256 - 1) div 256 mod 2 ^ 32
        in if blocks = 0 \<or> 2 ^ 31 \<le> blocks then Some out
           else those (map (kv_cache_update_thread cache new S_cache S_new D elems) [0..<blocks * 256]) \<bind>
             (\<lambda>stores. apply_stores out (sched [] stores)))"

lemma kv_cache_update_thread_eq:
  assumes "length cache = BH * (S_cache * D)" "length new = BH * (S_new * D)"
  shows "kv_cache_update_thread cache new S_cache S_new D (BH * (S_cache + S_new) * D) gid =
    Some (if gid < BH * (S_cache + S_new) * D then [(gid, append_spec cache new BH S_cache S_new D ! gid)] else [])"
proof (cases "gid < BH * (S_cache + S_new) * D")
  case True
  let ?S = "S_cache + S_new"
  define d s bh where "d = gid mod D" and "s = gid div D mod ?S" and "bh = gid div D div ?S"
  have q: "gid div D < BH * ?S" using True by (rule less_mult_imp_div_less)
  have lt: "d < D" "s < ?S" "bh < BH"
    using True q unfolding d_def s_def bh_def by (auto simp: less_mult_imp_div_less intro!: mod_less_divisor gr0I)
  have g: "gid = (bh * ?S + s) * D + d" unfolding d_def s_def bh_def by (simp only: div_mult_mod_eq)
  have sp: "append_spec cache new BH S_cache S_new D ! gid =
      (if s < S_cache then cache ! ((bh * S_cache + s) * D + d) else new ! ((bh * S_new + (s - S_cache)) * D + d))"
    unfolding g by (rule nth_append_spec [OF assms lt(3,2,1)])
  have in_row: "(bh * n + i) * D + d < BH * (n * D)" if "i < n" for i n
    using index_lt [OF lt(1) index_lt [OF that lt(3)]] by (simp add: algebra_simps)
  have "s < S_cache \<Longrightarrow> (bh * S_cache + s) * D + d < length cache" unfolding assms(1) by (rule in_row)
  moreover have "\<not> s < S_cache \<Longrightarrow> (bh * S_new + (s - S_cache)) * D + d < length new"
    unfolding assms(2) using lt(2) by (intro in_row) simp
  ultimately show ?thesis
    using True unfolding kv_cache_update_thread_def Let_def d_def [symmetric] s_def [symmetric] bh_def [symmetric] sp
    by (simp add: rd_def algebra_simps)
qed (simp add: kv_cache_update_thread_def)

lemma launch_kv_cache_update_eq:
  assumes sched: "fair sched"
    and len: "length cache = B * H * (S_cache * D)" "length new = B * H * (S_new * D)" "length out = B * H * ((S_cache + S_new) * D)"
    and size: "in_i32 (int (S_cache + S_new))" "length out \<le> 2 ^ 38"
  shows "launch_kv_cache_update sched cache new out B H S_cache S_new D = Some (append_spec cache new (B * H) S_cache S_new D)"
proof -
  define n where "n = B * H * (S_cache + S_new) * D"
  have n: "length out = n" using len(3) by (simp add: n_def mult.assoc)
  have spec: "length (append_spec cache new (B * H) S_cache S_new D) = n"
    using length_append_spec [OF len(1,2)] by (simp add: n_def mult.assoc)
  define blocks where "blocks = (n + 256 - 1) div 256"
  have blocks: "n \<le> blocks * 256" "blocks \<le> 2 ^ 30" using size(2) unfolding n blocks_def by simp_all
  let ?v = "\<lambda>i. append_spec cache new (B * H) S_cache S_new D ! i"
  let ?st = "\<lambda>gid. if gid < n then [(gid, ?v gid)] else []"
  have th: "those (map (kv_cache_update_thread cache new S_cache S_new D n) [0..<blocks * 256]) = Some (map ?st [0..<blocks * 256])"
    by (rule those_map) (simp only: n_def kv_cache_update_thread_eq [OF len(1,2)])
  have "[0..<blocks * 256] = [0..<n] @ [n..<blocks * 256]" using blocks(1) by (metis upt_add_eq_append le_add_diff_inverse zero_le)
  moreover have "concat (map ?st [0..<k]) = map (\<lambda>i. (i, ?v i)) [0..<k]" if "k \<le> n" for k
    using that by (induction k) simp_all
  moreover have "concat (map ?st [n..<blocks * 256]) = []" by simp
  ultimately have flat: "concat (map ?st [0..<blocks * 256]) = map (\<lambda>i. (i, ?v i)) [0..<n]" by simp
  have fill: "apply_stores out (sched [] (map ?st [0..<blocks * 256])) = Some (map ?v [0..<length out])"
    by (rule phase_fill [OF sched]) (unfold flat, auto simp: comp_def n)
  have res: "map ?v [0..<length out] = append_spec cache new (B * H) S_cache S_new D"
    by (rule nth_equalityI) (simp_all add: n spec)
  have "blocks = 0 \<Longrightarrow> out = append_spec cache new (B * H) S_cache S_new D"
    using blocks(1) n spec by simp
  moreover have "blocks mod 2 ^ 32 = blocks" "\<not> 2 ^ 31 \<le> blocks" using blocks(2) by simp_all
  ultimately show ?thesis
    using size(1) th fill res unfolding launch_kv_cache_update_def Let_def n_def [symmetric] blocks_def [symmetric] by auto
qed

text \<open>C40. The GPU append is the CPU append: for caches of every shape, an empty one included, and under every fair
  schedule of its threads, the launch leaves in the output what the loops of the CPU reference leave there.\<close>

theorem gpu_append_is_cpu_append:
  assumes "fair sched" "length cache = B * H * (S_cache * D)" "length new = B * H * (S_new * D)"
    and "length out = B * H * ((S_cache + S_new) * D)" "in_i32 (int (S_cache + S_new))" "length out \<le> 2 ^ 38"
  shows "launch_kv_cache_update sched cache new out B H S_cache S_new D = Some (append_spec cache new (B * H) S_cache S_new D) \<and>
    append_loops cache new out (B * H) S_cache S_new D = Some (append_spec cache new (B * H) S_cache S_new D)"
  using launch_kv_cache_update_eq [OF assms] append_loops_eq [OF assms(2-4)] by simp

theorem gpu_append_is_cpu_append_witness:
  "launch_kv_cache_update in_order [1, 2] [3, 4, 5, 6] [0, 0, 0, 0, 0, 0] 2 1 1 2 1 = Some [1, 3, 4, 2, 5, 6]"
  using gpu_append_is_cpu_append [of in_order "[1, 2]" 2 1 1 1 "[3, 4, 5, 6]" 2 "[0, 0, 0, 0, 0, 0]"]
  by (simp add: fair_in_order in_i32_def append_spec_def upt_rec)

end
