(* ===== verification/IrTypes.thy ===== *)
theory IrTypes
  imports Prelude "HOL-Library.Monad_Syntax"
begin

text \<open>
  The operations of the PolyKernel dialect, their verifiers and their shape inference
  (\<open>PolyKernelOps.cpp\<close>, \<open>PolyKernelOps.td\<close>), and the pass \<open>--infer-shapes\<close> that refines the result types
  of a function body (\<open>InferShapes.cpp\<close>). A dynamic dimension is MLIR's \<open>kDynamic\<close>, the smallest
  64 bit integer, and takes part in the comparisons like any other number, as in the code.
\<close>

section \<open>Types and operations\<close>

datatype elem = BF16 | F16 | F32 | F64 | IntegerType nat

datatype ty = RankedTensor (tshape: "int list") (telem: elem) | UnrankedTensor (telem: elem)

definition kDynamic :: int where "kDynamic = - (2 ^ 63)"

fun is_ranked :: "ty \<Rightarrow> bool" where
  "is_ranked (RankedTensor s e) = True"
| "is_ranked (UnrankedTensor e) = False"

abbreviation rank :: "ty \<Rightarrow> nat" where "rank t \<equiv> length (tshape t)"

datatype operation =
    RmsNorm "u32 option"
  | Gelu
  | Silu
  | Add
  | Softmax "int option"
  | MatMul
  | Bias
  | Rope
  | Attention
  | KVCacheUpdate
  | FusedRmsNormMatMul "u32 option"
  | FusedMatMulBiasGelu
  | FusedResidualRmsNorm "u32 option"
  | FusedSoftmaxMask
  | QKVProjection "int option"
  | FusedKVAppendAttention

datatype ir_error =
    NotRanked
  | RankTooSmall
  | ContractionDiffers int int
  | ElementTypesDiffer
  | ShapesDiffer
  | BiasDiffers int int
  | NoNumHeads
  | HeadsNotPositive
  | HeadsDoNotDivide
  | WeightInputDiffers int int
  | WeightOutputDiffers int int
  | ResultCountDiffers

section \<open>Verifiers\<close>

definition MatMulOp_verify :: "ty \<Rightarrow> ty \<Rightarrow> ir_error option" where
  "MatMulOp_verify a b =
     (if \<not> is_ranked a \<or> \<not> is_ranked b then Some NotRanked
      else if rank a < 2 \<or> rank b < 2 then Some RankTooSmall else None)"

definition AttentionOp_verify :: "ty \<Rightarrow> ty \<Rightarrow> ty \<Rightarrow> ir_error option" where
  "AttentionOp_verify q k v =
     (if \<not> is_ranked q \<or> \<not> is_ranked k \<or> \<not> is_ranked v then Some NotRanked
      else if rank q < 2 \<or> rank k < 2 \<or> rank v < 2 then Some RankTooSmall else None)"

section \<open>Shape inference\<close>

definition inferMatmulResultType :: "ty \<Rightarrow> ty \<Rightarrow> ir_error + ty list" where
  "inferMatmulResultType a b =
     (if rank a < 2 \<or> rank b < 2 then Inl RankTooSmall
      else let aK = last (tshape a); bK = tshape b ! (rank b - 2)
           in if aK \<noteq> bK then Inl (ContractionDiffers aK bK)
              else if telem a \<noteq> telem b then Inl ElementTypesDiffer
              else Inr [RankedTensor (butlast (tshape a) @ [last (tshape b)]) (telem a)])"

definition infer_same :: "ty \<Rightarrow> ir_error + ty list" where
  "infer_same input = Inr [input]"

definition infer_add :: "ty \<Rightarrow> ty \<Rightarrow> ir_error + ty list" where
  "infer_add lhs rhs =
     (if is_ranked lhs \<and> is_ranked rhs \<and> (tshape lhs \<noteq> tshape rhs \<or> telem lhs \<noteq> telem rhs)
      then Inl ShapesDiffer else Inr [lhs])"

definition infer_fused_residual_rmsnorm :: "ty \<Rightarrow> ty \<Rightarrow> ir_error + ty list" where
  "infer_fused_residual_rmsnorm residual input =
     (if is_ranked residual \<and> is_ranked input \<and> (tshape residual \<noteq> tshape input \<or> telem residual \<noteq> telem input)
      then Inl ShapesDiffer else Inr [residual])"

definition infer_matmul :: "ty \<Rightarrow> ty \<Rightarrow> ir_error + ty list" where
  "infer_matmul a b = (if \<not> is_ranked a \<or> \<not> is_ranked b then Inl NotRanked else inferMatmulResultType a b)"

definition infer_fused_rmsnorm_matmul :: "ty \<Rightarrow> ty \<Rightarrow> ir_error + ty list" where
  "infer_fused_rmsnorm_matmul input weight =
     (if \<not> is_ranked input \<or> \<not> is_ranked weight then Inl NotRanked else inferMatmulResultType input weight)"

definition infer_fused_matmul_bias_gelu :: "ty \<Rightarrow> ty \<Rightarrow> ty \<Rightarrow> ir_error + ty list" where
  "infer_fused_matmul_bias_gelu a b bias =
     (if \<not> is_ranked a \<or> \<not> is_ranked b then Inl NotRanked
      else case inferMatmulResultType a b of
             Inl e \<Rightarrow> Inl e
           | Inr res \<Rightarrow>
               (if is_ranked bias \<and> 1 \<le> rank bias
                then let n = last (tshape (last res))
                     in if last (tshape bias) \<noteq> n then Inl (BiasDiffers (last (tshape bias)) n) else Inr res
                else Inr res))"

definition infer_bias :: "ty \<Rightarrow> ty \<Rightarrow> ir_error + ty list" where
  "infer_bias input bias =
     (if \<not> is_ranked input then Inl NotRanked
      else if is_ranked bias \<and> 1 \<le> rank bias \<and> 1 \<le> rank input \<and> last (tshape bias) \<noteq> last (tshape input)
      then Inl (BiasDiffers (last (tshape bias)) (last (tshape input)))
      else Inr [input])"

text \<open>\<open>None\<close> is the overflow of \<open>3 * hidden\<close>, which is undefined.\<close>

definition infer_qkv_projection :: "int option \<Rightarrow> ty \<Rightarrow> ty \<Rightarrow> (ir_error + ty list) option" where
  "infer_qkv_projection num_heads input weight =
     (if \<not> is_ranked input \<or> \<not> is_ranked weight then Some (Inl NotRanked)
      else if rank input < 2 then Some (Inl RankTooSmall)
      else case num_heads of
             None \<Rightarrow> Some (Inl NoNumHeads)
           | Some heads \<Rightarrow>
               (let hidden = last (tshape input);
                    wIn = tshape weight ! (rank weight - 2);
                    wOut = last (tshape weight)
                in if heads \<le> 0 then Some (Inl HeadsNotPositive)
                   else if crem hidden heads \<noteq> 0 then Some (Inl HeadsDoNotDivide)
                   else if 2 \<le> rank weight \<and> wIn \<noteq> hidden then Some (Inl (WeightInputDiffers wIn hidden))
                   else if 2 \<le> rank weight \<and> \<not> in_i64 (3 * hidden) then None
                   else if 2 \<le> rank weight \<and> wOut \<noteq> 3 * hidden then Some (Inl (WeightOutputDiffers wOut (3 * hidden)))
                   else let qkv = RankedTensor (take (rank input - 2) (tshape input) @
                                    [heads, tshape input ! (rank input - 2), cquot hidden heads]) (telem input)
                        in Some (Inr [qkv, qkv, qkv])))"

text \<open>The dispatch of \<open>InferTypeOpInterface\<close>. The operand counts are those of the op definitions; MLIR
  rejects any other before a pass runs, and the model gives \<open>None\<close>.\<close>

definition on1 :: "('a \<Rightarrow> 'b) \<Rightarrow> 'a list \<Rightarrow> 'b option" where
  "on1 f xs = (case xs of [x] \<Rightarrow> Some (f x) | _ \<Rightarrow> None)"

definition on2 :: "('a \<Rightarrow> 'a \<Rightarrow> 'b) \<Rightarrow> 'a list \<Rightarrow> 'b option" where
  "on2 f xs = (case xs of [x, y] \<Rightarrow> Some (f x y) | _ \<Rightarrow> None)"

definition on3 :: "('a \<Rightarrow> 'a \<Rightarrow> 'a \<Rightarrow> 'b) \<Rightarrow> 'a list \<Rightarrow> 'b option" where
  "on3 f xs = (case xs of [x, y, z] \<Rightarrow> Some (f x y z) | _ \<Rightarrow> None)"

definition on4 :: "('a \<Rightarrow> 'a \<Rightarrow> 'a \<Rightarrow> 'a \<Rightarrow> 'b) \<Rightarrow> 'a list \<Rightarrow> 'b option" where
  "on4 f xs = (case xs of [x, y, z, w] \<Rightarrow> Some (f x y z w) | _ \<Rightarrow> None)"

primrec inferReturnTypes :: "operation \<Rightarrow> ty list \<Rightarrow> (ir_error + ty list) option" where
  "inferReturnTypes (RmsNorm e) ts = on1 infer_same ts"
| "inferReturnTypes Gelu ts = on1 infer_same ts"
| "inferReturnTypes Silu ts = on1 infer_same ts"
| "inferReturnTypes (Softmax a) ts = on1 infer_same ts"
| "inferReturnTypes Rope ts = on3 (\<lambda>input c s. infer_same input) ts"
| "inferReturnTypes FusedSoftmaxMask ts = on2 (\<lambda>input m. infer_same input) ts"
| "inferReturnTypes Add ts = on2 infer_add ts"
| "inferReturnTypes (FusedResidualRmsNorm e) ts = on2 infer_fused_residual_rmsnorm ts"
| "inferReturnTypes MatMul ts = on2 infer_matmul ts"
| "inferReturnTypes (FusedRmsNormMatMul e) ts = on2 infer_fused_rmsnorm_matmul ts"
| "inferReturnTypes FusedMatMulBiasGelu ts = on3 infer_fused_matmul_bias_gelu ts"
| "inferReturnTypes Bias ts = on2 infer_bias ts"
| "inferReturnTypes Attention ts = on3 (\<lambda>query k v. infer_same query) ts"
| "inferReturnTypes KVCacheUpdate ts = on3 (\<lambda>cache nk nv. infer_same cache) ts"
| "inferReturnTypes FusedKVAppendAttention ts = on4 (\<lambda>query cache nk nv. Inr [query, cache]) ts"
| "inferReturnTypes (QKVProjection h) ts = on2 (infer_qkv_projection h) ts \<bind> id"

section \<open>The pass\<close>

text \<open>A function body: operations in order, with the numbers of the values they use and define, and
  the values it returns. An operation of another dialect has no shape inference and is skipped.\<close>

datatype any_op = PolyKernel operation | Foreign string

datatype attr = StringAttr string | TypeAttr ty | IntegerAttr int | BoolAttr bool

record instr =
  iop :: any_op
  operands :: "nat list"
  results :: "nat list"
  attrs :: "string \<rightharpoonup> attr"

type_synonym types = "nat \<Rightarrow> ty"

fun assign :: "nat list \<Rightarrow> 'a list \<Rightarrow> (nat \<Rightarrow> 'a) \<Rightarrow> nat \<Rightarrow> 'a" where
  "assign (r # rs) (t # ts) \<tau> = assign rs ts (\<tau>(r := t))"
| "assign _ _ \<tau> = \<tau>"

definition infer_instr :: "instr \<Rightarrow> types \<Rightarrow> (ir_error + types) option" where
  "infer_instr i \<tau> =
     (case iop i of
        Foreign _ \<Rightarrow> Some (Inr \<tau>)
      | PolyKernel opn \<Rightarrow>
          (case inferReturnTypes opn (map \<tau> (operands i)) of
             None \<Rightarrow> None
           | Some (Inl e) \<Rightarrow> Some (Inl e)
           | Some (Inr ts) \<Rightarrow>
               (if length ts \<noteq> length (results i) then Some (Inl ResultCountDiffers)
                else Some (Inr (assign (results i) ts \<tau>)))))"

fun infer_shapes :: "instr list \<Rightarrow> types \<Rightarrow> (ir_error + types) option" where
  "infer_shapes [] \<tau> = Some (Inr \<tau>)"
| "infer_shapes (i # body) \<tau> =
     (case infer_instr i \<tau> of
        Some (Inr \<tau>') \<Rightarrow> infer_shapes body \<tau>'
      | r \<Rightarrow> r)"

section \<open>The shape rules\<close>

text \<open>The rules of the operations as they are written on paper, with the dimensions named. A bias is a
  vector along the last dimension; a bias without a last dimension, or of unknown rank, fits everything.\<close>

inductive bias_fits :: "int \<Rightarrow> ty \<Rightarrow> bool" where
  "bias_fits n (RankedTensor (r @ [n]) e)"
| "bias_fits n (RankedTensor [] e)"
| "bias_fits n (UnrankedTensor e)"

inductive qkv_weight :: "int \<Rightarrow> ty \<Rightarrow> bool" where
  "in_i64 (3 * hidden) \<Longrightarrow> qkv_weight hidden (RankedTensor (ws @ [hidden, 3 * hidden]) e)"
| "length s < 2 \<Longrightarrow> qkv_weight hidden (RankedTensor s e)"

inductive op_typing :: "operation \<Rightarrow> ty list \<Rightarrow> ty list \<Rightarrow> bool" where
  rmsnorm_ty: "op_typing (RmsNorm eps) [t] [t]"
| gelu_ty: "op_typing Gelu [t] [t]"
| silu_ty: "op_typing Silu [t] [t]"
| softmax_ty: "op_typing (Softmax axis) [t] [t]"
| mask_ty: "op_typing FusedSoftmaxMask [t, m] [t]"
| rope_ty: "op_typing Rope [t, c, s] [t]"
| add_ty: "op_typing Add [RankedTensor s e, RankedTensor s e] [RankedTensor s e]"
| add_unranked_ty: "\<not> (is_ranked a \<and> is_ranked b) \<Longrightarrow> op_typing Add [a, b] [a]"
| residual_ty: "op_typing (FusedResidualRmsNorm eps) [RankedTensor s e, RankedTensor s e] [RankedTensor s e]"
| residual_unranked_ty: "\<not> (is_ranked a \<and> is_ranked b) \<Longrightarrow> op_typing (FusedResidualRmsNorm eps) [a, b] [a]"
| matmul_ty: "op_typing MatMul [RankedTensor (bs @ [m, k]) e, RankedTensor (cs @ [k, n]) e] [RankedTensor (bs @ [m, n]) e]"
| rmsnorm_matmul_ty: "op_typing (FusedRmsNormMatMul eps) [RankedTensor (bs @ [m, k]) e, RankedTensor (cs @ [k, n]) e]
    [RankedTensor (bs @ [m, n]) e]"
| matmul_bias_gelu_ty: "bias_fits n b \<Longrightarrow>
    op_typing FusedMatMulBiasGelu [RankedTensor (bs @ [m, k]) e, RankedTensor (cs @ [k, n]) e, b] [RankedTensor (bs @ [m, n]) e]"
| bias_ty: "bias_fits n b \<Longrightarrow> op_typing Bias [RankedTensor (s @ [n]) e, b] [RankedTensor (s @ [n]) e]"
| bias_scalar_ty: "op_typing Bias [RankedTensor [] e, b] [RankedTensor [] e]"
| attention_ty: "op_typing Attention [q, k, v] [q]"
| kv_update_ty: "op_typing KVCacheUpdate [c, nk, nv] [c]"
| kv_append_attention_ty: "op_typing FusedKVAppendAttention [q, c, nk, nv] [q, c]"
| qkv_ty: "0 < heads \<Longrightarrow> qkv_weight (heads * d) w \<Longrightarrow>
    op_typing (QKVProjection (Some heads)) [RankedTensor (bs @ [sq, heads * d]) e, w] (replicate 3 (RankedTensor (bs @ [heads, sq, d]) e))"

inductive_simps op_typing_simps:
  "op_typing (RmsNorm eps) ts rs" "op_typing Gelu ts rs" "op_typing Silu ts rs" "op_typing (Softmax axis) ts rs"
  "op_typing FusedSoftmaxMask ts rs" "op_typing Rope ts rs" "op_typing Add ts rs" "op_typing (FusedResidualRmsNorm eps) ts rs"
  "op_typing MatMul ts rs" "op_typing (FusedRmsNormMatMul eps) ts rs" "op_typing FusedMatMulBiasGelu ts rs" "op_typing Bias ts rs"
  "op_typing Attention ts rs" "op_typing KVCacheUpdate ts rs" "op_typing FusedKVAppendAttention ts rs" "op_typing (QKVProjection h) ts rs"

definition typed :: "types \<Rightarrow> instr \<Rightarrow> bool" where
  "typed \<tau> i \<longleftrightarrow> (case iop i of Foreign _ \<Rightarrow> True | PolyKernel opn \<Rightarrow> op_typing opn (map \<tau> (operands i)) (map \<tau> (results i)))"

lemma one_dim: "1 \<le> length s \<longleftrightarrow> (\<exists>bs k. s = bs @ [k])"
  by (cases s rule: rev_cases) auto

lemma two_dims: "2 \<le> length s \<longleftrightarrow> (\<exists>bs m k. s = bs @ [m, k])"
proof (cases s rule: rev_cases)
  case (snoc s' k)
  then show ?thesis by (cases s' rule: rev_cases) auto
qed simp

lemma matmul_rule:
  "is_ranked a \<and> is_ranked b \<and> inferMatmulResultType a b = Inr rs \<longleftrightarrow>
    (\<exists>bs m k e cs n. a = RankedTensor (bs @ [m, k]) e \<and> b = RankedTensor (cs @ [k, n]) e \<and> rs = [RankedTensor (bs @ [m, n]) e])"
  (is "?l \<longleftrightarrow> ?r")
proof
  assume l: ?l
  then obtain s e t e' where ab: "a = RankedTensor s e" "b = RankedTensor t e'" by (cases a; cases b) auto
  have "2 \<le> length s" "2 \<le> length t" using l by (auto simp: ab inferMatmulResultType_def split: if_splits)
  then obtain bs m k cs k' n where "s = bs @ [m, k]" "t = cs @ [k', n]" unfolding two_dims by blast
  with l show ?r by (auto simp: ab inferMatmulResultType_def nth_append butlast_append Let_def split: if_splits)
next
  assume ?r
  then show ?l by (auto simp: inferMatmulResultType_def nth_append butlast_append Let_def)
qed

lemma matmul_rules:
  "infer_matmul a b = Inr rs \<longleftrightarrow>
    (\<exists>bs m k e cs n. a = RankedTensor (bs @ [m, k]) e \<and> b = RankedTensor (cs @ [k, n]) e \<and> rs = [RankedTensor (bs @ [m, n]) e])"
  "infer_fused_rmsnorm_matmul a b = Inr rs \<longleftrightarrow>
    (\<exists>bs m k e cs n. a = RankedTensor (bs @ [m, k]) e \<and> b = RankedTensor (cs @ [k, n]) e \<and> rs = [RankedTensor (bs @ [m, n]) e])"
  unfolding matmul_rule [symmetric] by (auto simp: infer_matmul_def infer_fused_rmsnorm_matmul_def)

lemma bias_fits_iff: "bias_fits n b \<longleftrightarrow> \<not> (is_ranked b \<and> 1 \<le> rank b \<and> last (tshape b) \<noteq> n)"
proof (cases b)
  case (RankedTensor s e)
  then show ?thesis by (cases s rule: rev_cases) (auto simp: bias_fits.simps)
qed (simp add: bias_fits.simps)

lemma crem_0_iff: "crem hidden heads = 0 \<longleftrightarrow> hidden = heads * cquot hidden heads"
  by (auto simp: crem_def)

lemma cquot_mult: "0 < b \<Longrightarrow> cquot (b * d) b = d"
  by (simp add: cquot_def abs_mult sgn_mult mult_sgn_abs)

lemma qkv_weight_iff: "qkv_weight h w \<longleftrightarrow>
    is_ranked w \<and> (2 \<le> rank w \<longrightarrow> tshape w ! (rank w - 2) = h \<and> in_i64 (3 * h) \<and> last (tshape w) = 3 * h)"
proof (cases w)
  case (RankedTensor s e)
  show ?thesis
  proof (cases "2 \<le> length s")
    case True
    then obtain bs m k where "s = bs @ [m, k]" unfolding two_dims by blast
    then show ?thesis by (auto simp: RankedTensor qkv_weight.simps nth_append)
  qed (auto simp: RankedTensor qkv_weight.simps)
qed (simp add: qkv_weight.simps)

lemma qkv_rule:
  "infer_qkv_projection h x w = Some (Inr rs) \<longleftrightarrow>
    (\<exists>heads d bs sq e. h = Some heads \<and> 0 < heads \<and> qkv_weight (heads * d) w \<and> x = RankedTensor (bs @ [sq, heads * d]) e \<and>
      rs = replicate 3 (RankedTensor (bs @ [heads, sq, d]) e))"
  (is "?l \<longleftrightarrow> ?r")
proof
  assume l: ?l
  then obtain s e heads where x: "x = RankedTensor s e" "is_ranked w" "h = Some heads" "0 < heads" "2 \<le> length s"
    by (cases x; cases h) (auto simp: infer_qkv_projection_def Let_def split: if_splits)
  then obtain bs sq hid where s: "s = bs @ [sq, hid]" unfolding two_dims by blast
  have r: "hid = heads * cquot hid heads" "qkv_weight hid w" "rs = replicate 3 (RankedTensor (bs @ [heads, sq, cquot hid heads]) e)"
    using l x(2-4) unfolding x(1) s
    by (auto simp: infer_qkv_projection_def Let_def crem_0_iff qkv_weight_iff nth_append numeral_3_eq_3 split: if_splits)
  show ?r
    by (intro exI [of _ heads] exI [of _ "cquot hid heads"] exI [of _ bs] exI [of _ sq] exI [of _ e])
      (use r x in \<open>simp add: s flip: r(1)\<close>)
next
  assume ?r
  then obtain heads d bs sq e where *: "h = Some heads" "0 < heads" "qkv_weight (heads * d) w" "x = RankedTensor (bs @ [sq, heads * d]) e"
    "rs = replicate 3 (RankedTensor (bs @ [heads, sq, d]) e)" by blast
  then have "is_ranked w" "2 \<le> rank w \<Longrightarrow> tshape w ! (rank w - 2) = heads * d \<and> in_i64 (3 * (heads * d)) \<and> last (tshape w) = 3 * (heads * d)"
    by (simp_all add: qkv_weight_iff)
  then show ?l using *(2) unfolding *
    by (auto simp: infer_qkv_projection_def Let_def crem_0_iff cquot_mult nth_append numeral_3_eq_3)
qed

text \<open>A rule reads off what a successful inference has matched.\<close>

lemma bias_rule:
  "infer_bias x b = Inr rs \<longleftrightarrow>
    (\<exists>s n e. x = RankedTensor (s @ [n]) e \<and> bias_fits n b \<and> rs = [x]) \<or> (\<exists>e. x = RankedTensor [] e \<and> rs = [x])"
proof (cases x)
  case (RankedTensor s e)
  then show ?thesis by (cases s rule: rev_cases) (auto simp: infer_bias_def bias_fits_iff)
qed (simp add: infer_bias_def)

lemma matmul_bias_gelu_rule:
  "infer_fused_matmul_bias_gelu a b c = Inr rs \<longleftrightarrow>
    (\<exists>bs m k e cs n. a = RankedTensor (bs @ [m, k]) e \<and> b = RankedTensor (cs @ [k, n]) e \<and> bias_fits n c \<and> rs = [RankedTensor (bs @ [m, n]) e])"
proof -
  have "infer_fused_matmul_bias_gelu a b c = Inr rs \<longleftrightarrow>
      (is_ranked a \<and> is_ranked b \<and> inferMatmulResultType a b = Inr rs) \<and> bias_fits (last (tshape (last rs))) c"
    by (auto simp: infer_fused_matmul_bias_gelu_def bias_fits_iff Let_def split: sum.splits if_splits)
  then show ?thesis unfolding matmul_rule by auto
qed

lemma on_simps:
  "on1 f ts = Some r \<longleftrightarrow> (\<exists>x. ts = [x] \<and> r = f x)" "on2 g ts = Some r \<longleftrightarrow> (\<exists>x y. ts = [x, y] \<and> r = g x y)"
  "on3 h ts = Some r \<longleftrightarrow> (\<exists>x y z. ts = [x, y, z] \<and> r = h x y z)" "on4 k ts = Some r \<longleftrightarrow> (\<exists>x y z w. ts = [x, y, z, w] \<and> r = k x y z w)"
  by (auto simp: on1_def on2_def on3_def on4_def split: list.splits)

lemma same_shape_rules:
  "infer_add a b = Inr rs \<longleftrightarrow> rs = [a] \<and> (\<not> (is_ranked a \<and> is_ranked b) \<or> (\<exists>s e. a = RankedTensor s e \<and> b = RankedTensor s e))"
  "infer_fused_residual_rmsnorm a b = Inr rs \<longleftrightarrow>
    rs = [a] \<and> (\<not> (is_ranked a \<and> is_ranked b) \<or> (\<exists>s e. a = RankedTensor s e \<and> b = RankedTensor s e))"
  by (cases a; cases b; auto simp: infer_add_def infer_fused_residual_rmsnorm_def)+

theorem inferReturnTypes_rules: "inferReturnTypes opn ts = Some (Inr rs) \<longleftrightarrow> op_typing opn ts rs"
proof (cases opn)
  case MatMul
  then show ?thesis by (auto simp: op_typing_simps on_simps eq_commute [of "Inr _"] matmul_rules)
next
  case (FusedRmsNormMatMul eps)
  then show ?thesis by (auto simp: op_typing_simps on_simps eq_commute [of "Inr _"] matmul_rules)
next
  case FusedMatMulBiasGelu
  then show ?thesis by (auto simp: op_typing_simps on_simps eq_commute [of "Inr _"] matmul_bias_gelu_rule)
next
  case Bias
  then show ?thesis by (auto simp: op_typing_simps on_simps eq_commute [of "Inr _"] bias_rule)
next
  case Add
  then show ?thesis by (simp add: op_typing_simps on_simps eq_commute [of "Inr _"] same_shape_rules) blast
next
  case (FusedResidualRmsNorm eps)
  then show ?thesis by (simp add: op_typing_simps on_simps eq_commute [of "Inr _"] same_shape_rules) blast
next
  case (QKVProjection h)
  have "on2 (infer_qkv_projection h) ts \<bind> id = Some (Inr rs) \<longleftrightarrow> (\<exists>x w. ts = [x, w] \<and> infer_qkv_projection h x w = Some (Inr rs))"
    by (auto simp: on2_def split: list.splits)
  then show ?thesis unfolding QKVProjection by (auto simp: op_typing_simps qkv_rule)
qed (auto simp: op_typing_simps on_simps infer_same_def)

section \<open>The pass follows the rules\<close>

text \<open>Values are defined once, before they are used.\<close>

fun ssa :: "nat set \<Rightarrow> instr list \<Rightarrow> bool" where
  "ssa D [] = True"
| "ssa D (i # body) \<longleftrightarrow> set (operands i) \<subseteq> D \<and> distinct (results i) \<and> set (results i) \<inter> D = {} \<and> ssa (D \<union> set (results i)) body"

definition well_typed :: "types \<Rightarrow> instr \<Rightarrow> bool" where
  "well_typed \<tau> i \<longleftrightarrow> (case iop i of Foreign _ \<Rightarrow> True
     | PolyKernel opn \<Rightarrow> inferReturnTypes opn (map \<tau> (operands i)) = Some (Inr (map \<tau> (results i))))"

lemma assign_other: "v \<notin> set rs \<Longrightarrow> assign rs ts \<tau> v = \<tau> v"
  by (induction rs ts \<tau> rule: assign.induct) auto

lemma assign_results: "distinct rs \<Longrightarrow> length ts = length rs \<Longrightarrow> map (assign rs ts \<tau>) rs = ts"
  by (induction rs ts \<tau> rule: assign.induct) (auto simp: assign_other)

lemma assign_same: "length ts = length rs \<Longrightarrow> ts = map \<tau> rs \<Longrightarrow> assign rs ts \<tau> = \<tau>"
  by (induction rs ts \<tau> rule: assign.induct) auto

lemma infer_instr_result:
  assumes "infer_instr i \<tau> = Some (Inr \<tau>')" "set (operands i) \<subseteq> D" "set (results i) \<inter> D = {}" "distinct (results i)"
  shows "(\<forall>v. v \<notin> set (results i) \<longrightarrow> \<tau>' v = \<tau> v) \<and> well_typed \<tau>' i"
proof (cases "iop i")
  case (PolyKernel opn)
  then obtain ts where ts: "inferReturnTypes opn (map \<tau> (operands i)) = Some (Inr ts)" "length ts = length (results i)"
    "\<tau>' = assign (results i) ts \<tau>"
    using assms(1) by (auto simp: infer_instr_def split: option.splits sum.splits if_splits)
  have "map \<tau>' (operands i) = map \<tau> (operands i)" unfolding ts(3) using assms(2,3) by (auto intro: assign_other)
  moreover have "map \<tau>' (results i) = ts" unfolding ts(3) by (rule assign_results) (use assms(4) ts(2) in auto)
  moreover have "\<forall>v. v \<notin> set (results i) \<longrightarrow> \<tau>' v = \<tau> v" unfolding ts(3) by (simp add: assign_other)
  ultimately show ?thesis using ts(1) by (simp only: well_typed_def PolyKernel any_op.case simp_thms)
qed (use assms(1) in \<open>simp add: infer_instr_def well_typed_def\<close>)

lemma infer_shapes_result:
  "infer_shapes body \<tau> = Some (Inr \<tau>') \<Longrightarrow> ssa D body \<Longrightarrow>
    (\<forall>v \<in> D. \<tau>' v = \<tau> v) \<and> (\<forall>i \<in> set body. well_typed \<tau>' i)"
proof (induction body arbitrary: \<tau> D)
  case (Cons i body)
  then obtain \<tau>1 where t1: "infer_instr i \<tau> = Some (Inr \<tau>1)" "infer_shapes body \<tau>1 = Some (Inr \<tau>')"
    by (auto split: option.splits sum.splits)
  have s: "set (operands i) \<subseteq> D" "set (results i) \<inter> D = {}" "distinct (results i)" "ssa (D \<union> set (results i)) body"
    using Cons.prems(2) by simp_all
  note one = infer_instr_result [OF t1(1) s(1-3)] and rest = Cons.IH [OF t1(2) s(4)]
  have keep: "\<tau>' v = \<tau>1 v" if "v \<in> D \<union> set (results i)" for v using rest that by blast
  have "map \<tau>' (operands i) = map \<tau>1 (operands i)" "map \<tau>' (results i) = map \<tau>1 (results i)"
    using keep s(1) by (auto intro!: map_cong)
  then have "well_typed \<tau>' i" using one unfolding well_typed_def by (simp only:)
  moreover have "\<forall>v \<in> D. \<tau>' v = \<tau> v" using keep one s(2) by (metis IntI UnI1 empty_iff)
  ultimately show ?case using rest by simp
qed simp

lemma infer_shapes_stable:
  "\<forall>i \<in> set body. well_typed \<tau> i \<Longrightarrow> infer_shapes body \<tau> = Some (Inr \<tau>)"
proof (induction body)
  case (Cons i body)
  then have w: "well_typed \<tau> i" by simp
  have "infer_instr i \<tau> = Some (Inr \<tau>)"
  proof (cases "iop i")
    case (PolyKernel opn)
    then show ?thesis using w by (simp add: infer_instr_def well_typed_def assign_same)
  qed (simp add: infer_instr_def)
  with Cons show ?case by simp
qed simp

lemma typed_well_typed: "typed \<tau> i \<longleftrightarrow> well_typed \<tau> i"
  by (simp add: typed_def well_typed_def inferReturnTypes_rules split: any_op.split)

text \<open>The values whose types the pass does not choose: those the body does not define, and the results of
  operations of other dialects.\<close>

fun is_foreign :: "any_op \<Rightarrow> bool" where
  "is_foreign (Foreign name) = True"
| "is_foreign (PolyKernel opn) = False"

definition given :: "nat set \<Rightarrow> instr list \<Rightarrow> nat set" where
  "given D body = D \<union> (\<Union>i \<in> set (filter (\<lambda>i. is_foreign (iop i)) body). set (results i))"

lemma ssa_results: "ssa D body \<Longrightarrow> i \<in> set body \<Longrightarrow> set (results i) \<inter> D = {}"
  by (induction body arbitrary: D) fastforce+

lemma ssa_one_def:
  "ssa D body \<Longrightarrow> i \<in> set body \<Longrightarrow> j \<in> set body \<Longrightarrow> v \<in> set (results i) \<Longrightarrow> v \<in> set (results j) \<Longrightarrow> i = j"
proof (induction body arbitrary: D)
  case (Cons k body)
  have "ssa (D \<union> set (results k)) body" using Cons.prems(1) by simp
  note later = ssa_results [OF this] and IH = Cons.IH [OF this]
  show ?case
    using Cons.prems(2-5) later [of i] later [of j] IH by auto
qed simp

lemma infer_shapes_untouched:
  "infer_shapes body \<tau> = Some (Inr \<tau>') \<Longrightarrow> (\<And>i. i \<in> set body \<Longrightarrow> v \<in> set (results i) \<Longrightarrow> is_foreign (iop i)) \<Longrightarrow> \<tau>' v = \<tau> v"
proof (induction body arbitrary: \<tau>)
  case (Cons i body)
  then obtain \<tau>1 where t1: "infer_instr i \<tau> = Some (Inr \<tau>1)" "infer_shapes body \<tau>1 = Some (Inr \<tau>')"
    by (auto split: option.splits sum.splits)
  have "\<tau>' v = \<tau>1 v" using Cons.IH [OF t1(2)] Cons.prems(2) by simp
  moreover have "\<tau>1 v = \<tau> v"
    using t1(1) Cons.prems(2) [of i] assign_other [of v "results i"]
    by (cases "iop i") (auto simp: infer_instr_def split: option.splits sum.splits if_splits)
  ultimately show ?case by simp
qed simp

lemma infer_shapes_given:
  assumes "infer_shapes body \<tau> = Some (Inr \<tau>')" "ssa D body" "v \<in> given D body"
  shows "\<tau>' v = \<tau> v"
proof (rule infer_shapes_untouched [OF assms(1)])
  fix i assume i: "i \<in> set body" "v \<in> set (results i)"
  then have "v \<notin> D" using ssa_results [OF assms(2)] by blast
  then obtain j where "j \<in> set body" "v \<in> set (results j)" "is_foreign (iop j)"
    using assms(3) by (auto simp: given_def)
  then show "is_foreign (iop i)" using ssa_one_def [OF assms(2) i(1) _ i(2)] by blast
qed

lemma infer_shapes_complete:
  "ssa D body \<Longrightarrow> \<forall>i \<in> set body. typed \<sigma> i \<Longrightarrow> \<forall>v \<in> given D body. \<sigma> v = \<tau> v \<Longrightarrow> \<exists>\<tau>'. infer_shapes body \<tau> = Some (Inr \<tau>')"
proof (induction body arbitrary: \<tau> D)
  case (Cons i body)
  have s: "set (operands i) \<subseteq> D" "set (results i) \<inter> D = {}" "distinct (results i)" "ssa (D \<union> set (results i)) body"
    using Cons.prems(1) by simp_all
  have D: "\<forall>v \<in> D. \<sigma> v = \<tau> v" using Cons.prems(3) by (simp add: given_def)
  have later: "v \<notin> set (results i)" if "v \<in> given {} body" for v
  proof -
    obtain j where "j \<in> set body" "v \<in> set (results j)" using \<open>v \<in> given {} body\<close> by (auto simp: given_def)
    then show ?thesis using ssa_results [OF s(4)] by blast
  qed
  have step: "\<exists>\<tau>1. infer_instr i \<tau> = Some (Inr \<tau>1) \<and> (\<forall>v \<in> set (results i). \<sigma> v = \<tau>1 v) \<and> (\<forall>v. v \<notin> set (results i) \<longrightarrow> \<tau>1 v = \<tau> v)"
  proof (cases "iop i")
    case (PolyKernel opn)
    have "typed \<sigma> i" using Cons.prems(2) by simp
    then have "op_typing opn (map \<sigma> (operands i)) (map \<sigma> (results i))" using PolyKernel by (simp add: typed_def)
    moreover have "map \<tau> (operands i) = map \<sigma> (operands i)" using D s(1) by (intro map_cong) auto
    ultimately have "inferReturnTypes opn (map \<tau> (operands i)) = Some (Inr (map \<sigma> (results i)))"
      by (simp only: inferReturnTypes_rules)
    then have "infer_instr i \<tau> = Some (Inr (assign (results i) (map \<sigma> (results i)) \<tau>))" using PolyKernel by (simp add: infer_instr_def)
    moreover have "map (assign (results i) (map \<sigma> (results i)) \<tau>) (results i) = map \<sigma> (results i)"
      by (rule assign_results [OF s(3)]) simp
    ultimately show ?thesis by (auto simp: assign_other)
  next
    case (Foreign name)
    then show ?thesis using Cons.prems(3) by (auto simp: infer_instr_def given_def)
  qed
  then obtain \<tau>1 where t1: "infer_instr i \<tau> = Some (Inr \<tau>1)" "\<forall>v \<in> set (results i). \<sigma> v = \<tau>1 v" "\<forall>v. v \<notin> set (results i) \<longrightarrow> \<tau>1 v = \<tau> v"
    by blast
  have "\<sigma> v = \<tau>1 v" if v: "v \<in> given (D \<union> set (results i)) body" for v
  proof (cases "v \<in> set (results i)")
    case False
    then have "v \<in> D \<or> v \<in> given {} body" using v by (auto simp: given_def)
    then have "v \<in> given D (i # body)" by (auto simp: given_def)
    then show ?thesis using Cons.prems(3) t1(3) False by simp
  qed (use t1(2) in simp)
  then have "\<exists>\<tau>'. infer_shapes body \<tau>1 = Some (Inr \<tau>')" using Cons.IH [OF s(4)] Cons.prems(2) by simp
  then show ?case by (simp add: t1(1))
qed simp

text \<open>C25. \<open>--infer-shapes\<close> is sound and complete for the shape rules of the dialect: on a body in SSA form it
  succeeds exactly when some assignment of types that keeps the given ones follows the rule of every
  operation, and then the types it leaves are such an assignment, and running it again changes nothing.
  (\<open>None\<close>, a wrong operand count or an overflowing weight dimension, counts as no success.)\<close>

theorem infer_shapes_sound:
  assumes "ssa D body"
  shows "((\<exists>\<tau>'. infer_shapes body \<tau> = Some (Inr \<tau>')) \<longleftrightarrow>
      (\<exists>\<sigma>. (\<forall>v \<in> given D body. \<sigma> v = \<tau> v) \<and> (\<forall>i \<in> set body. typed \<sigma> i))) \<and>
    (\<forall>\<tau>'. infer_shapes body \<tau> = Some (Inr \<tau>') \<longrightarrow>
      (\<forall>v \<in> given D body. \<tau>' v = \<tau> v) \<and> (\<forall>i \<in> set body. typed \<tau>' i) \<and> infer_shapes body \<tau>' = Some (Inr \<tau>'))"
proof -
  have "(\<forall>v \<in> given D body. \<tau>' v = \<tau> v) \<and> (\<forall>i \<in> set body. typed \<tau>' i) \<and> infer_shapes body \<tau>' = Some (Inr \<tau>')"
    if "infer_shapes body \<tau> = Some (Inr \<tau>')" for \<tau>'
    using infer_shapes_result [OF that assms] infer_shapes_given [OF that assms] infer_shapes_stable
    unfolding typed_well_typed by blast
  then show ?thesis using infer_shapes_complete [OF assms] by blast
qed

definition mlp_body :: "instr list" where
  "mlp_body =
     [\<lparr>iop = PolyKernel (RmsNorm None), operands = [0], results = [4], attrs = Map.empty\<rparr>,
      \<lparr>iop = PolyKernel MatMul, operands = [4, 1], results = [5], attrs = Map.empty\<rparr>,
      \<lparr>iop = PolyKernel Bias, operands = [5, 2], results = [6], attrs = Map.empty\<rparr>,
      \<lparr>iop = PolyKernel Gelu, operands = [6], results = [7], attrs = Map.empty\<rparr>]"

definition mlp_types :: types where
  "mlp_types v = (if v = 0 then RankedTensor [kDynamic, 8] F16 else if v = 1 then RankedTensor [8, 32] F16
     else if v = 2 then RankedTensor [32] F16 else UnrankedTensor F16)"

lemma infer_shapes_sound_witness:
  "\<exists>\<tau>. infer_shapes mlp_body mlp_types = Some (Inr \<tau>) \<and> (\<forall>i \<in> set mlp_body. typed \<tau> i) \<and>
     \<tau> 7 = RankedTensor [kDynamic, 32] F16 \<and> infer_shapes mlp_body \<tau> = Some (Inr \<tau>)"
proof -
  have ssa: "ssa {0, 1, 2} mlp_body" by (simp add: mlp_body_def)
  obtain \<tau> where t: "infer_shapes mlp_body mlp_types = Some (Inr \<tau>)" "\<tau> 7 = RankedTensor [kDynamic, 32] F16"
    by (simp add: mlp_body_def infer_instr_def mlp_types_def on1_def on2_def infer_same_def infer_matmul_def infer_bias_def
        inferMatmulResultType_def)
  from infer_shapes_sound [OF ssa, of mlp_types] t show ?thesis by blast
qed

text \<open>A dynamic hidden size passes the division test for a power of two, and its quotient becomes a dimension
  that is neither dynamic nor a size.\<close>

lemma qkv_dynamic_hidden:
  "infer_qkv_projection (Some 8) (RankedTensor [4, kDynamic] F16) (RankedTensor [5] F16) =
    Some (Inr (replicate 3 (RankedTensor [8, 4, - (2 ^ 60)] F16)))"
  by (simp add: infer_qkv_projection_def Let_def kDynamic_def crem_def cquot_def numeral_3_eq_3)

text \<open>With a weight of rank two the same hidden size overflows.\<close>

lemma qkv_dynamic_overflow:
  "infer_qkv_projection (Some 8) (RankedTensor [4, kDynamic] F16) (RankedTensor [kDynamic, n] F16) = None"
  by (simp add: infer_qkv_projection_def Let_def kDynamic_def crem_def cquot_def in_i64_def)

end
