(* ===== verification/IrRewrite.thy ===== *)
theory IrRewrite
  imports IrTypes
begin

text \<open>
  Function bodies of the dialect and what they compute, the rewriter's primitives (\<open>getDefiningOp\<close>,
  \<open>hasOneUse\<close>, \<open>replaceOpWithNewOp\<close>, \<open>eraseOp\<close>), and the library of the rewriting proofs: SSA form,
  the equations of a run, and when a rewrite preserves them.
\<close>

section \<open>Functions and their meaning\<close>

record func =
  body :: "instr list"
  rets :: "nat list"
  vtypes :: types

text \<open>What the operations compute, on any kind of tensor value: the unfused ones, and the fused append and
  attention, whose summary names its operands and results but not the keys the attention reads.\<close>

record 'v kernels =
  k_rmsnorm :: "u32 option \<Rightarrow> 'v \<Rightarrow> 'v"
  k_gelu :: "'v \<Rightarrow> 'v"
  k_silu :: "'v \<Rightarrow> 'v"
  k_add :: "'v \<Rightarrow> 'v \<Rightarrow> 'v"
  k_softmax :: "int option \<Rightarrow> 'v \<Rightarrow> 'v"
  k_matmul :: "'v \<Rightarrow> 'v \<Rightarrow> 'v"
  k_bias :: "'v \<Rightarrow> 'v \<Rightarrow> 'v"
  k_rope :: "'v \<Rightarrow> 'v \<Rightarrow> 'v \<Rightarrow> 'v"
  k_attention :: "'v \<Rightarrow> 'v \<Rightarrow> 'v \<Rightarrow> 'v"
  k_kv_update :: "'v \<Rightarrow> 'v \<Rightarrow> 'v \<Rightarrow> 'v"
  k_kv_append_attention :: "'v \<Rightarrow> 'v \<Rightarrow> 'v \<Rightarrow> 'v \<Rightarrow> 'v \<times> 'v"
  k_qkv :: "int option \<Rightarrow> 'v \<Rightarrow> 'v \<Rightarrow> 'v \<times> 'v \<times> 'v"
  k_foreign :: "string \<Rightarrow> 'v list \<Rightarrow> 'v list option"

text \<open>The other fused operations are defined as the chains their summaries in \<open>PolyKernelOps.td\<close> name.\<close>

primrec denote :: "'v kernels \<Rightarrow> operation \<Rightarrow> 'v list \<Rightarrow> 'v list option" where
  "denote K (RmsNorm e) vs = on1 (\<lambda>x. [k_rmsnorm K e x]) vs"
| "denote K Gelu vs = on1 (\<lambda>x. [k_gelu K x]) vs"
| "denote K Silu vs = on1 (\<lambda>x. [k_silu K x]) vs"
| "denote K Add vs = on2 (\<lambda>x y. [k_add K x y]) vs"
| "denote K (Softmax a) vs = on1 (\<lambda>x. [k_softmax K a x]) vs"
| "denote K MatMul vs = on2 (\<lambda>a b. [k_matmul K a b]) vs"
| "denote K Bias vs = on2 (\<lambda>x b. [k_bias K x b]) vs"
| "denote K Rope vs = on3 (\<lambda>x c s. [k_rope K x c s]) vs"
| "denote K Attention vs = on3 (\<lambda>q k v. [k_attention K q k v]) vs"
| "denote K KVCacheUpdate vs = on3 (\<lambda>c nk nv. [k_kv_update K c nk nv]) vs"
| "denote K (FusedRmsNormMatMul e) vs = on2 (\<lambda>x w. [k_matmul K (k_rmsnorm K e x) w]) vs"
| "denote K FusedMatMulBiasGelu vs = on3 (\<lambda>a b c. [k_gelu K (k_bias K (k_matmul K a b) c)]) vs"
| "denote K (FusedResidualRmsNorm e) vs = on2 (\<lambda>r x. [k_rmsnorm K e (k_add K r x)]) vs"
| "denote K FusedSoftmaxMask vs = on2 (\<lambda>x m. [k_softmax K None (k_add K x m)]) vs"
| "denote K (QKVProjection h) vs = on2 (\<lambda>x w. case k_qkv K h x w of (q, k, v) \<Rightarrow> [q, k, v]) vs"
| "denote K FusedKVAppendAttention vs = on4 (\<lambda>q c nk nv. case k_kv_append_attention K q c nk nv of (out, upd) \<Rightarrow> [out, upd]) vs"

definition denote_any :: "'v kernels \<Rightarrow> any_op \<Rightarrow> 'v list \<Rightarrow> 'v list option" where
  "denote_any K opn vs = (case opn of PolyKernel opn \<Rightarrow> denote K opn vs | Foreign name \<Rightarrow> k_foreign K name vs)"

text \<open>A run is \<open>None\<close> when an operation has the wrong number of operands or results.\<close>

fun run :: "'v kernels \<Rightarrow> instr list \<Rightarrow> (nat \<Rightarrow> 'v) \<Rightarrow> (nat \<Rightarrow> 'v) option" where
  "run K [] E = Some E"
| "run K (i # is) E =
     (case denote_any K (iop i) (map E (operands i)) of
        None \<Rightarrow> None
      | Some vs \<Rightarrow> if length vs = length (results i) then run K is (assign (results i) vs E) else None)"

definition returns :: "'v kernels \<Rightarrow> func \<Rightarrow> (nat \<Rightarrow> 'v) \<Rightarrow> 'v list option" where
  "returns K f E = map_option (\<lambda>E'. map E' (rets f)) (run K (body f) E)"

section \<open>The rewriter\<close>

text \<open>\<open>getDefiningOp\<close>, the number of uses of a value, and \<open>eraseOp\<close>.\<close>

definition defining :: "func \<Rightarrow> nat \<Rightarrow> instr option" where
  "defining f v = find (\<lambda>i. v \<in> set (results i)) (body f)"

definition uses :: "func \<Rightarrow> nat \<Rightarrow> nat" where
  "uses f v = sum_list (map (\<lambda>i. count_list (operands i) v) (body f)) + count_list (rets f) v"

definition eraseOp :: "instr \<Rightarrow> func \<Rightarrow> func" where
  "eraseOp p f = f\<lparr>body := filter (\<lambda>i. results i \<noteq> results p) (body f)\<rparr>"

definition replaceOpWithNewOp :: "nat \<Rightarrow> instr \<Rightarrow> func \<Rightarrow> func" where
  "replaceOpWithNewOp m i f = f\<lparr>body := (body f)[m := i]\<rparr>"

type_synonym pattern = "func \<Rightarrow> nat \<Rightarrow> func option"

section \<open>SSA form\<close>

definition defs :: "instr list \<Rightarrow> nat set" where
  "defs is = (\<Union>i \<in> set is. set (results i))"

lemma defs_simps [simp]: "defs [] = {}" "defs (i # is) = set (results i) \<union> defs is" "defs (xs @ ys) = defs xs \<union> defs ys"
  by (auto simp: defs_def)

lemma ssa_append: "ssa D (xs @ ys) \<longleftrightarrow> ssa D xs \<and> ssa (D \<union> defs xs) ys"
  by (induction xs arbitrary: D) (auto simp: Un_assoc)

lemma ssa_defs_disjoint: "ssa D is \<Longrightarrow> defs is \<inter> D = {}"
  by (induction "is" arbitrary: D) auto

lemma ssa_nth:
  assumes "ssa D is" "m < length is"
  shows "set (operands (is ! m)) \<subseteq> D \<union> defs (take m is)" "set (results (is ! m)) \<inter> (D \<union> defs (take m is)) = {}"
    "distinct (results (is ! m))" "ssa (D \<union> defs (take m is) \<union> set (results (is ! m))) (drop (Suc m) is)" "ssa D (take m is)"
proof -
  have "is = take m is @ is ! m # drop (Suc m) is" using assms(2) by (rule id_take_nth_drop)
  then have "ssa D (take m is @ is ! m # drop (Suc m) is)" using assms(1) by simp
  then have "ssa D (take m is)" "ssa (D \<union> defs (take m is)) (is ! m # drop (Suc m) is)" by (simp_all only: ssa_append)
  then show "set (operands (is ! m)) \<subseteq> D \<union> defs (take m is)" "set (results (is ! m)) \<inter> (D \<union> defs (take m is)) = {}"
    "distinct (results (is ! m))" "ssa (D \<union> defs (take m is) \<union> set (results (is ! m))) (drop (Suc m) is)" "ssa D (take m is)"
    by simp_all
qed

lemma ssa_unique:
  assumes "ssa D is" "j < length is" "k < length is" "v \<in> set (results (is ! j))" "v \<in> set (results (is ! k))"
  shows "j = k"
proof -
  have no: "\<not> a < b" if "a < length is" "b < length is" "v \<in> set (results (is ! a))" "v \<in> set (results (is ! b))" for a b
  proof
    assume "a < b"
    then have "is ! a \<in> set (take b is)" using that(1) by (metis in_set_conv_nth length_take min_less_iff_conj nth_take that(2))
    then have "v \<in> defs (take b is)" using that(3) by (auto simp: defs_def)
    with ssa_nth(2) [OF assms(1) that(2)] that(4) show False by blast
  qed
  show ?thesis using no [OF assms(2,3,4,5)] no [OF assms(3,2,5,4)] by linarith
qed

text \<open>A value an operation uses is defined before it.\<close>

lemma ssa_def_before:
  assumes "ssa D is" "m < length is" "p \<in> set is" "v \<in> set (results p)" "v \<in> set (operands (is ! m))"
  shows "\<exists>j < m. is ! j = p"
proof -
  have "v \<in> defs is" using assms(3,4) by (auto simp: defs_def)
  then have "v \<notin> D" using ssa_defs_disjoint [OF assms(1)] by blast
  then have "v \<in> defs (take m is)" using ssa_nth(1) [OF assms(1,2)] assms(5) by blast
  then obtain i where i: "i \<in> set (take m is)" "v \<in> set (results i)" unfolding defs_def by blast
  then obtain j where j: "j < m" "v \<in> set (results (is ! j))" using assms(2) by (metis in_set_conv_nth length_take min_less_iff_conj nth_take)
  obtain k where k: "k < length is" "is ! k = p" using assms(3) by (auto simp: in_set_conv_nth)
  have "j = k" using ssa_unique [OF assms(1) _ k(1) j(2)] j(1) assms(2,4) k(2) by simp
  with j k show ?thesis by blast
qed

lemma defs_take_mono: "j \<le> m \<Longrightarrow> defs (take j is) \<subseteq> defs (take m is)"
  using set_take_subset_set_take [of j m "is"] by (auto simp: defs_def)

text \<open>Dropping definitions nobody uses, or that are already there.\<close>

lemma ssa_filter:
  assumes "ssa D is" "D - X \<subseteq> D'" "D' \<subseteq> D \<union> X"
    and "\<And>i. i \<in> set is \<Longrightarrow> P i \<Longrightarrow> set (operands i) \<inter> X \<subseteq> D' \<and> set (results i) \<inter> X = {}"
    and "\<And>i. i \<in> set is \<Longrightarrow> \<not> P i \<Longrightarrow> set (results i) \<subseteq> X"
  shows "ssa D' (filter P is)"
  using assms
proof (induction "is" arbitrary: D D')
  case (Cons i "is")
  show ?case
  proof (cases "P i")
    case True
    have "ssa (D' \<union> set (results i)) (filter P is)"
    proof (rule Cons.IH [where D = "D \<union> set (results i)"])
      show "ssa (D \<union> set (results i)) is" using Cons.prems(1) by simp
      show "D \<union> set (results i) - X \<subseteq> D' \<union> set (results i)" using Cons.prems(2) by blast
      show "D' \<union> set (results i) \<subseteq> D \<union> set (results i) \<union> X" using Cons.prems(3) by blast
      show "set (operands j) \<inter> X \<subseteq> D' \<union> set (results i) \<and> set (results j) \<inter> X = {}" if "j \<in> set is" "P j" for j
        using Cons.prems(4) [of j] that by (simp add: le_supI1)
      show "set (results j) \<subseteq> X" if "j \<in> set is" "\<not> P j" for j using Cons.prems(5) [of j] that by simp
    qed
    moreover have "set (operands i) \<subseteq> D'" "set (results i) \<inter> D' = {}"
      using Cons.prems(1-3) Cons.prems(4) [of i] True by auto
    ultimately show ?thesis using True Cons.prems(1) by simp
  next
    case False
    have "ssa D' (filter P is)"
    proof (rule Cons.IH [where D = "D \<union> set (results i)"])
      have r: "set (results i) \<subseteq> X" using Cons.prems(5) [of i] False by simp
      show "ssa (D \<union> set (results i)) is" using Cons.prems(1) by simp
      show "D \<union> set (results i) - X \<subseteq> D'" "D' \<subseteq> D \<union> set (results i) \<union> X" using Cons.prems(2,3) r by blast+
      show "set (operands j) \<inter> X \<subseteq> D' \<and> set (results j) \<inter> X = {}" if "j \<in> set is" "P j" for j
        using Cons.prems(4) [of j] that by simp
      show "set (results j) \<subseteq> X" if "j \<in> set is" "\<not> P j" for j using Cons.prems(5) [of j] that by simp
    qed
    with False show ?thesis by simp
  qed
qed simp

section \<open>Runs and their equations\<close>

definition consistent :: "'v kernels \<Rightarrow> (nat \<Rightarrow> 'v) \<Rightarrow> instr \<Rightarrow> bool" where
  "consistent K E i \<longleftrightarrow> denote_any K (iop i) (map E (operands i)) = Some (map E (results i))"

lemma run_consistent:
  "run K is E = Some E' \<Longrightarrow> ssa D is \<Longrightarrow> (\<forall>v \<in> D. E' v = E v) \<and> (\<forall>i \<in> set is. consistent K E' i)"
proof (induction "is" arbitrary: E D)
  case (Cons i "is")
  obtain vs where vs: "denote_any K (iop i) (map E (operands i)) = Some vs" "length vs = length (results i)"
    "run K is (assign (results i) vs E) = Some E'"
    using Cons.prems(1) by (auto split: option.splits if_splits)
  have s: "set (operands i) \<subseteq> D" "set (results i) \<inter> D = {}" "distinct (results i)" "ssa (D \<union> set (results i)) is"
    using Cons.prems(2) by simp_all
  from Cons.IH [OF vs(3) s(4)] have rest: "\<forall>v \<in> D \<union> set (results i). E' v = assign (results i) vs E v" "\<forall>i \<in> set is. consistent K E' i"
    by blast+
  have D: "E' v = E v" if "v \<in> D" for v 
  proof -
    have "v \<notin> set (results i)" using s(2) that by blast
    then show ?thesis using rest(1) that by (simp add: assign_other)
  qed
  then have "map E' (operands i) = map E (operands i)" using s(1) by (intro map_cong) auto
  moreover have "map E' (results i) = map (assign (results i) vs E) (results i)" using rest(1) by (intro map_cong) auto
  then have "map E' (results i) = vs" using assign_results [OF s(3) vs(2)] by simp
  ultimately have "consistent K E' i" using vs(1) by (simp only: consistent_def)
  with rest(2) D show ?case by simp
qed simp

lemma run_unique:
  "ssa D is \<Longrightarrow> (\<forall>i \<in> set is. consistent K E' i) \<Longrightarrow> (\<forall>v \<in> D. E v = E' v) \<Longrightarrow>
    \<exists>E''. run K is E = Some E'' \<and> (\<forall>v \<in> D \<union> defs is. E'' v = E' v)"
proof (induction "is" arbitrary: E D)
  case (Cons i "is")
  let ?E = "assign (results i) (map E' (results i)) E"
  have s: "set (operands i) \<subseteq> D" "distinct (results i)" "ssa (D \<union> set (results i)) is" using Cons.prems(1) by simp_all
  have "map E (operands i) = map E' (operands i)" using Cons.prems(3) s(1) by (intro map_cong) auto
  then have d: "denote_any K (iop i) (map E (operands i)) = Some (map E' (results i))"
    using Cons.prems(2) by (simp only: consistent_def list.set_intros)
  have "map ?E (results i) = map E' (results i)" by (rule assign_results [OF s(2)]) simp
  then have r: "\<forall>v \<in> set (results i). ?E v = E' v" by (simp only: map_eq_conv)
  then have "\<forall>v \<in> D \<union> set (results i). ?E v = E' v" using Cons.prems(3) by (metis Un_iff assign_other)
  from Cons.IH [OF s(3) _ this] Cons.prems(2) obtain E'' where "run K is ?E = Some E''" "\<forall>v \<in> D \<union> set (results i) \<union> defs is. E'' v = E' v"
    by auto
  then show ?case using d by (auto simp: Un_assoc)
qed simp

definition wf_func :: "nat set \<Rightarrow> func \<Rightarrow> bool" where
  "wf_func D f \<longleftrightarrow> ssa D (body f) \<and> set (rets f) \<subseteq> D \<union> defs (body f) \<and> (\<forall>i \<in> set (body f). well_typed (vtypes f) i)"

text \<open>A rewrite that keeps the form and whose new equations follow from the old ones computes the same.\<close>

definition preserves :: "'v kernels \<Rightarrow> nat set \<Rightarrow> func \<Rightarrow> func \<Rightarrow> bool" where
  "preserves K D f f' \<longleftrightarrow> wf_func D f' \<and> vtypes f' = vtypes f \<and> rets f' = rets f \<and>
     (\<forall>E vs. returns K f E = Some vs \<longrightarrow> returns K f' E = Some vs)"

lemma preservesI:
  assumes "wf_func D f" "ssa D (body f')" "set (rets f) \<subseteq> D \<union> defs (body f')" "vtypes f' = vtypes f" "rets f' = rets f"
    and typed: "\<And>i. i \<in> set (body f') \<Longrightarrow> i \<in> set (body f) \<or> well_typed (vtypes f) i"
    and eqs: "\<And>E i. \<forall>i \<in> set (body f). consistent K E i \<Longrightarrow> i \<in> set (body f') \<Longrightarrow> consistent K E i"
  shows "preserves K D f f'"
  unfolding preserves_def
proof (intro conjI allI impI)
  show "wf_func D f'" using assms(1-5) typed by (auto simp: wf_func_def)
  fix E vs assume "returns K f E = Some vs"
  then obtain E1 where E1: "run K (body f) E = Some E1" "vs = map E1 (rets f)" by (auto simp: returns_def)
  have c: "\<forall>v \<in> D. E1 v = E v" "\<forall>i \<in> set (body f). consistent K E1 i"
    using run_consistent [OF E1(1)] assms(1) by (auto simp: wf_func_def)
  obtain E2 where "run K (body f') E = Some E2" "\<forall>v \<in> D \<union> defs (body f'). E2 v = E1 v"
    using run_unique [OF assms(2), of K E1 E] eqs [OF c(2)] c(1) by auto
  moreover from this(2) have "map E2 (rets f) = map E1 (rets f)" using assms(3) by (intro map_cong) auto
  ultimately show "returns K f' E = Some vs" by (simp add: returns_def assms(5) E1(2))
qed (rule assms)+

lemma preserves_trans: "preserves K D f g \<Longrightarrow> preserves K D g h \<Longrightarrow> preserves K D f h"
  by (simp add: preserves_def)

section \<open>One rewrite\<close>

lemma ssa_update:
  assumes "ssa D is" "m < length is" "set (operands i) \<subseteq> D \<union> defs (take m is)" "results i = results (is ! m)"
  shows "ssa D (is[m := i])" "defs (is[m := i]) = defs is"
proof -
  have split: "is = take m is @ is ! m # drop (Suc m) is" using assms(2) by (rule id_take_nth_drop)
  have new: "is[m := i] = take m is @ i # drop (Suc m) is" using assms(2) by (rule upd_conv_take_nth_drop)
  show "ssa D (is[m := i])" unfolding new
    using ssa_nth [OF assms(1,2)] assms(3,4) by (simp add: ssa_append Int_commute)
  have "defs is = defs (take m is @ is ! m # drop (Suc m) is)" using split by simp
  then show "defs (is[m := i]) = defs is" unfolding new using assms(4) by simp
qed

lemma ssa_no_use:
  assumes "ssa D is" "j < length is" "k < length is" "j \<le> k" "v \<in> set (results (is ! k))"
  shows "v \<notin> set (operands (is ! j))"
proof
  assume "v \<in> set (operands (is ! j))"
  from ssa_def_before [OF assms(1,2) nth_mem [OF assms(3)] assms(5) this] obtain i where "i < j" "is ! i = is ! k" by blast
  then have "i = k" using ssa_unique [OF assms(1) _ assms(3) _ assms(5), of i] assms(2,5) by simp
  with \<open>i < j\<close> assms(4) show False by simp
qed

lemma uses_0: "uses f v = 0 \<longleftrightarrow> v \<notin> set (rets f) \<and> (\<forall>i \<in> set (body f). v \<notin> set (operands i))"
  by (auto simp: uses_def count_list_0_iff)

lemma uses_1:
  assumes "uses f v = 1" "m < length (body f)" "v \<in> set (operands (body f ! m))"
  shows "v \<notin> set (rets f)" "count_list (operands (body f ! m)) v = 1"
    "k < length (body f) \<Longrightarrow> k \<noteq> m \<Longrightarrow> v \<notin> set (operands (body f ! k))"
proof -
  let ?c = "\<lambda>i. count_list (operands i) v"
  have "sum_list (map ?c (body f)) = sum_list (map ?c (take m (body f))) + ?c (body f ! m) + sum_list (map ?c (drop (Suc m) (body f)))"
    by (subst id_take_nth_drop [OF assms(2)]) simp
  moreover have pos: "?c (body f ! m) \<noteq> 0" using assms(3) by (simp add: count_list_0_iff)
  ultimately have zero: "?c (body f ! m) = 1" "sum_list (map ?c (take m (body f))) = 0" "sum_list (map ?c (drop (Suc m) (body f))) = 0"
    "count_list (rets f) v = 0"
    using assms(1) unfolding uses_def by linarith+
  show "v \<notin> set (rets f)" "count_list (operands (body f ! m)) v = 1" using zero by (simp_all add: count_list_0_iff)
  assume k: "k < length (body f)" "k \<noteq> m"
  have "body f ! k \<in> set (take m (body f)) \<union> set (drop (Suc m) (body f))"
  proof (cases "k < m")
    case True
    then show ?thesis using k(1) by (metis UnI1 in_set_conv_nth length_take min_less_iff_conj nth_take)
  next
    case False
    then have "drop (Suc m) (body f) ! (k - Suc m) = body f ! k" "k - Suc m < length (drop (Suc m) (body f))" using k by auto
    then show ?thesis by (metis UnI2 nth_mem)
  qed
  then show "v \<notin> set (operands (body f ! k))" using zero(2,3) by (auto simp: count_list_0_iff)
qed

lemma defining_nth:
  assumes "defining f v = Some p"
  obtains j where "j < length (body f)" "body f ! j = p" "v \<in> set (results p)"
  using assms by (auto simp: defining_def find_Some_iff)

lemma replace_preserves:
  assumes "wf_func D f" "m < length (body f)" "set (operands i) \<subseteq> D \<union> defs (take m (body f))"
    "results i = results (body f ! m)" "well_typed (vtypes f) i"
    and "\<And>E. \<forall>j \<in> set (body f). consistent K E j \<Longrightarrow> consistent K E i"
  shows "preserves K D f (replaceOpWithNewOp m i f)"
proof (rule preservesI [OF assms(1)])
  have s: "ssa D (body f)" using assms(1) by (simp add: wf_func_def)
  note u = ssa_update [OF s assms(2-4)]
  show "ssa D (body (replaceOpWithNewOp m i f))" "set (rets f) \<subseteq> D \<union> defs (body (replaceOpWithNewOp m i f))"
    using u assms(1) by (simp_all add: replaceOpWithNewOp_def wf_func_def)
  fix j assume "j \<in> set (body (replaceOpWithNewOp m i f))"
  then have j: "j = i \<or> j \<in> set (body f)" using set_update_subset_insert by (fastforce simp: replaceOpWithNewOp_def)
  then show "j \<in> set (body f) \<or> well_typed (vtypes f) j" using assms(5) by blast
  show "consistent K E j" if "\<forall>j \<in> set (body f). consistent K E j" for E using j that assms(6) by blast
qed (simp_all add: replaceOpWithNewOp_def)

lemma erase_preserves:
  assumes "wf_func D f" "j < length (body f)" "body f ! j = p" "results p \<noteq> []" "\<forall>v \<in> set (results p). uses f v = 0"
  shows "preserves K D f (eraseOp p f)"
proof (rule preservesI [OF assms(1)])
  let ?P = "\<lambda>i. results i \<noteq> results p"
  have body: "body (eraseOp p f) = filter ?P (body f)" by (simp add: eraseOp_def)
  have s: "ssa D (body f)" and r: "set (rets f) \<subseteq> D \<union> defs (body f)" using assms(1) by (simp_all add: wf_func_def)
  have other: "set (results i) \<inter> set (results p) = {}" if i: "i \<in> set (body f)" "?P i" for i
  proof (rule ccontr)
    assume "set (results i) \<inter> set (results p) \<noteq> {}"
    then obtain v where v: "v \<in> set (results i)" "v \<in> set (results p)" by blast
    obtain k where "k < length (body f)" "body f ! k = i" using i(1) by (auto simp: in_set_conv_nth)
    with ssa_unique [OF s, of k j v] v assms(2,3) have "i = p" by simp
    with i(2) show False by simp
  qed
  have dead: "set (operands i) \<inter> set (results p) = {}" if "i \<in> set (body f)" for i using assms(5) that uses_0 by blast
  show "ssa D (body (eraseOp p f))" unfolding body
    by (rule ssa_filter [OF s, where X = "set (results p)"]) (use other dead in auto)
  have "defs (body f) \<subseteq> defs (filter ?P (body f)) \<union> set (results p)" by (auto simp: defs_def)
  moreover have "set (rets f) \<inter> set (results p) = {}" using assms(5) uses_0 by blast
  ultimately show "set (rets f) \<subseteq> D \<union> defs (body (eraseOp p f))" using r by (auto simp: eraseOp_def)
qed (auto simp: eraseOp_def)

text \<open>The common shape of the fusions: the producer of a value used once is folded into its user.\<close>

lemma fuse_one:
  assumes "wf_func D f" "m < length (body f)" "j < length (body f)" "body f ! j = p" "results p = [a]" "uses f a = 1"
    and "a \<in> set (operands (body f ! m))" "a \<notin> set (operands i)" "results i = results (body f ! m)"
    and "set (operands i) \<subseteq> set (operands p) \<union> set (operands (body f ! m))" "well_typed (vtypes f) i"
    and "\<And>E. consistent K E p \<Longrightarrow> consistent K E (body f ! m) \<Longrightarrow> consistent K E i"
  shows "preserves K D f (eraseOp p (replaceOpWithNewOp m i f))"
proof -
  let ?g = "replaceOpWithNewOp m i f"
  have s: "ssa D (body f)" using assms(1) by (simp add: wf_func_def)
  have "j \<noteq> m" using ssa_no_use [OF s assms(3,3), of a] assms(4,5,7) by auto
  have "j < m" using ssa_no_use [OF s assms(2,3), of a] assms(4,5,7) by (cases "m \<le> j") auto
  then have ops: "set (operands i) \<subseteq> D \<union> defs (take m (body f))"
    using assms(10) ssa_nth(1) [OF s assms(2)] ssa_nth(1) [OF s assms(3)] defs_take_mono [of j m "body f"] assms(4) by auto
  have one: "preserves K D f ?g"
    by (rule replace_preserves [OF assms(1,2) ops assms(9,11)])
      (rule assms(12), use assms(2,3,4) in auto)
  have g: "j < length (body ?g)" "body ?g ! j = p" using \<open>j \<noteq> m\<close> assms(3,4) by (simp_all add: replaceOpWithNewOp_def)
  note u = uses_1 [OF assms(6,2,7)]
  have "a \<notin> set (operands ((body f)[m := i] ! k))" if "k < length (body f)" for k
    using u(3) [OF that] assms(2,8) that by (cases "k = m") simp_all
  then have "\<forall>x \<in> set ((body f)[m := i]). a \<notin> set (operands x)" by (metis in_set_conv_nth length_list_update)
  then have "uses ?g a = 0" unfolding uses_0 using u(1) by (simp add: replaceOpWithNewOp_def)
  then have "preserves K D ?g (eraseOp p ?g)"
    using one g assms(5) by (intro erase_preserves [where j = j]) (auto simp: preserves_def)
  with one show ?thesis by (rule preserves_trans)
qed

end
