(* ===== verification/IrFusion.thy ===== *)
theory IrFusion
  imports IrRewrite
begin

text \<open>
  The rewriting passes of the dialect: the patterns of \<open>FuseRmsnormMatmul.cpp\<close>, \<open>FuseMatmulBiasGelu.cpp\<close>,
  \<open>FuseResidualRmsnorm.cpp\<close>, \<open>FuseSoftmaxMask.cpp\<close> and \<open>FuseKvAppendAttention.cpp\<close> on a function body in SSA
  form. MLIR's greedy driver applies a pattern where and as often as it chooses and erases operations
  whose results have no use; the relation \<open>driver_step\<close> allows every such step.
\<close>

section \<open>The patterns\<close>

definition fuse_rmsnorm_matmul :: pattern where
  "fuse_rmsnorm_matmul f m =
     (case (iop (body f ! m), operands (body f ! m)) of
        (PolyKernel MatMul, [a, b]) \<Rightarrow>
          (case defining f a of
             Some rmsnorm \<Rightarrow>
               (case (iop rmsnorm, operands rmsnorm) of
                  (PolyKernel (RmsNorm epsilon), [x]) \<Rightarrow>
                    (if uses f a \<noteq> 1 then None
                     else Some (eraseOp rmsnorm (replaceOpWithNewOp m
                       \<lparr>iop = PolyKernel (FusedRmsNormMatMul epsilon), operands = [x, b], results = results (body f ! m),
                        attrs = [''polykernel.fused_from'' \<mapsto> StringAttr ''rmsnorm_matmul'',
                          ''polykernel.eliminated_type'' \<mapsto> TypeAttr (vtypes f a)]\<rparr> f)))
                | _ \<Rightarrow> None)
           | None \<Rightarrow> None)
      | _ \<Rightarrow> None)"

definition fuse_matmul_bias_gelu :: pattern where
  "fuse_matmul_bias_gelu f m =
     (case (iop (body f ! m), operands (body f ! m)) of
        (PolyKernel Gelu, [bs]) \<Rightarrow>
          (case defining f bs of
             Some bias \<Rightarrow>
               (case (iop bias, operands bias) of
                  (PolyKernel Bias, [mm, c]) \<Rightarrow>
                    (case defining f mm of
                       Some matmul \<Rightarrow>
                         (case (iop matmul, operands matmul) of
                            (PolyKernel MatMul, [a, b]) \<Rightarrow>
                              (if uses f mm \<noteq> 1 then None
                               else if uses f bs \<noteq> 1 then None
                               else Some (eraseOp matmul (eraseOp bias (replaceOpWithNewOp m
                                 \<lparr>iop = PolyKernel FusedMatMulBiasGelu, operands = [a, b, c], results = results (body f ! m),
                                  attrs = [''polykernel.fused_from'' \<mapsto> StringAttr ''matmul_bias_gelu'',
                                    ''polykernel.eliminated_type_0'' \<mapsto> TypeAttr (vtypes f mm),
                                    ''polykernel.eliminated_type_1'' \<mapsto> TypeAttr (vtypes f bs)]\<rparr> f))))
                          | _ \<Rightarrow> None)
                     | None \<Rightarrow> None)
                | _ \<Rightarrow> None)
           | None \<Rightarrow> None)
      | _ \<Rightarrow> None)"

definition fuse_residual_rmsnorm :: pattern where
  "fuse_residual_rmsnorm f m =
     (case (iop (body f ! m), operands (body f ! m)) of
        (PolyKernel (RmsNorm epsilon), [s]) \<Rightarrow>
          (case defining f s of
             Some add \<Rightarrow>
               (case (iop add, operands add) of
                  (PolyKernel Add, [lhs, rhs]) \<Rightarrow>
                    (if uses f s \<noteq> 1 then None
                     else Some (eraseOp add (replaceOpWithNewOp m
                       \<lparr>iop = PolyKernel (FusedResidualRmsNorm epsilon), operands = [lhs, rhs], results = results (body f ! m),
                        attrs = [''polykernel.fused_from'' \<mapsto> StringAttr ''residual_rmsnorm'',
                          ''polykernel.eliminated_type'' \<mapsto> TypeAttr (vtypes f s)]\<rparr> f)))
                | _ \<Rightarrow> None)
           | None \<Rightarrow> None)
      | _ \<Rightarrow> None)"

definition fuse_softmax_mask :: pattern where
  "fuse_softmax_mask f m =
     (case (iop (body f ! m), operands (body f ! m)) of
        (PolyKernel (Softmax axis), [s]) \<Rightarrow>
          (case defining f s of
             Some add \<Rightarrow>
               (case (iop add, operands add) of
                  (PolyKernel Add, [lhs, rhs]) \<Rightarrow>
                    (if uses f s \<noteq> 1 then None
                     else Some (eraseOp add (replaceOpWithNewOp m
                       \<lparr>iop = PolyKernel FusedSoftmaxMask, operands = [lhs, rhs], results = results (body f ! m),
                        attrs = [''polykernel.fused_from'' \<mapsto> StringAttr ''softmax_mask'',
                          ''polykernel.eliminated_type'' \<mapsto> TypeAttr (vtypes f s)]\<rparr> f)))
                | _ \<Rightarrow> None)
           | None \<Rightarrow> None)
      | _ \<Rightarrow> None)"

text \<open>The new operation takes the attention's place; both results are redirected to it.\<close>

definition fuse_kv_append_attention :: pattern where
  "fuse_kv_append_attention f m =
     (case (iop (body f ! m), operands (body f ! m), results (body f ! m)) of
        (PolyKernel Attention, [q, key, val], [out]) \<Rightarrow>
          (case find (\<lambda>i. iop i = PolyKernel KVCacheUpdate \<and> tl (operands i) = [key, val]) (body f) of
             Some update \<Rightarrow>
               (case (operands update, results update) of
                  (c # _, [upd]) \<Rightarrow>
                    (if uses f key \<noteq> 2 \<or> uses f val \<noteq> 2 then None
                     else Some (eraseOp update (replaceOpWithNewOp m
                       \<lparr>iop = PolyKernel FusedKVAppendAttention, operands = [q, c, key, val], results = [out, upd],
                        attrs = [''polykernel.fused_from'' \<mapsto> StringAttr ''kv_append_attention'',
                          ''polykernel.eliminated_type_0'' \<mapsto> TypeAttr (vtypes f upd),
                          ''polykernel.eliminated_type_1'' \<mapsto> TypeAttr (vtypes f out)]\<rparr> f)))
                | _ \<Rightarrow> None)
           | None \<Rightarrow> None)
      | _ \<Rightarrow> None)"

section \<open>The patterns are sound\<close>

lemma on_Some:
  "on1 f xs = Some y \<longleftrightarrow> (\<exists>a. xs = [a] \<and> y = f a)"
  "on2 g xs = Some y \<longleftrightarrow> (\<exists>a b. xs = [a, b] \<and> y = g a b)"
  "on3 h xs = Some y \<longleftrightarrow> (\<exists>a b c. xs = [a, b, c] \<and> y = h a b c)"
  "on4 k xs = Some y \<longleftrightarrow> (\<exists>a b c d. xs = [a, b, c, d] \<and> y = k a b c d)"
  by (auto simp: on1_def on2_def on3_def on4_def split: list.splits)

lemma inferReturnTypes_nonempty: "inferReturnTypes opn ts = Some (Inr rs) \<Longrightarrow> rs \<noteq> []"
  unfolding inferReturnTypes_rules by (auto elim: op_typing.cases)

lemma wf_typed:
  "wf_func D f \<Longrightarrow> j < length (body f) \<Longrightarrow> iop (body f ! j) = PolyKernel opn \<Longrightarrow>
    inferReturnTypes opn (map (vtypes f) (operands (body f ! j))) = Some (Inr (map (vtypes f) (results (body f ! j))))"
  by (force simp: wf_func_def well_typed_def dest: nth_mem)

lemma rmsnorm_matmulE:
  assumes "fuse_rmsnorm_matmul f m = Some g"
  obtains j a b x e i where "iop (body f ! m) = PolyKernel MatMul" "operands (body f ! m) = [a, b]"
    "j < length (body f)" "a \<in> set (results (body f ! j))" "iop (body f ! j) = PolyKernel (RmsNorm e)" "operands (body f ! j) = [x]"
    "uses f a = 1" "iop i = PolyKernel (FusedRmsNormMatMul e)" "operands i = [x, b]" "results i = results (body f ! m)"
    "g = eraseOp (body f ! j) (replaceOpWithNewOp m i f)"
proof -
  from assms obtain a b p e x where p: "iop (body f ! m) = PolyKernel MatMul" "operands (body f ! m) = [a, b]"
    "defining f a = Some p" "iop p = PolyKernel (RmsNorm e)" "operands p = [x]" "uses f a = 1"
    and g: "g = eraseOp p (replaceOpWithNewOp m
                       \<lparr>iop = PolyKernel (FusedRmsNormMatMul e), operands = [x, b], results = results (body f ! m),
                        attrs = [''polykernel.fused_from'' \<mapsto> StringAttr ''rmsnorm_matmul'',
                          ''polykernel.eliminated_type'' \<mapsto> TypeAttr (vtypes f a)]\<rparr> f)"
    unfolding fuse_rmsnorm_matmul_def by (auto split: any_op.splits operation.splits list.splits option.splits if_splits)
  from p(3) obtain j where "j < length (body f)" "body f ! j = p" "a \<in> set (results p)" by (rule defining_nth)
  then show ?thesis using p g by (intro that [of a b j e x]) auto
qed

lemma rmsnorm_matmul_preserves:
  assumes "wf_func D f" "m < length (body f)" "fuse_rmsnorm_matmul f m = Some g"
  shows "preserves K D f g"
proof -
  from assms(3) obtain j a b x e i where p: "iop (body f ! m) = PolyKernel MatMul" "operands (body f ! m) = [a, b]"
    "j < length (body f)" "a \<in> set (results (body f ! j))" "iop (body f ! j) = PolyKernel (RmsNorm e)" "operands (body f ! j) = [x]"
    "uses f a = 1" "iop i = PolyKernel (FusedRmsNormMatMul e)" "operands i = [x, b]" "results i = results (body f ! m)"
    "g = eraseOp (body f ! j) (replaceOpWithNewOp m i f)"
    by (rule rmsnorm_matmulE)
  have r: "results (body f ! j) = [a]" and t: "vtypes f a = vtypes f x"
    using wf_typed [OF assms(1) p(3,5)] p(4,6) by (auto simp: on_Some infer_same_def)
  have s: "ssa D (body f)" using assms(1) by (simp add: wf_func_def)
  have "a \<noteq> b" using uses_1(2) [OF p(7) assms(2)] p(2) by auto
  moreover have "a \<noteq> x" using ssa_no_use [OF s p(3,3) order_refl p(4)] p(6) by simp
  moreover have "well_typed (vtypes f) i"
    using wf_typed [OF assms(1,2) p(1)] p(2,8,9,10) t by (simp add: well_typed_def on2_def infer_matmul_def infer_fused_rmsnorm_matmul_def)
  ultimately show ?thesis
    unfolding p(11) by (intro fuse_one [where a = a and j = j, OF assms(1,2) p(3) refl r p(7)])
      (use p r in \<open>auto simp: consistent_def denote_any_def on_Some\<close>)
qed

lemma residual_rmsnormE:
  assumes "fuse_residual_rmsnorm f m = Some g"
  obtains j s l r e i where "iop (body f ! m) = PolyKernel (RmsNorm e)" "operands (body f ! m) = [s]"
    "j < length (body f)" "s \<in> set (results (body f ! j))" "iop (body f ! j) = PolyKernel Add" "operands (body f ! j) = [l, r]"
    "uses f s = 1" "iop i = PolyKernel (FusedResidualRmsNorm e)" "operands i = [l, r]" "results i = results (body f ! m)"
    "g = eraseOp (body f ! j) (replaceOpWithNewOp m i f)"
proof -
  from assms obtain s p e l r where p: "iop (body f ! m) = PolyKernel (RmsNorm e)" "operands (body f ! m) = [s]"
    "defining f s = Some p" "iop p = PolyKernel Add" "operands p = [l, r]" "uses f s = 1"
    and g: "g = eraseOp p (replaceOpWithNewOp m
                       \<lparr>iop = PolyKernel (FusedResidualRmsNorm e), operands = [l, r], results = results (body f ! m),
                        attrs = [''polykernel.fused_from'' \<mapsto> StringAttr ''residual_rmsnorm'',
                          ''polykernel.eliminated_type'' \<mapsto> TypeAttr (vtypes f s)]\<rparr> f)"
    unfolding fuse_residual_rmsnorm_def by (auto split: any_op.splits operation.splits list.splits option.splits if_splits)
  from p(3) obtain j where "j < length (body f)" "body f ! j = p" "s \<in> set (results p)" by (rule defining_nth)
  then show ?thesis using p g by (intro that [of e s j l r]) auto
qed

lemma softmax_maskE:
  assumes "fuse_softmax_mask f m = Some g"
  obtains j s l r axis i where "iop (body f ! m) = PolyKernel (Softmax axis)" "operands (body f ! m) = [s]"
    "j < length (body f)" "s \<in> set (results (body f ! j))" "iop (body f ! j) = PolyKernel Add" "operands (body f ! j) = [l, r]"
    "uses f s = 1" "iop i = PolyKernel FusedSoftmaxMask" "operands i = [l, r]" "results i = results (body f ! m)"
    "g = eraseOp (body f ! j) (replaceOpWithNewOp m i f)"
proof -
  from assms obtain s p axis l r where p: "iop (body f ! m) = PolyKernel (Softmax axis)" "operands (body f ! m) = [s]"
    "defining f s = Some p" "iop p = PolyKernel Add" "operands p = [l, r]" "uses f s = 1"
    and g: "g = eraseOp p (replaceOpWithNewOp m
                       \<lparr>iop = PolyKernel FusedSoftmaxMask, operands = [l, r], results = results (body f ! m),
                        attrs = [''polykernel.fused_from'' \<mapsto> StringAttr ''softmax_mask'',
                          ''polykernel.eliminated_type'' \<mapsto> TypeAttr (vtypes f s)]\<rparr> f)"
    unfolding fuse_softmax_mask_def by (auto split: any_op.splits operation.splits list.splits option.splits if_splits)
  from p(3) obtain j where "j < length (body f)" "body f ! j = p" "s \<in> set (results p)" by (rule defining_nth)
  then show ?thesis using p g by (intro that [of axis s j l r]) auto
qed

lemma matmul_bias_geluE:
  assumes "fuse_matmul_bias_gelu f m = Some g"
  obtains j k a b c mm bs i where "iop (body f ! m) = PolyKernel Gelu" "operands (body f ! m) = [bs]"
    "j < length (body f)" "bs \<in> set (results (body f ! j))" "iop (body f ! j) = PolyKernel Bias" "operands (body f ! j) = [mm, c]"
    "k < length (body f)" "mm \<in> set (results (body f ! k))" "iop (body f ! k) = PolyKernel MatMul" "operands (body f ! k) = [a, b]"
    "uses f mm = 1" "uses f bs = 1"
    "iop i = PolyKernel FusedMatMulBiasGelu" "operands i = [a, b, c]" "results i = results (body f ! m)"
    "g = eraseOp (body f ! k) (eraseOp (body f ! j) (replaceOpWithNewOp m i f))"
proof -
  from assms obtain bs p mm c q a b where p: "iop (body f ! m) = PolyKernel Gelu" "operands (body f ! m) = [bs]"
    "defining f bs = Some p" "iop p = PolyKernel Bias" "operands p = [mm, c]"
    "defining f mm = Some q" "iop q = PolyKernel MatMul" "operands q = [a, b]" "uses f mm = 1" "uses f bs = 1"
    and g: "g = eraseOp q (eraseOp p (replaceOpWithNewOp m
                                 \<lparr>iop = PolyKernel FusedMatMulBiasGelu, operands = [a, b, c], results = results (body f ! m),
                                  attrs = [''polykernel.fused_from'' \<mapsto> StringAttr ''matmul_bias_gelu'',
                                    ''polykernel.eliminated_type_0'' \<mapsto> TypeAttr (vtypes f mm),
                                    ''polykernel.eliminated_type_1'' \<mapsto> TypeAttr (vtypes f bs)]\<rparr> f))"
    unfolding fuse_matmul_bias_gelu_def by (auto split: any_op.splits operation.splits list.splits option.splits if_splits)
  from p(3) obtain j where "j < length (body f)" "body f ! j = p" "bs \<in> set (results p)" by (rule defining_nth)
  moreover from p(6) obtain k where "k < length (body f)" "body f ! k = q" "mm \<in> set (results q)" by (rule defining_nth)
  ultimately show ?thesis using p g by (intro that [of bs j mm c k a b]) auto
qed

text \<open>An element-wise sum folded into its only user.\<close>

lemma fuse_add:
  assumes "wf_func D f" "m < length (body f)" "operands (body f ! m) = [s]" "j < length (body f)" "s \<in> set (results (body f ! j))"
    "iop (body f ! j) = PolyKernel Add" "operands (body f ! j) = [l, r]" "uses f s = 1" "operands i = [l, r]"
    "results i = results (body f ! m)"
    and typed: "infer_add (vtypes f l) (vtypes f r) = Inr [vtypes f l] \<Longrightarrow> vtypes f s = vtypes f l \<Longrightarrow> well_typed (vtypes f) i"
    and eqs: "\<And>E. E s = k_add K (E l) (E r) \<Longrightarrow> consistent K E (body f ! m) \<Longrightarrow> consistent K E i"
  shows "preserves K D f (eraseOp (body f ! j) (replaceOpWithNewOp m i f))"
proof -
  have t: "infer_add (vtypes f l) (vtypes f r) = Inr (map (vtypes f) (results (body f ! j)))"
    using wf_typed [OF assms(1,4,6)] assms(7) by (simp add: on2_def)
  then have rs: "results (body f ! j) = [s]" and ts: "vtypes f s = vtypes f l"
    using assms(5) by (auto simp: infer_add_def split: if_splits)
  have s: "ssa D (body f)" using assms(1) by (simp add: wf_func_def)
  have "s \<notin> set (operands i)" using ssa_no_use [OF s assms(4,4) order_refl assms(5)] assms(7,9) by simp
  moreover have "well_typed (vtypes f) i" using typed t rs ts by simp
  moreover have "consistent K E i" if "consistent K E (body f ! j)" "consistent K E (body f ! m)" for E
    by (rule eqs [OF _ that(2)]) (use that(1) assms(6,7) rs in \<open>simp add: consistent_def denote_any_def on2_def\<close>)
  ultimately show ?thesis
    by (intro fuse_one [where a = s and j = j, OF assms(1,2,4) refl rs assms(8)]) (use assms(3,7,9,10) in auto)
qed

lemma residual_rmsnorm_preserves:
  assumes "wf_func D f" "m < length (body f)" "fuse_residual_rmsnorm f m = Some g"
  shows "preserves K D f g"
proof -
  from assms(3) obtain j s l r e i where p: "iop (body f ! m) = PolyKernel (RmsNorm e)" "operands (body f ! m) = [s]"
    "j < length (body f)" "s \<in> set (results (body f ! j))" "iop (body f ! j) = PolyKernel Add" "operands (body f ! j) = [l, r]"
    "uses f s = 1" "iop i = PolyKernel (FusedResidualRmsNorm e)" "operands i = [l, r]" "results i = results (body f ! m)"
    "g = eraseOp (body f ! j) (replaceOpWithNewOp m i f)"
    by (rule residual_rmsnormE)
  have t: "map (vtypes f) (results (body f ! m)) = [vtypes f s]"
    using wf_typed [OF assms(1,2) p(1)] p(2) by (simp add: on1_def infer_same_def)
  show ?thesis unfolding p(11)
  proof (rule fuse_add [OF assms(1,2) p(2-7,9,10)])
    show "well_typed (vtypes f) i" if "infer_add (vtypes f l) (vtypes f r) = Inr [vtypes f l]" "vtypes f s = vtypes f l"
      using that t p(8-10) by (auto simp: well_typed_def on2_def infer_add_def infer_fused_residual_rmsnorm_def split: if_splits)
    show "consistent K E i" if "E s = k_add K (E l) (E r)" "consistent K E (body f ! m)" for E
      using that p(1,2,8,9,10) by (simp add: consistent_def denote_any_def on1_def on2_def)
  qed
qed

lemma softmax_mask_preserves:
  assumes "wf_func D f" "m < length (body f)" "fuse_softmax_mask f m = Some g" "iop (body f ! m) = PolyKernel (Softmax None)"
  shows "preserves K D f g"
proof -
  from assms(3) obtain j s l r axis i where p: "iop (body f ! m) = PolyKernel (Softmax axis)" "operands (body f ! m) = [s]"
    "j < length (body f)" "s \<in> set (results (body f ! j))" "iop (body f ! j) = PolyKernel Add" "operands (body f ! j) = [l, r]"
    "uses f s = 1" "iop i = PolyKernel FusedSoftmaxMask" "operands i = [l, r]" "results i = results (body f ! m)"
    "g = eraseOp (body f ! j) (replaceOpWithNewOp m i f)"
    by (rule softmax_maskE)
  have t: "map (vtypes f) (results (body f ! m)) = [vtypes f s]"
    using wf_typed [OF assms(1,2) p(1)] p(2) by (simp add: on1_def infer_same_def)
  show ?thesis unfolding p(11)
  proof (rule fuse_add [OF assms(1,2) p(2-7,9,10)])
    show "well_typed (vtypes f) i" if "vtypes f s = vtypes f l"
      using that t p(8-10) by (simp add: well_typed_def on2_def infer_same_def)
    show "consistent K E i" if "E s = k_add K (E l) (E r)" "consistent K E (body f ! m)" for E
      using that p(2,8,9,10) assms(4) by (simp add: consistent_def denote_any_def on1_def on2_def)
  qed
qed

lemma infer_matmul_bias:
  assumes "infer_matmul a b = Inr [r]" "infer_bias r c = Inr [r']"
  shows "infer_fused_matmul_bias_gelu a b c = Inr [r']"
proof -
  have m: "is_ranked a" "is_ranked b" "inferMatmulResultType a b = Inr [r]" using assms(1) by (auto simp: infer_matmul_def split: if_splits)
  then have "r = RankedTensor (butlast (tshape a) @ [last (tshape b)]) (telem a)"
    by (auto simp: inferMatmulResultType_def Let_def split: if_splits)
  then have "1 \<le> rank r" by simp
  then show ?thesis using m assms(2) by (auto simp: infer_fused_matmul_bias_gelu_def infer_bias_def split: if_splits)
qed

lemma matmul_bias_gelu_preserves:
  assumes "wf_func D f" "m < length (body f)" "fuse_matmul_bias_gelu f m = Some g"
  shows "preserves K D f g"
proof -
  from assms(3) obtain j k a b c mm bs i where p: "iop (body f ! m) = PolyKernel Gelu" "operands (body f ! m) = [bs]"
    "j < length (body f)" "bs \<in> set (results (body f ! j))" "iop (body f ! j) = PolyKernel Bias" "operands (body f ! j) = [mm, c]"
    "k < length (body f)" "mm \<in> set (results (body f ! k))" "iop (body f ! k) = PolyKernel MatMul" "operands (body f ! k) = [a, b]"
    "uses f mm = 1" "uses f bs = 1"
    "iop i = PolyKernel FusedMatMulBiasGelu" "operands i = [a, b, c]" "results i = results (body f ! m)"
    "g = eraseOp (body f ! k) (eraseOp (body f ! j) (replaceOpWithNewOp m i f))"
    by (rule matmul_bias_geluE)
  let ?r = "replaceOpWithNewOp m i f" let ?e = "eraseOp (body f ! j) ?r"
  have s: "ssa D (body f)" using assms(1) by (simp add: wf_func_def)
  have tj: "infer_bias (vtypes f mm) (vtypes f c) = Inr (map (vtypes f) (results (body f ! j)))"
    using wf_typed [OF assms(1) p(3,5)] p(6) by (simp add: on2_def)
  have tk: "infer_matmul (vtypes f a) (vtypes f b) = Inr (map (vtypes f) (results (body f ! k)))"
    using wf_typed [OF assms(1) p(7,9)] p(10) by (simp add: on2_def)
  have rj: "results (body f ! j) = [bs]" and tbs: "vtypes f bs = vtypes f mm"
    using tj p(4) by (auto simp: infer_bias_def split: if_splits)
  have rk: "results (body f ! k) = [mm]"
    using tk p(8) by (auto simp: infer_matmul_def inferMatmulResultType_def Let_def split: if_splits)
  have tm: "map (vtypes f) (results (body f ! m)) = [vtypes f bs]"
    using wf_typed [OF assms(1,2) p(1)] p(2) by (simp add: on1_def infer_same_def)
  have typed: "well_typed (vtypes f) i"
    using infer_matmul_bias [OF tk [unfolded rk list.map] tj [unfolded rj list.map]] tm p(13-15) by (simp add: well_typed_def on3_def)
  have order: "k < j" "j < m"
  proof -
    show "k < j" using ssa_no_use [OF s p(3,7) _ p(8)] p(6) by (cases "j \<le> k") auto
    show "j < m" using ssa_no_use [OF s assms(2) p(3) _ p(4)] p(2) by (cases "m \<le> j") auto
  qed
  have ops: "set (operands i) \<subseteq> D \<union> defs (take m (body f))"
    using ssa_nth(1) [OF s p(3)] ssa_nth(1) [OF s p(7)] defs_take_mono [of j m "body f"] defs_take_mono [of k m "body f"] order p(6,10,14)
    by auto
  have one: "preserves K D f ?r"
  proof (rule replace_preserves [OF assms(1,2) ops p(15) typed])
    fix E assume "\<forall>x \<in> set (body f). consistent K E x"
    then have "consistent K E (body f ! m)" "consistent K E (body f ! j)" "consistent K E (body f ! k)" using assms(2) p(3,7) by simp_all
    then show "consistent K E i" using p(1,2,5,6,9,10,13,14,15) rj rk by (simp add: consistent_def denote_any_def on1_def on2_def on3_def)
  qed
  have "mm \<noteq> c" using uses_1(2) [OF p(11,3)] p(6) by auto
  have new: "bs \<notin> set (operands i)" "mm \<notin> set (operands i)"
    using ssa_no_use [OF s p(3,3) order_refl p(4)] ssa_no_use [OF s p(7,3) _ p(4)] ssa_no_use [OF s p(7,7) order_refl p(8)] order
      \<open>mm \<noteq> c\<close> p(6,10,14) by auto
  have only: "v \<notin> set (operands x)"
    if "x \<in> set (body ?r)" "uses f v = 1" "n < length (body f)" "v \<in> set (operands (body f ! n))" "v \<notin> set (operands i)"
      "n = m \<or> results x \<noteq> results (body f ! n)" for x v n
  proof -
    from that(1) obtain l where l: "l < length (body f)" "x = (body f)[m := i] ! l" by (auto simp: replaceOpWithNewOp_def in_set_conv_nth)
    show ?thesis using uses_1(3) [OF that(2-4) l(1)] that(5,6) l assms(2) by (cases "l = m") auto
  qed
  have wf1: "wf_func D ?r" using one by (simp add: preserves_def)
  have body1: "j < length (body ?r)" "body ?r ! j = body f ! j" "k < length (body ?r)" "body ?r ! k = body f ! k"
    using p(3,7) order by (simp_all add: replaceOpWithNewOp_def)
  have "uses ?r bs = 0" unfolding uses_0
    using only [OF _ p(12) assms(2)] new(1) uses_1(1) [OF p(12) assms(2)] p(2) by (simp add: replaceOpWithNewOp_def)
  then have two: "preserves K D ?r ?e" using wf1 body1(1,2) rj by (intro erase_preserves [where j = j]) auto
  have be: "body ?e = filter (\<lambda>x. results x \<noteq> results (body f ! j)) (body ?r)" by (simp add: eraseOp_def)
  have "results (body f ! k) \<noteq> results (body f ! j)" using ssa_unique [OF s p(7,3), of mm] p(8) order by auto
  then have "body f ! k \<in> set (body ?e)" unfolding be using nth_mem [OF body1(3)] body1(4) by simp
  then obtain k' where k': "k' < length (body ?e)" "body ?e ! k' = body f ! k" by (auto simp: in_set_conv_nth)
  have "mm \<notin> set (operands x)" if "x \<in> set (body ?e)" for x
    using only [of x mm j] that p(3,6,11) new(2) unfolding be by simp
  moreover have "mm \<notin> set (rets ?e)" using uses_1(1) [OF p(11,3)] p(6) by (simp add: eraseOp_def replaceOpWithNewOp_def)
  ultimately have "uses ?e mm = 0" by (simp add: uses_0)
  then have "preserves K D ?e g" unfolding p(16)
    using two k' rk by (intro erase_preserves [where j = k']) (auto simp: preserves_def)
  with one two show ?thesis by (blast intro: preserves_trans)
qed

lemma kv_append_attentionE:
  assumes "fuse_kv_append_attention f m = Some g"
  obtains j q c key val out upd i where "iop (body f ! m) = PolyKernel Attention" "operands (body f ! m) = [q, key, val]"
    "results (body f ! m) = [out]" "j < length (body f)" "iop (body f ! j) = PolyKernel KVCacheUpdate"
    "operands (body f ! j) = [c, key, val]" "results (body f ! j) = [upd]"
    "iop i = PolyKernel FusedKVAppendAttention" "operands i = [q, c, key, val]" "results i = [out, upd]"
    "g = eraseOp (body f ! j) (replaceOpWithNewOp m i f)"
proof -
  from assms obtain q c key val out upd p where p: "iop (body f ! m) = PolyKernel Attention" "operands (body f ! m) = [q, key, val]"
    "results (body f ! m) = [out]" "find (\<lambda>i. iop i = PolyKernel KVCacheUpdate \<and> tl (operands i) = [key, val]) (body f) = Some p"
    "operands p = c # tl (operands p)" "results p = [upd]"
    and g: "g = eraseOp p (replaceOpWithNewOp m
                       \<lparr>iop = PolyKernel FusedKVAppendAttention, operands = [q, c, key, val], results = [out, upd],
                        attrs = [''polykernel.fused_from'' \<mapsto> StringAttr ''kv_append_attention'',
                          ''polykernel.eliminated_type_0'' \<mapsto> TypeAttr (vtypes f upd),
                          ''polykernel.eliminated_type_1'' \<mapsto> TypeAttr (vtypes f out)]\<rparr> f)"
    unfolding fuse_kv_append_attention_def
    by (fastforce split: any_op.splits operation.splits list.splits option.splits if_splits)
  from p(4) obtain j where j: "j < length (body f)" "body f ! j = p" "iop p = PolyKernel KVCacheUpdate" "tl (operands p) = [key, val]"
    by (auto simp: find_Some_iff)
  then have "operands p = [c, key, val]" using p(5) by simp
  then show ?thesis using p g j by (intro that [of q key val out j c upd]) auto
qed

section \<open>The driver\<close>

inductive driver_step :: "pattern \<Rightarrow> func \<Rightarrow> func \<Rightarrow> bool" for P where
  rewrite: "m < length (body f) \<Longrightarrow> P f m = Some g \<Longrightarrow> driver_step P f g"
| erase: "i \<in> set (body f) \<Longrightarrow> iop i = PolyKernel opn \<Longrightarrow> \<forall>v \<in> set (results i). uses f v = 0 \<Longrightarrow> driver_step P f (eraseOp i f)"

text \<open>A pattern is sound when it keeps every well-formed function's meaning; then so does the driver.\<close>

definition sound_pattern :: "'v kernels \<Rightarrow> nat set \<Rightarrow> pattern \<Rightarrow> bool" where
  "sound_pattern K D P \<longleftrightarrow> (\<forall>f m g. wf_func D f \<longrightarrow> m < length (body f) \<longrightarrow> P f m = Some g \<longrightarrow> preserves K D f g)"

lemma driver_step_preserves:
  assumes "sound_pattern K D P" "wf_func D f" "driver_step P f g"
  shows "preserves K D f g"
  using assms(3)
proof cases
  case (rewrite m)
  then show ?thesis using assms(1,2) by (auto simp: sound_pattern_def)
next
  case (erase i opn)
  then obtain j where j: "j < length (body f)" "body f ! j = i" by (auto simp: in_set_conv_nth)
  then have "results i \<noteq> []" using wf_typed [OF assms(2) j(1)] erase(3) inferReturnTypes_nonempty by fastforce
  then show ?thesis unfolding erase(1) by (rule erase_preserves [OF assms(2) j _ erase(4)])
qed

lemma driver_preserves:
  "(driver_step P)\<^sup>*\<^sup>* f g \<Longrightarrow> sound_pattern K D P \<Longrightarrow> wf_func D f \<Longrightarrow> preserves K D f g"
proof (induction rule: rtranclp_induct)
  case base
  then show ?case by (simp add: preserves_def)
next
  case (step g h)
  then have "preserves K D f g" by blast
  moreover from this have "wf_func D g" by (simp add: preserves_def)
  then have "preserves K D g h" by (rule driver_step_preserves [OF step.prems(1) _ step.hyps(2)])
  ultimately show ?case by (rule preserves_trans)
qed

lemma patterns_sound: "P \<in> {fuse_rmsnorm_matmul, fuse_matmul_bias_gelu, fuse_residual_rmsnorm} \<Longrightarrow> sound_pattern K D P"
  using rmsnorm_matmul_preserves matmul_bias_gelu_preserves residual_rmsnorm_preserves by (auto simp: sound_pattern_def)

text \<open>C26. The passes \<open>--fuse-rmsnorm-matmul\<close>, \<open>--fuse-matmul-bias-gelu\<close> and \<open>--fuse-residual-rmsnorm\<close>: however
  often and wherever the greedy driver applies the pattern, and whatever unused operations it drops in
  between, a well-typed function in SSA form stays one, keeps the types of its values, and returns the
  same tensors for every input, whatever the kernels compute.\<close>

theorem fusion_passes_preserve:
  assumes "P \<in> {fuse_rmsnorm_matmul, fuse_matmul_bias_gelu, fuse_residual_rmsnorm}"
    and "wf_func D f" "(driver_step P)\<^sup>*\<^sup>* f g" "returns K f E = Some vs"
  shows "wf_func D g \<and> vtypes g = vtypes f \<and> returns K g E = Some vs"
  using driver_preserves [OF assms(3) patterns_sound [OF assms(1)] assms(2)] assms(4) by (auto simp: preserves_def)

definition dialect_patterns :: "pattern list" where
  "dialect_patterns = [fuse_rmsnorm_matmul, fuse_matmul_bias_gelu, fuse_residual_rmsnorm, fuse_softmax_mask, fuse_kv_append_attention]"

lemma erase_shorter:
  "j < length (body f) \<Longrightarrow> length (body (eraseOp (body f ! j) f)) < length (body f)"
  by (auto simp: eraseOp_def intro!: length_filter_less [OF nth_mem])

lemma erase_length: "length (body (eraseOp p f)) \<le> length (body f)"
  by (simp add: eraseOp_def)

lemma fuse_shorter:
  assumes "j < length (body f)" "j \<noteq> m"
  shows "length (body (eraseOp (body f ! j) (replaceOpWithNewOp m i f))) < length (body f)"
  using erase_shorter [of j "replaceOpWithNewOp m i f"] assms by (simp add: replaceOpWithNewOp_def)

lemma pattern_shorter:
  assumes "P \<in> set dialect_patterns" "P f m = Some g"
  shows "length (body g) < length (body f)"
proof -
  consider "fuse_rmsnorm_matmul f m = Some g" | "fuse_matmul_bias_gelu f m = Some g" | "fuse_residual_rmsnorm f m = Some g"
    | "fuse_softmax_mask f m = Some g" | "fuse_kv_append_attention f m = Some g"
    using assms by (auto simp: dialect_patterns_def)
  then show ?thesis
  proof cases
    case 1
    then show ?thesis by (rule rmsnorm_matmulE) (auto intro!: fuse_shorter)
  next
    case 2
    then show ?thesis by (rule matmul_bias_geluE) (auto intro!: le_less_trans [OF erase_length fuse_shorter])
  next
    case 3
    then show ?thesis by (rule residual_rmsnormE) (auto intro!: fuse_shorter)
  next
    case 4
    then show ?thesis by (rule softmax_maskE) (auto intro!: fuse_shorter)
  next
    case 5
    then show ?thesis by (rule kv_append_attentionE) (auto intro!: fuse_shorter)
  qed
qed

text \<open>C27. Every fusion pass reaches its fixpoint: each step of the greedy driver, a fusion or the removal
  of an unused operation, leaves fewer operations, so a run on a function of \<open>n\<close> operations has at
  most \<open>n\<close> steps.\<close>

theorem fusion_pass_terminates:
  assumes "P \<in> set dialect_patterns" "(driver_step P ^^ n) f g"
  shows "n \<le> length (body f)"
  using assms(2)
proof (induction n arbitrary: f)
  case (Suc n)
  then obtain h where h: "driver_step P f h" "(driver_step P ^^ n) h g" by (meson relpowp_Suc_D2)
  have "length (body h) < length (body f)"
    using h(1) by cases (use pattern_shorter [OF assms(1)] in \<open>auto simp: in_set_conv_nth intro: erase_shorter\<close>)
  with Suc.IH [OF h(2)] show ?case by simp
qed simp

text \<open>A typed function of the dialect's operations always runs.\<close>

lemma denote_typed:
  assumes "inferReturnTypes opn ts = Some (Inr rs)" "length vs = length ts"
  shows "\<exists>ws. denote K opn vs = Some ws \<and> length ws = length rs"
  using assms unfolding inferReturnTypes_rules
  by (cases rule: op_typing.cases) (auto simp: on1_def on2_def on3_def on4_def length_Suc_conv split: prod.splits)

lemma typed_body_runs:
  "\<forall>i \<in> set is. well_typed \<tau> i \<and> (\<exists>opn. iop i = PolyKernel opn) \<Longrightarrow> run K is E \<noteq> None"
proof (induction "is" arbitrary: E)
  case (Cons i "is")
  then obtain opn where opn: "iop i = PolyKernel opn" by auto
  then have "inferReturnTypes opn (map \<tau> (operands i)) = Some (Inr (map \<tau> (results i)))" using Cons.prems by (auto simp: well_typed_def)
  from denote_typed [OF this, of "map E (operands i)" K] obtain ws where
    "denote_any K (iop i) (map E (operands i)) = Some ws" "length ws = length (results i)"
    using opn by (auto simp: denote_any_def)
  then show ?case using Cons by simp
qed simp

section \<open>Softmax with an axis, and the attention's cache\<close>

definition axis_softmax :: "nat \<Rightarrow> func" where
  "axis_softmax n =
     \<lparr>body = [\<lparr>iop = PolyKernel Add, operands = [0, 1], results = [2], attrs = Map.empty\<rparr>,
              \<lparr>iop = PolyKernel (Softmax (Some 0)), operands = [2], results = [3], attrs = Map.empty\<rparr>],
      rets = [3], vtypes = \<lambda>_. RankedTensor [int n, int n] F32\<rparr>"

text \<open>Kernels on a two by two matrix of integers, enough to tell the axes apart.\<close>

definition axis_kernels :: "int kernels" where
  "axis_kernels =
     \<lparr>k_rmsnorm = \<lambda>_ x. x, k_gelu = \<lambda>x. x, k_silu = \<lambda>x. x, k_add = (+), k_softmax = \<lambda>axis x. (case axis of None \<Rightarrow> x | Some a \<Rightarrow> a - x),
      k_matmul = (*), k_bias = (+), k_rope = \<lambda>x _ _. x, k_attention = \<lambda>q k v. q * k + v, k_kv_update = \<lambda>c k v. c + k * v,
      k_kv_append_attention = \<lambda>q c k v. (q * k + v, c + k * v),
      k_qkv = \<lambda>_ x w. (x, w, x * w), k_foreign = \<lambda>name vs. Some [sum_list vs + 1]\<rparr>"

lemma softmax_axis_dropped:
  "\<exists>g. fuse_softmax_mask (axis_softmax 2) 1 = Some g \<and>
     returns axis_kernels (axis_softmax 2) (\<lambda>v. 1) = Some [-2] \<and> returns axis_kernels g (\<lambda>v. 1) = Some [2]"
  by (simp add: fuse_softmax_mask_def axis_softmax_def defining_def uses_def eraseOp_def replaceOpWithNewOp_def returns_def
      denote_any_def on1_def on2_def axis_kernels_def)

text \<open>The pass \<open>--fuse-softmax-mask\<close> on a softmax without an axis computes the same.\<close>

theorem fuse_softmax_mask_preserves:
  assumes "wf_func D f" "m < length (body f)" "iop (body f ! m) = PolyKernel (Softmax None)" "fuse_softmax_mask f m = Some g"
    and "returns K f E = Some vs"
  shows "wf_func D g \<and> returns K g E = Some vs"
  using softmax_mask_preserves [OF assms(1,2,4,3)] assms(5) by (auto simp: preserves_def)

text \<open>The cache an attention's keys and values are appended to is there before the attention, and the
  appended cache is not used at or before it.\<close>

definition append_in_time :: "nat set \<Rightarrow> func \<Rightarrow> nat \<Rightarrow> bool" where
  "append_in_time D f m \<longleftrightarrow>
     (\<forall>u \<in> set (body f). iop u = PolyKernel KVCacheUpdate \<and> tl (operands u) = tl (operands (body f ! m)) \<longrightarrow>
        hd (operands u) \<in> D \<union> defs (take m (body f)) \<and>
        (\<forall>x \<in> set (take (Suc m) (body f)). set (results u) \<inter> set (operands x) = {}))"

lemma kv_append_attention_preserves:
  assumes "wf_func D f" "m < length (body f)" "fuse_kv_append_attention f m = Some g"
    and early: "append_in_time D f m"
    and chain: "\<And>q c nk nv. k_kv_append_attention K q c nk nv = (k_attention K q nk nv, k_kv_update K c nk nv)"
  shows "preserves K D f g"
proof -
  from assms(3) obtain j q c key val out upd i where p: "iop (body f ! m) = PolyKernel Attention" "operands (body f ! m) = [q, key, val]"
    "results (body f ! m) = [out]" "j < length (body f)" "iop (body f ! j) = PolyKernel KVCacheUpdate"
    "operands (body f ! j) = [c, key, val]" "results (body f ! j) = [upd]"
    "iop i = PolyKernel FusedKVAppendAttention" "operands i = [q, c, key, val]" "results i = [out, upd]"
    "g = eraseOp (body f ! j) (replaceOpWithNewOp m i f)"
    by (rule kv_append_attentionE)
  let ?is = "body f" let ?P = "\<lambda>x. results x \<noteq> [upd]"
  let ?xs = "filter ?P (take m ?is)" and ?ys = "filter ?P (drop (Suc m) ?is)"
  have s: "ssa D ?is" using assms(1) by (simp add: wf_func_def)
  have in_time: "c \<in> D \<union> defs (take m ?is) \<and> (\<forall>x \<in> set (take (Suc m) ?is). {upd} \<inter> set (operands x) = {})"
    using early [unfolded append_in_time_def, rule_format, OF nth_mem [OF p(4)]] p(2,5-7) by simp
  then have e: "c \<in> D \<union> defs (take m ?is)" "upd \<notin> set (operands (?is ! m))"
    using assms(2) by (auto simp: take_Suc_conv_app_nth)
  have "?is = take m ?is @ ?is ! m # drop (Suc m) ?is" using assms(2) by (rule id_take_nth_drop)
  have "?is[m := i] = take m ?is @ i # drop (Suc m) ?is" using assms(2) by (rule upd_conv_take_nth_drop)
  then have body: "body g = ?xs @ i # ?ys" unfolding p(11) using p(7,10) by (simp add: eraseOp_def replaceOpWithNewOp_def)
  have only: "upd \<notin> set (results x)" if "x \<in> set ?is" "?P x" for x
    using that ssa_unique [OF s _ p(4), of _ upd] p(7) by (auto simp: in_set_conv_nth)
  have sub: "x \<in> set ?is" if "x \<in> set (take m ?is) \<union> set (drop (Suc m) ?is)" for x using that by (auto dest: in_set_takeD in_set_dropD)
  have before: "upd \<notin> set (operands x)" if "x \<in> set (take m ?is)" for x
    using in_time that set_take_subset_set_take [of m "Suc m" ?is] by auto
  have xs: "ssa D ?xs"
    by (rule ssa_filter [OF ssa_nth(5) [OF s assms(2)], where X = "{upd}"]) (use before only sub in auto)
  have "j \<noteq> m" using p(1,5) by auto
  have "upd \<noteq> out" using ssa_unique [OF s p(4) assms(2), of upd] p(3,7) \<open>j \<noteq> m\<close> by auto
  have "upd \<in> defs ?is" using p(4,7) by (auto simp: defs_def intro!: bexI [of _ "?is ! j"])
  then have "upd \<notin> D" using ssa_defs_disjoint [OF s] by blast
  have defs_xs: "defs (take m ?is) \<subseteq> insert upd (defs ?xs)" "upd \<notin> defs ?xs" "defs ?xs \<subseteq> defs (take m ?is)"
    using only sub by (auto simp: defs_def)
  have "upd \<noteq> c" using ssa_no_use [OF s p(4,4) order_refl, of upd] p(6,7) by auto
  then have ops: "set (operands i) \<subseteq> D \<union> defs ?xs"
    using ssa_nth(1) [OF s assms(2)] e p(2,9) defs_xs(1) by auto
  have "out \<notin> D \<union> defs (take m ?is)" using ssa_nth(2) [OF s assms(2)] p(3) by simp
  then have res: "set (results i) \<inter> (D \<union> defs ?xs) = {}" "distinct (results i)"
    using \<open>upd \<noteq> out\<close> \<open>upd \<notin> D\<close> defs_xs p(10) by auto
  have ys: "ssa (D \<union> defs ?xs \<union> set (results i)) ?ys"
    by (rule ssa_filter [OF ssa_nth(4) [OF s assms(2)], where X = "{upd}"]) (use only sub defs_xs p(3,10) in auto)
  show ?thesis
  proof (rule preservesI [OF assms(1)])
    show "ssa D (body g)" unfolding body using xs ops res ys by (simp add: ssa_append Un_assoc)
    have "defs ?is = defs (take m ?is) \<union> set (results (?is ! m)) \<union> defs (drop (Suc m) ?is)"
      by (subst \<open>?is = _\<close>) auto
    then have "defs ?is \<subseteq> defs (body g)" unfolding body using defs_xs p(3,10) by (auto simp: defs_def)
    then show "set (rets f) \<subseteq> D \<union> defs (body g)" using assms(1) by (auto simp: wf_func_def)
    fix x assume "x \<in> set (body g)"
    then have x: "x = i \<or> x \<in> set ?is" unfolding body using sub by auto
    have t: "vtypes f out = vtypes f q" "vtypes f upd = vtypes f c"
      using wf_typed [OF assms(1,2) p(1)] wf_typed [OF assms(1) p(4,5)] p(2,3,6,7) by (auto simp: on3_def infer_same_def)
    then have "well_typed (vtypes f) i" using p(8-10) by (simp add: well_typed_def on4_def)
    then show "x \<in> set ?is \<or> well_typed (vtypes f) x" using x by blast
    show "consistent K E x" if c: "\<forall>y \<in> set ?is. consistent K E y" for E
    proof -
      have "consistent K E (?is ! m)" "consistent K E (?is ! j)" using c assms(2) p(4) by simp_all
      then have "consistent K E i" using p(1-3,5-10) by (simp add: consistent_def denote_any_def on3_def on4_def chain)
      then show ?thesis using x c by blast
    qed
  qed (simp_all add: p(11) eraseOp_def replaceOpWithNewOp_def)
qed

text \<open>The pass \<open>--fuse-kv-append-attention\<close>, where the cache is defined before the attention and the
  updated cache is not used at or before it: if the fused kernel attends to the new keys and values only, as
  the two operations it replaces do, the fused operation returns the same tensors.\<close>

theorem fuse_kv_append_attention_preserves:
  assumes "wf_func D f" "m < length (body f)" "fuse_kv_append_attention f m = Some g"
    and "append_in_time D f m"
    and "\<And>q c nk nv. k_kv_append_attention K q c nk nv = (k_attention K q nk nv, k_kv_update K c nk nv)"
    and "returns K f E = Some vs"
  shows "wf_func D g \<and> vtypes g = vtypes f \<and> returns K g E = Some vs"
  using kv_append_attention_preserves [OF assms(1-4), of K] assms(5,6) by (auto simp: preserves_def)

text \<open>Without the two conditions the fused function is no longer in SSA form: the cache is read back
  before the attention.\<close>

definition cache_read_back :: func where
  "cache_read_back =
     \<lparr>body = [\<lparr>iop = PolyKernel KVCacheUpdate, operands = [1, 2, 3], results = [4], attrs = Map.empty\<rparr>,
              \<lparr>iop = PolyKernel Gelu, operands = [4], results = [5], attrs = Map.empty\<rparr>,
              \<lparr>iop = PolyKernel Attention, operands = [0, 2, 3], results = [6], attrs = Map.empty\<rparr>],
      rets = [5, 6], vtypes = \<lambda>_. RankedTensor [2, 2] F32\<rparr>"

lemma kv_append_breaks_dominance:
  "wf_func {0, 1, 2, 3} cache_read_back"
  "\<exists>g. fuse_kv_append_attention cache_read_back 2 = Some g \<and> \<not> ssa {0, 1, 2, 3} (body g)"
proof -
  show "wf_func {0, 1, 2, 3} cache_read_back"
    by (simp add: wf_func_def cache_read_back_def well_typed_def on1_def on3_def infer_same_def)
  show "\<exists>g. fuse_kv_append_attention cache_read_back 2 = Some g \<and> \<not> ssa {0, 1, 2, 3} (body g)"
    by (simp add: fuse_kv_append_attention_def cache_read_back_def uses_def eraseOp_def replaceOpWithNewOp_def)
qed

section \<open>Examples\<close>

definition mlp :: func where
  "mlp = \<lparr>body = mlp_body, rets = [7],
          vtypes = \<lambda>v. if v \<in> {0, 4} then RankedTensor [4, 8] F16 else if v = 1 then RankedTensor [8, 32] F16
            else if v = 2 then RankedTensor [32] F16 else RankedTensor [4, 32] F16\<rparr>"

lemma mlp_wf: "wf_func {0, 1, 2} mlp"
  by (simp add: wf_func_def mlp_def mlp_body_def well_typed_def on1_def on2_def infer_same_def infer_matmul_def infer_bias_def
      inferMatmulResultType_def)

lemma mlp_fuses:
  "\<exists>g. fuse_matmul_bias_gelu mlp 3 = Some g \<and> map iop (body g) = [PolyKernel (RmsNorm None), PolyKernel FusedMatMulBiasGelu]"
  by (simp add: fuse_matmul_bias_gelu_def mlp_def mlp_body_def defining_def uses_def eraseOp_def replaceOpWithNewOp_def)

lemma mlp_returns: "returns axis_kernels mlp (\<lambda>v. int v + 2) = Some [10]"
  by (simp add: returns_def mlp_def mlp_body_def denote_any_def on1_def on2_def axis_kernels_def)

lemma mlp_length: "length (body mlp) = 4" by (simp add: mlp_def mlp_body_def)

lemma mlp_step: "\<exists>g. driver_step fuse_matmul_bias_gelu mlp g"
  using mlp_fuses driver_step.rewrite [of 3 mlp fuse_matmul_bias_gelu] by (auto simp: mlp_length)

lemma fusion_passes_preserve_witness:
  "\<exists>g. driver_step fuse_matmul_bias_gelu mlp g \<and> wf_func {0, 1, 2} g \<and> returns axis_kernels g (\<lambda>v. int v + 2) = Some [10]"
proof -
  obtain g where step: "driver_step fuse_matmul_bias_gelu mlp g" using mlp_step by blast
  from fusion_passes_preserve [OF _ mlp_wf r_into_rtranclp [of "driver_step fuse_matmul_bias_gelu", OF step] mlp_returns]
  show ?thesis using step by blast
qed

lemma fusion_pass_terminates_witness:
  "\<exists>g. (driver_step fuse_matmul_bias_gelu ^^ 1) mlp g \<and> (1::nat) \<le> length (body mlp)"
proof -
  obtain g where step: "driver_step fuse_matmul_bias_gelu mlp g" using mlp_step by blast
  then have "(driver_step fuse_matmul_bias_gelu ^^ 1) mlp g" by (simp only: relpowp_1)
  with fusion_pass_terminates [OF _ this] show ?thesis by (auto simp: dialect_patterns_def)
qed

definition decode_step :: func where
  "decode_step =
     \<lparr>body = [\<lparr>iop = PolyKernel KVCacheUpdate, operands = [1, 2, 3], results = [4], attrs = Map.empty\<rparr>,
              \<lparr>iop = PolyKernel Attention, operands = [0, 2, 3], results = [5], attrs = Map.empty\<rparr>],
      rets = [5, 4], vtypes = \<lambda>_. RankedTensor [2, 2] F32\<rparr>"

text \<open>The golden reference (\<open>fused_kv_append_attention\<close> of \<open>golden.py\<close>) and the kernels attend to the
  appended cache. With this meaning the rewrite changes the result as soon as the cache is not empty. A cache
  is a pair of rows of keys and of values; attention is a weighted sum.\<close>

definition appending_kernels :: "(int list \<times> int list) kernels" where
  "appending_kernels =
     (let attend = (\<lambda>q k v. ([sum_list (map2 (*) (fst k) (fst v))], []));
          update = (\<lambda>c k v. (fst c @ fst k, snd c @ fst v))
      in \<lparr>k_rmsnorm = \<lambda>_ x. x, k_gelu = \<lambda>x. x, k_silu = \<lambda>x. x, k_add = \<lambda>x y. x, k_softmax = \<lambda>_ x. x, k_matmul = \<lambda>x y. x,
        k_bias = \<lambda>x y. x, k_rope = \<lambda>x _ _. x, k_attention = attend, k_kv_update = update,
        k_kv_append_attention = \<lambda>q c k v. (attend q (fst (update c k v), []) (snd (update c k v), []), update c k v),
        k_qkv = \<lambda>_ x w. (x, x, x), k_foreign = \<lambda>name vs. None\<rparr>)"

lemma kv_append_attention_reads_cache:
  fixes E :: "nat \<Rightarrow> int list \<times> int list"
  defines "E \<equiv> \<lambda>v. if v = 1 then ([1], [1]) else ([2], [])"
  shows "\<exists>g. fuse_kv_append_attention decode_step 1 = Some g \<and>
    returns appending_kernels decode_step E = Some [([4], []), ([1, 2], [1, 2])] \<and>
    returns appending_kernels g E = Some [([5], []), ([1, 2], [1, 2])]"
  by (simp add: fuse_kv_append_attention_def decode_step_def uses_def eraseOp_def replaceOpWithNewOp_def returns_def
      denote_any_def on3_def on4_def appending_kernels_def Let_def E_def)

lemma fuse_kv_append_attention_preserves_witness:
  "\<exists>g. fuse_kv_append_attention decode_step 1 = Some g \<and> length (body g) = 1 \<and> wf_func {0, 1, 2, 3} g \<and>
     returns axis_kernels g int = Some [3, 7]"
proof -
  obtain g where g: "fuse_kv_append_attention decode_step 1 = Some g" "length (body g) = 1"
    by (simp add: fuse_kv_append_attention_def decode_step_def uses_def eraseOp_def replaceOpWithNewOp_def)
  have wf: "wf_func {0, 1, 2, 3} decode_step"
    by (simp add: wf_func_def decode_step_def well_typed_def on3_def infer_same_def)
  have early: "append_in_time {0, 1, 2, 3} decode_step 1" by (simp add: append_in_time_def decode_step_def)
  have r: "returns axis_kernels decode_step int = Some [3, 7]"
    by (simp add: returns_def decode_step_def denote_any_def on3_def axis_kernels_def)
  have "1 < length (body decode_step)" by (simp add: decode_step_def)
  from fuse_kv_append_attention_preserves [OF wf this g(1) early _ r] g show ?thesis by (simp add: axis_kernels_def)
qed

lemma fuse_softmax_mask_preserves_witness:
  "\<exists>g. fuse_softmax_mask \<lparr>body = [\<lparr>iop = PolyKernel Add, operands = [0, 1], results = [2], attrs = Map.empty\<rparr>,
              \<lparr>iop = PolyKernel (Softmax None), operands = [2], results = [3], attrs = Map.empty\<rparr>],
      rets = [3], vtypes = \<lambda>_. RankedTensor [2, 2] F32\<rparr> 1 = Some g \<and> returns axis_kernels g int = Some [1]"
  (is "\<exists>g. fuse_softmax_mask ?f 1 = Some g \<and> _")
proof -
  obtain g where g: "fuse_softmax_mask ?f 1 = Some g"
    by (simp add: fuse_softmax_mask_def defining_def uses_def eraseOp_def replaceOpWithNewOp_def)
  have wf: "wf_func {0, 1} ?f" by (simp add: wf_func_def well_typed_def on1_def on2_def infer_same_def infer_add_def)
  have r: "returns axis_kernels ?f int = Some [1]"
    by (simp add: returns_def denote_any_def on1_def on2_def axis_kernels_def)
  from fuse_softmax_mask_preserves [OF wf _ _ g r] g show ?thesis by simp
qed

end
