(* ===== verification/LowerGpu.thy ===== *)
theory LowerGpu
  imports Prelude "HOL-Library.Monad_Syntax"
begin

text \<open>
  The two source emitting passes, \<open>--lower-to-cuda\<close> and \<open>--lower-to-hip\<close>: they walk the module, note
  which kinds of operation occur, and write one kernel file per kind, in a fixed order, giving up at
  the first file that cannot be written. The emitted texts are a parameter here (the kernels in them
  are modelled in \<open>CudaElementwise\<close>, \<open>CudaGemm\<close>, \<open>CudaReduce\<close> and \<open>CudaFused\<close>); so are LLVM's path
  and file system functions.
\<close>

datatype op_kind = RmsNormOp | GeluOp | SiluOp | MatMulOp | SoftmaxOp | FusedRmsNormMatMulOp | FusedMatMulBiasGeluOp | OtherOp

type_synonym files = "string \<rightharpoonup> string"

record llvm_fs =
  create_directories :: "string \<Rightarrow> bool"
  can_open_file :: "string \<Rightarrow> bool"
  path_append :: "string \<Rightarrow> string \<Rightarrow> string"

record seen =
  hasRmsNorm :: bool
  hasGelu :: bool
  hasSilu :: bool
  hasMatMul :: bool
  hasSoftmax :: bool
  hasFusedRmsnormMatmul :: bool
  hasFusedMatmulBiasGelu :: bool

definition none_seen :: seen where
  "none_seen = \<lparr>hasRmsNorm = False, hasGelu = False, hasSilu = False, hasMatMul = False, hasSoftmax = False,
     hasFusedRmsnormMatmul = False, hasFusedMatmulBiasGelu = False\<rparr>"

fun visit :: "op_kind \<Rightarrow> seen \<Rightarrow> seen" where
  "visit RmsNormOp s = s\<lparr>hasRmsNorm := True\<rparr>"
| "visit GeluOp s = s\<lparr>hasGelu := True\<rparr>"
| "visit SiluOp s = s\<lparr>hasSilu := True\<rparr>"
| "visit MatMulOp s = s\<lparr>hasMatMul := True\<rparr>"
| "visit SoftmaxOp s = s\<lparr>hasSoftmax := True\<rparr>"
| "visit FusedRmsNormMatMulOp s = s\<lparr>hasFusedRmsnormMatmul := True\<rparr>"
| "visit FusedMatMulBiasGeluOp s = s\<lparr>hasFusedMatmulBiasGelu := True\<rparr>"
| "visit OtherOp s = s"

definition emitKernelFile :: "llvm_fs \<Rightarrow> string \<Rightarrow> string \<Rightarrow> string \<Rightarrow> files \<Rightarrow> bool \<times> files" where
  "emitKernelFile env outputDir filename text fs =
     (if \<not> create_directories env outputDir then (False, fs)
      else let path = path_append env outputDir filename
           in if \<not> can_open_file env path then (False, fs) else (True, fs(path \<mapsto> text)))"

text \<open>\<open>if (has && failed (emitKernelFile (...))) return signalPassFailure ();\<close>\<close>

definition emit_if :: "llvm_fs \<Rightarrow> string \<Rightarrow> bool \<Rightarrow> string \<Rightarrow> string \<Rightarrow> bool \<times> files \<Rightarrow> bool \<times> files" where
  "emit_if env outputDir present filename text state =
     (case state of (ok, fs) \<Rightarrow> if ok \<and> present then emitKernelFile env outputDir filename text fs else (ok, fs))"

definition lower_to_cuda :: "llvm_fs \<Rightarrow> (string \<Rightarrow> string) \<Rightarrow> string \<Rightarrow> op_kind list \<Rightarrow> files \<Rightarrow> bool \<times> files" where
  "lower_to_cuda env emitter outputDir module fs =
     (let s = fold visit module none_seen;
          st = emit_if env outputDir (hasRmsNorm s) ''rmsnorm.cu'' (emitter ''rmsnorm.cu'') (True, fs);
          st = emit_if env outputDir (hasGelu s) ''gelu.cu'' (emitter ''gelu.cu'') st;
          st = emit_if env outputDir (hasSilu s) ''silu.cu'' (emitter ''silu.cu'') st;
          st = emit_if env outputDir (hasMatMul s) ''matmul.cu'' (emitter ''matmul.cu'') st;
          st = emit_if env outputDir (hasSoftmax s) ''softmax.cu'' (emitter ''softmax.cu'') st;
          st = emit_if env outputDir (hasFusedRmsnormMatmul s) ''fused_rmsnorm_matmul.cu'' (emitter ''fused_rmsnorm_matmul.cu'') st
      in emit_if env outputDir (hasFusedMatmulBiasGelu s) ''fused_matmul_bias_gelu.cu'' (emitter ''fused_matmul_bias_gelu.cu'') st)"

text \<open>The HIP pass is the same program with its own emitters.\<close>

definition lower_to_hip :: "llvm_fs \<Rightarrow> (string \<Rightarrow> string) \<Rightarrow> string \<Rightarrow> op_kind list \<Rightarrow> files \<Rightarrow> bool \<times> files" where
  "lower_to_hip env emitter outputDir module fs =
     (let s = fold visit module none_seen;
          st = emit_if env outputDir (hasRmsNorm s) ''rmsnorm.cu'' (emitter ''rmsnorm.cu'') (True, fs);
          st = emit_if env outputDir (hasGelu s) ''gelu.cu'' (emitter ''gelu.cu'') st;
          st = emit_if env outputDir (hasSilu s) ''silu.cu'' (emitter ''silu.cu'') st;
          st = emit_if env outputDir (hasMatMul s) ''matmul.cu'' (emitter ''matmul.cu'') st;
          st = emit_if env outputDir (hasSoftmax s) ''softmax.cu'' (emitter ''softmax.cu'') st;
          st = emit_if env outputDir (hasFusedRmsnormMatmul s) ''fused_rmsnorm_matmul.cu'' (emitter ''fused_rmsnorm_matmul.cu'') st
      in emit_if env outputDir (hasFusedMatmulBiasGelu s) ''fused_matmul_bias_gelu.cu'' (emitter ''fused_matmul_bias_gelu.cu'') st)"

section \<open>What a run writes\<close>

definition kernel_files :: "(op_kind \<times> string) list" where
  "kernel_files = [(RmsNormOp, ''rmsnorm.cu''), (GeluOp, ''gelu.cu''), (SiluOp, ''silu.cu''), (MatMulOp, ''matmul.cu''),
     (SoftmaxOp, ''softmax.cu''), (FusedRmsNormMatMulOp, ''fused_rmsnorm_matmul.cu''), (FusedMatMulBiasGeluOp, ''fused_matmul_bias_gelu.cu'')]"

definition wanted :: "op_kind list \<Rightarrow> string list" where
  "wanted module = map snd (filter (\<lambda>(k, _). k \<in> set module) kernel_files)"

definition writable :: "llvm_fs \<Rightarrow> string \<Rightarrow> string \<Rightarrow> bool" where
  "writable env dir f \<longleftrightarrow> create_directories env dir \<and> can_open_file env (path_append env dir f)"

lemma fold_visit:
  "fold visit module s = s\<lparr>hasRmsNorm := hasRmsNorm s \<or> RmsNormOp \<in> set module, hasGelu := hasGelu s \<or> GeluOp \<in> set module,
     hasSilu := hasSilu s \<or> SiluOp \<in> set module, hasMatMul := hasMatMul s \<or> MatMulOp \<in> set module,
     hasSoftmax := hasSoftmax s \<or> SoftmaxOp \<in> set module,
     hasFusedRmsnormMatmul := hasFusedRmsnormMatmul s \<or> FusedRmsNormMatMulOp \<in> set module,
     hasFusedMatmulBiasGelu := hasFusedMatmulBiasGelu s \<or> FusedMatMulBiasGeluOp \<in> set module\<rparr>"
proof (induction module arbitrary: s)
  case (Cons k ops)
  then show ?case by (cases k) simp_all
qed simp

text \<open>The state after the kinds considered so far: all wanted files up to the first failure.\<close>

definition emitted :: "llvm_fs \<Rightarrow> (string \<Rightarrow> string) \<Rightarrow> string \<Rightarrow> string list \<Rightarrow> files \<Rightarrow> bool \<times> files" where
  "emitted env emitter dir names fs =
     (list_all (writable env dir) names,
      fs ++ map_of (rev (map (\<lambda>f. (path_append env dir f, emitter f)) (takeWhile (writable env dir) names))))"

lemma emit_if_emitted:
  "emit_if env dir p f (emitter f) (emitted env emitter dir names fs) = emitted env emitter dir (names @ (if p then [f] else [])) fs"
proof (cases "list_all (writable env dir) names")
  case True
  then have t: "takeWhile (writable env dir) names = names" by (simp add: takeWhile_eq_all_conv list_all_iff)
  have "takeWhile (writable env dir) (names @ ns) = names @ takeWhile (writable env dir) ns" for ns
    using True by (intro takeWhile_append2) (simp add: list_all_iff)
  then show ?thesis
    using True by (cases "writable env dir f"; cases p) (auto simp: emit_if_def emitted_def emitKernelFile_def t Let_def writable_def [of env dir f])
next
  case False
  then obtain x where "x \<in> set names" "\<not> writable env dir x" by (auto simp: list_all_iff)
  then have "takeWhile (writable env dir) (names @ ns) = takeWhile (writable env dir) names" for ns by (rule takeWhile_append1)
  with False show ?thesis by (simp add: emit_if_def emitted_def)
qed

lemma lower_to_cuda_emitted: "lower_to_cuda env emitter dir module fs = emitted env emitter dir (wanted module) fs"
proof -
  have start: "(True, fs) = emitted env emitter dir [] fs" by (simp add: emitted_def)
  have w: "wanted module = (((((([] @ (if RmsNormOp \<in> set module then [''rmsnorm.cu''] else [])) @ (if GeluOp \<in> set module then [''gelu.cu''] else [])) @
      (if SiluOp \<in> set module then [''silu.cu''] else [])) @ (if MatMulOp \<in> set module then [''matmul.cu''] else [])) @
      (if SoftmaxOp \<in> set module then [''softmax.cu''] else [])) @ (if FusedRmsNormMatMulOp \<in> set module then [''fused_rmsnorm_matmul.cu''] else [])) @
      (if FusedMatMulBiasGeluOp \<in> set module then [''fused_matmul_bias_gelu.cu''] else [])"
    by (simp add: wanted_def kernel_files_def)
  show ?thesis unfolding lower_to_cuda_def Let_def start emit_if_emitted w fold_visit
    by (simp only: none_seen_def seen.simps simp_thms)
qed

text \<open>Either emitting pass writes exactly the files of the kinds of operation that occur in the module,
  each with its emitter's text and in the fixed order, up to the first one that cannot be written; it
  succeeds when there is none, and touches no other file. With emitters that write the same texts the
  two passes leave the same files.\<close>

theorem lower_passes_emit:
  assumes "inj (path_append env dir)"
  shows "\<exists>ok fs'. lower_to_cuda env emitter dir module fs = (ok, fs') \<and> lower_to_hip env emitter dir module fs = (ok, fs') \<and>
    (ok \<longleftrightarrow> (\<forall>f \<in> set (wanted module). writable env dir f)) \<and>
    (\<forall>f. f \<in> set (takeWhile (writable env dir) (wanted module)) \<longrightarrow> fs' (path_append env dir f) = Some (emitter f)) \<and>
    (\<forall>p. p \<notin> path_append env dir ` set (takeWhile (writable env dir) (wanted module)) \<longrightarrow> fs' p = fs p)"
proof -
  let ?ns = "takeWhile (writable env dir) (wanted module)"
  let ?new = "map_of (rev (map (\<lambda>f. (path_append env dir f, emitter f)) ?ns))"
  have "distinct (map snd kernel_files)" by (simp add: kernel_files_def)
  then have "distinct (wanted module)" unfolding wanted_def by (rule distinct_map_filter)
  then have d: "distinct (map fst (rev (map (\<lambda>f. (path_append env dir f, emitter f)) ?ns)))"
    using assms by (simp add: rev_map [symmetric] comp_def distinct_map distinct_takeWhile inj_on_subset [OF assms])
  have new: "?new (path_append env dir f) = Some (emitter f)" if "f \<in> set ?ns" for f
    by (rule map_of_is_SomeI [OF d]) (use that in auto)
  have old: "?new p = None" if "p \<notin> path_append env dir ` set ?ns" for p
    using that by (auto simp: map_of_eq_None_iff)
  have "lower_to_hip env emitter dir module fs = lower_to_cuda env emitter dir module fs" by (simp only: lower_to_hip_def lower_to_cuda_def)
  then show ?thesis
    using new old by (auto simp: lower_to_cuda_emitted emitted_def list_all_iff map_add_def)
qed

theorem lower_passes_emit_witness:
  "\<exists>ok fs'. lower_to_cuda \<lparr>create_directories = (\<lambda>_. True), can_open_file = (\<lambda>p. p \<noteq> ''k/matmul.cu''), path_append = (\<lambda>d f. d @ CHR 0x2F # f)\<rparr>
      (\<lambda>f. f) ''k'' [MatMulOp, GeluOp, MatMulOp] Map.empty = (ok, fs') \<and> \<not> ok \<and> fs' ''k/gelu.cu'' = Some ''gelu.cu''"
proof -
  let ?env = "\<lparr>create_directories = (\<lambda>_. True), can_open_file = (\<lambda>p. p \<noteq> ''k/matmul.cu''), path_append = (\<lambda>d f. d @ CHR 0x2F # f)\<rparr>"
  have "inj (path_append ?env ''k'')" by (auto intro: injI)
  from lower_passes_emit [OF this, of "\<lambda>f. f" "[MatMulOp, GeluOp, MatMulOp]" Map.empty]
  obtain ok fs' where r: "lower_to_cuda ?env (\<lambda>f. f) ''k'' [MatMulOp, GeluOp, MatMulOp] Map.empty = (ok, fs')"
    "ok \<longleftrightarrow> (\<forall>f \<in> set (wanted [MatMulOp, GeluOp, MatMulOp]). writable ?env ''k'' f)"
    "\<forall>f. f \<in> set (takeWhile (writable ?env ''k'') (wanted [MatMulOp, GeluOp, MatMulOp])) \<longrightarrow> fs' (path_append ?env ''k'' f) = Some f"
    by blast
  have w: "wanted [MatMulOp, GeluOp, MatMulOp] = [''gelu.cu'', ''matmul.cu'']" by (simp add: wanted_def kernel_files_def)
  have "\<not> ok" using r(2) by (simp add: w writable_def)
  moreover have "fs' ''k/gelu.cu'' = Some ''gelu.cu''"
    using spec [OF r(3), of "''gelu.cu''"] by (simp add: w writable_def)
  ultimately show ?thesis using r(1) by blast
qed

end
