(* ===== verification/TilePlan.thy ===== *)
theory TilePlan
  imports IrFusion LowerGpu
begin

text \<open>
  The annotating passes on the matrix products of a function: the initial tile shape
  (\<open>InferTileLayout.cpp\<close>), the memory plan (\<open>PlanMemory.cpp\<close>) and the report skeleton
  (\<open>EmitKernelReport.cpp\<close>). They leave the operations alone and communicate through attributes. Sizes
  are \<open>int64_t\<close>: a product or sum that leaves the range is undefined, and the model gives \<open>None\<close>.
\<close>

section \<open>Tile shapes\<close>

record MatmulDims =
  dim_m :: int
  dim_n :: int
  dim_k :: int

definition matmul_structured :: "any_op \<Rightarrow> bool" where
  "matmul_structured opn \<longleftrightarrow>
     (case opn of PolyKernel MatMul \<Rightarrow> True | PolyKernel (FusedRmsNormMatMul e) \<Rightarrow> True | PolyKernel FusedMatMulBiasGelu \<Rightarrow> True
      | _ \<Rightarrow> False)"

definition mul64 :: "int \<Rightarrow> int \<Rightarrow> int option" where
  "mul64 a b = (if in_i64 (a * b) then Some (a * b) else None)"

definition add64 :: "int \<Rightarrow> int \<Rightarrow> int option" where
  "add64 a b = (if in_i64 (a + b) then Some (a + b) else None)"

definition product :: "int list \<Rightarrow> int option" where
  "product ds = foldl (\<lambda>acc d. acc \<bind> (\<lambda>a. mul64 a d)) (Some 1) ds"

definition extractMatmulDims :: "types \<Rightarrow> instr \<Rightarrow> MatmulDims option option" where
  "extractMatmulDims \<tau> i =
     (let a = \<tau> (operands i ! 0); b = \<tau> (operands i ! 1)
      in if \<not> is_ranked a \<or> \<not> is_ranked b \<or> rank a < 2 \<or> rank b < 1 then Some None
         else if kDynamic \<in> set (tshape a) then Some None
         else if kDynamic \<in> set (tshape b) then Some None
         else map_option (\<lambda>m. Some \<lparr>dim_m = m, dim_n = last (tshape b), dim_k = last (tshape a)\<rparr>) (product (butlast (tshape a))))"

definition chooseTile :: "int \<Rightarrow> int" where
  "chooseTile dim = (case find (\<lambda>candidate. candidate \<le> dim) [128, 64, 32, 16] of Some candidate \<Rightarrow> candidate | None \<Rightarrow> dim)"

definition infer_tile_layout_op :: "types \<Rightarrow> instr \<Rightarrow> instr option" where
  "infer_tile_layout_op \<tau> i =
     (if \<not> matmul_structured (iop i) then Some i
      else do {
        dims \<leftarrow> extractMatmulDims \<tau> i;
        case dims of
          None \<Rightarrow> Some i
        | Some dims \<Rightarrow> Some (i\<lparr>attrs := (attrs i)
            (''polykernel.tile_m'' \<mapsto> IntegerAttr (chooseTile (dim_m dims)),
             ''polykernel.tile_n'' \<mapsto> IntegerAttr (chooseTile (dim_n dims)),
             ''polykernel.tile_k'' \<mapsto> IntegerAttr (chooseTile (dim_k dims)),
             ''polykernel.layout'' \<mapsto> StringAttr ''row_major'')\<rparr>)
      })"

text \<open>The walk of a pass over the operations of a function.\<close>

definition walk :: "(instr \<Rightarrow> instr option) \<Rightarrow> func \<Rightarrow> func option" where
  "walk pass f = map_option (\<lambda>is. f\<lparr>body := is\<rparr>) (those (map pass (body f)))"

definition infer_tile_layout :: "func \<Rightarrow> func option" where
  "infer_tile_layout f = walk (infer_tile_layout_op (vtypes f)) f"

section \<open>The memory plan\<close>

definition kFallbackTile :: int where "kFallbackTile = 16"
definition kPipelineStages :: int where "kPipelineStages = 2"
definition kSmemLimitBytes :: int where "kSmemLimitBytes = 163 * 1024"

definition isStaticRankedTensor :: "ty \<Rightarrow> bool" where
  "isStaticRankedTensor t \<longleftrightarrow> is_ranked t \<and> kDynamic \<notin> set (tshape t)"

definition numElements :: "ty \<Rightarrow> int option" where
  "numElements t = product (tshape t)"

fun getIntOrFloatBitWidth :: "elem \<Rightarrow> int" where
  "getIntOrFloatBitWidth BF16 = 16"
| "getIntOrFloatBitWidth F16 = 16"
| "getIntOrFloatBitWidth F32 = 32"
| "getIntOrFloatBitWidth F64 = 64"
| "getIntOrFloatBitWidth (IntegerType n) = int n"

definition elementBytes :: "ty \<Rightarrow> int" where
  "elementBytes t = getIntOrFloatBitWidth (telem t) div 8"

definition readTileAttr :: "instr \<Rightarrow> string \<Rightarrow> int \<Rightarrow> int" where
  "readTileAttr i name fallback = (case attrs i name of Some (IntegerAttr n) \<Rightarrow> n | _ \<Rightarrow> fallback)"

definition smem_bytes :: "types \<Rightarrow> instr \<Rightarrow> int option" where
  "smem_bytes \<tau> i =
     (let tileM = readTileAttr i ''polykernel.tile_m'' kFallbackTile;
          tileN = readTileAttr i ''polykernel.tile_n'' kFallbackTile;
          tileK = readTileAttr i ''polykernel.tile_k'' kFallbackTile
      in do {
        a \<leftarrow> mul64 tileM tileK;
        b \<leftarrow> mul64 tileK tileN;
        elements \<leftarrow> add64 a b;
        bytes \<leftarrow> mul64 elements (elementBytes (\<tau> (operands i ! 0)));
        mul64 bytes kPipelineStages
      })"

definition workspace_bytes :: "types \<Rightarrow> instr \<Rightarrow> int option" where
  "workspace_bytes \<tau> i =
     (if attrs i ''polykernel.fused_from'' \<noteq> None then Some 0
      else do {
        n \<leftarrow> numElements (\<tau> (results i ! 0));
        mul64 n (elementBytes (\<tau> (results i ! 0)))
      })"

definition plan_memory_op :: "types \<Rightarrow> instr \<Rightarrow> instr option" where
  "plan_memory_op \<tau> i =
     (if \<not> matmul_structured (iop i) then Some i
      else if \<not> isStaticRankedTensor (\<tau> (operands i ! 0)) \<or> \<not> isStaticRankedTensor (\<tau> (operands i ! 1)) \<or>
              \<not> isStaticRankedTensor (\<tau> (results i ! 0)) then Some i
      else do {
        smem \<leftarrow> smem_bytes \<tau> i;
        workspace \<leftarrow> workspace_bytes \<tau> i;
        let planned = (attrs i)(''polykernel.smem_bytes'' \<mapsto> IntegerAttr smem,
                                ''polykernel.workspace_bytes'' \<mapsto> IntegerAttr workspace);
        Some (if smem > kSmemLimitBytes
              then i\<lparr>attrs := planned(''polykernel.smem_over_budget'' \<mapsto> BoolAttr True)\<rparr>
              else i\<lparr>attrs := planned\<rparr>)
      })"

definition plan_memory :: "func \<Rightarrow> func option" where
  "plan_memory f = walk (plan_memory_op (vtypes f)) f"

section \<open>The report skeleton\<close>

record KernelSkeleton =
  sk_name :: string
  sk_m :: int
  sk_n :: int
  sk_k :: int
  sk_dtypeBytes :: int
  sk_tileM :: int
  sk_tileN :: int
  sk_tileK :: int
  sk_smemBytes :: int
  sk_fused :: bool
  sk_fusedFrom :: string

definition kernelName :: "any_op \<Rightarrow> string" where
  "kernelName opn =
     (case opn of PolyKernel (FusedRmsNormMatMul e) \<Rightarrow> ''fused_rmsnorm_matmul''
      | PolyKernel FusedMatMulBiasGelu \<Rightarrow> ''fused_matmul_bias_gelu''
      | _ \<Rightarrow> ''matmul'')"

definition skeleton :: "types \<Rightarrow> instr \<Rightarrow> KernelSkeleton option" where
  "skeleton \<tau> i =
     (let aShape = tshape (\<tau> (operands i ! 0)); bShape = tshape (\<tau> (operands i ! 1));
          fusedFrom = attrs i ''polykernel.fused_from''
      in map_option (\<lambda>m. \<lparr>sk_name = kernelName (iop i), sk_m = m, sk_n = last bShape, sk_k = last aShape,
          sk_dtypeBytes = getIntOrFloatBitWidth (telem (\<tau> (operands i ! 0))) div 8,
          sk_tileM = readTileAttr i ''polykernel.tile_m'' kFallbackTile,
          sk_tileN = readTileAttr i ''polykernel.tile_n'' kFallbackTile,
          sk_tileK = readTileAttr i ''polykernel.tile_k'' kFallbackTile,
          sk_smemBytes = readTileAttr i ''polykernel.smem_bytes'' 0,
          sk_fused = (case fusedFrom of Some (StringAttr s) \<Rightarrow> True | _ \<Rightarrow> False),
          sk_fusedFrom = (case fusedFrom of Some (StringAttr s) \<Rightarrow> s | _ \<Rightarrow> [])\<rparr>) (product (butlast aShape)))"

definition reported :: "types \<Rightarrow> instr \<Rightarrow> bool" where
  "reported \<tau> i \<longleftrightarrow> matmul_structured (iop i) \<and> isStaticRankedTensor (\<tau> (operands i ! 0)) \<and> isStaticRankedTensor (\<tau> (operands i ! 1))"

record report_options =
  backend :: string
  arch :: string
  path :: string
  outputDir :: string

definition report_op :: "report_options \<Rightarrow> types \<Rightarrow> instr \<Rightarrow> instr" where
  "report_op opts \<tau> i =
     (if reported \<tau> i
      then i\<lparr>attrs := (attrs i)(''polykernel.report_kernel'' \<mapsto> StringAttr (kernelName (iop i)),
                                ''polykernel.report_backend'' \<mapsto> StringAttr (backend opts),
                                ''polykernel.report_arch'' \<mapsto> StringAttr (arch opts),
                                ''polykernel.report_path'' \<mapsto> StringAttr (path opts))\<rparr>
      else i)"

definition render_kernel :: "report_options \<Rightarrow> KernelSkeleton \<Rightarrow> string" where
  "render_kernel opts s =
     json_line 4 ''{''
     @ json_line 6 (json_key ''kernel'' @ json_string (sk_name s) @ '','')
     @ json_line 6 (json_key ''backend'' @ json_string (backend opts) @ '','')
     @ json_line 6 (json_key ''arch'' @ json_string (arch opts) @ '','')
     @ json_line 6 (json_key ''shape'' @ ''{ '' @ json_key ''m'' @ int_to_string (sk_m s) @ '', '' @ json_key ''n'' @ int_to_string (sk_n s)
         @ '', '' @ json_key ''k'' @ int_to_string (sk_k s) @ '', '' @ json_key ''dtype_bytes'' @ int_to_string (sk_dtypeBytes s) @ '' },'')
     @ json_line 6 (json_key ''tile'' @ ''{ '' @ json_key ''m'' @ int_to_string (sk_tileM s) @ '', '' @ json_key ''n'' @ int_to_string (sk_tileN s)
         @ '', '' @ json_key ''k'' @ int_to_string (sk_tileK s) @ '' },'')
     @ json_line 6 (json_key ''smem_per_block_bytes'' @ int_to_string (sk_smemBytes s) @ '','')
     @ json_line 6 (json_key ''fused'' @ (if sk_fused s then ''true'' else ''false'') @ '','')
     @ json_line 6 (json_key ''fused_from'' @ json_string (sk_fusedFrom s) @ '','')
     @ json_line 6 (json_key ''compile_time_analysis'' @ json_string (''registers_per_thread, spill bytes, ''
         @ ''occupancy, traffic, roofline, bottleneck, suggested_fixes filled by '' @ ''polykernel-report (nvcc/ptxas + hipcc --save-temps)''))
     @ ''    }''"

fun render_kernels :: "report_options \<Rightarrow> bool \<Rightarrow> KernelSkeleton list \<Rightarrow> string" where
  "render_kernels opts is_first [] = []"
| "render_kernels opts is_first (s # ss) =
     (if is_first then [CHR 10] else [CHR 44, CHR 10]) @ render_kernel opts s @ render_kernels opts False ss"

definition renderManifest :: "report_options \<Rightarrow> KernelSkeleton list \<Rightarrow> string" where
  "renderManifest opts kernels =
     json_line 0 ''{''
     @ json_line 2 (json_key ''backend'' @ json_string (backend opts) @ '','')
     @ json_line 2 (json_key ''arch'' @ json_string (arch opts) @ '','')
     @ ''  '' @ json_key ''kernels'' @ ''[''
     @ render_kernels opts True kernels
     @ (if kernels = [] then json_line 0 '']'' else CHR 10 # json_line 2 '']'')
     @ json_line 0 ''}''"

text \<open>\<open>writeManifest\<close> is the same two steps as the emitters': create the directory, open and write.\<close>

definition emit_kernel_report :: "llvm_fs \<Rightarrow> report_options \<Rightarrow> func \<Rightarrow> files \<Rightarrow> (bool \<times> files \<times> func) option" where
  "emit_kernel_report env opts f fs =
     do {
       kernels \<leftarrow> those (map (skeleton (vtypes f)) (filter (reported (vtypes f)) (body f)));
       let (ok, fs') = emitKernelFile env (outputDir opts) ''kernel_report.json'' (renderManifest opts kernels) fs;
       Some (ok, fs', f\<lparr>body := map (report_op opts (vtypes f)) (body f)\<rparr>)
     }"

section \<open>Lemmas\<close>

lemma chooseTile_cases:
  "chooseTile dim \<in> {128, 64, 32, 16} \<and> chooseTile dim \<le> dim \<and> (dim < 128 \<longrightarrow> dim < 2 * chooseTile dim) \<or> chooseTile dim = dim \<and> dim < 16"
  by (auto simp: chooseTile_def)

lemma chooseTile_bounds:
  shows "chooseTile dim \<le> dim" "chooseTile dim \<le> 128" "0 \<le> dim \<Longrightarrow> 0 \<le> chooseTile dim"
  by (auto simp: chooseTile_def)

lemma mul64_Some [simp]: "mul64 a b = Some c \<longleftrightarrow> c = a * b \<and> in_i64 (a * b)"
  by (auto simp: mul64_def)

lemma add64_Some [simp]: "add64 a b = Some c \<longleftrightarrow> c = a + b \<and> in_i64 (a + b)"
  by (auto simp: add64_def)

lemma product_snoc: "product (ds @ [d]) = product ds \<bind> (\<lambda>a. mul64 a d)"
  by (simp add: product_def)

lemma product_Some: "product ds = Some p \<Longrightarrow> p = prod_list ds"
  by (induction ds arbitrary: p rule: rev_induct) (auto simp: product_snoc product_def [of "[]"] bind_eq_Some_conv)

lemma product_nonneg: "product ds = Some p \<Longrightarrow> \<forall>d \<in> set ds. 0 \<le> d \<Longrightarrow> 0 \<le> p"
  by (induction ds arbitrary: p rule: rev_induct) (auto simp: product_snoc product_def [of "[]"] bind_eq_Some_conv)

text \<open>The two planning passes on one matrix product.\<close>

definition planned :: "types \<Rightarrow> instr \<Rightarrow> instr option" where
  "planned \<tau> i = infer_tile_layout_op \<tau> i \<bind> plan_memory_op \<tau>"

definition tiled :: "MatmulDims \<Rightarrow> instr \<Rightarrow> instr" where
  "tiled d i = i\<lparr>attrs := (attrs i)
               (''polykernel.tile_m'' \<mapsto> IntegerAttr (chooseTile (dim_m d)),
                ''polykernel.tile_n'' \<mapsto> IntegerAttr (chooseTile (dim_n d)),
                ''polykernel.tile_k'' \<mapsto> IntegerAttr (chooseTile (dim_k d)),
                ''polykernel.layout'' \<mapsto> StringAttr ''row_major'')\<rparr>"

lemma tiled_simps [simp]:
  "iop (tiled d i) = iop i" "operands (tiled d i) = operands i" "results (tiled d i) = results i"
  by (simp_all add: tiled_def)

lemma tiled_attrs:
  "matmul_structured (iop i) \<Longrightarrow> extractMatmulDims \<tau> i = Some (Some d) \<Longrightarrow> infer_tile_layout_op \<tau> i = Some (tiled d i)"
  by (simp add: infer_tile_layout_op_def tiled_def)

lemma tiled_smem:
  "smem_bytes \<tau> (tiled d i) = Some n \<Longrightarrow>
    n = (chooseTile (dim_m d) * chooseTile (dim_k d) + chooseTile (dim_k d) * chooseTile (dim_n d)) * elementBytes (\<tau> (operands i ! 0)) * 2"
  by (auto simp: tiled_def smem_bytes_def readTileAttr_def kPipelineStages_def Let_def bind_eq_Some_conv)

lemma extract_static:
  assumes "extractMatmulDims \<tau> i = Some (Some d)"
  shows "isStaticRankedTensor (\<tau> (operands i ! 0))" "isStaticRankedTensor (\<tau> (operands i ! 1))"
    "product (butlast (tshape (\<tau> (operands i ! 0)))) = Some (dim_m d)" "dim_n d = last (tshape (\<tau> (operands i ! 1)))"
    "dim_k d = last (tshape (\<tau> (operands i ! 0)))"
    "tshape (\<tau> (operands i ! 0)) \<noteq> []" "tshape (\<tau> (operands i ! 1)) \<noteq> []"
  using assms by (auto simp: extractMatmulDims_def isStaticRankedTensor_def Let_def split: if_splits)

lemma planned_attrs:
  assumes "matmul_structured (iop i)" "extractMatmulDims \<tau> i = Some (Some d)" "isStaticRankedTensor (\<tau> (results i ! 0))"
    and "planned \<tau> i = Some j"
  shows "\<exists>smem. smem_bytes \<tau> (tiled d i) = Some smem \<and>
    attrs j ''polykernel.smem_bytes'' = Some (IntegerAttr smem) \<and>
    attrs j ''polykernel.smem_over_budget'' =
      (if smem > kSmemLimitBytes then Some (BoolAttr True) else attrs i ''polykernel.smem_over_budget'')"
    and "iop j = iop i" "operands j = operands i"
    "attrs j ''polykernel.tile_m'' = Some (IntegerAttr (chooseTile (dim_m d)))"
    "attrs j ''polykernel.tile_n'' = Some (IntegerAttr (chooseTile (dim_n d)))"
    "attrs j ''polykernel.tile_k'' = Some (IntegerAttr (chooseTile (dim_k d)))"
proof -
  from assms extract_static(1,2) [OF assms(2)] obtain smem workspace where
    s: "smem_bytes \<tau> (tiled d i) = Some smem" "workspace_bytes \<tau> (tiled d i) = Some workspace"
    and j: "j = (if smem > kSmemLimitBytes
      then (tiled d i)\<lparr>attrs := (attrs (tiled d i))(''polykernel.smem_bytes'' \<mapsto> IntegerAttr smem,
        ''polykernel.workspace_bytes'' \<mapsto> IntegerAttr workspace, ''polykernel.smem_over_budget'' \<mapsto> BoolAttr True)\<rparr>
      else (tiled d i)\<lparr>attrs := (attrs (tiled d i))(''polykernel.smem_bytes'' \<mapsto> IntegerAttr smem,
        ''polykernel.workspace_bytes'' \<mapsto> IntegerAttr workspace)\<rparr>)"
    by (auto simp: planned_def tiled_attrs plan_memory_op_def Let_def bind_eq_Some_conv)
  have "attrs j ''polykernel.smem_bytes'' = Some (IntegerAttr smem) \<and>
    attrs j ''polykernel.smem_over_budget'' =
      (if smem > kSmemLimitBytes then Some (BoolAttr True) else attrs i ''polykernel.smem_over_budget'')"
    unfolding j by (simp add: tiled_def)
  with s(1) show "\<exists>smem. smem_bytes \<tau> (tiled d i) = Some smem \<and>
    attrs j ''polykernel.smem_bytes'' = Some (IntegerAttr smem) \<and>
    attrs j ''polykernel.smem_over_budget'' =
      (if smem > kSmemLimitBytes then Some (BoolAttr True) else attrs i ''polykernel.smem_over_budget'')" by blast
  show "iop j = iop i" "operands j = operands i"
    "attrs j ''polykernel.tile_m'' = Some (IntegerAttr (chooseTile (dim_m d)))"
    "attrs j ''polykernel.tile_n'' = Some (IntegerAttr (chooseTile (dim_n d)))"
    "attrs j ''polykernel.tile_k'' = Some (IntegerAttr (chooseTile (dim_k d)))"
    unfolding j by (simp_all add: tiled_def)
qed

lemma tile_bytes_bound:
  fixes a b c e :: int
  assumes "0 \<le> a" "a \<le> 128" "0 \<le> b" "b \<le> 128" "0 \<le> c" "c \<le> 128" "0 \<le> e" "e \<le> w"
  shows "(a * b + b * c) * e * 2 \<le> 65536 * w"
proof -
  have "a * b \<le> 128 * 128" "b * c \<le> 128 * 128" using assms by (intro mult_mono; simp)+
  then have "a * b + b * c \<le> 32768" by simp
  then have "(a * b + b * c) * e \<le> 32768 * w" using assms by (intro mult_mono) auto
  then show ?thesis by linarith
qed

lemma elementBytes_nonneg: "0 \<le> elementBytes t"
  by (cases "telem t") (simp_all add: elementBytes_def)


definition mlp_shapes :: types where
  "mlp_shapes v = RankedTensor (if v = 0 then [2, 128, 8] else if v = 1 then [8, 32] else [2, 128, 32]) BF16"

definition projection :: instr where
  "projection = \<lparr>iop = PolyKernel MatMul, operands = [0, 1], results = [2], attrs = Map.empty\<rparr>"

definition projection_dims :: MatmulDims where
  "projection_dims = \<lparr>dim_m = 256, dim_n = 32, dim_k = 8\<rparr>"

lemma projection_hyps:
  "matmul_structured (iop projection)" "extractMatmulDims mlp_shapes projection = Some (Some projection_dims)"
  "isStaticRankedTensor (mlp_shapes (results projection ! 0))"
  "\<forall>n \<in> set (tshape (mlp_shapes (operands projection ! 0))) \<union> set (tshape (mlp_shapes (operands projection ! 1))). 0 \<le> n"
  by (simp_all add: matmul_structured_def projection_def extractMatmulDims_def mlp_shapes_def kDynamic_def projection_dims_def
      isStaticRankedTensor_def product_def mul64_def in_i64_def)

lemma planned_demo: "\<exists>j s. planned mlp_shapes projection = Some j \<and> skeleton mlp_shapes j = Some s"
proof -
  note h = projection_hyps
  have prod: "product [2, 128] = Some 256" "product [2, 128, 32] = Some 8192" by (simp_all add: product_def mul64_def in_i64_def)
  have "smem_bytes mlp_shapes (tiled projection_dims projection) = Some 5120"
    by (simp add: smem_bytes_def tiled_def readTileAttr_def chooseTile_def mul64_def add64_def in_i64_def kPipelineStages_def
        projection_dims_def projection_def mlp_shapes_def elementBytes_def)
  moreover have "workspace_bytes mlp_shapes (tiled projection_dims projection) = Some 16384"
    by (simp add: workspace_bytes_def tiled_def projection_def mlp_shapes_def numElements_def prod mul64_def in_i64_def elementBytes_def)
  ultimately obtain j where j: "planned mlp_shapes projection = Some j"
    using h extract_static(1,2) [OF h(2)] by (auto simp: planned_def tiled_attrs plan_memory_op_def Let_def)
  note p = planned_attrs(2-6) [OF h(1-3) j]
  have "skeleton mlp_shapes j \<noteq> None"
    using prod by (simp add: skeleton_def Let_def p(2)) (simp add: projection_def mlp_shapes_def)
  with j show ?thesis by auto
qed


text \<open>The passes annotate and do nothing else.\<close>

definition annotates :: "func \<Rightarrow> func \<Rightarrow> bool" where
  "annotates f g \<longleftrightarrow> rets g = rets f \<and> vtypes g = vtypes f \<and>
     map (\<lambda>i. (iop i, operands i, results i)) (body g) = map (\<lambda>i. (iop i, operands i, results i)) (body f)"

lemma run_unannotated:
  assumes "map (\<lambda>i. (iop i, operands i, results i)) xs = map (\<lambda>i. (iop i, operands i, results i)) ys"
  shows "run K xs E = run K ys E" "ssa D xs = ssa D ys"
proof -
  let ?same = "\<lambda>x y. iop x = iop y \<and> operands x = operands y \<and> results x = results y"
  have "list_all2 (=) (map (\<lambda>i. (iop i, operands i, results i)) xs) (map (\<lambda>i. (iop i, operands i, results i)) ys)"
    unfolding assms by (simp only: list.rel_eq)
  then have same: "list_all2 ?same xs ys" unfolding list.rel_map by (simp only: prod.inject)
  then show "run K xs E = run K ys E"
  proof (induction arbitrary: E rule: list_all2_induct)
    case (Cons x xs y ys)
    have "iop x = iop y" "operands x = operands y" "results x = results y" using Cons.hyps by blast+
    then show ?case by (simp only: run.simps Cons.IH)
  qed (simp only:)
  from same show "ssa D xs = ssa D ys"
  proof (induction arbitrary: D rule: list_all2_induct)
    case (Cons x xs y ys)
    have "operands x = operands y" "results x = results y" using Cons.hyps by blast+
    then show ?case by (simp only: ssa.simps Cons.IH)
  qed (simp only:)
qed

lemma annotates_same:
  assumes "annotates f g"
  shows "returns K g E = returns K f E" "wf_func D f \<Longrightarrow> wf_func D g"
proof -
  let ?k = "\<lambda>i :: instr. (iop i, operands i, results i)"
  have m: "map ?k (body g) = map ?k (body f)" and r: "rets g = rets f" "vtypes g = vtypes f" using assms by (simp_all add: annotates_def)
  show "returns K g E = returns K f E" by (simp add: returns_def run_unannotated(1) [OF m] r)
  assume wf: "wf_func D f"
  have sets: "?k ` set (body g) = ?k ` set (body f)" using arg_cong [OF m, of set] unfolding set_map .
  have same: "?k i \<in> ?k ` set (body f)" if "i \<in> set (body g)" for i unfolding sets [symmetric] using that by (rule imageI)
  have "defs (body g) = \<Union> ((\<lambda>(a, b, c). set c) ` set (map ?k (body g)))" by (simp add: defs_def image_image)
  also have "\<dots> = defs (body f)" unfolding m by (simp add: defs_def image_image)
  finally have "defs (body g) = defs (body f)" .
  moreover have "well_typed (vtypes f) i" if "i \<in> set (body g)" for i
  proof -
    from same [OF that] obtain j where "j \<in> set (body f)" "?k i = ?k j" by blast
    then have "j \<in> set (body f)" "iop j = iop i" "operands j = operands i" "results j = results i" by simp_all
    moreover from this(1) have "well_typed (vtypes f) j" using wf by (simp add: wf_func_def)
    ultimately show ?thesis by (simp only: well_typed_def)
  qed
  ultimately show "wf_func D g" using wf by (simp add: wf_func_def run_unannotated(2) [OF m] r)
qed

lemma annotates_trans: "annotates f g \<Longrightarrow> annotates g h \<Longrightarrow> annotates f h"
  by (simp add: annotates_def)

lemma annotates_map:
  assumes "\<And>i. iop (h i) = iop i \<and> operands (h i) = operands i \<and> results (h i) = results i"
  shows "annotates f (f\<lparr>body := map h (body f)\<rparr>)"
  by (simp add: annotates_def assms comp_def)

lemma annotates_walk:
  assumes "walk h f = Some g"
    and "\<And>i j. h i = Some j \<Longrightarrow> iop j = iop i \<and> operands j = operands i \<and> results j = results i"
  shows "annotates f g"
proof -
  obtain "is" where "is": "those (map h (body f)) = Some is" "g = f\<lparr>body := is\<rparr>" using assms(1) by (auto simp: walk_def)
  have "those (map h xs) = Some ys \<Longrightarrow> map (\<lambda>i. (iop i, operands i, results i)) ys = map (\<lambda>i. (iop i, operands i, results i)) xs" for xs ys
    by (induction xs arbitrary: ys) (auto dest!: assms(2) split: option.splits)
  from this [OF "is"(1)] show ?thesis by (simp add: annotates_def "is"(2))
qed

lemma passes_annotate:
  "infer_tile_layout f = Some g \<Longrightarrow> annotates f g" "plan_memory f = Some g \<Longrightarrow> annotates f g"
  "emit_kernel_report env opts f fs = Some (ok, fs', g) \<Longrightarrow> annotates f g"
proof -
  show "infer_tile_layout f = Some g \<Longrightarrow> annotates f g" unfolding infer_tile_layout_def
    by (erule annotates_walk) (auto simp: infer_tile_layout_op_def bind_eq_Some_conv split: if_splits option.splits)
  show "plan_memory f = Some g \<Longrightarrow> annotates f g" unfolding plan_memory_def
    by (erule annotates_walk) (auto simp: plan_memory_op_def Let_def bind_eq_Some_conv split: if_splits)
  have "annotates f (f\<lparr>body := map (report_op opts (vtypes f)) (body f)\<rparr>)"
    by (rule annotates_map) (simp add: report_op_def)
  then show "emit_kernel_report env opts f fs = Some (ok, fs', g) \<Longrightarrow> annotates f g"
    by (auto simp: emit_kernel_report_def bind_eq_Some_conv split_beta)
qed

text \<open>The annotating pipeline, \<open>--infer-tile-layout\<close>, \<open>--plan-memory\<close> and \<open>--emit-kernel-report\<close>, keeps
  a function well typed and in SSA form and returns the same tensors on every input; the one file
  it touches is the report.\<close>

definition annotating_pipeline :: "llvm_fs \<Rightarrow> report_options \<Rightarrow> func \<Rightarrow> files \<Rightarrow> (bool \<times> files \<times> func) option" where
  "annotating_pipeline env opts f fs =
     do {
       f1 \<leftarrow> infer_tile_layout f;
       f2 \<leftarrow> plan_memory f1;
       emit_kernel_report env opts f2 fs
     }"

theorem annotating_passes_preserve:
  assumes "annotating_pipeline env opts f fs = Some (ok, fs', g)"
  shows "returns K g E = returns K f E \<and> (wf_func D f \<longrightarrow> wf_func D g) \<and>
    (\<forall>p. p \<noteq> path_append env (outputDir opts) ''kernel_report.json'' \<longrightarrow> fs' p = fs p)"
proof -
  obtain f1 f2 where p: "infer_tile_layout f = Some f1" "plan_memory f1 = Some f2" "emit_kernel_report env opts f2 fs = Some (ok, fs', g)"
    using assms by (auto simp: annotating_pipeline_def bind_eq_Some_conv)
  have "annotates f g"
    by (rule annotates_trans [OF passes_annotate(1) [OF p(1)] annotates_trans [OF passes_annotate(2) [OF p(2)] passes_annotate(3) [OF p(3)]]])
  moreover have "\<forall>p. p \<noteq> path_append env (outputDir opts) ''kernel_report.json'' \<longrightarrow> fs' p = fs p"
    using p(3) by (auto simp: emit_kernel_report_def emitKernelFile_def Let_def bind_eq_Some_conv split: prod.splits if_splits)
  ultimately show ?thesis using annotates_same by blast
qed

text \<open>A flag once set stays, even when a smaller tile brings the plan back under the limit.\<close>

lemma over_budget_flag_stays:
  assumes "attrs i ''polykernel.smem_over_budget'' = Some v" "smem_bytes \<tau> i = Some n" "n \<le> kSmemLimitBytes"
    and "plan_memory_op \<tau> i = Some j"
  shows "attrs j ''polykernel.smem_over_budget'' = Some v"
  using assms by (auto simp: plan_memory_op_def Let_def bind_eq_Some_conv split: if_splits)

text \<open>Nothing bounds the product of the leading dimensions.\<close>

lemma leading_dims_overflow: "product [2 ^ 32, 2 ^ 31] = None"
  by (simp add: product_def mul64_def in_i64_def)

text \<open>Elements narrower than a byte count as nothing.\<close>

lemma narrow_elements_free:
  assumes "telem (\<tau> (operands i ! 0)) = IntegerType n" "n < 8" "smem_bytes \<tau> i = Some b"
  shows "b = 0"
  using assms by (auto simp: smem_bytes_def elementBytes_def Let_def bind_eq_Some_conv)

text \<open>With four byte elements the largest tiles exceed the limit.\<close>

lemma wide_elements_over:
  "(chooseTile 128 * chooseTile 128 + chooseTile 128 * chooseTile 128) * 4 * 2 > kSmemLimitBytes"
  by (simp add: chooseTile_def kSmemLimitBytes_def)

definition demo_env :: llvm_fs where
  "demo_env = \<lparr>create_directories = (\<lambda>_. True), can_open_file = (\<lambda>_. True), path_append = (\<lambda>d f. d @ CHR 0x2F # f)\<rparr>"

definition projection_func :: func where
  "projection_func = \<lparr>body = [projection], rets = [2], vtypes = mlp_shapes\<rparr>"

lemma annotating_passes_preserve_witness:
  "\<exists>ok fs' g. annotating_pipeline demo_env \<lparr>backend = ''cuda'', arch = ''sm_80'', path = [], outputDir = ''out''\<rparr> projection_func Map.empty =
      Some (ok, fs', g) \<and> returns axis_kernels g (\<lambda>v. int v + 2) = Some [6] \<and> fs' ''out/main.cu'' = None"
  (is "\<exists>ok fs' g. annotating_pipeline demo_env ?opts projection_func Map.empty = _ \<and> _")
proof -
  obtain j s where j: "planned mlp_shapes projection = Some j" "skeleton mlp_shapes j = Some s" using planned_demo by blast
  then obtain i where i: "infer_tile_layout_op mlp_shapes projection = Some i" "plan_memory_op mlp_shapes i = Some j"
    by (auto simp: planned_def bind_eq_Some_conv)
  have "annotating_pipeline demo_env ?opts projection_func Map.empty \<noteq> None"
    by (simp add: annotating_pipeline_def infer_tile_layout_def plan_memory_def walk_def projection_func_def i emit_kernel_report_def j(2)
        split: prod.split)
  then obtain ok fs' g where e: "annotating_pipeline demo_env ?opts projection_func Map.empty = Some (ok, fs', g)" by auto
  have "returns axis_kernels projection_func (\<lambda>v. int v + 2) = Some [6]"
    by (simp add: returns_def projection_func_def projection_def denote_any_def on2_def axis_kernels_def)
  with annotating_passes_preserve [OF e, of axis_kernels "\<lambda>v. int v + 2" "{}"] e show ?thesis by (auto simp: demo_env_def)
qed

end
