(* ===== verification/Occupancy.thy ===== *)
theory Occupancy
  imports Doubles
begin

text \<open>
  The occupancy models of the compile-time analyzer: \<open>Occupancy.cpp\<close> for the CUDA architectures and
  \<open>ComputeGfx1101Occupancy\<close> of \<open>AmdIsaAnalyzer.cpp\<close>. Both take the smallest of four quotients; an
  \<open>int\<close> overflow or a division by zero is \<open>None\<close>.
\<close>

section \<open>Architectures\<close>

datatype arch = sm_80 | sm_89 | sm_90

definition ParseArch :: "string \<Rightarrow> arch option" where
  "ParseArch s =
     (if s = ''sm_80'' then Some sm_80 else if s = ''sm_89'' then Some sm_89 else if s = ''sm_90'' then Some sm_90 else None)"

primrec ArchName :: "arch \<Rightarrow> string" where
  "ArchName sm_80 = ''sm_80''"
| "ArchName sm_89 = ''sm_89''"
| "ArchName sm_90 = ''sm_90''"

record arch_limits =
  smem_per_sm_bytes :: int
  smem_per_block_max_bytes :: int
  regs_per_sm :: int
  regs_per_thread_max :: int
  warps_per_sm :: int
  blocks_per_sm :: int
  threads_per_sm :: int
  warp_size :: int

definition shared_limits :: arch_limits where
  "shared_limits = \<lparr>smem_per_sm_bytes = 0, smem_per_block_max_bytes = 0, regs_per_sm = 65536, regs_per_thread_max = 255,
     warps_per_sm = 64, blocks_per_sm = 32, threads_per_sm = 2048, warp_size = 32\<rparr>"

primrec LimitsFor :: "arch \<Rightarrow> arch_limits" where
  "LimitsFor sm_80 = shared_limits\<lparr>smem_per_sm_bytes := 164 * 1024, smem_per_block_max_bytes := 163 * 1024\<rparr>"
| "LimitsFor sm_89 = shared_limits\<lparr>warps_per_sm := 48, blocks_per_sm := 24, threads_per_sm := 1536,
     smem_per_sm_bytes := 100 * 1024, smem_per_block_max_bytes := 99 * 1024\<rparr>"
| "LimitsFor sm_90 = shared_limits\<lparr>smem_per_sm_bytes := 228 * 1024, smem_per_block_max_bytes := 227 * 1024\<rparr>"

datatype limiter = LimRegisters | LimSmem | LimWarps | LimBlocks

primrec LimiterName :: "limiter \<Rightarrow> string" where
  "LimiterName LimRegisters = ''registers''"
| "LimiterName LimSmem = ''smem''"
| "LimiterName LimWarps = ''warps''"
| "LimiterName LimBlocks = ''blocks''"

section \<open>The models\<close>

definition kUnlimited :: int where "kUnlimited = 2 ^ 31 - 1"

text \<open>A resource with an empty footprint never limits.\<close>

definition quota :: "int \<Rightarrow> int \<Rightarrow> int" where
  "quota pool footprint = (if footprint > 0 then cquot pool footprint else kUnlimited)"

text \<open>The running minimum over the candidates: the first to reach it is named.\<close>

definition best_candidate :: "('l \<times> int) list \<Rightarrow> 'l \<times> int" where
  "best_candidate cs = foldl (\<lambda>best c. if snd c < snd best then c else best) (hd cs) cs"

record 'l occupancy =
  active_warps :: int
  max_warps :: int
  occupancy_pct :: double
  occ_limiter :: 'l

definition occupancy_of :: "'l \<times> int \<Rightarrow> int \<Rightarrow> int \<Rightarrow> 'l occupancy" where
  "occupancy_of best per_block available =
     \<lparr>active_warps = snd best * per_block, max_warps = available,
      occupancy_pct = d_div (d_mul (d_of_int 100) (d_of_int (snd best * per_block))) (d_of_int available),
      occ_limiter = fst best\<rparr>"

definition ComputeOccupancy :: "int \<Rightarrow> int \<Rightarrow> int \<Rightarrow> arch \<Rightarrow> limiter occupancy option" where
  "ComputeOccupancy registers_per_thread smem_per_block_bytes threads_per_block a =
     (let l = LimitsFor a;
          warps_per_block = cquot (threads_per_block + warp_size l - 1) (warp_size l);
          regs_per_block = registers_per_thread * threads_per_block
      in if \<not> in_i32 (threads_per_block + warp_size l) \<or> \<not> in_i32 regs_per_block \<or> warps_per_block = 0 then None
         else Some (occupancy_of
           (best_candidate [(LimRegisters, quota (regs_per_sm l) regs_per_block),
                            (LimSmem, quota (smem_per_sm_bytes l) smem_per_block_bytes),
                            (LimWarps, cquot (warps_per_sm l) warps_per_block),
                            (LimBlocks, blocks_per_sm l)])
           warps_per_block (warps_per_sm l)))"

record gfx1101_limits =
  vgpr_file_per_cu :: int
  sgpr_file_per_cu :: int
  lds_per_cu_bytes :: int
  max_waves_per_cu :: int
  wave_size :: int

definition Gfx1101Limits :: gfx1101_limits where
  "Gfx1101Limits = \<lparr>vgpr_file_per_cu = 3072, sgpr_file_per_cu = 3200, lds_per_cu_bytes = 65536, max_waves_per_cu = 32, wave_size = 32\<rparr>"

datatype amd_limiter = LimVgpr | LimSgpr | LimLds | LimWaves

primrec AmdLimiterName :: "amd_limiter \<Rightarrow> string" where
  "AmdLimiterName LimVgpr = ''vgpr''"
| "AmdLimiterName LimSgpr = ''sgpr''"
| "AmdLimiterName LimLds = ''lds''"
| "AmdLimiterName LimWaves = ''waves''"

primrec AmdLimiterToContractH :: "amd_limiter \<Rightarrow> string" where
  "AmdLimiterToContractH LimVgpr = ''registers''"
| "AmdLimiterToContractH LimSgpr = ''blocks''"
| "AmdLimiterToContractH LimLds = ''smem''"
| "AmdLimiterToContractH LimWaves = ''warps''"

definition ComputeGfx1101Occupancy :: "int \<Rightarrow> int \<Rightarrow> int \<Rightarrow> int \<Rightarrow> amd_limiter occupancy option" where
  "ComputeGfx1101Occupancy vgpr_per_wave sgpr_per_wave lds_per_block_bytes threads_per_block =
     (let l = Gfx1101Limits;
          waves_per_block = cquot (threads_per_block + wave_size l - 1) (wave_size l);
          vgpr_per_block = vgpr_per_wave * waves_per_block;
          sgpr_per_block = sgpr_per_wave * waves_per_block
      in if \<not> in_i32 (threads_per_block + wave_size l) \<or> \<not> in_i32 vgpr_per_block \<or> \<not> in_i32 sgpr_per_block \<or> waves_per_block = 0
         then None
         else Some (occupancy_of
           (best_candidate [(LimVgpr, quota (vgpr_file_per_cu l) vgpr_per_block),
                            (LimSgpr, quota (sgpr_file_per_cu l) sgpr_per_block),
                            (LimLds, quota (lds_per_cu_bytes l) lds_per_block_bytes),
                            (LimWaves, cquot (max_waves_per_cu l) waves_per_block)])
           waves_per_block (max_waves_per_cu l)))"

section \<open>Lemmas\<close>

lemma best_candidate_min:
  assumes "cs \<noteq> []"
  shows "best_candidate cs \<in> set cs \<and> (\<forall>c \<in> set cs. snd (best_candidate cs) \<le> snd c)"
proof -
  let ?step = "\<lambda>best c :: 'a \<times> int. if snd c < snd best then c else best"
  have fold: "foldl ?step b xs \<in> insert b (set xs) \<and> snd (foldl ?step b xs) \<le> snd b \<and> (\<forall>c \<in> set xs. snd (foldl ?step b xs) \<le> snd c)" for b xs
  proof (induction xs arbitrary: b)
    case (Cons x xs)
    show ?case using Cons.IH [of "?step b x"] by (auto split: if_splits)
  qed simp
  show ?thesis using fold [of "hd cs" cs] assms hd_in_set [OF assms] by (auto simp: best_candidate_def)
qed

lemma quota_fits:
  assumes "0 \<le> f" "0 \<le> pool" "0 \<le> k" "k \<le> kUnlimited"
  shows "k * f \<le> pool \<longleftrightarrow> k \<le> quota pool f"
proof (cases "f = 0")
  case False
  then have f: "0 < f" using assms(1) by simp
  have "k * f \<le> pool \<longleftrightarrow> k \<le> pool div f"
  proof
    assume "k * f \<le> pool"
    from zdiv_mono1 [OF this f] show "k \<le> pool div f" using f by simp
  next
    assume "k \<le> pool div f"
    then have "k * f \<le> pool div f * f" using f by simp
    also have "\<dots> \<le> pool" using pos_mod_sign [OF f, of pool] div_mult_mod_eq [of pool f] by linarith
    finally show "k * f \<le> pool" .
  qed
  then show ?thesis using f assms(2) by (simp add: quota_def cquot_nonneg)
qed (use assms in \<open>simp add: quota_def\<close>)

text \<open>The percentage and its two thresholds, in double precision, are exact.\<close>

lemma percent_less:
  assumes "0 \<le> n" "0 < w" "w < 2 ^ 20" "n < 2 ^ 40"
  shows "d_lt (d_div (d_mul (d_of_int 100) (d_of_int n)) (d_of_int w)) (d_of_int 50) \<longleftrightarrow> 2 * n < w"
    "d_lt (d_div (d_mul (d_of_int 100) (d_of_int n)) (d_of_int w)) (d_of_int 100) \<longleftrightarrow> n < w"
proof -
  obtain m u where x: "fp_decode binary64 (d_mul (d_of_int 100) (d_of_int n)) = FFin False m u" "real m * 2 powi u = real (nat (100 * n))"
    using d_mul_decode [of 100 n] assms(1,4) by auto
  have R: "nat (100 * n) < 2 ^ 53" using assms(1,4) by (simp add: nat_less_iff)
  have "d_lt (d_div (d_mul (d_of_int 100) (d_of_int n)) (d_of_int w)) (d_of_int (int 50)) \<longleftrightarrow> nat (100 * n) < 50 * nat w"
    by (rule d_ratio_less [OF x R assms(2,3) mag_percent(1,2)])
  moreover have "nat (100 * n) < 50 * nat w \<longleftrightarrow> 2 * n < w"
    unfolding of_nat_less_iff [where 'a = int, symmetric] using assms(1,2) by simp
  ultimately show "d_lt (d_div (d_mul (d_of_int 100) (d_of_int n)) (d_of_int w)) (d_of_int 50) \<longleftrightarrow> 2 * n < w" by simp
  have "d_lt (d_div (d_mul (d_of_int 100) (d_of_int n)) (d_of_int w)) (d_of_int (int 100)) \<longleftrightarrow> nat (100 * n) < 100 * nat w"
    by (rule d_ratio_less [OF x R assms(2,3) mag_percent(3,4)])
  moreover have "nat (100 * n) < 100 * nat w \<longleftrightarrow> n < w" using assms(1,2) by (simp add: nat_mult_distrib)
  ultimately show "d_lt (d_div (d_mul (d_of_int 100) (d_of_int n)) (d_of_int w)) (d_of_int 100) \<longleftrightarrow> n < w" by simp
qed

lemma limits_positive:
  "0 < warps_per_sm (LimitsFor a)" "warps_per_sm (LimitsFor a) \<le> 64" "0 < blocks_per_sm (LimitsFor a)" "blocks_per_sm (LimitsFor a) \<le> 32"
  "0 \<le> regs_per_sm (LimitsFor a)" "0 \<le> smem_per_sm_bytes (LimitsFor a)" "warp_size (LimitsFor a) = 32"
  "32 * warps_per_sm (LimitsFor a) = threads_per_sm (LimitsFor a)"
  by (cases a; simp add: shared_limits_def)+

lemma warps_of_block:
  "0 < t \<Longrightarrow> cquot (t + 32 - 1) 32 = (t + 31) div 32 \<and> 0 < (t + 31) div 32 \<and> t \<le> 32 * ((t + 31) div 32)"
  by (simp add: cquot_nonneg) presburger

text \<open>A candidate list whose quotas are exact finds the largest resident count, and names a resource that
  is exhausted.\<close>

lemma best_candidate_exact:
  assumes "cs \<noteq> []" "\<And>r q. (r, q) \<in> set cs \<Longrightarrow> 0 \<le> q" "\<exists>r q. (r, q) \<in> set cs \<and> q < kUnlimited"
    and exact: "\<And>r q k. (r, q) \<in> set cs \<Longrightarrow> 0 \<le> k \<Longrightarrow> k \<le> kUnlimited \<Longrightarrow> fits k r \<longleftrightarrow> k \<le> q"
  shows "0 \<le> snd (best_candidate cs)" "snd (best_candidate cs) < kUnlimited"
    "0 \<le> k \<Longrightarrow> k \<le> kUnlimited \<Longrightarrow> (\<forall>r \<in> fst ` set cs. fits k r) \<longleftrightarrow> k \<le> snd (best_candidate cs)"
    "\<not> fits (snd (best_candidate cs) + 1) (fst (best_candidate cs))"
proof -
  obtain r b where rb: "best_candidate cs = (r, b)" by (cases "best_candidate cs")
  have mem: "(r, b) \<in> set cs" and least: "\<And>r' q. (r', q) \<in> set cs \<Longrightarrow> b \<le> q"
    using best_candidate_min [OF assms(1)] by (auto simp: rb)
  show "0 \<le> snd (best_candidate cs)" using assms(2) [OF mem] by (simp add: rb)
  show less: "snd (best_candidate cs) < kUnlimited" using assms(3) least by (force simp: rb)
  show "\<not> fits (snd (best_candidate cs) + 1) (fst (best_candidate cs))"
    using exact [OF mem, of "b + 1"] assms(2) [OF mem] less by (simp add: rb)
  assume k: "0 \<le> k" "k \<le> kUnlimited"
  show "(\<forall>r \<in> fst ` set cs. fits k r) \<longleftrightarrow> k \<le> snd (best_candidate cs)"
  proof
    assume "\<forall>r \<in> fst ` set cs. fits k r"
    with mem have "fits k r" by force
    then show "k \<le> snd (best_candidate cs)" using exact [OF mem k] by (simp add: rb)
  next
    assume "k \<le> snd (best_candidate cs)"
    then show "\<forall>r \<in> fst ` set cs. fits k r" using exact [OF _ k] least by (force simp: rb)
  qed
qed

text \<open>What a multiprocessor has room for: \<open>k\<close> blocks do not exceed one of its resources.\<close>

primrec resident_fits :: "arch \<Rightarrow> int \<Rightarrow> int \<Rightarrow> int \<Rightarrow> int \<Rightarrow> limiter \<Rightarrow> bool" where
  "resident_fits a regs smem threads k LimRegisters \<longleftrightarrow> k * (regs * threads) \<le> regs_per_sm (LimitsFor a)"
| "resident_fits a regs smem threads k LimSmem \<longleftrightarrow> k * smem \<le> smem_per_sm_bytes (LimitsFor a)"
| "resident_fits a regs smem threads k LimWarps \<longleftrightarrow> k * ((threads + 31) div 32) \<le> warps_per_sm (LimitsFor a)"
| "resident_fits a regs smem threads k LimBlocks \<longleftrightarrow> k \<le> blocks_per_sm (LimitsFor a)"

primrec waves_fit :: "int \<Rightarrow> int \<Rightarrow> int \<Rightarrow> int \<Rightarrow> int \<Rightarrow> amd_limiter \<Rightarrow> bool" where
  "waves_fit vgpr sgpr lds threads k LimVgpr \<longleftrightarrow> k * (vgpr * ((threads + 31) div 32)) \<le> 3072"
| "waves_fit vgpr sgpr lds threads k LimSgpr \<longleftrightarrow> k * (sgpr * ((threads + 31) div 32)) \<le> 3200"
| "waves_fit vgpr sgpr lds threads k LimLds \<longleftrightarrow> k * lds \<le> 65536"
| "waves_fit vgpr sgpr lds threads k LimWaves \<longleftrightarrow> k * ((threads + 31) div 32) \<le> 32"

lemma quota_nonneg: "0 \<le> pool \<Longrightarrow> 0 \<le> quota pool f"
  by (simp add: quota_def kUnlimited_def cquot_nonneg pos_imp_zdiv_nonneg_iff)

lemma all_limiters: "(\<forall>r \<in> {LimRegisters, LimSmem, LimWarps, LimBlocks}. Q r) \<longleftrightarrow> (\<forall>r. Q r)"
proof
  assume all: "\<forall>r \<in> {LimRegisters, LimSmem, LimWarps, LimBlocks}. Q r"
  show "\<forall>r. Q r"
  proof
    show "Q r" for r using all by (cases r) simp_all
  qed
qed simp

lemma all_amd_limiters: "(\<forall>r \<in> {LimVgpr, LimSgpr, LimLds, LimWaves}. Q r) \<longleftrightarrow> (\<forall>r. Q r)"
proof
  assume all: "\<forall>r \<in> {LimVgpr, LimSgpr, LimLds, LimWaves}. Q r"
  show "\<forall>r. Q r"
  proof
    show "Q r" for r using all by (cases r) simp_all
  qed
qed simp

lemma cquot_quota: "0 < f \<Longrightarrow> cquot pool f = quota pool f"
  by (simp add: quota_def)

lemma occupancy_main:
  assumes "ComputeOccupancy regs smem threads a = Some occ" "0 \<le> regs" "0 \<le> smem" "0 < threads"
  shows "\<exists>b \<ge> 0. active_warps occ = b * ((threads + 31) div 32) \<and>
    (\<forall>k \<ge> 0. (\<forall>r. resident_fits a regs smem threads k r) \<longleftrightarrow> k \<le> b) \<and>
    \<not> resident_fits a regs smem threads (b + 1) (occ_limiter occ) \<and>
    b * threads \<le> threads_per_sm (LimitsFor a) \<and>
    (d_lt (occupancy_pct occ) (d_of_int 50) \<longleftrightarrow> 2 * active_warps occ < max_warps occ) \<and>
    (d_lt (occupancy_pct occ) (d_of_int 100) \<longleftrightarrow> active_warps occ < max_warps occ)"
proof -
  let ?l = "LimitsFor a" and ?w = "(threads + 31) div 32"
  note L = limits_positive [of a] and W = warps_of_block [OF assms(4)]
  let ?cs = "[(LimRegisters, quota (regs_per_sm ?l) (regs * threads)), (LimSmem, quota (smem_per_sm_bytes ?l) smem),
      (LimWarps, quota (warps_per_sm ?l) ?w), (LimBlocks, blocks_per_sm ?l)]"
  let ?b = "snd (best_candidate ?cs)"
  have occ: "occ = occupancy_of (best_candidate ?cs) ?w (warps_per_sm ?l)"
    using assms(1) W cquot_quota [of ?w "warps_per_sm ?l"] by (simp add: ComputeOccupancy_def Let_def L(7) split: if_splits)
  have exact: "resident_fits a regs smem threads k r \<longleftrightarrow> k \<le> q" if "(r, q) \<in> set ?cs" "0 \<le> k" "k \<le> kUnlimited" for r q k
    using that quota_fits [of "regs * threads" "regs_per_sm ?l" k] quota_fits [of smem "smem_per_sm_bytes ?l" k]
      quota_fits [of ?w "warps_per_sm ?l" k] assms(2-4) W L by auto
  have nonneg: "0 \<le> q" if "(r, q) \<in> set ?cs" for r q using that L by (auto intro: quota_nonneg)
  have small: "\<exists>r q. (r, q) \<in> set ?cs \<and> q < kUnlimited"
    using L(4) by (intro exI [of _ LimBlocks] exI [of _ "blocks_per_sm ?l"]) (simp add: kUnlimited_def)
  note best = best_candidate_exact [of ?cs, OF _ nonneg small exact]
  have b: "0 \<le> ?b" "?b < kUnlimited" using best(1,2) by simp_all
  have fits: "(\<forall>r. resident_fits a regs smem threads k r) \<longleftrightarrow> k \<le> ?b" if "0 \<le> k" for k
  proof (cases "k \<le> kUnlimited")
    case True
    then show ?thesis using best(3) [where k = k] that by (simp only: list.set image_insert image_empty fst_conv all_limiters) simp
  next
    case False
    then have "\<not> resident_fits a regs smem threads k LimBlocks" using L(4) by (simp add: kUnlimited_def)
    moreover have "\<not> k \<le> ?b" using False b(2) by linarith
    ultimately show ?thesis by blast
  qed
  have "resident_fits a regs smem threads ?b LimWarps" using fits [OF b(1)] by blast
  then have warps: "?b * ?w \<le> warps_per_sm ?l" by (simp only: resident_fits.simps)
  have "?b * threads \<le> ?b * (32 * ?w)" using b(1) W by (intro mult_left_mono) simp_all
  then have "?b * threads \<le> threads_per_sm ?l" using warps L(8) by linarith
  moreover have "0 \<le> ?b * ?w" using b(1) W by simp
  then have "d_lt (occupancy_pct occ) (d_of_int 50) \<longleftrightarrow> 2 * active_warps occ < max_warps occ"
    "d_lt (occupancy_pct occ) (d_of_int 100) \<longleftrightarrow> active_warps occ < max_warps occ"
    using percent_less [of "?b * ?w" "warps_per_sm ?l"] warps L(1,2) by (simp_all add: occ occupancy_of_def)
  moreover have "\<not> resident_fits a regs smem threads (?b + 1) (occ_limiter occ)" using best(4) by (simp add: occ occupancy_of_def)
  ultimately show ?thesis using b(1) fits by (intro exI [of _ ?b]) (simp add: occ occupancy_of_def)
qed

text \<open>C29. The CUDA occupancy model: the active warps are those of the largest number of blocks whose
  registers, shared memory, warps and count all fit a multiprocessor, the named limiter is a resource
  that has no room for one more, the multiprocessor's warps and threads are not exceeded, and the
  two thresholds the report compares the percentage with are decided exactly.\<close>

theorem ComputeOccupancy_exact:
  assumes "ComputeOccupancy regs smem threads a = Some occ" "0 \<le> regs" "0 \<le> smem" "0 < threads"
  shows "\<exists>b \<ge> 0. active_warps occ = b * ((threads + 31) div 32) \<and>
    (\<forall>k \<ge> 0. (\<forall>r. resident_fits a regs smem threads k r) \<longleftrightarrow> k \<le> b) \<and>
    \<not> resident_fits a regs smem threads (b + 1) (occ_limiter occ) \<and>
    b * threads \<le> threads_per_sm (LimitsFor a) \<and>
    (d_lt (occupancy_pct occ) (d_of_int 50) \<longleftrightarrow> 2 * active_warps occ < max_warps occ) \<and>
    (d_lt (occupancy_pct occ) (d_of_int 100) \<longleftrightarrow> active_warps occ < max_warps occ)"
  by (rule occupancy_main [OF assms])

lemma ComputeOccupancy_exact_witness:
  "\<exists>occ. ComputeOccupancy 40 49152 256 sm_80 = Some occ \<and>
     (\<exists>b \<ge> 0. active_warps occ = b * 8 \<and> (\<forall>k \<ge> 0. (\<forall>r. resident_fits sm_80 40 49152 256 k r) \<longleftrightarrow> k \<le> b)) \<and>
     d_lt (occupancy_pct occ) (d_of_int 50)"
proof -
  obtain occ where occ: "ComputeOccupancy 40 49152 256 sm_80 = Some occ" "active_warps occ = 24" "max_warps occ = 64"
    by (simp add: ComputeOccupancy_def shared_limits_def cquot_def quota_def best_candidate_def occupancy_of_def in_i32_def)
  have "(0::int) \<le> 40" "(0::int) \<le> 49152" "(0::int) < 256" by simp_all
  from ComputeOccupancy_exact [OF occ(1) this] occ show ?thesis by auto
qed

text \<open>The gfx1101 model: the active waves are those of the largest number of workgroups whose vector and
  scalar registers, LDS and waves fit a compute unit, and the named limiter is exhausted.\<close>

theorem ComputeGfx1101Occupancy_exact:
  assumes "ComputeGfx1101Occupancy vgpr sgpr lds threads = Some occ" "0 \<le> vgpr" "0 \<le> sgpr" "0 \<le> lds" "0 < threads"
  shows "\<exists>b \<ge> 0. active_warps occ = b * ((threads + 31) div 32) \<and>
    (\<forall>k \<ge> 0. (\<forall>r. waves_fit vgpr sgpr lds threads k r) \<longleftrightarrow> k \<le> b) \<and>
    \<not> waves_fit vgpr sgpr lds threads (b + 1) (occ_limiter occ) \<and> active_warps occ \<le> max_warps occ"
proof -
  let ?w = "(threads + 31) div 32"
  note W = warps_of_block [OF assms(5)]
  let ?cs = "[(LimVgpr, quota 3072 (vgpr * ?w)), (LimSgpr, quota 3200 (sgpr * ?w)), (LimLds, quota 65536 lds), (LimWaves, quota 32 ?w)]"
  let ?b = "snd (best_candidate ?cs)"
  have occ: "occ = occupancy_of (best_candidate ?cs) ?w 32"
    using assms(1) W cquot_quota [of ?w 32] by (simp add: ComputeGfx1101Occupancy_def Gfx1101Limits_def Let_def split: if_splits)
  have exact: "waves_fit vgpr sgpr lds threads k r \<longleftrightarrow> k \<le> q" if "(r, q) \<in> set ?cs" "0 \<le> k" "k \<le> kUnlimited" for r q k
  proof -
    have "0 \<le> vgpr * ?w" "0 \<le> sgpr * ?w" "0 \<le> ?w" using assms(2,3) W by simp_all
    note Q = quota_fits [OF this(1), of 3072 k] quota_fits [OF this(2), of 3200 k] quota_fits [OF this(3), of 32 k]
      quota_fits [OF assms(4), of 65536 k]
    from that(1) consider "r = LimVgpr" "q = quota 3072 (vgpr * ?w)" | "r = LimSgpr" "q = quota 3200 (sgpr * ?w)"
      | "r = LimLds" "q = quota 65536 lds" | "r = LimWaves" "q = quota 32 ?w" by auto
    then show ?thesis by cases (simp_all only: waves_fit.simps Q that zero_le_numeral)
  qed
  have nonneg: "0 \<le> q" if "(r, q) \<in> set ?cs" for r q using that by (auto intro: quota_nonneg)
  have waves: "quota 32 ?w \<le> 32"
    using W zdiv_mono2 [of 32 1 ?w] by (simp add: quota_def cquot_nonneg)
  then have small: "\<exists>r q. (r, q) \<in> set ?cs \<and> q < kUnlimited"
    by (intro exI [of _ LimWaves] exI [of _ "quota 32 ?w"]) (simp add: kUnlimited_def)
  note best = best_candidate_exact [of ?cs, OF _ nonneg small exact]
  have b: "0 \<le> ?b" "?b < kUnlimited" using best(1,2) by simp_all
  have fits: "(\<forall>r. waves_fit vgpr sgpr lds threads k r) \<longleftrightarrow> k \<le> ?b" if "0 \<le> k" for k
  proof (cases "k \<le> kUnlimited")
    case True
    then show ?thesis using best(3) [where k = k] that by (simp only: list.set image_insert image_empty fst_conv all_amd_limiters) simp
  next
    case False
    have "k * 1 \<le> k * ?w" using that W by (intro mult_left_mono) simp_all
    then have le: "k \<le> k * ?w" by (simp only: mult_1_right)
    have "32 < k" using False by (simp add: kUnlimited_def)
    then have "\<not> k * ?w \<le> 32" using less_le_trans [OF _ le] by (simp only: not_le)
    then have "\<not> waves_fit vgpr sgpr lds threads k LimWaves" by (simp only: waves_fit.simps) simp
    moreover have "\<not> k \<le> ?b" using False b(2) by linarith
    ultimately show ?thesis by blast
  qed
  have "waves_fit vgpr sgpr lds threads ?b LimWaves" using fits [OF b(1)] by blast
  then have "?b * ?w \<le> 32" by (simp only: waves_fit.simps)
  moreover have "\<not> waves_fit vgpr sgpr lds threads (?b + 1) (occ_limiter occ)" using best(4) by (simp add: occ occupancy_of_def)
  ultimately show ?thesis using b(1) fits by (intro exI [of _ ?b]) (simp add: occ occupancy_of_def)
qed

lemma ComputeGfx1101Occupancy_exact_witness:
  "\<exists>occ. ComputeGfx1101Occupancy 96 18 16384 256 = Some occ \<and> active_warps occ = 32 \<and>
     \<not> waves_fit 96 18 16384 256 5 (occ_limiter occ)"
proof -
  obtain occ where occ: "ComputeGfx1101Occupancy 96 18 16384 256 = Some occ" "active_warps occ = 32"
    by (simp add: ComputeGfx1101Occupancy_def Gfx1101Limits_def cquot_def quota_def best_candidate_def occupancy_of_def in_i32_def)
  have "(0::int) \<le> 96" "(0::int) \<le> 18" "(0::int) \<le> 16384" "(0::int) < 256" by simp_all
  from ComputeGfx1101Occupancy_exact [OF occ(1) this] occ show ?thesis by auto
qed

text \<open>The limit on one block's shared memory is in the table and never looked at: a block of 164 KiB cannot
  be launched on an A100, and is reported with warps.\<close>

lemma block_limit_unused:
  "\<exists>occ. ComputeOccupancy 32 (164 * 1024) 256 sm_80 = Some occ \<and> 0 < active_warps occ \<and>
     smem_per_block_max_bytes (LimitsFor sm_80) < 164 * 1024"
  by (simp add: ComputeOccupancy_def shared_limits_def cquot_def quota_def best_candidate_def occupancy_of_def in_i32_def)

lemma no_threads_undefined: "ComputeOccupancy regs smem 0 a = None"
  by (simp add: ComputeOccupancy_def Let_def limits_positive cquot_nonneg)

end
