(* ===== verification/ResourceLogs.thy ===== *)
theory ResourceLogs
  imports Prelude "HOL-Library.Monad_Syntax"
begin

text \<open>
  The readers of compiler output: \<open>ParsePtxasLog\<close> (\<open>PtxasParser.cpp\<close>) and \<open>ParseAmdIsa\<close>
  (\<open>AmdIsaAnalyzer.cpp\<close>). Each field is the first match of one regular expression; the searches below
  are those of the few shapes of expression the code uses, and \<open>Thrown\<close> is the \<open>std::out_of_range\<close> of
  \<open>std::stoi\<close>, which nothing catches.
\<close>

section \<open>Searches\<close>

definition starts_with :: "string \<Rightarrow> string \<Rightarrow> bool" where
  "starts_with lit s \<longleftrightarrow> take (length lit) s = lit"

definition is_space :: "char \<Rightarrow> bool" where
  "is_space c \<longleftrightarrow> of_char c = (32::nat) \<or> 9 \<le> (of_char c :: nat) \<and> (of_char c :: nat) \<le> 13"

definition is_word :: "char \<Rightarrow> bool" where
  "is_word c \<longleftrightarrow> is_digit c \<or> 65 \<le> (of_char c :: nat) \<and> (of_char c :: nat) \<le> 90 \<or>
     97 \<le> (of_char c :: nat) \<and> (of_char c :: nat) \<le> 122 \<or> c = CHR ''_''"

text \<open>\<open>([0-9]+)lit\<close>, for a literal that does not begin with a digit.\<close>

fun search_before :: "string \<Rightarrow> string \<Rightarrow> string option" where
  "search_before lit [] = None"
| "search_before lit (c # s) =
     (if is_digit c \<and> starts_with lit (dropWhile is_digit (c # s)) then Some (takeWhile is_digit (c # s))
      else search_before lit s)"

text \<open>\<open>lit[:space:]+([0-9]+)\<close>\<close>

definition value_after :: "string \<Rightarrow> string \<Rightarrow> string option" where
  "value_after lit s =
     (let rest = drop (length lit) s; number = takeWhile is_digit (dropWhile is_space rest)
      in if starts_with lit s \<and> takeWhile is_space rest \<noteq> [] \<and> number \<noteq> [] then Some number else None)"

fun search_after :: "string \<Rightarrow> string \<Rightarrow> string option" where
  "search_after lit [] = None"
| "search_after lit (c # s) =
     (case value_after lit (c # s) of Some number \<Rightarrow> Some number | None \<Rightarrow> search_after lit s)"

text \<open>\<open>lit[:space:]\<close>\<close>

fun has_directive :: "string \<Rightarrow> string \<Rightarrow> bool" where
  "has_directive lit [] = False"
| "has_directive lit (c # s) =
     (starts_with lit (c # s) \<and> (case drop (length lit) (c # s) of [] \<Rightarrow> False | d # _ \<Rightarrow> is_space d) \<or> has_directive lit s)"

text \<open>The number of non-overlapping matches of \<open>lit[:word:]+\<close>.\<close>

function CountMatches :: "string \<Rightarrow> string \<Rightarrow> nat" where
  "CountMatches lit [] = 0"
| "CountMatches lit (c # s) =
     (let rest = drop (length lit) (c # s)
      in if starts_with lit (c # s) \<and> takeWhile is_word rest \<noteq> []
         then Suc (CountMatches lit (dropWhile is_word rest))
         else CountMatches lit s)"
  by pat_completeness auto
termination
proof (relation "measure (\<lambda>(lit, s). length s)", simp, goal_cases)
  case (1 lit c s rest)
  then have "takeWhile is_word rest \<noteq> []" by simp
  moreover have "length (takeWhile is_word rest) + length (dropWhile is_word rest) = length rest"
    unfolding length_append [symmetric] by simp
  ultimately have "length (dropWhile is_word rest) < length rest" by (cases "takeWhile is_word rest") simp_all
  moreover have "length rest \<le> length (c # s)" unfolding 1(1) by simp
  ultimately show ?case by simp
qed simp

section \<open>The parsers\<close>

datatype 'a parsed = Thrown | ParseError string | Parsed 'a

text \<open>\<open>std::stoi\<close> of a digit string.\<close>

definition stoi :: "string \<Rightarrow> int option" where
  "stoi d = (if digits_val d < 2 ^ 31 then Some (int (digits_val d)) else None)"

definition field_or :: "int \<Rightarrow> string option \<Rightarrow> int option" where
  "field_or fallback r = (case r of Some d \<Rightarrow> stoi d | None \<Rightarrow> Some fallback)"

record PtxasStats =
  registers :: int
  smem_bytes :: int
  spill_stores_bytes :: int
  spill_loads_bytes :: int
  stack_bytes :: int
  gmem_bytes :: int
  cmem_bytes :: int

definition ptxas_fields :: "string \<Rightarrow> string \<Rightarrow> PtxasStats option" where
  "ptxas_fields regs s =
     do { r \<leftarrow> stoi regs;
          sm \<leftarrow> field_or 0 (search_before '' bytes smem'' s);
          st \<leftarrow> field_or 0 (search_before '' bytes spill stores'' s);
          ld \<leftarrow> field_or 0 (search_before '' bytes spill loads'' s);
          sk \<leftarrow> field_or 0 (search_before '' bytes stack frame'' s);
          gm \<leftarrow> field_or 0 (search_before '' bytes gmem'' s);
          cm \<leftarrow> field_or 0 (search_before '' bytes cmem'' s);
          Some \<lparr>registers = r, smem_bytes = sm, spill_stores_bytes = st, spill_loads_bytes = ld, stack_bytes = sk,
                gmem_bytes = gm, cmem_bytes = cm\<rparr> }"

definition ParsePtxasLog :: "string \<Rightarrow> PtxasStats parsed" where
  "ParsePtxasLog s =
     (case search_before '' registers'' s of
        None \<Rightarrow> ParseError (''parse error: no '' @ [CHR 39] @ ''N registers'' @ [CHR 39] @ '' line found; input is not a ptxas -v log'')
      | Some regs \<Rightarrow> (case ptxas_fields regs s of Some stats \<Rightarrow> Parsed stats | None \<Rightarrow> Thrown))"

record AmdIsaStats =
  vgpr :: int
  sgpr :: int
  lds_bytes :: int
  scratch_bytes :: int
  scratch_store_count :: int
  scratch_load_count :: int

definition amd_fields :: "string \<Rightarrow> AmdIsaStats option" where
  "amd_fields s =
     do { v \<leftarrow> field_or 0 (search_after ''.amdhsa_next_free_vgpr'' s);
          g \<leftarrow> field_or 0 (search_after ''.amdhsa_next_free_sgpr'' s);
          l \<leftarrow> field_or 0 (search_after ''.amdhsa_group_segment_fixed_size'' s);
          p \<leftarrow> field_or 0 (search_after ''.amdhsa_private_segment_fixed_size'' s);
          Some \<lparr>vgpr = v, sgpr = g, lds_bytes = l, scratch_bytes = p,
                scratch_store_count = int (CountMatches ''scratch_store_'' s),
                scratch_load_count = int (CountMatches ''scratch_load_'' s)\<rparr> }"

definition ParseAmdIsa :: "string \<Rightarrow> AmdIsaStats parsed" where
  "ParseAmdIsa s =
     (if \<not> has_directive ''.amdhsa_kernel'' s
      then ParseError (''parse error: no '' @ [CHR 39] @ ''.amdhsa_kernel'' @ [CHR 39] @ '' directive found; ''
             @ ''input is not an AMDGPU assembly (.s) file'')
      else case amd_fields s of Some stats \<Rightarrow> Parsed stats | None \<Rightarrow> Thrown)"

definition HasSpills :: "AmdIsaStats \<Rightarrow> bool" where
  "HasSpills stats \<longleftrightarrow> scratch_store_count stats > 0 \<or> scratch_load_count stats > 0 \<or> scratch_bytes stats > 0"

section \<open>Lemmas\<close>

lemma search_before_sound:
  "search_before lit s = Some d \<Longrightarrow> d \<noteq> [] \<and> (\<forall>c \<in> set d. is_digit c) \<and> (\<exists>pre post. s = pre @ d @ lit @ post)"
proof (induction s)
  case (Cons c s)
  show ?case
  proof (cases "is_digit c \<and> starts_with lit (dropWhile is_digit (c # s))")
    case True
    then have "search_before lit (c # s) = Some (takeWhile is_digit (c # s))" by (simp only: search_before.simps simp_thms if_True)
    then have d: "d = takeWhile is_digit (c # s)" using Cons.prems by (simp only: option.inject)
    have "dropWhile is_digit (c # s) = lit @ drop (length lit) (dropWhile is_digit (c # s))"
      using True unfolding starts_with_def by (metis append_take_drop_id)
    then have "c # s = [] @ d @ lit @ drop (length lit) (dropWhile is_digit (c # s))"
      unfolding d by (metis append_Nil takeWhile_dropWhile_id)
    moreover have "d \<noteq> []" "\<forall>x \<in> set d. is_digit x" using True unfolding d by (auto dest: set_takeWhileD)
    ultimately show ?thesis by blast
  next
    case False
    then have "search_before lit s = Some d" using Cons.prems by (simp only: search_before.simps if_False)
    then show ?thesis using Cons.IH by (metis append_Cons)
  qed
qed simp

lemma search_before_complete:
  assumes "d \<noteq> []" "\<forall>c \<in> set d. is_digit c" "lit \<noteq> []" "\<not> is_digit (hd lit)"
  shows "search_before lit (pre @ d @ lit @ post) \<noteq> None"
proof (induction pre)
  case Nil
  obtain c ds where cd: "d = c # ds" using assms(1) by (cases d) auto
  have "dropWhile is_digit (d @ lit @ post) = lit @ post"
    using assms by (subst dropWhile_append2) (auto simp: dropWhile_eq_self_iff)
  then have "starts_with lit (dropWhile is_digit (d @ lit @ post))" by (simp add: starts_with_def)
  then show ?case using assms(2) by (simp add: cd)
qed auto

text \<open>Searching through printed text: a stretch without digits is passed over, and a printed number is
  taken or passed over as a whole.\<close>

lemma search_before_text: "list_all (\<lambda>c. \<not> is_digit c) w \<Longrightarrow> search_before lit (w @ s) = search_before lit s"
  by (induction w) simp_all

lemma search_before_digits:
  assumes "\<forall>c \<in> set d. is_digit c" "d \<noteq> []" "s = [] \<or> \<not> is_digit (hd s)"
  shows "search_before lit (d @ s) = (if starts_with lit s then Some d else search_before lit s)"
  using assms
proof (induction d)
  case (Cons c d)
  have drop: "dropWhile is_digit (c # d @ s) = s" "takeWhile is_digit (c # d @ s) = c # d"
  proof -
    have "dropWhile is_digit s = s" "takeWhile is_digit s = []" using Cons.prems(3) by (cases s; simp)+
    then show "dropWhile is_digit (c # d @ s) = s" "takeWhile is_digit (c # d @ s) = c # d"
      using Cons.prems(1) by (simp_all add: dropWhile_append2 takeWhile_append2)
  qed
  show ?case
  proof (cases "starts_with lit s")
    case True
    have "search_before lit ((c # d) @ s) = Some (c # d)"
      using Cons.prems(1) True by (simp only: append_Cons search_before.simps drop list.set_intros simp_thms if_True)
    with True show ?thesis by simp
  next
    case False
    then have "search_before lit ((c # d) @ s) = search_before lit (d @ s)"
      by (simp only: append_Cons search_before.simps drop simp_thms if_False)
    then show ?thesis using Cons False by (cases "d = []") auto
  qed
qed simp

lemma search_before_number:
  assumes "s = [] \<or> \<not> is_digit (hd s)"
  shows "search_before lit (nat_to_string n @ s) = (if starts_with lit s then Some (nat_to_string n) else search_before lit s)"
  by (rule search_before_digits) (use assms nat_to_string_digits in auto)

lemma search_before_step:
  "\<not> is_digit c \<Longrightarrow> search_before lit (c # s) = search_before lit s"
  "is_digit c \<Longrightarrow> s = [] \<or> \<not> is_digit (hd s) \<Longrightarrow>
    search_before lit (c # s) = (if starts_with lit s then Some [c] else search_before lit s)"
  using search_before_digits [of "[c]" s lit] by simp_all

lemma search_before_number_text:
  "\<not> is_digit c \<Longrightarrow> search_before lit (nat_to_string n @ (c # w) @ s) =
    (if starts_with lit ((c # w) @ s) then Some (nat_to_string n) else search_before lit ((c # w) @ s))"
  by (rule search_before_number) simp

lemma starts_with_simps: "starts_with [] s" "\<not> starts_with (c # l) []" "starts_with (c # l) (d # s) \<longleftrightarrow> c = d \<and> starts_with l s"
  by (auto simp: starts_with_def)

definition number :: "string \<Rightarrow> bool" where
  "number d \<longleftrightarrow> d \<noteq> [] \<and> (\<forall>c \<in> set d. is_digit c)"

definition small :: "int \<Rightarrow> bool" where
  "small n \<longleftrightarrow> 0 \<le> n \<and> n < 2 ^ 31"

lemma field_or_outcome:
  "case field_or 0 (search_before lit s) of
     Some n \<Rightarrow> small n
   | None \<Rightarrow> (\<exists>pre d post. s = pre @ d @ post \<and> number d \<and> 2 ^ 31 \<le> digits_val d)"
proof (cases "search_before lit s")
  case (Some d)
  from search_before_sound [OF Some] have n: "number d" "\<exists>pre post. s = pre @ d @ post" unfolding number_def by blast+
  show ?thesis
  proof (cases "digits_val d < 2 ^ 31")
    case True
    then show ?thesis using Some by (simp add: field_or_def stoi_def small_def)
  next
    case False
    then show ?thesis using Some n by (simp add: field_or_def stoi_def not_less) blast
  qed
qed (simp add: field_or_def small_def)

text \<open>Reading a \<open>ptxas -v\<close> log: the parse error is returned exactly when no number stands before
  \<open>registers\<close>; an exception is thrown only over a number that does not fit an \<open>int\<close>; and a result has a
  register count from such a place and every field in range, absent ones being zero.\<close>

theorem ParsePtxasLog_outcome:
  "case ParsePtxasLog s of
     ParseError m \<Rightarrow> \<not> (\<exists>pre d post. s = pre @ d @ '' registers'' @ post \<and> number d)
   | Thrown \<Rightarrow> (\<exists>pre d post. s = pre @ d @ post \<and> number d \<and> 2 ^ 31 \<le> digits_val d)
   | Parsed st \<Rightarrow> (\<exists>pre d post. s = pre @ d @ '' registers'' @ post \<and> number d \<and> registers st = int (digits_val d)) \<and>
       small (registers st) \<and> small (smem_bytes st) \<and> small (spill_stores_bytes st) \<and> small (spill_loads_bytes st) \<and>
       small (stack_bytes st) \<and> small (gmem_bytes st) \<and> small (cmem_bytes st)"
proof (cases "search_before '' registers'' s")
  case None
  have "\<not> (\<exists>pre d post. s = pre @ d @ '' registers'' @ post \<and> number d)"
  proof
    assume "\<exists>pre d post. s = pre @ d @ '' registers'' @ post \<and> number d"
    then obtain pre d post where "s = pre @ d @ '' registers'' @ post" "number d" by blast
    with search_before_complete [of d "'' registers''" pre post] None show False by (simp add: number_def is_digit_def)
  qed
  with None show ?thesis by (simp add: ParsePtxasLog_def)
next
  case (Some d)
  from search_before_sound [OF Some] obtain pre post where d: "s = pre @ d @ '' registers'' @ post" "number d" unfolding number_def by blast
  show ?thesis
  proof (cases "digits_val d < 2 ^ 31")
    case False
    then have "ParsePtxasLog s = Thrown" using Some by (simp add: ParsePtxasLog_def ptxas_fields_def stoi_def)
    moreover have "2 ^ 31 \<le> digits_val d" using False by (simp only: not_less)
    ultimately show ?thesis using d by (simp only: parsed.case) blast
  next
    case True
    note F = field_or_outcome [where s = s]
    show ?thesis
    proof (cases "ptxas_fields d s")
      case None
      then obtain lit where "field_or 0 (search_before lit s) = None" using True
        by (auto simp: ptxas_fields_def stoi_def split: bind_splits)
      with F [where lit = lit] have "\<exists>pre d post. s = pre @ d @ post \<and> number d \<and> 2 ^ 31 \<le> digits_val d" by (simp only: option.case)
      moreover have "ParsePtxasLog s = Thrown" using Some None by (simp add: ParsePtxasLog_def)
      ultimately show ?thesis by (simp only: parsed.case)
    next
      case (Some st)
      then have st: "registers st = int (digits_val d)" "small (registers st)" "small (smem_bytes st)" "small (spill_stores_bytes st)"
        "small (spill_loads_bytes st)" "small (stack_bytes st)" "small (gmem_bytes st)" "small (cmem_bytes st)"
        using True F [where lit = "'' bytes smem''"] F [where lit = "'' bytes spill stores''"] F [where lit = "'' bytes spill loads''"] F [where lit = "'' bytes stack frame''"]
          F [where lit = "'' bytes gmem''"] F [where lit = "'' bytes cmem''"]
        by (auto simp: ptxas_fields_def stoi_def small_def split: bind_splits)
      have "ParsePtxasLog s = Parsed st" using Some \<open>search_before _ s = _\<close> by (simp add: ParsePtxasLog_def)
      then show ?thesis using st d by (simp only: parsed.case) blast
    qed
  qed
qed

text \<open>C31. What \<open>ptxas\<close> prints is read back, in its older form, with the stack and spill line, and in the
  newer one with the barrier count.\<close>

theorem ParsePtxasLog_reads:
  assumes "r < 2 ^ 31" "sm < 2 ^ 31" "cm < 2 ^ 31" "sk < 2 ^ 31" "st < 2 ^ 31" "ld < 2 ^ 31"
  shows "ParsePtxasLog (''ptxas info    : Used '' @ nat_to_string r @ '' registers, '' @ nat_to_string sm @ '' bytes smem, ''
           @ nat_to_string cm @ '' bytes cmem['' @ nat_to_string bank @ '']'' @ [CHR 10]
           @ ''ptxas info    : Used '' @ nat_to_string sk @ '' bytes stack frame, ''
           @ nat_to_string st @ '' bytes spill stores, '' @ nat_to_string ld @ '' bytes spill loads'' @ [CHR 10]) =
         Parsed \<lparr>registers = int r, smem_bytes = int sm, spill_stores_bytes = int st, spill_loads_bytes = int ld,
           stack_bytes = int sk, gmem_bytes = 0, cmem_bytes = int cm\<rparr> \<and>
    ParsePtxasLog (''ptxas info    : Used '' @ nat_to_string r @ '' registers, used '' @ nat_to_string b @ '' barriers, ''
           @ nat_to_string sm @ '' bytes smem'' @ [CHR 10]) =
         Parsed \<lparr>registers = int r, smem_bytes = int sm, spill_stores_bytes = 0, spill_loads_bytes = 0, stack_bytes = 0,
           gmem_bytes = 0, cmem_bytes = 0\<rparr>"
    (is "ParsePtxasLog ?old = ?o \<and> ParsePtxasLog ?new = ?n")
proof -
  let ?plain = "list_all (\<lambda>c. \<not> is_digit c)"
  have p: "?plain ''ptxas info    : Used ''" "?plain '' registers, ''" "?plain '' bytes smem, ''" "?plain '' bytes cmem[''" "?plain '']''"
    "?plain [CHR 10]" "?plain '' bytes stack frame, ''" "?plain '' bytes spill stores, ''" "?plain '' bytes spill loads''"
    "?plain '' registers, used ''" "?plain '' barriers, ''" "?plain '' bytes smem''" "\<not> is_digit (CHR '' '')" "\<not> is_digit (CHR '']'')"
    by (simp_all add: is_digit_def)
  note T = search_before_text [OF p(1)] search_before_text [OF p(2)] search_before_text [OF p(3)] search_before_text [OF p(4)]
    search_before_text [OF p(5)] search_before_text [OF p(6)] search_before_text [OF p(7)] search_before_text [OF p(8)]
    search_before_text [OF p(9)] search_before_text [OF p(10)] search_before_text [OF p(11)] search_before_text [OF p(12)]
    search_before_number_text [OF p(13)] search_before_number_text [OF p(14)]
  have nl: "search_before lit [CHR 10] = None" for lit by (simp add: is_digit_def)
  have old: "search_before '' registers'' ?old = Some (nat_to_string r)" "search_before '' bytes smem'' ?old = Some (nat_to_string sm)"
    "search_before '' bytes spill stores'' ?old = Some (nat_to_string st)" "search_before '' bytes spill loads'' ?old = Some (nat_to_string ld)"
    "search_before '' bytes stack frame'' ?old = Some (nat_to_string sk)" "search_before '' bytes gmem'' ?old = None"
    "search_before '' bytes cmem'' ?old = Some (nat_to_string cm)"
    unfolding T nl by (simp_all add: starts_with_simps)
  have new: "search_before '' registers'' ?new = Some (nat_to_string r)" "search_before '' bytes smem'' ?new = Some (nat_to_string sm)"
    "search_before '' bytes spill stores'' ?new = None" "search_before '' bytes spill loads'' ?new = None"
    "search_before '' bytes stack frame'' ?new = None" "search_before '' bytes gmem'' ?new = None" "search_before '' bytes cmem'' ?new = None"
    unfolding T nl by (simp_all add: starts_with_simps)
  show ?thesis using assms unfolding ParsePtxasLog_def ptxas_fields_def old new by (simp add: field_or_def stoi_def)
qed

section \<open>AMD assembly\<close>

lemma starts_with_hd: "lit \<noteq> [] \<Longrightarrow> c \<noteq> hd lit \<Longrightarrow> \<not> starts_with lit (c # s)"
  by (cases lit) (auto simp: starts_with_def)

lemma search_after_step: "\<not> starts_with lit (c # s) \<Longrightarrow> search_after lit (c # s) = search_after lit s"
  by (simp add: value_after_def Let_def)

lemma search_after_skip: "lit \<noteq> [] \<Longrightarrow> hd lit \<notin> set w \<Longrightarrow> search_after lit (w @ s) = search_after lit s"
  by (induction w) (auto simp del: search_after.simps simp: search_after_step starts_with_hd)

lemma CountMatches_step: "\<not> starts_with lit (c # s) \<Longrightarrow> CountMatches lit (c # s) = CountMatches lit s"
  by (simp add: Let_def)

lemma CountMatches_skip: "lit \<noteq> [] \<Longrightarrow> hd lit \<notin> set w \<Longrightarrow> CountMatches lit (w @ s) = CountMatches lit s"
  by (induction w) (auto simp del: CountMatches.simps simp: CountMatches_step starts_with_hd)

lemma has_directive_skip: "lit \<noteq> [] \<Longrightarrow> hd lit \<notin> set w \<Longrightarrow> has_directive lit (w @ s) = has_directive lit s"
  by (induction w) (auto simp: starts_with_hd)

lemma digits_chars:
  assumes "\<not> is_digit c"
  shows "c \<notin> set (nat_to_string n)"
  using nat_to_string_digits [of c n] assms by blast

lemma search_after_hit:
  assumes "lit \<noteq> []" "is_space b" "s = [] \<or> \<not> is_digit (hd s)"
  shows "search_after lit (lit @ b # nat_to_string n @ s) = Some (nat_to_string n)"
proof -
  let ?rest = "b # nat_to_string n @ s"
  have sp: "\<not> is_space (hd (nat_to_string n))"
    using nat_to_string_digits [of "hd (nat_to_string n)" n] by (auto simp: is_space_def is_digit_def)
  have drop: "dropWhile is_space ?rest = nat_to_string n @ s" "takeWhile is_space ?rest \<noteq> []"
    using assms(2) sp by (cases "nat_to_string n"; simp)+
  have "takeWhile is_digit s = []" using assms(3) by (cases s) auto
  then have "takeWhile is_digit (nat_to_string n @ s) = nat_to_string n"
    using nat_to_string_digits by (subst takeWhile_append2) auto
  then have "value_after lit (lit @ ?rest) = Some (nat_to_string n)"
    using drop by (simp add: value_after_def starts_with_def Let_def del: dropWhile.simps takeWhile.simps)
  then show ?thesis using assms(1) by (cases lit) simp_all
qed

definition tab :: string where "tab = [CHR 9]"
definition nl :: string where "nl = [CHR 10]"

text \<open>The assembly of a kernel with \<open>n\<close> spill stores and \<open>m\<close> spill loads, and its metadata.\<close>

definition amd_assembly :: "nat \<Rightarrow> nat \<Rightarrow> nat \<Rightarrow> nat \<Rightarrow> nat \<Rightarrow> nat \<Rightarrow> string" where
  "amd_assembly n m lds p v g =
     concat (replicate n (tab @ ''scratch_store_b32 off, v0, s32'' @ nl)) @ concat (replicate m (tab @ ''scratch_load_b32 v0, off, s32'' @ nl))
     @ tab @ ''.amdhsa_kernel k'' @ nl @ tab
     @ ''.amdhsa_group_segment_fixed_size'' @ CHR '' '' # nat_to_string lds @ nl @ tab
     @ ''.amdhsa_private_segment_fixed_size'' @ CHR '' '' # nat_to_string p @ nl @ tab
     @ ''.amdhsa_next_free_vgpr'' @ CHR '' '' # nat_to_string v @ nl @ tab
     @ ''.amdhsa_next_free_sgpr'' @ CHR '' '' # nat_to_string g @ nl"

lemma no_dot_lines:
  "CHR ''.'' \<notin> set (concat (replicate n (tab @ ''scratch_store_b32 off, v0, s32'' @ nl)))"
  "CHR ''.'' \<notin> set (concat (replicate n (tab @ ''scratch_load_b32 v0, off, s32'' @ nl)))"
  by (auto simp: tab_def nl_def)

text \<open>The directives, each searched for the others.\<close>

definition directives :: "string list" where
  "directives = [''.amdhsa_group_segment_fixed_size'', ''.amdhsa_private_segment_fixed_size'', ''.amdhsa_next_free_vgpr'', ''.amdhsa_next_free_sgpr'']"

lemma search_after_other:
  assumes "lit \<in> set directives" "d \<in> insert ''.amdhsa_kernel k'' (set directives)" "d \<noteq> lit"
  shows "search_after lit (d @ s) = search_after lit s"
proof -
  have lit: "lit \<noteq> []" "hd lit = CHR ''.''" using assms(1) by (auto simp: directives_def)
  have "\<forall>d \<in> set (''.amdhsa_kernel k'' # directives). d \<noteq> [] \<and> hd d = CHR ''.'' \<and> CHR ''.'' \<notin> set (tl d)" by (simp add: directives_def)
  moreover have "d \<in> set (''.amdhsa_kernel k'' # directives)" using assms(2) by (simp only: list.set)
  ultimately have "d \<noteq> []" "hd d = CHR ''.''" "CHR ''.'' \<notin> set (tl d)" by blast+
  then obtain w where w: "d = CHR ''.'' # w" "CHR ''.'' \<notin> set w" by (metis list.collapse)
  have "\<forall>lit \<in> set directives. \<forall>d \<in> insert ''.amdhsa_kernel k'' (set directives). d \<noteq> lit \<longrightarrow> \<not> starts_with lit (d @ s)"
    by (simp add: directives_def starts_with_simps)
  then have "\<not> starts_with lit (d @ s)" using assms by (simp only: simp_thms)
  then have "search_after lit (d @ s) = search_after lit (w @ s)" unfolding w(1) append_Cons by (rule search_after_step)
  then show ?thesis using search_after_skip [OF lit(1), of w s] lit(2) w(2) by simp
qed

lemma search_after_plain:
  assumes "lit \<in> set directives"
  shows "search_after lit (nat_to_string n @ s) = search_after lit s" "search_after lit (tab @ s) = search_after lit s"
    "search_after lit (nl @ s) = search_after lit s" "search_after lit (CHR '' '' # s) = search_after lit s"
    "search_after lit (concat (replicate k (tab @ ''scratch_store_b32 off, v0, s32'' @ nl)) @ s) = search_after lit s"
    "search_after lit (concat (replicate k (tab @ ''scratch_load_b32 v0, off, s32'' @ nl)) @ s) = search_after lit s"
proof -
  have lit: "lit \<noteq> []" "hd lit = CHR ''.''" using assms by (auto simp: directives_def)
  note skip = search_after_skip [OF lit(1), unfolded lit(2)]
  show "search_after lit (nat_to_string n @ s) = search_after lit s" by (rule skip [OF digits_chars]) (simp add: is_digit_def)
  show "search_after lit (tab @ s) = search_after lit s" "search_after lit (nl @ s) = search_after lit s"
    by (rule skip; simp add: tab_def nl_def)+
  show "search_after lit (CHR '' '' # s) = search_after lit s" using skip [of "'' ''" s] by simp
  show "search_after lit (concat (replicate k (tab @ ''scratch_store_b32 off, v0, s32'' @ nl)) @ s) = search_after lit s"
    "search_after lit (concat (replicate k (tab @ ''scratch_load_b32 v0, off, s32'' @ nl)) @ s) = search_after lit s"
    by (rule skip [OF no_dot_lines(1)], rule skip [OF no_dot_lines(2)])
qed

lemma search_after_directive: "lit \<in> set directives \<Longrightarrow> search_after lit (lit @ CHR '' '' # nat_to_string n @ nl @ s) = Some (nat_to_string n)"
  by (rule search_after_hit) (auto simp: directives_def is_space_def nl_def is_digit_def)

lemma amd_directives:
  "search_after ''.amdhsa_group_segment_fixed_size'' (amd_assembly n m lds p v g) = Some (nat_to_string lds)"
  "search_after ''.amdhsa_private_segment_fixed_size'' (amd_assembly n m lds p v g) = Some (nat_to_string p)"
  "search_after ''.amdhsa_next_free_vgpr'' (amd_assembly n m lds p v g) = Some (nat_to_string v)"
  "search_after ''.amdhsa_next_free_sgpr'' (amd_assembly n m lds p v g) = Some (nat_to_string g)"
proof -
  have d: "''.amdhsa_group_segment_fixed_size'' \<in> set directives" "''.amdhsa_private_segment_fixed_size'' \<in> set directives"
    "''.amdhsa_next_free_vgpr'' \<in> set directives" "''.amdhsa_next_free_sgpr'' \<in> set directives"
    "''.amdhsa_kernel k'' \<in> insert ''.amdhsa_kernel k'' (set directives)" by (simp_all add: directives_def)
  note D = d(1-4) insertI2 [OF d(1)] insertI2 [OF d(2)] insertI2 [OF d(3)] insertI2 [OF d(4)] d(5)
  have ne: "''.amdhsa_kernel k'' \<noteq> ''.amdhsa_group_segment_fixed_size''" "''.amdhsa_kernel k'' \<noteq> ''.amdhsa_private_segment_fixed_size''"
    "''.amdhsa_kernel k'' \<noteq> ''.amdhsa_next_free_vgpr''" "''.amdhsa_kernel k'' \<noteq> ''.amdhsa_next_free_sgpr''"
    "''.amdhsa_group_segment_fixed_size'' \<noteq> ''.amdhsa_private_segment_fixed_size''" "''.amdhsa_group_segment_fixed_size'' \<noteq> ''.amdhsa_next_free_vgpr''"
    "''.amdhsa_group_segment_fixed_size'' \<noteq> ''.amdhsa_next_free_sgpr''" "''.amdhsa_private_segment_fixed_size'' \<noteq> ''.amdhsa_next_free_vgpr''"
    "''.amdhsa_private_segment_fixed_size'' \<noteq> ''.amdhsa_next_free_sgpr''" "''.amdhsa_next_free_vgpr'' \<noteq> ''.amdhsa_next_free_sgpr''"
    by simp_all
  have last: "search_after ''.amdhsa_next_free_sgpr'' (''.amdhsa_next_free_sgpr'' @ CHR '' '' # nat_to_string g @ nl) = Some (nat_to_string g)"
    using search_after_directive [OF d(4), of g "[]"] by simp
  show "search_after ''.amdhsa_group_segment_fixed_size'' (amd_assembly n m lds p v g) = Some (nat_to_string lds)"
    unfolding amd_assembly_def search_after_plain [OF d(1)] search_after_other [OF d(1) d(5) ne(1)] search_after_directive [OF d(1)] by (rule refl)
  show "search_after ''.amdhsa_private_segment_fixed_size'' (amd_assembly n m lds p v g) = Some (nat_to_string p)"
    unfolding amd_assembly_def search_after_plain [OF d(2)] search_after_other [OF d(2) d(5) ne(2)]
      search_after_other [OF d(2) D(5) ne(5)] search_after_directive [OF d(2)] by (rule refl)
  show "search_after ''.amdhsa_next_free_vgpr'' (amd_assembly n m lds p v g) = Some (nat_to_string v)"
    unfolding amd_assembly_def search_after_plain [OF d(3)] search_after_other [OF d(3) d(5) ne(3)]
      search_after_other [OF d(3) D(5) ne(6)] search_after_other [OF d(3) D(6) ne(8)] search_after_directive [OF d(3)] by (rule refl)
  show "search_after ''.amdhsa_next_free_sgpr'' (amd_assembly n m lds p v g) = Some (nat_to_string g)"
    unfolding amd_assembly_def search_after_plain [OF d(4)] search_after_other [OF d(4) d(5) ne(4)]
      search_after_other [OF d(4) D(5) ne(7)] search_after_other [OF d(4) D(6) ne(9)]
      search_after_other [OF d(4) D(7) ne(10)] last by (rule refl)
qed

lemmas count_steps = CountMatches_step starts_with_simps

lemma count_store_line:
  "CountMatches ''scratch_store_'' ((tab @ ''scratch_store_b32 off, v0, s32'' @ nl) @ s) = Suc (CountMatches ''scratch_store_'' s)"
  "CountMatches ''scratch_load_'' ((tab @ ''scratch_store_b32 off, v0, s32'' @ nl) @ s) = CountMatches ''scratch_load_'' s"
  by (simp add: tab_def nl_def starts_with_simps is_word_def is_digit_def)
    (simp del: CountMatches.simps add: tab_def nl_def count_steps)

lemma count_load_line:
  "CountMatches ''scratch_store_'' ((tab @ ''scratch_load_b32 v0, off, s32'' @ nl) @ s) = CountMatches ''scratch_store_'' s"
  "CountMatches ''scratch_load_'' ((tab @ ''scratch_load_b32 v0, off, s32'' @ nl) @ s) = Suc (CountMatches ''scratch_load_'' s)"
   apply (simp del: CountMatches.simps add: tab_def nl_def count_steps)
  by (simp add: tab_def nl_def starts_with_simps is_word_def is_digit_def)

lemma count_lines:
  "CountMatches ''scratch_store_'' (concat (replicate n (tab @ ''scratch_store_b32 off, v0, s32'' @ nl)) @ s) = n + CountMatches ''scratch_store_'' s"
  "CountMatches ''scratch_load_'' (concat (replicate n (tab @ ''scratch_store_b32 off, v0, s32'' @ nl)) @ s) = CountMatches ''scratch_load_'' s"
  "CountMatches ''scratch_store_'' (concat (replicate n (tab @ ''scratch_load_b32 v0, off, s32'' @ nl)) @ s) = CountMatches ''scratch_store_'' s"
  "CountMatches ''scratch_load_'' (concat (replicate n (tab @ ''scratch_load_b32 v0, off, s32'' @ nl)) @ s) = n + CountMatches ''scratch_load_'' s"
proof -
  have two: "concat (replicate (Suc k) w) @ s = w @ concat (replicate k w) @ s" for k and w :: string by simp
  show "CountMatches ''scratch_store_'' (concat (replicate n (tab @ ''scratch_store_b32 off, v0, s32'' @ nl)) @ s) = n + CountMatches ''scratch_store_'' s"
    by (induction n) (simp, simp only: two count_store_line add_Suc)
  show "CountMatches ''scratch_load_'' (concat (replicate n (tab @ ''scratch_store_b32 off, v0, s32'' @ nl)) @ s) = CountMatches ''scratch_load_'' s"
    by (induction n) (simp, simp only: two count_store_line)
  show "CountMatches ''scratch_store_'' (concat (replicate n (tab @ ''scratch_load_b32 v0, off, s32'' @ nl)) @ s) = CountMatches ''scratch_store_'' s"
    by (induction n) (simp, simp only: two count_load_line)
  show "CountMatches ''scratch_load_'' (concat (replicate n (tab @ ''scratch_load_b32 v0, off, s32'' @ nl)) @ s) = n + CountMatches ''scratch_load_'' s"
    by (induction n) (simp, simp only: two count_load_line add_Suc)
qed

lemma count_metadata:
  assumes "lit \<in> {''scratch_store_'', ''scratch_load_''}"
  shows "CountMatches lit (nat_to_string n @ s) = CountMatches lit s"
    "d \<in> set [''.amdhsa_kernel k'', ''.amdhsa_group_segment_fixed_size'', ''.amdhsa_private_segment_fixed_size'', ''.amdhsa_next_free_vgpr'',
       ''.amdhsa_next_free_sgpr''] \<Longrightarrow> CountMatches lit (d @ s) = CountMatches lit s"
    "CountMatches lit (tab @ s) = CountMatches lit s" "CountMatches lit (nl @ s) = CountMatches lit s"
    "CountMatches lit (CHR '' '' # s) = CountMatches lit s" "CountMatches lit nl = 0"
proof -
  have lit: "lit \<noteq> []" "hd lit = CHR ''s''" using assms by auto
  show "CountMatches lit (nat_to_string n @ s) = CountMatches lit s"
    by (rule CountMatches_skip [OF lit(1)]) (simp add: lit(2) digits_chars is_digit_def)
  have "\<forall>lit \<in> {''scratch_store_'', ''scratch_load_''}. \<forall>d \<in> set [''.amdhsa_kernel k'', ''.amdhsa_group_segment_fixed_size'', ''.amdhsa_private_segment_fixed_size'',
      ''.amdhsa_next_free_vgpr'', ''.amdhsa_next_free_sgpr'']. CountMatches lit (d @ s) = CountMatches lit s"
    by (simp del: CountMatches.simps add: count_steps)
  then show "d \<in> set [''.amdhsa_kernel k'', ''.amdhsa_group_segment_fixed_size'', ''.amdhsa_private_segment_fixed_size'', ''.amdhsa_next_free_vgpr'',
       ''.amdhsa_next_free_sgpr''] \<Longrightarrow> CountMatches lit (d @ s) = CountMatches lit s" using assms by (simp only:)
  show "CountMatches lit (tab @ s) = CountMatches lit s" "CountMatches lit (nl @ s) = CountMatches lit s"
    by (rule CountMatches_skip [OF lit(1)]; simp add: lit(2) tab_def nl_def)+
  show "CountMatches lit (CHR '' '' # s) = CountMatches lit s" using CountMatches_skip [OF lit(1), of "'' ''" s] lit(2) by simp
  show "CountMatches lit nl = 0" using CountMatches_skip [OF lit(1), of nl "[]"] lit(2) by (simp add: nl_def)
qed

lemma amd_counts:
  "CountMatches ''scratch_store_'' (amd_assembly n m lds p v g) = n" "CountMatches ''scratch_load_'' (amd_assembly n m lds p v g) = m"
proof -
  have c: "CountMatches lit (''.amdhsa_kernel k'' @ s) = CountMatches lit s"
    "CountMatches lit (''.amdhsa_group_segment_fixed_size'' @ s) = CountMatches lit s"
    "CountMatches lit (''.amdhsa_private_segment_fixed_size'' @ s) = CountMatches lit s"
    "CountMatches lit (''.amdhsa_next_free_vgpr'' @ s) = CountMatches lit s" "CountMatches lit (''.amdhsa_next_free_sgpr'' @ s) = CountMatches lit s"
    if "lit \<in> {''scratch_store_'', ''scratch_load_''}" for lit s
    by (rule count_metadata(2) [OF that], simp)+
  have i: "''scratch_store_'' \<in> {''scratch_store_'', ''scratch_load_''}" "''scratch_load_'' \<in> {''scratch_store_'', ''scratch_load_''}" by simp_all
  show "CountMatches ''scratch_store_'' (amd_assembly n m lds p v g) = n"
    unfolding amd_assembly_def count_lines c [OF i(1)] count_metadata(1,3,4,5,6) [OF i(1)] by simp
  show "CountMatches ''scratch_load_'' (amd_assembly n m lds p v g) = m"
    unfolding amd_assembly_def count_lines c [OF i(2)] count_metadata(1,3,4,5,6) [OF i(2)] by simp
qed

lemma amd_anchor: "has_directive ''.amdhsa_kernel'' (amd_assembly n m lds p v g)"
proof -
  have "has_directive ''.amdhsa_kernel'' (tab @ ''.amdhsa_kernel k'' @ s)" for s
    by (simp add: tab_def starts_with_simps is_space_def)
  moreover have "has_directive ''.amdhsa_kernel'' (w @ s) = has_directive ''.amdhsa_kernel'' s" if "CHR ''.'' \<notin> set w" for w s
    by (rule has_directive_skip) (use that in simp_all)
  ultimately show ?thesis unfolding amd_assembly_def using no_dot_lines by simp
qed

text \<open>Reading AMD assembly: the register, LDS and scratch sizes of the metadata and the numbers of scratch
  instructions of the text are read back, and the kernel is reported as spilling exactly when it
  has one of either.\<close>

theorem ParseAmdIsa_reads:
  assumes "lds < 2 ^ 31" "p < 2 ^ 31" "v < 2 ^ 31" "g < 2 ^ 31"
  shows "\<exists>st. ParseAmdIsa (amd_assembly n m lds p v g) = Parsed st \<and>
    st = \<lparr>vgpr = int v, sgpr = int g, lds_bytes = int lds, scratch_bytes = int p, scratch_store_count = int n, scratch_load_count = int m\<rparr> \<and>
    (HasSpills st \<longleftrightarrow> 0 < n \<or> 0 < m \<or> 0 < p)"
  using assms by (simp add: ParseAmdIsa_def amd_anchor amd_fields_def amd_directives amd_counts field_or_def stoi_def HasSpills_def)

lemma ParseAmdIsa_reads_witness:
  "\<exists>st. ParseAmdIsa (amd_assembly 4 2 2048 16 20 16) = Parsed st \<and> vgpr st = 20 \<and> scratch_store_count st = 4 \<and> HasSpills st"
  using ParseAmdIsa_reads [of 2048 16 20 16 4 2] by auto

lemma ParsePtxasLog_reads_witness:
  "ParsePtxasLog (''ptxas info    : Used '' @ nat_to_string 28 @ '' registers, used '' @ nat_to_string 1 @ '' barriers, ''
           @ nat_to_string 40 @ '' bytes smem'' @ [CHR 10]) =
         Parsed \<lparr>registers = 28, smem_bytes = 40, spill_stores_bytes = 0, spill_loads_bytes = 0, stack_bytes = 0, gmem_bytes = 0, cmem_bytes = 0\<rparr>"
  using ParsePtxasLog_reads [of 28 40 0 0 0 0 0 1] by simp

text \<open>A log of two kernels: the second kernel's shared memory is reported with the first one's registers.\<close>

lemma two_kernels_mixed:
  "\<exists>st. ParsePtxasLog (''Used 32 registers'' @ [CHR 10] @ ''Used 64 registers, 4096 bytes smem'' @ [CHR 10]) = Parsed st \<and>
     registers st = 32 \<and> smem_bytes st = 4096"
  by (simp add: ParsePtxasLog_def ptxas_fields_def starts_with_simps is_digit_def field_or_def stoi_def digits_val_def digit_val_def)

text \<open>A number that does not fit \<open>int\<close> ends the program with an exception.\<close>

lemma huge_number_throws:
  "ParsePtxasLog ''Used 99999999999 registers'' = Thrown"
  by (simp add: ParsePtxasLog_def ptxas_fields_def starts_with_simps is_digit_def stoi_def digits_val_def digit_val_def)

end
