(* ===== verification/KernelReport.thy ===== *)
theory KernelReport
  imports Occupancy ResourceLogs
begin

text \<open>
  The roofline model (\<open>Roofline.cpp\<close>) and the per-kernel report (\<open>KernelReport.cpp\<close>) that joins it with
  the occupancy model and the parsed \<open>ptxas\<close> statistics. An \<open>int64_t\<close> overflow is \<open>None\<close>; the C
  library's \<open>%.6g\<close> is written out.
\<close>

section \<open>Roofline\<close>

datatype roofline_bound = compute_bound | memory_bound

primrec RooflineName :: "roofline_bound \<Rightarrow> string" where
  "RooflineName compute_bound = ''compute-bound''"
| "RooflineName memory_bound = ''memory-bound''"

record ArchPerf =
  peak_tflops :: double
  peak_bw_gbps :: double

primrec PerfFor :: "arch \<Rightarrow> ArchPerf" where
  "PerfFor sm_80 = \<lparr>peak_tflops = d_lit 312 1, peak_bw_gbps = d_lit 1555 1\<rparr>"
| "PerfFor sm_89 = \<lparr>peak_tflops = d_lit 911 10, peak_bw_gbps = d_lit 960 1\<rparr>"
| "PerfFor sm_90 = \<lparr>peak_tflops = d_lit 989 1, peak_bw_gbps = d_lit 3350 1\<rparr>"

record GemmShape =
  g_m :: int
  g_n :: int
  g_k :: int
  dtype_bytes :: int

record Roofline =
  rf_bytes :: int
  rf_flops :: int
  intensity :: double
  bound :: roofline_bound

text \<open>An \<open>int64_t\<close> operation whose result does not fit is undefined.\<close>

definition i64 :: "int \<Rightarrow> int option" where
  "i64 x = (if in_i64 x then Some x else None)"

definition ridge :: "arch \<Rightarrow> double" where
  "ridge a = d_div (d_mul (peak_tflops (PerfFor a)) (d_of_int (10 ^ 12))) (d_mul (peak_bw_gbps (PerfFor a)) (d_of_int (10 ^ 9)))"

definition ComputeRoofline :: "GemmShape \<Rightarrow> arch \<Rightarrow> Roofline option" where
  "ComputeRoofline shape a =
     do { mk \<leftarrow> i64 (g_m shape * g_k shape);
          kn \<leftarrow> i64 (g_k shape * g_n shape);
          reads \<leftarrow> i64 (mk + kn);
          mn \<leftarrow> i64 (g_m shape * g_n shape);
          elements \<leftarrow> i64 (reads + mn);
          b \<leftarrow> i64 (elements * dtype_bytes shape);
          m2 \<leftarrow> i64 (2 * g_m shape);
          mn2 \<leftarrow> i64 (m2 * g_n shape);
          fl \<leftarrow> i64 (mn2 * g_k shape);
          let ai = (if b > 0 then d_div (d_of_int fl) (d_of_int b) else d_of_int 0);
          Some \<lparr>rf_bytes = b, rf_flops = fl, intensity = ai, bound = (if d_ge ai (ridge a) then compute_bound else memory_bound)\<rparr> }"

section \<open>The report\<close>

datatype backend = Cuda | Hip

primrec BackendName :: "backend \<Rightarrow> string" where
  "BackendName Cuda = ''cuda''"
| "BackendName Hip = ''hip''"

datatype bottleneck = Compute | Memory | Latency

primrec BottleneckName :: "bottleneck \<Rightarrow> string" where
  "BottleneckName Compute = ''compute''"
| "BottleneckName Memory = ''memory''"
| "BottleneckName Latency = ''latency''"

datatype path = Scalar | Wmma | Mma

primrec PathName :: "path \<Rightarrow> string" where
  "PathName Scalar = ''scalar''"
| "PathName Wmma = ''wmma''"
| "PathName Mma = ''mma''"

record KernelReport =
  r_kernel :: string
  r_backend :: backend
  r_arch :: arch
  r_registers_per_thread :: int
  r_smem_per_block_bytes :: int
  r_spill_stores_bytes :: int
  r_spill_loads_bytes :: int
  r_occupancy :: "limiter occupancy"
  r_global_read_bytes :: int
  r_global_write_bytes :: int
  r_intensity :: double
  r_roofline :: roofline_bound
  r_bottleneck :: bottleneck
  r_suggested_fixes :: "string list"
  r_path :: path

record ReportInputs =
  in_kernel :: string
  in_backend :: backend
  in_arch :: arch
  in_ptxas :: PtxasStats
  in_threads_per_block :: int
  in_shape :: GemmShape
  in_path :: path

definition DeriveBottleneck :: "KernelReport \<Rightarrow> bottleneck" where
  "DeriveBottleneck r =
     (if r_spill_stores_bytes r > 0 \<or> r_spill_loads_bytes r > 0 then Latency
      else if r_roofline r = memory_bound then Memory
      else if d_lt (occupancy_pct (r_occupancy r)) (d_of_int 50) then Latency
      else Compute)"

definition DeriveFixes :: "KernelReport \<Rightarrow> string list" where
  "DeriveFixes r =
     (if r_spill_stores_bytes r > 0 \<or> r_spill_loads_bytes r > 0
      then [''reduce register pressure (smaller tile/fewer live values)''] else [])
     @ (if occ_limiter (r_occupancy r) = LimRegisters \<and> d_lt (occupancy_pct (r_occupancy r)) (d_of_int 100)
        then [''reduce unroll/block size to lower register pressure''] else [])
     @ (if d_lt (occupancy_pct (r_occupancy r)) (d_of_int 50)
        then [''increase occupancy (smaller tile / fewer registers / less smem)''] else [])
     @ (if r_roofline r = memory_bound then [''wider vectorized loads / fuse to reduce traffic''] else [])"

definition BuildReport :: "ReportInputs \<Rightarrow> KernelReport option" where
  "BuildReport inp =
     do { let p = in_ptxas inp;
          let shape = in_shape inp;
          occ \<leftarrow> ComputeOccupancy (registers p) (smem_bytes p) (in_threads_per_block inp) (in_arch inp);
          mk \<leftarrow> i64 (g_m shape * g_k shape);
          kn \<leftarrow> i64 (g_k shape * g_n shape);
          reads \<leftarrow> i64 (mk + kn);
          rd \<leftarrow> i64 (reads * dtype_bytes shape);
          mn \<leftarrow> i64 (g_m shape * g_n shape);
          wr \<leftarrow> i64 (mn * dtype_bytes shape);
          roof \<leftarrow> ComputeRoofline shape (in_arch inp);
          let r = \<lparr>r_kernel = in_kernel inp, r_backend = in_backend inp, r_arch = in_arch inp,
             r_registers_per_thread = registers p, r_smem_per_block_bytes = smem_bytes p,
             r_spill_stores_bytes = spill_stores_bytes p, r_spill_loads_bytes = spill_loads_bytes p,
             r_occupancy = occ, r_global_read_bytes = rd, r_global_write_bytes = wr,
             r_intensity = intensity roof, r_roofline = bound roof,
             r_bottleneck = Latency, r_suggested_fixes = [], r_path = in_path inp\<rparr>;
          let r = r\<lparr>r_bottleneck := DeriveBottleneck r\<rparr>;
          Some (r\<lparr>r_suggested_fixes := DeriveFixes r\<rparr>) }"

section \<open>Printing\<close>

text \<open>\<open>snprintf ("%.6g")\<close>: six significant digits, rounded to nearest even, without trailing zeros, in
  decimal notation for exponents from -4 to 5 and in scientific notation otherwise.\<close>

function exp10_up :: "nat \<Rightarrow> nat \<Rightarrow> nat" where
  "exp10_up a b = (if 0 < b \<and> 10 * b \<le> a then Suc (exp10_up a (10 * b)) else 0)"
  by auto
termination by (relation "measure (\<lambda>(a, b). a - b)") auto

function exp10_down :: "nat \<Rightarrow> nat \<Rightarrow> nat" where
  "exp10_down a b = (if 0 < a \<and> a < b then Suc (exp10_down (10 * a) b) else 0)"
  by auto
termination by (relation "measure (\<lambda>(a, b). b - a)") auto

declare exp10_up.simps [simp del] exp10_down.simps [simp del]

definition exp10 :: "nat \<Rightarrow> nat \<Rightarrow> int" where
  "exp10 a b = (if b \<le> a then int (exp10_up a b) else - int (exp10_down a b))"

text \<open>The six digits of \<open>a / b\<close> and the exponent of the first.\<close>

definition digits6 :: "nat \<Rightarrow> nat \<Rightarrow> nat \<times> int" where
  "digits6 a b =
     (let x = exp10 a b;
          d = (if x \<le> 5 then div_rne (a * 10 ^ nat (5 - x)) b else div_rne a (b * 10 ^ nat (x - 5)))
      in if d = 10 ^ 6 then (10 ^ 5, x + 1) else (d, x))"

definition pad :: "nat \<Rightarrow> string \<Rightarrow> string" where
  "pad n s = replicate (n - length s) (CHR ''0'') @ s"

definition strip_zeros :: "string \<Rightarrow> string" where
  "strip_zeros s = rev (dropWhile (\<lambda>c. c = CHR ''0'') (rev s))"

definition fraction :: "string \<Rightarrow> string" where
  "fraction s = (let f = strip_zeros s in if f = [] then [] else CHR ''.'' # f)"

definition format_g6 :: "nat \<Rightarrow> nat \<Rightarrow> string" where
  "format_g6 a b =
     (if a = 0 then ''0''
      else let (d, x) = digits6 a b
           in if -4 \<le> x \<and> x < 6
              then nat_to_string (d div 10 ^ nat (5 - x)) @ fraction (pad (nat (5 - x)) (nat_to_string (d mod 10 ^ nat (5 - x))))
              else nat_to_string (d div 10 ^ 5) @ fraction (pad 5 (nat_to_string (d mod 10 ^ 5))) @
                (if x < 0 then ''e-'' else ''e+'') @ pad 2 (nat_to_string (nat \<bar>x\<bar>)))"

definition FmtDouble :: "double \<Rightarrow> string" where
  "FmtDouble v =
     (case fp_decode binary64 v of
        FNan \<Rightarrow> ''nan''
      | FInf s \<Rightarrow> (if s then ''-'' else '''') @ ''inf''
      | FFin s m e \<Rightarrow> (case dyadic m e of (a, b) \<Rightarrow> (if s then ''-'' else '''') @ format_g6 a b))"

fun join_fixes :: "bool \<Rightarrow> string list \<Rightarrow> string" where
  "join_fixes is_first [] = []"
| "join_fixes is_first (f # fs) = (if is_first then [] else '', '') @ json_string f @ join_fixes False fs"

definition ToJson :: "KernelReport \<Rightarrow> string" where
  "ToJson r =
     json_line 0 ''{''
     @ json_line 2 (json_key ''kernel'' @ json_string (r_kernel r) @ '','')
     @ json_line 2 (json_key ''backend'' @ json_string (BackendName (r_backend r)) @ '','')
     @ json_line 2 (json_key ''arch'' @ json_string (ArchName (r_arch r)) @ '','')
     @ json_line 2 (json_key ''registers_per_thread'' @ int_to_string (r_registers_per_thread r) @ '','')
     @ json_line 2 (json_key ''smem_per_block_bytes'' @ int_to_string (r_smem_per_block_bytes r) @ '','')
     @ json_line 2 (json_key ''spill_stores_bytes'' @ int_to_string (r_spill_stores_bytes r) @ '','')
     @ json_line 2 (json_key ''spill_loads_bytes'' @ int_to_string (r_spill_loads_bytes r) @ '','')
     @ json_line 2 (json_key ''occupancy'' @ ''{'')
     @ json_line 4 (json_key ''active_warps_per_sm'' @ int_to_string (active_warps (r_occupancy r)) @ '','')
     @ json_line 4 (json_key ''max_warps_per_sm'' @ int_to_string (max_warps (r_occupancy r)) @ '','')
     @ json_line 4 (json_key ''occupancy_pct'' @ FmtDouble (occupancy_pct (r_occupancy r)) @ '','')
     @ json_line 4 (json_key ''limiter'' @ json_string (LimiterName (occ_limiter (r_occupancy r))))
     @ json_line 2 ''},''
     @ json_line 2 (json_key ''traffic'' @ ''{'')
     @ json_line 4 (json_key ''global_read_bytes'' @ int_to_string (r_global_read_bytes r) @ '','')
     @ json_line 4 (json_key ''global_write_bytes'' @ int_to_string (r_global_write_bytes r) @ '','')
     @ json_line 4 (json_key ''arithmetic_intensity_flop_per_byte'' @ FmtDouble (r_intensity r) @ '','')
     @ json_line 4 (json_key ''roofline'' @ json_string (RooflineName (r_roofline r)))
     @ json_line 2 ''},''
     @ json_line 2 (json_key ''bottleneck'' @ json_string (BottleneckName (r_bottleneck r)) @ '','')
     @ ''  '' @ json_key ''suggested_fixes'' @ ''['' @ join_fixes True (r_suggested_fixes r) @ ''],'' @ [CHR 10]
     @ json_line 2 (json_key ''path'' @ json_string (PathName (r_path r)))
     @ json_line 0 ''}''"

definition ToText :: "KernelReport \<Rightarrow> string" where
  "ToText r =
     json_line 0 (''kernel:                 '' @ r_kernel r)
     @ json_line 0 (''backend:                '' @ BackendName (r_backend r))
     @ json_line 0 (''arch:                   '' @ ArchName (r_arch r))
     @ json_line 0 (''registers_per_thread:   '' @ int_to_string (r_registers_per_thread r))
     @ json_line 0 (''smem_per_block_bytes:   '' @ int_to_string (r_smem_per_block_bytes r))
     @ json_line 0 (''spill_stores_bytes:     '' @ int_to_string (r_spill_stores_bytes r))
     @ json_line 0 (''spill_loads_bytes:      '' @ int_to_string (r_spill_loads_bytes r))
     @ json_line 0 ''occupancy:''
     @ json_line 0 (''  active_warps_per_sm:  '' @ int_to_string (active_warps (r_occupancy r)))
     @ json_line 0 (''  max_warps_per_sm:     '' @ int_to_string (max_warps (r_occupancy r)))
     @ json_line 0 (''  occupancy_pct:        '' @ FmtDouble (occupancy_pct (r_occupancy r)))
     @ json_line 0 (''  limiter:              '' @ LimiterName (occ_limiter (r_occupancy r)))
     @ json_line 0 ''traffic:''
     @ json_line 0 (''  global_read_bytes:    '' @ int_to_string (r_global_read_bytes r))
     @ json_line 0 (''  global_write_bytes:   '' @ int_to_string (r_global_write_bytes r))
     @ json_line 0 (''  arithmetic_intensity: '' @ FmtDouble (r_intensity r) @ '' flop/byte'')
     @ json_line 0 (''  roofline:             '' @ RooflineName (r_roofline r))
     @ json_line 0 (''bottleneck:             '' @ BottleneckName (r_bottleneck r))
     @ json_line 0 (''path:                   '' @ PathName (r_path r))
     @ json_line 0 ''suggested_fixes:''
     @ (if r_suggested_fixes r = [] then json_line 0 ''  (none)'' else [])
     @ concat (map (\<lambda>f. json_line 0 (''  - '' @ f)) (r_suggested_fixes r))"

section \<open>The ridge points\<close>

lemma double_defs:
  "f_exp binary64 = 11" "f_man binary64 = 52" "f_emin binary64 = -1074" "fp_inf_mag binary64 = 2047 * 2 ^ 52"
  by (simp_all add: binary64_def f_emin_def f_bias_def fp_inf_mag_def)

text \<open>A double with the value of a ratio, divided by another.\<close>

lemma quotient_round:
  assumes "fp_decode binary64 x = FFin False m u" "real m * 2 powi u = real R" "R < 2 ^ 53"
    and "fp_decode binary64 y = FFin False m' u'" "real m' * 2 powi u' = real T" "0 < T"
    and "0 < d" "c * T = R * d"
  shows "d_div x y = fp_round binary64 False c d"
proof -
  from d_div_round_of [OF assms(1-6)] obtain a b where ab: "0 < b" "d_div x y = fp_round binary64 False a b" "a * T = R * b" by blast
  have "(a * T) * d = (c * T) * b" unfolding ab(3) assms(8) by simp
  then have "a * d * T = c * b * T" by (simp only: ac_simps)
  then have "a * d = c * b" using assms(6) by (simp only: mult_cancel2) simp
  then have "fp_round_mag binary64 a b = fp_round_mag binary64 c d"
    using fp_round_mag_mono [OF ab(1) assms(7), of a c binary64] fp_round_mag_mono [OF assms(7) ab(1), of c a binary64] by simp
  then show ?thesis by (simp add: ab(2) fp_round_def)
qed

lemma lit_int: "d_lit n 1 = d_of_int (int n)"
  by (simp add: d_lit_def d_of_int_def fp_of_int_def)

lemma int_ratio:
  assumes "n * 10 ^ 12 < 2 ^ 53" "k * 10 ^ 9 < 2 ^ 53" "0 < k" "0 < d" "c * k = n * 1000 * d"
  shows "d_div (d_mul (d_lit n 1) (d_of_int (10 ^ 12))) (d_mul (d_lit k 1) (d_of_int (10 ^ 9))) = fp_round binary64 False c d"
proof -
  have "int (n * 10 ^ 12) < int (2 ^ 53)" "int (k * 10 ^ 9) < int (2 ^ 53)" using assms(1,2) by (simp_all only: of_nat_less_iff)
  then have n: "int n * 10 ^ 12 < 2 ^ 53" "int k * 10 ^ 9 < 2 ^ 53" by simp_all
  obtain m u where x: "fp_decode binary64 (d_mul (d_lit n 1) (d_of_int (10 ^ 12))) = FFin False m u"
    "real m * 2 powi u = real (nat (int n * 10 ^ 12))"
    using d_mul_decode [of "int n" "10 ^ 12"] n(1) unfolding lit_int by auto
  obtain m' u' where y: "fp_decode binary64 (d_mul (d_lit k 1) (d_of_int (10 ^ 9))) = FFin False m' u'"
    "real m' * 2 powi u' = real (nat (int k * 10 ^ 9))"
    using d_mul_decode [of "int k" "10 ^ 9"] n(2) unfolding lit_int by auto
  have nats: "nat (int n * 10 ^ 12) = n * 10 ^ 12" "nat (int k * 10 ^ 9) = k * 10 ^ 9" by (simp_all add: nat_mult_distrib)
  have "c * (k * 10 ^ 9) = n * 10 ^ 12 * d" using assms(5) by simp
  then show ?thesis
    by (intro quotient_round [OF x [unfolded nats] assms(1) y [unfolded nats]]) (use assms(3,4) in simp_all)
qed

lemma ridge_sm_89_peak: "\<exists>m u. fp_decode binary64 (d_mul (d_lit 911 10) (d_of_int (10 ^ 12))) = FFin False m u \<and> real m * 2 powi u = real (91100000000000 :: nat)"
proof -
  have l: "ilog2 911 = 9" "ilog2 10 = 3" "ilog2 1000000000000 = 39" "ilog2 (Suc 0) = 0" "ilog2 52515574534841876480000000000000 = 105"
    "ilog2 576460752303423488 = 59"
    by (rule ilog2_eqI; simp)+
  have a: "d_lit 911 10 = 4636111009531455078"
    by (simp add: d_lit_def fp_round_def fp_signed_def fp_round_mag_def frac_exponent_def l scale_frac_def double_defs div_rne_def Let_def)
  have b: "d_of_int (10 ^ 12) = 4786511204640096256"
    by (simp add: d_of_int_def fp_of_int_def fp_round_def fp_signed_def fp_round_mag_def frac_exponent_def l scale_frac_def double_defs div_rne_def Let_def)
  have da: "fp_decode binary64 4636111009531455078 = FFin False 6410592594585190 (-46)"
    "fp_decode binary64 4786511204640096256 = FFin False 8192000000000000 (-13)"
    "fp_decode binary64 4815674802031689728 = FFin False 5830400000000000 (-6)"
    by (simp_all add: fp_decode_def double_defs Let_def)
  have "d_mul (d_lit 911 10) (d_of_int (10 ^ 12)) = 4815674802031689728"
  proof -
    have "d_mul (d_lit 911 10) (d_of_int (10 ^ 12)) = fp_round binary64 False 52515574534841876480000000000000 576460752303423488"
      unfolding a b by (simp add: d_mul_def fp_mul_def da round_dyadic_def dyadic_def)
    moreover have e: "frac_exponent 52515574534841876480000000000000 576460752303423488 = 46"
      by (simp add: frac_exponent_def l scale_frac_def)
    have "fp_round_mag binary64 52515574534841876480000000000000 576460752303423488 = 4815674802031689728"
      by (simp add: fp_round_mag_def e double_defs scale_frac_def div_rne_def Let_def)
    ultimately show ?thesis by (simp add: fp_round_def fp_signed_def)
  qed
  moreover have "real 5830400000000000 * 2 powi (-6) = real (91100000000000 :: nat)" by (simp add: power_int_minus)
  ultimately show ?thesis using da(3) by metis
qed

definition ridge_num :: "arch \<Rightarrow> nat" where
  "ridge_num a = (case a of sm_80 \<Rightarrow> 62400 | sm_89 \<Rightarrow> 4555 | sm_90 \<Rightarrow> 19780)"

definition ridge_den :: "arch \<Rightarrow> nat" where
  "ridge_den a = (case a of sm_80 \<Rightarrow> 311 | sm_89 \<Rightarrow> 48 | sm_90 \<Rightarrow> 67)"

lemma ridge_ratio: "ridge a = fp_round binary64 False (ridge_num a) (ridge_den a)"
proof (cases a)
  case sm_80
  then show ?thesis using int_ratio [of 312 1555 311 62400] by (simp add: ridge_def ridge_num_def ridge_den_def)
next
  case sm_90
  then show ?thesis using int_ratio [of 989 3350 67 19780] by (simp add: ridge_def ridge_num_def ridge_den_def)
next
  case sm_89
  obtain m u where x: "fp_decode binary64 (d_mul (d_lit 911 10) (d_of_int (10 ^ 12))) = FFin False m u"
    "real m * 2 powi u = real (91100000000000 :: nat)" using ridge_sm_89_peak by blast
  obtain m' u' where y: "fp_decode binary64 (d_mul (d_lit 960 1) (d_of_int (10 ^ 9))) = FFin False m' u'"
    "real m' * 2 powi u' = real (960000000000 :: nat)"
    using d_mul_decode [of 960 "10 ^ 9"] lit_int [of 960] by auto
  have "d_div (d_mul (d_lit 911 10) (d_of_int (10 ^ 12))) (d_mul (d_lit 960 1) (d_of_int (10 ^ 9))) = fp_round binary64 False 4555 48"
    by (rule quotient_round [OF x _ y]) simp_all
  with sm_89 show ?thesis by (simp add: ridge_def ridge_num_def ridge_den_def)
qed

lemma ridge_mags:
  "fp_round_mag binary64 (ridge_num a * 2 ^ 34 - 1) (ridge_den a * 2 ^ 34) < fp_round_mag binary64 (ridge_num a) (ridge_den a)"
  "fp_round_mag binary64 (ridge_num a) (ridge_den a) < fp_inf_mag binary64" "0 < ridge_den a"
proof -
  have l: "ilog2 62400 = 15" "ilog2 311 = 8" "ilog2 1072023837081599 = 49" "ilog2 5342939316224 = 42"
    "ilog2 4555 = 12" "ilog2 48 = 5" "ilog2 78254304133119 = 46" "ilog2 824633720832 = 39"
    "ilog2 19780 = 14" "ilog2 67 = 6" "ilog2 339817812459519 = 48" "ilog2 1151051235328 = 40"
    by (rule ilog2_eqI; simp)+
  have e: "frac_exponent 62400 311 = 7" "frac_exponent 1072023837081599 5342939316224 = 7" "frac_exponent 4555 48 = 6"
    "frac_exponent 78254304133119 824633720832 = 6" "frac_exponent 19780 67 = 8" "frac_exponent 339817812459519 1151051235328 = 8"
    by (simp_all add: frac_exponent_def l scale_frac_def)
  have m: "fp_round_mag binary64 62400 311 = 4641263517587851692" "fp_round_mag binary64 1072023837081599 5342939316224 = 4641263517587851685"
    "fp_round_mag binary64 4555 48 = 4636378117556229461" "fp_round_mag binary64 78254304133119 824633720832 = 4636378117556229376"
    "fp_round_mag binary64 19780 67 = 4643901249623828021" "fp_round_mag binary64 339817812459519 1151051235328 = 4643901249623828006"
    by (simp_all only: fp_round_mag_def e double_defs Let_def) (simp_all add: scale_frac_def div_rne_def)
  show "fp_round_mag binary64 (ridge_num a * 2 ^ 34 - 1) (ridge_den a * 2 ^ 34) < fp_round_mag binary64 (ridge_num a) (ridge_den a)"
    by (cases a) (simp_all add: ridge_num_def ridge_den_def m)
  show "fp_round_mag binary64 (ridge_num a) (ridge_den a) < fp_inf_mag binary64"
    by (cases a) (simp_all add: ridge_num_def ridge_den_def m double_defs)
  show "0 < ridge_den a" by (cases a) (simp_all add: ridge_den_def)
qed

lemma d_ge_round:
  assumes "fp_round_mag binary64 a b < fp_inf_mag binary64" "fp_round_mag binary64 c d < fp_inf_mag binary64"
  shows "d_ge (fp_round binary64 False a b) (fp_round binary64 False c d) \<longleftrightarrow> \<not> d_lt (fp_round binary64 False a b) (fp_round binary64 False c d)"
proof -
  have "fp_finite binary64 (fp_round binary64 False a b)" "fp_finite binary64 (fp_round binary64 False c d)"
    using mag_decode [OF assms(1), of False] mag_decode [OF assms(2), of False] by (simp_all add: fp_round_def double_defs)
  then show ?thesis by (auto simp: d_ge_def d_lt_def fp_lt_def fp_finite_def)
qed

lemma roofline_exact:
  assumes "ComputeRoofline shape a = Some rf" "0 \<le> rf_flops rf" "rf_flops rf < 2 ^ 53" "0 < rf_bytes rf" "rf_bytes rf \<le> 2 ^ 34"
  shows "rf_bytes rf = (g_m shape * g_k shape + g_k shape * g_n shape + g_m shape * g_n shape) * dtype_bytes shape"
    "rf_flops rf = 2 * g_m shape * g_n shape * g_k shape"
    "intensity rf = d_div (d_of_int (rf_flops rf)) (d_of_int (rf_bytes rf))"
    "bound rf = compute_bound \<longleftrightarrow> int (ridge_num a) * rf_bytes rf \<le> rf_flops rf * int (ridge_den a)"
proof -
  let ?ai = "d_div (d_of_int (rf_flops rf)) (d_of_int (rf_bytes rf))"
  show "rf_bytes rf = (g_m shape * g_k shape + g_k shape * g_n shape + g_m shape * g_n shape) * dtype_bytes shape"
    "rf_flops rf = 2 * g_m shape * g_n shape * g_k shape" "intensity rf = ?ai"
    using assms(1,4) by (auto simp: ComputeRoofline_def i64_def Let_def split: bind_splits if_splits)
  have bound: "bound rf = compute_bound \<longleftrightarrow> d_ge ?ai (ridge a)"
    using assms(1,4) by (auto simp: ComputeRoofline_def i64_def Let_def split: bind_splits if_splits)
  have f: "real_of_int (rf_flops rf) = real (nat (rf_flops rf))" "nat (rf_flops rf) < 2 ^ 53" using assms(2,3) by (simp_all add: nat_less_iff)
  have b: "0 \<le> rf_bytes rf" "rf_bytes rf < 2 ^ 53" using assms(4,5) by simp_all
  from d_of_int_decode [OF assms(2,3)] obtain m u where x: "fp_decode binary64 (d_of_int (rf_flops rf)) = FFin False m u"
    "real m * 2 powi u = real (nat (rf_flops rf))" unfolding f(1) by blast
  from d_div_round [OF x f(2) b assms(4)] obtain p q where
    q: "0 < q" "?ai = fp_round binary64 False p q" "p * nat (rf_bytes rf) = nat (rf_flops rf) * q" "fp_round_mag binary64 p q < fp_inf_mag binary64"
    by blast
  have B: "0 < nat (rf_bytes rf)" "nat (rf_bytes rf) \<le> 2 ^ 34" using assms(4,5) by simp_all
  have "d_ge ?ai (ridge a) \<longleftrightarrow> \<not> nat (rf_flops rf) * ridge_den a < ridge_num a * nat (rf_bytes rf)"
    unfolding q(2) ridge_ratio d_ge_round [OF q(4) ridge_mags(2)]
    by (simp only: d_quotient_less [OF q(1,3,4) B ridge_mags(3,2,1)])
  also have "\<dots> \<longleftrightarrow> int (ridge_num a * nat (rf_bytes rf)) \<le> int (nat (rf_flops rf) * ridge_den a)" by (simp only: of_nat_le_iff not_less)
  also have "\<dots> \<longleftrightarrow> int (ridge_num a) * rf_bytes rf \<le> rf_flops rf * int (ridge_den a)" using assms(2) b(1) by simp
  finally show "bound rf = compute_bound \<longleftrightarrow> int (ridge_num a) * rf_bytes rf \<le> rf_flops rf * int (ridge_den a)" using bound by simp
qed

text \<open>C30. The report's verdict in exact arithmetic, although intensity, ridge and percentage are doubles: with
  the bytes and operations of the product below the range in which rounding shows, the bottleneck is
  latency when anything spills, else memory when the intensity is below the ridge, else latency when
  less than half of the warps are resident, else compute; the fixes follow the same tests, and the
  traffic is read plus write.\<close>

theorem BuildReport_verdict:
  assumes "BuildReport inp = Some r"
    and "bytes = (g_m s * g_k s + g_k s * g_n s + g_m s * g_n s) * dtype_bytes s" "flops = 2 * g_m s * g_n s * g_k s" "s = in_shape inp"
    and "0 \<le> flops" "flops < 2 ^ 53" "0 < bytes" "bytes \<le> 2 ^ 34"
    and "0 \<le> registers (in_ptxas inp)" "0 \<le> smem_bytes (in_ptxas inp)" "0 < in_threads_per_block inp"
    and "spills \<longleftrightarrow> 0 < spill_stores_bytes (in_ptxas inp) \<or> 0 < spill_loads_bytes (in_ptxas inp)"
    and "below \<longleftrightarrow> flops * int (ridge_den (in_arch inp)) < int (ridge_num (in_arch inp)) * bytes"
    and "occ = r_occupancy r"
  shows "r_bottleneck r = (if spills then Latency else if below then Memory else if 2 * active_warps occ < max_warps occ then Latency else Compute) \<and>
    r_suggested_fixes r =
      (if spills then [''reduce register pressure (smaller tile/fewer live values)''] else []) @
      (if occ_limiter occ = LimRegisters \<and> active_warps occ < max_warps occ then [''reduce unroll/block size to lower register pressure''] else []) @
      (if 2 * active_warps occ < max_warps occ then [''increase occupancy (smaller tile / fewer registers / less smem)''] else []) @
      (if below then [''wider vectorized loads / fuse to reduce traffic''] else []) \<and>
    r_global_read_bytes r + r_global_write_bytes r = bytes"
proof -
  obtain rf where o: "ComputeOccupancy (registers (in_ptxas inp)) (smem_bytes (in_ptxas inp)) (in_threads_per_block inp) (in_arch inp) = Some occ"
    and rf: "ComputeRoofline s (in_arch inp) = Some rf"
    and r: "r_spill_stores_bytes r = spill_stores_bytes (in_ptxas inp)" "r_spill_loads_bytes r = spill_loads_bytes (in_ptxas inp)"
      "r_roofline r = bound rf" "r_bottleneck r = DeriveBottleneck r" "r_suggested_fixes r = DeriveFixes r"
      "r_global_read_bytes r = (g_m s * g_k s + g_k s * g_n s) * dtype_bytes s" "r_global_write_bytes r = g_m s * g_n s * dtype_bytes s"
    using assms(1,4,14) by (auto simp: BuildReport_def i64_def Let_def DeriveBottleneck_def DeriveFixes_def split: bind_splits if_splits)
  have raw: "rf_bytes rf = bytes" "rf_flops rf = flops"
    using rf assms(2,3) by (auto simp: ComputeRoofline_def i64_def Let_def split: bind_splits if_splits)
  have "bound rf = compute_bound \<longleftrightarrow> \<not> below"
    using roofline_exact(4) [OF rf] assms(5-8,13) unfolding raw by (simp add: not_less)
  then have below: "bound rf = memory_bound \<longleftrightarrow> below" by (cases "bound rf") simp_all
  from occupancy_main [OF o assms(9-11)]
  have pct: "d_lt (occupancy_pct occ) (d_of_int 50) \<longleftrightarrow> 2 * active_warps occ < max_warps occ"
    "d_lt (occupancy_pct occ) (d_of_int 100) \<longleftrightarrow> active_warps occ < max_warps occ" by blast+
  show ?thesis
    unfolding r(4,5) DeriveBottleneck_def DeriveFixes_def r(1-3,6,7) assms(14) [symmetric] below pct assms(12)
    by (simp add: assms(2) algebra_simps)
qed

definition example_inputs :: ReportInputs where
  "example_inputs = \<lparr>in_kernel = ''matmul'', in_backend = Cuda, in_arch = sm_80,
     in_ptxas = \<lparr>registers = 40, smem_bytes = 49152, spill_stores_bytes = 0, spill_loads_bytes = 0, stack_bytes = 0, gmem_bytes = 0, cmem_bytes = 0\<rparr>,
     in_threads_per_block = 256, in_shape = \<lparr>g_m = 4096, g_n = 4096, g_k = 4096, dtype_bytes = 2\<rparr>, in_path = Scalar\<rparr>"

lemma BuildReport_verdict_witness:
  "\<exists>r. BuildReport example_inputs = Some r \<and> r_bottleneck r = Latency \<and> length (r_suggested_fixes r) = 1 \<and>
     r_global_read_bytes r + r_global_write_bytes r = 100663296"
proof -
  let ?occ = "occupancy_of (LimSmem, 3) 8 64"
  have occ: "ComputeOccupancy 40 49152 256 sm_80 = Some ?occ"
    by (simp add: ComputeOccupancy_def shared_limits_def cquot_def quota_def best_candidate_def in_i32_def)
  obtain r where r: "BuildReport example_inputs = Some r" "r_occupancy r = ?occ"
    by (simp add: BuildReport_def example_inputs_def occ ComputeRoofline_def i64_def in_i64_def Let_def)
  let ?s = "in_shape example_inputs"
  have "(0::int) \<le> 2 * g_m ?s * g_n ?s * g_k ?s" "2 * g_m ?s * g_n ?s * g_k ?s < 2 ^ 53"
    "0 < (g_m ?s * g_k ?s + g_k ?s * g_n ?s + g_m ?s * g_n ?s) * dtype_bytes ?s"
    "(g_m ?s * g_k ?s + g_k ?s * g_n ?s + g_m ?s * g_n ?s) * dtype_bytes ?s \<le> 2 ^ 34"
    "0 \<le> registers (in_ptxas example_inputs)" "0 \<le> smem_bytes (in_ptxas example_inputs)" "0 < in_threads_per_block example_inputs"
    by (simp_all add: example_inputs_def)
  from BuildReport_verdict [OF r(1) refl refl refl this refl refl refl] r show ?thesis
    by (simp add: example_inputs_def ridge_num_def ridge_den_def occupancy_of_def)
qed

text \<open>The percentage of two thirds of a hundred, as it is printed.\<close>

lemma format_g6_example: "format_g6 200 3 = ''66.6667''" "format_g6 100 1 = ''100''" "format_g6 1 20000000 = ''5e-08''"
proof -
  have "exp10_up 200 3 = 1" "exp10_up 100 1 = 2" "exp10_down 1 20000000 = 8"
    by (simp add: exp10_up.simps [of 200] exp10_up.simps [of 200 30] exp10_up.simps [of 200 300])
      (simp add: exp10_up.simps [of 100] exp10_up.simps [of 100 10] exp10_up.simps [of 100 100], simp add: exp10_down.simps)
  then have d: "digits6 200 3 = (666667, 1)" "digits6 100 1 = (100000, 2)" "digits6 1 20000000 = (500000, -8)"
    by (simp_all add: digits6_def exp10_def div_rne_def Let_def)
  have n: "nat_to_string 66 = ''66''" "nat_to_string 6667 = ''6667''" "nat_to_string 100 = ''100''" "nat_to_string 0 = ''0''"
    "nat_to_string 5 = ''5''" "nat_to_string 8 = ''8''"
    by (simp_all add: nat_to_string.simps [of 66] nat_to_string.simps [of 6] nat_to_string.simps [of 6667] nat_to_string.simps [of 666]
        nat_to_string.simps [of 100] nat_to_string.simps [of 10] nat_to_string.simps [of "Suc 0"] nat_to_string.simps [of 0]
        nat_to_string.simps [of 5] nat_to_string.simps [of 8] digit_char_def char_of_def bit_0)
  show "format_g6 200 3 = ''66.6667''" "format_g6 100 1 = ''100''" "format_g6 1 20000000 = ''5e-08''"
    by (simp_all add: format_g6_def d d [unfolded One_nat_def] n pad_def fraction_def strip_zeros_def)
qed

end
