(* ===== verification/Spec2Isabelle.thy ===== *)
theory Spec2Isabelle
  imports Metrics Bench CudaInt8 CudaAttention TilePlan KernelReport
begin

text \<open>
  A model of PolyKernel in Isabelle/HOL, with the theorems that make its parts correct.

  \<^bold>\<open>The program.\<close> PolyKernel is a small compiler and runtime for transformer kernels. An MLIR dialect
  describes the operations; passes infer shapes, fuse operations, plan tiles and memory, and emit
  portable CUDA/HIP kernel sources. A compile-time analyzer predicts occupancy and the roofline from
  compiler output. An autotuner enumerates tile configurations, a benchmark records those that pass a
  correctness gate, and a runtime detects the device, selects a recorded variant and serves it. CPU
  reference kernels and their command line drivers are the golden side; launchers run the generated
  kernels on the same files. A simulator of a wafer-scale dataflow fabric runs the matrix product as a
  SUMMA broadcast over a mesh of processing elements.

  \<^bold>\<open>Theories and sources.\<close> Paths are under \<open>src/\<close>; definitions keep the names of the sources.
  \<^item> Foundations. \<open>Prelude\<close>: machine integers, C++ division, decimal printing, results as sums.
    \<open>Ieee\<close>: executable binary floating point with round to nearest even over \<open>nat\<close>, and its meaning in
    the reals. \<open>Doubles\<close>, \<open>Bf16\<close>, \<open>Half\<close>, \<open>Libm\<close>: the formats the code uses and the conversions between
    them. \<open>Buffers\<close>: arrays with bounds checked accesses and counted loops. \<open>StdMap\<close>: \<open>std::map\<close>.
  \<^item> Dataflow simulator (\<open>lib/DataflowSim\<close>, \<open>include/PolyKernel/Dataflow\<close>). \<open>Fabric\<close>: wavelets, directions,
    colors. \<open>Channels\<close>: the interface of bounded FIFO banks, a locale. \<open>Router\<close>, \<open>Half\<close> and \<open>Pe\<close>: the
    router, compute element and SRAM of one element. \<open>Grid\<close>: the mesh and its two phase cycle. \<open>Tasks\<close>:
    the task scheduler. \<open>Summa\<close>: lowering, routes and the panel product. \<open>Metrics\<close>: the analytic model.
  \<^item> Autotuner and caches (\<open>lib/Autotune\<close>, \<open>lib/Runtime\<close>). \<open>ConfigSpace\<close>: the search space. \<open>Json\<close>: the
    interface of \<open>llvm::json\<close>. \<open>TuningCache\<close>, \<open>TuningDb\<close>, \<open>KernelCache\<close>: the versioned file, the
    database over it, and the cache of compiled binaries. \<open>Bench\<close>: gate, selection and driver of the
    benchmark. \<open>Runtime\<close>: device detection and serving.
  \<^item> Kernels. \<open>CpuRef\<close>, \<open>Attention\<close>: the CPU kernels (\<open>kernels/cpu\<close>). \<open>Npy\<close>, \<open>Drivers\<close>: the tensor files
    and the command line drivers. \<open>Simt\<close>, \<open>Warp\<close>: threads, barriers and warp shuffles. \<open>CudaElementwise\<close>,
    \<open>CudaGemm\<close>, \<open>CudaReduce\<close>, \<open>CudaFused\<close>: the generated kernels as \<open>LowerToCuda.cpp\<close> emits them.
    \<open>Fp8\<close>, \<open>Quant\<close>: the rounding onto 8 bit floating point grids and the quantized product
    (\<open>matmul_quant.cpp\<close>). \<open>CudaInt8\<close>: the int8 kernel of \<open>lib/Codegen\<close> and its GPU driver.
    \<open>CudaAttention\<close>: cache append and tiled attention (\<open>kernels/generated\<close>), its threads as single steps.
    \<open>GpuRun\<close>: the launchers \<open>cuda_run_main.cpp\<close> and \<open>hip_run_main.cpp\<close>.
  \<^item> Passes (\<open>lib/Passes\<close>, \<open>include/PolyKernel/IR\<close>). \<open>IrTypes\<close>: operations, verifiers, shape inference.
    \<open>IrRewrite\<close>: function bodies, what they compute, and the rewriter. \<open>IrFusion\<close>: the fusion passes.
    \<open>TilePlan\<close>: tiles, memory plan, report skeleton. \<open>LowerGpu\<close>: the emitting passes.
  \<^item> Analysis (\<open>lib/Analysis\<close>). \<open>Occupancy\<close>, \<open>ResourceLogs\<close>, \<open>KernelReport\<close>: occupancy models, readers of
    compiler output, roofline and report.

  \<^bold>\<open>How the state is modelled.\<close> Structs and classes are records, enumerations are datatypes, and an
  operation that changes an object returns the changed record. Machine words are \<open>word\<close> types where the
  code computes with bits; signed integers are \<open>int\<close> with the range tested where the code can leave it.
  Floating point numbers are bit patterns. A failing function returns \<open>Inl\<close> of its message; a read or
  write outside a buffer makes a run \<open>None\<close> (undefined behaviour). Drivers return the contents of the
  files they leave.

  \<^bold>\<open>What the lemmas show.\<close> Simulator: the channels of a router are bounded FIFOs under any
  interleaving of its operations, channel depths and grid dimensions are invariants of every reachable
  state, a cycle accounts for every wavelet, copy and loss, a lone wavelet takes one cycle per link, draining data tasks
  terminates, lowering tiles the product exactly, and the bottleneck verdict is decided by exact integers.
  Caches: the decoder reports the first violation of a table of fields, persisted entries and the binaries
  that back one are read back, selection in
  every reachable cache returns only validated entries of the requested key, and the runtime serves
  exactly those. Benchmark: nothing is timed before the gate, and what is recorded is what is selected.
  Kernels: under every fair schedule the GPU product equals the CPU reference bit for bit, fused kernels
  equal the unfused steps, reductions sum every element once, the cache append is that of the CPU, and the
  launchers leave the files of the host driver; the tiled attention is softmax attention in exact arithmetic
  when its threads keep in lockstep, which nothing in the kernel enforces.
  Passes: inference gives exactly the types of independent typing rules, fusion preserves typing, SSA form and meaning
  under any order of rewrites and terminates, planned tiles fit. (The fusion of attention and cache append
  preserves meaning only if the fused kernel attends to the new rows alone; \<open>IrFusion\<close> has the counterexample
  for one that attends to the appended cache, as the golden does.) Quantization: the software fp8 cast
  returns the nearest value of its format, the product is that of weights rounded beforehand, and the
  int8 kernel computes the host's result where the scales are finite. Analysis: occupancy is the exact
  optimum, verdicts are those of exact arithmetic.

  \<^bold>\<open>Interfaces.\<close> Each locale is interpreted on the model's definitions: channel banks for both sides of the
  router, keyed stores for the database, shares of a row for the threads of a block and of a half warp,
  detectors for the three device detectors, rounders for the two 8 bit formats. Schedules (\<open>fair\<close>), the file system (\<open>fs_laws\<close>), the JSON
  library (\<open>json_roundtrip\<close>), the device (\<open>ieee_device\<close>) and the GPU runtime (\<open>backend_laws\<close>) are
  parameters with named laws, and each has an instance the witnesses use.

  \<^bold>\<open>Bounds and fuel.\<close> There is no fuel: loops are bounded recursion, and the two loops of the program that may
  not end (the task scheduler, the greedy rewrite driver) are step relations or partial functions with
  termination proved where it holds. Integer ranges are hypotheses where the code does not test them.

  \<^bold>\<open>Assumptions.\<close> The compiler contracts no multiplication and addition; a computed NaN has one pattern;
  memory for the arrays of the host is available; writes to an open file succeed. Products of
  dimensions in \<open>IrTypes\<close> and \<open>TilePlan\<close> are \<open>int64_t\<close>, and an overflow is \<open>None\<close>. \<open>expf\<close>, \<open>erf\<close>, \<open>std::stof\<close> and \<open>std::stod\<close> are parameters.

  \<^bold>\<open>Not modelled.\<close> The text of the emitted sources (the kernels it contains are modelled, and
  \<open>--lower-to-hip\<close> emits the same kernels); the tensor core variants under
  \<open>kernels/generated\<close>; the canonicalization pass, whose folds are
  MLIR's; custom parsing and printing of the function operation; the two stand-alone benchmark programs,
  which only time launches; the Python tools and the tests.
\<close>

end
